(* ===== verification/Prelude.thy ===== *)
theory Prelude
  imports Main "HOL-Library.Word"
begin

text \<open>
  Shared vocabulary of the development: fallible results as sums (\<open>Inl\<close> the error),
  saturating and range-checked machine arithmetic on the integers the code uses, and the
  list-table operations that the relay's SQL statements are translated to, with the
  lemmas that the component theories rest on. The collection \<open>result_simps\<close> eliminates
  chains of early returns.
\<close>

named_theorems result_simps
named_theorems table_simps

subsection \<open>Results\<close>

definition bind_result :: "'e + 'a \<Rightarrow> ('a \<Rightarrow> 'e + 'b) \<Rightarrow> 'e + 'b" where
  "bind_result m f = (case m of Inl e \<Rightarrow> Inl e | Inr x \<Rightarrow> f x)"

definition require :: "bool \<Rightarrow> 'e \<Rightarrow> 'e + unit" where
  "require b e = (if b then Inr () else Inl e)"

definition ok_or :: "'a option \<Rightarrow> 'e \<Rightarrow> 'e + 'a" where
  "ok_or x e = (case x of None \<Rightarrow> Inl e | Some v \<Rightarrow> Inr v)"

lemma bind_result_Inl [simp]: "bind_result (Inl e) f = Inl e"
  by (simp add: bind_result_def)

lemma bind_result_Inr [simp]: "bind_result (Inr x) f = f x"
  by (simp add: bind_result_def)

lemma bind_result_eq_Inr [result_simps]:
  "bind_result m f = Inr y \<longleftrightarrow> (\<exists>x. m = Inr x \<and> f x = Inr y)"
  by (cases m) auto

lemma bind_result_eq_Inl [result_simps]:
  "bind_result m f = Inl e \<longleftrightarrow> m = Inl e \<or> (\<exists>x. m = Inr x \<and> f x = Inl e)"
  by (cases m) auto

lemma require_eq_Inr [result_simps]: "require b e = Inr u \<longleftrightarrow> b"
  by (simp add: require_def)

lemma require_eq_Inl [result_simps]: "require b e = Inl e' \<longleftrightarrow> \<not> b \<and> e' = e"
  by (auto simp: require_def)

lemma require_simps [simp]: "require True e = Inr ()" "require False e = Inl e"
  by (simp_all add: require_def)

lemma ok_or_eq_Inr [result_simps]: "ok_or x e = Inr v \<longleftrightarrow> x = Some v"
  by (cases x) (auto simp: ok_or_def)

lemma ok_or_eq_Inl [result_simps]: "ok_or x e = Inl e' \<longleftrightarrow> x = None \<and> e' = e"
  by (cases x) (auto simp: ok_or_def)

lemma ok_or_simps [simp]: "ok_or (Some v) e = Inr v" "ok_or None e = Inl e"
  by (simp_all add: ok_or_def)

subsection \<open>Machine integers\<close>

text \<open>
  Rust's \<open>u64\<close>, \<open>i64\<close> and \<open>i32\<close> values are integers in range; \<open>saturating_add\<close>
  and \<open>try_from(..).unwrap_or(MAX)\<close> clamp, and a PostgreSQL \<open>bigint\<close> expression
  that leaves the range is an error.
\<close>

definition i64_max :: int where
  "i64_max = 9223372036854775807"

definition i64_min :: int where
  "i64_min = -9223372036854775808"

definition u64_max :: int where
  "u64_max = 18446744073709551615"

definition in_i64 :: "int \<Rightarrow> bool" where
  "in_i64 x \<longleftrightarrow> i64_min \<le> x \<and> x \<le> i64_max"

definition in_u64 :: "int \<Rightarrow> bool" where
  "in_u64 x \<longleftrightarrow> 0 \<le> x \<and> x \<le> u64_max"

definition sat_add_u64 :: "int \<Rightarrow> int \<Rightarrow> int" where
  "sat_add_u64 a b = min u64_max (a + b)"

definition sat_add_i64 :: "int \<Rightarrow> int \<Rightarrow> int" where
  "sat_add_i64 a b = max i64_min (min i64_max (a + b))"

definition to_i64_sat :: "int \<Rightarrow> int" where
  "to_i64_sat n = (if n \<le> i64_max then n else i64_max)"

lemmas machine_int_defs =
  i64_max_def i64_min_def u64_max_def in_i64_def in_u64_def sat_add_u64_def sat_add_i64_def
  to_i64_sat_def

lemma to_i64_sat_range: "0 \<le> n \<Longrightarrow> 0 \<le> to_i64_sat n \<and> to_i64_sat n \<le> i64_max"
  by (auto simp: machine_int_defs)

subsection \<open>Tables\<close>

text \<open>
  A table is the list of its rows. \<open>update_where\<close> is \<open>UPDATE .. SET .. WHERE\<close>,
  \<open>delete_where\<close> is \<open>DELETE .. WHERE\<close>, \<open>rows_where\<close> counts the affected rows
  and \<open>fetch_optional\<close> is a query read through sqlx's function of that name (the first
  matching row).
\<close>

definition update_where :: "('r \<Rightarrow> bool) \<Rightarrow> ('r \<Rightarrow> 'r) \<Rightarrow> 'r list \<Rightarrow> 'r list" where
  "update_where p f rows = map (\<lambda>r. if p r then f r else r) rows"

definition delete_where :: "('r \<Rightarrow> bool) \<Rightarrow> 'r list \<Rightarrow> 'r list" where
  "delete_where p rows = filter (\<lambda>r. \<not> p r) rows"

definition rows_where :: "('r \<Rightarrow> bool) \<Rightarrow> 'r list \<Rightarrow> nat" where
  "rows_where p rows = length (filter p rows)"

definition fetch_optional :: "('r \<Rightarrow> bool) \<Rightarrow> 'r list \<Rightarrow> 'r option" where
  "fetch_optional p rows = find p rows"

definition exists_row :: "('r \<Rightarrow> bool) \<Rightarrow> 'r list \<Rightarrow> bool" where
  "exists_row p rows = list_ex p rows"

text \<open>\<open>INSERT .. ON CONFLICT DO NOTHING\<close> with the conflict as a predicate.\<close>

definition insert_if_absent :: "('r \<Rightarrow> bool) \<Rightarrow> 'r \<Rightarrow> 'r list \<Rightarrow> 'r list" where
  "insert_if_absent conflict r rows = (if exists_row conflict rows then rows else rows @ [r])"

lemma update_where_simps [simp]:
  "update_where p f [] = []"
  "update_where p f (r # rs) = (if p r then f r else r) # update_where p f rs"
  "update_where p f (rs @ rs') = update_where p f rs @ update_where p f rs'"
  "length (update_where p f rs) = length rs"
  by (simp_all add: update_where_def)

lemma delete_where_simps [simp]:
  "delete_where p [] = []"
  "delete_where p (r # rs) = (if p r then delete_where p rs else r # delete_where p rs)"
  by (simp_all add: delete_where_def)

lemma rows_where_simps [simp]:
  "rows_where p [] = 0"
  "rows_where p (r # rs) = (if p r then Suc (rows_where p rs) else rows_where p rs)"
  "rows_where p (rs @ rs') = rows_where p rs + rows_where p rs'"
  by (simp_all add: rows_where_def)

lemma set_update_where: "set (update_where p f rs) = (\<lambda>r. if p r then f r else r) ` set rs"
  by (simp add: update_where_def)

lemma set_delete_where [simp]: "set (delete_where p rs) = {r \<in> set rs. \<not> p r}"
  by (auto simp: delete_where_def)

lemma exists_row_iff [simp]: "exists_row p rs \<longleftrightarrow> (\<exists>r\<in>set rs. p r)"
  by (simp add: exists_row_def list_ex_iff)

lemma rows_where_0_iff: "rows_where p rs = 0 \<longleftrightarrow> (\<forall>r\<in>set rs. \<not> p r)"
  by (simp add: rows_where_def filter_empty_conv)

lemma rows_where_pos_iff: "0 < rows_where p rs \<longleftrightarrow> (\<exists>r\<in>set rs. p r)"
  using rows_where_0_iff [of p rs] by auto

lemma fetch_optional_Some: "fetch_optional p rs = Some r \<Longrightarrow> r \<in> set rs \<and> p r"
  by (auto simp: fetch_optional_def find_Some_iff)

lemma fetch_optional_None_iff: "fetch_optional p rs = None \<longleftrightarrow> (\<forall>r\<in>set rs. \<not> p r)"
  by (auto simp: fetch_optional_def find_None_iff)

lemma fetch_optional_Cons [simp]:
  "fetch_optional p [] = None"
  "fetch_optional p (r # rs) = (if p r then Some r else fetch_optional p rs)"
  by (simp_all add: fetch_optional_def)

lemma update_where_id: "(\<And>r. r \<in> set rs \<Longrightarrow> p r \<Longrightarrow> f r = r) \<Longrightarrow> update_where p f rs = rs"
  by (induction rs) auto

lemma filter_update_where_other:
  "(\<And>r. p r \<Longrightarrow> \<not> q r \<and> \<not> q (f r)) \<Longrightarrow> filter q (update_where p f rs) = filter q rs"
  by (induction rs) auto

lemma filter_delete_where_other:
  "(\<And>r. p r \<Longrightarrow> \<not> q r) \<Longrightarrow> filter q (delete_where p rs) = filter q rs"
  by (induction rs) auto

lemma filter_insert_if_absent_other:
  "\<not> q r \<Longrightarrow> filter q (insert_if_absent c r rs) = filter q rs"
  by (simp add: insert_if_absent_def)

lemma map_update_where:
  "(\<And>r. p r \<Longrightarrow> g (f r) = g r) \<Longrightarrow> map g (update_where p f rs) = map g rs"
  by (induction rs) auto

lemma distinct_map_delete_where: "distinct (map g rs) \<Longrightarrow> distinct (map g (delete_where p rs))"
  by (simp add: delete_where_def distinct_map_filter)

lemma distinct_map_insert_if_absent:
  "distinct (map g rs) \<Longrightarrow> (\<And>r'. r' \<in> set rs \<Longrightarrow> g r' = g r \<Longrightarrow> c r') \<Longrightarrow>
   distinct (map g (insert_if_absent c r rs))"
  by (auto simp: insert_if_absent_def)

lemmas table_frame_simps [table_simps] =
  filter_update_where_other filter_delete_where_other filter_insert_if_absent_other

text \<open>In a keyed table the row with a given key is unique.\<close>

lemma keyed_unique:
  "distinct (map g rs) \<Longrightarrow> r \<in> set rs \<Longrightarrow> r' \<in> set rs \<Longrightarrow> g r = g r' \<Longrightarrow> r = r'"
  by (auto simp: distinct_map inj_on_def)

lemma fetch_optional_keyed:
  "distinct (map g rs) \<Longrightarrow> r \<in> set rs \<Longrightarrow> fetch_optional (\<lambda>x. g x = g r) rs = Some r"
  by (induction rs) (auto simp: image_iff)

lemma fetch_update_where:
  "(\<And>r. g (f r) = g r) \<Longrightarrow>
   fetch_optional (\<lambda>r. g r = k) (update_where p f rows) =
     map_option (\<lambda>r. if p r then f r else r) (fetch_optional (\<lambda>r. g r = k) rows)"
  by (induction rows) auto

lemma fetch_append:
  "fetch_optional p (xs @ ys) = (case fetch_optional p xs of Some r \<Rightarrow> Some r | None \<Rightarrow> fetch_optional p ys)"
  by (induction xs) auto

lemma fetch_update_same:
  "(\<And>r. g (f r) = g r) \<Longrightarrow>
   fetch_optional (\<lambda>r. g r = k) (update_where (\<lambda>r. g r = k) f rows) =
     map_option f (fetch_optional (\<lambda>r. g r = k) rows)"
  by (induction rows) auto

lemma fetch_map_key:
  "(\<And>r. p (f r) = p r) \<Longrightarrow> fetch_optional p (map f rows) = map_option f (fetch_optional p rows)"
  by (induction rows) auto

lemma fetch_optional_filter: "fetch_optional p (filter p rows) = fetch_optional p rows"
  by (induction rows) auto

end
