(* ===== verification/Turnstile.thy ===== *)
theory Turnstile
  imports Prelude
begin

text \<open>
  The write turnstile of \<open>crates/yapstack-common/src/write_turnstile.rs\<close>: a ticket lock
  that serves in-process SQLite writers in arrival order. The counters are the ones under
  the mutex; a writer thread draws a ticket, waits until it is served, and passes the turn
  on when its guard is dropped. \<open>gate_step\<close> interleaves any number of writers; the
  field \<open>gs_drawn\<close> records who drew which ticket and is read by no step's guard.
  The u64 counters are natural numbers here: they count tickets from zero and the code
  gives overflow no meaning.
\<close>

record tickets =
  tk_next :: nat
  tk_serving :: nat

definition turnstile_new :: tickets where
  "turnstile_new = \<lparr>tk_next = 0, tk_serving = 0\<rparr>"

definition draw_ticket :: "tickets \<Rightarrow> nat \<times> tickets" where
  "draw_ticket t = (tk_next t, t\<lparr>tk_next := tk_next t + 1\<rparr>)"

definition is_served :: "tickets \<Rightarrow> nat \<Rightarrow> bool" where
  "is_served t mine \<longleftrightarrow> tk_serving t = mine"

definition pass_turn :: "tickets \<Rightarrow> tickets" where
  "pass_turn t = t\<lparr>tk_serving := tk_serving t + 1\<rparr>"

definition waiting :: "tickets \<Rightarrow> nat" where
  "waiting t = (tk_next t - tk_serving t) - 1"

datatype writer = Outside | Queued nat | Writing nat

datatype gate_event = Draw nat | Enter nat | Leave nat

record gate_sys =
  gs_tickets :: tickets
  gs_writer :: "nat \<Rightarrow> writer"
  gs_drawn :: "nat list"

definition gate_init :: gate_sys where
  "gate_init = \<lparr>gs_tickets = turnstile_new, gs_writer = (\<lambda>_. Outside), gs_drawn = []\<rparr>"

text \<open>
  \<open>acquire\<close> is two steps, since other writers run between the draw and the moment the
  condition of its wait loop fails; \<open>Leave\<close> is the guard's \<open>drop\<close>, which also
  runs when the writer panics.
\<close>

inductive gate_step :: "gate_sys \<Rightarrow> gate_event \<Rightarrow> gate_sys \<Rightarrow> bool" where
  step_draw: "gs_writer s i = Outside \<Longrightarrow> draw_ticket (gs_tickets s) = (mine, t) \<Longrightarrow>
     gate_step s (Draw i)
       (s\<lparr>gs_tickets := t, gs_writer := (gs_writer s)(i := Queued mine), gs_drawn := gs_drawn s @ [i]\<rparr>)"
| step_enter: "gs_writer s i = Queued mine \<Longrightarrow> is_served (gs_tickets s) mine \<Longrightarrow>
     gate_step s (Enter i) (s\<lparr>gs_writer := (gs_writer s)(i := Writing mine)\<rparr>)"
| step_leave: "gs_writer s i = Writing mine \<Longrightarrow>
     gate_step s (Leave i)
       (s\<lparr>gs_tickets := pass_turn (gs_tickets s), gs_writer := (gs_writer s)(i := Outside)\<rparr>)"

inductive gate_run :: "gate_sys \<Rightarrow> gate_event list \<Rightarrow> gate_sys \<Rightarrow> bool" where
  run_nil: "gate_run s [] s"
| run_cons: "gate_step s e t \<Longrightarrow> gate_run t es u \<Longrightarrow> gate_run s (e # es) u"

inductive_cases gate_step_DrawE: "gate_step s (Draw i) t"
inductive_cases gate_step_EnterE: "gate_step s (Enter i) t"
inductive_cases gate_step_LeaveE: "gate_step s (Leave i) t"
inductive_cases gate_run_NilE: "gate_run s [] t"
inductive_cases gate_run_ConsE: "gate_run s (e # es) t"

fun ticket_of :: "writer \<Rightarrow> nat option" where
  "ticket_of Outside = None"
| "ticket_of (Queued k) = Some k"
| "ticket_of (Writing k) = Some k"

text \<open>The line: who is being served, then the waiting writers in the order they will be.\<close>

definition gate_line :: "gate_sys \<Rightarrow> nat list" where
  "gate_line s = drop (tk_serving (gs_tickets s)) (gs_drawn s)"

definition gate_inv :: "gate_sys \<Rightarrow> bool" where
  "gate_inv s \<longleftrightarrow>
     tk_next (gs_tickets s) = length (gs_drawn s) \<and>
     tk_serving (gs_tickets s) \<le> tk_next (gs_tickets s) \<and>
     (\<forall>i k. ticket_of (gs_writer s i) = Some k \<longleftrightarrow>
        tk_serving (gs_tickets s) \<le> k \<and> k < tk_next (gs_tickets s) \<and> gs_drawn s ! k = i) \<and>
     (\<forall>i k. gs_writer s i = Writing k \<longrightarrow> k = tk_serving (gs_tickets s))"

lemmas gate_defs = draw_ticket_def is_served_def pass_turn_def turnstile_new_def

lemma ticket_of_None_iff [simp]: "ticket_of w = None \<longleftrightarrow> w = Outside"
  by (cases w) auto

lemma gate_inv_init: "gate_inv gate_init"
  by (simp add: gate_inv_def gate_init_def gate_defs)

lemma gate_invI:
  assumes "tk_next (gs_tickets s) = length (gs_drawn s)"
    and "tk_serving (gs_tickets s) \<le> tk_next (gs_tickets s)"
    and "\<And>i k. ticket_of (gs_writer s i) = Some k \<longleftrightarrow>
      tk_serving (gs_tickets s) \<le> k \<and> k < tk_next (gs_tickets s) \<and> gs_drawn s ! k = i"
    and "\<And>i k. gs_writer s i = Writing k \<Longrightarrow> k = tk_serving (gs_tickets s)"
  shows "gate_inv s"
  unfolding gate_inv_def using assms by blast

lemma gate_inv_ticketD:
  assumes "gate_inv s" and "ticket_of (gs_writer s i) = Some k"
  shows "tk_serving (gs_tickets s) \<le> k" and "k < tk_next (gs_tickets s)" and "gs_drawn s ! k = i"
  using assms by (simp_all add: gate_inv_def)

lemma gate_inv_ticketI:
  "gate_inv s \<Longrightarrow> tk_serving (gs_tickets s) \<le> k \<Longrightarrow> k < tk_next (gs_tickets s) \<Longrightarrow>
   ticket_of (gs_writer s (gs_drawn s ! k)) = Some k"
  by (simp add: gate_inv_def)

lemma gate_inv_ticket_iff:
  "gate_inv s \<Longrightarrow> ticket_of (gs_writer s i) = Some k \<longleftrightarrow>
     tk_serving (gs_tickets s) \<le> k \<and> k < tk_next (gs_tickets s) \<and> gs_drawn s ! k = i"
  by (simp add: gate_inv_def)

lemma gate_inv_WritingD: "gate_inv s \<Longrightarrow> gs_writer s i = Writing k \<Longrightarrow> k = tk_serving (gs_tickets s)"
  by (simp add: gate_inv_def)

lemma gate_inv_draw:
  assumes inv: "gate_inv s" and w: "gs_writer s i = Outside"
    and d: "draw_ticket (gs_tickets s) = (mine, t)"
  shows "gate_inv (s\<lparr>gs_tickets := t, gs_writer := (gs_writer s)(i := Queued mine),
                     gs_drawn := gs_drawn s @ [i]\<rparr>)"
proof -
  have fresh: "gs_drawn s ! k \<noteq> i"
    if "tk_serving (gs_tickets s) \<le> k" "k < tk_next (gs_tickets s)" for k
    using gate_inv_ticketI [OF inv that] w by auto
  have len: "length (gs_drawn s) = tk_next (gs_tickets s)"
    using inv by (simp add: gate_inv_def)
  have mt: "mine = tk_next (gs_tickets s)" "tk_next t = Suc mine" "tk_serving t = tk_serving (gs_tickets s)"
    using d by (auto simp: draw_ticket_def)
  have "ticket_of (((gs_writer s)(i := Queued mine)) j) = Some k \<longleftrightarrow>
      tk_serving (gs_tickets s) \<le> k \<and> k < Suc mine \<and> (gs_drawn s @ [i]) ! k = j" for j k
  proof (cases "k = mine")
    case True
    moreover have "ticket_of (gs_writer s j) \<noteq> Some mine"
      using gate_inv_ticketD(2) [OF inv, of j mine] mt(1) by auto
    moreover have "tk_serving (gs_tickets s) \<le> mine"
      using inv mt(1) by (simp add: gate_inv_def)
    ultimately show ?thesis by (simp add: mt(1) len [symmetric])
  next
    case False
    then have "(gs_drawn s @ [i]) ! k = gs_drawn s ! k" if "k < Suc mine"
      using that mt(1) len by (simp add: nth_append)
    with False fresh mt(1) show ?thesis
      by (cases "j = i") (auto simp: gate_inv_ticket_iff [OF inv] less_Suc_eq)
  qed
  moreover have "((gs_writer s)(i := Queued mine)) j = Writing k \<Longrightarrow> k = tk_serving (gs_tickets s)" for j k
    using gate_inv_WritingD [OF inv, of j k] by (auto split: if_splits)
  moreover have "tk_serving (gs_tickets s) \<le> Suc mine"
    using inv mt(1) by (simp add: gate_inv_def)
  ultimately show ?thesis
    by (intro gate_invI) (simp_all del: fun_upd_apply add: mt(2,3) len [folded mt(1)])
qed

lemma gate_inv_enter:
  assumes inv: "gate_inv s" and w: "gs_writer s i = Queued mine"
    and sv: "is_served (gs_tickets s) mine"
  shows "gate_inv (s\<lparr>gs_writer := (gs_writer s)(i := Writing mine)\<rparr>)"
proof -
  let ?w = "(gs_writer s)(i := Writing mine)"
  have "ticket_of (?w j) = ticket_of (gs_writer s j)" for j
    using w by simp
  moreover have "?w j = Writing k \<Longrightarrow> k = tk_serving (gs_tickets s)" for j k
    using gate_inv_WritingD [OF inv, of j k] sv by (auto simp: is_served_def split: if_splits)
  ultimately show ?thesis
    using inv unfolding gate_inv_def by (simp del: fun_upd_apply)
qed

lemma gate_inv_leave:
  assumes inv: "gate_inv s" and w: "gs_writer s i = Writing mine"
  shows "gate_inv (s\<lparr>gs_tickets := pass_turn (gs_tickets s), gs_writer := (gs_writer s)(i := Outside)\<rparr>)"
    (is "gate_inv ?t")
proof -
  let ?n = "tk_serving (gs_tickets s)" and ?m = "tk_next (gs_tickets s)"
  have tk: "ticket_of (gs_writer s i) = Some ?n"
    using gate_inv_WritingD [OF inv w] w by simp
  note live = gate_inv_ticketD [OF inv tk]
  have "ticket_of (gs_writer ?t j) = Some k \<longleftrightarrow> Suc ?n \<le> k \<and> k < ?m \<and> gs_drawn s ! k = j" for j k
  proof (cases "j = i")
    case True
    have "k = ?n" if "?n \<le> k" "k < ?m" "gs_drawn s ! k = i"
      using gate_inv_ticketI [OF inv that(1,2)] that(3) tk by simp
    with True show ?thesis by auto
  next
    case False
    then have "k \<noteq> ?n" if "gs_drawn s ! k = j" using that live(3) by auto
    with False inv show ?thesis by (auto simp: gate_inv_def Suc_le_eq order_less_le)
  qed
  moreover have "gs_writer ?t j \<noteq> Writing k" for j k
  proof
    assume a: "gs_writer ?t j = Writing k"
    then have "j \<noteq> i" and "gs_writer s j = Writing k" by (auto split: if_splits)
    moreover from this have "k = ?n" using gate_inv_WritingD [OF inv] by blast
    ultimately show False using gate_inv_ticketD(3) [OF inv, of j ?n] live(3) by simp
  qed
  ultimately show ?thesis
    using inv live(2) by (simp add: gate_inv_def gate_defs)
qed

lemma gate_step_inv: "gate_step s e t \<Longrightarrow> gate_inv s \<Longrightarrow> gate_inv t"
  by (induction rule: gate_step.induct) (blast intro: gate_inv_draw gate_inv_enter gate_inv_leave)+

lemma gate_run_inv: "gate_run s es t \<Longrightarrow> gate_inv s \<Longrightarrow> gate_inv t"
  by (induction rule: gate_run.induct) (blast intro: gate_step_inv)+

text \<open>Every writer that holds a ticket keeps it until it leaves, and the turn only moves on.\<close>

lemma gate_step_ticket_kept:
  "gate_step s e t \<Longrightarrow> ticket_of (gs_writer s i) = Some k \<Longrightarrow> e \<noteq> Leave i \<Longrightarrow>
   ticket_of (gs_writer t i) = Some k"
  by (induction rule: gate_step.induct) auto

definition leaves :: "gate_event list \<Rightarrow> nat" where
  "leaves es = length (filter (\<lambda>e. case e of Leave _ \<Rightarrow> True | _ \<Rightarrow> False) es)"

lemma gate_step_serving:
  "gate_step s e t \<Longrightarrow> tk_serving (gs_tickets t) = tk_serving (gs_tickets s) + leaves [e]"
  by (induction rule: gate_step.induct) (auto simp: gate_defs leaves_def)

lemma gate_run_serving:
  "gate_run s es t \<Longrightarrow> tk_serving (gs_tickets t) = tk_serving (gs_tickets s) + leaves es"
  by (induction rule: gate_run.induct) (auto simp: leaves_def dest!: gate_step_serving)

lemma gate_run_ticket_kept:
  "gate_run s es t \<Longrightarrow> ticket_of (gs_writer s i) = Some k \<Longrightarrow> Leave i \<notin> set es \<Longrightarrow>
   ticket_of (gs_writer t i) = Some k"
  by (induction rule: gate_run.induct) (auto dest: gate_step_ticket_kept)

lemma gate_inv_reach: "gate_run gate_init es s \<Longrightarrow> gate_inv s"
  using gate_inv_init gate_run_inv by blast

text \<open>The interface its clients rely on: an exclusive lock with a waiting line.\<close>

locale exclusive_lock =
  fixes ok :: "'s \<Rightarrow> bool" and holds :: "'s \<Rightarrow> 'i \<Rightarrow> bool" and line :: "'s \<Rightarrow> 'i list"
    and step :: "'s \<Rightarrow> 'e \<Rightarrow> 's \<Rightarrow> bool" and leave :: "'i \<Rightarrow> 'e"
  assumes ok_step: "step s e t \<Longrightarrow> ok s \<Longrightarrow> ok t"
    and line_distinct: "ok s \<Longrightarrow> distinct (line s)"
    and holder_first: "ok s \<Longrightarrow> holds s i \<Longrightarrow> line s \<noteq> [] \<and> hd (line s) = i"
    and line_grows: "ok s \<Longrightarrow> step s e t \<Longrightarrow> (\<forall>i. e \<noteq> leave i) \<Longrightarrow> \<exists>new. line t = line s @ new"
    and line_leave: "ok s \<Longrightarrow> step s (leave i) t \<Longrightarrow> line t = tl (line s) \<and> holds s i"
begin

lemma holder_unique: "ok s \<Longrightarrow> holds s i \<Longrightarrow> holds s j \<Longrightarrow> i = j"
  using holder_first by metis

lemma only_the_head_leaves:
  assumes "ok s" and "step s e t" and "line s = i # rest"
  shows "(\<exists>new. line t = i # rest @ new) \<or> (e = leave i \<and> line t = rest)"
proof (cases "\<exists>j. e = leave j")
  case True
  then obtain j where j: "e = leave j" ..
  with assms line_leave holder_first have "line t = tl (line s)" "hd (line s) = j" by blast+
  with assms j show ?thesis by simp
next
  case False
  with assms line_grows [of s e t] show ?thesis by auto
qed

lemma predecessors_shrink:
  assumes "ok s" and "step s e t" and "line s = before @ i # rest" and "e \<noteq> leave i"
  shows "\<exists>before' rest'. line t = before' @ i # rest' \<and> (before' = before \<or> before' = tl before)"
proof (cases before)
  case Nil
  with assms only_the_head_leaves [of s e t i rest] show ?thesis by (metis append_Nil append_Cons)
next
  case (Cons b bs)
  with assms only_the_head_leaves [of s e t b "bs @ i # rest"]
  have "(\<exists>new. line t = b # bs @ i # rest @ new) \<or> line t = bs @ i # rest" by auto
  with Cons show ?thesis by (metis append_Cons list.sel(3))
qed

end

definition gate_holds :: "gate_sys \<Rightarrow> nat \<Rightarrow> bool" where
  "gate_holds s i \<longleftrightarrow> (\<exists>k. gs_writer s i = Writing k)"

lemma gate_line_nth:
  "gate_inv s \<Longrightarrow> j < length (gate_line s) \<Longrightarrow>
   ticket_of (gs_writer s (gate_line s ! j)) = Some (tk_serving (gs_tickets s) + j)"
  by (simp add: gate_line_def gate_inv_def)

lemma gate_line_distinct: "gate_inv s \<Longrightarrow> distinct (gate_line s)"
  unfolding distinct_conv_nth by (metis add_left_cancel gate_line_nth option.inject)

lemma gate_line_holder:
  assumes inv: "gate_inv s" and h: "gate_holds s i"
  shows "gate_line s \<noteq> [] \<and> hd (gate_line s) = i"
proof -
  from h obtain k where k: "gs_writer s i = Writing k" by (auto simp: gate_holds_def)
  then have "ticket_of (gs_writer s i) = Some (tk_serving (gs_tickets s))"
    using gate_inv_WritingD [OF inv k] by simp
  from gate_inv_ticketD [OF inv this] inv show ?thesis
    by (simp add: gate_line_def hd_drop_conv_nth gate_inv_def)
qed

lemma gate_line_step:
  "gate_step s e t \<Longrightarrow> gate_inv s \<Longrightarrow>
   gate_line t = (case e of Draw i \<Rightarrow> gate_line s @ [i] | Enter i \<Rightarrow> gate_line s | Leave i \<Rightarrow> tl (gate_line s))"
  by (induction rule: gate_step.induct)
     (auto simp: gate_line_def gate_defs gate_inv_def drop_Suc tl_drop)

interpretation wt: exclusive_lock gate_inv gate_holds gate_line gate_step Leave
proof
  show "gate_step s e t \<Longrightarrow> gate_inv s \<Longrightarrow> gate_inv t" for s e t by (rule gate_step_inv)
  show "gate_inv s \<Longrightarrow> distinct (gate_line s)" for s by (rule gate_line_distinct)
  show "gate_inv s \<Longrightarrow> gate_holds s i \<Longrightarrow> gate_line s \<noteq> [] \<and> hd (gate_line s) = i" for s i
    by (rule gate_line_holder)
  show "gate_inv s \<Longrightarrow> gate_step s e t \<Longrightarrow> \<forall>i. e \<noteq> Leave i \<Longrightarrow> \<exists>new. gate_line t = gate_line s @ new"
    for s e t by (drule (1) gate_line_step [rotated]) (auto split: gate_event.splits)
  show "gate_inv s \<Longrightarrow> gate_step s (Leave i) t \<Longrightarrow> gate_line t = tl (gate_line s) \<and> gate_holds s i"
    for s i t using gate_line_step [of s "Leave i" t] by (auto simp: gate_holds_def elim: gate_step_LeaveE)
qed

lemma gate_waiting_line: "gate_inv s \<Longrightarrow> waiting (gs_tickets s) = length (gate_line s) - 1"
  by (simp add: waiting_def gate_line_def gate_inv_def)

subsection \<open>Properties\<close>

text \<open>C26. In every state that any interleaving of writers can reach, at most one writer
  holds the turn, so no two write transactions of the process overlap.\<close>

theorem turnstile_mutual_exclusion:
  assumes "gate_run gate_init es s" and "gs_writer s i = Writing a" and "gs_writer s j = Writing b"
  shows "i = j"
  using wt.holder_unique [OF gate_inv_reach [OF assms(1)], of i j] assms(2,3)
  by (auto simp: gate_holds_def)

lemma turnstile_mutual_exclusion_witness:
  "\<exists>s. gate_run gate_init [Draw 7, Enter 7] s \<and> gs_writer s 7 = Writing 0 \<and>
       (\<forall>j b. gs_writer s j = Writing b \<longrightarrow> j = 7)"
proof -
  let ?s1 = "gate_init\<lparr>gs_tickets := \<lparr>tk_next = 1, tk_serving = 0\<rparr>,
      gs_writer := (gs_writer gate_init)(7 := Queued 0), gs_drawn := gs_drawn gate_init @ [7]\<rparr>"
  let ?s2 = "?s1\<lparr>gs_writer := (gs_writer ?s1)(7 := Writing 0)\<rparr>"
  have "gate_step gate_init (Draw 7) ?s1"
    by (rule step_draw) (simp_all add: gate_init_def gate_defs)
  moreover have "gate_step ?s1 (Enter 7) ?s2"
    by (rule step_enter) (simp_all add: gate_init_def gate_defs)
  ultimately have r: "gate_run gate_init [Draw 7, Enter 7] ?s2"
    by (blast intro: gate_run.intros)
  have h: "gs_writer ?s2 7 = Writing 0" by simp
  have "\<forall>j b. gs_writer ?s2 j = Writing b \<longrightarrow> j = 7"
    using turnstile_mutual_exclusion [OF r _ h] by blast
  with r h show ?thesis by blast
qed

text \<open>First come, first served, with a bound on overtaking: while a writer waits for or
  holds ticket \<open>k\<close>, no writer that drew a later ticket writes, and the number of
  turns handed over since is at most the number of tickets that were ahead of it. A writer
  that commits and asks again is behind every waiter.\<close>

theorem turnstile_fifo:
  assumes "gate_run gate_init es s" and "gate_run s es' t"
    and "ticket_of (gs_writer s i) = Some k" and "Leave i \<notin> set es'"
  shows "tk_serving (gs_tickets s) + leaves es' \<le> k \<and> (\<forall>j l. gs_writer t j = Writing l \<longrightarrow> l \<le> k)"
proof -
  note inv = gate_run_inv [OF assms(2) gate_inv_reach [OF assms(1)]]
  from assms(2-4) have tk: "ticket_of (gs_writer t i) = Some k" by (rule gate_run_ticket_kept)
  note le = gate_inv_ticketD(1) [OF inv tk]
  have "l \<le> k" if "gs_writer t j = Writing l" for j l
    using gate_inv_WritingD [OF inv that] le by simp
  with le show ?thesis by (simp add: gate_run_serving [OF assms(2)])
qed

lemma turnstile_fifo_witness:
  "tk_serving (gs_tickets gate_init) + leaves [Draw 4] \<le> 0"
proof -
  let ?s1 = "gate_init\<lparr>gs_tickets := \<lparr>tk_next = 1, tk_serving = 0\<rparr>,
      gs_writer := (gs_writer gate_init)(3 := Queued 0), gs_drawn := gs_drawn gate_init @ [3]\<rparr>"
  let ?s2 = "?s1\<lparr>gs_tickets := \<lparr>tk_next = 2, tk_serving = 0\<rparr>,
      gs_writer := (gs_writer ?s1)(4 := Queued 1), gs_drawn := gs_drawn ?s1 @ [4]\<rparr>"
  have "gate_step gate_init (Draw 3) ?s1"
    by (rule step_draw) (simp_all add: gate_init_def gate_defs)
  moreover have "gate_step ?s1 (Draw 4) ?s2"
    by (rule step_draw) (simp_all add: gate_init_def gate_defs)
  ultimately have "gate_run gate_init [Draw 3] ?s1" and "gate_run ?s1 [Draw 4] ?s2"
    by (blast intro: gate_run.intros)+
  from turnstile_fifo [OF this, of 3 0] show ?thesis
    by (simp add: gate_init_def gate_defs)
qed

end
