(* ===== verification/Ring_Buffer.thy ===== *)
theory Ring_Buffer
  imports Prelude
begin

text \<open>
  The audio ring buffer of \<open>crates/yapstack-audio/src/ring_buffer.rs\<close>. Samples are the
  32-bit patterns that the code stores in its atomics, so nothing depends on floating-point
  arithmetic; the conversions of \<open>write_i16\<close> and \<open>write_u16\<close> are a parameter. An
  out-of-range index is Rust's panic and is \<open>None\<close> here. Cursor positions are \<open>usize\<close>
  counters of samples since the stream began, modelled as natural numbers (a 64-bit counter
  of 48 kHz samples does not wrap in the life of a process).
\<close>

type_synonym sample = "32 word"

record ring =
  rb_buffer :: "sample list"
  rb_write_pos :: nat
  rb_capacity :: nat
  rb_sample_rate :: nat
  rb_channels :: nat

record range_snapshot =
  rs_samples :: "sample list"
  rs_start :: nat
  rs_end :: nat
  rs_overrun :: bool

definition ring_new :: "nat \<Rightarrow> nat \<Rightarrow> nat \<Rightarrow> ring option" where
  "ring_new cap rate ch =
     (if 0 < cap \<and> 0 < rate \<and> 0 < ch
      then Some \<lparr>rb_buffer = replicate cap 0, rb_write_pos = 0, rb_capacity = cap,
                 rb_sample_rate = rate, rb_channels = ch\<rparr>
      else None)"

text \<open>The copy loops \<open>for (i, s) in data.iter().enumerate() { buffer[offset + i] = s }\<close>
  and their reading counterparts.\<close>

fun store_from :: "'a list \<Rightarrow> nat \<Rightarrow> 'a list \<Rightarrow> 'a list option" where
  "store_from buf off [] = Some buf"
| "store_from buf off (x # xs) =
     (if off < length buf then store_from (buf[off := x]) (Suc off) xs else None)"

fun load_from :: "'a list \<Rightarrow> nat \<Rightarrow> nat \<Rightarrow> 'a list option" where
  "load_from buf off 0 = Some []"
| "load_from buf off (Suc n) =
     (if off < length buf then map_option (Cons (buf ! off)) (load_from buf (Suc off) n) else None)"

definition ring_write :: "ring \<Rightarrow> sample list \<Rightarrow> ring option" where
  "ring_write rb data =
     (if data = [] then Some rb
      else
        let pos = rb_write_pos rb;
            original_len = length data;
            data' = (if original_len > rb_capacity rb
                     then drop (original_len - rb_capacity rb) data else data);
            effective_pos = pos + (original_len - length data');
            offset = effective_pos mod rb_capacity rb;
            stored =
              (if offset + length data' \<le> rb_capacity rb
               then store_from (rb_buffer rb) offset data'
               else
                 let first = rb_capacity rb - offset
                 in Option.bind (store_from (rb_buffer rb) offset (take first data'))
                      (\<lambda>b. store_from b 0 (drop first data')))
        in map_option (\<lambda>b. rb\<lparr>rb_buffer := b, rb_write_pos := pos + original_len\<rparr>) stored)"

text \<open>The read that every snapshot performs: \<open>to_read\<close> samples from \<open>start_pos\<close>,
  in one part or two.\<close>

definition ring_read :: "ring \<Rightarrow> nat \<Rightarrow> nat \<Rightarrow> sample list option" where
  "ring_read rb start_pos to_read =
     (let start_offset = start_pos mod rb_capacity rb
      in if start_offset + to_read \<le> rb_capacity rb
         then load_from (rb_buffer rb) start_offset to_read
         else
           let first = rb_capacity rb - start_offset
           in Option.bind (load_from (rb_buffer rb) start_offset first)
                (\<lambda>a. map_option (\<lambda>b. a @ b) (load_from (rb_buffer rb) 0 (to_read - first))))"

definition snapshot_samples :: "ring \<Rightarrow> nat \<Rightarrow> sample list option" where
  "snapshot_samples rb num =
     (let write_pos = rb_write_pos rb
      in if write_pos = 0 then Some []
         else let available = min write_pos (rb_capacity rb); to_read = min num available
              in if to_read = 0 then Some [] else ring_read rb (write_pos - to_read) to_read)"

definition snapshot_all :: "ring \<Rightarrow> sample list option" where
  "snapshot_all rb = snapshot_samples rb (min (rb_write_pos rb) (rb_capacity rb))"

definition snapshot_since_with_pos :: "ring \<Rightarrow> nat \<Rightarrow> (sample list \<times> nat) option" where
  "snapshot_since_with_pos rb since =
     (let write_pos = rb_write_pos rb
      in if write_pos \<le> since then Some ([], since)
         else let to_read = min (write_pos - since) (rb_capacity rb)
              in map_option (\<lambda>r. (r, write_pos)) (ring_read rb (write_pos - to_read) to_read))"

definition snapshot_since :: "ring \<Rightarrow> nat \<Rightarrow> sample list option" where
  "snapshot_since rb since = map_option fst (snapshot_since_with_pos rb since)"

definition snapshot_range :: "ring \<Rightarrow> nat \<Rightarrow> nat \<Rightarrow> range_snapshot option" where
  "snapshot_range rb from_pos until_pos =
     (let write_pos = rb_write_pos rb; end_pos = min until_pos write_pos
      in if end_pos \<le> from_pos
         then Some \<lparr>rs_samples = [], rs_start = from_pos, rs_end = from_pos, rs_overrun = False\<rparr>
         else
           let earliest_pos = write_pos - rb_capacity rb;
               start_pos = max from_pos earliest_pos;
               overrun = (start_pos > from_pos)
           in if end_pos \<le> start_pos
              then Some \<lparr>rs_samples = [], rs_start = start_pos, rs_end = start_pos, rs_overrun = overrun\<rparr>
              else map_option
                     (\<lambda>r. \<lparr>rs_samples = r, rs_start = start_pos, rs_end = end_pos, rs_overrun = overrun\<rparr>)
                     (ring_read rb start_pos (end_pos - start_pos)))"

text \<open>\<open>write_i16\<close> and \<open>write_u16\<close>: chunks of 512 samples through a scratch buffer,
  each sample converted by \<open>conv\<close>.\<close>

definition scratch_size :: nat where
  "scratch_size = 512"

function write_converted :: "('s \<Rightarrow> sample) \<Rightarrow> ring \<Rightarrow> 's list \<Rightarrow> ring option" where
  "write_converted conv rb data =
     (if data = [] then Some rb
      else Option.bind (ring_write rb (map conv (take scratch_size data)))
             (\<lambda>rb'. write_converted conv rb' (drop scratch_size data)))"
  by pat_completeness auto
termination
  by (relation "measure (\<lambda>(conv, rb, data). length data)") (auto simp: scratch_size_def)

declare write_converted.simps [simp del]

subsection \<open>Bounded copies never panic\<close>

lemma store_from_Some:
  "off + length xs \<le> length buf \<Longrightarrow>
   store_from buf off xs = Some (take off buf @ xs @ drop (off + length xs) buf)"
proof (induction xs arbitrary: buf off)
  case Nil
  then show ?case by simp
next
  case (Cons x xs)
  then have "off < length buf" by simp
  with Cons show ?case
    by (simp add: take_Suc_conv_app_nth upd_conv_take_nth_drop add.commute)
qed

lemma load_from_Some:
  "off + n \<le> length buf \<Longrightarrow> load_from buf off n = Some (take n (drop off buf))"
proof (induction n arbitrary: off)
  case 0
  then show ?case by simp
next
  case (Suc n)
  then show ?case
    by (simp add: Cons_nth_drop_Suc [symmetric])
qed

subsection \<open>The buffer as a window on the stream\<close>

text \<open>
  \<open>ring_of rb h\<close>: after the samples \<open>h\<close> have been written, the buffer holds the last
  \<open>capacity\<close> of them, each at its cursor position modulo the capacity.
\<close>

definition ring_of :: "ring \<Rightarrow> sample list \<Rightarrow> bool" where
  "ring_of rb h \<longleftrightarrow>
     0 < rb_capacity rb \<and> length (rb_buffer rb) = rb_capacity rb \<and> rb_write_pos rb = length h \<and>
     (\<forall>p. length h - rb_capacity rb \<le> p \<and> p < length h \<longrightarrow>
        rb_buffer rb ! (p mod rb_capacity rb) = h ! p)"

text \<open>The specification of a read: the stream between two cursors.\<close>

definition stream_slice :: "'a list \<Rightarrow> nat \<Rightarrow> nat \<Rightarrow> 'a list" where
  "stream_slice h from_pos until_pos = take (until_pos - from_pos) (drop from_pos h)"

lemma ring_of_new: "ring_new cap rate ch = Some rb \<Longrightarrow> ring_of rb []"
  by (auto simp: ring_new_def ring_of_def split: if_splits)

lemma ring_ofD:
  assumes "ring_of rb h"
  shows "0 < rb_capacity rb" and "length (rb_buffer rb) = rb_capacity rb"
    and "rb_write_pos rb = length h"
    and "length h - rb_capacity rb \<le> p \<Longrightarrow> p < length h \<Longrightarrow>
         rb_buffer rb ! (p mod rb_capacity rb) = h ! p"
  using assms by (simp_all add: ring_of_def)

lemma stream_slice_nth:
  "i < until_pos - from_pos \<Longrightarrow> until_pos \<le> length h \<Longrightarrow> stream_slice h from_pos until_pos ! i = h ! (from_pos + i)"
  by (simp add: stream_slice_def)

lemma stream_slice_length [simp]:
  "until_pos \<le> length h \<Longrightarrow> length (stream_slice h from_pos until_pos) = until_pos - from_pos"
  by (simp add: stream_slice_def)

lemma stream_slice_append:
  "a \<le> b \<Longrightarrow> b \<le> c \<Longrightarrow> stream_slice h a b @ stream_slice h b c = stream_slice h a c"
proof -
  assume ab: "a \<le> b" and bc: "b \<le> c"
  have "stream_slice h a c = take ((b - a) + (c - b)) (drop a h)"
    using ab bc by (simp add: stream_slice_def)
  also have "\<dots> = take (b - a) (drop a h) @ take (c - b) (drop (b - a) (drop a h))"
    by (rule take_add)
  finally show ?thesis using ab by (simp add: stream_slice_def)
qed

text \<open>Two parts of a wrapped access, position by position.\<close>

lemma wrapped_index:
  assumes "0 < (c::nat)" and "i < n" and "n \<le> c" and "c < s mod c + n"
  shows "(s + i) mod c = (if i < c - s mod c then s mod c + i else i - (c - s mod c))"
proof -
  have lt: "s mod c < c" using assms(1) by simp
  have "(s + i) mod c = (s mod c + i) mod c" by (simp add: mod_add_left_eq)
  also have "\<dots> = (if i < c - s mod c then s mod c + i else i - (c - s mod c))"
  proof (cases "i < c - s mod c")
    case True
    then show ?thesis by simp
  next
    case False
    then have "(s mod c + i) mod c = (s mod c + i - c) mod c"
      using lt by (simp add: le_mod_geq)
    moreover have "s mod c + i - c < c" and "s mod c + i - c = i - (c - s mod c)"
      using lt assms(2,3) False by arith+
    ultimately show ?thesis using False by simp
  qed
  finally show ?thesis .
qed

lemma ring_read_slice:
  assumes R: "ring_of rb h" and lo: "length h - rb_capacity rb \<le> start"
    and hi: "start + n \<le> length h" and n: "n \<le> rb_capacity rb"
  shows "ring_read rb start n = Some (stream_slice h start (start + n))"
proof -
  let ?c = "rb_capacity rb" and ?b = "rb_buffer rb"
  note r = ring_ofD [OF R]
  have off: "start mod ?c < ?c" using r(1) by simp
  have at: "?b ! ((start + i) mod ?c) = h ! (start + i)" if "i < n" for i
    using r(4) [of "start + i"] lo hi that by simp
  show ?thesis
  proof (cases "start mod ?c + n \<le> ?c")
    case True
    have "take n (drop (start mod ?c) ?b) = stream_slice h start (start + n)"
    proof (rule nth_equalityI)
      show "length (take n (drop (start mod ?c) ?b)) = length (stream_slice h start (start + n))"
        using True r(2) hi by simp
    next
      fix i assume "i < length (take n (drop (start mod ?c) ?b))"
      then have i: "i < n" by simp
      have "(start + i) mod ?c = start mod ?c + i"
        using True i by (metis add_less_cancel_left le_eq_less_or_eq less_le_trans mod_add_left_eq mod_less)
      with at [OF i] i hi True r(2) show "take n (drop (start mod ?c) ?b) ! i = stream_slice h start (start + n) ! i"
        by (simp add: stream_slice_nth)
    qed
    with True r(2) show ?thesis by (simp add: ring_read_def load_from_Some)
  next
    case False
    let ?f = "?c - start mod ?c"
    have f: "?f < n" using False off by simp
    have "drop (start mod ?c) ?b @ take (n - ?f) ?b = stream_slice h start (start + n)"
    proof (rule nth_equalityI)
      show "length (drop (start mod ?c) ?b @ take (n - ?f) ?b) = length (stream_slice h start (start + n))"
        using False r(2) hi n off by simp
    next
      fix i assume "i < length (drop (start mod ?c) ?b @ take (n - ?f) ?b)"
      then have i: "i < n" using r(2) n off f by simp
      have "(start + i) mod ?c = (if i < ?f then start mod ?c + i else i - ?f)"
        using wrapped_index [OF r(1) i n] False by simp
      with at [OF i] i hi r(2) n off
      show "(drop (start mod ?c) ?b @ take (n - ?f) ?b) ! i = stream_slice h start (start + n) ! i"
        by (auto simp: stream_slice_nth nth_append split: if_splits)
    qed
    with False r(2) n off show ?thesis
      by (simp add: ring_read_def load_from_Some)
  qed
qed

text \<open>The two-part store, position by position.\<close>

definition store_wrapped :: "nat \<Rightarrow> 'a list \<Rightarrow> nat \<Rightarrow> 'a list \<Rightarrow> 'a list option" where
  "store_wrapped c buf off d =
     (if off + length d \<le> c then store_from buf off d
      else Option.bind (store_from buf off (take (c - off) d)) (\<lambda>b. store_from b 0 (drop (c - off) d)))"

lemma drop_append_late:
  "f \<le> length d \<Longrightarrow> length d - f \<le> k \<Longrightarrow> length d - f \<le> length t \<Longrightarrow>
   (drop f d @ drop (length d - f) t) ! k = t ! k"
  by (simp add: nth_append)

lemma wrapped_contents:
  assumes "o' < c" and "c < o' + length d" and "length d \<le> c" and "length buf = c"
  defines "f \<equiv> c - o'"
  defines "b \<equiv> drop f d @ drop (length d - f) (take o' buf @ take f d)"
  shows "i < length d \<Longrightarrow> b ! (if i < f then o' + i else i - f) = d ! i"
    and "length d - f \<le> j \<Longrightarrow> j < o' \<Longrightarrow> b ! j = buf ! j"
proof -
  let ?t = "take o' buf @ take f d"
  have f: "f < length d" "length d - f \<le> o'" "f \<le> c" using assms(1-3) by (auto simp: f_def)
  have late: "b ! k = ?t ! k" if "length d - f \<le> k" "k < length ?t" for k
    unfolding b_def by (rule drop_append_late) (use that f in auto)
  have lt: "length ?t = o' + f" using assms(1,4) f by simp
  show "b ! (if i < f then o' + i else i - f) = d ! i" if i: "i < length d"
  proof (cases "i < f")
    case True
    with late [of "o' + i"] lt f have "b ! (o' + i) = ?t ! (o' + i)" by simp
    also have "\<dots> = d ! i" using True assms(1,4) by (simp add: nth_append)
    finally show ?thesis using True by simp
  next
    case False
    then have "i - f < length d - f" using i by arith
    with False f show ?thesis by (simp add: b_def nth_append)
  qed
  show "b ! j = buf ! j" if "length d - f \<le> j" "j < o'"
    using late [of j] that lt assms(1,4) by (simp add: nth_append)
qed

lemma split_length:
  "length b = c \<Longrightarrow> length d - f \<le> c \<Longrightarrow> length (drop f d @ drop (length d - f) b) = c"
  by simp

lemma store_wrapped_Some:
  assumes c: "0 < c" and len: "length buf = c" and d: "length d \<le> c"
  shows "\<exists>b. store_wrapped c buf (s mod c) d = Some b \<and> length b = c \<and>
      (\<forall>i<length d. b ! ((s + i) mod c) = d ! i) \<and>
      (\<forall>j<c. (\<forall>i<length d. (s + i) mod c \<noteq> j) \<longrightarrow> b ! j = buf ! j)"
proof -
  let ?o = "s mod c" and ?n = "length d"
  have o: "?o < c" using c by simp
  show ?thesis
  proof (cases "?o + ?n \<le> c")
    case True
    let ?b = "take ?o buf @ d @ drop (?o + ?n) buf"
    have ix: "(s + i) mod c = ?o + i" if "i < ?n" for i
      using True that by (metis add_less_cancel_left le_eq_less_or_eq less_le_trans mod_add_left_eq mod_less)
    have "?b ! j = buf ! j" if "j < c" "\<forall>i<?n. (s + i) mod c \<noteq> j" for j
    proof -
      have "\<not> (?o \<le> j \<and> j < ?o + ?n)"
      proof
        assume a: "?o \<le> j \<and> j < ?o + ?n"
        then have "j - ?o < ?n" and "?o + (j - ?o) = j" by arith+
        with ix [of "j - ?o"] that(2) show False by metis
      qed
      then show ?thesis using True len that(1) o by (auto simp: nth_append)
    qed
    moreover have "?b ! ((s + i) mod c) = d ! i" if "i < ?n" for i
      using ix [OF that] that len o by (simp add: nth_append)
    ultimately show ?thesis
      using True len by (simp add: store_wrapped_def store_from_Some)
  next
    case False
    let ?f = "c - ?o"
    let ?b1 = "take ?o buf @ take ?f d" and ?b = "drop ?f d @ drop (?n - ?f) (take ?o buf @ take ?f d)"
    have f: "?f < ?n" "?n - ?f \<le> ?o" using False o d by auto
    have ix: "(s + i) mod c = (if i < ?f then ?o + i else i - ?f)" if "i < ?n" for i
      using wrapped_index [OF c that d] False by simp
    have wide: "c < ?o + length d" using False by simp
    have val: "?b ! ((s + i) mod c) = d ! i" if "i < ?n" for i
      unfolding ix [OF that] using wrapped_contents(1) [OF o wide d len that] by simp
    have "?b ! j = buf ! j" if "j < c" "\<forall>i<?n. (s + i) mod c \<noteq> j" for j
    proof -
      have "j < ?o"
      proof (rule ccontr)
        assume "\<not> j < ?o"
        then have "j - ?o < ?f" and "?o + (j - ?o) = j" using that(1) by arith+
        with ix [of "j - ?o"] that(2) f(1) show False by (metis less_trans)
      qed
      moreover have "?n - ?f \<le> j"
      proof (rule ccontr)
        assume "\<not> ?n - ?f \<le> j"
        then have "j + ?f < ?n" and "\<not> j + ?f < ?f" and "j + ?f - ?f = j" by arith+
        with ix [of "j + ?f"] that(2) show False by metis
      qed
      ultimately show ?thesis using wrapped_contents(2) [OF o wide d len, of j] by simp
    qed
    moreover have "store_from buf ?o (take ?f d) = Some ?b1"
      using f len o by (simp add: store_from_Some)
    moreover have "store_from ?b1 0 (drop ?f d) = Some ?b"
    proof -
      have l: "length ?b1 = c" using f len o by simp
      have "0 + length (drop ?f d) \<le> length ?b1" unfolding l using d by simp
      then show ?thesis using store_from_Some [of 0 "drop ?f d" ?b1] by (simp del: drop_append)
    qed
    moreover have "length ?b = c"
    proof -
      have "length ?b1 = c" using f len o by simp
      moreover have "length d - ?f \<le> c" using d by arith
      ultimately show ?thesis by (rule split_length)
    qed
    ultimately show ?thesis
      using False val by (simp add: store_wrapped_def del: length_append length_drop drop_append)
  qed
qed

lemma mod_window_distinct:
  assumes "(p::nat) < q" and "q < p + c"
  shows "q mod c \<noteq> p mod c"
proof
  assume "q mod c = p mod c"
  then have "c dvd q - p" using assms(1) by (metis less_imp_le mod_eq_dvd_iff_nat)
  with assms show False by (auto dest!: dvd_imp_le)
qed

lemma ring_write_append:
  assumes R: "ring_of rb h"
  shows "\<exists>rb'. ring_write rb data = Some rb' \<and> ring_of rb' (h @ data) \<and>
    rb_capacity rb' = rb_capacity rb \<and> rb_sample_rate rb' = rb_sample_rate rb \<and>
    rb_channels rb' = rb_channels rb"
proof (cases "data = []")
  case True
  with R show ?thesis by (simp add: ring_write_def)
next
  case False
  let ?c = "rb_capacity rb" and ?len = "length data"
  define d where "d = (if ?len > ?c then drop (?len - ?c) data else data)"
  define ep where "ep = length h + (?len - length d)"
  note r = ring_ofD [OF R]
  have dl: "length d \<le> ?c" "length d \<le> ?len" by (auto simp: d_def)
  obtain b where b: "store_wrapped ?c (rb_buffer rb) (ep mod ?c) d = Some b" "length b = ?c"
    and new: "\<And>i. i < length d \<Longrightarrow> b ! ((ep + i) mod ?c) = d ! i"
    and old: "\<And>j. j < ?c \<Longrightarrow> \<forall>i<length d. (ep + i) mod ?c \<noteq> j \<Longrightarrow> b ! j = rb_buffer rb ! j"
    using store_wrapped_Some [OF r(1,2) dl(1), of ep] by blast
  let ?rb = "rb\<lparr>rb_buffer := b, rb_write_pos := length h + ?len\<rparr>"
  have w: "ring_write rb data = Some ?rb"
    using False b(1)
    by (auto simp: ring_write_def store_wrapped_def Let_def r(3) d_def [symmetric] ep_def [symmetric]
        split: if_splits)
  have "b ! (p mod ?c) = (h @ data) ! p" if p: "length h + ?len - ?c \<le> p" "p < length h + ?len" for p
  proof (cases "ep \<le> p")
    case True
    then have i: "p - ep < length d" using p(2) dl by (simp add: ep_def)
    have "d ! (p - ep) = (h @ data) ! p"
      using True i by (auto simp: d_def ep_def nth_append)
    with new [OF i] True show ?thesis by simp
  next
    case False
    then have short: "?len \<le> ?c" "d = data" "ep = length h"
      using p by (auto simp: d_def ep_def split: if_splits)
    have "(ep + i) mod ?c \<noteq> p mod ?c" if "i < length d" for i
      using mod_window_distinct [of p "ep + i" ?c] that False p short by simp
    then have "b ! (p mod ?c) = rb_buffer rb ! (p mod ?c)"
      using old r(1) by simp
    also have "\<dots> = h ! p" using r(4) [of p] p False short by simp
    finally show ?thesis using False short by (simp add: nth_append)
  qed
  then have "ring_of ?rb (h @ data)"
    using r(1) b(2) by (simp add: ring_of_def)
  with w show ?thesis by simp
qed

text \<open>The contract a reader of the stream relies on, whatever holds the samples.\<close>

locale sample_stream =
  fixes repr :: "'b \<Rightarrow> 'a list \<Rightarrow> bool" and put :: "'b \<Rightarrow> 'a list \<Rightarrow> 'b option"
    and since :: "'b \<Rightarrow> nat \<Rightarrow> ('a list \<times> nat) option" and depth :: "'b \<Rightarrow> nat"
  assumes put_appends: "repr b h \<Longrightarrow> \<exists>b'. put b xs = Some b' \<and> repr b' (h @ xs) \<and> depth b' = depth b"
    and since_recent: "repr b h \<Longrightarrow> cur \<le> length h \<Longrightarrow> length h - cur \<le> depth b \<Longrightarrow>
      since b cur = Some (drop cur h, length h)"
begin

text \<open>A reader that polls before the writer laps it, whatever the chunks, sees the stream:
  \<open>poll\<close> is one iteration of its loop, appending what it read and moving its cursor.\<close>

definition poll :: "'a list \<Rightarrow> 'b \<times> 'a list \<times> nat \<Rightarrow> ('b \<times> 'a list \<times> nat) option" where
  "poll chunk st = (case st of (b, got, cur) \<Rightarrow>
     Option.bind (put b chunk) (\<lambda>b'. map_option (\<lambda>(new, cur'). (b', got @ new, cur')) (since b' cur)))"

fun poll_all :: "'a list list \<Rightarrow> 'b \<times> 'a list \<times> nat \<Rightarrow> ('b \<times> 'a list \<times> nat) option" where
  "poll_all [] st = Some st"
| "poll_all (c # cs) st = Option.bind (poll c st) (poll_all cs)"

lemma poll_lossless:
  "repr b h \<Longrightarrow> length chunk \<le> depth b \<Longrightarrow>
   \<exists>b'. poll chunk (b, h, length h) = Some (b', h @ chunk, length (h @ chunk)) \<and>
        repr b' (h @ chunk) \<and> depth b' = depth b"
  using put_appends [of b h chunk] since_recent [of _ "h @ chunk" "length h"]
  by (fastforce simp: poll_def)

lemma poll_all_lossless:
  "repr b h \<Longrightarrow> (\<And>c. c \<in> set chunks \<Longrightarrow> length c \<le> depth b) \<Longrightarrow>
   \<exists>b'. poll_all chunks (b, h, length h) =
          Some (b', h @ concat chunks, length (h @ concat chunks)) \<and> repr b' (h @ concat chunks)"
proof (induction chunks arbitrary: b h)
  case Nil
  then show ?case by auto
next
  case (Cons c cs)
  then obtain b' where b': "poll c (b, h, length h) = Some (b', h @ c, length (h @ c))"
    "repr b' (h @ c)" "depth b' = depth b"
    using poll_lossless [of b h c] by auto
  with Cons.IH [of b' "h @ c"] Cons.prems(2) show ?case by auto
qed

end

lemma snapshot_since_slice:
  assumes R: "ring_of rb h"
  shows "snapshot_since_with_pos rb since =
    (if length h \<le> since then Some ([], since)
     else Some (stream_slice h (max since (length h - rb_capacity rb)) (length h), length h))"
proof (cases "length h \<le> since")
  case True
  then show ?thesis by (simp add: snapshot_since_with_pos_def ring_ofD(3) [OF R])
next
  case False
  let ?n = "min (length h - since) (rb_capacity rb)"
  have "ring_read rb (length h - ?n) ?n = Some (stream_slice h (length h - ?n) (length h - ?n + ?n))"
    by (rule ring_read_slice [OF R]) auto
  moreover have "length h - ?n = max since (length h - rb_capacity rb)" and e: "length h - ?n + ?n = length h"
    using False by auto
  ultimately show ?thesis
    using False unfolding snapshot_since_with_pos_def Let_def ring_ofD(3) [OF R] e
    by simp
qed

interpretation audio_stream: sample_stream ring_of ring_write snapshot_since_with_pos rb_capacity
proof
  show "\<exists>b'. ring_write b xs = Some b' \<and> ring_of b' (h @ xs) \<and> rb_capacity b' = rb_capacity b"
    if "ring_of b h" for b h xs
    using ring_write_append [OF that] by blast
  show "snapshot_since_with_pos b cur = Some (drop cur h, length h)"
    if "ring_of b h" "cur \<le> length h" "length h - cur \<le> rb_capacity b" for b h cur
  proof (cases "cur = length h")
    case True
    then show ?thesis by (simp add: snapshot_since_slice [OF that(1)])
  next
    case False
    then have "max cur (length h - rb_capacity b) = cur" using that by auto
    with False that show ?thesis
      by (simp add: snapshot_since_slice [OF that(1)] stream_slice_def)
  qed
qed

lemma write_converted_eq:
  "ring_of rb h \<Longrightarrow> \<exists>rb'. write_converted conv rb data = Some rb' \<and> ring_of rb' (h @ map conv data) \<and>
     rb_capacity rb' = rb_capacity rb"
proof (induction conv rb data arbitrary: h rule: write_converted.induct)
  case (1 conv rb data)
  show ?case
  proof (cases "data = []")
    case True
    with "1.prems" show ?thesis by (simp add: write_converted.simps [of conv rb "[]"])
  next
    case False
    let ?t = "take scratch_size data"
    obtain rb1 where rb1: "ring_write rb (map conv ?t) = Some rb1" "ring_of rb1 (h @ map conv ?t)"
      "rb_capacity rb1 = rb_capacity rb"
      using ring_write_append [OF "1.prems"] by blast
    obtain rb2 where "write_converted conv rb1 (drop scratch_size data) = Some rb2"
      "ring_of rb2 ((h @ map conv ?t) @ map conv (drop scratch_size data))"
      "rb_capacity rb2 = rb_capacity rb1"
      using "1.IH" [OF False rb1(1,2)] by blast
    with False rb1 show ?thesis
      by (simp add: write_converted.simps [of conv rb data] flip: map_append)
  qed
qed

subsection \<open>Properties\<close>

text \<open>C27. Writing is appending to the stream: from any buffer that holds the recent part of a
  stream, a write of any length (longer than the capacity included, wrapping or not) never
  indexes out of range, leaves a buffer that holds the recent part of the extended stream, and
  the chunked integer writers do the same as one write of the converted samples.\<close>

theorem ring_write_refines_append:
  assumes "ring_of rb h"
  shows "(\<exists>rb'. ring_write rb data = Some rb' \<and> ring_of rb' (h @ data)) \<and>
    (\<exists>rb'. write_converted conv rb ints = Some rb' \<and> ring_of rb' (h @ map conv ints))"
  using ring_write_append [OF assms] write_converted_eq [OF assms] by blast

lemma ring_write_refines_append_witness:
  "\<exists>rb rb'. ring_new 4 48000 1 = Some rb \<and> ring_write rb [1, 2, 3, 4, 5, 6] = Some rb' \<and>
     ring_of rb' [1, 2, 3, 4, 5, 6]"
proof -
  obtain rb where rb: "ring_new 4 48000 1 = Some rb" by (simp add: ring_new_def)
  from ring_write_refines_append [OF ring_of_new [OF rb], of "[1, 2, 3, 4, 5, 6]"] rb
  show ?thesis by auto
qed

text \<open>Every snapshot is a window of the stream. The last \<open>n\<close> samples, the samples since a
  cursor and the samples between two cursors are what was written there, in order, cut to what
  the capacity still holds; the cursor returned is the end of the window, and a range reports
  an overrun exactly when part of it was already overwritten.\<close>

theorem ring_snapshots_are_stream_windows:
  assumes R: "ring_of rb h"
  shows "snapshot_samples rb n = Some (drop (length h - min n (rb_capacity rb)) h) \<and>
    snapshot_since_with_pos rb cur =
      (if length h \<le> cur then Some ([], cur)
       else Some (stream_slice h (max cur (length h - rb_capacity rb)) (length h), length h)) \<and>
    (cur < until_pos \<and> until_pos \<le> length h \<longrightarrow>
      (\<exists>s. snapshot_range rb cur until_pos = Some s \<and>
         rs_start s = max cur (length h - rb_capacity rb) \<and>
         rs_end s = max until_pos (rs_start s) \<and>
         rs_samples s = stream_slice h (rs_start s) (rs_end s) \<and>
         (rs_overrun s \<longleftrightarrow> cur < length h - rb_capacity rb)))"
proof (intro conjI impI)
  note pos = ring_ofD(3) [OF R]
  show "snapshot_samples rb n = Some (drop (length h - min n (rb_capacity rb)) h)"
  proof (cases "length h = 0 \<or> n = 0")
    case True
    then show ?thesis by (auto simp: snapshot_samples_def pos Let_def)
  next
    case False
    let ?n = "min n (min (length h) (rb_capacity rb))"
    have "ring_read rb (length h - ?n) ?n = Some (stream_slice h (length h - ?n) (length h - ?n + ?n))"
      by (rule ring_read_slice [OF R]) auto
    moreover have "length h - ?n = length h - min n (rb_capacity rb)" by auto
    ultimately show ?thesis
      using False ring_ofD(1) [OF R] by (auto simp: snapshot_samples_def pos stream_slice_def Let_def)
  qed
  show "snapshot_since_with_pos rb cur =
      (if length h \<le> cur then Some ([], cur)
       else Some (stream_slice h (max cur (length h - rb_capacity rb)) (length h), length h))"
    by (rule snapshot_since_slice [OF R])
  assume c: "cur < until_pos \<and> until_pos \<le> length h"
  let ?s = "max cur (length h - rb_capacity rb)"
  show "\<exists>s. snapshot_range rb cur until_pos = Some s \<and>
         rs_start s = ?s \<and> rs_end s = max until_pos (rs_start s) \<and>
         rs_samples s = stream_slice h (rs_start s) (rs_end s) \<and>
         (rs_overrun s \<longleftrightarrow> cur < length h - rb_capacity rb)"
  proof (cases "until_pos \<le> ?s")
    case True
    with c show ?thesis by (auto simp: snapshot_range_def pos stream_slice_def Let_def)
  next
    case False
    have "ring_read rb ?s (until_pos - ?s) = Some (stream_slice h ?s (?s + (until_pos - ?s)))"
      by (rule ring_read_slice [OF R]) (use c False in auto)
    with c False show ?thesis by (auto simp: snapshot_range_def pos Let_def less_max_iff_disj)
  qed
qed

lemma ring_snapshots_are_stream_windows_witness:
  "\<exists>rb. ring_of rb [1, 2, 3, 4, 5, 6] \<and> snapshot_samples rb 3 = Some [4, 5, 6]"
proof -
  obtain rb where rb: "ring_of rb []" "rb_capacity rb = 4"
    using ring_of_new [of 4 48000 1] by (auto simp: ring_new_def)
  obtain rb' where rb': "ring_of rb' ([] @ [1, 2, 3, 4, 5, 6])" "rb_capacity rb' = 4"
    using ring_write_append [OF rb(1), of "[1, 2, 3, 4, 5, 6]"] rb(2) by auto
  from ring_snapshots_are_stream_windows [OF rb'(1), of 3 0 0] rb' show ?thesis by auto
qed

text \<open>Polling loses nothing: a consumer that starts with the stream and reads with the
  returned cursor after every write of at most \<open>capacity\<close> samples collects exactly the
  written stream, over any number of writes.\<close>

theorem ring_polling_lossless:
  assumes "ring_of rb h" and "\<And>c. c \<in> set chunks \<Longrightarrow> length c \<le> rb_capacity rb"
  shows "\<exists>rb'. audio_stream.poll_all chunks (rb, h, length h) =
    Some (rb', h @ concat chunks, length (h @ concat chunks))"
  using audio_stream.poll_all_lossless [of rb h chunks] assms by blast

lemma ring_polling_lossless_witness:
  "\<exists>rb rb'. ring_new 4 48000 1 = Some rb \<and>
     audio_stream.poll_all [[1, 2, 3], [4, 5, 6, 7], [8]] (rb, [], 0) = Some (rb', [1, 2, 3, 4, 5, 6, 7, 8], 8)"
proof -
  obtain rb where rb: "ring_new 4 48000 1 = Some rb" "rb_capacity rb = 4" by (simp add: ring_new_def)
  let ?cs = "[[1, 2, 3], [4, 5, 6, 7], [8]] :: sample list list"
  have "length c \<le> rb_capacity rb" if "c \<in> set ?cs" for c
    using that rb(2) by auto
  then have "\<exists>rb'. audio_stream.poll_all ?cs (rb, [], length ([] :: sample list)) =
      Some (rb', [] @ concat ?cs, length ([] @ concat ?cs))"
    by (rule ring_polling_lossless [OF ring_of_new [OF rb(1)]])
  then have "\<exists>rb'. audio_stream.poll_all ?cs (rb, [], 0) = Some (rb', concat ?cs, length (concat ?cs))"
    by (simp only: append_Nil list.size)
  moreover have "concat ?cs = [1, 2, 3, 4, 5, 6, 7, 8]" and "length (concat ?cs) = 8" by simp_all
  ultimately show ?thesis using rb(1) by metis
qed

end
