(* ===== verification/Relay_Types.thy ===== *)
theory Relay_Types
  imports Prelude
begin

text \<open>
  The relay's vocabulary: identifiers, byte strings and times, the wire types of
  \<open>crates/yapstack-common/src/sync.rs\<close> that the handlers return, the error type of
  \<open>crates/yapstack-server/src/error.rs\<close> with its HTTP rendering, and the functions of other
  crates that the relay calls, as one record of parameters.

  A UUID is its 128 bits. Times are integers: microseconds for the database's
  \<open>timestamptz\<close>. A JSON value the relay keeps opaque is its text, and a floating-point number
  that is only carried is its bit pattern.
\<close>

type_synonym uuid = "128 word"
type_synonym bytes = "8 word list"
type_synonym timestamp = int
type_synonym json = string
type_synonym f64 = "64 word"

definition nil_uuid :: uuid where
  "nil_uuid = 0"

definition seconds :: "int \<Rightarrow> timestamp" where
  "seconds n = n * 1000000"

definition minutes :: "int \<Rightarrow> timestamp" where
  "minutes n = seconds (60 * n)"

definition hours :: "int \<Rightarrow> timestamp" where
  "hours n = minutes (60 * n)"

definition days :: "int \<Rightarrow> timestamp" where
  "days n = hours (24 * n)"

lemmas interval_defs = seconds_def minutes_def hours_def days_def

subsection \<open>Wire types\<close>

record capability_levels =
  required_sync_capability :: int
  requested_sync_capability :: int

record capability_blocker =
  cb_client_id :: uuid
  cb_label :: string
  cb_platform :: string
  cb_sync_capability :: int
  cb_seen_at :: timestamp

record capability_blocked =
  bl_required :: int
  bl_requested :: int
  bl_blockers :: "capability_blocker list"

record quota_exceeded =
  qe_code :: string
  qe_resource :: string
  qe_used :: int
  qe_limit :: int
  qe_resets_at :: "timestamp option"
  qe_help_url :: string

subsection \<open>Errors\<close>

datatype app_error =
    BadRequest string
  | Unauthorized
  | Forbidden
  | Conflict string
  | NotFound
  | Quota quota_exceeded
  | RateLimited
  | Unavailable string
  | UpdateRequired capability_levels
  | CapabilityFloor capability_levels
  | CapabilityBlocked capability_blocked
  | Db string
  | Internal string

datatype body =
    CodeBody string string
  | QuotaBody quota_exceeded
  | RefusalBody string string int int
  | BlockedBody capability_blocked

definition capability_refusal :: "string \<Rightarrow> string \<Rightarrow> capability_levels \<Rightarrow> body" where
  "capability_refusal code message l =
     RefusalBody code message (required_sync_capability l) (requested_sync_capability l)"

fun into_response :: "app_error \<Rightarrow> nat \<times> body" where
  "into_response (Quota q) = (429, QuotaBody q)"
| "into_response (UpdateRequired l) =
     (426, capability_refusal ''update_required'' ''Update YapStack to keep syncing'' l)"
| "into_response (CapabilityFloor l) =
     (409, capability_refusal ''sync_capability_floor''
             ''batch needs a higher workspace sync capability'' l)"
| "into_response (CapabilityBlocked b) = (409, BlockedBody b)"
| "into_response (BadRequest m) = (400, CodeBody ''bad_request'' m)"
| "into_response Unauthorized = (401, CodeBody ''unauthorized'' ''invalid credentials'')"
| "into_response Forbidden = (403, CodeBody ''forbidden'' ''forbidden'')"
| "into_response (Conflict m) = (409, CodeBody ''conflict'' m)"
| "into_response NotFound = (404, CodeBody ''not_found'' ''not found'')"
| "into_response RateLimited = (429, CodeBody ''rate_limited'' ''too many requests'')"
| "into_response (Unavailable m) = (503, CodeBody ''unavailable'' m)"
| "into_response (Db e) = (500, CodeBody ''internal'' ''internal error'')"
| "into_response (Internal m) = (500, CodeBody ''internal'' ''internal error'')"

text \<open>The two errors that share status 429 and the four that share 409 are told apart by
  their bodies.\<close>

lemma status_is_error: "400 \<le> fst (into_response e)"
  by (cases e) auto

subsection \<open>Printing\<close>

definition digit_char :: "nat \<Rightarrow> char" where
  "digit_char n = ''0123456789abcdef'' ! (n mod 16)"

fun show_nat :: "nat \<Rightarrow> string" where
  "show_nat n = (if n < 10 then [digit_char n] else show_nat (n div 10) @ [digit_char (n mod 10)])"

declare show_nat.simps [simp del]

definition show_int :: "int \<Rightarrow> string" where
  "show_int i = (if i < 0 then CHR ''-'' # show_nat (nat (- i)) else show_nat (nat i))"

definition hex_byte :: "8 word \<Rightarrow> string" where
  "hex_byte b = [digit_char (unat b div 16), digit_char (unat b mod 16)]"

definition hex_encode :: "bytes \<Rightarrow> string" where
  "hex_encode bs = concat (map hex_byte bs)"

text \<open>The sixteen bytes of a UUID, most significant first, and its hyphenated form.\<close>

definition uuid_bytes :: "uuid \<Rightarrow> bytes" where
  "uuid_bytes u = map (\<lambda>i. ucast (drop_bit (8 * (15 - i)) u)) [0..<16]"

definition show_uuid :: "uuid \<Rightarrow> string" where
  "show_uuid u =
     (let h = hex_encode (uuid_bytes u)
      in take 8 h @ ''-'' @ take 4 (drop 8 h) @ ''-'' @ take 4 (drop 12 h) @ ''-''
         @ take 4 (drop 16 h) @ ''-'' @ drop 20 h)"

text \<open>ASCII lower-casing, as PostgreSQL's \<open>lower\<close> and Rust's \<open>to_lowercase\<close> agree on ASCII
  text.\<close>

definition lower_char :: "char \<Rightarrow> char" where
  "lower_char c =
     (if 65 \<le> (of_char c :: nat) \<and> (of_char c :: nat) \<le> 90 then char_of ((of_char c :: nat) + 32) else c)"

definition lower_str :: "string \<Rightarrow> string" where
  "lower_str s = map lower_char s"

text \<open>The UTF-8 bytes of an ASCII string, as \<open>as_bytes\<close> gives them.\<close>

definition str_bytes :: "string \<Rightarrow> bytes" where
  "str_bytes s = map (\<lambda>c. of_nat (of_char c)) s"

lemma digit_char_inj: "a < 16 \<Longrightarrow> b < 16 \<Longrightarrow> digit_char a = digit_char b \<longleftrightarrow> a = b"
proof -
  have "distinct ''0123456789abcdef''" and "length ''0123456789abcdef'' = 16" by simp_all
  then show "a < 16 \<Longrightarrow> b < 16 \<Longrightarrow> ?thesis"
    unfolding digit_char_def by (metis mod_less nth_eq_iff_index_eq)
qed

lemma hex_byte_inj: "hex_byte a = hex_byte b \<longleftrightarrow> a = b"
proof
  assume "hex_byte a = hex_byte b"
  moreover have "unat a < 256" "unat b < 256" using unsigned_less [of a, where 'a = nat] unsigned_less [of b, where 'a = nat] by simp_all
  then have "unat a div 16 < 16" "unat b div 16 < 16" by auto
  ultimately have "unat a div 16 = unat b div 16" "unat a mod 16 = unat b mod 16"
    by (simp_all add: hex_byte_def digit_char_inj)
  then have "unat a = unat b" by (metis div_mult_mod_eq)
  then show "a = b" by (simp only: word_unat_eq_iff)
qed simp

lemma length_hex_encode [simp]: "length (hex_encode bs) = 2 * length bs"
  by (induction bs) (simp_all add: hex_encode_def hex_byte_def)

lemma hex_encode_inj: "hex_encode a = hex_encode b \<longleftrightarrow> a = b"
proof (induction a arbitrary: b)
  case Nil
  show ?case by (cases b) (simp_all add: hex_encode_def hex_byte_def)
next
  case (Cons x xs)
  show ?case
  proof (cases b)
    case Nil
    then show ?thesis by (simp add: hex_encode_def hex_byte_def)
  next
    case (Cons y ys)
    have "hex_encode (x # xs) = hex_byte x @ hex_encode xs" "hex_encode (y # ys) = hex_byte y @ hex_encode ys"
      by (simp_all add: hex_encode_def)
    moreover have "length (hex_byte x) = length (hex_byte y)" by (simp add: hex_byte_def)
    ultimately show ?thesis using Cons Cons.IH [of ys] by (simp add: hex_byte_inj)
  qed
qed

lemma length_uuid_bytes [simp]: "length (uuid_bytes u) = 16"
  by (simp add: uuid_bytes_def)

lemma length_show_uuid [simp]: "length (show_uuid u) = 36"
  by (simp add: show_uuid_def Let_def)

lemma uuid_bytes_inj: "uuid_bytes u = uuid_bytes v \<longleftrightarrow> u = v"
proof
  assume eq: "uuid_bytes u = uuid_bytes v"
  show "u = v"
  proof (rule bit_word_eqI)
    fix n assume n: "n < LENGTH(128)"
    let ?i = "15 - n div 8"
    have i: "?i < 16" "8 * (15 - ?i) + n mod 8 = n" using n by auto
    have "uuid_bytes u ! ?i = uuid_bytes v ! ?i" using eq by simp
    then have "(ucast (drop_bit (8 * (15 - ?i)) u) :: 8 word) = ucast (drop_bit (8 * (15 - ?i)) v)"
      using i(1) by (simp add: uuid_bytes_def)
    then have "bit (ucast (drop_bit (8 * (15 - ?i)) u) :: 8 word) (n mod 8) =
        bit (ucast (drop_bit (8 * (15 - ?i)) v) :: 8 word) (n mod 8)"
      by (rule arg_cong)
    then show "bit u n = bit v n"
      using i(2) by (simp add: bit_simps)
  qed
qed simp

lemma regroup:
  "take 8 h @ take 4 (drop 8 h) @ take 4 (drop 12 h) @ take 4 (drop 16 h) @ drop 20 h = h"
proof -
  have step: "take n (drop m h) @ drop (m + n) h = drop m h" for n m
    using append_take_drop_id [of n "drop m h"] by (simp add: add.commute)
  from step [of 4 16] step [of 4 12] step [of 4 8] show ?thesis
    by (simp del: append_take_drop_id take_append drop_append) (metis append_take_drop_id)
qed

lemma show_uuid_inj: "show_uuid u = show_uuid v \<longleftrightarrow> u = v"
proof
  let ?h = "\<lambda>u. hex_encode (uuid_bytes u)"
  have parts: "?h w = take 8 (show_uuid w) @ take 4 (drop 9 (show_uuid w)) @ take 4 (drop 14 (show_uuid w))
      @ take 4 (drop 19 (show_uuid w)) @ drop 24 (show_uuid w)" for w
    using regroup [of "?h w"] by (simp add: show_uuid_def Let_def)
  assume "show_uuid u = show_uuid v"
  then have "?h u = ?h v" by (metis parts)
  then show "u = v" by (simp add: hex_encode_inj uuid_bytes_inj)
qed simp

end
