(* ===== verification/Relay_Db.thy ===== *)
theory Relay_Db
  imports Relay_Types
begin

text \<open>
  The relay's PostgreSQL state: one record type per table of
  \<open>crates/yapstack-server/migrations/\<close>, the database as the record of its tables, and
  transactions as functions that return an error or a result with the new database.
  \<open>run_tx\<close> is \<open>begin_tenant_tx .. commit\<close> of \<open>db.rs\<close>: an early \<open>Err\<close> drops the
  transaction, which rolls it back. Every statement of a tenant transaction carries its
  tenant in its predicate, which stands both for the statement's own \<open>WHERE workspace_id = $1\<close>
  and for the row-level-security policy of \<open>yapstack_apply_rls\<close>; \<open>tenant_view\<close> is what that policy
  shows a tenant, and \<open>frames\<close> says that a transaction leaves every other tenant's view alone.

  Row locks (\<open>FOR UPDATE\<close>, \<open>FOR SHARE\<close>) serialise the transactions of a tenant: a
  transaction is one step of the model.
\<close>

named_theorems frame_intros

subsection \<open>Rows\<close>

record workspace_row =
  ws_id :: uuid
  ws_name :: string

record user_row =
  us_id :: uuid
  us_email :: string
  us_verifier :: bytes
  us_server_salt :: bytes
  us_salt_enc :: bytes
  us_wrapped_password :: bytes
  us_wrapped_recovery :: bytes
  us_recovery_salt :: "bytes option"
  us_recovery_verifier :: "bytes option"

record member_row =
  wm_ws :: uuid
  wm_user :: uuid
  wm_role :: string

datatype device_status = DevPending | DevActive | DevRevoked

record device_row =
  dv_client :: uuid
  dv_ws :: uuid
  dv_user :: uuid
  dv_pub :: bytes
  dv_label :: string
  dv_platform :: string
  dv_status :: device_status
  dv_added_at :: timestamp
  dv_recovery_grant_at :: "timestamp option"
  dv_recovered_at :: "timestamp option"
  dv_sync_capability :: int
  dv_seen_at :: "timestamp option"

record roster_row =
  ro_ws :: uuid
  ro_list :: json
  ro_signature :: bytes
  ro_counter :: int
  ro_epoch :: int

record refresh_row =
  rt_id :: uuid
  rt_ws :: uuid
  rt_user :: uuid
  rt_client :: "uuid option"
  rt_family :: uuid
  rt_expires_at :: timestamp
  rt_rotated_at :: "timestamp option"
  rt_replaced_by :: "uuid option"
  rt_revoked :: bool

record limits_row =
  li_tenant :: uuid
  li_plan :: string
  li_storage :: "int option"
  li_upload :: "int option"
  li_share :: "int option"
  li_device :: "int option"
  li_period_start :: "timestamp option"
  li_warn_storage :: "f64 option"
  li_warn_upload :: "f64 option"
  li_state :: string
  li_grace_until :: "timestamp option"

record usage_row =
  ug_tenant :: uuid
  ug_storage :: int
  ug_upload :: int
  ug_share :: int
  ug_device :: int
  ug_window :: timestamp

record seq_row =
  sq_ws :: uuid
  sq_next :: int

record changeset_row =
  cs_ws :: uuid
  cs_seq :: int
  cs_client :: uuid
  cs_client_seq :: int
  cs_ciphertext :: bytes
  cs_schema :: int
  cs_engine :: int

record blob_row =
  ab_ws :: uuid
  ab_hash :: bytes
  ab_size :: int
  ab_refcount :: int
  ab_released_at :: "timestamp option"

record object_row =
  ao_ws :: uuid
  ao_part :: uuid
  ao_session :: uuid
  ao_hash :: bytes

record snapshot_row =
  sn_ws :: uuid
  sn_generation :: int
  sn_hash :: bytes
  sn_size :: int
  sn_baseline :: int

record floor_row =
  fl_ws :: uuid
  fl_required :: int
  fl_requested :: int

record admin_nonce_row =
  an_nonce :: string
  an_seen_at :: timestamp

record login_nonce_row =
  ln_nonce :: bytes
  ln_email :: string
  ln_issued_at :: timestamp

record db =
  workspaces :: "workspace_row list"
  users :: "user_row list"
  members :: "member_row list"
  devices :: "device_row list"
  rosters :: "roster_row list"
  refresh_tokens :: "refresh_row list"
  limits_tbl :: "limits_row list"
  usage :: "usage_row list"
  seqs :: "seq_row list"
  changesets :: "changeset_row list"
  blobs :: "blob_row list"
  objects :: "object_row list"
  snapshots :: "snapshot_row list"
  floors :: "floor_row list"
  admin_nonces :: "admin_nonce_row list"
  login_nonces :: "login_nonce_row list"

definition empty_db :: db where
  "empty_db = \<lparr>workspaces = [], users = [], members = [], devices = [], rosters = [],
     refresh_tokens = [], limits_tbl = [], usage = [], seqs = [], changesets = [], blobs = [],
     objects = [], snapshots = [], floors = [], admin_nonces = [], login_nonces = []\<rparr>"

subsection \<open>Transactions\<close>

type_synonym 'a tx = "db \<Rightarrow> app_error + 'a \<times> db"

definition tx_return :: "'a \<Rightarrow> 'a tx" where
  "tx_return x = (\<lambda>d. Inr (x, d))"

definition tx_bind :: "'a tx \<Rightarrow> ('a \<Rightarrow> 'b tx) \<Rightarrow> 'b tx" where
  "tx_bind m f = (\<lambda>d. case m d of Inl e \<Rightarrow> Inl e | Inr (x, d') \<Rightarrow> f x d')"

definition tx_lift :: "app_error + 'a \<Rightarrow> 'a tx" where
  "tx_lift r = (\<lambda>d. case r of Inl e \<Rightarrow> Inl e | Inr x \<Rightarrow> Inr (x, d))"

definition tx_read :: "(db \<Rightarrow> 'a) \<Rightarrow> 'a tx" where
  "tx_read f = (\<lambda>d. Inr (f d, d))"

definition tx_write :: "(db \<Rightarrow> db) \<Rightarrow> unit tx" where
  "tx_write f = (\<lambda>d. Inr ((), f d))"

definition tx_require :: "bool \<Rightarrow> app_error \<Rightarrow> unit tx" where
  "tx_require b e = tx_lift (require b e)"

definition tx_seq :: "unit tx \<Rightarrow> 'b tx \<Rightarrow> 'b tx" where
  "tx_seq m n = tx_bind m (\<lambda>_. n)"

definition tx_when :: "bool \<Rightarrow> unit tx \<Rightarrow> unit tx" where
  "tx_when b m = (if b then m else tx_return ())"

text \<open>A statement whose foreign key \<open>REFERENCES workspaces(id)\<close> is checked.\<close>

definition tx_fk_workspace :: "uuid \<Rightarrow> unit tx" where
  "tx_fk_workspace t = (\<lambda>d. if exists_row (\<lambda>w. ws_id w = t) (workspaces d)
     then Inr ((), d) else Inl (Db ''violates foreign key constraint''))"

text \<open>The bootstrap \<open>INSERT .. (workspace_id) VALUES ($1) ON CONFLICT DO NOTHING\<close>: the foreign
  key is checked when a row is inserted.\<close>

definition tx_bootstrap :: "uuid \<Rightarrow> (db \<Rightarrow> bool) \<Rightarrow> (db \<Rightarrow> db) \<Rightarrow> unit tx" where
  "tx_bootstrap t present ins = (\<lambda>d. if present d then Inr ((), d)
     else tx_bind (tx_fk_workspace t) (\<lambda>_. tx_write ins) d)"

definition run_tx :: "'a tx \<Rightarrow> db \<Rightarrow> db \<times> (app_error + 'a)" where
  "run_tx m d = (case m d of Inl e \<Rightarrow> (d, Inl e) | Inr (x, d') \<Rightarrow> (d', Inr x))"

text \<open>A handler that commits before it answers with an error.\<close>

definition run_tx_join :: "(app_error + 'a) tx \<Rightarrow> db \<Rightarrow> db \<times> (app_error + 'a)" where
  "run_tx_join m d = (case m d of Inl e \<Rightarrow> (d, Inl e) | Inr (r, d') \<Rightarrow> (d', r))"

lemma tx_return_eq [result_simps]: "tx_return x d = Inr (y, d') \<longleftrightarrow> y = x \<and> d' = d"
  by (auto simp: tx_return_def)

lemma tx_return_not_Inl [simp]: "tx_return x d \<noteq> Inl e"
  by (simp add: tx_return_def)

lemma tx_bind_eq_Inr [result_simps]:
  "tx_bind m f d = Inr r \<longleftrightarrow> (\<exists>x d1. m d = Inr (x, d1) \<and> f x d1 = Inr r)"
  by (auto simp: tx_bind_def split: sum.split)

lemma tx_bind_eq_Inl [result_simps]:
  "tx_bind m f d = Inl e \<longleftrightarrow> m d = Inl e \<or> (\<exists>x d1. m d = Inr (x, d1) \<and> f x d1 = Inl e)"
  by (auto simp: tx_bind_def split: sum.split)

lemma tx_seq_eq_Inr [result_simps]:
  "tx_seq m n d = Inr r \<longleftrightarrow> (\<exists>d1. m d = Inr ((), d1) \<and> n d1 = Inr r)"
  by (auto simp: tx_seq_def tx_bind_eq_Inr)

lemma tx_seq_eq_Inl [result_simps]:
  "tx_seq m n d = Inl e \<longleftrightarrow> m d = Inl e \<or> (\<exists>d1. m d = Inr ((), d1) \<and> n d1 = Inl e)"
  by (auto simp: tx_seq_def tx_bind_eq_Inl)

lemma tx_lift_eq_Inr [result_simps]: "tx_lift r d = Inr (x, d') \<longleftrightarrow> r = Inr x \<and> d' = d"
  by (auto simp: tx_lift_def split: sum.split)

lemma tx_lift_eq_Inl [result_simps]: "tx_lift r d = Inl e \<longleftrightarrow> r = Inl e"
  by (auto simp: tx_lift_def split: sum.split)

lemma tx_read_eq [result_simps]: "tx_read f d = Inr (x, d') \<longleftrightarrow> x = f d \<and> d' = d"
  by (auto simp: tx_read_def)

lemma tx_read_not_Inl [simp]: "tx_read f d \<noteq> Inl e"
  by (simp add: tx_read_def)

lemma tx_write_eq [result_simps]: "tx_write f d = Inr (x, d') \<longleftrightarrow> d' = f d"
  by (auto simp: tx_write_def)

lemma tx_write_not_Inl [simp]: "tx_write f d \<noteq> Inl e"
  by (simp add: tx_write_def)

lemma tx_require_eq_Inr [result_simps]: "tx_require b e d = Inr (x, d') \<longleftrightarrow> b \<and> d' = d"
  by (auto simp: tx_require_def tx_lift_def require_def)

lemma tx_require_eq_Inl [result_simps]: "tx_require b e d = Inl e' \<longleftrightarrow> \<not> b \<and> e' = e"
  by (auto simp: tx_require_def tx_lift_def require_def)

lemma tx_when_eq_Inr [result_simps]:
  "tx_when b m d = Inr (x, d') \<longleftrightarrow> (if b then m d = Inr ((), d') else d' = d)"
  by (auto simp: tx_when_def tx_return_def)

lemma tx_when_eq_Inl [result_simps]: "tx_when b m d = Inl e \<longleftrightarrow> b \<and> m d = Inl e"
  by (auto simp: tx_when_def tx_return_def)

lemma tx_fk_eq_Inr [result_simps]:
  "tx_fk_workspace t d = Inr (x, d') \<longleftrightarrow> (\<exists>w\<in>set (workspaces d). ws_id w = t) \<and> d' = d"
  by (auto simp: tx_fk_workspace_def)

text \<open>Running the pieces on a concrete database.\<close>

lemma tx_run_simps:
  "tx_return x d = Inr (x, d)"
  "tx_bind m f d = (case m d of Inl e \<Rightarrow> Inl e | Inr (x, d') \<Rightarrow> f x d')"
  "tx_read g d = Inr (g d, d)"
  "tx_write h d = Inr ((), h d)"
  "tx_require b e d = (if b then Inr ((), d) else Inl e)"
  "tx_when b k d = (if b then k d else Inr ((), d))"
  "tx_seq k n d = (case k d of Inl e \<Rightarrow> Inl e | Inr (_, d') \<Rightarrow> n d')"
  "tx_fk_workspace t d = (if exists_row (\<lambda>w. ws_id w = t) (workspaces d)
     then Inr ((), d) else Inl (Db ''violates foreign key constraint''))"
  "tx_bootstrap t p i d = (if p d then Inr ((), d) else
     (case tx_fk_workspace t d of Inl e \<Rightarrow> Inl e | Inr (_, d') \<Rightarrow> Inr ((), i d')))"
  by (simp_all add: tx_return_def tx_bind_def tx_read_def tx_write_def tx_require_def tx_lift_def
      require_def tx_when_def tx_fk_workspace_def tx_bootstrap_def tx_seq_def)

lemma run_tx_error: "snd (run_tx m d) = Inl e \<Longrightarrow> fst (run_tx m d) = d"
  by (auto simp: run_tx_def split: sum.splits)

lemma run_tx_eq: "run_tx m d = (d', Inr x) \<longleftrightarrow> m d = Inr (x, d')"
  by (auto simp: run_tx_def split: sum.splits)

subsection \<open>What a tenant sees\<close>

text \<open>The rows the policies of \<open>migrations/\<close> show under \<open>app.tenant_id = t\<close>. The tables
  \<open>users\<close>, \<open>workspaces\<close>, \<open>admin_nonces\<close> and \<open>login_nonces\<close> have no policy.\<close>

definition tenant_view :: "uuid \<Rightarrow> db \<Rightarrow> db" where
  "tenant_view t d =
     \<lparr>workspaces = [], users = [],
      members = filter (\<lambda>r. wm_ws r = t) (members d),
      devices = filter (\<lambda>r. dv_ws r = t) (devices d),
      rosters = filter (\<lambda>r. ro_ws r = t) (rosters d),
      refresh_tokens = filter (\<lambda>r. rt_ws r = t) (refresh_tokens d),
      limits_tbl = filter (\<lambda>r. li_tenant r = t) (limits_tbl d),
      usage = filter (\<lambda>r. ug_tenant r = t) (usage d),
      seqs = filter (\<lambda>r. sq_ws r = t) (seqs d),
      changesets = filter (\<lambda>r. cs_ws r = t) (changesets d),
      blobs = filter (\<lambda>r. ab_ws r = t) (blobs d),
      objects = filter (\<lambda>r. ao_ws r = t) (objects d),
      snapshots = filter (\<lambda>r. sn_ws r = t) (snapshots d),
      floors = filter (\<lambda>r. fl_ws r = t) (floors d),
      admin_nonces = [], login_nonces = []\<rparr>"

definition others_kept :: "uuid \<Rightarrow> db \<Rightarrow> db \<Rightarrow> bool" where
  "others_kept t d d' \<longleftrightarrow> (\<forall>t'. t' \<noteq> t \<longrightarrow> tenant_view t' d' = tenant_view t' d)"

definition frames :: "uuid \<Rightarrow> 'a tx \<Rightarrow> bool" where
  "frames t m \<longleftrightarrow> (\<forall>d x d'. m d = Inr (x, d') \<longrightarrow> others_kept t d d')"

lemma others_kept_refl [simp, intro]: "others_kept t d d"
  by (simp add: others_kept_def)

lemma others_kept_trans: "others_kept t a b \<Longrightarrow> others_kept t b c \<Longrightarrow> others_kept t a c"
  by (simp add: others_kept_def)

lemma others_kept_step: "others_kept t d d1 \<Longrightarrow> others_kept t d1 (f d1) \<Longrightarrow> others_kept t d (f d1)"
  by (rule others_kept_trans)

lemma others_kept_opt:
  "others_kept t d d1 \<Longrightarrow> others_kept t d1 (f d1) \<Longrightarrow> others_kept t d ((if b then f else (\<lambda>d. d)) d1)"
  by (auto intro: others_kept_trans)

lemma framesD: "frames t m \<Longrightarrow> m d = Inr (x, d') \<Longrightarrow> others_kept t d d'"
  by (auto simp: frames_def)

lemma frames_return [frame_intros]: "frames t (tx_return x)"
  by (auto simp: frames_def result_simps)

lemma frames_read [frame_intros]: "frames t (tx_read f)"
  by (auto simp: frames_def result_simps)

lemma frames_lift [frame_intros]: "frames t (tx_lift r)"
  by (auto simp: frames_def result_simps)

lemma frames_require [frame_intros]: "frames t (tx_require b e)"
  by (auto simp: frames_def result_simps)

lemma frames_fk [frame_intros]: "frames t (tx_fk_workspace u)"
  by (auto simp: frames_def result_simps)

lemma frames_when [frame_intros]: "frames t m \<Longrightarrow> frames t (tx_when b m)"
  by (auto simp: frames_def result_simps split: if_splits)

lemma frames_bind [frame_intros]:
  "frames t m \<Longrightarrow> (\<And>x. frames t (f x)) \<Longrightarrow> frames t (tx_bind m f)"
  unfolding frames_def tx_bind_eq_Inr by (blast intro: others_kept_trans)

lemma frames_seq [frame_intros]: "frames t m \<Longrightarrow> frames t n \<Longrightarrow> frames t (tx_seq m n)"
  unfolding tx_seq_def by (intro frame_intros)

lemma frames_write [frame_intros]: "(\<And>d. others_kept t d (f d)) \<Longrightarrow> frames t (tx_write f)"
  by (auto simp: frames_def result_simps)

lemma frames_bootstrap [frame_intros]:
  "(\<And>d. others_kept t d (ins d)) \<Longrightarrow> frames t (tx_bootstrap u p ins)"
  by (auto simp: frames_def tx_bootstrap_def result_simps split: if_splits)

lemma frames_if [frame_intros]: "(b \<Longrightarrow> frames t m) \<Longrightarrow> (\<not> b \<Longrightarrow> frames t n) \<Longrightarrow> frames t (if b then m else n)"
  by simp

lemma frames_option [frame_intros]:
  "(x = None \<Longrightarrow> frames t m) \<Longrightarrow> (\<And>y. x = Some y \<Longrightarrow> frames t (f y)) \<Longrightarrow>
   frames t (case x of None \<Rightarrow> m | Some y \<Rightarrow> f y)"
  by (cases x) auto

lemma frames_run_tx: "frames t m \<Longrightarrow> others_kept t d (fst (run_tx m d))"
  by (auto simp: run_tx_def dest: framesD split: sum.split)

lemma frames_run_tx_join: "frames t m \<Longrightarrow> others_kept t d (fst (run_tx_join m d))"
  by (auto simp: run_tx_join_def dest: framesD split: sum.split)

text \<open>One table at a time: an update, insertion or deletion restricted to the tenant.\<close>

lemma others_kept_tables:
  assumes "\<And>t'. t' \<noteq> t \<Longrightarrow> tenant_view t' d' = tenant_view t' d"
  shows "others_kept t d d'"
  using assms by (simp add: others_kept_def)

lemma filter_update_other_tenant [table_simps]:
  "t' \<noteq> t \<Longrightarrow> (\<And>r. w r = t \<Longrightarrow> p r \<Longrightarrow> w (f r) = t) \<Longrightarrow> (\<And>r. p r \<Longrightarrow> w r = t) \<Longrightarrow>
   filter (\<lambda>r. w r = t') (update_where p f rows) = filter (\<lambda>r. w r = t') rows"
  by (rule filter_update_where_other) metis

lemma filter_delete_other_tenant [table_simps]:
  "t' \<noteq> t \<Longrightarrow> (\<And>r. p r \<Longrightarrow> w r = t) \<Longrightarrow>
   filter (\<lambda>r. w r = t') (delete_where p rows) = filter (\<lambda>r. w r = t') rows"
  by (rule filter_delete_where_other) metis

end
