(* ===== verification/Crates.thy ===== *)
theory Crates
  imports Relay_Types
begin

text \<open>
  The third-party functions the code calls, as one record of parameters, with the documented
  behaviour the properties use as named hypotheses, and the code's own key derivation on top of
  them: HKDF (\<open>crates/yapstack-crypto/src/hkdf.rs\<close>), the Argon2 verifier and the recovery split
  (\<open>kdf.rs\<close>), and the helpers of \<open>auth.rs\<close> that decode a field and compare verifiers.
\<close>

text \<open>The JSON claims of a token: an access token has neither family nor id.\<close>

record claims =
  jc_sub :: uuid
  jc_tenant :: uuid
  jc_client :: "uuid option"
  jc_family :: "uuid option"
  jc_jti :: "uuid option"
  jc_typ :: string
  jc_iat :: int
  jc_exp :: int

record crates =
  b64_dec :: "string \<Rightarrow> bytes option"
  b64_enc :: "bytes \<Rightarrow> string"
  hmac_sha256 :: "bytes \<Rightarrow> bytes \<Rightarrow> bytes"
  sha256 :: "bytes \<Rightarrow> bytes"
  argon2id :: "nat \<Rightarrow> nat \<Rightarrow> nat \<Rightarrow> bytes \<Rightarrow> bytes \<Rightarrow> bytes option"
  ed25519_verify_strict :: "bytes \<Rightarrow> bytes \<Rightarrow> bytes \<Rightarrow> bool"
  jwt_encode :: "bytes \<Rightarrow> claims \<Rightarrow> string"
  jwt_decode :: "bytes \<Rightarrow> int \<Rightarrow> string \<Rightarrow> claims option"
  chrono_format :: "string \<Rightarrow> timestamp \<Rightarrow> string"

definition b64_law :: "crates \<Rightarrow> bool" where
  "b64_law X \<longleftrightarrow> (\<forall>b. b64_dec X (b64_enc X b) = Some b)"

definition hmac_law :: "crates \<Rightarrow> bool" where
  "hmac_law X \<longleftrightarrow> (\<forall>k m. length (hmac_sha256 X k m) = 32)"

text \<open>A token decodes under the key that signed it until it expires (with the library's leeway of
  sixty seconds), to its claims.\<close>

definition jwt_law :: "crates \<Rightarrow> bool" where
  "jwt_law X \<longleftrightarrow> (\<forall>k c now. now \<le> jc_exp c + 60 \<longrightarrow> jwt_decode X k now (jwt_encode X k c) = Some c)"

subsection \<open>Length-prefixed encoding\<close>

text \<open>\<open>u32::to_be_bytes\<close> of a field's length; a field of \<open>2^32\<close> bytes or more panics (\<open>None\<close>).\<close>

definition u32_be :: "nat \<Rightarrow> bytes" where
  "u32_be n = map (\<lambda>i. of_nat (n div 256 ^ i)) [3, 2, 1, 0]"

fun lp :: "bytes list \<Rightarrow> bytes option" where
  "lp [] = Some []"
| "lp (f # fs) = (if length f \<ge> 2 ^ 32 then None
     else map_option (\<lambda>rest. u32_be (length f) @ f @ rest) (lp fs))"

lemma length_u32_be [simp]: "length (u32_be n) = 4"
  by (simp add: u32_be_def)

lemma of_nat_byte_eq: "(of_nat a :: 8 word) = of_nat b \<longleftrightarrow> a mod 256 = b mod 256"
  by (simp add: word_of_nat_eq_iff take_bit_eq_mod)

lemma u32_be_inj:
  assumes "a < 2 ^ 32" and "b < 2 ^ 32" and "u32_be a = u32_be b"
  shows "a = b"
proof -
  have d: "a div 256 ^ i mod 256 = b div 256 ^ i mod 256" if "i \<in> {0, 1, 2, 3}" for i
    using assms(3) that by (auto simp: u32_be_def of_nat_byte_eq)
  have step: "n = n mod 256 + 256 * (n div 256 mod 256) + 65536 * (n div 65536 mod 256) + 16777216 * (n div 16777216 mod 256)"
    if "n < 2 ^ 32" for n :: nat
  proof -
    have "n div 16777216 mod 256 = n div 16777216" using that by (intro mod_less) auto
    moreover have "n div 256 div 256 = n div 65536" "n div 65536 div 256 = n div 16777216"
      by (simp_all add: div_mult2_eq [symmetric])
    ultimately show ?thesis
      using div_mult_mod_eq [of n 256] div_mult_mod_eq [of "n div 256" 256]
        div_mult_mod_eq [of "n div 65536" 256] by linarith
  qed
  from step [OF assms(1)] step [OF assms(2)] d [of 0] d [of 1] d [of 2] d [of 3] show ?thesis
    by simp
qed

text \<open>\<open>from_be_bytes\<close>, and the bytes of a \<open>u64\<close>.\<close>

definition from_be :: "bytes \<Rightarrow> nat" where
  "from_be bs = foldl (\<lambda>a b. 256 * a + unat b) 0 bs"

definition u64_be :: "nat \<Rightarrow> bytes" where
  "u64_be n = map (\<lambda>i. of_nat (n div 256 ^ i)) [7, 6, 5, 4, 3, 2, 1, 0]"

lemma length_u64_be [simp]: "length (u64_be n) = 8"
  by (simp add: u64_be_def)

lemma unat_byte: "unat (of_nat n :: 8 word) = n mod 256"
  by (simp add: unat_of_nat)

lemma from_be_digits: "from_be (map (\<lambda>i. of_nat (n div 256 ^ i)) (rev [0..<k])) = n mod 256 ^ k"
proof (induction k arbitrary: n)
  case 0
  then show ?case by (simp add: from_be_def)
next
  case (Suc k)
  have "rev [0..<Suc k] = map Suc (rev [0..<k]) @ [0]"
    by (simp add: rev_map [symmetric] map_Suc_upt upt_conv_Cons del: upt_Suc)
  then have "from_be (map (\<lambda>i. of_nat (n div 256 ^ i)) (rev [0..<Suc k])) =
      256 * from_be (map (\<lambda>i. of_nat (n div 256 div 256 ^ i)) (rev [0..<k])) + n mod 256"
    by (simp add: from_be_def unat_byte comp_def div_mult2_eq)
  also have "\<dots> = n mod 256 ^ Suc k"
    using Suc.IH [of "n div 256"] by (simp add: mod_mult2_eq)
  finally show ?case .
qed

lemma from_be_u32 [simp]: "n < 2 ^ 32 \<Longrightarrow> from_be (u32_be n) = n"
  using from_be_digits [of n 4] by (simp add: u32_be_def upt_rec)

lemma from_be_u64 [simp]: "n < 2 ^ 64 \<Longrightarrow> from_be (u64_be n) = n"
  using from_be_digits [of n 8] by (simp add: u64_be_def upt_rec)

lemma from_be_snoc: "from_be (bs @ [b]) = 256 * from_be bs + unat b"
  by (simp add: from_be_def)

lemma unat_lt_256: "unat (b :: 8 word) < 256"
  using unsigned_less [of b, where 'a = nat] by simp

lemma from_be_less: "from_be bs < 256 ^ length bs"
proof (induction bs rule: rev_induct)
  case (snoc b bs)
  then have "256 * from_be bs + 256 \<le> 256 * 256 ^ length bs" by simp
  moreover have "unat b < 256" by (rule unat_lt_256)
  ultimately have "from_be (bs @ [b]) < 256 * 256 ^ length bs" unfolding from_be_snoc by linarith
  then show ?case by simp
qed (simp add: from_be_def)

lemma digits_from_be: "map (\<lambda>i. of_nat (from_be bs div 256 ^ i)) (rev [0..<length bs]) = bs"
proof (induction bs rule: rev_induct)
  case (snoc b bs)
  have div: "(256 * n + unat b) div 256 = n" for n
    using unat_lt_256 [of b] by simp
  have "rev [0..<Suc (length bs)] = map Suc (rev [0..<length bs]) @ [0]"
    by (simp add: rev_map [symmetric] map_Suc_upt upt_conv_Cons del: upt_Suc)
  moreover have "of_nat (256 * n + unat b) = b" for n
  proof -
    have "(of_nat (256 * n + unat b) :: 8 word) = of_nat (unat b)" by (subst of_nat_byte_eq) simp
    then show ?thesis by simp
  qed
  moreover have "(256 * from_be bs + unat b) div (256 * 256 ^ i) = from_be bs div 256 ^ i" for i
    by (simp only: div_mult2_eq div)
  ultimately show ?case using snoc by (simp add: from_be_snoc comp_def del: upt_Suc)
qed simp

lemma u32_be_from_be: "length bs = 4 \<Longrightarrow> u32_be (from_be bs) = bs"
  using digits_from_be [of bs] by (simp add: u32_be_def upt_rec)

lemma u64_be_from_be: "length bs = 8 \<Longrightarrow> u64_be (from_be bs) = bs"
  using digits_from_be [of bs] by (simp add: u64_be_def upt_rec)

text \<open>The encoding determines the fields: no two lists of fields have the same bytes.\<close>

lemma lp_inj: "lp fs = Some m \<Longrightarrow> lp gs = Some m \<Longrightarrow> fs = gs"
proof (induction fs arbitrary: gs m)
  case Nil
  then show ?case by (cases gs) (auto simp: u32_be_def split: if_splits)
next
  case (Cons f fs)
  then obtain rest where f: "length f < 2 ^ 32" "lp fs = Some rest" "m = u32_be (length f) @ f @ rest"
    by (auto split: if_splits)
  show ?case
  proof (cases gs)
    case Nil
    with Cons.prems(2) f(3) show ?thesis by (auto simp: u32_be_def)
  next
    case (Cons g gs')
    with Cons.prems(2) obtain rest' where g: "length g < 2 ^ 32" "lp gs' = Some rest'"
      "m = u32_be (length g) @ g @ rest'" by (auto split: if_splits)
    have "u32_be (length f) @ f @ rest = u32_be (length g) @ g @ rest'" using f(3) g(3) by simp
    then have a: "u32_be (length f) = u32_be (length g)" "f @ rest = g @ rest'"
      by (simp_all add: append_eq_append_conv)
    from u32_be_inj [OF f(1) g(1) a(1)] a(2) have "f = g" "rest = rest'" by simp_all
    with Cons.IH [OF f(2)] g(2) Cons show ?thesis by simp
  qed
qed

subsection \<open>HKDF\<close>

definition hkdf_extract :: "crates \<Rightarrow> bytes \<Rightarrow> bytes \<Rightarrow> bytes" where
  "hkdf_extract X salt ikm = hmac_sha256 X salt ikm"

text \<open>The loop of \<open>expand\<close>. The counter is a \<open>u8\<close>; \<open>checked_add(1).expect\<close> panics (\<open>None\<close>)
  when it has reached 255.\<close>

function expand_loop :: "crates \<Rightarrow> bytes \<Rightarrow> bytes \<Rightarrow> nat \<Rightarrow> bytes \<Rightarrow> bytes \<Rightarrow> nat \<Rightarrow> bytes option" where
  "expand_loop X prk info len okm t counter =
     (if length okm < len
      then let t' = hmac_sha256 X prk (t @ info @ [of_nat counter])
           in if counter \<ge> 255 then None else expand_loop X prk info len (okm @ t') t' (counter + 1)
      else Some okm)"
  by pat_completeness auto
termination
  by (relation "measure (\<lambda>(X, prk, info, len, okm, t, counter). 255 - counter)") auto

declare expand_loop.simps [simp del]

definition hkdf_expand :: "crates \<Rightarrow> bytes \<Rightarrow> bytes \<Rightarrow> nat \<Rightarrow> bytes option" where
  "hkdf_expand X prk info okm_len =
     (if okm_len \<le> 255 * 32
      then map_option (take okm_len) (expand_loop X prk info okm_len [] [] 1) else None)"

definition hkdf_extract_expand :: "crates \<Rightarrow> bytes \<Rightarrow> bytes \<Rightarrow> bytes \<Rightarrow> nat \<Rightarrow> bytes option" where
  "hkdf_extract_expand X salt ikm info okm_len = hkdf_expand X (hkdf_extract X salt ikm) info okm_len"

text \<open>RFC 5869: \<open>T(0)\<close> is empty, \<open>T(i) = HMAC(PRK, T(i-1) | info | i)\<close>, and the output is the
  prefix of \<open>T(1) | T(2) | ..\<close>.\<close>

fun rfc_block :: "crates \<Rightarrow> bytes \<Rightarrow> bytes \<Rightarrow> nat \<Rightarrow> bytes" where
  "rfc_block X prk info 0 = []"
| "rfc_block X prk info (Suc i) = hmac_sha256 X prk (rfc_block X prk info i @ info @ [of_nat (Suc i)])"

definition rfc_blocks :: "crates \<Rightarrow> bytes \<Rightarrow> bytes \<Rightarrow> nat \<Rightarrow> bytes" where
  "rfc_blocks X prk info n = concat (map (rfc_block X prk info) [1..<Suc n])"

lemma length_rfc_blocks: "hmac_law X \<Longrightarrow> length (rfc_blocks X prk info n) = 32 * n"
  by (induction n) (simp_all add: rfc_blocks_def hmac_law_def)

lemma rfc_blocks_Suc: "rfc_blocks X prk info (Suc n) = rfc_blocks X prk info n @ rfc_block X prk info (Suc n)"
  by (simp add: rfc_blocks_def)

lemma rfc_blocks_prefix: "m \<le> n \<Longrightarrow> \<exists>rest. rfc_blocks X prk info n = rfc_blocks X prk info m @ rest"
  by (induction n rule: nat_induct) (auto simp: rfc_blocks_Suc le_Suc_eq)

lemma expand_loop_blocks:
  assumes "hmac_law X" and "len \<le> 254 * 32" and "i \<le> 254"
  shows "\<exists>n. i \<le> n \<and> len \<le> 32 * n \<and>
    expand_loop X prk info len (rfc_blocks X prk info i) (rfc_block X prk info i) (Suc i) =
      Some (rfc_blocks X prk info n)"
  using assms(3)
proof (induction "254 - i" arbitrary: i)
  case 0
  then have "len \<le> 32 * i" using assms(2) by simp
  with assms(1) show ?case
    by (subst expand_loop.simps) (auto simp: length_rfc_blocks intro!: exI [of _ i])
next
  case (Suc k)
  then have i: "i < 254" "k = 254 - Suc i" by auto
  show ?case
  proof (cases "len \<le> 32 * i")
    case True
    with assms(1) show ?thesis
      by (subst expand_loop.simps) (auto simp: length_rfc_blocks intro!: exI [of _ i])
  next
    case False
    from Suc.hyps(1) [OF i(2)] i obtain n where n: "Suc i \<le> n" "len \<le> 32 * n"
      "expand_loop X prk info len (rfc_blocks X prk info (Suc i)) (rfc_block X prk info (Suc i)) (Suc (Suc i)) =
        Some (rfc_blocks X prk info n)" by auto
    have "expand_loop X prk info len (rfc_blocks X prk info i) (rfc_block X prk info i) (Suc i) =
        Some (rfc_blocks X prk info n)"
      by (subst expand_loop.simps)
        (use False assms(1) i n(3) in \<open>simp add: length_rfc_blocks rfc_blocks_Suc Let_def\<close>)
    with n(1,2) show ?thesis by (auto intro!: exI [of _ n])
  qed
qed

lemma hkdf_expand_eq:
  assumes "hmac_law X" and "len \<le> 254 * 32"
  shows "\<exists>n. len \<le> 32 * n \<and> hkdf_expand X prk info len = Some (take len (rfc_blocks X prk info n))"
  using expand_loop_blocks [OF assms, of 0 prk info] assms(2)
  by (auto simp: hkdf_expand_def rfc_blocks_def)

lemma take_rfc_blocks:
  assumes "hmac_law X" and "len \<le> 32 * m" and "len \<le> 32 * n"
  shows "take len (rfc_blocks X prk info m) = take len (rfc_blocks X prk info n)"
proof -
  have *: "take len (rfc_blocks X prk info b) = take len (rfc_blocks X prk info a)"
    if "a \<le> b" "len \<le> 32 * a" for a b
    using rfc_blocks_prefix [OF that(1), of X prk info] that(2) length_rfc_blocks [OF assms(1), of prk info a]
    by auto
  show ?thesis using * [of m n] * [of n m] assms by (cases "m \<le> n") auto
qed

subsection \<open>Argon2 and the derived keys\<close>

datatype crypto_error =
  Seal | Open | Commitment | Version "8 word" | Malformed | Io string | KdfParams | Kdf | Signature

definition server_verifier_kdf :: "crates \<Rightarrow> bytes \<Rightarrow> bytes \<Rightarrow> crypto_error + bytes" where
  "server_verifier_kdf X auth_key server_salt =
     (case argon2id X 19456 2 1 auth_key server_salt of None \<Rightarrow> Inl Kdf | Some v \<Rightarrow> Inr v)"

definition client_stretch :: "crates \<Rightarrow> bytes \<Rightarrow> bytes \<Rightarrow> crypto_error + bytes" where
  "client_stretch X password salt_enc =
     (case argon2id X 65536 3 4 password salt_enc of None \<Rightarrow> Inl Kdf | Some v \<Rightarrow> Inr v)"

definition split_keys :: "crates \<Rightarrow> bytes \<Rightarrow> (bytes \<times> bytes) option" where
  "split_keys X stretch =
     (case (hkdf_expand X stretch (str_bytes ''yapstack.auth.v1'') 32,
            hkdf_expand X stretch (str_bytes ''yapstack.master.v1'') 32) of
        (Some a, Some m) \<Rightarrow> Some (a, m) | _ \<Rightarrow> None)"

definition recovery_info :: bytes where
  "recovery_info = str_bytes ''yapstack.recovery.v1''"

definition recovery_key :: "crates \<Rightarrow> bytes \<Rightarrow> bytes option" where
  "recovery_key X recovery_bytes = hkdf_expand X recovery_bytes recovery_info 32"

definition recovery_split :: "crates \<Rightarrow> bytes \<Rightarrow> (bytes \<times> bytes) option" where
  "recovery_split X recovery_bytes =
     map_option (\<lambda>okm. (take 32 okm, take 32 (drop 32 okm))) (hkdf_expand X recovery_bytes recovery_info 64)"

definition devlist_sign_seed :: "crates \<Rightarrow> bytes \<Rightarrow> bytes option" where
  "devlist_sign_seed X vault_key = hkdf_expand X vault_key (str_bytes ''yapstack.devicelist.sign.v1'') 32"

subsection \<open>Helpers of the auth handlers\<close>

definition b64_decode :: "crates \<Rightarrow> string \<Rightarrow> string \<Rightarrow> app_error + bytes" where
  "b64_decode X field s = (case b64_dec X s of
       None \<Rightarrow> Inl (BadRequest (field @ '': invalid base64'')) | Some b \<Rightarrow> Inr b)"

definition ct_eq :: "bytes \<Rightarrow> bytes \<Rightarrow> bool" where
  "ct_eq a b = (if length a \<noteq> length b then False
     else foldl (\<lambda>diff (x, y). or diff (xor x y)) 0 (zip a b) = 0)"

text \<open>\<open>AppState::server_verifier\<close>: the hash under the semaphore, with its error mapped.\<close>

definition server_verifier :: "crates \<Rightarrow> bytes \<Rightarrow> bytes \<Rightarrow> app_error + bytes" where
  "server_verifier X auth_key salt = (case server_verifier_kdf X auth_key salt of
       Inl _ \<Rightarrow> Inl (Internal ''verifier'') | Inr v \<Rightarrow> Inr v)"

lemma or_eq_0: "or (a :: 8 word) b = 0 \<longleftrightarrow> a = 0 \<and> b = 0"
  by (auto simp: bit_eq_iff bit_simps)

lemma xor_eq_0: "xor (a :: 8 word) b = 0 \<longleftrightarrow> a = b"
  by (auto simp: bit_eq_iff bit_simps)

lemma foldl_diff: "foldl (\<lambda>diff (x, y). or diff (xor x y)) (d :: 8 word) ps = 0 \<longleftrightarrow>
    d = 0 \<and> (\<forall>(x, y)\<in>set ps. x = y)"
  by (induction ps arbitrary: d) (auto simp: or_eq_0 xor_eq_0)

lemma ct_eq_iff: "ct_eq a b \<longleftrightarrow> a = b"
proof (cases "length a = length b")
  case True
  then have "(\<forall>(x, y)\<in>set (zip a b). x = y) \<longleftrightarrow> a = b"
    by (induction a b rule: list_induct2) auto
  with True show ?thesis by (simp add: ct_eq_def foldl_diff)
qed (auto simp: ct_eq_def)

text \<open>A concrete instance of the parameters, for examples.\<close>

definition toy_crates :: crates where
  "toy_crates = \<lparr>
     b64_dec = (\<lambda>s. Some (map (\<lambda>c. of_nat (of_char c)) s)),
     b64_enc = (\<lambda>b. map (\<lambda>x. char_of (unat x)) b),
     hmac_sha256 = (\<lambda>k m. take 32 (m @ replicate 32 0)),
     sha256 = (\<lambda>m. take 32 (m @ replicate 32 0)),
     argon2id = (\<lambda>m t p pw salt. Some (take 32 (pw @ salt @ replicate 32 0))),
     ed25519_verify_strict = (\<lambda>k m s. take 32 s = k),
     jwt_encode = (\<lambda>k c. jc_typ c),
     jwt_decode = (\<lambda>k now s. None),
     chrono_format = (\<lambda>f t. ''20260101'')\<rparr>"

lemma toy_hmac: "hmac_law toy_crates"
proof -
  have "min (length m) 32 + (32 - length m) = 32" for m :: bytes by arith
  then show ?thesis by (simp add: hmac_law_def toy_crates_def)
qed

lemma toy_b64: "b64_law toy_crates"
proof -
  have "(of_nat (of_char (char_of (unat x) :: char)) :: 8 word) = x" for x :: "8 word"
  proof -
    have "unat x < 256" using unsigned_less [of x, where 'a = nat] by simp
    then show ?thesis by simp
  qed
  then show ?thesis by (simp add: b64_law_def toy_crates_def comp_def)
qed

subsection \<open>Properties\<close>

text \<open>HKDF-Expand is RFC 5869's. For every length the spec's derivations use (up to 254
  blocks), \<open>expand\<close> returns, without panicking, exactly the first \<open>len\<close> bytes of
  \<open>T(1) | T(2) | ..\<close>; a shorter output is a prefix of a longer one, so the first half of the
  64-byte recovery split is byte for byte the recovery wrapping key.\<close>

theorem hkdf_expand_rfc:
  assumes "hmac_law X" and "len \<le> 254 * 32"
  shows "hkdf_expand X prk info len = Some (take len (rfc_blocks X prk info 255)) \<and>
    length (take len (rfc_blocks X prk info 255)) = len \<and>
    (\<exists>w a. recovery_split X rec = Some (w, a) \<and> recovery_key X rec = Some w \<and> length a = 32)"
proof -
  have exp: "hkdf_expand X p i l = Some (take l (rfc_blocks X p i 255)) \<and>
      length (take l (rfc_blocks X p i 255)) = l" if l: "l \<le> 254 * 32" for p i l
  proof -
    obtain n where n: "l \<le> 32 * n" "hkdf_expand X p i l = Some (take l (rfc_blocks X p i n))"
      using hkdf_expand_eq [OF assms(1) l] by blast
    have "take l (rfc_blocks X p i n) = take l (rfc_blocks X p i 255)"
      by (rule take_rfc_blocks [OF assms(1) n(1)]) (use l in simp)
    with n(2) l show ?thesis by (simp add: length_rfc_blocks [OF assms(1)])
  qed
  have "take 32 (take 64 (rfc_blocks X rec recovery_info 255)) = take 32 (rfc_blocks X rec recovery_info 255)"
    by simp
  then have "\<exists>w a. recovery_split X rec = Some (w, a) \<and> recovery_key X rec = Some w \<and> length a = 32"
    using exp [of 64 rec recovery_info] exp [of 32 rec recovery_info]
    by (simp add: recovery_split_def recovery_key_def length_rfc_blocks [OF assms(1)])
  with exp [OF assms(2)] show ?thesis by blast
qed

lemma hkdf_expand_rfc_witness:
  "hkdf_expand toy_crates [1, 2] [3] 40 = Some (take 40 (rfc_blocks toy_crates [1, 2] [3] 255))"
  using hkdf_expand_rfc [OF toy_hmac, of 40] by simp

text \<open>The documented range of \<open>expand\<close> is not the code's. It says to panic only above
  255 * 32 bytes, but for the last block, 8129 to 8160 bytes, the output is complete when the
  \<open>u8\<close> counter is advanced past 255, and the \<open>expect\<close> panics.\<close>

theorem hkdf_expand_last_block_panics:
  assumes "hmac_law X" and "254 * 32 < len" and "len \<le> 255 * 32"
  shows "hkdf_expand X prk info len = None"
proof -
  have "i \<le> 254 \<Longrightarrow> expand_loop X prk info len (rfc_blocks X prk info i) (rfc_block X prk info i) (Suc i) = None" for i
  proof (induction "254 - i" arbitrary: i)
    case 0
    then have "i = 254" by simp
    with assms show ?case by (subst expand_loop.simps) (simp add: length_rfc_blocks Let_def)
  next
    case (Suc k)
    then have i: "i < 254" "k = 254 - Suc i" by auto
    from Suc.hyps(1) [OF i(2)] i(1) assms show ?case
      by (subst expand_loop.simps) (simp add: length_rfc_blocks rfc_blocks_Suc Let_def)
  qed
  from this [of 0] show ?thesis by (simp add: hkdf_expand_def rfc_blocks_def)
qed

lemma hkdf_expand_last_block_panics_witness: "hkdf_expand toy_crates [1] [2] 8160 = None"
  by (rule hkdf_expand_last_block_panics [OF toy_hmac]) simp_all

text \<open>The constant-time comparison is equality: it accepts a verifier exactly when it is the
  stored one, whatever the lengths.\<close>

theorem ct_eq_is_equality: "ct_eq a b \<longleftrightarrow> a = b"
  by (rule ct_eq_iff)

end
