(* ===== verification/Devices.thy ===== *)
theory Devices
  imports Relay_Db Crates
begin

text \<open>
  Device authorization: \<open>crates/yapstack-server/src/devices.rs\<close>. The write gate that push,
  presign and the password change share, the device index and roster reads, and the roster
  upload with its anti-rollback check, its recovery path and device removal.
\<close>

record auth_tenant =
  au_user :: uuid
  au_tenant :: uuid
  au_client :: "uuid option"

subsection \<open>The write gate\<close>

definition device_of :: "uuid \<Rightarrow> uuid \<Rightarrow> db \<Rightarrow> device_row option" where
  "device_of t c d = fetch_optional (\<lambda>r. dv_ws r = t \<and> dv_client r = c) (devices d)"

definition require_active_caller :: "uuid \<Rightarrow> uuid option \<Rightarrow> unit tx" where
  "require_active_caller t client_id =
     tx_bind (tx_lift (ok_or client_id Forbidden)) (\<lambda>caller.
       tx_bind (tx_read (device_of t caller)) (\<lambda>row.
         tx_require (case row of Some r \<Rightarrow> dv_status r = DevActive | None \<Rightarrow> False) Forbidden))"

text \<open>The same query with \<open>FOR SHARE\<close>.\<close>

definition require_active_caller_locked :: "uuid \<Rightarrow> uuid option \<Rightarrow> unit tx" where
  "require_active_caller_locked t client_id = require_active_caller t client_id"

definition active_device :: "uuid \<Rightarrow> uuid option \<Rightarrow> db \<Rightarrow> bool" where
  "active_device t client_id d \<longleftrightarrow>
     (\<exists>c r. client_id = Some c \<and> device_of t c d = Some r \<and> dv_status r = DevActive)"

lemma require_active_caller_Inr [result_simps]:
  "require_active_caller t c d = Inr (x, d') \<longleftrightarrow> active_device t c d \<and> d' = d"
  by (auto simp: require_active_caller_def active_device_def result_simps split: option.splits)

lemma require_active_caller_Inl [result_simps]:
  "require_active_caller t c d = Inl e \<longleftrightarrow> \<not> active_device t c d \<and> e = Forbidden"
  by (cases c) (auto simp: require_active_caller_def active_device_def result_simps split: option.splits)

lemma frames_active [frame_intros]: "frames t (require_active_caller u c)"
  by (auto simp: frames_def result_simps)

lemma frames_active_locked [frame_intros]: "frames t (require_active_caller_locked u c)"
  by (simp add: require_active_caller_locked_def frames_active)

subsection \<open>Reads\<close>

definition list_devices :: "auth_tenant \<Rightarrow> (device_row list) tx" where
  "list_devices auth = tx_read (\<lambda>d. sort_key dv_added_at (filter (\<lambda>r. dv_ws r = au_tenant auth) (devices d)))"

definition roster_of :: "uuid \<Rightarrow> db \<Rightarrow> roster_row option" where
  "roster_of t d = fetch_optional (\<lambda>r. ro_ws r = t) (rosters d)"

definition get_roster :: "auth_tenant \<Rightarrow> roster_row tx" where
  "get_roster auth = tx_bind (tx_read (roster_of (au_tenant auth))) (\<lambda>row. tx_lift (ok_or row NotFound))"

subsection \<open>Roster upload\<close>

record roster_upload =
  ru_list :: json
  ru_signature :: string
  ru_counter :: int
  ru_epoch :: int
  ru_active :: "uuid list"
  ru_revoked :: "uuid list"
  ru_current_auth_key :: "string option"

definition roster_signature :: "crates \<Rightarrow> roster_upload \<Rightarrow> app_error + bytes" where
  "roster_signature X req =
     bind_result (b64_decode X ''signature'' (ru_signature req)) (\<lambda>s.
       if length s \<noteq> 64 then Inl (BadRequest ''signature: expected 64 bytes'') else Inr s)"

text \<open>Whether the caller writes through a recovery grant: an active caller does not need one.\<close>

definition roster_authz :: "timestamp \<Rightarrow> uuid \<Rightarrow> uuid \<Rightarrow> db \<Rightarrow> app_error + bool" where
  "roster_authz now t caller d = (case device_of t caller d of
       None \<Rightarrow> Inl Forbidden
     | Some r \<Rightarrow>
         if dv_status r = DevActive then Inr False
         else if (case dv_recovery_grant_at r of None \<Rightarrow> False | Some g \<Rightarrow> g > now - minutes 15)
         then Inr True else Inl Forbidden)"

definition user_of :: "uuid \<Rightarrow> db \<Rightarrow> user_row option" where
  "user_of u d = fetch_optional (\<lambda>r. us_id r = u) (users d)"

definition removal_check :: "crates \<Rightarrow> auth_tenant \<Rightarrow> uuid \<Rightarrow> bool \<Rightarrow> roster_upload \<Rightarrow> db \<Rightarrow> app_error + unit" where
  "removal_check X auth caller recovery_bootstrap req d =
     (if ru_revoked req = [] then Inr ()
      else if recovery_bootstrap \<or> caller \<in> set (ru_revoked req) then Inl Forbidden
      else if length (ru_revoked req) > 32 then Inl (BadRequest ''too many devices in one removal'')
      else if list_ex (\<lambda>i. i \<in> set (ru_active req)) (ru_revoked req)
      then Inl (BadRequest ''a device cannot be both revoked and active'')
      else bind_result (ok_or (ru_current_auth_key req) Unauthorized) (\<lambda>cur_b64.
        bind_result (b64_decode X ''current_auth_key'' cur_b64) (\<lambda>cur.
          bind_result (ok_or (user_of (au_user auth) d) Unauthorized) (\<lambda>u.
            bind_result (server_verifier X cur (us_server_salt u)) (\<lambda>computed.
              require (ct_eq computed (us_verifier u)) Unauthorized)))))"

definition rollback_check :: "roster_upload \<Rightarrow> roster_row \<Rightarrow> app_error + unit" where
  "rollback_check req stored =
     (if ru_counter req \<le> ro_counter stored
      then Inl (Conflict ''roster counter is not newer than the stored roster'')
      else if ru_epoch req < ro_epoch stored
      then Inl (Conflict ''vault_key_epoch is older than the stored roster'')
      else Inr ())"

definition recovery_check :: "uuid \<Rightarrow> uuid \<Rightarrow> roster_upload \<Rightarrow> roster_row \<Rightarrow> db \<Rightarrow> app_error + unit" where
  "recovery_check t caller req stored d =
     (if ru_counter req \<noteq> ro_counter stored + 1
      then Inl (Conflict ''recovery re-bootstrap must advance the roster counter by exactly one'')
      else if ru_epoch req \<noteq> ro_epoch stored then Inl Forbidden
      else if caller \<notin> set (ru_active req) then Inl Forbidden
      else
        let others = filter (\<lambda>i. i \<noteq> caller) (ru_active req)
        in if others = [] then Inr ()
           else require (rows_where (\<lambda>r. dv_ws r = t \<and> dv_client r \<in> set others \<and> dv_status r = DevActive)
                           (devices d) = length others) Forbidden)"

definition promote :: "uuid \<Rightarrow> uuid list \<Rightarrow> db \<Rightarrow> db" where
  "promote t ids d = d\<lparr>devices := update_where (\<lambda>r. dv_ws r = t \<and> dv_client r \<in> set ids)
     (\<lambda>r. r\<lparr>dv_status := DevActive, dv_recovery_grant_at := None\<rparr>) (devices d)\<rparr>"

definition revoke_devices :: "uuid \<Rightarrow> uuid list \<Rightarrow> db \<Rightarrow> db" where
  "revoke_devices t ids d = d\<lparr>
     devices := update_where (\<lambda>r. dv_ws r = t \<and> dv_client r \<in> set ids)
       (\<lambda>r. r\<lparr>dv_status := DevRevoked, dv_recovery_grant_at := None, dv_recovered_at := None\<rparr>) (devices d),
     refresh_tokens := update_where
       (\<lambda>r. rt_ws r = t \<and> (\<exists>c\<in>set ids. rt_client r = Some c) \<and> \<not> rt_revoked r)
       (\<lambda>r. r\<lparr>rt_revoked := True\<rparr>) (refresh_tokens d)\<rparr>"

definition store_roster :: "uuid \<Rightarrow> roster_upload \<Rightarrow> bytes \<Rightarrow> db \<Rightarrow> db" where
  "store_roster t req sig d = d\<lparr>rosters := update_where (\<lambda>r. ro_ws r = t)
     (\<lambda>r. r\<lparr>ro_list := ru_list req, ro_signature := sig, ro_counter := ru_counter req,
            ro_epoch := ru_epoch req\<rparr>) (rosters d)\<rparr>"

definition consume_grant :: "uuid \<Rightarrow> uuid \<Rightarrow> db \<Rightarrow> db" where
  "consume_grant t caller d = d\<lparr>devices := update_where
     (\<lambda>r. dv_ws r = t \<and> dv_client r = caller \<and> dv_recovery_grant_at r \<noteq> None)
     (\<lambda>r. r\<lparr>dv_recovery_grant_at := None\<rparr>) (devices d)\<rparr>"

definition put_roster :: "crates \<Rightarrow> timestamp \<Rightarrow> auth_tenant \<Rightarrow> roster_upload \<Rightarrow> (int \<times> int) tx" where
  "put_roster X now auth req =
     (let t = au_tenant auth in
      tx_bind (tx_lift (roster_signature X req)) (\<lambda>signature.
      tx_bind (tx_lift (ok_or (au_client auth) Forbidden)) (\<lambda>caller.
      tx_bind (tx_read (roster_of t)) (\<lambda>current.
      tx_bind (\<lambda>d. tx_lift (roster_authz now t caller d) d) (\<lambda>recovery_bootstrap.
      tx_seq (\<lambda>d. tx_lift (removal_check X auth caller recovery_bootstrap req d) d) (
      tx_bind (tx_lift (ok_or current NotFound)) (\<lambda>stored.
      tx_seq (tx_lift (rollback_check req stored)) (
      tx_seq (tx_when recovery_bootstrap (\<lambda>d. tx_lift (recovery_check t caller req stored d) d)) (
      tx_seq (tx_write (store_roster t req signature)) (
      tx_seq (tx_when (ru_active req \<noteq> []) (tx_write (promote t (ru_active req)))) (
      tx_seq (tx_when (ru_revoked req \<noteq> []) (tx_write (revoke_devices t (ru_revoked req)))) (
      tx_seq (tx_write (consume_grant t caller)) (
      tx_return (ru_counter req, ru_epoch req))))))))))))))"

subsection \<open>What a successful upload did\<close>

definition roster_effect :: "uuid \<Rightarrow> uuid \<Rightarrow> roster_upload \<Rightarrow> bytes \<Rightarrow> db \<Rightarrow> db" where
  "roster_effect t caller req sig d =
     consume_grant t caller
       ((if ru_revoked req \<noteq> [] then revoke_devices t (ru_revoked req) else (\<lambda>d. d))
         ((if ru_active req \<noteq> [] then promote t (ru_active req) else (\<lambda>d. d))
           (store_roster t req sig d)))"

lemma put_roster_Inr:
  "put_roster X now auth req d = Inr (x, d') \<longleftrightarrow>
   (\<exists>sig caller stored rec. roster_signature X req = Inr sig \<and> au_client auth = Some caller \<and>
      roster_of (au_tenant auth) d = Some stored \<and>
      roster_authz now (au_tenant auth) caller d = Inr rec \<and>
      removal_check X auth caller rec req d = Inr () \<and> rollback_check req stored = Inr () \<and>
      (rec \<longrightarrow> recovery_check (au_tenant auth) caller req stored d = Inr ()) \<and>
      x = (ru_counter req, ru_epoch req) \<and> d' = roster_effect (au_tenant auth) caller req sig d)"
proof -
  have wr: "tx_when b (tx_write f) d1 = Inr (u, d2) \<longleftrightarrow> d2 = (if b then f else (\<lambda>d. d)) d1"
    for b f d1 u d2 by (auto simp: result_simps)
  show ?thesis (is "?l = ?r")
  proof
    assume ?l
    then show ?r
      unfolding put_roster_def Let_def roster_effect_def
      by (auto simp: tx_bind_eq_Inr tx_seq_eq_Inr tx_lift_eq_Inr tx_read_eq ok_or_eq_Inr wr tx_write_eq
          tx_return_eq tx_when_eq_Inr [of _ "\<lambda>d. tx_lift (f d) d" for f] split: if_splits)
  next
    assume ?r
    then show ?l
      unfolding put_roster_def Let_def roster_effect_def
      by (auto simp: tx_run_simps tx_lift_def)
  qed
qed

lemma rosters_effect [simp]: "rosters (roster_effect t c req sig d) = rosters (store_roster t req sig d)"
  by (simp add: roster_effect_def consume_grant_def revoke_devices_def promote_def)

lemma roster_of_effect:
  "roster_of t (roster_effect t c req sig d) =
     map_option (\<lambda>r. r\<lparr>ro_list := ru_list req, ro_signature := sig, ro_counter := ru_counter req,
       ro_epoch := ru_epoch req\<rparr>) (roster_of t d)"
  unfolding roster_of_def rosters_effect store_roster_def
  by (simp add: fetch_update_same)

lemma rollback_check_Inr: "rollback_check req stored = Inr () \<longleftrightarrow>
    ro_counter stored < ru_counter req \<and> ro_epoch stored \<le> ru_epoch req"
  by (auto simp: rollback_check_def)

text \<open>The upload's effect on one device row of the tenant.\<close>

definition roster_device :: "uuid \<Rightarrow> roster_upload \<Rightarrow> device_row \<Rightarrow> device_row" where
  "roster_device caller req r =
     (let r1 = (if dv_client r \<in> set (ru_active req)
                then r\<lparr>dv_status := DevActive, dv_recovery_grant_at := None\<rparr> else r);
          r2 = (if dv_client r \<in> set (ru_revoked req)
                then r1\<lparr>dv_status := DevRevoked, dv_recovery_grant_at := None, dv_recovered_at := None\<rparr> else r1)
      in if dv_client r = caller then r2\<lparr>dv_recovery_grant_at := None\<rparr> else r2)"

lemma roster_device_simps [simp]:
  "dv_ws (roster_device caller req r) = dv_ws r"
  "dv_client (roster_device caller req r) = dv_client r"
  "dv_user (roster_device caller req r) = dv_user r"
  "dv_status (roster_device caller req r) =
     (if dv_client r \<in> set (ru_revoked req) then DevRevoked
      else if dv_client r \<in> set (ru_active req) then DevActive else dv_status r)"
  "dv_recovery_grant_at (roster_device caller req r) =
     (if dv_client r \<in> set (ru_revoked req) \<union> set (ru_active req) \<or> dv_client r = caller
      then None else dv_recovery_grant_at r)"
  by (simp_all add: roster_device_def Let_def)

lemma devices_effect:
  "devices (roster_effect t caller req sig d) =
     map (\<lambda>r. if dv_ws r = t then roster_device caller req r else r) (devices d)"
proof -
  let ?f = "\<lambda>r. if dv_ws r = t \<and> dv_client r \<in> set (ru_active req)
    then r\<lparr>dv_status := DevActive, dv_recovery_grant_at := None\<rparr> else r"
  let ?g = "\<lambda>r. if dv_ws r = t \<and> dv_client r \<in> set (ru_revoked req)
    then r\<lparr>dv_status := DevRevoked, dv_recovery_grant_at := None, dv_recovered_at := None\<rparr> else r"
  let ?h = "\<lambda>r. if dv_ws r = t \<and> dv_client r = caller \<and> dv_recovery_grant_at r \<noteq> None
    then r\<lparr>dv_recovery_grant_at := None\<rparr> else r"
  have "devices (roster_effect t caller req sig d) = map ?h (map ?g (map ?f (devices d)))"
    by (cases "ru_active req = []"; cases "ru_revoked req = []")
      (simp_all add: roster_effect_def consume_grant_def revoke_devices_def promote_def store_roster_def
        update_where_def)
  also have "\<dots> = map (\<lambda>r. if dv_ws r = t then roster_device caller req r else r) (devices d)"
  proof -
    have "?h (?g (?f r)) = (if dv_ws r = t then roster_device caller req r else r)" for r
      by (cases "dv_ws r = t"; cases "dv_client r \<in> set (ru_active req)";
          cases "dv_client r \<in> set (ru_revoked req)"; cases "dv_client r = caller")
        (simp_all add: roster_device_def)
    then show ?thesis by (simp only: map_map comp_def)
  qed
  finally show ?thesis .
qed

lemma device_of_effect:
  "device_of t c (roster_effect t caller req sig d) = map_option (roster_device caller req) (device_of t c d)"
proof -
  have "device_of t c (roster_effect t caller req sig d) =
     map_option (\<lambda>r. if dv_ws r = t then roster_device caller req r else r) (device_of t c d)"
    unfolding device_of_def devices_effect by (rule fetch_map_key) simp
  also have "\<dots> = map_option (roster_device caller req) (device_of t c d)"
    by (cases "device_of t c d") (auto simp: device_of_def dest: fetch_optional_Some)
  finally show ?thesis .
qed

text \<open>Counting rows against a list of ids proves every id is there.\<close>

lemma count_covers:
  assumes "distinct (map g rows)" and "rows_where (\<lambda>r. g r \<in> set ids \<and> q r) rows = length ids" and "i \<in> set ids"
  shows "\<exists>r\<in>set rows. g r = i \<and> q r"
proof -
  let ?f = "filter (\<lambda>r. g r \<in> set ids \<and> q r) rows"
  have "distinct (map g ?f)" using assms(1) by (rule distinct_map_filter)
  from distinct_card [OF this] have "card (g ` set ?f) = length ?f" by simp
  then have "card (g ` set ?f) = length ids" using assms(2) by (simp add: rows_where_def)
  moreover have "g ` set ?f \<subseteq> set ids" by auto
  moreover have "card (set ids) \<le> length ids" by (rule card_length)
  ultimately have "g ` set ?f = set ids" by (intro card_seteq) auto
  then have "i \<in> g ` set ?f" using assms(3) by (simp only:)
  then show ?thesis by auto
qed

lemma recovery_check_Inr:
  assumes "recovery_check t caller req stored d = Inr ()" and pk: "distinct (map dv_client (devices d))"
  shows "ru_counter req = ro_counter stored + 1" and "ru_epoch req = ro_epoch stored"
    and "caller \<in> set (ru_active req)"
    and "c \<in> set (ru_active req) \<Longrightarrow> c \<noteq> caller \<Longrightarrow> active_device t (Some c) d"
proof -
  let ?others = "filter (\<lambda>i. i \<noteq> caller) (ru_active req)"
  show "ru_counter req = ro_counter stored + 1" "ru_epoch req = ro_epoch stored" "caller \<in> set (ru_active req)"
    using assms(1) by (auto simp: recovery_check_def split: if_splits)
  assume c: "c \<in> set (ru_active req)" "c \<noteq> caller"
  then have "?others \<noteq> []" by (auto simp: filter_empty_conv)
  then have "rows_where (\<lambda>r. dv_client r \<in> set ?others \<and> (dv_ws r = t \<and> dv_status r = DevActive)) (devices d) = length ?others"
    using assms(1) by (auto simp: recovery_check_def Let_def require_def rows_where_def conj_ac split: if_splits)
  then obtain r where r: "r \<in> set (devices d)" "dv_client r = c" "dv_ws r = t" "dv_status r = DevActive"
    using count_covers [OF pk] c by fastforce
  have "fetch_optional (\<lambda>x. dv_ws x = t \<and> dv_client x = c) (devices d) = Some r"
  proof -
    obtain r' where r': "fetch_optional (\<lambda>x. dv_ws x = t \<and> dv_client x = c) (devices d) = Some r'"
      using r by (cases "fetch_optional (\<lambda>x. dv_ws x = t \<and> dv_client x = c) (devices d)")
        (auto simp: fetch_optional_None_iff)
    then have "r' = r" using fetch_optional_Some [OF r'] r keyed_unique [OF pk, of r' r] by auto
    with r' show ?thesis by simp
  qed
  with r show "active_device t (Some c) d" by (simp add: active_device_def device_of_def)
qed

lemma others_kept_devices:
  "(\<And>t'. t' \<noteq> t \<Longrightarrow> filter (\<lambda>r. dv_ws r = t') rows = filter (\<lambda>r. dv_ws r = t') (devices d)) \<Longrightarrow>
   others_kept t d (d\<lparr>devices := rows\<rparr>)"
  by (simp add: others_kept_def tenant_view_def)

lemma frames_put_roster [frame_intros]: "frames (au_tenant auth) (put_roster X now auth req)"
proof -
  have dev: "others_kept t d (d\<lparr>devices := update_where p f (devices d)\<rparr>)"
    if "\<And>r. p r \<Longrightarrow> dv_ws r = t" "\<And>r. p r \<Longrightarrow> dv_ws (f r) = t" for t d p f
    by (intro others_kept_devices table_simps) (use that in auto)
  have "others_kept t d (promote t ids d)" for t ids d
    unfolding promote_def by (rule dev) auto
  moreover have "others_kept t d (consume_grant t c d)" for t c d
    unfolding consume_grant_def by (rule dev) auto
  moreover have "others_kept t d (store_roster t req s d)" for t req s d
    by (auto simp: store_roster_def others_kept_def tenant_view_def filter_update_other_tenant)
  moreover have "others_kept t d (revoke_devices t ids d)" for t ids d
    by (auto simp: revoke_devices_def others_kept_def tenant_view_def filter_update_other_tenant)
  ultimately have "others_kept t d (roster_effect t c req s d)" for t c req s d
    unfolding roster_effect_def
    by (metis (no_types, lifting) others_kept_opt others_kept_step)
  then show ?thesis
    by (auto simp: frames_def put_roster_Inr)
qed

subsection \<open>Sequences of uploads\<close>

text \<open>Uploads by anybody, at any times, one transaction each; the counters that were accepted, in
  order.\<close>

fun uploads :: "crates \<Rightarrow> (timestamp \<times> auth_tenant \<times> roster_upload) list \<Rightarrow> db \<Rightarrow> db \<times> int list" where
  "uploads X [] d = (d, [])"
| "uploads X ((now, auth, req) # us) d =
     (case run_tx (put_roster X now auth req) d of
        (d1, Inl _) \<Rightarrow> uploads X us d1
      | (d1, Inr (c, _)) \<Rightarrow> (case uploads X us d1 of (d2, cs) \<Rightarrow> (d2, c # cs)))"

lemma put_roster_counter:
  assumes "put_roster X now auth req d = Inr (x, d')"
  shows "\<exists>stored. roster_of (au_tenant auth) d = Some stored \<and> ro_counter stored < ru_counter req \<and>
    ro_epoch stored \<le> ru_epoch req \<and> fst x = ru_counter req \<and>
    (\<exists>r. roster_of (au_tenant auth) d' = Some r \<and> ro_counter r = ru_counter req \<and> ro_epoch r = ru_epoch req \<and>
       ro_list r = ru_list req)"
  using assms by (auto simp: put_roster_Inr rollback_check_Inr roster_of_effect)

lemma uploads_sorted:
  assumes "\<And>u. u \<in> set us \<Longrightarrow> au_tenant (fst (snd u)) = t"
  shows "sorted_wrt (<) (snd (uploads X us d)) \<and>
    (\<forall>r. roster_of t d = Some r \<longrightarrow> (\<forall>c\<in>set (snd (uploads X us d)). ro_counter r < c) \<and>
      (\<exists>r'. roster_of t (fst (uploads X us d)) = Some r' \<and> ro_epoch r \<le> ro_epoch r' \<and>
        ro_counter r' = last (ro_counter r # snd (uploads X us d))))"
  using assms
proof (induction X us d rule: uploads.induct)
  case (1 X d)
  then show ?case by simp
next
  case (2 X now auth req us d)
  have t: "au_tenant auth = t" using "2.prems" [of "(now, auth, req)"] by simp
  have us: "\<And>u. u \<in> set us \<Longrightarrow> au_tenant (fst (snd u)) = t" using "2.prems" by simp
  show ?case
  proof (cases "put_roster X now auth req d")
    case (Inl e)
    then have run: "run_tx (put_roster X now auth req) d = (d, Inl e)" by (simp add: run_tx_def)
    from "2.IH"(1) [OF run [symmetric] refl us] run show ?thesis by simp
  next
    case (Inr y)
    obtain c ep d1 where y: "y = ((c, ep), d1)" by (metis prod.exhaust)
    then have run: "run_tx (put_roster X now auth req) d = (d1, Inr (c, ep))"
      using Inr by (simp add: run_tx_def)
    note IH = "2.IH"(2) [OF run [symmetric] refl refl us]
    obtain stored r1 where st: "roster_of t d = Some stored" "ro_counter stored < c" "c = ru_counter req"
      "ro_epoch stored \<le> ru_epoch req" "roster_of t d1 = Some r1" "ro_counter r1 = c" "ro_epoch r1 = ru_epoch req"
      using put_roster_counter [of X now auth req d "(c, ep)" d1] Inr y t by auto
    have eq: "uploads X ((now, auth, req) # us) d =
        (fst (uploads X us d1), c # snd (uploads X us d1))"
      using run by (simp split: prod.split)
    from IH st show ?thesis unfolding eq by fastforce
  qed
qed

subsection \<open>Properties\<close>

text \<open>C19. Roster anti-rollback. Whatever roster uploads reach a tenant, from whichever callers and in
  whichever order, the accepted counters are strictly increasing and all above the stored one,
  the stored counter is the last accepted one and the vault-key epoch never falls; so a roster
  once superseded, replayed with the counter it was signed with, is never stored again.\<close>

theorem roster_anti_rollback:
  assumes "\<And>u. u \<in> set us \<Longrightarrow> au_tenant (fst (snd u)) = t" and "roster_of t d = Some r"
  shows "sorted_wrt (<) (ro_counter r # snd (uploads X us d)) \<and>
    (\<exists>r'. roster_of t (fst (uploads X us d)) = Some r' \<and> ro_epoch r \<le> ro_epoch r' \<and>
       ro_counter r' = last (ro_counter r # snd (uploads X us d)))"
  using uploads_sorted [of us t X d] assms by simp

definition sample_roster :: roster_row where
  "sample_roster = \<lparr>ro_ws = 1, ro_list = ''a'', ro_signature = [], ro_counter = 4, ro_epoch = 2\<rparr>"

definition sample_device :: "uuid \<Rightarrow> device_status \<Rightarrow> device_row" where
  "sample_device c st = \<lparr>dv_client = c, dv_ws = 1, dv_user = 9, dv_pub = [], dv_label = [],
     dv_platform = [], dv_status = st, dv_added_at = 0, dv_recovery_grant_at = None,
     dv_recovered_at = None, dv_sync_capability = 0, dv_seen_at = None\<rparr>"

definition roster_db :: db where
  "roster_db = empty_db\<lparr>rosters := [sample_roster], devices := [sample_device 7 DevActive, sample_device 8 DevRevoked]\<rparr>"

definition sample_upload :: "int \<Rightarrow> roster_upload" where
  "sample_upload c = \<lparr>ru_list = ''b'', ru_signature = replicate 64 CHR ''x'', ru_counter = c, ru_epoch = 2,
     ru_active = [7, 8], ru_revoked = [], ru_current_auth_key = None\<rparr>"

definition sample_auth :: auth_tenant where
  "sample_auth = \<lparr>au_user = 9, au_tenant = 1, au_client = Some 7\<rparr>"

lemma sample_signature: "roster_signature toy_crates (sample_upload c) = Inr (replicate 64 120)"
  by (simp add: roster_signature_def b64_decode_def toy_crates_def sample_upload_def)

lemma sample_authz: "roster_authz 0 1 7 roster_db = Inr False"
  by (simp add: roster_authz_def device_of_def roster_db_def empty_db_def sample_device_def)

lemma roster_anti_rollback_witness:
  "\<exists>cs. sorted_wrt (<) (4 # cs) \<and> cs = snd (uploads toy_crates
     [(0, sample_auth, sample_upload 5), (0, sample_auth, sample_upload 5)] roster_db)"
  using roster_anti_rollback [of "[(0, sample_auth, sample_upload 5), (0, sample_auth, sample_upload 5)]" 1
      roster_db sample_roster toy_crates]
  by (simp add: roster_of_def roster_db_def sample_roster_def sample_auth_def del: uploads.simps)

text \<open>C34. Who may write the roster. An accepted upload comes from a device that is active in the
  tenant's index, or from one with a recovery grant younger than fifteen minutes; then it
  takes exactly the next counter, keeps the epoch, removes nobody, names the caller active, and
  every other device it names active already was. Any accepted removal was re-authenticated with
  the account's current key and spares the caller.\<close>

theorem roster_write_authorized:
  assumes ok: "put_roster X now auth req d = Inr (x, d')" and pk: "distinct (map dv_client (devices d))"
  shows "\<exists>caller. au_client auth = Some caller \<and>
    (active_device (au_tenant auth) (Some caller) d \<or>
     (\<exists>r g stored. device_of (au_tenant auth) caller d = Some r \<and> dv_recovery_grant_at r = Some g \<and>
        now - minutes 15 < g \<and> roster_of (au_tenant auth) d = Some stored \<and>
        ru_counter req = ro_counter stored + 1 \<and> ru_epoch req = ro_epoch stored \<and> ru_revoked req = [] \<and>
        caller \<in> set (ru_active req) \<and>
        (\<forall>c\<in>set (ru_active req) - {caller}. active_device (au_tenant auth) (Some c) d))) \<and>
    (ru_revoked req \<noteq> [] \<longrightarrow> caller \<notin> set (ru_revoked req) \<and>
      (\<exists>k u. Option.bind (ru_current_auth_key req) (b64_dec X) = Some k \<and> user_of (au_user auth) d = Some u \<and>
         server_verifier X k (us_server_salt u) = Inr (us_verifier u)))"
proof -
  from ok obtain caller stored rec where c: "au_client auth = Some caller"
    and st: "roster_of (au_tenant auth) d = Some stored"
    and az: "roster_authz now (au_tenant auth) caller d = Inr rec"
    and rm: "removal_check X auth caller rec req d = Inr ()"
    and rc: "rec \<longrightarrow> recovery_check (au_tenant auth) caller req stored d = Inr ()"
    unfolding put_roster_Inr by blast
  have removal: "ru_revoked req \<noteq> [] \<longrightarrow> \<not> rec \<and> caller \<notin> set (ru_revoked req) \<and>
      (\<exists>k u. Option.bind (ru_current_auth_key req) (b64_dec X) = Some k \<and> user_of (au_user auth) d = Some u \<and>
         server_verifier X k (us_server_salt u) = Inr (us_verifier u))"
    using rm by (auto simp: removal_check_def result_simps b64_decode_def ct_eq_iff split: if_splits option.splits)
  show ?thesis
  proof (cases rec)
    case False
    with az have "active_device (au_tenant auth) (Some caller) d"
      by (auto simp: roster_authz_def active_device_def split: option.splits if_splits)
    with c removal show ?thesis by blast
  next
    case True
    then have chk: "recovery_check (au_tenant auth) caller req stored d = Inr ()" using rc by simp
    obtain r g where "device_of (au_tenant auth) caller d = Some r" "dv_recovery_grant_at r = Some g" "now - minutes 15 < g"
      using az True by (auto simp: roster_authz_def split: option.splits if_splits)
    with recovery_check_Inr [OF chk pk] c st removal True show ?thesis by blast
  qed
qed

lemma roster_write_authorized_witness:
  "\<exists>x d'. put_roster toy_crates 0 sample_auth (sample_upload 5) roster_db = Inr (x, d') \<and>
     active_device 1 (Some 7) roster_db"
proof -
  have ok: "\<exists>x d'. put_roster toy_crates 0 sample_auth (sample_upload 5) roster_db = Inr (x, d')"
    using sample_signature [of 5] sample_authz
    by (auto simp: put_roster_Inr sample_auth_def removal_check_def rollback_check_def sample_upload_def
        roster_of_def roster_db_def sample_roster_def)
  then obtain x d' where e: "put_roster toy_crates 0 sample_auth (sample_upload 5) roster_db = Inr (x, d')" by blast
  have "distinct (map dv_client (devices roster_db))" by (simp add: roster_db_def sample_device_def)
  from roster_write_authorized [OF e this] e show ?thesis
    by (auto simp: sample_auth_def device_of_def roster_db_def sample_device_def)
qed

text \<open>C35. Removal takes effect at once. After an upload that removes a device, its row is revoked and
  holds no recovery grant or waiver, its refresh tokens are all revoked, and the shared write
  gate refuses it; a device the upload does not name keeps its status.\<close>

theorem removal_revokes:
  assumes ok: "put_roster X now auth req d = Inr (x, d')"
  shows "(\<forall>c\<in>set (ru_revoked req).
      require_active_caller (au_tenant auth) (Some c) d' = Inl Forbidden \<and>
      (\<forall>r\<in>set (devices d'). dv_ws r = au_tenant auth \<and> dv_client r = c \<longrightarrow>
         dv_status r = DevRevoked \<and> dv_recovery_grant_at r = None \<and> dv_recovered_at r = None) \<and>
      (\<forall>r\<in>set (refresh_tokens d'). rt_ws r = au_tenant auth \<and> rt_client r = Some c \<longrightarrow> rt_revoked r)) \<and>
    (\<forall>c. c \<notin> set (ru_revoked req) \<union> set (ru_active req) \<longrightarrow>
      map_option dv_status (device_of (au_tenant auth) c d') = map_option dv_status (device_of (au_tenant auth) c d))"
proof -
  from ok obtain caller sig where d': "d' = roster_effect (au_tenant auth) caller req sig d"
    unfolding put_roster_Inr by blast
  have dev: "device_of (au_tenant auth) c d' = map_option (roster_device caller req) (device_of (au_tenant auth) c d)" for c
    unfolding d' by (rule device_of_effect)
  have key: "dv_client r = c" if "device_of t c d = Some r" for t c r
    using that by (auto simp: device_of_def dest: fetch_optional_Some)
  have toks: "refresh_tokens d' = (if ru_revoked req = [] then refresh_tokens d else
      refresh_tokens (revoke_devices (au_tenant auth) (ru_revoked req) d))"
    by (simp add: d' roster_effect_def consume_grant_def promote_def store_roster_def revoke_devices_def)
  have recovered: "dv_recovered_at (roster_device caller req r) = None" if "dv_client r \<in> set (ru_revoked req)" for r
    using that by (simp add: roster_device_def Let_def)
  show ?thesis
  proof (intro conjI ballI allI impI)
    fix c assume c: "c \<in> set (ru_revoked req)"
    show "require_active_caller (au_tenant auth) (Some c) d' = Inl Forbidden"
      using dev [of c] c key [of "au_tenant auth" c]
      by (auto simp: require_active_caller_Inl active_device_def)
    fix r
    assume "r \<in> set (devices d')" and r: "dv_ws r = au_tenant auth \<and> dv_client r = c"
    then obtain r0 where "r = roster_device caller req r0" "dv_client r0 = c"
      by (auto simp: d' devices_effect split: if_splits)
    with c recovered show "dv_status r = DevRevoked" "dv_recovery_grant_at r = None" "dv_recovered_at r = None"
      by auto
  next
    fix c r
    assume "c \<in> set (ru_revoked req)" and "r \<in> set (refresh_tokens d')"
      and "rt_ws r = au_tenant auth \<and> rt_client r = Some c"
    then show "rt_revoked r"
      unfolding toks by (auto simp: revoke_devices_def set_update_where split: if_splits)
  next
    fix c assume "c \<notin> set (ru_revoked req) \<union> set (ru_active req)"
    then show "map_option dv_status (device_of (au_tenant auth) c d') =
        map_option dv_status (device_of (au_tenant auth) c d)"
      using dev [of c] key [of "au_tenant auth" c] by (cases "device_of (au_tenant auth) c d") auto
  qed
qed

definition removal_upload :: roster_upload where
  "removal_upload = (sample_upload 5)\<lparr>ru_active := [7], ru_revoked := [8], ru_current_auth_key := Some ''k''\<rparr>"

definition removal_db :: db where
  "removal_db = roster_db\<lparr>devices := [sample_device 7 DevActive, sample_device 8 DevActive],
     users := [\<lparr>us_id = 9, us_email = [], us_verifier = take 32 (107 # replicate 32 0), us_server_salt = [], us_salt_enc = [],
       us_wrapped_password = [], us_wrapped_recovery = [], us_recovery_salt = None, us_recovery_verifier = None\<rparr>]\<rparr>"

lemma removal_revokes_witness:
  "\<exists>x d'. put_roster toy_crates 0 sample_auth removal_upload removal_db = Inr (x, d') \<and>
     require_active_caller 1 (Some 8) d' = Inl Forbidden"
proof -
  have "roster_signature toy_crates removal_upload = Inr (replicate 64 120)"
    by (simp add: roster_signature_def b64_decode_def toy_crates_def sample_upload_def removal_upload_def)
  moreover have "roster_authz 0 1 7 removal_db = Inr False"
    by (simp add: roster_authz_def device_of_def removal_db_def sample_device_def)
  moreover have "removal_check toy_crates sample_auth 7 False removal_upload removal_db = Inr ()"
    by (simp add: removal_check_def removal_upload_def sample_upload_def b64_decode_def toy_crates_def user_of_def
        removal_db_def sample_auth_def server_verifier_def server_verifier_kdf_def ct_eq_iff require_def)
  moreover have "roster_of 1 removal_db = Some sample_roster" "rollback_check removal_upload sample_roster = Inr ()"
    by (simp_all add: roster_of_def removal_db_def roster_db_def sample_roster_def rollback_check_def
        removal_upload_def sample_upload_def)
  ultimately have "\<exists>x d'. put_roster toy_crates 0 sample_auth removal_upload removal_db = Inr (x, d')"
    by (auto simp: put_roster_Inr sample_auth_def)
  then obtain x d' where ok: "put_roster toy_crates 0 sample_auth removal_upload removal_db = Inr (x, d')" by blast
  from removal_revokes [OF ok] ok show ?thesis
    by (auto simp: removal_upload_def sample_auth_def)
qed

text \<open>"Promoted pending to active" is not all that an upload does: an upload that lists a
  revoked device as active makes it active again, in one step and without a new login, although
  the device index documents that a revoked device must re-enrol.\<close>

theorem roster_readmits_revoked:
  assumes "put_roster X now auth req d = Inr (x, d')" and "device_of (au_tenant auth) c d = Some r"
    and "dv_status r = DevRevoked" and "c \<in> set (ru_active req)" and "c \<notin> set (ru_revoked req)"
  shows "active_device (au_tenant auth) (Some c) d'"
proof -
  from assms(1) obtain caller sig where "d' = roster_effect (au_tenant auth) caller req sig d"
    unfolding put_roster_Inr by blast
  moreover have "dv_client r = c" using assms(2) by (auto simp: device_of_def dest: fetch_optional_Some)
  ultimately show ?thesis using assms(2,4,5) by (simp add: active_device_def device_of_effect)
qed

lemma roster_readmits_revoked_witness:
  "\<exists>d'. snd (run_tx (put_roster toy_crates 0 sample_auth (sample_upload 5)) roster_db) = Inr (5, 2) \<and>
     d' = fst (run_tx (put_roster toy_crates 0 sample_auth (sample_upload 5)) roster_db) \<and>
     active_device 1 (Some 8) d'"
proof -
  have "\<exists>x d'. put_roster toy_crates 0 sample_auth (sample_upload 5) roster_db = Inr (x, d') \<and> x = (5, 2)"
    using sample_signature [of 5] sample_authz
    by (auto simp: put_roster_Inr sample_auth_def removal_check_def rollback_check_def sample_upload_def
        roster_of_def roster_db_def sample_roster_def)
  then obtain d' where ok: "put_roster toy_crates 0 sample_auth (sample_upload 5) roster_db = Inr ((5, 2), d')" by blast
  have "device_of 1 8 roster_db = Some (sample_device 8 DevRevoked)"
    by (simp add: device_of_def roster_db_def sample_device_def)
  with roster_readmits_revoked [OF ok, of 8 "sample_device 8 DevRevoked"] ok show ?thesis
    by (simp add: sample_auth_def sample_upload_def sample_device_def run_tx_def)
qed

end
