(* ===== verification/Capability.thy ===== *)
theory Capability
  imports Devices Parse
begin

text \<open>
  The sync capability gate of \<open>crates/yapstack-server/src/sync/capability.rs\<close>: the floor row
  of a tenant, the read gate shared by pull and the snapshot routes, the publication check of
  push and the floor raise. A header is absent, present but not visible ASCII, or text.
\<close>

type_synonym header = "string option option"

definition header_level :: "header \<Rightarrow> string \<Rightarrow> app_error + int" where
  "header_level h name = (case h of
       None \<Rightarrow> Inr 0
     | Some v \<Rightarrow> (case Option.bind v (\<lambda>s. parse_i32 (trim s)) of
           Some l \<Rightarrow> if 0 \<le> l then Inr l else Inl (BadRequest (name @ '': expected a non-negative integer''))
         | None \<Rightarrow> Inl (BadRequest (name @ '': expected a non-negative integer''))))"

definition floor_of :: "uuid \<Rightarrow> db \<Rightarrow> floor_row option" where
  "floor_of t d = fetch_optional (\<lambda>r. fl_ws r = t) (floors d)"

definition levels_of_row :: "floor_row \<Rightarrow> capability_levels" where
  "levels_of_row r = \<lparr>required_sync_capability = fl_required r, requested_sync_capability = fl_requested r\<rparr>"

definition lock_floor :: "uuid \<Rightarrow> capability_levels tx" where
  "lock_floor t =
     tx_seq (tx_bootstrap t (\<lambda>d. exists_row (\<lambda>r. fl_ws r = t) (floors d))
        (\<lambda>d. d\<lparr>floors := floors d @ [\<lparr>fl_ws = t, fl_required = 0, fl_requested = 0\<rparr>]\<rparr>))
       (tx_bind (tx_read (floor_of t)) (\<lambda>row. case row of
           None \<Rightarrow> tx_lift (Inl (Db ''no rows returned''))
         | Some r \<Rightarrow> tx_return (levels_of_row r)))"

definition needs_stamp :: "timestamp \<Rightarrow> int \<Rightarrow> device_row \<Rightarrow> bool" where
  "needs_stamp now level r \<longleftrightarrow> dv_sync_capability r \<noteq> level \<or>
     (case dv_seen_at r of None \<Rightarrow> True | Some s \<Rightarrow> s < now - hours 1)"

definition record_caller_level :: "timestamp \<Rightarrow> uuid \<Rightarrow> uuid option \<Rightarrow> int \<Rightarrow> unit tx" where
  "record_caller_level now t client_id level = (case client_id of
       None \<Rightarrow> tx_return ()
     | Some c \<Rightarrow> tx_write (\<lambda>d. d\<lparr>devices := update_where
          (\<lambda>r. dv_ws r = t \<and> dv_client r = c \<and> needs_stamp now level r)
          (\<lambda>r. r\<lparr>dv_sync_capability := level, dv_seen_at := Some now\<rparr>) (devices d)\<rparr>))"

definition gate_read :: "timestamp \<Rightarrow> uuid \<Rightarrow> uuid option \<Rightarrow> int \<Rightarrow> capability_levels tx" where
  "gate_read now t client_id level =
     tx_bind (lock_floor t) (\<lambda>levels.
       tx_seq (record_caller_level now t client_id level) (tx_return levels))"

text \<open>\<open>begin_gated_read\<close>, with the read done under the lock: a refusal is a committed result.\<close>

definition gated_read ::
  "timestamp \<Rightarrow> auth_tenant \<Rightarrow> header \<Rightarrow> (capability_levels \<Rightarrow> (app_error + 'a) tx) \<Rightarrow> (app_error + 'a) tx" where
  "gated_read now auth h k =
     tx_bind (tx_lift (header_level h ''x-yapstack-sync-capability'')) (\<lambda>level.
       tx_bind (gate_read now (au_tenant auth) (au_client auth) level) (\<lambda>levels.
         if level < required_sync_capability levels
         then tx_return (Inl (UpdateRequired levels))
         else k levels))"

definition admit_publication :: "capability_levels \<Rightarrow> int \<Rightarrow> app_error + unit" where
  "admit_publication levels content_level =
     (if content_level > required_sync_capability levels then Inl (CapabilityFloor levels) else Inr ())"

definition blocker_rows :: "timestamp \<Rightarrow> uuid \<Rightarrow> int \<Rightarrow> db \<Rightarrow> device_row list" where
  "blocker_rows now t target d =
     sort_key (\<lambda>r. - (case dv_seen_at r of Some s \<Rightarrow> s | None \<Rightarrow> 0))
       (filter (\<lambda>r. dv_ws r = t \<and> dv_status r \<noteq> DevRevoked \<and>
          (case dv_seen_at r of Some s \<Rightarrow> s > now - days 30 | None \<Rightarrow> False) \<and>
          dv_sync_capability r < target) (devices d))"

definition blocker_of :: "device_row \<Rightarrow> capability_blocker" where
  "blocker_of r = \<lparr>cb_client_id = dv_client r, cb_label = dv_label r, cb_platform = dv_platform r,
     cb_sync_capability = dv_sync_capability r,
     cb_seen_at = (case dv_seen_at r of Some s \<Rightarrow> s | None \<Rightarrow> 0)\<rparr>"

definition update_floor :: "uuid \<Rightarrow> (floor_row \<Rightarrow> floor_row) \<Rightarrow> capability_levels tx" where
  "update_floor t f =
     tx_seq (tx_write (\<lambda>d. d\<lparr>floors := update_where (\<lambda>r. fl_ws r = t) f (floors d)\<rparr>))
       (tx_bind (tx_read (floor_of t)) (\<lambda>row. case row of
           None \<Rightarrow> tx_lift (Inl (Db ''no rows returned''))
         | Some r \<Rightarrow> tx_return (levels_of_row r)))"

definition raise_floor :: "timestamp \<Rightarrow> auth_tenant \<Rightarrow> header \<Rightarrow> int \<Rightarrow> (app_error + capability_levels) tx" where
  "raise_floor now auth h target =
     (let t = au_tenant auth in
      if target < 0 then tx_lift (Inl (BadRequest ''required_sync_capability must be non-negative''))
      else
      tx_bind (tx_lift (header_level h ''x-yapstack-sync-capability'')) (\<lambda>caller_level.
      tx_bind (lock_floor t) (\<lambda>levels.
      tx_seq (require_active_caller_locked t (au_client auth)) (
      tx_seq (record_caller_level now t (au_client auth) caller_level) (
        if target \<le> required_sync_capability levels then tx_return (Inr levels)
        else
          tx_bind (tx_read (blocker_rows now t target)) (\<lambda>blockers.
            if blockers = []
            then tx_bind (update_floor t (\<lambda>r. r\<lparr>fl_required := max (fl_required r) target\<rparr>))
                   (\<lambda>l. tx_return (Inr l))
            else tx_bind (update_floor t (\<lambda>r. r\<lparr>fl_requested := max (fl_requested r) target\<rparr>))
                   (\<lambda>l. tx_return (Inl (CapabilityBlocked
                      \<lparr>bl_required = required_sync_capability l,
                       bl_requested = requested_sync_capability l,
                       bl_blockers = map blocker_of blockers\<rparr>)))))))))"

subsection \<open>What the pieces do\<close>

definition floor_level :: "uuid \<Rightarrow> db \<Rightarrow> int" where
  "floor_level t d = (case floor_of t d of Some r \<Rightarrow> fl_required r | None \<Rightarrow> 0)"

definition requested_level :: "uuid \<Rightarrow> db \<Rightarrow> int" where
  "requested_level t d = (case floor_of t d of Some r \<Rightarrow> fl_requested r | None \<Rightarrow> 0)"

definition with_floor :: "uuid \<Rightarrow> db \<Rightarrow> db" where
  "with_floor t d = (if exists_row (\<lambda>r. fl_ws r = t) (floors d) then d
     else d\<lparr>floors := floors d @ [\<lparr>fl_ws = t, fl_required = 0, fl_requested = 0\<rparr>]\<rparr>)"

definition stamp_device :: "timestamp \<Rightarrow> uuid \<Rightarrow> uuid option \<Rightarrow> int \<Rightarrow> db \<Rightarrow> db" where
  "stamp_device now t client_id level d = (case client_id of
       None \<Rightarrow> d
     | Some c \<Rightarrow> d\<lparr>devices := update_where
          (\<lambda>r. dv_ws r = t \<and> dv_client r = c \<and> needs_stamp now level r)
          (\<lambda>r. r\<lparr>dv_sync_capability := level, dv_seen_at := Some now\<rparr>) (devices d)\<rparr>)"

lemma floor_of_ws: "floor_of t d = Some r \<Longrightarrow> fl_ws r = t"
  by (auto simp: floor_of_def dest: fetch_optional_Some)

lemma floor_of_with_floor:
  "floor_of t (with_floor t d) =
     Some (case floor_of t d of Some r \<Rightarrow> r | None \<Rightarrow> \<lparr>fl_ws = t, fl_required = 0, fl_requested = 0\<rparr>)"
  by (auto simp: with_floor_def floor_of_def fetch_append fetch_optional_None_iff
      split: option.splits dest: fetch_optional_Some)

lemma with_floor_levels [simp]:
  "floor_level t (with_floor t d) = floor_level t d" "requested_level t (with_floor t d) = requested_level t d"
  by (auto simp: floor_level_def requested_level_def floor_of_with_floor split: option.splits)

lemma with_floor_simps [simp]:
  "devices (with_floor t d) = devices d" "changesets (with_floor t d) = changesets d"
  "seqs (with_floor t d) = seqs d" "usage (with_floor t d) = usage d" "workspaces (with_floor t d) = workspaces d"
  by (simp_all add: with_floor_def)

lemma stamp_device_simps [simp]:
  "floors (stamp_device now t c l d) = floors d" "changesets (stamp_device now t c l d) = changesets d"
  "seqs (stamp_device now t c l d) = seqs d" "usage (stamp_device now t c l d) = usage d"
  "workspaces (stamp_device now t c l d) = workspaces d"
  "floor_of t' (stamp_device now t c l d) = floor_of t' d"
  by (simp_all add: stamp_device_def floor_of_def split: option.split)

lemma lock_floor_Inr [result_simps]:
  "lock_floor t d = Inr (l, d') \<longleftrightarrow>
     (exists_row (\<lambda>r. fl_ws r = t) (floors d) \<or> (\<exists>w\<in>set (workspaces d). ws_id w = t)) \<and>
     d' = with_floor t d \<and>
     l = \<lparr>required_sync_capability = floor_level t d, requested_sync_capability = requested_level t d\<rparr>"
proof -
  have r: "\<exists>r. floor_of t (with_floor t d) = Some r \<and> levels_of_row r =
      \<lparr>required_sync_capability = floor_level t d, requested_sync_capability = requested_level t d\<rparr>"
    by (auto simp: floor_of_with_floor levels_of_row_def floor_level_def requested_level_def split: option.split)
  have boot: "tx_bootstrap t (\<lambda>d. exists_row (\<lambda>r. fl_ws r = t) (floors d))
        (\<lambda>d. d\<lparr>floors := floors d @ [\<lparr>fl_ws = t, fl_required = 0, fl_requested = 0\<rparr>]\<rparr>) d = Inr ((), d1) \<longleftrightarrow>
      (exists_row (\<lambda>r. fl_ws r = t) (floors d) \<or> (\<exists>w\<in>set (workspaces d). ws_id w = t)) \<and> d1 = with_floor t d" for d1
    by (auto simp: tx_bootstrap_def result_simps with_floor_def)
  from r show ?thesis
    unfolding lock_floor_def tx_seq_eq_Inr boot tx_bind_eq_Inr tx_read_eq
    by (auto simp: tx_return_eq)
qed

lemma record_caller_level_Inr [result_simps]:
  "record_caller_level now t c l d = Inr (u, d') \<longleftrightarrow> d' = stamp_device now t c l d"
  by (auto simp: record_caller_level_def stamp_device_def result_simps split: option.splits)

lemma gate_read_Inr [result_simps]:
  "gate_read now t c l d = Inr (levels, d') \<longleftrightarrow>
     (\<exists>d1. lock_floor t d = Inr (levels, d1) \<and> d' = stamp_device now t c l d1)"
  unfolding gate_read_def by (auto simp: tx_bind_eq_Inr tx_seq_eq_Inr record_caller_level_Inr tx_return_eq)

lemma gated_read_Inr:
  "gated_read now auth h k d = Inr (res, d') \<longleftrightarrow>
   (\<exists>level levels d1. header_level h ''x-yapstack-sync-capability'' = Inr level \<and>
      lock_floor (au_tenant auth) d = Inr (levels, d1) \<and>
      (if level < required_sync_capability levels
       then res = Inl (UpdateRequired levels) \<and> d' = stamp_device now (au_tenant auth) (au_client auth) level d1
       else k levels (stamp_device now (au_tenant auth) (au_client auth) level d1) = Inr (res, d')))"
proof -
  have br: "(if b then tx_return x else n) d1 = Inr (y, d2) \<longleftrightarrow>
      (if b then y = x \<and> d2 = d1 else n d1 = Inr (y, d2))" for b x n d1 y d2
    by (simp add: tx_return_eq)
  show ?thesis
    unfolding gated_read_def tx_bind_eq_Inr tx_lift_eq_Inr gate_read_Inr br by blast
qed

lemma fetch_floor_update:
  "(\<And>r. fl_ws (f r) = fl_ws r) \<Longrightarrow>
   floor_of t (d\<lparr>floors := update_where (\<lambda>r. fl_ws r = t) f (floors d)\<rparr>) = map_option f (floor_of t d)"
  by (simp add: floor_of_def fetch_update_same)

lemma others_kept_floors:
  "(\<And>t'. t' \<noteq> t \<Longrightarrow> filter (\<lambda>r. fl_ws r = t') rows = filter (\<lambda>r. fl_ws r = t') (floors d)) \<Longrightarrow>
   others_kept t d (d\<lparr>floors := rows\<rparr>)"
  by (simp add: others_kept_def tenant_view_def)

lemma frames_lock_floor [frame_intros]: "frames t (lock_floor t)"
proof -
  have "others_kept t d (with_floor t d)" for d
    unfolding with_floor_def by (auto intro!: others_kept_floors)
  then show ?thesis by (simp add: frames_def lock_floor_Inr)
qed

lemma frames_record [frame_intros]: "frames t (record_caller_level now t c l)"
proof -
  have "others_kept t d (stamp_device now t c l d)" for d
    unfolding stamp_device_def
    by (cases c) (auto intro!: others_kept_devices filter_update_other_tenant)
  then show ?thesis by (simp add: frames_def record_caller_level_Inr)
qed

lemma frames_gate [frame_intros]: "frames t (gate_read now t c l)"
  unfolding gate_read_def by (intro frame_intros)

lemma frames_gated_read [frame_intros]:
  "(\<And>l. frames (au_tenant auth) (k l)) \<Longrightarrow> frames (au_tenant auth) (gated_read now auth h k)"
  unfolding gated_read_def by (intro frame_intros)

lemma frames_update_floor [frame_intros]:
  "(\<And>r. fl_ws (f r) = fl_ws r) \<Longrightarrow> frames t (update_floor t f)"
  unfolding update_floor_def
  by (intro frame_intros others_kept_floors filter_update_other_tenant) auto

lemma frames_raise [frame_intros]: "frames (au_tenant auth) (raise_floor now auth h target)"
  unfolding raise_floor_def Let_def by (intro frame_intros) auto

subsection \<open>The raise\<close>

definition set_required :: "uuid \<Rightarrow> int \<Rightarrow> db \<Rightarrow> db" where
  "set_required t l d = d\<lparr>floors := update_where (\<lambda>r. fl_ws r = t) (\<lambda>r. r\<lparr>fl_required := max (fl_required r) l\<rparr>) (floors d)\<rparr>"

definition set_requested :: "uuid \<Rightarrow> int \<Rightarrow> db \<Rightarrow> db" where
  "set_requested t l d = d\<lparr>floors := update_where (\<lambda>r. fl_ws r = t) (\<lambda>r. r\<lparr>fl_requested := max (fl_requested r) l\<rparr>) (floors d)\<rparr>"

lemma levels_set:
  "floor_of t d \<noteq> None \<Longrightarrow> floor_level t (set_required t l d) = max (floor_level t d) l"
  "requested_level t (set_required t l d) = requested_level t d"
  "floor_level t (set_requested t l d) = floor_level t d"
  "floor_of t d \<noteq> None \<Longrightarrow> requested_level t (set_requested t l d) = max (requested_level t d) l"
  by (auto simp: floor_level_def requested_level_def set_required_def set_requested_def fetch_floor_update
      split: option.split)

lemma update_floor_Inr:
  assumes "\<And>r. fl_ws (f r) = fl_ws r"
  shows "update_floor t f d = Inr (l, d') \<longleftrightarrow>
    (\<exists>r. floor_of t d = Some r \<and> l = levels_of_row (f r) \<and>
       d' = d\<lparr>floors := update_where (\<lambda>r. fl_ws r = t) f (floors d)\<rparr>)"
  unfolding update_floor_def tx_seq_eq_Inr tx_bind_eq_Inr tx_write_eq tx_read_eq
  by (auto simp: fetch_floor_update [OF assms] tx_return_eq tx_lift_eq_Inr split: option.splits)

definition seen_db :: "timestamp \<Rightarrow> auth_tenant \<Rightarrow> int \<Rightarrow> db \<Rightarrow> db" where
  "seen_db now auth level d = stamp_device now (au_tenant auth) (au_client auth) level (with_floor (au_tenant auth) d)"

lemma seen_db_levels [simp]:
  "floor_level (au_tenant auth) (seen_db now auth l d) = floor_level (au_tenant auth) d"
  "requested_level (au_tenant auth) (seen_db now auth l d) = requested_level (au_tenant auth) d"
  "floor_of (au_tenant auth) (seen_db now auth l d) \<noteq> None"
  by (simp_all add: seen_db_def floor_level_def requested_level_def floor_of_with_floor split: option.split)

lemma raise_floor_Inr:
  assumes "raise_floor now auth h target d = Inr (res, d')"
  shows "\<exists>level. 0 \<le> target \<and> header_level h ''x-yapstack-sync-capability'' = Inr level \<and>
    active_device (au_tenant auth) (au_client auth) d \<and>
    (let t = au_tenant auth; d2 = seen_db now auth level d; bs = blocker_rows now t target d2 in
     if target \<le> floor_level t d
     then d' = d2 \<and> res = Inr \<lparr>required_sync_capability = floor_level t d, requested_sync_capability = requested_level t d\<rparr>
     else if bs = []
     then d' = set_required t target d2 \<and>
       res = Inr \<lparr>required_sync_capability = target, requested_sync_capability = requested_level t d\<rparr>
     else d' = set_requested t target d2 \<and>
       res = Inl (CapabilityBlocked \<lparr>bl_required = floor_level t d, bl_requested = max (requested_level t d) target,
         bl_blockers = map blocker_of bs\<rparr>))"
proof -
  let ?t = "au_tenant auth"
  from assms obtain level levels d1 d1' where tgt: "0 \<le> target"
    and h: "header_level h ''x-yapstack-sync-capability'' = Inr level"
    and lf: "lock_floor ?t d = Inr (levels, d1)" and act: "active_device ?t (au_client auth) d1"
    and rest: "(if target \<le> required_sync_capability levels then tx_return (Inr levels)
        else
          tx_bind (tx_read (blocker_rows now ?t target)) (\<lambda>blockers.
            if blockers = []
            then tx_bind (update_floor ?t (\<lambda>r. r\<lparr>fl_required := max (fl_required r) target\<rparr>))
                   (\<lambda>l. tx_return (Inr l))
            else tx_bind (update_floor ?t (\<lambda>r. r\<lparr>fl_requested := max (fl_requested r) target\<rparr>))
                   (\<lambda>l. tx_return (Inl (CapabilityBlocked
                      \<lparr>bl_required = required_sync_capability l,
                       bl_requested = requested_sync_capability l,
                       bl_blockers = map blocker_of blockers\<rparr>)))))
        (stamp_device now ?t (au_client auth) level d1) = Inr (res, d')"
    unfolding raise_floor_def Let_def require_active_caller_locked_def
    by (auto simp: tx_bind_eq_Inr tx_seq_eq_Inr tx_lift_eq_Inr require_active_caller_Inr record_caller_level_Inr
        split: if_splits)
  have d1: "d1 = with_floor ?t d" and lv: "levels = \<lparr>required_sync_capability = floor_level ?t d,
      requested_sync_capability = requested_level ?t d\<rparr>"
    using lf by (auto simp: lock_floor_Inr)
  have d2: "stamp_device now ?t (au_client auth) level d1 = seen_db now auth level d"
    by (simp add: seen_db_def d1)
  have act': "active_device ?t (au_client auth) d"
    using act by (simp add: d1 active_device_def device_of_def)
  obtain r where r: "floor_of ?t (seen_db now auth level d) = Some r"
    using seen_db_levels(3) by blast
  have rl: "fl_required r = floor_level ?t d" "fl_requested r = requested_level ?t d"
    using r seen_db_levels(1,2) [of auth now level d] by (simp_all add: floor_level_def requested_level_def)
  show ?thesis
  proof (intro exI conjI)
    show "let t = au_tenant auth; d2 = seen_db now auth level d; bs = blocker_rows now t target d2 in
     if target \<le> floor_level t d
     then d' = d2 \<and> res = Inr \<lparr>required_sync_capability = floor_level t d, requested_sync_capability = requested_level t d\<rparr>
     else if bs = []
     then d' = set_required t target d2 \<and>
       res = Inr \<lparr>required_sync_capability = target, requested_sync_capability = requested_level t d\<rparr>
     else d' = set_requested t target d2 \<and>
       res = Inl (CapabilityBlocked \<lparr>bl_required = floor_level t d, bl_requested = max (requested_level t d) target,
         bl_blockers = map blocker_of bs\<rparr>)"
      using rest rl r
      unfolding d2 Let_def set_required_def set_requested_def
      by (auto simp: lv tx_return_eq tx_bind_eq_Inr tx_read_eq update_floor_Inr levels_of_row_def
          split: if_splits)
  qed (use tgt h act' in auto)
qed

lemma blocker_rows_iff:
  "r \<in> set (blocker_rows now t target d) \<longleftrightarrow>
   r \<in> set (devices d) \<and> dv_ws r = t \<and> dv_status r \<noteq> DevRevoked \<and> dv_sync_capability r < target \<and>
   (\<exists>s. dv_seen_at r = Some s \<and> s > now - days 30)"
  by (auto simp: blocker_rows_def split: option.splits)

lemma header_level_range: "header_level h n = Inr l \<Longrightarrow> 0 \<le> l"
  by (auto simp: header_level_def split: option.splits if_splits)

subsection \<open>Properties\<close>

text \<open>C33. The floor is raised on evidence. An answered raise above the floor came from an active device
  and either sets the floor to the target, and then every device of the workspace that is not
  revoked and was seen within thirty days (the caller, just stamped, included) reports at least
  the target; or leaves the floor alone, remembers the request, and names exactly the devices
  in the way.\<close>

theorem raise_needs_evidence:
  assumes run: "raise_floor now auth h target d = Inr (res, d')"
    and above: "floor_level (au_tenant auth) d < target"
  shows "active_device (au_tenant auth) (au_client auth) d \<and>
    (\<exists>lvl bs. header_level h ''x-yapstack-sync-capability'' = Inr lvl \<and>
      set bs = {r \<in> set (devices (seen_db now auth lvl d)). dv_ws r = au_tenant auth \<and> dv_status r \<noteq> DevRevoked \<and>
        dv_sync_capability r < target \<and> (\<exists>s. dv_seen_at r = Some s \<and> s > now - days 30)} \<and>
      (if bs = [] then (\<exists>l. res = Inr l \<and> required_sync_capability l = target) \<and> floor_level (au_tenant auth) d' = target
       else floor_level (au_tenant auth) d' = floor_level (au_tenant auth) d \<and>
         requested_level (au_tenant auth) d' = max (requested_level (au_tenant auth) d) target \<and>
         (\<exists>b. res = Inl (CapabilityBlocked b) \<and> bl_blockers b = map blocker_of bs)))"
proof -
  let ?t = "au_tenant auth"
  from raise_floor_Inr [OF run] obtain level where l: "header_level h ''x-yapstack-sync-capability'' = Inr level"
    and act: "active_device ?t (au_client auth) d"
    and body: "let d2 = seen_db now auth level d; bs = blocker_rows now ?t target d2 in
     (if bs = []
     then d' = set_required ?t target d2 \<and>
       res = Inr \<lparr>required_sync_capability = target, requested_sync_capability = requested_level ?t d\<rparr>
     else d' = set_requested ?t target d2 \<and>
       res = Inl (CapabilityBlocked \<lparr>bl_required = floor_level ?t d, bl_requested = max (requested_level ?t d) target,
         bl_blockers = map blocker_of bs\<rparr>))"
    using above by (auto simp: Let_def)
  let ?d2 = "seen_db now auth level d"
  let ?bs = "blocker_rows now ?t target ?d2"
  have "set ?bs = {r \<in> set (devices ?d2). dv_ws r = ?t \<and> dv_status r \<noteq> DevRevoked \<and>
        dv_sync_capability r < target \<and> (\<exists>s. dv_seen_at r = Some s \<and> s > now - days 30)}"
    by (auto simp: blocker_rows_iff)
  moreover have "floor_of ?t ?d2 \<noteq> None" by simp
  ultimately show ?thesis
    using l act body above
    by (intro conjI exI [of _ level] exI [of _ ?bs]) (auto simp: Let_def levels_set split: if_splits)
qed

definition capability_db :: db where
  "capability_db = empty_db\<lparr>workspaces := [\<lparr>ws_id = 1, ws_name = []\<rparr>], floors := [\<lparr>fl_ws = 1, fl_required = 1, fl_requested = 0\<rparr>],
     devices := [sample_device 7 DevActive,
     (sample_device 8 DevActive)\<lparr>dv_seen_at := Some 0\<rparr>, sample_device 9 DevActive]\<rparr>"

lemma raise_needs_evidence_witness:
  "\<exists>res d'. raise_floor 10 sample_auth (Some (Some '' 2'')) 2 capability_db = Inr (res, d') \<and>
     floor_level 1 d' = 1 \<and> requested_level 1 d' = 2"
proof -
  have h: "header_level (Some (Some '' 2'')) n = Inr 2" for n
    by (simp add: header_level_def trim_def is_space_def parse_i32_def parse_signed_def parse_digits_def
        digit_value_def)
  have "\<exists>res d'. raise_floor 10 sample_auth (Some (Some '' 2'')) 2 capability_db = Inr (res, d')"
    by (simp add: raise_floor_def h lock_floor_def require_active_caller_locked_def require_active_caller_def
        record_caller_level_def update_floor_def floor_of_def device_of_def capability_db_def empty_db_def
        sample_auth_def sample_device_def needs_stamp_def blocker_rows_def interval_defs
        tx_run_simps tx_lift_def levels_of_row_def)
  then obtain res d' where run: "raise_floor 10 sample_auth (Some (Some '' 2'')) 2 capability_db = Inr (res, d')"
    by blast
  have lv: "floor_level 1 capability_db = 1" "requested_level 1 capability_db = 0"
    by (simp_all add: floor_level_def requested_level_def floor_of_def capability_db_def)
  have t: "au_tenant sample_auth = 1" by (simp add: sample_auth_def)
  have "floor_level (au_tenant sample_auth) capability_db < 2" by (simp add: lv sample_auth_def)
  from raise_needs_evidence [OF run this] obtain bs where
    bs: "set bs = {r \<in> set (devices (seen_db 10 sample_auth 2 capability_db)). dv_ws r = 1 \<and> dv_status r \<noteq> DevRevoked \<and>
        dv_sync_capability r < 2 \<and> (\<exists>s. dv_seen_at r = Some s \<and> s > 10 - days 30)}"
    and res: "if bs = [] then (\<exists>l. res = Inr l \<and> required_sync_capability l = 2) \<and> floor_level 1 d' = 2
       else floor_level 1 d' = floor_level 1 capability_db \<and>
         requested_level 1 d' = max (requested_level 1 capability_db) 2 \<and>
         (\<exists>b. res = Inl (CapabilityBlocked b) \<and> bl_blockers b = map blocker_of bs)"
    unfolding t by (simp only: h sum.inject) blast
  have "(sample_device 8 DevActive)\<lparr>dv_seen_at := Some 0\<rparr> \<in> set bs"
    unfolding bs by (simp add: seen_db_def with_floor_def stamp_device_def capability_db_def sample_auth_def
        sample_device_def interval_defs)
  then have "bs \<noteq> []" by auto
  with res run lv show ?thesis by auto
qed

text \<open>Both levels only ever rise. A raise, whoever calls it and however it ends, leaves neither the
  required nor the requested level of any workspace lower than before.\<close>

theorem capability_levels_monotone:
  "floor_level t d \<le> floor_level t (fst (run_tx_join (raise_floor now auth h target) d)) \<and>
   requested_level t d \<le> requested_level t (fst (run_tx_join (raise_floor now auth h target) d))"
proof (cases "raise_floor now auth h target d")
  case (Inl e)
  then show ?thesis by (simp add: run_tx_join_def)
next
  case (Inr y)
  then obtain res d' where run: "raise_floor now auth h target d = Inr (res, d')" by (cases y) auto
  show ?thesis
  proof (cases "t = au_tenant auth")
    case False
    have "others_kept (au_tenant auth) d d'" using frames_raise run by (rule framesD)
    then have "floors (tenant_view t d') = floors (tenant_view t d)" using False by (simp add: others_kept_def)
    then have "filter (\<lambda>r. fl_ws r = t) (floors d') = filter (\<lambda>r. fl_ws r = t) (floors d)"
      by (simp add: tenant_view_def)
    then have "floor_of t d' = floor_of t d"
      by (metis floor_of_def fetch_optional_filter)
    with run show ?thesis by (simp add: run_tx_join_def floor_level_def requested_level_def)
  next
    case True
    have "floor_of (au_tenant auth) (seen_db now auth l d) \<noteq> None" for l by simp
    with raise_floor_Inr [OF run] show ?thesis
      unfolding run_tx_join_def run True
      by (auto simp: Let_def levels_set split: if_splits)
  qed
qed

text \<open>The read gate. A caller below the floor is answered 426 and its content is not read, whatever
  the read is, but its reported level is stamped and committed, so it counts as seen; a caller at
  or above the floor reads in the same transaction, under the same floor.\<close>

theorem read_gate_refuses_below_floor:
  assumes "header_level h ''x-yapstack-sync-capability'' = Inr level"
    and "\<exists>w\<in>set (workspaces d). ws_id w = au_tenant auth"
  shows "run_tx_join (gated_read now auth h k) d =
    (if level < floor_level (au_tenant auth) d
     then (seen_db now auth level d, Inl (UpdateRequired
       \<lparr>required_sync_capability = floor_level (au_tenant auth) d,
        requested_sync_capability = requested_level (au_tenant auth) d\<rparr>))
     else (case k \<lparr>required_sync_capability = floor_level (au_tenant auth) d,
             requested_sync_capability = requested_level (au_tenant auth) d\<rparr> (seen_db now auth level d) of
         Inl e \<Rightarrow> (d, Inl e) | Inr (res, d') \<Rightarrow> (d', res)))"
proof -
  let ?l = "\<lparr>required_sync_capability = floor_level (au_tenant auth) d,
        requested_sync_capability = requested_level (au_tenant auth) d\<rparr>"
  have "gate_read now (au_tenant auth) (au_client auth) level d = Inr (?l, seen_db now auth level d)"
    using assms(2) by (simp add: gate_read_Inr lock_floor_Inr seen_db_def)
  then have "gated_read now auth h k d =
      (if level < floor_level (au_tenant auth) d then Inr (Inl (UpdateRequired ?l), seen_db now auth level d)
       else k ?l (seen_db now auth level d))"
    using assms(1) by (simp add: gated_read_def tx_bind_def tx_lift_def tx_return_def)
  then show ?thesis by (simp add: run_tx_join_def split: sum.split)
qed

lemma read_gate_refuses_below_floor_witness:
  "snd (run_tx_join (gated_read 10 sample_auth None (\<lambda>_. tx_return (Inr ''content''))) capability_db) =
     Inl (UpdateRequired \<lparr>required_sync_capability = 1, requested_sync_capability = 0\<rparr>)"
proof -
  have "header_level None n = Inr 0" for n by (simp add: header_level_def)
  moreover have "\<exists>w\<in>set (workspaces capability_db). ws_id w = au_tenant sample_auth"
    by (simp add: capability_db_def sample_auth_def)
  ultimately show ?thesis
    using read_gate_refuses_below_floor [of None 0 capability_db sample_auth 10 "\<lambda>_. tx_return (Inr ''content'')"]
    by (simp add: floor_level_def requested_level_def floor_of_def capability_db_def sample_auth_def)
qed

end
