(* ===== verification/Entitlements.thy ===== *)
theory Entitlements
  imports Relay_Db
begin

text \<open>
  Tenant limits: \<open>crates/yapstack-entitlements/src/types.rs\<close>, \<open>wire.rs\<close> and \<open>source.rs\<close>. A
  limit is a number or unlimited; the control plane's wire form, the \<open>tenant_limits\<close> row and
  the resolved limits convert into each other; resolution fails open. Limits are ordered, with
  unlimited on top, so that "a larger limit admits more" can be said.
\<close>

datatype limit = LimitMax int | Unlimited

fun admits :: "limit \<Rightarrow> int \<Rightarrow> int \<Rightarrow> bool" where
  "admits Unlimited current additional = True"
| "admits (LimitMax m) current additional = (sat_add_u64 current additional \<le> m)"

instantiation limit :: linorder
begin

fun less_eq_limit :: "limit \<Rightarrow> limit \<Rightarrow> bool" where
  "less_eq_limit l Unlimited = True"
| "less_eq_limit Unlimited (LimitMax m) = False"
| "less_eq_limit (LimitMax a) (LimitMax b) = (a \<le> b)"

definition less_limit :: "limit \<Rightarrow> limit \<Rightarrow> bool" where
  "less_limit a b = (a \<le> b \<and> \<not> b \<le> a)"

instance
proof
  fix x y z :: limit
  show "x < y \<longleftrightarrow> x \<le> y \<and> \<not> y \<le> x" by (simp add: less_limit_def)
  show "x \<le> x" by (cases x) auto
  show "x \<le> y \<Longrightarrow> y \<le> z \<Longrightarrow> x \<le> z" by (cases x; cases y; cases z) auto
  show "x \<le> y \<Longrightarrow> y \<le> x \<Longrightarrow> x = y" by (cases x; cases y) auto
  show "x \<le> y \<or> y \<le> x" by (cases x; cases y) auto
qed

end

datatype tenant_state = TsActive | TsGrace timestamp | TsFrozen

record warn_thresholds =
  wt_storage_bytes :: "f64 option"
  wt_upload_bytes_period :: "f64 option"

record tenant_limits =
  tl_plan :: string
  tl_storage_bytes :: limit
  tl_upload_bytes_period :: limit
  tl_share_count :: limit
  tl_device_count :: limit
  tl_period_start :: "timestamp option"
  tl_warn_at :: "warn_thresholds option"
  tl_state :: tenant_state

definition unlimited :: tenant_limits where
  "unlimited = \<lparr>tl_plan = ''self-host'', tl_storage_bytes = Unlimited,
     tl_upload_bytes_period = Unlimited, tl_share_count = Unlimited, tl_device_count = Unlimited,
     tl_period_start = None, tl_warn_at = None, tl_state = TsActive\<rparr>"

subsection \<open>The wire form\<close>

record limit_wire =
  lw_limit :: int
  lw_unlimited :: bool

fun limit_to_wire :: "limit \<Rightarrow> limit_wire" where
  "limit_to_wire Unlimited = \<lparr>lw_limit = 0, lw_unlimited = True\<rparr>"
| "limit_to_wire (LimitMax n) = \<lparr>lw_limit = n, lw_unlimited = False\<rparr>"

definition limit_of_wire :: "limit_wire \<Rightarrow> limit" where
  "limit_of_wire w = (if lw_unlimited w then Unlimited else LimitMax (lw_limit w))"

datatype state_wire = SwActive | SwGrace | SwFrozen

record tenant_limits_update =
  tu_plan :: string
  tu_storage_bytes :: limit_wire
  tu_upload_bytes_period :: limit_wire
  tu_share_count :: limit_wire
  tu_device_count :: limit_wire
  tu_period_start :: "timestamp option"
  tu_warn_at :: "warn_thresholds option"
  tu_state :: state_wire
  tu_grace_until :: "timestamp option"

definition tenant_state :: "tenant_limits_update \<Rightarrow> tenant_state" where
  "tenant_state u = (case tu_state u of
       SwActive \<Rightarrow> TsActive
     | SwFrozen \<Rightarrow> TsFrozen
     | SwGrace \<Rightarrow> (case tu_grace_until u of None \<Rightarrow> TsActive | Some t \<Rightarrow> TsGrace t))"

subsection \<open>Resolution\<close>

record limit_defaults =
  ld_storage_bytes :: "int option"
  ld_upload_bytes_period :: "int option"
  ld_share_count :: "int option"
  ld_device_count :: "int option"

definition opt_to_limit :: "int option \<Rightarrow> limit" where
  "opt_to_limit v = (case v of None \<Rightarrow> Unlimited | Some n \<Rightarrow> LimitMax n)"

definition as_limits :: "limit_defaults \<Rightarrow> tenant_limits" where
  "as_limits d = \<lparr>tl_plan = ''default'', tl_storage_bytes = opt_to_limit (ld_storage_bytes d),
     tl_upload_bytes_period = opt_to_limit (ld_upload_bytes_period d),
     tl_share_count = opt_to_limit (ld_share_count d),
     tl_device_count = opt_to_limit (ld_device_count d),
     tl_period_start = None, tl_warn_at = None, tl_state = TsActive\<rparr>"

definition col_to_limit :: "int option \<Rightarrow> limit" where
  "col_to_limit v = (case v of None \<Rightarrow> Unlimited | Some n \<Rightarrow> LimitMax (if 0 \<le> n then n else 0))"

definition resolve :: "limits_row option \<Rightarrow> limit_defaults \<Rightarrow> tenant_limits" where
  "resolve row dflt = (case row of
       None \<Rightarrow> as_limits dflt
     | Some r \<Rightarrow>
         let state = (if li_state r = ''frozen'' then TsFrozen
                      else if li_state r = ''grace''
                      then (case li_grace_until r of None \<Rightarrow> TsActive | Some t \<Rightarrow> TsGrace t)
                      else TsActive);
             warn_at = (if li_warn_storage r \<noteq> None \<or> li_warn_upload r \<noteq> None
                        then Some \<lparr>wt_storage_bytes = li_warn_storage r,
                                   wt_upload_bytes_period = li_warn_upload r\<rparr>
                        else None)
         in \<lparr>tl_plan = li_plan r, tl_storage_bytes = col_to_limit (li_storage r),
              tl_upload_bytes_period = col_to_limit (li_upload r),
              tl_share_count = col_to_limit (li_share r),
              tl_device_count = col_to_limit (li_device r),
              tl_period_start = li_period_start r, tl_warn_at = warn_at, tl_state = state\<rparr>)"

text \<open>The row lookup of \<open>StoredLimits::fetch\<close>, and \<open>limits\<close> of the two sources. \<open>fetch_result\<close>
  is \<open>None\<close> when the query failed.\<close>

definition fetch_limits_row :: "uuid \<Rightarrow> db \<Rightarrow> limits_row option" where
  "fetch_limits_row t d = fetch_optional (\<lambda>r. li_tenant r = t) (limits_tbl d)"

datatype limit_source = AllowAll | StoredLimits limit_defaults

definition limits_for :: "limit_source \<Rightarrow> limits_row option option \<Rightarrow> tenant_limits" where
  "limits_for src fetch_result = (case src of
       AllowAll \<Rightarrow> unlimited
     | StoredLimits dflt \<Rightarrow> (case fetch_result of
           Some row \<Rightarrow> resolve row dflt
         | None \<Rightarrow> resolve None dflt))"

subsection \<open>What the control plane stores\<close>

text \<open>\<open>wire_to_col\<close> and \<open>state_str\<close> of \<open>crates/yapstack-server/src/admin.rs\<close>, and the row
  \<open>put_limits\<close> binds.\<close>

definition wire_to_col :: "limit_wire \<Rightarrow> int option" where
  "wire_to_col w = (if lw_unlimited w then None else Some (to_i64_sat (lw_limit w)))"

fun state_str :: "state_wire \<Rightarrow> string" where
  "state_str SwActive = ''active''"
| "state_str SwGrace = ''grace''"
| "state_str SwFrozen = ''frozen''"

definition row_of_update :: "uuid \<Rightarrow> tenant_limits_update \<Rightarrow> limits_row" where
  "row_of_update t u = \<lparr>li_tenant = t, li_plan = tu_plan u,
     li_storage = wire_to_col (tu_storage_bytes u),
     li_upload = wire_to_col (tu_upload_bytes_period u),
     li_share = wire_to_col (tu_share_count u),
     li_device = wire_to_col (tu_device_count u),
     li_period_start = tu_period_start u,
     li_warn_storage = (case tu_warn_at u of None \<Rightarrow> None | Some w \<Rightarrow> wt_storage_bytes w),
     li_warn_upload = (case tu_warn_at u of None \<Rightarrow> None | Some w \<Rightarrow> wt_upload_bytes_period w),
     li_state = state_str (tu_state u), li_grace_until = tu_grace_until u\<rparr>"

subsection \<open>Facts\<close>

text \<open>\<open>clamp_limit\<close>: what a wire limit means after the column's \<open>bigint\<close>.\<close>

definition clamp_limit :: "limit \<Rightarrow> limit" where
  "clamp_limit l = (case l of Unlimited \<Rightarrow> Unlimited | LimitMax n \<Rightarrow> LimitMax (min n i64_max))"

lemma limit_wire_roundtrip: "limit_of_wire (limit_to_wire l) = l"
  by (cases l) (simp_all add: limit_of_wire_def)

lemma col_to_limit_wire:
  "0 \<le> lw_limit w \<Longrightarrow> col_to_limit (wire_to_col w) = clamp_limit (limit_of_wire w)"
  by (auto simp: col_to_limit_def wire_to_col_def clamp_limit_def limit_of_wire_def machine_int_defs)

lemma resolve_state:
  "tl_state (resolve (Some (row_of_update t u)) d) = tenant_state u"
  by (cases "tu_state u") (auto simp: resolve_def row_of_update_def tenant_state_def Let_def)

lemma admits_mono: "l \<le> l' \<Longrightarrow> admits l c a \<Longrightarrow> admits l' c a"
  by (cases l; cases l') auto

lemma clamp_limit_admits:
  "0 \<le> c \<Longrightarrow> 0 \<le> a \<Longrightarrow> c + a \<le> i64_max \<Longrightarrow> admits (clamp_limit l) c a = admits l c a"
  by (cases l) (auto simp: clamp_limit_def machine_int_defs)

subsection \<open>Properties\<close>

text \<open>What the control plane pushes is what the relay enforces. The row that an admin
  update stores resolves to the update's own limits in all four dimensions, clamped to the
  column's range, with its lifecycle state, its plan and its billing period; "unlimited" and a
  number never turn into each other, and the deployment defaults play no part.\<close>

theorem stored_update_resolves:
  assumes "0 \<le> lw_limit (tu_storage_bytes u)" and "0 \<le> lw_limit (tu_upload_bytes_period u)"
    and "0 \<le> lw_limit (tu_share_count u)" and "0 \<le> lw_limit (tu_device_count u)"
  shows "resolve (Some (row_of_update t u)) dflt =
    \<lparr>tl_plan = tu_plan u,
     tl_storage_bytes = clamp_limit (limit_of_wire (tu_storage_bytes u)),
     tl_upload_bytes_period = clamp_limit (limit_of_wire (tu_upload_bytes_period u)),
     tl_share_count = clamp_limit (limit_of_wire (tu_share_count u)),
     tl_device_count = clamp_limit (limit_of_wire (tu_device_count u)),
     tl_period_start = tu_period_start u,
     tl_warn_at = (case tu_warn_at u of None \<Rightarrow> None
                   | Some w \<Rightarrow> if wt_storage_bytes w = None \<and> wt_upload_bytes_period w = None
                               then None else Some w),
     tl_state = tenant_state u\<rparr>"
proof -
  have "tl_state (resolve (Some (row_of_update t u)) dflt) = tenant_state u"
    by (rule resolve_state)
  then show ?thesis
    using assms
    by (auto simp: resolve_def row_of_update_def Let_def col_to_limit_wire
        split: option.splits)
qed

definition sample_update :: tenant_limits_update where
  "sample_update = \<lparr>tu_plan = ''pro'', tu_storage_bytes = \<lparr>lw_limit = 18446744073709551615, lw_unlimited = False\<rparr>,
     tu_upload_bytes_period = \<lparr>lw_limit = 7516192768, lw_unlimited = False\<rparr>,
     tu_share_count = \<lparr>lw_limit = 50, lw_unlimited = False\<rparr>,
     tu_device_count = \<lparr>lw_limit = 0, lw_unlimited = True\<rparr>, tu_period_start = Some 1000,
     tu_warn_at = None, tu_state = SwFrozen, tu_grace_until = None\<rparr>"

lemma stored_update_resolves_witness:
  "\<forall>dflt. tl_storage_bytes (resolve (Some (row_of_update 7 sample_update)) dflt) = LimitMax i64_max \<and>
     tl_state (resolve (Some (row_of_update 7 sample_update)) dflt) = TsFrozen"
  using stored_update_resolves [of sample_update 7]
  by (simp add: sample_update_def clamp_limit_def limit_of_wire_def machine_int_defs tenant_state_def)

text \<open>Limits fail open. Without a stored row, and when the lookup itself fails, a tenant gets
  the deployment's defaults and is active, so neither a missing row nor a database error can
  freeze a tenant; without a \<open>[limits]\<close> section, and for every default left out, every amount
  is admitted.\<close>

theorem limits_fail_open:
  "limits_for (StoredLimits dflt) None = as_limits dflt \<and>
   limits_for (StoredLimits dflt) (Some None) = as_limits dflt \<and>
   tl_state (as_limits dflt) = TsActive \<and>
   (\<forall>f c a. admits (tl_storage_bytes (limits_for AllowAll f)) c a \<and>
            admits (tl_upload_bytes_period (limits_for AllowAll f)) c a \<and>
            tl_state (limits_for AllowAll f) = TsActive) \<and>
   (\<forall>c a. admits (opt_to_limit None) c a)"
  by (simp add: limits_for_def resolve_def as_limits_def unlimited_def opt_to_limit_def)

end
