(* ===== verification/Choke.thy ===== *)
theory Choke
  imports Entitlements
begin

text \<open>
  The ingestion choke point of \<open>crates/yapstack-server/src/choke.rs\<close>: \<open>admit\<close> inside the
  caller's transaction. The conditional \<open>UPDATE .. RETURNING\<close> is \<open>try_reserve\<close> on the tenant's
  row (\<open>tenant_id\<close> is the primary key); its \<open>bigint\<close> expressions are evaluated from left to
  right as far as the outcome needs them and fail with a database error when one leaves the range.
\<close>

definition limit_bound :: "limit \<Rightarrow> int option" where
  "limit_bound l = (case l of Unlimited \<Rightarrow> None | LimitMax n \<Rightarrow> Some (to_i64_sat n))"

definition quota :: "string \<Rightarrow> int \<Rightarrow> int \<Rightarrow> tenant_limits \<Rightarrow> string \<Rightarrow> app_error" where
  "quota resource used limit limits help_url =
     Quota \<lparr>qe_code = ''quota_exceeded'', qe_resource = resource, qe_used = used, qe_limit = limit,
            qe_resets_at = tl_period_start limits, qe_help_url = help_url\<rparr>"

definition bigint_add :: "int \<Rightarrow> int \<Rightarrow> app_error + int" where
  "bigint_add a b = (if in_i64 (a + b) then Inr (a + b) else Inl (Db ''bigint out of range''))"

definition within_bound :: "int option \<Rightarrow> int \<Rightarrow> int \<Rightarrow> app_error + bool" where
  "within_bound bound cur added = (case bound of
       None \<Rightarrow> Inr True
     | Some b \<Rightarrow> bind_result (bigint_add cur added) (\<lambda>s. Inr (s \<le> b)))"

definition try_reserve :: "int option \<Rightarrow> int option \<Rightarrow> int \<Rightarrow> usage_row \<Rightarrow> app_error + usage_row option" where
  "try_reserve storage_bound upload_bound added r =
     bind_result (within_bound storage_bound (ug_storage r) added) (\<lambda>ok1.
       if \<not> ok1 then Inr None
       else bind_result (within_bound upload_bound (ug_upload r) added) (\<lambda>ok2.
         if \<not> ok2 then Inr None
         else bind_result (bigint_add (ug_storage r) added) (\<lambda>s.
           bind_result (bigint_add (ug_upload r) added) (\<lambda>u.
             Inr (Some (r\<lparr>ug_storage := s, ug_upload := u\<rparr>))))))"

definition usage_of :: "uuid \<Rightarrow> db \<Rightarrow> usage_row option" where
  "usage_of t d = fetch_optional (\<lambda>r. ug_tenant r = t) (usage d)"

definition new_usage :: "uuid \<Rightarrow> timestamp \<Rightarrow> usage_row" where
  "new_usage t now = \<lparr>ug_tenant = t, ug_storage = 0, ug_upload = 0, ug_share = 0, ug_device = 0,
     ug_window = now\<rparr>"

definition breach :: "int option \<Rightarrow> int option \<Rightarrow> int \<Rightarrow> usage_row \<Rightarrow> tenant_limits \<Rightarrow> string \<Rightarrow> app_error" where
  "breach storage_bound upload_bound added r limits help_url =
     (let over = (\<lambda>bound cur. case bound of None \<Rightarrow> None
                    | Some b \<Rightarrow> if sat_add_i64 cur added > b then Some b else None)
      in case over storage_bound (ug_storage r) of
           Some b \<Rightarrow> quota ''storage_bytes'' (max 0 (ug_storage r)) (max 0 b) limits help_url
         | None \<Rightarrow>
             (case over upload_bound (ug_upload r) of
                Some b \<Rightarrow> quota ''upload_bytes_period'' (max 0 (ug_upload r)) (max 0 b) limits help_url
              | None \<Rightarrow> quota ''upload_bytes_period'' (max 0 (ug_upload r)) 0 limits help_url))"

definition ensure_usage :: "timestamp \<Rightarrow> uuid \<Rightarrow> unit tx" where
  "ensure_usage now t = tx_bootstrap t (\<lambda>d. exists_row (\<lambda>r. ug_tenant r = t) (usage d))
     (\<lambda>d. d\<lparr>usage := usage d @ [new_usage t now]\<rparr>)"

definition roll_window :: "uuid \<Rightarrow> tenant_limits \<Rightarrow> unit tx" where
  "roll_window t limits = (case tl_period_start limits of
       None \<Rightarrow> tx_return ()
     | Some ps \<Rightarrow> tx_write (\<lambda>d. d\<lparr>usage := update_where (\<lambda>r. ug_tenant r = t \<and> ug_window r < ps)
         (\<lambda>r. r\<lparr>ug_upload := 0, ug_window := ps\<rparr>) (usage d)\<rparr>))"

definition reserve :: "uuid \<Rightarrow> tenant_limits \<Rightarrow> int \<Rightarrow> string \<Rightarrow> unit tx" where
  "reserve t limits added help_url =
     (let sb = limit_bound (tl_storage_bytes limits); ub = limit_bound (tl_upload_bytes_period limits)
      in tx_bind (tx_read (usage_of t)) (\<lambda>row. case row of
           None \<Rightarrow> tx_lift (Inl (Db ''no rows returned''))
         | Some r \<Rightarrow> tx_bind (tx_lift (try_reserve sb ub added r)) (\<lambda>updated. case updated of
               Some r' \<Rightarrow> tx_write (\<lambda>d. d\<lparr>usage := update_where (\<lambda>x. ug_tenant x = t)
                   (\<lambda>x. x\<lparr>ug_storage := ug_storage r', ug_upload := ug_upload r'\<rparr>) (usage d)\<rparr>)
             | None \<Rightarrow> tx_lift (Inl (breach sb ub added r limits help_url)))))"

definition admit :: "timestamp \<Rightarrow> uuid \<Rightarrow> tenant_limits \<Rightarrow> int \<Rightarrow> string \<Rightarrow> unit tx" where
  "admit now t limits added_bytes help_url =
     tx_seq (ensure_usage now t)
       (tx_seq (roll_window t limits)
         (if tl_state limits = TsFrozen
          then tx_lift (Inl (quota ''frozen'' 0 0 limits help_url))
          else reserve t limits (to_i64_sat added_bytes) help_url))"

subsection \<open>The row the choke point works on\<close>

definition metered_row :: "timestamp \<Rightarrow> uuid \<Rightarrow> tenant_limits \<Rightarrow> db \<Rightarrow> usage_row" where
  "metered_row now t limits d =
     (let r = (case usage_of t d of Some r \<Rightarrow> r | None \<Rightarrow> new_usage t now)
      in case tl_period_start limits of
           None \<Rightarrow> r
         | Some ps \<Rightarrow> if ug_window r < ps then r\<lparr>ug_upload := 0, ug_window := ps\<rparr> else r)"

lemma usage_of_tenant: "usage_of t d = Some r \<Longrightarrow> ug_tenant r = t \<and> r \<in> set (usage d)"
  by (auto simp: usage_of_def dest: fetch_optional_Some)

lemma metered_row_tenant [simp]: "ug_tenant (metered_row now t limits d) = t"
  using usage_of_tenant [of t d]
  by (auto simp: metered_row_def new_usage_def Let_def split: option.splits)

text \<open>Bootstrap and roll leave the tenant's row at \<open>metered_row\<close>.\<close>

lemma prepare_usage:
  assumes "ensure_usage now t d = Inr ((), d1)" and "roll_window t limits d1 = Inr ((), d2)"
  shows "usage_of t d2 = Some (metered_row now t limits d)"
    and "\<exists>rows. d2 = d\<lparr>usage := rows\<rparr> \<and>
      (distinct (map ug_tenant (usage d)) \<longrightarrow> distinct (map ug_tenant rows))"
proof -
  have d1: "d1 = (if exists_row (\<lambda>r. ug_tenant r = t) (usage d) then d
      else d\<lparr>usage := usage d @ [new_usage t now]\<rparr>)"
    using assms(1) by (auto simp: ensure_usage_def tx_bootstrap_def result_simps split: if_splits)
  have row1: "usage_of t d1 = Some (case usage_of t d of Some r \<Rightarrow> r | None \<Rightarrow> new_usage t now)"
    unfolding d1 usage_of_def
    by (auto simp: fetch_append new_usage_def fetch_optional_None_iff split: option.splits
        dest: fetch_optional_Some)
  show "usage_of t d2 = Some (metered_row now t limits d)"
  proof (cases "tl_period_start limits")
    case None
    with assms(2) row1 show ?thesis by (simp add: roll_window_def result_simps metered_row_def)
  next
    case (Some ps)
    let ?upd = "\<lambda>r. r\<lparr>ug_upload := 0, ug_window := ps\<rparr>"
    have "d2 = d1\<lparr>usage := update_where (\<lambda>r. ug_tenant r = t \<and> ug_window r < ps) ?upd (usage d1)\<rparr>"
      using assms(2) Some by (simp add: roll_window_def result_simps)
    moreover have "ug_tenant (case usage_of t d of Some r \<Rightarrow> r | None \<Rightarrow> new_usage t now) = t"
      using usage_of_tenant [of t d] by (auto simp: new_usage_def split: option.splits)
    ultimately show ?thesis
      using row1 Some by (simp add: usage_of_def fetch_update_where metered_row_def Let_def)
  qed
  have keys1: "map ug_tenant (usage d1) = map ug_tenant (usage d) \<or>
      (t \<notin> ug_tenant ` set (usage d) \<and> map ug_tenant (usage d1) = map ug_tenant (usage d) @ [t])"
    unfolding d1 by (auto simp: new_usage_def)
  have dist1: "distinct (map ug_tenant (usage d)) \<longrightarrow> distinct (map ug_tenant (usage d1))"
    using keys1 by auto
  have "\<exists>rows. d2 = d1\<lparr>usage := rows\<rparr> \<and> map ug_tenant rows = map ug_tenant (usage d1)"
  proof (cases "tl_period_start limits")
    case None
    with assms(2) show ?thesis by (intro exI [of _ "usage d1"]) (simp add: roll_window_def result_simps)
  next
    case (Some ps)
    with assms(2) show ?thesis
      by (intro exI [of _ "usage d2"]) (simp add: roll_window_def result_simps map_update_where)
  qed
  moreover have "\<exists>rows. d1 = d\<lparr>usage := rows\<rparr>"
    unfolding d1 by (auto intro: exI [of _ "usage d"])
  ultimately show "\<exists>rows. d2 = d\<lparr>usage := rows\<rparr> \<and>
      (distinct (map ug_tenant (usage d)) \<longrightarrow> distinct (map ug_tenant rows))"
    using dist1 by (metis db.select_convs(8) db.surjective db.update_convs(8))
qed

lemma prepare_defined:
  assumes "\<exists>w\<in>set (workspaces d). ws_id w = t"
  shows "\<exists>d1 d2. ensure_usage now t d = Inr ((), d1) \<and> roll_window t limits d1 = Inr ((), d2)"
  using assms
  by (cases "tl_period_start limits")
    (auto simp: ensure_usage_def roll_window_def tx_run_simps)

subsection \<open>The specification\<close>

text \<open>What the published limits say: not frozen, and both limits admit the bytes. \<open>fits\<close> is
  that neither counter would leave \<open>bigint\<close>.\<close>

definition should_admit :: "tenant_limits \<Rightarrow> int \<Rightarrow> usage_row \<Rightarrow> bool" where
  "should_admit limits added r \<longleftrightarrow> tl_state limits \<noteq> TsFrozen \<and>
     admits (tl_storage_bytes limits) (ug_storage r) added \<and>
     admits (tl_upload_bytes_period limits) (ug_upload r) added"

definition charge :: "int \<Rightarrow> usage_row \<Rightarrow> usage_row" where
  "charge added r = r\<lparr>ug_storage := ug_storage r + added, ug_upload := ug_upload r + added\<rparr>"

definition fits :: "int \<Rightarrow> usage_row \<Rightarrow> bool" where
  "fits added r \<longleftrightarrow> 0 \<le> added \<and> 0 \<le> ug_storage r \<and> 0 \<le> ug_upload r \<and>
     ug_storage r + added \<le> i64_max \<and> ug_upload r + added \<le> i64_max"

lemma within_bound_admits:
  "0 \<le> cur \<Longrightarrow> 0 \<le> added \<Longrightarrow> cur + added \<le> i64_max \<Longrightarrow>
   within_bound (limit_bound l) cur added = Inr (admits l cur added)"
  by (cases l) (auto simp: within_bound_def limit_bound_def bigint_add_def machine_int_defs)

lemma bigint_add_fits: "0 \<le> a \<Longrightarrow> 0 \<le> b \<Longrightarrow> a + b \<le> i64_max \<Longrightarrow> bigint_add a b = Inr (a + b)"
  by (auto simp: bigint_add_def machine_int_defs)

lemma try_reserve_fits:
  assumes "fits added r"
  shows "try_reserve (limit_bound (tl_storage_bytes l)) (limit_bound (tl_upload_bytes_period l)) added r =
    Inr (if admits (tl_storage_bytes l) (ug_storage r) added \<and>
            admits (tl_upload_bytes_period l) (ug_upload r) added
         then Some (charge added r) else None)"
  using assms
  by (simp add: try_reserve_def within_bound_admits bigint_add_fits fits_def charge_def)

lemma bigint_add_Inr: "bigint_add a b = Inr c \<longleftrightarrow> c = a + b \<and> in_i64 (a + b)"
  by (auto simp: bigint_add_def)

lemma try_reserve_charges:
  "try_reserve sb ub added r = Inr (Some r') \<Longrightarrow>
   r' = charge added r \<and> (\<forall>b. sb = Some b \<longrightarrow> ug_storage r' \<le> b) \<and>
   (\<forall>b. ub = Some b \<longrightarrow> ug_upload r' \<le> b)"
  by (auto simp: try_reserve_def within_bound_def result_simps bigint_add_Inr charge_def
      split: option.splits if_splits)

definition breached :: "tenant_limits \<Rightarrow> int \<Rightarrow> usage_row \<Rightarrow> string" where
  "breached limits added r =
     (if tl_state limits = TsFrozen then ''frozen''
      else if \<not> admits (tl_storage_bytes limits) (ug_storage r) added then ''storage_bytes''
      else ''upload_bytes_period'')"

lemma breach_names:
  assumes "fits added r" and "\<not> should_admit l added r" and "tl_state l \<noteq> TsFrozen"
  shows "\<exists>u m. breach (limit_bound (tl_storage_bytes l)) (limit_bound (tl_upload_bytes_period l)) added r l h =
    quota (breached l added r) u m l h"
  using assms
  by (cases "tl_storage_bytes l"; cases "tl_upload_bytes_period l")
    (auto simp: breach_def breached_def should_admit_def fits_def limit_bound_def Let_def
      machine_int_defs split: if_splits)

lemma admit_result:
  assumes ws: "\<exists>w\<in>set (workspaces d). ws_id w = t" and fits: "fits added (metered_row now t limits d)"
  defines "r \<equiv> metered_row now t limits d"
  shows "should_admit limits added r \<Longrightarrow>
      \<exists>d'. admit now t limits added h d = Inr ((), d') \<and> usage_of t d' = Some (charge added r)"
    and "\<not> should_admit limits added r \<Longrightarrow>
      \<exists>u m. admit now t limits added h d = Inl (quota (breached limits added r) u m limits h)"
proof -
  obtain d1 d2 where d: "ensure_usage now t d = Inr ((), d1)" "roll_window t limits d1 = Inr ((), d2)"
    using prepare_defined [OF ws] by blast
  have row: "usage_of t d2 = Some r" unfolding r_def by (rule prepare_usage(1) [OF d])
  have sat: "to_i64_sat added = added" using fits by (auto simp: fits_def machine_int_defs)
  note [simp] = d row sat
  note run = admit_def reserve_def tx_run_simps tx_lift_def Let_def
  have fits': "fits added r" using fits by (simp add: r_def)
  show "\<exists>d'. admit now t limits added h d = Inr ((), d') \<and> usage_of t d' = Some (charge added r)"
    if "should_admit limits added r"
  proof -
    have "usage_of t (d2\<lparr>usage := update_where (\<lambda>x. ug_tenant x = t)
        (\<lambda>x. x\<lparr>ug_storage := ug_storage (charge added r), ug_upload := ug_upload (charge added r)\<rparr>) (usage d2)\<rparr>) =
        Some (charge added r)"
      using row by (simp add: usage_of_def fetch_update_where charge_def r_def)
    with that try_reserve_fits [OF fits', of limits] show ?thesis
      by (simp add: run should_admit_def)
  qed
  show "\<exists>u m. admit now t limits added h d = Inl (quota (breached limits added r) u m limits h)"
    if "\<not> should_admit limits added r"
  proof (cases "tl_state limits = TsFrozen")
    case True
    then have "breached limits added r = ''frozen''" by (simp add: breached_def)
    with True show ?thesis by (auto simp: run)
  next
    case False
    with that try_reserve_fits [OF fits', of limits] breach_names [OF fits' that False, of h]
    show ?thesis by (auto simp: run should_admit_def)
  qed
qed

lemma admit_Inr:
  assumes "admit now t limits added h d = Inr ((), d')"
  shows "tl_state limits \<noteq> TsFrozen"
    and "\<exists>rows. d' = d\<lparr>usage := rows\<rparr> \<and> (distinct (map ug_tenant (usage d)) \<longrightarrow> distinct (map ug_tenant rows))"
    and "usage_of t d' = Some (charge (to_i64_sat added) (metered_row now t limits d))"
    and "\<And>b. limit_bound (tl_storage_bytes limits) = Some b \<Longrightarrow>
      ug_storage (metered_row now t limits d) + to_i64_sat added \<le> b"
proof -
  let ?a = "to_i64_sat added" and ?r = "metered_row now t limits d"
  let ?sb = "limit_bound (tl_storage_bytes limits)" and ?ub = "limit_bound (tl_upload_bytes_period limits)"
  show state: "tl_state limits \<noteq> TsFrozen"
    using assms by (auto simp: admit_def result_simps)
  with assms obtain d1 d2 where d: "ensure_usage now t d = Inr ((), d1)" "roll_window t limits d1 = Inr ((), d2)"
    and res: "reserve t limits ?a h d2 = Inr ((), d')"
    by (auto simp: admit_def result_simps)
  note row = prepare_usage(1) [OF d]
  obtain r' where r': "try_reserve ?sb ?ub ?a ?r = Inr (Some r')"
    and d': "d' = d2\<lparr>usage := update_where (\<lambda>x. ug_tenant x = t)
      (\<lambda>x. x\<lparr>ug_storage := ug_storage r', ug_upload := ug_upload r'\<rparr>) (usage d2)\<rparr>"
    using res row by (auto simp: reserve_def Let_def result_simps split: option.splits)
  note charge = try_reserve_charges [OF r']
  show "ug_storage ?r + ?a \<le> b" if "?sb = Some b" for b
    using charge that by (auto simp: charge_def)
  show "usage_of t d' = Some (charge ?a ?r)"
    using row charge by (simp add: d' usage_of_def fetch_update_where charge_def)
  show "\<exists>rows. d' = d\<lparr>usage := rows\<rparr> \<and> (distinct (map ug_tenant (usage d)) \<longrightarrow> distinct (map ug_tenant rows))"
    using prepare_usage(2) [OF d] by (auto simp: d' map_update_where)
qed

lemma others_kept_usage:
  "(\<And>t'. t' \<noteq> t \<Longrightarrow> filter (\<lambda>r. ug_tenant r = t') rows = filter (\<lambda>r. ug_tenant r = t') (usage d)) \<Longrightarrow>
   others_kept t d (d\<lparr>usage := rows\<rparr>)"
  by (simp add: others_kept_def tenant_view_def)

lemma frames_admit [frame_intros]: "frames t (admit now t limits added h)"
proof -
  have upd: "frames t (tx_write (\<lambda>d. d\<lparr>usage := update_where p f (usage d)\<rparr>))"
    if "\<And>r. p r \<Longrightarrow> ug_tenant r = t" "\<And>r. p r \<Longrightarrow> ug_tenant (f r) = t" for p f
    by (intro frame_intros others_kept_usage table_simps) (use that in auto)
  have "frames t (tx_bootstrap t p (\<lambda>d. d\<lparr>usage := usage d @ [new_usage t now]\<rparr>))" for p
    by (intro frame_intros others_kept_usage) (simp add: new_usage_def)
  moreover have "frames t (roll_window t limits)"
    unfolding roll_window_def by (intro frame_intros upd) auto
  moreover have "frames t (reserve t limits a h)" for a
    unfolding reserve_def Let_def by (intro frame_intros upd) auto
  ultimately show ?thesis
    unfolding admit_def ensure_usage_def by (intro frames_seq frames_if frames_lift) auto
qed

subsection \<open>A metered counter\<close>

text \<open>What a caller relies on when it reserves before it writes: an accepted reservation adds
  its amount and stays within the cap; a refused one changes nothing.\<close>

locale metered_counter =
  fixes attempt :: "'s \<Rightarrow> 'n \<Rightarrow> 's option" and used :: "'s \<Rightarrow> int" and cap :: "int option"
    and amount :: "'n \<Rightarrow> int"
  assumes attempt_used: "attempt s n = Some s' \<Longrightarrow> used s' = used s + amount n"
    and attempt_cap: "attempt s n = Some s' \<Longrightarrow> cap = Some c \<Longrightarrow> used s' \<le> c"
begin

fun attempts :: "'s \<Rightarrow> 'n list \<Rightarrow> 's \<times> 'n list" where
  "attempts s [] = (s, [])"
| "attempts s (n # ns) = (case attempt s n of
       None \<Rightarrow> attempts s ns
     | Some s' \<Rightarrow> (case attempts s' ns of (s'', acc) \<Rightarrow> (s'', n # acc)))"

lemma attempts_used: "used (fst (attempts s ns)) = used s + sum_list (map amount (snd (attempts s ns)))"
  by (induction s ns rule: attempts.induct) (auto split: option.split prod.split dest: attempt_used)

lemma attempts_cap: "cap = Some c \<Longrightarrow> used (fst (attempts s ns)) \<le> max (used s) c"
proof (induction s ns rule: attempts.induct)
  case (1 s)
  then show ?case by simp
next
  case (2 s n ns)
  show ?case
  proof (cases "attempt s n")
    case None
    with "2.IH"(1) "2.prems" show ?thesis by simp
  next
    case (Some s')
    with "2.IH"(2) "2.prems" attempt_cap [OF Some] show ?thesis
      by (fastforce split: prod.split)
  qed
qed

end

definition storage_used :: "uuid \<Rightarrow> db \<Rightarrow> int" where
  "storage_used t d = (case usage_of t d of None \<Rightarrow> 0 | Some r \<Rightarrow> ug_storage r)"

definition admit_attempt ::
  "timestamp \<Rightarrow> uuid \<Rightarrow> tenant_limits \<Rightarrow> string \<Rightarrow> db \<Rightarrow> int \<Rightarrow> db option" where
  "admit_attempt now t limits h d n = (case run_tx (admit now t limits n h) d of
       (d', Inr _) \<Rightarrow> Some d' | (_, Inl _) \<Rightarrow> None)"

lemma metered_row_storage: "ug_storage (metered_row now t limits d) = storage_used t d"
  by (auto simp: metered_row_def storage_used_def new_usage_def Let_def split: option.splits)

lemma admit_attempt_Some: "admit_attempt now t limits h d n = Some d' \<longleftrightarrow> admit now t limits n h d = Inr ((), d')"
  by (auto simp: admit_attempt_def run_tx_def split: sum.splits)

interpretation choke: metered_counter "admit_attempt now t limits h" "storage_used t"
  "limit_bound (tl_storage_bytes limits)" to_i64_sat
  for now t limits h
proof
  fix s n s'
  assume "admit_attempt now t limits h s n = Some s'"
  then have adm: "admit now t limits n h s = Inr ((), s')" by (simp add: admit_attempt_Some)
  show used: "storage_used t s' = storage_used t s + to_i64_sat n"
    using admit_Inr(3) [OF adm] metered_row_storage [of now t limits s]
    by (simp add: storage_used_def charge_def)
  show "storage_used t s' \<le> c" if "limit_bound (tl_storage_bytes limits) = Some c" for c
    using admit_Inr(4) [OF adm that] used metered_row_storage [of now t limits s] by simp
qed

subsection \<open>Properties\<close>

text \<open>C20. The choke point implements the published limits. For a tenant that exists, and amounts
  that stay within \<open>bigint\<close>, \<open>admit\<close> succeeds exactly when the tenant is not frozen and both the
  storage limit and the (rolled) period limit admit the bytes; it then charges both counters
  with exactly these bytes. Otherwise it answers 429 with the first limit that is breached,
  and the transaction's changes are rolled back.\<close>

theorem choke_refines_limits:
  assumes "\<exists>w\<in>set (workspaces d). ws_id w = t" and "fits added (metered_row now t limits d)"
  shows "if should_admit limits added (metered_row now t limits d)
    then \<exists>d'. run_tx (admit now t limits added h) d = (d', Inr ()) \<and>
      usage_of t d' = Some (charge added (metered_row now t limits d))
    else \<exists>u m. run_tx (admit now t limits added h) d =
      (d, Inl (quota (breached limits added (metered_row now t limits d)) u m limits h))"
proof (cases "should_admit limits added (metered_row now t limits d)")
  case True
  with admit_result(1) [OF assms, of h] show ?thesis by (auto simp: run_tx_def)
next
  case False
  with admit_result(2) [OF assms, of h] show ?thesis by (fastforce simp: run_tx_def)
qed

definition sample_db :: db where
  "sample_db = empty_db\<lparr>workspaces := [\<lparr>ws_id = 1, ws_name = []\<rparr>, \<lparr>ws_id = 2, ws_name = []\<rparr>]\<rparr>"

lemma choke_refines_limits_witness:
  "\<exists>u m. run_tx (admit 5 1 (unlimited\<lparr>tl_storage_bytes := LimitMax 10\<rparr>) 11 ''h'') sample_db =
     (sample_db, Inl (quota ''storage_bytes'' u m (unlimited\<lparr>tl_storage_bytes := LimitMax 10\<rparr>) ''h''))"
proof -
  let ?l = "unlimited\<lparr>tl_storage_bytes := LimitMax 10\<rparr>"
  have r: "metered_row 5 1 ?l sample_db = new_usage 1 5"
    by (simp add: metered_row_def usage_of_def sample_db_def empty_db_def unlimited_def Let_def)
  have "\<exists>w\<in>set (workspaces sample_db). ws_id w = 1" by (simp add: sample_db_def)
  moreover have "fits 11 (metered_row 5 1 ?l sample_db)"
    unfolding r by (simp add: fits_def new_usage_def machine_int_defs)
  moreover have "\<not> should_admit ?l 11 (new_usage 1 5)" "breached ?l 11 (new_usage 1 5) = ''storage_bytes''"
    by (simp_all add: should_admit_def breached_def unlimited_def new_usage_def machine_int_defs)
  ultimately show ?thesis
    using choke_refines_limits [of sample_db 1 11 5 ?l "''h''"] unfolding r by auto
qed

text \<open>C39. A storage cap is never exceeded: whatever amounts are attempted one after another under
  fixed limits, admitted or refused, the tenant's stored bytes end at what they were plus
  exactly the admitted amounts, and not above the cap (unless they were above it before).\<close>

theorem choke_cap_never_exceeded:
  "storage_used t (fst (choke.attempts now t limits h d amounts)) =
     storage_used t d + sum_list (map to_i64_sat (snd (choke.attempts now t limits h d amounts))) \<and>
   (case limit_bound (tl_storage_bytes limits) of
      None \<Rightarrow> True
    | Some c \<Rightarrow> storage_used t (fst (choke.attempts now t limits h d amounts)) \<le> max (storage_used t d) c)"
  using choke.attempts_used [of t now limits h d amounts] choke.attempts_cap [of limits _ t now h d amounts]
  by (auto split: option.split)

text \<open>A declared size near the top of \<open>bigint\<close> is not answered with the 429 of the published
  contract: with a storage cap and any byte stored, the guard's own addition leaves the range and
  the answer is a database error (HTTP 500), although the limits do not admit the amount.\<close>

theorem choke_overflow_is_internal_error:
  assumes "usage_of t d = Some r" and "0 < ug_storage r" and "tl_storage_bytes limits = LimitMax m"
    and "m < i64_max" and "tl_state limits \<noteq> TsFrozen" and "i64_max \<le> added" and "added \<le> u64_max"
  shows "run_tx (admit now t limits added h) d = (d, Inl (Db ''bigint out of range'')) \<and>
    \<not> should_admit limits added r \<and> fst (into_response (Db ''bigint out of range'')) = 500"
proof -
  have present: "exists_row (\<lambda>r. ug_tenant r = t) (usage d)"
    using usage_of_tenant [OF assms(1)] by auto
  then obtain d1 d2 where d: "ensure_usage now t d = Inr ((), d1)" "roll_window t limits d1 = Inr ((), d2)"
    by (cases "tl_period_start limits") (auto simp: ensure_usage_def roll_window_def tx_run_simps)
  let ?r = "metered_row now t limits d"
  have row: "usage_of t d2 = Some ?r" by (rule prepare_usage(1) [OF d])
  have st: "ug_storage ?r = ug_storage r" using assms(1) by (simp add: metered_row_storage storage_used_def)
  have sat: "to_i64_sat added = i64_max" using assms(6) by (auto simp: machine_int_defs)
  have "try_reserve (limit_bound (LimitMax m)) ub i64_max ?r = Inl (Db ''bigint out of range'')" for ub
    using assms(2) st
    by (simp add: try_reserve_def within_bound_def limit_bound_def bigint_add_def machine_int_defs)
  then have "admit now t limits added h d = Inl (Db ''bigint out of range'')"
    using d row sat assms(3,5) by (simp add: admit_def reserve_def tx_run_simps tx_lift_def Let_def)
  moreover have "\<not> should_admit limits added r"
    using assms(2-4,6) by (auto simp: should_admit_def machine_int_defs)
  ultimately show ?thesis by (simp add: run_tx_def)
qed

lemma choke_overflow_is_internal_error_witness:
  "snd (run_tx (admit 5 1 (unlimited\<lparr>tl_storage_bytes := LimitMax 10\<rparr>) i64_max ''h'')
     (sample_db\<lparr>usage := [(new_usage 1 0)\<lparr>ug_storage := 1\<rparr>]\<rparr>)) = Inl (Db ''bigint out of range'')"
  using choke_overflow_is_internal_error [of 1 "sample_db\<lparr>usage := [(new_usage 1 0)\<lparr>ug_storage := 1\<rparr>]\<rparr>"
      "(new_usage 1 0)\<lparr>ug_storage := 1\<rparr>" "unlimited\<lparr>tl_storage_bytes := LimitMax 10\<rparr>" 10 i64_max 5 "''h''"]
  by (simp add: usage_of_def new_usage_def unlimited_def machine_int_defs)

end
