(* ===== verification/Rate_Limit.thy ===== *)
theory Rate_Limit
  imports Relay_Types
begin

text \<open>
  The in-process limiter of \<open>crates/yapstack-server/src/ratelimit.rs\<close>: a fixed number of hits
  per key in a window of sixty seconds that starts with a key's first hit. Instants are in
  microseconds; the bucket map is an association list from keys to buckets.
\<close>

type_synonym rl_key = "uuid \<times> string"

record bucket =
  window_start :: int
  bucket_count :: nat

record limiter =
  per_minute :: nat
  buckets :: "(rl_key \<times> bucket) list"

definition limiter_new :: "nat \<Rightarrow> limiter" where
  "limiter_new n = \<lparr>per_minute = n, buckets = []\<rparr>"

definition rl_window :: int where
  "rl_window = seconds 60"

definition set_bucket :: "rl_key \<Rightarrow> bucket \<Rightarrow> (rl_key \<times> bucket) list \<Rightarrow> (rl_key \<times> bucket) list" where
  "set_bucket k b m = (k, b) # filter (\<lambda>(k', _). k' \<noteq> k) m"

definition check :: "limiter \<Rightarrow> int \<Rightarrow> uuid \<Rightarrow> string \<Rightarrow> bool \<times> limiter" where
  "check rl now ws ip =
     (if per_minute rl = 0 then (True, rl)
      else
        let m = (if length (buckets rl) > 10000
                 then filter (\<lambda>(_, b). now - window_start b < rl_window) (buckets rl)
                 else buckets rl);
            key = (ws, ip);
            b0 = (case map_of m key of Some b \<Rightarrow> b | None \<Rightarrow> \<lparr>window_start = now, bucket_count = 0\<rparr>);
            b1 = (if now - window_start b0 \<ge> rl_window
                  then \<lparr>window_start = now, bucket_count = 0\<rparr> else b0)
        in if bucket_count b1 \<ge> per_minute rl
           then (False, rl\<lparr>buckets := set_bucket key b1 m\<rparr>)
           else (True, rl\<lparr>buckets := set_bucket key (b1\<lparr>bucket_count := bucket_count b1 + 1\<rparr>) m\<rparr>))"

text \<open>A history of hits \<open>(instant, workspace, ip)\<close>, run through the limiter: the answers in
  order and the final state.\<close>

fun check_all :: "limiter \<Rightarrow> (int \<times> uuid \<times> string) list \<Rightarrow> bool list \<times> limiter" where
  "check_all rl [] = ([], rl)"
| "check_all rl ((now, ws, ip) # hs) =
     (case check rl now ws ip of (ok, rl') \<Rightarrow>
        case check_all rl' hs of (oks, rl'') \<Rightarrow> (ok # oks, rl''))"

subsection \<open>Facts\<close>

text \<open>The bucket a hit at \<open>now\<close> finds: an expired window counts as none.\<close>

definition live_bucket :: "limiter \<Rightarrow> int \<Rightarrow> rl_key \<Rightarrow> bucket option" where
  "live_bucket rl now k = (case map_of (buckets rl) k of
       None \<Rightarrow> None
     | Some b \<Rightarrow> if now - window_start b \<ge> rl_window then None else Some b)"

definition used_hits :: "limiter \<Rightarrow> int \<Rightarrow> rl_key \<Rightarrow> nat" where
  "used_hits rl now k = (case live_bucket rl now k of None \<Rightarrow> 0 | Some b \<Rightarrow> bucket_count b)"

lemma map_of_set_bucket: "map_of (set_bucket k b m) k' = (if k' = k then Some b else map_of m k')"
  by (induction m) (auto simp: set_bucket_def)

lemma map_of_filter_live:
  "distinct (map fst m) \<Longrightarrow>
   map_of (filter (\<lambda>(_, b). P b) m) k = (case map_of m k of Some b \<Rightarrow> if P b then Some b else None | None \<Rightarrow> None)"
proof (induction m)
  case Nil
  then show ?case by simp
next
  case (Cons x m)
  obtain k' b where x: "x = (k', b)" by force
  have "k' \<notin> fst ` set (filter (\<lambda>(_, b). P b) m)" "k' \<notin> fst ` set m" using Cons.prems x by auto
  then have "map_of (filter (\<lambda>(_, b). P b) m) k' = None" by (simp only: map_of_eq_None_iff not_False_eq_True)
  with Cons x show ?case by auto
qed

definition limiter_ok :: "limiter \<Rightarrow> bool" where
  "limiter_ok rl \<longleftrightarrow> distinct (map fst (buckets rl)) \<and>
     (\<forall>(k, b)\<in>set (buckets rl). bucket_count b \<le> per_minute rl)"

lemma limiter_ok_bucket: "limiter_ok rl \<Longrightarrow> map_of (buckets rl) k = Some b \<Longrightarrow> bucket_count b \<le> per_minute rl"
  by (auto simp: limiter_ok_def dest!: map_of_SomeD)

lemma limiter_new_ok: "limiter_ok (limiter_new n)"
  by (simp add: limiter_ok_def limiter_new_def)

lemma distinct_set_bucket: "distinct (map fst m) \<Longrightarrow> distinct (map fst (set_bucket k b m))"
  by (induction m) (auto simp: set_bucket_def)

lemma check_spec:
  assumes ok: "limiter_ok rl" and pos: "0 < per_minute rl"
  shows "fst (check rl now ws ip) \<longleftrightarrow> used_hits rl now (ws, ip) < per_minute rl"
    and "limiter_ok (snd (check rl now ws ip))"
    and "per_minute (snd (check rl now ws ip)) = per_minute rl"
    and "k \<noteq> (ws, ip) \<Longrightarrow> live_bucket (snd (check rl now ws ip)) now k = live_bucket rl now k"
    and "live_bucket (snd (check rl now ws ip)) now (ws, ip) =
      (let b = (case live_bucket rl now (ws, ip) of Some b \<Rightarrow> b
                | None \<Rightarrow> \<lparr>window_start = now, bucket_count = 0\<rparr>)
       in Some (if bucket_count b < per_minute rl then b\<lparr>bucket_count := bucket_count b + 1\<rparr> else b))"
proof -
  define m where "m = (if length (buckets rl) > 10000
     then filter (\<lambda>(_, b). now - window_start b < rl_window) (buckets rl) else buckets rl)"
  define b1 where "b1 = (case live_bucket rl now (ws, ip) of Some b \<Rightarrow> b
     | None \<Rightarrow> \<lparr>window_start = now, bucket_count = 0\<rparr>)"
  have w: "0 < rl_window" by (simp add: rl_window_def interval_defs)
  have d: "distinct (map fst (buckets rl))" using ok by (simp add: limiter_ok_def)
  have dm: "distinct (map fst m)" using d by (auto simp: m_def distinct_map_filter)
  have live_m: "(case map_of m k of None \<Rightarrow> None
      | Some b \<Rightarrow> if now - window_start b \<ge> rl_window then None else Some b) = live_bucket rl now k" for k
    using map_of_filter_live [OF d, of "\<lambda>b. now - window_start b < rl_window" k]
    by (auto simp: m_def live_bucket_def split: option.splits)
  have bk: "bucket_count b \<le> per_minute rl" if "(k, b) \<in> set m" for k b
    using that ok by (fastforce simp: m_def limiter_ok_def split: if_splits)
  have b1_def': "(let b0 = (case map_of m (ws, ip) of Some b \<Rightarrow> b | None \<Rightarrow> \<lparr>window_start = now, bucket_count = 0\<rparr>)
      in if now - window_start b0 \<ge> rl_window then \<lparr>window_start = now, bucket_count = 0\<rparr> else b0) = b1"
    using live_m [of "(ws, ip)"] w by (auto simp: b1_def split: option.splits if_splits)
  have b1_live: "now - window_start b1 < rl_window"
    using w by (auto simp: b1_def live_bucket_def split: option.splits if_splits)
  have b1_le: "bucket_count b1 \<le> per_minute rl"
    using limiter_ok_bucket [OF ok] by (auto simp: b1_def live_bucket_def split: option.splits if_splits)
  define b2 where "b2 = (if bucket_count b1 < per_minute rl then b1\<lparr>bucket_count := bucket_count b1 + 1\<rparr> else b1)"
  have step: "check rl now ws ip = (bucket_count b1 < per_minute rl, rl\<lparr>buckets := set_bucket (ws, ip) b2 m\<rparr>)"
    using pos b1_def' unfolding check_def b2_def m_def [symmetric] Let_def by auto
  show "fst (check rl now ws ip) \<longleftrightarrow> used_hits rl now (ws, ip) < per_minute rl"
    unfolding step using pos by (auto simp: b1_def used_hits_def split: option.splits)
  show "limiter_ok (snd (check rl now ws ip))"
    unfolding step using distinct_set_bucket [OF dm] bk b1_le
    by (auto simp: limiter_ok_def set_bucket_def b2_def)
  show "per_minute (snd (check rl now ws ip)) = per_minute rl"
    unfolding step by simp
  show "live_bucket (snd (check rl now ws ip)) now k = live_bucket rl now k" if "k \<noteq> (ws, ip)"
    unfolding step using live_m [of k] that by (simp add: live_bucket_def map_of_set_bucket)
  show "live_bucket (snd (check rl now ws ip)) now (ws, ip) =
      (let b = (case live_bucket rl now (ws, ip) of Some b \<Rightarrow> b
                | None \<Rightarrow> \<lparr>window_start = now, bucket_count = 0\<rparr>)
       in Some (if bucket_count b < per_minute rl then b\<lparr>bucket_count := bucket_count b + 1\<rparr> else b))"
    unfolding step b1_def [symmetric] Let_def b2_def [symmetric] using b1_live
    by (auto simp: live_bucket_def map_of_set_bucket b2_def)
qed

text \<open>The number of hits of a key that a history lets through.\<close>

definition admitted_hits :: "rl_key \<Rightarrow> (int \<times> uuid \<times> string) list \<Rightarrow> bool list \<Rightarrow> nat" where
  "admitted_hits k hs oks = length (filter (\<lambda>(h, ok). snd h = k \<and> ok) (zip hs oks))"

lemma live_bucket_later:
  "now \<le> now' \<Longrightarrow> live_bucket rl now' k = Some b \<Longrightarrow> live_bucket rl now k = Some b"
  by (auto simp: live_bucket_def split: option.splits if_splits)

lemma length_check_all: "length (fst (check_all rl hs)) = length hs"
  by (induction rl hs rule: check_all.induct) (auto split: prod.splits)

lemma live_bucket_window:
  assumes "cur \<le> now" and "now < t0 + rl_window"
    and "\<And>b. live_bucket rl cur k = Some b \<Longrightarrow> t0 \<le> window_start b"
  shows "live_bucket rl now k = live_bucket rl cur k"
proof (cases "live_bucket rl cur k")
  case None
  then show ?thesis using live_bucket_later [OF assms(1)] by (cases "live_bucket rl now k") auto
next
  case (Some b)
  with assms(2,3) show ?thesis
    by (auto simp: live_bucket_def split: option.splits if_splits)
qed

text \<open>One window, whatever is interleaved with it: exactly the remaining budget is let through.\<close>

lemma check_all_window:
  assumes "limiter_ok rl" and "0 < per_minute rl" and "t0 \<le> cur"
    and "\<And>b. live_bucket rl cur k = Some b \<Longrightarrow> t0 \<le> window_start b"
    and "sorted (cur # map fst hs)" and "\<And>h. h \<in> set hs \<Longrightarrow> fst h < t0 + rl_window"
  shows "admitted_hits k hs (fst (check_all rl hs)) =
    min (per_minute rl - used_hits rl cur k) (length (filter (\<lambda>h. snd h = k) hs))"
  using assms
proof (induction hs arbitrary: rl cur)
  case Nil
  then show ?case by (simp add: admitted_hits_def)
next
  case (Cons h hs)
  obtain now ws ip where h: "h = (now, ws, ip)" by (cases h)
  let ?rl = "snd (check rl now ws ip)"
  note spec = check_spec [OF Cons.prems(1,2), where now = now and ws = ws and ip = ip]
  have now: "cur \<le> now" "now < t0 + rl_window" "sorted (now # map fst hs)"
    using Cons.prems(5) Cons.prems(6) [of h] h by auto
  have same: "live_bucket rl now k = live_bucket rl cur k"
    by (rule live_bucket_window [OF now(1,2) Cons.prems(4)])
  have start: "t0 \<le> window_start b" if "live_bucket ?rl now k = Some b" for b
  proof (cases "k = (ws, ip)")
    case True
    with that spec(5) same Cons.prems(3,4) now(1) show ?thesis
      by (auto simp: Let_def split: option.splits if_splits)
  next
    case False
    with that spec(4) same Cons.prems(4) show ?thesis by simp
  qed
  have IH: "admitted_hits k hs (fst (check_all ?rl hs)) =
      min (per_minute rl - used_hits ?rl now k) (length (filter (\<lambda>h. snd h = k) hs))"
    using Cons.IH [OF spec(2) _ _ start now(3)] Cons.prems(2,3,6) now(1) spec(3) by auto
  have oks: "fst (check_all rl (h # hs)) = fst (check rl now ws ip) # fst (check_all ?rl hs)"
    by (simp add: h split: prod.splits)
  show ?case
  proof (cases "k = (ws, ip)")
    case True
    have "used_hits ?rl now k = (if used_hits rl cur k < per_minute rl then used_hits rl cur k + 1 else used_hits rl cur k)"
      using spec(5) True same Cons.prems(2) by (auto simp: used_hits_def Let_def split: option.splits)
    moreover have "fst (check rl now ws ip) \<longleftrightarrow> used_hits rl cur k < per_minute rl"
      using spec(1) True same by (simp add: used_hits_def)
    ultimately show ?thesis
      using IH oks True h by (auto simp: admitted_hits_def)
  next
    case False
    have "used_hits ?rl now k = used_hits rl cur k"
      using spec(4) [OF False] same by (simp add: used_hits_def)
    then show ?thesis using IH oks False h by (auto simp: admitted_hits_def)
  qed
qed

subsection \<open>Properties\<close>

text \<open>Budgets are exact and separate. Over any history of hits of any keys whose instants do
  not decrease and that fits in one window, started without a live bucket for the key, the
  limiter lets through exactly the first \<open>per_minute\<close> hits of that key (all, when there are
  fewer), however the hits of other keys are interleaved.\<close>

theorem rate_limit_window_budget:
  assumes "limiter_ok rl" and "0 < per_minute rl"
    and "live_bucket rl t0 k = None"
    and "sorted (t0 # map fst hs)" and "\<And>h. h \<in> set hs \<Longrightarrow> fst h < t0 + rl_window"
  shows "admitted_hits k hs (fst (check_all rl hs)) =
    min (per_minute rl) (length (filter (\<lambda>h. snd h = k) hs))"
  using check_all_window [of rl t0 t0 k hs] assms by (simp add: used_hits_def)

lemma rate_limit_window_budget_witness:
  "admitted_hits (1, ''a'') [(0, 1, ''a''), (5, 1, ''b''), (7, 1, ''a''), (9, 1, ''a'')]
     (fst (check_all (limiter_new 2) [(0, 1, ''a''), (5, 1, ''b''), (7, 1, ''a''), (9, 1, ''a'')])) = 2"
proof -
  let ?hs = "[(0, 1, ''a''), (5, 1, ''b''), (7, 1, ''a''), (9, 1, ''a'')] :: (int \<times> uuid \<times> string) list"
  have "admitted_hits (1, ''a'') ?hs (fst (check_all (limiter_new 2) ?hs)) =
      min (per_minute (limiter_new 2)) (length (filter (\<lambda>h. snd h = (1, ''a'')) ?hs))"
    by (rule rate_limit_window_budget [of _ 0])
      (auto simp: limiter_ok_def live_bucket_def rl_window_def interval_defs limiter_new_def)
  then show ?thesis by (simp add: limiter_new_def del: check_all.simps)
qed

text \<open>The window is fixed, not rolling: it starts with a key's first hit, so around its end a
  key is let through almost twice its budget within one second. With a budget of three, six
  hits at 0 s, 59 s, 59 s and 60 s (three times) are all allowed, five of them within the
  last second.\<close>

theorem rate_limit_window_not_rolling:
  "fst (check_all (limiter_new 3)
     [(0, 1, ip), (seconds 59, 1, ip), (seconds 59, 1, ip), (seconds 60, 1, ip),
      (seconds 60, 1, ip), (seconds 60, 1, ip), (seconds 60, 1, ip)])
   = [True, True, True, True, True, True, False]"
  by (simp add: limiter_new_def check_def set_bucket_def rl_window_def interval_defs Let_def)

end
