(* ===== verification/Push.thy ===== *)
theory Push
  imports Capability Choke Rate_Limit
begin

text \<open>
  \<open>POST /sync/push\<close>: \<open>crates/yapstack-server/src/sync/push.rs\<close>. The guardrails, the decoding of
  the batch, the transaction with its per-tenant counter row, and the handler around it. The
  specification is an append-only log per tenant; \<open>dense\<close> is the invariant that the stored
  sequence numbers are 1, 2, .. without a hole and the counter is one past the last.
  Sequence numbers are integers (a tenant does not reach \<open>2^63\<close> changesets).
\<close>

record push_change =
  pc_client :: uuid
  pc_client_seq :: int
  pc_ciphertext :: string
  pc_schema :: int
  pc_engine :: int

record push_ack =
  pa_client :: uuid
  pa_client_seq :: int
  pa_seq :: int
  pa_dedup :: bool

record push_response =
  pr_acks :: "push_ack list"
  pr_max :: int

definition max_push_changes :: nat where
  "max_push_changes = 1000"

definition max_push_bytes :: nat where
  "max_push_bytes = 5 * 1024 * 1024"

fun decode_changes :: "crates \<Rightarrow> nat \<Rightarrow> push_change list \<Rightarrow> app_error + bytes list" where
  "decode_changes X i [] = Inr []"
| "decode_changes X i (c # cs) = (case b64_dec X (pc_ciphertext c) of
       None \<Rightarrow> Inl (BadRequest (''change['' @ show_nat i @ ''].ciphertext: invalid base64''))
     | Some b \<Rightarrow> bind_result (decode_changes X (Suc i) cs) (\<lambda>bs. Inr (b # bs)))"

definition check_batch :: "crates \<Rightarrow> push_change list \<Rightarrow> app_error + bytes list" where
  "check_batch X changes =
     bind_result (decode_changes X 0 changes) (\<lambda>decoded.
       if sum_list (map length decoded) > max_push_bytes
       then Inl (BadRequest (''batch exceeds '' @ show_nat max_push_bytes @ '' bytes'')) else Inr decoded)"

subsection \<open>The walk over the batch\<close>

type_synonym change_key = "uuid \<times> int"

definition key_of :: "push_change \<Rightarrow> change_key" where
  "key_of c = (pc_client c, pc_client_seq c)"

definition row_key :: "changeset_row \<Rightarrow> change_key" where
  "row_key r = (cs_client r, cs_client_seq r)"

definition regression :: "push_change \<Rightarrow> app_error" where
  "regression c = Conflict (''client_seq regression: (client_id, client_seq)=('' @ show_uuid (pc_client c)
     @ '', '' @ show_int (pc_client_seq c) @ '') already stored with different content; ''
     @ ''the client counter regressed and must reseed'')"

definition ack_of :: "push_change \<Rightarrow> int \<Rightarrow> bool \<Rightarrow> push_ack" where
  "ack_of c seq dup = \<lparr>pa_client = pc_client c, pa_client_seq = pc_client_seq c, pa_seq = seq, pa_dedup = dup\<rparr>"

definition row_of :: "uuid \<Rightarrow> int \<Rightarrow> push_change \<Rightarrow> bytes \<Rightarrow> changeset_row" where
  "row_of t seq c b = \<lparr>cs_ws = t, cs_seq = seq, cs_client = pc_client c, cs_client_seq = pc_client_seq c,
     cs_ciphertext = b, cs_schema = pc_schema c, cs_engine = pc_engine c\<rparr>"

record walk_result =
  wk_acks :: "push_ack list"
  wk_rows :: "changeset_row list"
  wk_next :: int
  wk_bytes :: int

fun walk :: "uuid \<Rightarrow> (change_key \<times> int \<times> bytes) list \<Rightarrow> int \<Rightarrow> int \<Rightarrow> (push_change \<times> bytes) list
    \<Rightarrow> app_error + walk_result" where
  "walk t existing next_seq added [] =
     Inr \<lparr>wk_acks = [], wk_rows = [], wk_next = next_seq, wk_bytes = added\<rparr>"
| "walk t existing next_seq added ((c, b) # cs) = (case map_of existing (key_of c) of
       Some (seq, stored_ct) \<Rightarrow>
         if stored_ct \<noteq> b then Inl (regression c)
         else bind_result (walk t existing next_seq added cs) (\<lambda>w.
           Inr (w\<lparr>wk_acks := ack_of c seq True # wk_acks w\<rparr>))
     | None \<Rightarrow>
         bind_result (walk t ((key_of c, next_seq, b) # existing) (next_seq + 1)
             (sat_add_u64 added (int (length b))) cs) (\<lambda>w.
           Inr (w\<lparr>wk_acks := ack_of c next_seq False # wk_acks w,
                  wk_rows := row_of t next_seq c b # wk_rows w\<rparr>)))"

definition tenant_log :: "uuid \<Rightarrow> db \<Rightarrow> changeset_row list" where
  "tenant_log t d = filter (\<lambda>r. cs_ws r = t) (changesets d)"

definition existing_pairs :: "uuid \<Rightarrow> push_change list \<Rightarrow> db \<Rightarrow> (change_key \<times> int \<times> bytes) list" where
  "existing_pairs t changes d = map (\<lambda>r. (row_key r, cs_seq r, cs_ciphertext r))
     (filter (\<lambda>r. row_key r \<in> set (map key_of changes)) (tenant_log t d))"

subsection \<open>The transaction\<close>

definition seq_of :: "uuid \<Rightarrow> db \<Rightarrow> seq_row option" where
  "seq_of t d = fetch_optional (\<lambda>r. sq_ws r = t) (seqs d)"

definition lock_seq :: "uuid \<Rightarrow> int tx" where
  "lock_seq t =
     tx_seq (tx_bootstrap t (\<lambda>d. exists_row (\<lambda>r. sq_ws r = t) (seqs d))
        (\<lambda>d. d\<lparr>seqs := seqs d @ [\<lparr>sq_ws = t, sq_next = 1\<rparr>]\<rparr>))
       (tx_bind (tx_read (seq_of t)) (\<lambda>row. case row of
           None \<Rightarrow> tx_lift (Inl (Db ''no rows returned''))
         | Some r \<Rightarrow> tx_return (sq_next r)))"

text \<open>An \<open>INSERT\<close> into \<open>changesets\<close>, under its primary key, its unique constraint and its foreign
  key.\<close>

definition insert_changeset :: "changeset_row \<Rightarrow> unit tx" where
  "insert_changeset r = tx_seq
     (\<lambda>d. if exists_row (\<lambda>x. cs_ws x = cs_ws r \<and> (cs_seq x = cs_seq r \<or> row_key x = row_key r)) (changesets d)
           then Inl (Db ''duplicate key'') else Inr ((), d))
     (tx_seq (tx_fk_workspace (cs_ws r)) (tx_write (\<lambda>d. d\<lparr>changesets := changesets d @ [r]\<rparr>)))"

fun insert_changesets :: "changeset_row list \<Rightarrow> unit tx" where
  "insert_changesets [] = tx_return ()"
| "insert_changesets (r # rs) = tx_seq (insert_changeset r) (insert_changesets rs)"

definition advance_seq :: "uuid \<Rightarrow> int \<Rightarrow> unit tx" where
  "advance_seq t m = tx_write (\<lambda>d. d\<lparr>seqs := update_where (\<lambda>r. sq_ws r = t)
     (\<lambda>r. r\<lparr>sq_next := sq_next r + m\<rparr>) (seqs d)\<rparr>)"

definition push_tx :: "timestamp \<Rightarrow> auth_tenant \<Rightarrow> tenant_limits \<Rightarrow> string \<Rightarrow> int \<Rightarrow> push_change list
    \<Rightarrow> bytes list \<Rightarrow> (push_response \<times> nat) tx" where
  "push_tx now auth limits help_url batch_level changes decoded =
     (let t = au_tenant auth in
      tx_seq (require_active_caller t (au_client auth)) (
      tx_bind (lock_floor t) (\<lambda>levels.
      tx_seq (tx_lift (admit_publication levels batch_level)) (
      tx_bind (lock_seq t) (\<lambda>next_seq.
      tx_bind (\<lambda>d. tx_lift (walk t (existing_pairs t changes d) next_seq 0 (zip changes decoded)) d) (\<lambda>w.
      tx_seq (tx_when (wk_rows w \<noteq> []) (admit now t limits (wk_bytes w) help_url)) (
      tx_seq (insert_changesets (wk_rows w)) (
      tx_seq (tx_when (wk_rows w \<noteq> []) (advance_seq t (int (length (wk_rows w))))) (
      tx_return (\<lparr>pr_acks = wk_acks w, pr_max = wk_next w - 1\<rparr>, length (wk_rows w)))))))))))"

subsection \<open>The handler\<close>

text \<open>The parts of \<open>AppState\<close> a push touches, and what it answers: the response and the wakeup it
  publishes to the tenant's streams after the commit.\<close>

record push_state =
  ps_db :: db
  ps_limiter :: limiter

record push_env =
  pe_instant :: int
  pe_now :: timestamp
  pe_source :: limit_source
  pe_help_url :: string

definition push :: "crates \<Rightarrow> push_env \<Rightarrow> auth_tenant \<Rightarrow> string \<Rightarrow> header \<Rightarrow> push_change list \<Rightarrow> push_state
    \<Rightarrow> push_state \<times> (app_error + push_response) \<times> (uuid \<times> int) option" where
  "push X env auth ip batch_header changes s =
     (case check (ps_limiter s) (pe_instant env) (au_tenant auth) ip of (allowed, rl) \<Rightarrow>
      let s1 = s\<lparr>ps_limiter := rl\<rparr>
      in if \<not> allowed then (s1, Inl RateLimited, None)
         else if length changes > max_push_changes
         then (s1, Inl (BadRequest (''batch exceeds '' @ show_nat max_push_changes @ '' changes'')), None)
         else if changes = [] then (s1, Inr \<lparr>pr_acks = [], pr_max = 0\<rparr>, None)
         else (case bind_result (header_level batch_header ''x-yapstack-batch-capability'') (\<lambda>lvl.
                 bind_result (check_batch X changes) (\<lambda>decoded. Inr (lvl, decoded))) of
             Inl e \<Rightarrow> (s1, Inl e, None)
           | Inr (lvl, decoded) \<Rightarrow>
               let limits = limits_for (pe_source env) (Some (fetch_limits_row (au_tenant auth) (ps_db s1)))
               in (case run_tx (push_tx (pe_now env) auth limits (pe_help_url env) lvl changes decoded) (ps_db s1) of
                     (d', Inl e) \<Rightarrow> (s1\<lparr>ps_db := d'\<rparr>, Inl e, None)
                   | (d', Inr (resp, m)) \<Rightarrow>
                       (s1\<lparr>ps_db := d'\<rparr>, Inr resp,
                        if m > 0 then Some (au_tenant auth, pr_max resp) else None))))"

subsection \<open>The abstract log\<close>

type_synonym entry = "change_key \<times> bytes \<times> int \<times> int"

definition entry_of :: "push_change \<times> bytes \<Rightarrow> entry" where
  "entry_of p = (key_of (fst p), snd p, pc_schema (fst p), pc_engine (fst p))"

definition entry_row :: "changeset_row \<Rightarrow> entry" where
  "entry_row r = (row_key r, cs_ciphertext r, cs_schema r, cs_engine r)"

definition abs_log :: "uuid \<Rightarrow> db \<Rightarrow> entry list" where
  "abs_log t d = map entry_row (tenant_log t d)"

text \<open>Append what is new; a known key must come with the stored content.\<close>

fun spec_push :: "entry list \<Rightarrow> entry list \<Rightarrow> entry list option" where
  "spec_push log [] = Some log"
| "spec_push log (e # es) = (case map_of log (fst e) of
       None \<Rightarrow> spec_push (log @ [e]) es
     | Some v \<Rightarrow> if fst v = fst (snd e) then spec_push log es else None)"

text \<open>The sequence number of a key: its position in the log, from one.\<close>

fun position :: "change_key \<Rightarrow> entry list \<Rightarrow> nat" where
  "position k [] = 0"
| "position k (e # es) = (if fst e = k then 1 else Suc (position k es))"

definition dense :: "uuid \<Rightarrow> db \<Rightarrow> bool" where
  "dense t d \<longleftrightarrow>
     map cs_seq (tenant_log t d) = map int [1..<Suc (length (tenant_log t d))] \<and>
     distinct (map row_key (tenant_log t d)) \<and>
     (case seq_of t d of None \<Rightarrow> tenant_log t d = []
      | Some r \<Rightarrow> sq_next r = int (length (tenant_log t d)) + 1)"

lemma dense_empty: "dense t empty_db"
  by (simp add: dense_def tenant_log_def seq_of_def empty_db_def)

lemma spec_push_extends: "spec_push log es = Some log' \<Longrightarrow> \<exists>new. log' = log @ new"
  by (induction log es rule: spec_push.induct) (auto split: option.splits if_splits)

lemma map_of_append_None: "map_of xs k = None \<Longrightarrow> map_of (xs @ ys) k = map_of ys k"
  by (simp add: map_add_def split: option.split)

lemma map_of_append_Some: "map_of xs k = Some v \<Longrightarrow> map_of (xs @ ys) k = Some v"
  by (induction xs) auto

text \<open>The pairs the walk knows, against the log it has built so far.\<close>

definition knows :: "(change_key \<times> int \<times> bytes) list \<Rightarrow> entry list \<Rightarrow> change_key set \<Rightarrow> bool" where
  "knows ex log ks \<longleftrightarrow> (\<forall>k\<in>ks. map_of ex k =
     (case map_of log k of None \<Rightarrow> None | Some v \<Rightarrow> Some (int (position k log), fst v)))"

lemma position_append_known: "k \<in> fst ` set log \<Longrightarrow> position k (log @ new) = position k log"
  by (induction log) auto

lemma position_append_new: "k \<notin> fst ` set log \<Longrightarrow> position k (log @ [(k, v)]) = Suc (length log)"
  by (induction log) auto

lemma knows_extend:
  assumes "knows ex log ks" and "map_of log (fst e) = None"
  shows "knows ((fst e, int (length log) + 1, fst (snd e)) # ex) (log @ [e]) ks"
  unfolding knows_def
proof
  fix k assume k: "k \<in> ks"
  have kx: "map_of ex k = (case map_of log k of None \<Rightarrow> None | Some v \<Rightarrow> Some (int (position k log), fst v))"
    using assms(1) k by (simp add: knows_def)
  obtain v where e: "e = (fst e, v)" by (cases e) auto
  show "map_of ((fst e, int (length log) + 1, fst (snd e)) # ex) k =
      (case map_of (log @ [e]) k of None \<Rightarrow> None | Some v \<Rightarrow> Some (int (position k (log @ [e])), fst v))"
  proof (cases "k = fst e")
    case True
    have "fst e \<notin> fst ` set log" using assms(2) by (simp add: map_of_eq_None_iff)
    then have "position (fst e) (log @ [e]) = Suc (length log)"
      using position_append_new [of "fst e" log v] e by simp
    moreover have "map_of (log @ [e]) (fst e) = Some (snd e)"
      using map_of_append_None [OF assms(2), of "[e]"] e by (metis map_of_Cons_code(2) snd_conv)
    ultimately show ?thesis using True by simp
  next
    case False
    show ?thesis
    proof (cases "map_of log k")
      case None
      have "map_of (log @ [e]) k = None"
        using map_of_append_None [OF None, of "[e]"] False e by (metis map_of_Cons_code(1,2))
      with None kx False show ?thesis by (simp add: map_add_def)
    next
      case (Some w)
      then have "k \<in> fst ` set log" by (metis domI dom_map_of_conv_image_fst)
      with map_of_append_Some [OF Some, of "[e]"] Some kx False position_append_known [of k log "[e]"]
      show ?thesis by simp
    qed
  qed
qed

text \<open>The walk builds exactly what the specification appends.\<close>

lemma walk_spec:
  assumes "knows ex log (set (map (key_of \<circ> fst) cs))" and "next_seq = int (length log) + 1"
  shows "case spec_push log (map entry_of cs) of
      None \<Rightarrow> \<exists>c\<in>set cs. walk t ex next_seq added cs = Inl (regression (fst c))
    | Some log' \<Rightarrow> \<exists>w. walk t ex next_seq added cs = Inr w \<and>
        log' = log @ map entry_row (wk_rows w) \<and>
        (\<forall>r\<in>set (wk_rows w). cs_ws r = t) \<and>
        map cs_seq (wk_rows w) = map int [Suc (length log)..<Suc (length log')] \<and>
        wk_next w = int (length log') + 1 \<and>
        wk_bytes w = foldl sat_add_u64 added (map (int \<circ> length \<circ> cs_ciphertext) (wk_rows w)) \<and>
        map pa_seq (wk_acks w) = map (\<lambda>(c, b). int (position (key_of c) log')) cs \<and>
        map (\<lambda>a. (pa_client a, pa_client_seq a)) (wk_acks w) = map (key_of \<circ> fst) cs"
  using assms
proof (induction cs arbitrary: ex log next_seq added)
  case Nil
  then show ?case by simp
next
  case (Cons p cs)
  obtain c b where p: "p = (c, b)" by (cases p)
  have kc: "map_of ex (key_of c) = (case map_of log (key_of c) of None \<Rightarrow> None
      | Some v \<Rightarrow> Some (int (position (key_of c) log), fst v))"
    using Cons.prems(1) p by (simp add: knows_def)
  show ?case
  proof (cases "map_of log (key_of c)")
    case (Some v)
    note known = this
    have kn: "knows ex log (set (map (key_of \<circ> fst) cs))" using Cons.prems(1) by (simp add: knows_def)
    note IH = Cons.IH [OF kn Cons.prems(2), of added]
    have ex: "map_of ex (key_of c) = Some (int (position (key_of c) log), fst v)"
      using kc known by simp
    show ?thesis
    proof (cases "fst v = b")
      case False
      then show ?thesis using known ex p by (simp add: entry_of_def)
    next
      case True
      have pos: "position (key_of c) (log @ new) = position (key_of c) log" for new
        by (rule position_append_known) (metis known domI dom_map_of_conv_image_fst)
      have sp: "spec_push log (map entry_of (p # cs)) = spec_push log (map entry_of cs)"
        using known True p by (simp add: entry_of_def)
      have wk: "walk t ex next_seq added (p # cs) = bind_result (walk t ex next_seq added cs)
          (\<lambda>w. Inr (w\<lparr>wk_acks := ack_of c (int (position (key_of c) log)) True # wk_acks w\<rparr>))"
        using ex True p by simp
      show ?thesis
      proof (cases "spec_push log (map entry_of cs)")
        case None
        then obtain c' where "c' \<in> set cs" "walk t ex next_seq added cs = Inl (regression (fst c'))"
          using IH by auto
        with None show ?thesis unfolding sp wk by (auto intro!: bexI [of _ c'])
      next
        case (Some log')
        with IH obtain w where "walk t ex next_seq added cs = Inr w"
          and "log' = log @ map entry_row (wk_rows w)" and "\<forall>r\<in>set (wk_rows w). cs_ws r = t"
          and "map cs_seq (wk_rows w) = map int [Suc (length log)..<Suc (length log')]"
          and "wk_next w = int (length log') + 1"
          and "wk_bytes w = foldl sat_add_u64 added (map (int \<circ> length \<circ> cs_ciphertext) (wk_rows w))"
          and "map pa_seq (wk_acks w) = map (\<lambda>(c, b). int (position (key_of c) log')) cs"
          and "map (\<lambda>a. (pa_client a, pa_client_seq a)) (wk_acks w) = map (key_of \<circ> fst) cs" by auto
        with Some sp wk p pos show ?thesis by (simp add: ack_of_def key_of_def)
      qed
    qed
  next
    case None
    note new = this
    let ?e = "entry_of (c, b)"
    have fe: "fst ?e = key_of c" "fst (snd ?e) = b" by (simp_all add: entry_of_def)
    have kn: "knows ((key_of c, next_seq, b) # ex) (log @ [?e]) (set (map (key_of \<circ> fst) cs))"
      using knows_extend [of ex log "set (map (key_of \<circ> fst) cs)" ?e] Cons.prems new
      by (simp add: fe knows_def)
    have len: "next_seq + 1 = int (length (log @ [?e])) + 1" using Cons.prems(2) by simp
    note IH = Cons.IH [OF kn len, of "sat_add_u64 added (int (length b))"]
    have sp: "spec_push log (map entry_of (p # cs)) = spec_push (log @ [?e]) (map entry_of cs)"
      using new p by (simp add: fe)
    have wk: "walk t ex next_seq added (p # cs) =
        bind_result (walk t ((key_of c, next_seq, b) # ex) (next_seq + 1) (sat_add_u64 added (int (length b))) cs)
          (\<lambda>w. Inr (w\<lparr>wk_acks := ack_of c next_seq False # wk_acks w,
                 wk_rows := row_of t next_seq c b # wk_rows w\<rparr>))"
      using kc new p by simp
    show ?thesis
    proof (cases "spec_push (log @ [?e]) (map entry_of cs)")
      case None
      then obtain c' where "c' \<in> set cs" "walk t ((key_of c, next_seq, b) # ex) (next_seq + 1)
          (sat_add_u64 added (int (length b))) cs = Inl (regression (fst c'))"
        using IH by auto
      with None show ?thesis unfolding sp wk by (auto intro!: bexI [of _ c'])
    next
      case (Some log')
      with IH obtain w where
        w: "walk t ((key_of c, next_seq, b) # ex) (next_seq + 1) (sat_add_u64 added (int (length b))) cs = Inr w"
        and l: "log' = (log @ [?e]) @ map entry_row (wk_rows w)" and ws: "\<forall>r\<in>set (wk_rows w). cs_ws r = t"
        and sq: "map cs_seq (wk_rows w) = map int [Suc (length (log @ [?e]))..<Suc (length log')]"
        and nx: "wk_next w = int (length log') + 1"
        and bt: "wk_bytes w = foldl sat_add_u64 (sat_add_u64 added (int (length b))) (map (int \<circ> length \<circ> cs_ciphertext) (wk_rows w))"
        and ps: "map pa_seq (wk_acks w) = map (\<lambda>(c, b). int (position (key_of c) log')) cs"
        and ks: "map (\<lambda>a. (pa_client a, pa_client_seq a)) (wk_acks w) = map (key_of \<circ> fst) cs" by auto
      have kn': "key_of c \<notin> fst ` set log" using new by (simp add: map_of_eq_None_iff)
      have "position (key_of c) (log @ [?e]) = Suc (length log)"
        using position_append_new [OF kn', of "snd ?e"] by (simp add: entry_of_def)
      moreover have "position (key_of c) ((log @ [?e]) @ map entry_row (wk_rows w)) = position (key_of c) (log @ [?e])"
        by (rule position_append_known) (simp add: fe image_iff)
      ultimately have pos: "position (key_of c) log' = Suc (length log)" using l by simp
      have upt: "[Suc (length log)..<Suc (length log')] = Suc (length log) # [Suc (Suc (length log))..<Suc (length log')]"
        by (rule upt_conv_Cons) (simp add: l)
      have row: "entry_row (row_of t next_seq c b) = ?e"
        by (simp add: entry_row_def row_of_def row_key_def key_of_def entry_of_def)
      let ?w = "w\<lparr>wk_acks := ack_of c next_seq False # wk_acks w, wk_rows := row_of t next_seq c b # wk_rows w\<rparr>"
      have run: "walk t ex next_seq added (p # cs) = Inr ?w" unfolding wk w by simp
      have flds: "cs_ws (row_of t next_seq c b) = t" "cs_seq (row_of t next_seq c b) = int (Suc (length log))"
        "cs_ciphertext (row_of t next_seq c b) = b" "pa_seq (ack_of c next_seq False) = int (Suc (length log))"
        "(pa_client (ack_of c next_seq False), pa_client_seq (ack_of c next_seq False)) = key_of c"
        using Cons.prems(2) by (simp_all add: row_of_def ack_of_def key_of_def)
      have "log' = log @ map entry_row (wk_rows ?w)" using l row by simp
      moreover have "\<forall>r\<in>set (wk_rows ?w). cs_ws r = t" using ws flds(1) by simp
      moreover have "map cs_seq (wk_rows ?w) = map int [Suc (length log)..<Suc (length log')]"
        unfolding upt using sq flds(2) by (simp del: upt_Suc)
      moreover have "wk_bytes ?w = foldl sat_add_u64 added (map (int \<circ> length \<circ> cs_ciphertext) (wk_rows ?w))"
        using bt flds(3) by simp
      moreover have "map pa_seq (wk_acks ?w) = map (\<lambda>(c, b). int (position (key_of c) log')) (p # cs)"
        using ps pos flds(4) p by simp
      moreover have "map (\<lambda>a. (pa_client a, pa_client_seq a)) (wk_acks ?w) = map (key_of \<circ> fst) (p # cs)"
        using ks flds(5) p by simp
      moreover have "wk_next ?w = int (length log') + 1" using nx by simp
      ultimately show ?thesis unfolding sp Some run option.case by blast
    qed
  qed
qed

subsection \<open>The transaction's steps\<close>

definition with_seq :: "uuid \<Rightarrow> db \<Rightarrow> db" where
  "with_seq t d = (if exists_row (\<lambda>r. sq_ws r = t) (seqs d) then d
     else d\<lparr>seqs := seqs d @ [\<lparr>sq_ws = t, sq_next = 1\<rparr>]\<rparr>)"

definition next_of :: "uuid \<Rightarrow> db \<Rightarrow> int" where
  "next_of t d = (case seq_of t d of Some r \<Rightarrow> sq_next r | None \<Rightarrow> 1)"

lemma seq_of_with_seq:
  "seq_of t (with_seq t d) = Some (case seq_of t d of Some r \<Rightarrow> r | None \<Rightarrow> \<lparr>sq_ws = t, sq_next = 1\<rparr>)"
  by (auto simp: with_seq_def seq_of_def fetch_append fetch_optional_None_iff
      split: option.splits dest: fetch_optional_Some)

lemma with_seq_simps [simp]:
  "changesets (with_seq t d) = changesets d" "workspaces (with_seq t d) = workspaces d"
  "usage (with_seq t d) = usage d" "floors (with_seq t d) = floors d" "devices (with_seq t d) = devices d"
  by (simp_all add: with_seq_def)

lemma lock_seq_Inr:
  "lock_seq t d = Inr (n, d') \<longleftrightarrow>
     (exists_row (\<lambda>r. sq_ws r = t) (seqs d) \<or> (\<exists>w\<in>set (workspaces d). ws_id w = t)) \<and>
     d' = with_seq t d \<and> n = next_of t d"
proof -
  have boot: "tx_bootstrap t (\<lambda>d. exists_row (\<lambda>r. sq_ws r = t) (seqs d))
        (\<lambda>d. d\<lparr>seqs := seqs d @ [\<lparr>sq_ws = t, sq_next = 1\<rparr>]\<rparr>) d = Inr ((), d1) \<longleftrightarrow>
      (exists_row (\<lambda>r. sq_ws r = t) (seqs d) \<or> (\<exists>w\<in>set (workspaces d). ws_id w = t)) \<and> d1 = with_seq t d" for d1
    by (auto simp: tx_bootstrap_def result_simps with_seq_def)
  show ?thesis
    unfolding lock_seq_def tx_seq_eq_Inr boot tx_bind_eq_Inr tx_read_eq
    by (auto simp: tx_return_eq seq_of_with_seq next_of_def split: option.split)
qed

lemma insert_changeset_Inr:
  "insert_changeset r d = Inr (u, d') \<longleftrightarrow>
     (\<forall>x\<in>set (changesets d). cs_ws x = cs_ws r \<longrightarrow> cs_seq x \<noteq> cs_seq r \<and> row_key x \<noteq> row_key r) \<and>
     (\<exists>w\<in>set (workspaces d). ws_id w = cs_ws r) \<and> d' = d\<lparr>changesets := changesets d @ [r]\<rparr>"
  by (auto simp: insert_changeset_def tx_seq_eq_Inr tx_fk_eq_Inr tx_write_eq)

lemma insert_changesets_result:
  "insert_changesets rs d = Inr (u, d') \<Longrightarrow> d' = d\<lparr>changesets := changesets d @ rs\<rparr>"
proof (induction rs arbitrary: d)
  case Nil
  then show ?case by (simp add: tx_return_eq)
next
  case (Cons r rs)
  then obtain d1 where "insert_changeset r d = Inr ((), d1)" "insert_changesets rs d1 = Inr (u, d')"
    by (auto simp: tx_seq_eq_Inr)
  with Cons.IH [of d1] show ?case by (simp add: insert_changeset_Inr)
qed

lemma insert_changesets_defined:
  assumes "\<exists>w\<in>set (workspaces d). ws_id w = t" and "\<And>r. r \<in> set rs \<Longrightarrow> cs_ws r = t"
    and "distinct (map cs_seq (tenant_log t d @ rs))" and "distinct (map row_key (tenant_log t d @ rs))"
  shows "insert_changesets rs d = Inr ((), d\<lparr>changesets := changesets d @ rs\<rparr>)"
  using assms
proof (induction rs arbitrary: d)
  case Nil
  then show ?case by (simp add: tx_return_def)
next
  case (Cons r rs)
  let ?d1 = "d\<lparr>changesets := changesets d @ [r]\<rparr>"
  have "insert_changeset r d = Inr ((), ?d1)"
    using Cons.prems by (auto simp: insert_changeset_Inr tenant_log_def image_iff)
  moreover have "tenant_log t ?d1 = tenant_log t d @ [r]"
    using Cons.prems(2) by (simp add: tenant_log_def)
  ultimately show ?case
    using Cons.IH [of ?d1] Cons.prems by (simp add: tx_seq_def tx_bind_def)
qed

lemma map_of_filter_keys:
  "k \<in> K \<Longrightarrow> (\<And>r. fst (f r) = g r) \<Longrightarrow> map_of (map f (filter (\<lambda>r. g r \<in> K) rows)) k = map_of (map f rows) k"
proof (induction rows)
  case (Cons r rows)
  then show ?case by (cases "f r") (metis (no_types, lifting) filter.simps(2) fst_conv list.simps(9) map_of_Cons_code(2))
qed simp

lemma map_of_rows:
  "map cs_seq rows = map int [Suc n..<Suc n + length rows] \<Longrightarrow>
   map_of (map (\<lambda>r. (row_key r, cs_seq r, cs_ciphertext r)) rows) k =
     (case map_of (map entry_row rows) k of None \<Rightarrow> None
      | Some v \<Rightarrow> Some (int (n + position k (map entry_row rows)), fst v))"
proof (induction rows arbitrary: n)
  case (Cons r rows)
  have "[Suc n..<Suc n + length (r # rows)] = Suc n # [Suc (Suc n)..<Suc (Suc n) + length rows]"
    by (simp add: upt_conv_Cons del: upt_Suc)
  with Cons.prems have r: "cs_seq r = int (Suc n)" and rs: "map cs_seq rows = map int [Suc (Suc n)..<Suc (Suc n) + length rows]"
    by (simp_all del: upt_Suc)
  from Cons.IH [OF rs] r show ?case
    by (auto simp: entry_row_def split: option.splits)
qed simp

lemma knows_existing:
  assumes "dense t d"
  shows "knows (existing_pairs t changes d) (abs_log t d) (set (map key_of changes))"
  unfolding knows_def
proof
  fix k assume k: "k \<in> set (map key_of changes)"
  have "map cs_seq (tenant_log t d) = map int [Suc 0..<Suc 0 + length (tenant_log t d)]"
    using assms by (simp add: dense_def)
  from map_of_rows [OF this, of k]
  show "map_of (existing_pairs t changes d) k = (case map_of (abs_log t d) k of None \<Rightarrow> None
      | Some v \<Rightarrow> Some (int (position k (abs_log t d)), fst v))"
    using map_of_filter_keys [OF k, of "\<lambda>r. (row_key r, cs_seq r, cs_ciphertext r)" row_key "tenant_log t d"]
    by (auto simp: existing_pairs_def abs_log_def split: option.splits)
qed

lemma length_decode: "decode_changes X i cs = Inr bs \<Longrightarrow> length bs = length cs"
  by (induction cs arbitrary: i bs) (auto simp: result_simps split: option.splits)

lemma dense_next: "dense t d \<Longrightarrow> next_of t d = int (length (abs_log t d)) + 1"
  by (auto simp: dense_def next_of_def abs_log_def split: option.splits)

lemma tenant_log_simps [simp]:
  "tenant_log t (with_seq u d) = tenant_log t d" "tenant_log t (with_floor u d) = tenant_log t d"
  by (simp_all add: tenant_log_def)

lemma abs_log_simps [simp]: "abs_log t (with_seq u d) = abs_log t d" "abs_log t (with_floor u d) = abs_log t d"
  by (simp_all add: abs_log_def)

lemma seq_of_with_floor [simp]: "seq_of t (with_floor u d) = seq_of t d"
  by (simp add: seq_of_def)

lemma dense_with_floor: "dense t d \<Longrightarrow> dense t (with_floor u d)"
  by (simp add: dense_def del: upt_Suc split: option.splits)

lemma distinct_spec_push:
  "spec_push log es = Some log' \<Longrightarrow> distinct (map fst log) \<Longrightarrow> distinct (map fst log')"
  by (induction log es rule: spec_push.induct)
    (auto simp: map_of_eq_None_iff split: option.splits if_splits)

lemma push_tx_Inr:
  assumes "push_tx now auth limits h lvl changes decoded d = Inr ((resp, m), d')"
  shows "\<exists>levels w d3. active_device (au_tenant auth) (au_client auth) d \<and>
    lock_floor (au_tenant auth) d = Inr (levels, with_floor (au_tenant auth) d) \<and>
    admit_publication levels lvl = Inr () \<and>
    walk (au_tenant auth) (existing_pairs (au_tenant auth) changes d) (next_of (au_tenant auth) d) 0 (zip changes decoded) = Inr w \<and>
    (if wk_rows w = [] then d3 = with_seq (au_tenant auth) (with_floor (au_tenant auth) d)
     else admit now (au_tenant auth) limits (wk_bytes w) h (with_seq (au_tenant auth) (with_floor (au_tenant auth) d)) = Inr ((), d3)) \<and>
    resp = \<lparr>pr_acks = wk_acks w, pr_max = wk_next w - 1\<rparr> \<and> m = length (wk_rows w) \<and>
    d' = (let d4 = d3\<lparr>changesets := changesets d3 @ wk_rows w\<rparr> in
      if wk_rows w = [] then d4 else d4\<lparr>seqs := update_where (\<lambda>r. sq_ws r = au_tenant auth)
        (\<lambda>r. r\<lparr>sq_next := sq_next r + int (length (wk_rows w))\<rparr>) (seqs d4)\<rparr>)"
proof -
  let ?t = "au_tenant auth"
  from assms obtain levels d1 n d2 w d3 d4 where
    act: "active_device ?t (au_client auth) d" and lf: "lock_floor ?t d = Inr (levels, d1)"
    and adm: "admit_publication levels lvl = Inr ()" and ls: "lock_seq ?t d1 = Inr (n, d2)"
    and w: "walk ?t (existing_pairs ?t changes d2) n 0 (zip changes decoded) = Inr w"
    and ch: "tx_when (wk_rows w \<noteq> []) (admit now ?t limits (wk_bytes w) h) d2 = Inr ((), d3)"
    and ins: "insert_changesets (wk_rows w) d3 = Inr ((), d4)"
    and adv: "tx_when (wk_rows w \<noteq> []) (advance_seq ?t (int (length (wk_rows w)))) d4 = Inr ((), d')"
    and r: "resp = \<lparr>pr_acks = wk_acks w, pr_max = wk_next w - 1\<rparr>" "m = length (wk_rows w)"
    unfolding push_tx_def Let_def tx_bind_eq_Inr tx_seq_eq_Inr tx_lift_eq_Inr require_active_caller_Inr
    by (auto simp: tx_return_eq)
  have d1: "d1 = with_floor ?t d" using lf by (simp add: lock_floor_Inr)
  have d2: "d2 = with_seq ?t d1" "n = next_of ?t d1" using ls by (simp_all add: lock_seq_Inr)
  have d4: "d4 = d3\<lparr>changesets := changesets d3 @ wk_rows w\<rparr>" using ins by (rule insert_changesets_result)
  have "existing_pairs ?t changes d2 = existing_pairs ?t changes d" "n = next_of ?t d"
    by (simp_all add: existing_pairs_def d1 d2 next_of_def)
  with act lf adm w ch adv r d1 d2 d4 show ?thesis
    by (intro exI [of _ levels] exI [of _ w] exI [of _ d3])
      (auto simp: tx_when_eq_Inr advance_seq_def tx_write_eq Let_def split: if_splits)
qed

lemma fetch_seq_add:
  "fetch_optional (\<lambda>r. sq_ws r = t) (update_where (\<lambda>r. sq_ws r = t) (\<lambda>r. r\<lparr>sq_next := sq_next r + m\<rparr>) rows) =
     map_option (\<lambda>r. r\<lparr>sq_next := sq_next r + m\<rparr>) (fetch_optional (\<lambda>r. sq_ws r = t) rows)"
  by (rule fetch_update_same) simp

lemma push_tx_refines:
  assumes dense: "dense (au_tenant auth) d" and len: "length decoded = length changes"
    and run: "push_tx now auth limits h lvl changes decoded d = Inr ((resp, m), d')"
  shows "spec_push (abs_log (au_tenant auth) d) (map entry_of (zip changes decoded)) = Some (abs_log (au_tenant auth) d') \<and>
    dense (au_tenant auth) d' \<and>
    map pa_seq (pr_acks resp) = map (\<lambda>c. int (position (key_of c) (abs_log (au_tenant auth) d'))) changes \<and>
    map (\<lambda>a. (pa_client a, pa_client_seq a)) (pr_acks resp) = map key_of changes \<and>
    pr_max resp = int (length (abs_log (au_tenant auth) d')) \<and>
    length (abs_log (au_tenant auth) d') = length (abs_log (au_tenant auth) d) + m"
proof -
  let ?t = "au_tenant auth" and ?cs = "zip changes decoded"
  let ?log = "abs_log ?t d"
  from push_tx_Inr [OF run] obtain w d3 where
    wk: "walk ?t (existing_pairs ?t changes d) (next_of ?t d) 0 ?cs = Inr w"
    and d3: "if wk_rows w = [] then d3 = with_seq ?t (with_floor ?t d)
       else admit now ?t limits (wk_bytes w) h (with_seq ?t (with_floor ?t d)) = Inr ((), d3)"
    and resp: "resp = \<lparr>pr_acks = wk_acks w, pr_max = wk_next w - 1\<rparr>" and m: "m = length (wk_rows w)"
    and d': "d' = (let d4 = d3\<lparr>changesets := changesets d3 @ wk_rows w\<rparr> in
      if wk_rows w = [] then d4 else d4\<lparr>seqs := update_where (\<lambda>r. sq_ws r = ?t)
        (\<lambda>r. r\<lparr>sq_next := sq_next r + int (length (wk_rows w))\<rparr>) (seqs d4)\<rparr>)"
    by blast
  have keys: "set (map (key_of \<circ> fst) ?cs) = set (map key_of changes)"
    using len by (metis map_fst_zip map_map)
  have kn: "knows (existing_pairs ?t changes d) ?log (set (map (key_of \<circ> fst) ?cs))"
    unfolding keys by (rule knows_existing [OF dense])
  note sp = walk_spec [OF kn dense_next [OF dense], of ?t 0]
  obtain log' where log': "spec_push ?log (map entry_of ?cs) = Some log'"
    using sp wk by (cases "spec_push ?log (map entry_of ?cs)") auto
  with sp wk have l: "log' = ?log @ map entry_row (wk_rows w)" and ws: "\<forall>r\<in>set (wk_rows w). cs_ws r = ?t"
    and sq: "map cs_seq (wk_rows w) = map int [Suc (length ?log)..<Suc (length log')]"
    and nx: "wk_next w = int (length log') + 1"
    and ps: "map pa_seq (wk_acks w) = map (\<lambda>(c, b). int (position (key_of c) log')) ?cs"
    and ks: "map (\<lambda>a. (pa_client a, pa_client_seq a)) (wk_acks w) = map (key_of \<circ> fst) ?cs"
    by auto
  have d3': "changesets d3 = changesets d \<and> seqs d3 = seqs (with_seq ?t (with_floor ?t d))"
    using d3 admit_Inr(2) [of now ?t limits "wk_bytes w" h "with_seq ?t (with_floor ?t d)" d3]
    by (auto split: if_splits)
  have cs': "changesets d' = changesets d @ wk_rows w" using d3' by (simp add: d' Let_def)
  have "filter (\<lambda>r. cs_ws r = ?t) (wk_rows w) = wk_rows w" using ws by (simp add: filter_id_conv)
  then have tl: "tenant_log ?t d' = tenant_log ?t d @ wk_rows w"
    by (simp add: tenant_log_def cs')
  then have al: "abs_log ?t d' = log'" by (simp add: abs_log_def l)
  have seq': "seq_of ?t d' = Some ((case seq_of ?t d of Some r \<Rightarrow> r | None \<Rightarrow> \<lparr>sq_ws = ?t, sq_next = 1\<rparr>)
      \<lparr>sq_next := next_of ?t d + int (length (wk_rows w))\<rparr>)"
  proof -
    have "seq_of ?t d3 = Some (case seq_of ?t d of Some r \<Rightarrow> r | None \<Rightarrow> \<lparr>sq_ws = ?t, sq_next = 1\<rparr>)"
      using d3' seq_of_with_seq [of ?t "with_floor ?t d"] by (simp add: seq_of_def)
    then show ?thesis
      by (simp add: d' Let_def seq_of_def fetch_seq_add next_of_def split: option.splits)
  qed
  have lens: "length ?log = length (tenant_log ?t d)" by (simp add: abs_log_def)
  have "map cs_seq (tenant_log ?t d') = map int [1..<Suc (length (tenant_log ?t d'))]"
  proof -
    have "map cs_seq (tenant_log ?t d') = map int ([1..<Suc (length ?log)] @ [Suc (length ?log)..<Suc (length log')])"
      using dense sq by (simp add: tl dense_def lens del: upt_Suc)
    moreover have "[1..<Suc (length ?log)] @ [Suc (length ?log)..<Suc (length log')] = [1..<Suc (length log')]"
      using upt_add_eq_append [of 1 "Suc (length ?log)" "length log' - length ?log"] l by (simp del: upt_Suc)
    moreover have "length (tenant_log ?t d') = length log'" by (simp add: al [symmetric] abs_log_def)
    ultimately show ?thesis by (simp only:)
  qed
  moreover have "distinct (map row_key (tenant_log ?t d'))"
  proof -
    have "distinct (map fst ?log)" using dense by (simp add: dense_def abs_log_def entry_row_def comp_def)
    from distinct_spec_push [OF log' this] show ?thesis
      by (simp add: al [symmetric] abs_log_def entry_row_def comp_def)
  qed
  moreover have "case seq_of ?t d' of None \<Rightarrow> tenant_log ?t d' = []
      | Some r \<Rightarrow> sq_next r = int (length (tenant_log ?t d')) + 1"
    using dense_next [OF dense] by (simp add: seq' tl lens split: option.split)
  ultimately have "dense ?t d'" by (simp add: dense_def del: upt_Suc)
  moreover have "map (\<lambda>(c, b). int (position (key_of c) log')) ?cs = map (\<lambda>c. int (position (key_of c) log')) changes"
  proof -
    have "map (\<lambda>(c, b). int (position (key_of c) log')) ?cs = map (\<lambda>c. int (position (key_of c) log')) (map fst ?cs)"
      by (simp add: case_prod_beta comp_def)
    then show ?thesis using len by simp
  qed
  moreover have "map (key_of \<circ> fst) ?cs = map key_of changes"
    using len by (metis map_fst_zip map_map)
  ultimately show ?thesis
    using log' ps ks nx by (simp add: al resp m l)
qed

lemma frames_push_tx [frame_intros]:
  "frames (au_tenant auth) (push_tx now auth limits h lvl changes decoded)"
  unfolding frames_def
proof (intro allI impI)
  fix d x d'
  assume run: "push_tx now auth limits h lvl changes decoded d = Inr (x, d')"
  let ?t = "au_tenant auth"
  obtain resp m where x: "x = (resp, m)" by (cases x)
  from push_tx_Inr [OF run [unfolded x]] obtain w d3 where
    wk: "walk ?t (existing_pairs ?t changes d) (next_of ?t d) 0 (zip changes decoded) = Inr w"
    and d3: "if wk_rows w = [] then d3 = with_seq ?t (with_floor ?t d)
       else admit now ?t limits (wk_bytes w) h (with_seq ?t (with_floor ?t d)) = Inr ((), d3)"
    and d': "d' = (let d4 = d3\<lparr>changesets := changesets d3 @ wk_rows w\<rparr> in
      if wk_rows w = [] then d4 else d4\<lparr>seqs := update_where (\<lambda>r. sq_ws r = ?t)
        (\<lambda>r. r\<lparr>sq_next := sq_next r + int (length (wk_rows w))\<rparr>) (seqs d4)\<rparr>)"
    by blast
  have ws: "\<forall>r\<in>set (wk_rows w). cs_ws r = ?t" if "walk ?t ex n a cs = Inr w" for ex n a cs w
    using that
  proof (induction ?t ex n a cs arbitrary: w rule: walk.induct)
    case (2 existing next_seq added c b cs)
    then show ?case by (auto simp: result_simps row_of_def split: option.splits if_splits)
  qed simp
  have wsr: "\<forall>r\<in>set (wk_rows w). cs_ws r = ?t" using ws [OF wk] .
  have fl: "others_kept ?t d (with_floor ?t d)"
    unfolding with_floor_def by (auto intro!: others_kept_floors)
  have "others_kept ?t (with_floor ?t d) (with_seq ?t (with_floor ?t d))"
    by (auto simp: with_seq_def others_kept_def tenant_view_def)
  with fl have k2: "others_kept ?t d (with_seq ?t (with_floor ?t d))" by (rule others_kept_trans)
  have "others_kept ?t (with_seq ?t (with_floor ?t d)) d3"
    using d3 framesD [OF frames_admit, of now ?t limits "wk_bytes w" h] by (auto split: if_splits)
  with k2 have k3: "others_kept ?t d d3" by (rule others_kept_trans)
  have "filter (\<lambda>r. cs_ws r = t') (wk_rows w) = []" if "t' \<noteq> ?t" for t'
    using wsr that by (auto simp: filter_empty_conv)
  then have "others_kept ?t d3 d'"
    by (auto simp: d' Let_def others_kept_def tenant_view_def filter_update_other_tenant)
  with k3 show "others_kept ?t d d'" by (rule others_kept_trans)
qed

subsection \<open>When a push is accepted\<close>

definition entry_bytes :: "entry \<Rightarrow> int" where
  "entry_bytes e = int (length (fst (snd e)))"

lemma spec_push_bytes:
  "spec_push log es = Some log' \<Longrightarrow>
   sum_list (map entry_bytes log') \<le> sum_list (map entry_bytes log) + sum_list (map entry_bytes es)"
proof (induction log es arbitrary: log' rule: spec_push.induct)
  case (2 log e es)
  have nn: "0 \<le> entry_bytes e" by (simp add: entry_bytes_def)
  show ?case
  proof (cases "map_of log (fst e)")
    case None
    with "2.IH"(1) [OF None] "2.prems" show ?thesis by simp
  next
    case (Some v)
    with "2.prems" have "fst v = fst (snd e)" "spec_push log es = Some log'" by (auto split: if_splits)
    with "2.IH"(2) [OF Some] nn show ?thesis by simp
  qed
qed simp

lemma foldl_sat_add:
  "(\<And>x. x \<in> set xs \<Longrightarrow> 0 \<le> x) \<Longrightarrow> 0 \<le> a \<Longrightarrow> a + sum_list xs \<le> u64_max \<Longrightarrow>
   foldl sat_add_u64 a xs = a + sum_list xs"
proof (induction xs arbitrary: a)
  case (Cons x xs)
  have "0 \<le> sum_list xs" using Cons.prems(1) by (intro sum_list_nonneg) simp
  then have "sat_add_u64 a x = a + x" using Cons.prems(3) by (simp add: sat_add_u64_def)
  with Cons.IH [of "a + x"] Cons.prems show ?case by (simp add: add.assoc)
qed simp

text \<open>The gates in front of the walk, as one predicate.\<close>

definition push_admitted :: "auth_tenant \<Rightarrow> int \<Rightarrow> db \<Rightarrow> bool" where
  "push_admitted auth lvl d \<longleftrightarrow> active_device (au_tenant auth) (au_client auth) d \<and>
     lvl \<le> floor_level (au_tenant auth) d \<and> (\<exists>w\<in>set (workspaces d). ws_id w = au_tenant auth)"

lemma metered_row_cong: "usage d' = usage d \<Longrightarrow> metered_row now t l d' = metered_row now t l d"
  by (simp add: metered_row_def usage_of_def)

lemma push_tx_accepts:
  assumes gates: "push_admitted auth lvl d" and dense: "dense (au_tenant auth) d"
    and len: "length decoded = length changes" and size: "sum_list (map length decoded) \<le> max_push_bytes"
  shows "case spec_push (abs_log (au_tenant auth) d) (map entry_of (zip changes decoded)) of
      None \<Rightarrow> \<exists>c\<in>set changes. push_tx now auth limits h lvl changes decoded d = Inl (regression c)
    | Some log' \<Rightarrow>
        (let new = sum_list (map entry_bytes (drop (length (abs_log (au_tenant auth) d)) log'));
             row = metered_row now (au_tenant auth) limits d
         in log' = abs_log (au_tenant auth) d \<or> (fits new row \<and> should_admit limits new row) \<longrightarrow>
            (\<exists>r d'. push_tx now auth limits h lvl changes decoded d = Inr (r, d')))"
proof -
  let ?t = "au_tenant auth" and ?cs = "zip changes decoded"
  let ?log = "abs_log ?t d" and ?d2 = "with_seq ?t (with_floor ?t d)"
  let ?l = "\<lparr>required_sync_capability = floor_level ?t d, requested_sync_capability = requested_level ?t d\<rparr>"
  have ws: "\<exists>w\<in>set (workspaces d). ws_id w = ?t" and act: "active_device ?t (au_client auth) d"
    and lvl: "lvl \<le> floor_level ?t d" using gates by (auto simp: push_admitted_def)
  have s1: "require_active_caller ?t (au_client auth) d = Inr ((), d)" using act by (simp add: require_active_caller_Inr)
  have s2: "lock_floor ?t d = Inr (?l, with_floor ?t d)" using ws by (simp add: lock_floor_Inr)
  have s3: "tx_lift (admit_publication ?l lvl) (with_floor ?t d) = Inr ((), with_floor ?t d)"
    using lvl by (simp add: tx_lift_def admit_publication_def)
  have s4: "lock_seq ?t (with_floor ?t d) = Inr (next_of ?t d, ?d2)"
    using ws by (simp add: lock_seq_Inr next_of_def)
  have ep: "existing_pairs ?t changes ?d2 = existing_pairs ?t changes d" by (simp add: existing_pairs_def)
  have keys: "set (map (key_of \<circ> fst) ?cs) = set (map key_of changes)"
    using len by (metis map_fst_zip map_map)
  have kn: "knows (existing_pairs ?t changes d) ?log (set (map (key_of \<circ> fst) ?cs))"
    unfolding keys by (rule knows_existing [OF dense])
  note sp = walk_spec [OF kn dense_next [OF dense], of ?t 0]
  define rest where "rest w = tx_seq (tx_when (wk_rows w \<noteq> []) (admit now ?t limits (wk_bytes w) h)) (
      tx_seq (insert_changesets (wk_rows w)) (
      tx_seq (tx_when (wk_rows w \<noteq> []) (advance_seq ?t (int (length (wk_rows w))))) (
      tx_return (\<lparr>pr_acks = wk_acks w, pr_max = wk_next w - 1\<rparr>, length (wk_rows w)))))" for w :: walk_result
  have run: "push_tx now auth limits h lvl changes decoded d =
      tx_bind (tx_lift (walk ?t (existing_pairs ?t changes d) (next_of ?t d) 0 ?cs)) rest ?d2"
    unfolding push_tx_def Let_def tx_seq_def rest_def [unfolded tx_seq_def, symmetric]
    by (simp add: tx_bind_def s1 s2 s3 s4 ep)
  show ?thesis
  proof (cases "spec_push ?log (map entry_of ?cs)")
    case None
    with sp obtain p where p: "p \<in> set ?cs" "walk ?t (existing_pairs ?t changes d) (next_of ?t d) 0 ?cs = Inl (regression (fst p))"
      by auto
    then have "fst p \<in> set changes" by (metis fst_conv in_set_zipE prod.collapse)
    with p(2) show ?thesis unfolding None run by (auto simp: tx_bind_def tx_lift_def)
  next
    case (Some log')
    with sp obtain w where w: "walk ?t (existing_pairs ?t changes d) (next_of ?t d) 0 ?cs = Inr w"
      and l: "log' = ?log @ map entry_row (wk_rows w)" and wsr: "\<forall>r\<in>set (wk_rows w). cs_ws r = ?t"
      and sq: "map cs_seq (wk_rows w) = map int [Suc (length ?log)..<Suc (length log')]"
      and bt: "wk_bytes w = foldl sat_add_u64 0 (map (int \<circ> length \<circ> cs_ciphertext) (wk_rows w))"
      by auto
    let ?new = "sum_list (map entry_bytes (drop (length ?log) log'))"
    have new: "?new = sum_list (map (int \<circ> length \<circ> cs_ciphertext) (wk_rows w))"
      by (simp add: l entry_bytes_def entry_row_def comp_def)
    have "sum_list (map entry_bytes log') \<le> sum_list (map entry_bytes ?log) + sum_list (map entry_bytes (map entry_of ?cs))"
      by (rule spec_push_bytes [OF Some])
    moreover have "sum_list (map entry_bytes (map entry_of ?cs)) = int (sum_list (map length decoded))"
    proof -
      have "map entry_bytes (map entry_of ?cs) = map (int \<circ> length) (map snd ?cs)"
        by (simp add: entry_bytes_def entry_of_def)
      moreover have "sum_list (map (int \<circ> length) ys) = int (sum_list (map length ys))" for ys :: "bytes list"
        by (induction ys) auto
      ultimately show ?thesis using len by simp
    qed
    ultimately have "?new \<le> int max_push_bytes" using size l by simp
    then have "wk_bytes w = ?new"
      unfolding new bt by (subst foldl_sat_add) (auto simp: max_push_bytes_def machine_int_defs)
    note nb = this
    have dist: "distinct (map row_key (tenant_log ?t d @ wk_rows w))"
    proof -
      have "distinct (map fst ?log)" using dense by (simp add: dense_def abs_log_def entry_row_def comp_def)
      from distinct_spec_push [OF Some this] show ?thesis
        by (simp add: l abs_log_def entry_row_def comp_def)
    qed
    have dseq: "distinct (map cs_seq (tenant_log ?t d @ wk_rows w))"
    proof -
      have "map cs_seq (tenant_log ?t d) = map int [1..<Suc (length ?log)]"
        using dense by (simp add: dense_def abs_log_def)
      then show ?thesis using sq by (auto simp: distinct_map inj_on_def simp del: upt_Suc)
    qed
    have go: "\<exists>r d'. rest w ?d2 = Inr (r, d')"
      if ok: "log' = ?log \<or> (fits ?new (metered_row now ?t limits d) \<and> should_admit limits ?new (metered_row now ?t limits d))"
    proof -
      have "\<exists>d3. tx_when (wk_rows w \<noteq> []) (admit now ?t limits (wk_bytes w) h) ?d2 = Inr ((), d3) \<and>
          changesets d3 = changesets d \<and> workspaces d3 = workspaces d"
      proof (cases "wk_rows w = []")
        case True
        then show ?thesis by (simp add: tx_when_def tx_return_def)
      next
        case False
        then have "fits ?new (metered_row now ?t limits ?d2)" "should_admit limits ?new (metered_row now ?t limits ?d2)"
          using ok l metered_row_cong [of ?d2 d now ?t limits] by auto
        from admit_result(1) [OF _ this, of h] ws obtain d3 where d3: "admit now ?t limits ?new h ?d2 = Inr ((), d3)"
          by auto
        from admit_Inr(2) [OF d3] d3 False nb show ?thesis by (auto simp: tx_when_def)
      qed
      then obtain d3 where d3: "tx_when (wk_rows w \<noteq> []) (admit now ?t limits (wk_bytes w) h) ?d2 = Inr ((), d3)"
        "changesets d3 = changesets d" "workspaces d3 = workspaces d" by blast
      have "tenant_log ?t d3 = tenant_log ?t d" using d3(2) by (simp add: tenant_log_def)
      with insert_changesets_defined [of d3 ?t "wk_rows w"] ws wsr dseq dist d3(3)
      have "insert_changesets (wk_rows w) d3 = Inr ((), d3\<lparr>changesets := changesets d3 @ wk_rows w\<rparr>)" by simp
      with d3(1) show ?thesis
        unfolding rest_def tx_seq_def tx_bind_def
        by (simp add: advance_seq_def tx_when_def tx_write_def tx_return_def)
    qed
    show ?thesis unfolding run Some option.case Let_def
      using go w by (auto simp: tx_bind_def tx_lift_def)
  qed
qed

lemma push_tx_keeps:
  assumes "push_tx now auth limits h lvl changes decoded d = Inr ((resp, m), d')"
  shows "workspaces d' = workspaces d" and "devices d' = devices d"
    and "floor_level t d' = floor_level t (with_floor (au_tenant auth) d)"
proof -
  let ?d2 = "with_seq (au_tenant auth) (with_floor (au_tenant auth) d)"
  from push_tx_Inr [OF assms] obtain w :: walk_result and d3 where
    d3: "if wk_rows w = [] then d3 = ?d2 else admit now (au_tenant auth) limits (wk_bytes w) h ?d2 = Inr ((), d3)"
    and d': "d' = (let d4 = d3\<lparr>changesets := changesets d3 @ wk_rows w\<rparr> in
      if wk_rows w = [] then d4 else d4\<lparr>seqs := update_where (\<lambda>r. sq_ws r = au_tenant auth)
        (\<lambda>r. r\<lparr>sq_next := sq_next r + int (length (wk_rows w))\<rparr>) (seqs d4)\<rparr>)"
    by blast
  have "\<exists>rows. d3 = ?d2\<lparr>usage := rows\<rparr>"
  proof (cases "wk_rows w = []")
    case True
    with d3 show ?thesis by (intro exI [of _ "usage ?d2"]) simp
  next
    case False
    with d3 have "admit now (au_tenant auth) limits (wk_bytes w) h ?d2 = Inr ((), d3)" by simp
    from admit_Inr(2) [OF this] show ?thesis by blast
  qed
  then obtain rows where "d3 = ?d2\<lparr>usage := rows\<rparr>" by blast
  then show "workspaces d' = workspaces d" "devices d' = devices d"
    "floor_level t d' = floor_level t (with_floor (au_tenant auth) d)"
    by (simp_all add: d' Let_def floor_level_def floor_of_def)
qed

lemma spec_push_keys:
  "spec_push log es = Some log' \<Longrightarrow> e \<in> set es \<Longrightarrow>
   map_of log' (fst e) \<noteq> None \<and> fst (the (map_of log' (fst e))) = fst (snd e)"
proof (induction log es arbitrary: e rule: spec_push.induct)
  case (1 log)
  then show ?case by simp
next
  case (2 log x es)
  show ?case
  proof (cases "map_of log (fst x)")
    case None
    with 2 have sp: "spec_push (log @ [x]) es = Some log'" by simp
    show ?thesis
    proof (cases "e = x")
      case True
      have known: "map_of (log @ [x]) (fst x) = Some (snd x)"
        using None by (cases x) (simp add: map_add_def)
      obtain new where l: "log' = (log @ [x]) @ new" using spec_push_extends [OF sp] by blast
      have "map_of log' (fst x) = Some (snd x)" unfolding l by (rule map_of_append_Some [OF known])
      then show ?thesis using True by simp
    next
      case False
      with 2 None sp show ?thesis by simp
    qed
  next
    case (Some v)
    with 2 have v: "fst v = fst (snd x)" and sp: "spec_push log es = Some log'" by (auto split: if_splits)
    show ?thesis
    proof (cases "e = x")
      case True
      obtain new where l: "log' = log @ new" using spec_push_extends [OF sp] by blast
      have "map_of log' (fst x) = Some v" unfolding l by (rule map_of_append_Some [OF Some])
      then show ?thesis using True v by simp
    next
      case False
      with 2 Some v sp show ?thesis by simp
    qed
  qed
qed

lemma spec_push_known:
  "(\<And>e. e \<in> set es \<Longrightarrow> \<exists>v. map_of log (fst e) = Some v \<and> fst v = fst (snd e)) \<Longrightarrow> spec_push log es = Some log"
proof (induction es)
  case (Cons e es)
  from Cons.prems [of e] obtain v where "map_of log (fst e) = Some v" "fst v = fst (snd e)" by auto
  with Cons show ?case by simp
qed simp

lemma spec_push_idem:
  assumes "spec_push log es = Some log'"
  shows "spec_push log' es = Some log'"
proof (rule spec_push_known)
  fix e assume "e \<in> set es"
  from spec_push_keys [OF assms this] show "\<exists>v. map_of log' (fst e) = Some v \<and> fst v = fst (snd e)"
    by (cases "map_of log' (fst e)") auto
qed

lemma walk_all_dup: "walk t ex n a cs = Inr w \<Longrightarrow> wk_rows w = [] \<Longrightarrow> \<forall>k\<in>set (wk_acks w). pa_dedup k"
proof (induction cs arbitrary: ex n a w)
  case (Cons p cs)
  obtain c b where p: "p = (c, b)" by (cases p)
  show ?case
  proof (cases "map_of ex (key_of c)")
    case None
    with Cons.prems show ?thesis by (auto simp: p bind_result_eq_Inr)
  next
    case (Some v)
    obtain seq ct where v: "v = (seq, ct)" by (cases v)
    from Cons.prems Some obtain w' where "walk t ex n a cs = Inr w'"
      and w: "w = w'\<lparr>wk_acks := ack_of c seq True # wk_acks w'\<rparr>"
      by (auto simp: p v bind_result_eq_Inr split: if_splits)
    with Cons.IH [of ex n a w'] Cons.prems(2) show ?thesis by (simp add: w ack_of_def)
  qed
qed simp

text \<open>What an answered push means, with the keys its acks name.\<close>

lemma push_handler:
  assumes dense: "dense (au_tenant auth) (ps_db s)"
    and run: "push X env auth ip hdr changes s = (s', res, wake)"
  shows "dense (au_tenant auth) (ps_db s') \<and>
    (case res of
       Inl e \<Rightarrow> ps_db s' = ps_db s \<and> wake = None
     | Inr resp \<Rightarrow> map (\<lambda>a. (pa_client a, pa_client_seq a)) (pr_acks resp) = map key_of changes \<and> (changes \<noteq> [] \<longrightarrow> (\<exists>decoded.
         map (\<lambda>c. b64_dec X (pc_ciphertext c)) changes = map Some decoded \<and>
         spec_push (abs_log (au_tenant auth) (ps_db s)) (map entry_of (zip changes decoded)) =
           Some (abs_log (au_tenant auth) (ps_db s')) \<and>
         map pa_seq (pr_acks resp) =
           map (\<lambda>c. int (position (key_of c) (abs_log (au_tenant auth) (ps_db s')))) changes \<and>
         pr_max resp = int (length (abs_log (au_tenant auth) (ps_db s'))) \<and>
         wake = (if length (abs_log (au_tenant auth) (ps_db s)) < length (abs_log (au_tenant auth) (ps_db s'))
                 then Some (au_tenant auth, pr_max resp) else None))))"
proof -
  have dec: "decode_changes X i cs = Inr bs \<Longrightarrow> map (\<lambda>c. b64_dec X (pc_ciphertext c)) cs = map Some bs" for i cs bs
    by (induction cs arbitrary: i bs) (auto simp: result_simps split: option.splits)
  obtain ok rl where chk: "check (ps_limiter s) (pe_instant env) (au_tenant auth) ip = (ok, rl)" by force
  let ?s1 = "s\<lparr>ps_limiter := rl\<rparr>"
  let ?gate = "bind_result (header_level hdr ''x-yapstack-batch-capability'') (\<lambda>lvl.
                 bind_result (check_batch X changes) (\<lambda>decoded. Inr (lvl, decoded)))"
  show ?thesis
  proof (cases "\<not> ok \<or> length changes > max_push_changes \<or> changes = []")
    case True
    with run chk dense show ?thesis by (auto simp: push_def Let_def split: if_splits)
  next
    case False
    show ?thesis
    proof (cases ?gate)
      case (Inl e)
      with run chk dense False show ?thesis by (auto simp: push_def Let_def)
    next
      case (Inr p)
      obtain lvl decoded where p: "p = (lvl, decoded)" by (cases p)
      with Inr have d: "decode_changes X 0 changes = Inr decoded"
        by (auto simp: check_batch_def result_simps split: if_splits)
      define limits where "limits = limits_for (pe_source env) (Some (fetch_limits_row (au_tenant auth) (ps_db s)))"
      let ?tx = "push_tx (pe_now env) auth limits (pe_help_url env) lvl changes decoded"
      show ?thesis
      proof (cases "?tx (ps_db s)")
        case (Inl e)
        with run chk dense False Inr p show ?thesis
          by (auto simp: push_def Let_def run_tx_def limits_def)
      next
        case (Inr y)
        obtain resp m d' where y: "y = ((resp, m), d')" by (metis prod.exhaust)
        with Inr have tx: "?tx (ps_db s) = Inr ((resp, m), d')" by simp
        have res: "s' = ?s1\<lparr>ps_db := d'\<rparr>" "res = Inr resp"
          "wake = (if m > 0 then Some (au_tenant auth, pr_max resp) else None)"
          using run chk False \<open>?gate = Inr p\<close> p tx
          by (auto simp: push_def Let_def run_tx_def limits_def)
        from push_tx_refines [OF dense length_decode [OF d] tx] dec [OF d]
        show ?thesis by (auto simp: res)
      qed
    qed
  qed
qed

subsection \<open>Properties\<close>

text \<open>C1. Push implements the append-only log. From a dense log, a push that answers with acks has
  decoded the whole batch and appended exactly its new changes, each key once, in batch order;
  the tenant's numbers stay 1, 2, .. without a hole, every ack carries the position of its key
  in the log, the reported maximum is the log's length, and a wakeup with it is published
  exactly when the log grew. A push that answers with an error leaves the database as it was and
  wakes nobody.\<close>

theorem push_refines_append_log:
  assumes dense: "dense (au_tenant auth) (ps_db s)"
    and run: "push X env auth ip hdr changes s = (s', res, wake)"
  shows "dense (au_tenant auth) (ps_db s') \<and>
    (case res of
       Inl e \<Rightarrow> ps_db s' = ps_db s \<and> wake = None
     | Inr resp \<Rightarrow> changes \<noteq> [] \<longrightarrow> (\<exists>decoded.
         map (\<lambda>c. b64_dec X (pc_ciphertext c)) changes = map Some decoded \<and>
         spec_push (abs_log (au_tenant auth) (ps_db s)) (map entry_of (zip changes decoded)) =
           Some (abs_log (au_tenant auth) (ps_db s')) \<and>
         map pa_seq (pr_acks resp) =
           map (\<lambda>c. int (position (key_of c) (abs_log (au_tenant auth) (ps_db s')))) changes \<and>
         pr_max resp = int (length (abs_log (au_tenant auth) (ps_db s'))) \<and>
         wake = (if length (abs_log (au_tenant auth) (ps_db s)) < length (abs_log (au_tenant auth) (ps_db s'))
                 then Some (au_tenant auth, pr_max resp) else None)))"
  using push_handler [OF assms] dense by (cases res) simp_all

definition push_db :: db where
  "push_db = empty_db\<lparr>workspaces := [\<lparr>ws_id = 1, ws_name = []\<rparr>], devices := [sample_device 7 DevActive]\<rparr>"

definition sample_change :: "int \<Rightarrow> string \<Rightarrow> push_change" where
  "sample_change n ct = \<lparr>pc_client = 7, pc_client_seq = n, pc_ciphertext = ct, pc_schema = 1, pc_engine = 1\<rparr>"

definition sample_env :: push_env where
  "sample_env = \<lparr>pe_instant = 0, pe_now = 0, pe_source = AllowAll, pe_help_url = []\<rparr>"

definition push_state0 :: push_state where
  "push_state0 = \<lparr>ps_db = push_db, ps_limiter = limiter_new 0\<rparr>"

lemma dense_push_db: "dense 1 push_db"
  by (simp add: dense_def tenant_log_def seq_of_def push_db_def empty_db_def)

lemma sample_tx_runs:
  assumes "length decoded = length changes" and "sum_list (map length decoded) \<le> max_push_bytes"
    and "spec_push [] (map entry_of (zip changes decoded)) = Some log'"
    and "sum_list (map entry_bytes log') \<le> i64_max" and "0 \<le> sum_list (map entry_bytes log')"
  shows "\<exists>r d'. push_tx 0 sample_auth unlimited [] 0 changes decoded push_db = Inr (r, d')"
proof -
  have t: "au_tenant sample_auth = 1" by (simp add: sample_auth_def)
  have empty: "abs_log 1 push_db = []" by (simp add: abs_log_def tenant_log_def push_db_def empty_db_def)
  have gates: "push_admitted sample_auth 0 push_db"
    by (simp add: push_admitted_def t active_device_def device_of_def floor_level_def floor_of_def
        push_db_def empty_db_def) (simp add: sample_auth_def sample_device_def)
  have row: "metered_row 0 1 unlimited push_db = new_usage 1 0"
    by (simp add: metered_row_def usage_of_def push_db_def empty_db_def unlimited_def Let_def)
  have "fits (sum_list (map entry_bytes log')) (new_usage 1 0)"
    using assms(4,5) by (simp add: fits_def new_usage_def)
  moreover have "should_admit unlimited n r" for n r by (simp add: should_admit_def unlimited_def)
  ultimately show ?thesis
    using push_tx_accepts [OF gates _ assms(1,2), of 0 unlimited "[]"] assms(3) dense_push_db
    by (simp add: t empty row Let_def)
qed

lemma sample_push_runs:
  "\<exists>s' resp. push toy_crates sample_env sample_auth ''ip'' None
     [sample_change 1 ''a'', sample_change 2 ''b'', sample_change 1 ''a''] push_state0 = (s', Inr resp, Some (1, pr_max resp))"
proof -
  let ?cs = "[sample_change 1 ''a'', sample_change 2 ''b'', sample_change 1 ''a'']"
  let ?ds = "[[97], [98], [97]] :: bytes list"
  let ?log = "[((7, 1), [97], 1, 1), ((7, 2), [98], 1, 1)] :: entry list"
  have t: "au_tenant sample_auth = 1" by (simp add: sample_auth_def)
  have chk: "check (limiter_new 0) n ws ip = (True, limiter_new 0)" for n ws ip
    by (simp add: check_def limiter_new_def)
  have dec: "check_batch toy_crates ?cs = Inr ?ds"
    by (simp add: check_batch_def sample_change_def toy_crates_def max_push_bytes_def)
  have sp: "spec_push [] (map entry_of (zip ?cs ?ds)) = Some ?log"
    by (simp add: entry_of_def key_of_def sample_change_def)
  have "sum_list (map length ?ds) \<le> max_push_bytes" by (simp add: max_push_bytes_def)
  from sample_tx_runs [OF _ this sp] obtain r d' where
    tx: "push_tx 0 sample_auth unlimited [] 0 ?cs ?ds push_db = Inr (r, d')"
    by (auto simp: entry_bytes_def machine_int_defs)
  obtain resp m where r: "r = (resp, m)" by (cases r)
  have dn: "dense (au_tenant sample_auth) push_db" by (simp add: t dense_push_db)
  have l: "length ?ds = length ?cs" by simp
  note ref = push_tx_refines [OF dn l tx [unfolded r], unfolded t]
  have empty: "abs_log 1 push_db = []" by (simp add: abs_log_def tenant_log_def push_db_def empty_db_def)
  from conjunct1 [OF ref] have "abs_log 1 d' = ?log" unfolding empty sp by simp
  moreover have "length (abs_log 1 d') = length (abs_log 1 push_db) + m" using ref by blast
  ultimately have "m = 2" by (simp add: empty)
  with tx r dec show ?thesis
    by (simp add: push_def chk push_state0_def sample_env_def limits_for_def header_level_def run_tx_def
        max_push_changes_def t)
qed

lemma push_refines_append_log_witness:
  "\<exists>s' resp. push toy_crates sample_env sample_auth ''ip'' None
     [sample_change 1 ''a'', sample_change 2 ''b'', sample_change 1 ''a''] push_state0 = (s', Inr resp, Some (1, pr_max resp)) \<and>
     dense 1 (ps_db s') \<and> map pa_seq (pr_acks resp) = [1, 2, 1]"
proof -
  let ?cs = "[sample_change 1 ''a'', sample_change 2 ''b'', sample_change 1 ''a'']"
  obtain s' resp where run: "push toy_crates sample_env sample_auth ''ip'' None ?cs push_state0 =
      (s', Inr resp, Some (1, pr_max resp))"
    using sample_push_runs by blast
  have t: "au_tenant sample_auth = 1" by (simp add: sample_auth_def)
  have dn: "dense (au_tenant sample_auth) (ps_db push_state0)" by (simp add: t push_state0_def dense_push_db)
  from push_refines_append_log [OF dn run] obtain decoded where
    dn': "dense 1 (ps_db s')" and dec: "map (\<lambda>c. b64_dec toy_crates (pc_ciphertext c)) ?cs = map Some decoded"
    and sp: "spec_push (abs_log 1 (ps_db push_state0)) (map entry_of (zip ?cs decoded)) = Some (abs_log 1 (ps_db s'))"
    and acks: "map pa_seq (pr_acks resp) = map (\<lambda>c. int (position (key_of c) (abs_log 1 (ps_db s')))) ?cs"
    by (auto simp only: t sum.case list.distinct)
  have "map Some decoded = map Some [[97], [98], [97]]"
    unfolding dec [symmetric] by (simp add: sample_change_def toy_crates_def)
  then have "decoded = [[97], [98], [97]]" by (simp only: inj_map_eq_map [OF inj_Some])
  then have "abs_log 1 (ps_db s') = [((7, 1), [97], 1, 1), ((7, 2), [98], 1, 1)]"
    using sp by (simp add: abs_log_def tenant_log_def push_state0_def push_db_def empty_db_def entry_of_def
        key_of_def sample_change_def)
  with acks have "map pa_seq (pr_acks resp) = [1, 2, 1]"
    by (simp add: key_of_def sample_change_def)
  with run dn' show ?thesis by (intro exI conjI)
qed

text \<open>A retried batch is acknowledged again and stored once. If a push transaction succeeded, the
  same batch pushed to the state it left, under any limits and at any time, and answered, inserts
  nothing, charges nothing, and acknowledges every change with its original number, marked as a
  duplicate.\<close>

theorem push_retry_idempotent:
  assumes dense: "dense (au_tenant auth) d" and len: "length decoded = length changes"
    and first: "push_tx now auth limits h lvl changes decoded d = Inr ((resp, m), d')"
    and again: "push_tx now' auth limits' h' lvl' changes decoded d' = Inr ((resp', m'), d'')"
  shows "m' = 0 \<and> changesets d'' = changesets d' \<and> usage d'' = usage d' \<and>
    map pa_seq (pr_acks resp') = map pa_seq (pr_acks resp) \<and> (\<forall>a\<in>set (pr_acks resp'). pa_dedup a) \<and>
    pr_max resp' = pr_max resp"
proof -
  let ?t = "au_tenant auth"
  note one = push_tx_refines [OF dense len first]
  have dense': "dense ?t d'" using one by (rule conjunct1 [OF conjunct2])
  note two = push_tx_refines [OF dense' len again]
  have "spec_push (abs_log ?t d') (map entry_of (zip changes decoded)) = Some (abs_log ?t d')"
    by (rule spec_push_idem [OF conjunct1 [OF one]])
  with conjunct1 [OF two] have log: "abs_log ?t d'' = abs_log ?t d'" by simp
  have "length (abs_log ?t d'') = length (abs_log ?t d') + m'" using two by (elim conjE)
  with log have m: "m' = 0" by simp
  from push_tx_Inr [OF again] obtain w d3 where
    w: "walk ?t (existing_pairs ?t changes d') (next_of ?t d') 0 (zip changes decoded) = Inr w"
    and d3: "if wk_rows w = [] then d3 = with_seq ?t (with_floor ?t d')
       else admit now' ?t limits' (wk_bytes w) h' (with_seq ?t (with_floor ?t d')) = Inr ((), d3)"
    and r: "resp' = \<lparr>pr_acks = wk_acks w, pr_max = wk_next w - 1\<rparr>" "m' = length (wk_rows w)"
    and d'': "d'' = (let d4 = d3\<lparr>changesets := changesets d3 @ wk_rows w\<rparr> in
      if wk_rows w = [] then d4 else d4\<lparr>seqs := update_where (\<lambda>r. sq_ws r = ?t)
        (\<lambda>r. r\<lparr>sq_next := sq_next r + int (length (wk_rows w))\<rparr>) (seqs d4)\<rparr>)"
    by blast
  have none: "wk_rows w = []" using r(2) m by simp
  have "changesets d'' = changesets d'" "usage d'' = usage d'" using d3 d'' none by simp_all
  moreover have "map pa_seq (pr_acks resp') = map pa_seq (pr_acks resp)"
    using one two log by (elim conjE) (simp only:)
  moreover have "pr_max resp' = pr_max resp"
    using one two log by (elim conjE) (simp only:)
  moreover have "\<forall>a\<in>set (pr_acks resp'). pa_dedup a"
    using walk_all_dup [OF w none] r(1) by simp
  ultimately show ?thesis using m by (intro conjI)
qed

lemma push_retry_idempotent_witness:
  "\<exists>resp m d' resp' d''. push_tx 0 sample_auth unlimited [] 0 [sample_change 1 ''a''] [[97]] push_db = Inr ((resp, m), d') \<and>
     push_tx 5 sample_auth unlimited [] 0 [sample_change 1 ''a''] [[97]] d' = Inr ((resp', 0), d'') \<and>
     pr_max resp' = pr_max resp"
proof -
  have sp: "spec_push [] (map entry_of (zip [sample_change 1 ''a''] [[97]])) = Some [((7, 1), [97], 1, 1)]"
    by (simp add: entry_of_def key_of_def sample_change_def)
  have "sum_list (map length [[97 :: 8 word]]) \<le> max_push_bytes" by (simp add: max_push_bytes_def)
  from sample_tx_runs [OF _ this sp] obtain r d' where
    "push_tx 0 sample_auth unlimited [] 0 [sample_change 1 ''a''] [[97]] push_db = Inr (r, d')"
    by (auto simp: entry_bytes_def machine_int_defs)
  then obtain resp m where one: "push_tx 0 sample_auth unlimited [] 0 [sample_change 1 ''a''] [[97]] push_db = Inr ((resp, m), d')"
    by (cases r) auto
  have t: "au_tenant sample_auth = 1" by (simp add: sample_auth_def)
  have dn: "dense (au_tenant sample_auth) push_db" by (simp add: t dense_push_db)
  have l: "length [[97 :: 8 word]] = length [sample_change 1 ''a'']" by simp
  note ref = push_tx_refines [OF dn l one]
  note kept = push_tx_keeps [OF one]
  have "floor_level 1 d' = floor_level 1 push_db" using kept(3) [of 1] by (simp add: t)
  then have "floor_level 1 d' = 0" by (simp add: floor_level_def floor_of_def push_db_def empty_db_def)
  with kept(1,2) have gates: "push_admitted sample_auth 0 d'"
    by (simp add: push_admitted_def t active_device_def device_of_def)
      (simp add: push_db_def sample_auth_def sample_device_def)
  have dn': "dense (au_tenant sample_auth) d'" using ref by blast
  have idem: "spec_push (abs_log (au_tenant sample_auth) d') (map entry_of (zip [sample_change 1 ''a''] [[97]])) =
      Some (abs_log (au_tenant sample_auth) d')"
    by (rule spec_push_idem [OF conjunct1 [OF ref]])
  have "sum_list (map length [[97 :: 8 word]]) \<le> max_push_bytes" by (simp add: max_push_bytes_def)
  from push_tx_accepts [OF gates dn' _ this, of "[sample_change 1 ''a'']" 5 unlimited "[]"]
  obtain resp' m' d'' where two: "push_tx 5 sample_auth unlimited [] 0 [sample_change 1 ''a''] [[97]] d' = Inr ((resp', m'), d'')"
    using idem by (auto simp: Let_def)
  from push_retry_idempotent [OF dn _ one two] one two show ?thesis by auto
qed

text \<open>A push past the gates is accepted or refused for its own reason. With an active device, a
  level at most the floor, an existing workspace and a batch within the size guard, the
  transaction answers: with 409 for some change when a key comes with content other than the
  stored one (a client whose counter regressed); otherwise it succeeds whenever nothing new is
  stored or the choke point admits exactly the new bytes. It never fails on the
  database's constraints.\<close>

theorem push_accepts_or_refuses:
  assumes "push_admitted auth lvl d" and "dense (au_tenant auth) d"
    and "length decoded = length changes" and "sum_list (map length decoded) \<le> max_push_bytes"
  shows "case spec_push (abs_log (au_tenant auth) d) (map entry_of (zip changes decoded)) of
      None \<Rightarrow> (\<exists>c\<in>set changes. run_tx (push_tx now auth limits h lvl changes decoded) d = (d, Inl (regression c)))
    | Some log' \<Rightarrow>
        (let new = sum_list (map entry_bytes (drop (length (abs_log (au_tenant auth) d)) log'));
             row = metered_row now (au_tenant auth) limits d
         in log' = abs_log (au_tenant auth) d \<or> (fits new row \<and> should_admit limits new row) \<longrightarrow>
            (\<exists>r. snd (run_tx (push_tx now auth limits h lvl changes decoded) d) = Inr r))"
  using push_tx_accepts [OF assms, of now limits h]
  by (auto simp: run_tx_def Let_def split: option.splits)

definition regressed_db :: db where
  "regressed_db = push_db\<lparr>changesets := [row_of 1 1 (sample_change 1 []) [98]], seqs := [\<lparr>sq_ws = 1, sq_next = 2\<rparr>]\<rparr>"

lemma push_accepts_or_refuses_witness:
  "\<exists>c. run_tx (push_tx 0 sample_auth unlimited [] 0 [sample_change 1 ''a''] [[97]]) regressed_db =
     (regressed_db, Inl (regression c))"
proof -
  have t: "au_tenant sample_auth = 1" by (simp add: sample_auth_def)
  have "push_admitted sample_auth 0 regressed_db"
    by (simp add: push_admitted_def t active_device_def device_of_def floor_level_def floor_of_def
        regressed_db_def push_db_def empty_db_def) (simp add: sample_auth_def sample_device_def)
  moreover have "dense (au_tenant sample_auth) regressed_db"
    by (simp add: t dense_def tenant_log_def seq_of_def regressed_db_def row_of_def)
  moreover have "sum_list (map length [[97 :: 8 word]]) \<le> max_push_bytes" by (simp add: max_push_bytes_def)
  moreover have "spec_push (abs_log (au_tenant sample_auth) regressed_db)
      (map entry_of (zip [sample_change 1 ''a''] [[97]])) = None"
    by (simp add: t abs_log_def tenant_log_def regressed_db_def entry_row_def entry_of_def row_of_def row_key_def
        key_of_def sample_change_def)
  ultimately show ?thesis
    using push_accepts_or_refuses [of sample_auth 0 regressed_db "[[97]]" "[sample_change 1 ''a'']" 0 unlimited "[]"]
    by auto
qed

end
