(* ===== verification/Pull.thy ===== *)
theory Pull
  imports Push
begin

text \<open>
  The read side of the relay: \<open>GET /sync/pull\<close> and \<open>GET /sync/completeness\<close>
  (\<open>crates/yapstack-server/src/sync/pull.rs\<close>, \<open>completeness.rs\<close>) and the wakeup hub
  (\<open>sse.rs\<close>). A client that pulls page after page is \<open>session\<close>.
\<close>

definition default_limit :: int where
  "default_limit = 500"

definition max_limit :: int where
  "max_limit = 2000"

record pulled_change =
  pu_seq :: int
  pu_client :: uuid
  pu_client_seq :: int
  pu_ciphertext :: string
  pu_schema :: int
  pu_engine :: int

record pull_response =
  pl_changes :: "pulled_change list"
  pl_next :: int
  pl_has_more :: bool
  pl_required :: int
  pl_requested :: int

definition read_changes :: "uuid \<Rightarrow> int \<Rightarrow> int \<Rightarrow> db \<Rightarrow> changeset_row list" where
  "read_changes t since limit d =
     take (nat limit) (sort_key cs_seq (filter (\<lambda>r. cs_ws r = t \<and> cs_seq r > since) (changesets d)))"

definition pulled_of :: "crates \<Rightarrow> changeset_row \<Rightarrow> pulled_change" where
  "pulled_of X r = \<lparr>pu_seq = cs_seq r, pu_client = cs_client r, pu_client_seq = cs_client_seq r,
     pu_ciphertext = b64_enc X (cs_ciphertext r), pu_schema = cs_schema r, pu_engine = cs_engine r\<rparr>"

definition clamp_page :: "int option \<Rightarrow> int" where
  "clamp_page l = max 1 (min max_limit (case l of None \<Rightarrow> default_limit | Some n \<Rightarrow> n))"

definition page_of :: "crates \<Rightarrow> uuid \<Rightarrow> int \<Rightarrow> int \<Rightarrow> capability_levels \<Rightarrow> db \<Rightarrow> pull_response" where
  "page_of X t since limit levels d =
     (let rows = read_changes t since (limit + 1) d;
          changes = map (pulled_of X) (take (nat limit) rows)
      in \<lparr>pl_changes = changes,
          pl_next = (if changes = [] then since else pu_seq (last changes)),
          pl_has_more = (int (length rows) > limit),
          pl_required = required_sync_capability levels,
          pl_requested = requested_sync_capability levels\<rparr>)"

definition pull :: "crates \<Rightarrow> timestamp \<Rightarrow> auth_tenant \<Rightarrow> header \<Rightarrow> int \<Rightarrow> int option
    \<Rightarrow> (app_error + pull_response) tx" where
  "pull X now auth h since limit =
     gated_read now auth h (\<lambda>levels.
       tx_read (\<lambda>d. Inr (page_of X (au_tenant auth) since (clamp_page limit) levels d)))"

subsection \<open>Completeness\<close>

record completeness_response =
  cr_max :: int
  cr_count :: int
  cr_contiguous :: bool
  cr_tails :: "(uuid \<times> int) list"

definition client_tails :: "changeset_row list \<Rightarrow> (uuid \<times> int) list" where
  "client_tails rows = map (\<lambda>c. (c, Max (set (map cs_client_seq (filter (\<lambda>r. cs_client r = c) rows)))))
     (sort (remdups (map cs_client rows)))"

definition completeness :: "auth_tenant \<Rightarrow> db \<Rightarrow> completeness_response" where
  "completeness auth d =
     (let rows = tenant_log (au_tenant auth) d;
          max_seq = (if rows = [] then 0 else Max (set (map cs_seq rows)));
          count = int (length rows)
      in \<lparr>cr_max = max_seq, cr_count = count, cr_contiguous = (max_seq = count),
          cr_tails = client_tails rows\<rparr>)"

subsection \<open>Wakeups\<close>

text \<open>The hub: per tenant a broadcast channel, here the unread events of its subscribers in order
  of subscription. A wake goes to every subscriber of the tenant (without one it is dropped); the
  channel keeps the newest sixty-four, so a subscriber that lags loses its oldest unread events,
  and the stream goes on with the oldest one kept (\<open>Lagged => continue\<close>).\<close>

type_synonym hub = "(uuid \<times> int list) list"

definition channel_capacity :: nat where
  "channel_capacity = 64"

definition subscribe :: "uuid \<Rightarrow> hub \<Rightarrow> hub" where
  "subscribe t h = h @ [(t, [])]"

definition offer :: "int \<Rightarrow> int list \<Rightarrow> int list" where
  "offer seq q = (let q' = q @ [seq] in drop (length q' - channel_capacity) q')"

definition wake :: "uuid \<Rightarrow> int \<Rightarrow> hub \<Rightarrow> hub" where
  "wake t seq h = map (\<lambda>(t', q). if t' = t then (t', offer seq q) else (t', q)) h"

text \<open>The stream of subscriber \<open>i\<close>: its next event, or \<open>None\<close> while there is none.\<close>

definition next_event :: "nat \<Rightarrow> hub \<Rightarrow> int option \<times> hub" where
  "next_event i h = (if i < length h then (case h ! i of
       (t, []) \<Rightarrow> (None, h) | (t, e # q) \<Rightarrow> (Some e, h[i := (t, q)])) else (None, h))"

definition received :: "uuid \<Rightarrow> hub \<Rightarrow> int list list" where
  "received t h = map snd (filter (\<lambda>(t', q). t' = t) h)"

lemma wake_received: "received t' (wake t seq h) = (if t' = t then map (offer seq) (received t' h) else received t' h)"
  by (induction h) (auto simp: received_def wake_def)

lemma offer_keeps_newest: "offer seq q \<noteq> [] \<and> last (offer seq q) = seq \<and> length (offer seq q) \<le> channel_capacity"
  by (auto simp: offer_def Let_def channel_capacity_def last_drop)

subsection \<open>Pages of a dense log\<close>

lemma dense_seqs: "dense t d \<Longrightarrow> map cs_seq (tenant_log t d) = map int [1..<Suc (length (tenant_log t d))]"
  by (simp add: dense_def del: upt_Suc)

lemma dense_nth: "dense t d \<Longrightarrow> i < length (tenant_log t d) \<Longrightarrow> cs_seq (tenant_log t d ! i) = int i + 1"
proof -
  assume d: "dense t d" and i: "i < length (tenant_log t d)"
  have "map cs_seq (tenant_log t d) ! i = map int [1..<Suc (length (tenant_log t d))] ! i"
    by (simp only: dense_seqs [OF d])
  with i show ?thesis by (simp add: nth_append del: upt_Suc)
qed

lemma filter_beyond:
  "(\<And>i. i < length rows \<Longrightarrow> cs_seq (rows ! i) = int i + 1 + off) \<Longrightarrow>
   filter (\<lambda>r. cs_seq r > since) rows = drop (nat (since - off)) rows"
proof (induction rows arbitrary: off)
  case (Cons r rows)
  have r: "cs_seq r = 1 + off" using Cons.prems [of 0] by simp
  have rs: "cs_seq (rows ! i) = int i + 1 + (off + 1)" if "i < length rows" for i
    using Cons.prems [of "Suc i"] that by simp
  from Cons.IH [OF rs] have ih: "filter (\<lambda>r. cs_seq r > since) rows = drop (nat (since - (off + 1))) rows" .
  show ?case
  proof (cases "since \<le> off")
    case True
    then show ?thesis using ih r by simp
  next
    case False
    then have "nat (since - off) = Suc (nat (since - (off + 1)))" by simp
    then show ?thesis using ih r False by simp
  qed
qed simp

lemma sorted_dense: "dense t d \<Longrightarrow> sorted (map cs_seq (tenant_log t d))"
  by (simp add: dense_seqs sorted_map del: upt_Suc)

lemma read_changes_dense:
  assumes "dense t d"
  shows "read_changes t since limit d = take (nat limit) (drop (nat since) (tenant_log t d))"
proof -
  let ?rows = "filter (\<lambda>r. cs_ws r = t \<and> cs_seq r > since) (changesets d)"
  have rows: "?rows = filter (\<lambda>r. cs_seq r > since) (tenant_log t d)"
    by (simp add: tenant_log_def conj_commute)
  have "filter (\<lambda>r. cs_seq r > since) (tenant_log t d) = drop (nat (since - 0)) (tenant_log t d)"
    by (rule filter_beyond) (simp add: dense_nth [OF assms])
  then have d: "?rows = drop (nat since) (tenant_log t d)" using rows by simp
  have "sorted (map cs_seq ?rows)"
    unfolding d drop_map [symmetric] by (rule sorted_wrt_drop [OF sorted_dense [OF assms]])
  then have "sort_key cs_seq ?rows = ?rows" by (rule sort_key_id_if_sorted)
  then show ?thesis by (simp add: read_changes_def d)
qed

lemma page_of_dense:
  assumes "dense t d" and "0 \<le> since" and "1 \<le> limit"
  shows "pl_changes (page_of X t since limit lv d) =
      map (pulled_of X) (take (nat limit) (drop (nat since) (tenant_log t d)))"
    and "pl_has_more (page_of X t since limit lv d) \<longleftrightarrow> since + limit < int (length (tenant_log t d))"
    and "pl_next (page_of X t since limit lv d) =
      since + int (length (take (nat limit) (drop (nat since) (tenant_log t d))))"
proof -
  let ?log = "tenant_log t d"
  let ?page = "take (nat limit) (drop (nat since) ?log)"
  have rows: "read_changes t since (limit + 1) d = take (nat limit + 1) (drop (nat since) ?log)"
    using assms(3) by (simp add: read_changes_dense [OF assms(1)] nat_add_distrib)
  have cut: "take (nat limit) (take (nat limit + 1) (drop (nat since) ?log)) = ?page"
    by (simp add: min_def)
  show "pl_changes (page_of X t since limit lv d) = map (pulled_of X) ?page"
    by (simp add: page_of_def Let_def rows cut)
  show "pl_has_more (page_of X t since limit lv d) \<longleftrightarrow> since + limit < int (length ?log)"
    using assms(2,3) by (simp add: page_of_def Let_def rows) linarith
  show "pl_next (page_of X t since limit lv d) = since + int (length ?page)"
  proof (cases "?page = []")
    case True
    then show ?thesis by (auto simp: page_of_def Let_def rows cut)
  next
    case False
    then have n: "0 < length ?page" by simp
    let ?k = "nat since + (length ?page - 1)"
    have k: "?k < length ?log" using n by auto
    have "last ?page = ?page ! (length ?page - 1)" using False by (rule last_conv_nth)
    also have "\<dots> = drop (nat since) ?log ! (length ?page - 1)"
      by (rule nth_take) (use n in \<open>simp add: min_def split: if_splits\<close>)
    also have "\<dots> = ?log ! ?k" using k by (intro nth_drop) (simp add: min_def split: if_splits)
    finally have "cs_seq (last ?page) = int ?k + 1" using dense_nth [OF assms(1) k] by simp
    also have "\<dots> = since + int (length ?page)"
    proof -
      have "int (?k) + 1 = int (nat since) + int (length ?page)" using n by arith
      then show ?thesis using assms(2) by simp
    qed
    finally have "cs_seq (last ?page) = since + int (length ?page)" .
    moreover have "pu_seq (last (map (pulled_of X) ?page)) = cs_seq (last ?page)"
      using False by (simp add: last_map pulled_of_def)
    ultimately show ?thesis using False by (simp add: page_of_def Let_def rows cut)
  qed
qed

text \<open>A client's session: one page per database state it happens to read, the cursor threaded
  through; \<open>ds\<close> are the states at its pulls, between which anybody may push.\<close>

fun session :: "crates \<Rightarrow> uuid \<Rightarrow> int \<Rightarrow> int \<Rightarrow> capability_levels \<Rightarrow> db list \<Rightarrow> pulled_change list \<times> int" where
  "session X t limit cur lv [] = ([], cur)"
| "session X t limit cur lv (d # ds) =
     (let p = page_of X t cur limit lv d
      in case session X t limit (pl_next p) lv ds of (cs, cur') \<Rightarrow> (pl_changes p @ cs, cur'))"

definition log_prefix :: "uuid \<Rightarrow> db \<Rightarrow> changeset_row list \<Rightarrow> bool" where
  "log_prefix t d log \<longleftrightarrow> (\<exists>new. log = tenant_log t d @ new)"

lemma take_drop_prefix:
  "xs = ys @ zs \<Longrightarrow> take k (drop c ys) = take (length (take k (drop c ys))) (drop c xs)"
  by (simp add: min_def)

lemma session_window:
  assumes "\<And>d. d \<in> set ds \<Longrightarrow> dense t d \<and> log_prefix t d log" and "0 \<le> cur" and "1 \<le> limit"
  shows "\<exists>k. session X t limit cur lv ds = (map (pulled_of X) (take k (drop (nat cur) log)), cur + int k) \<and>
    k \<le> length (drop (nat cur) log)"
  using assms
proof (induction ds arbitrary: cur)
  case Nil
  then show ?case by (auto intro!: exI [of _ 0])
next
  case (Cons d ds)
  have d: "dense t d" and pre: "log_prefix t d log" using Cons.prems(1) by auto
  let ?page = "take (nat limit) (drop (nat cur) (tenant_log t d))"
  let ?j = "length ?page"
  obtain new where log: "log = tenant_log t d @ new" using pre by (auto simp: log_prefix_def)
  have page: "?page = take ?j (drop (nat cur) log)" by (rule take_drop_prefix [OF log])
  note pg = page_of_dense [OF d Cons.prems(2,3), of X lv]
  obtain k where k: "session X t limit (cur + int ?j) lv ds =
      (map (pulled_of X) (take k (drop (nat (cur + int ?j)) log)), cur + int ?j + int k)"
    "k \<le> length (drop (nat (cur + int ?j)) log)"
    using Cons.IH [of "cur + int ?j"] Cons.prems by auto
  have drop: "drop (nat (cur + int ?j)) log = drop ?j (drop (nat cur) log)"
    using Cons.prems(2) by (simp add: nat_add_distrib add.commute del: length_take)
  have j: "?j \<le> length (drop (nat cur) log)" unfolding log by simp
  have "session X t limit cur lv (d # ds) =
      (map (pulled_of X) ?page @ map (pulled_of X) (take k (drop ?j (drop (nat cur) log))), cur + int ?j + int k)"
    using k(1) unfolding drop by (simp only: session.simps Let_def pg(1,3) prod.case)
  also have "\<dots> = (map (pulled_of X) (take (?j + k) (drop (nat cur) log)), cur + int (?j + k))"
    using page by (simp only: take_add map_append of_nat_add add.assoc)
  finally show ?case
  proof (intro exI conjI)
    show "?j + k \<le> length (drop (nat cur) log)" using k(2) j unfolding drop length_drop by arith
  qed
qed

lemma int_interval:
  assumes "distinct xs" and "\<And>x. x \<in> set xs \<Longrightarrow> 1 \<le> x" and "xs \<noteq> []"
  shows "Max (set xs) = int (length xs) \<longleftrightarrow> set xs = {1..int (length xs)}"
proof
  assume m: "Max (set xs) = int (length xs)"
  have "set xs \<subseteq> {1..int (length xs)}" using assms(2) m by (auto intro: Max_ge simp flip: m)
  moreover have "card (set xs) = card {1..int (length xs)}" using distinct_card [OF assms(1)] by simp
  ultimately show "set xs = {1..int (length xs)}" by (intro card_subset_eq) auto
next
  assume "set xs = {1..int (length xs)}"
  moreover have "1 \<le> int (length xs)" using assms(3) by (cases xs) auto
  then have "Max {1..int (length xs)} = int (length xs)" by (intro Max_eqI) auto
  ultimately show "Max (set xs) = int (length xs)" by simp
qed

lemma Max_dense:
  assumes "dense t d" and "tenant_log t d \<noteq> []"
  shows "Max (set (map cs_seq (tenant_log t d))) = int (length (tenant_log t d))"
proof -
  let ?xs = "map cs_seq (tenant_log t d)"
  have xs: "?xs = map int [1..<Suc (length (tenant_log t d))]" by (rule dense_seqs [OF assms(1)])
  have "distinct ?xs" "\<And>x. x \<in> set ?xs \<Longrightarrow> 1 \<le> x"
    unfolding xs by (auto simp: distinct_map inj_on_def simp del: upt_Suc)
  moreover have "set ?xs = {1..int (length ?xs)}"
  proof -
    have "set ?xs = int ` {1..length (tenant_log t d)}" unfolding xs by (auto simp del: upt_Suc)
    then show ?thesis by (simp add: image_int_atLeastAtMost del: set_map)
  qed
  ultimately have "Max (set ?xs) = int (length ?xs)" using assms(2) int_interval [of ?xs] by auto
  then show ?thesis by simp
qed

subsection \<open>Properties\<close>

text \<open>C2. Pulling loses nothing. A client that reads page after page with the returned cursor, with any
  page size, from states of a log to which others keep pushing between its pages, has received
  exactly the changes from its first cursor to its last one, in order, without a hole or a
  repetition; and when its last page says there is no more, that is the whole log of that
  state.\<close>

theorem pull_session_lossless:
  assumes "\<And>d. d \<in> set (ds @ [dl]) \<Longrightarrow> dense t d \<and> log_prefix t d (tenant_log t dl)"
    and "0 \<le> cur" and "1 \<le> limit"
  shows "\<exists>k. session X t limit cur lv (ds @ [dl]) =
      (map (pulled_of X) (take k (drop (nat cur) (tenant_log t dl))), cur + int k) \<and>
    (\<not> pl_has_more (page_of X t (snd (session X t limit cur lv ds)) limit lv dl) \<and> nat cur \<le> length (tenant_log t dl)
      \<longrightarrow> cur + int k = int (length (tenant_log t dl)))"
proof -
  let ?log = "tenant_log t dl"
  obtain k where k: "session X t limit cur lv (ds @ [dl]) = (map (pulled_of X) (take k (drop (nat cur) ?log)), cur + int k)"
    "k \<le> length (drop (nat cur) ?log)"
    using session_window [of "ds @ [dl]" t ?log cur limit X lv] assms by blast
  obtain k0 where k0: "session X t limit cur lv ds = (map (pulled_of X) (take k0 (drop (nat cur) ?log)), cur + int k0)"
    "k0 \<le> length (drop (nat cur) ?log)"
    using session_window [of ds t ?log cur limit X lv] assms by auto
  have app: "session X t limit c lv (xs @ ys) =
      (fst (session X t limit c lv xs) @ fst (session X t limit (snd (session X t limit c lv xs)) lv ys),
       snd (session X t limit (snd (session X t limit c lv xs)) lv ys))" for c xs ys
    by (induction xs arbitrary: c) (simp_all add: Let_def split: prod.split)
  have dl: "dense t dl" using assms(1) by simp
  have c0: "0 \<le> cur + int k0" using assms(2) by simp
  note pg = page_of_dense [OF dl c0 assms(3), of X lv]
  have last: "cur + int k = (cur + int k0) + int (length (take (nat limit) (drop (nat (cur + int k0)) ?log)))"
    using k(1) app [of cur ds "[dl]"] pg(3) by (simp add: k0(1) Let_def)
  show ?thesis
  proof (intro exI conjI impI)
    show "session X t limit cur lv (ds @ [dl]) = (map (pulled_of X) (take k (drop (nat cur) ?log)), cur + int k)"
      by (rule k(1))
    assume "\<not> pl_has_more (page_of X t (snd (session X t limit cur lv ds)) limit lv dl) \<and> nat cur \<le> length ?log"
    then have "int (length ?log) \<le> cur + int k0 + limit" "nat cur \<le> length ?log" by (auto simp: k0(1) pg(2))
    then show "cur + int k = int (length ?log)"
      using last k0(2) assms(2,3) by (simp add: min_def split: if_splits)
  qed
qed

definition log_db :: "nat \<Rightarrow> db" where
  "log_db n = push_db\<lparr>changesets := map (\<lambda>i. row_of 1 (int i + 1) (sample_change (int i) []) [of_nat i]) [0..<n],
     seqs := [\<lparr>sq_ws = 1, sq_next = int n + 1\<rparr>]\<rparr>"

lemma tenant_log_db: "tenant_log 1 (log_db n) = map (\<lambda>i. row_of 1 (int i + 1) (sample_change (int i) []) [of_nat i]) [0..<n]"
  by (simp add: tenant_log_def log_db_def row_of_def filter_id_conv)

lemma dense_log_db: "dense 1 (log_db n)"
proof -
  have "map cs_seq (tenant_log 1 (log_db n)) = map int [1..<Suc n]"
    unfolding tenant_log_db by (rule nth_equalityI) (simp_all add: row_of_def nth_append del: upt_Suc)
  moreover have "distinct (map row_key (tenant_log 1 (log_db n)))"
    by (simp add: tenant_log_db row_of_def row_key_def sample_change_def distinct_map inj_on_def comp_def)
  moreover have "seq_of 1 (log_db n) = Some \<lparr>sq_ws = 1, sq_next = int n + 1\<rparr>"
    by (simp add: seq_of_def log_db_def)
  moreover have "length (tenant_log 1 (log_db n)) = n" by (simp add: tenant_log_db)
  ultimately show ?thesis by (simp add: dense_def del: upt_Suc)
qed

lemma log_db_prefix: "m \<le> n \<Longrightarrow> log_prefix 1 (log_db m) (tenant_log 1 (log_db n))"
proof -
  assume "m \<le> n"
  then have "[0..<n] = [0..<m] @ [m..<n]" using upt_add_eq_append [of 0 m "n - m"] by simp
  then show ?thesis unfolding log_prefix_def tenant_log_db by simp
qed

lemma pull_session_lossless_witness:
  "\<forall>lv. \<exists>k. session toy_crates 1 2 0 lv [log_db 2, log_db 3] =
     (map (pulled_of toy_crates) (take k (drop 0 (tenant_log 1 (log_db 3)))), int k) \<and> k = 3"
proof (rule allI)
  fix lv
  have logs: "dense 1 d \<and> log_prefix 1 d (tenant_log 1 (log_db 3))" if "d \<in> set ([log_db 2] @ [log_db 3])" for d
    using that dense_log_db log_db_prefix by auto
  have "(0::int) \<le> 0" "(1::int) \<le> 2" by simp_all
  from pull_session_lossless [OF logs this] obtain k where
    k1: "session toy_crates 1 2 0 lv ([log_db 2] @ [log_db 3]) =
      (map (pulled_of toy_crates) (take k (drop (nat 0) (tenant_log 1 (log_db 3)))), 0 + int k)"
    and k2: "\<not> pl_has_more (page_of toy_crates 1 (snd (session toy_crates 1 2 0 lv [log_db 2])) 2 lv (log_db 3)) \<and>
      nat 0 \<le> length (tenant_log 1 (log_db 3)) \<longrightarrow> 0 + int k = int (length (tenant_log 1 (log_db 3)))"
    by blast
  have k: "session toy_crates 1 2 0 lv [log_db 2, log_db 3] =
      (map (pulled_of toy_crates) (take k (drop 0 (tenant_log 1 (log_db 3)))), int k)"
    using k1 by (simp only: append.simps nat_zero_as_int [symmetric] add_0)
  have "snd (session toy_crates 1 2 0 lv [log_db 2]) = 2"
    using page_of_dense(3) [OF dense_log_db [of 2], of 0 2 toy_crates lv]
    by (simp add: tenant_log_db Let_def split: prod.split)
  then have "\<not> pl_has_more (page_of toy_crates 1 (snd (session toy_crates 1 2 0 lv [log_db 2])) 2 lv (log_db 3))"
    using page_of_dense(2) [OF dense_log_db [of 3], of 2 2 toy_crates lv] by (simp add: tenant_log_db)
  with k2 have "k = 3" by (simp add: tenant_log_db)
  with k show "\<exists>k. session toy_crates 1 2 0 lv [log_db 2, log_db 3] =
     (map (pulled_of toy_crates) (take k (drop 0 (tenant_log 1 (log_db 3)))), int k) \<and> k = 3" by blast
qed

text \<open>The completeness report is exact. For any rows with distinct numbers from one, it says
  "contiguous" exactly when no number up to the count is missing; of a dense log it reports the
  log's length, contiguous; and each device's tail is the largest of its own numbers stored, so
  a device whose newest change was dropped sees less than it pushed.\<close>

theorem completeness_exact:
  assumes "distinct (map cs_seq (tenant_log (au_tenant auth) d))"
    and "\<And>r. r \<in> set (tenant_log (au_tenant auth) d) \<Longrightarrow> 1 \<le> cs_seq r"
  shows "(cr_contiguous (completeness auth d) \<longleftrightarrow>
      cs_seq ` set (tenant_log (au_tenant auth) d) = {1..cr_count (completeness auth d)}) \<and>
    (dense (au_tenant auth) d \<longrightarrow> cr_contiguous (completeness auth d) \<and>
      cr_max (completeness auth d) = int (length (abs_log (au_tenant auth) d))) \<and>
    (\<forall>c m. (c, m) \<in> set (cr_tails (completeness auth d)) \<longleftrightarrow>
      (\<exists>r\<in>set (tenant_log (au_tenant auth) d). cs_client r = c \<and> cs_client_seq r = m \<and>
        (\<forall>r'\<in>set (tenant_log (au_tenant auth) d). cs_client r' = c \<longrightarrow> cs_client_seq r' \<le> m)))"
proof (intro conjI impI allI)
  let ?rows = "tenant_log (au_tenant auth) d"
  show "cr_contiguous (completeness auth d) \<longleftrightarrow> cs_seq ` set ?rows = {1..cr_count (completeness auth d)}"
  proof (cases "?rows = []")
    case True
    then show ?thesis by (simp add: completeness_def Let_def)
  next
    case False
    have "Max (set (map cs_seq ?rows)) = int (length (map cs_seq ?rows)) \<longleftrightarrow>
        set (map cs_seq ?rows) = {1..int (length (map cs_seq ?rows))}"
      by (rule int_interval) (use assms False in auto)
    with False show ?thesis by (simp add: completeness_def Let_def)
  qed
  assume dn: "dense (au_tenant auth) d"
  show "cr_contiguous (completeness auth d)" "cr_max (completeness auth d) = int (length (abs_log (au_tenant auth) d))"
    using Max_dense [OF dn] by (auto simp: completeness_def Let_def abs_log_def simp del: set_map)
next
  let ?rows = "tenant_log (au_tenant auth) d"
  fix c m
  let ?own = "map cs_client_seq (filter (\<lambda>r. cs_client r = c) ?rows)"
  have "(c, m) \<in> set (cr_tails (completeness auth d)) \<longleftrightarrow> c \<in> cs_client ` set ?rows \<and> m = Max (set ?own)"
    by (auto simp: completeness_def Let_def client_tails_def)
  also have "\<dots> \<longleftrightarrow> (\<exists>r\<in>set ?rows. cs_client r = c \<and> cs_client_seq r = m \<and>
        (\<forall>r'\<in>set ?rows. cs_client r' = c \<longrightarrow> cs_client_seq r' \<le> m))"
  proof (cases "c \<in> cs_client ` set ?rows")
    case True
    then have "set ?own \<noteq> {}" by auto
    then have "m = Max (set ?own) \<longleftrightarrow> m \<in> set ?own \<and> (\<forall>x\<in>set ?own. x \<le> m)"
      using Max_eq_iff [of "set ?own" m] by auto
    with True show ?thesis by auto
  qed auto
  finally show "(c, m) \<in> set (cr_tails (completeness auth d)) \<longleftrightarrow> (\<exists>r\<in>set ?rows. cs_client r = c \<and> cs_client_seq r = m \<and>
        (\<forall>r'\<in>set ?rows. cs_client r' = c \<longrightarrow> cs_client_seq r' \<le> m))" .
qed

lemma completeness_exact_witness:
  "cr_contiguous (completeness sample_auth (log_db 3)) \<and> cr_max (completeness sample_auth (log_db 3)) = 3"
proof -
  have t: "au_tenant sample_auth = 1" by (simp add: sample_auth_def)
  have "distinct (map cs_seq (tenant_log (au_tenant sample_auth) (log_db 3)))"
    by (simp add: t tenant_log_db row_of_def distinct_map inj_on_def comp_def)
  moreover have "\<And>r. r \<in> set (tenant_log (au_tenant sample_auth) (log_db 3)) \<Longrightarrow> 1 \<le> cs_seq r"
    by (auto simp: t tenant_log_db row_of_def)
  ultimately have "dense 1 (log_db 3) \<longrightarrow> cr_contiguous (completeness sample_auth (log_db 3)) \<and>
      cr_max (completeness sample_auth (log_db 3)) = int (length (abs_log 1 (log_db 3)))"
    using completeness_exact [of sample_auth "log_db 3"] unfolding t by blast
  then show ?thesis using dense_log_db [of 3] by (simp add: abs_log_def tenant_log_db)
qed

end
