(* ===== verification/Object_Storage.thy ===== *)
theory Object_Storage
  imports Crates Parse "HOL-Library.List_Lexorder" "HOL-Library.Char_ord"
begin

text \<open>
  Object storage: \<open>crates/yapstack-server/src/storage.rs\<close>. The storage keys of a tenant's blobs,
  the parsing of a ciphertext hash, the SigV4 query presigning, and the two calls the relay makes
  itself (\<open>HEAD\<close> and \<open>DELETE\<close>) as functions of the answer of the storage service. A string is
  its bytes. The lower-case hexadecimal of the \<open>hex\<close> crate and of \<open>{:02X}\<close> is written out.
\<close>

record storage_config =
  sc_endpoint :: string
  sc_region :: string
  sc_bucket :: string
  sc_access_key :: string
  sc_secret :: string
  sc_public_endpoint :: "string option"
  sc_ttl :: nat

definition default_presign_ttl :: nat where
  "default_presign_ttl = 900"

subsection \<open>Keys\<close>

definition object_key :: "uuid \<Rightarrow> string \<Rightarrow> string" where
  "object_key ws hex = ''tenants/'' @ show_uuid ws @ ''/blobs/'' @ hex"

definition snapshot_object_key :: "uuid \<Rightarrow> string \<Rightarrow> string" where
  "snapshot_object_key ws hex = ''tenants/'' @ show_uuid ws @ ''/snapshot/'' @ hex"

definition is_hexdigit :: "char \<Rightarrow> bool" where
  "is_hexdigit c \<longleftrightarrow> c \<in> set ''0123456789abcdefABCDEF''"

fun nibble :: "char \<Rightarrow> nat option" where
  "nibble c = (let n = of_char c :: nat in
     if 48 \<le> n \<and> n \<le> 57 then Some (n - 48)
     else if 97 \<le> n \<and> n \<le> 102 then Some (n - 87)
     else if 65 \<le> n \<and> n \<le> 70 then Some (n - 55) else None)"

fun hex_decode :: "string \<Rightarrow> bytes option" where
  "hex_decode [] = Some []"
| "hex_decode [c] = None"
| "hex_decode (a # b # cs) = (case (nibble a, nibble b, hex_decode cs) of
     (Some x, Some y, Some bs) \<Rightarrow> Some (of_nat (16 * x + y) # bs) | _ \<Rightarrow> None)"

definition parse_sha256 :: "string \<Rightarrow> app_error + bytes \<times> string" where
  "parse_sha256 s =
     (let lower = lower_str s
      in if length lower \<noteq> 64 \<or> \<not> list_all is_hexdigit lower
         then Inl (BadRequest ''sha256: expected 64 hex chars'')
         else bind_result (ok_or (hex_decode lower) (BadRequest ''sha256: invalid hex''))
                (\<lambda>bytes. Inr (bytes, lower)))"

subsection \<open>URI encoding\<close>

definition is_alnum :: "char \<Rightarrow> bool" where
  "is_alnum c \<longleftrightarrow> (let n = of_char c :: nat in
     48 \<le> n \<and> n \<le> 57 \<or> 65 \<le> n \<and> n \<le> 90 \<or> 97 \<le> n \<and> n \<le> 122)"

definition unreserved :: "bool \<Rightarrow> char \<Rightarrow> bool" where
  "unreserved encode_slash c \<longleftrightarrow>
     is_alnum c \<or> c \<in> set ''-._~'' \<or> (\<not> encode_slash \<and> c = CHR ''/'')"

definition upper_digit :: "nat \<Rightarrow> char" where
  "upper_digit n = ''0123456789ABCDEF'' ! (n mod 16)"

definition percent :: "char \<Rightarrow> string" where
  "percent c = [CHR ''%'', upper_digit (of_char c div 16), upper_digit (of_char c mod 16)]"

definition uri_encode :: "bool \<Rightarrow> string \<Rightarrow> string" where
  "uri_encode encode_slash s = concat (map (\<lambda>c. if unreserved encode_slash c then [c] else percent c) s)"

fun split_on :: "char \<Rightarrow> string \<Rightarrow> string list" where
  "split_on c [] = [[]]"
| "split_on c (x # xs) = (if x = c then [] # split_on c xs
     else (case split_on c xs of [] \<Rightarrow> [[x]] | p # ps \<Rightarrow> (x # p) # ps))"

definition canonical_path :: "string \<Rightarrow> string \<Rightarrow> string" where
  "canonical_path bucket key =
     ''/'' @ uri_encode True bucket @ concat (map (\<lambda>seg. ''/'' @ uri_encode True seg) (split_on (CHR ''/'') key))"

subsection \<open>Signing\<close>

definition signing_key :: "crates \<Rightarrow> string \<Rightarrow> string \<Rightarrow> string \<Rightarrow> bytes" where
  "signing_key X secret datestamp region =
     (let mac = (\<lambda>key msg. hmac_sha256 X key (str_bytes msg));
          k_date = mac (str_bytes (''AWS4'' @ secret)) datestamp;
          k_region = mac k_date region;
          k_service = mac k_region ''s3''
      in mac k_service ''aws4_request'')"

definition trim_end_matches :: "char \<Rightarrow> string \<Rightarrow> string" where
  "trim_end_matches c s = rev (dropWhile (\<lambda>x. x = c) (rev s))"

fun after_scheme :: "string \<Rightarrow> string option" where
  "after_scheme [] = None"
| "after_scheme (c # cs) = (if take 3 (c # cs) = ''://'' then Some (drop 3 (c # cs)) else after_scheme cs)"

fun join_with :: "string \<Rightarrow> string list \<Rightarrow> string" where
  "join_with sep [] = []"
| "join_with sep [x] = x"
| "join_with sep (x # y # ys) = x @ sep @ join_with sep (y # ys)"

definition newline :: string where
  "newline = [CHR 0x0A]"

definition header_pairs :: "string \<Rightarrow> nat option \<Rightarrow> (string \<times> string) list" where
  "header_pairs host content_length = sort_key fst ((''host'', host) #
     (case content_length of None \<Rightarrow> [] | Some len \<Rightarrow> [(''content-length'', show_nat len)]))"

definition canonical_query :: "storage_config \<Rightarrow> string \<Rightarrow> string \<Rightarrow> string \<Rightarrow> string" where
  "canonical_query cfg amz_date scope signed_headers =
     join_with ''&'' (map (\<lambda>(k, v). uri_encode True k @ ''='' @ uri_encode True v) (sort_key fst
       [(''X-Amz-Algorithm'', ''AWS4-HMAC-SHA256''),
        (''X-Amz-Credential'', sc_access_key cfg @ ''/'' @ scope),
        (''X-Amz-Date'', amz_date),
        (''X-Amz-Expires'', show_nat (sc_ttl cfg)),
        (''X-Amz-SignedHeaders'', signed_headers)]))"

definition canonical_request ::
  "string \<Rightarrow> string \<Rightarrow> string \<Rightarrow> (string \<times> string) list \<Rightarrow> string \<Rightarrow> string" where
  "canonical_request meth path query headers signed_headers =
     meth @ newline @ path @ newline @ query @ newline
       @ concat (map (\<lambda>(k, v). k @ '':'' @ v @ newline) headers) @ newline
       @ signed_headers @ newline @ ''UNSIGNED-PAYLOAD''"

text \<open>The endpoint the client will connect to, its authority, and what \<open>presign\<close> signs: the
  signed headers, the query and the canonical request.\<close>

definition client_endpoint :: "storage_config \<Rightarrow> string" where
  "client_endpoint cfg = trim_end_matches (CHR ''/'')
     (case sc_public_endpoint cfg of Some e \<Rightarrow> e | None \<Rightarrow> sc_endpoint cfg)"

definition endpoint_host :: "storage_config \<Rightarrow> string" where
  "endpoint_host cfg = (case after_scheme (client_endpoint cfg) of Some rest \<Rightarrow> rest | None \<Rightarrow> client_endpoint cfg)"

definition signing_scope :: "crates \<Rightarrow> storage_config \<Rightarrow> timestamp \<Rightarrow> string" where
  "signing_scope X cfg now = chrono_format X ''%Y%m%d'' now @ ''/'' @ sc_region cfg @ ''/s3/aws4_request''"

definition signed_headers :: "storage_config \<Rightarrow> nat option \<Rightarrow> string" where
  "signed_headers cfg content_length = join_with '';'' (map fst (header_pairs (endpoint_host cfg) content_length))"

definition presign_query :: "crates \<Rightarrow> storage_config \<Rightarrow> nat option \<Rightarrow> timestamp \<Rightarrow> string" where
  "presign_query X cfg content_length now =
     canonical_query cfg (chrono_format X ''%Y%m%dT%H%M%SZ'' now) (signing_scope X cfg now)
       (signed_headers cfg content_length)"

definition presign_request ::
  "crates \<Rightarrow> storage_config \<Rightarrow> string \<Rightarrow> string \<Rightarrow> nat option \<Rightarrow> timestamp \<Rightarrow> string" where
  "presign_request X cfg meth key content_length now =
     canonical_request meth (canonical_path (sc_bucket cfg) key) (presign_query X cfg content_length now)
       (header_pairs (endpoint_host cfg) content_length) (signed_headers cfg content_length)"

definition presign ::
  "crates \<Rightarrow> storage_config \<Rightarrow> string \<Rightarrow> string \<Rightarrow> nat option \<Rightarrow> timestamp \<Rightarrow> string" where
  "presign X cfg meth key content_length now =
     (let amz_date = chrono_format X ''%Y%m%dT%H%M%SZ'' now;
          datestamp = chrono_format X ''%Y%m%d'' now;
          hashed_request = hex_encode (sha256 X (str_bytes (presign_request X cfg meth key content_length now)));
          string_to_sign = ''AWS4-HMAC-SHA256'' @ newline @ amz_date @ newline
            @ signing_scope X cfg now @ newline @ hashed_request;
          signature = hex_encode (hmac_sha256 X (signing_key X (sc_secret cfg) datestamp (sc_region cfg))
                        (str_bytes string_to_sign))
      in client_endpoint cfg @ canonical_path (sc_bucket cfg) key @ ''?''
           @ presign_query X cfg content_length now @ ''&X-Amz-Signature='' @ signature)"

subsection \<open>The relay's own calls\<close>

text \<open>What the HTTP client and the storage service make of a request.\<close>

datatype http_answer = NoClient string | SendFailed string | Status nat

type_synonym storage_service = "string \<Rightarrow> string \<Rightarrow> http_answer"

definition signed_request ::
  "crates \<Rightarrow> storage_config \<Rightarrow> timestamp \<Rightarrow> storage_service \<Rightarrow> string \<Rightarrow> string \<Rightarrow> app_error + nat" where
  "signed_request X cfg now net meth key = (case net meth (presign X cfg meth key None now) of
       NoClient e \<Rightarrow> Inl (Unavailable (''storage client: '' @ e))
     | SendFailed e \<Rightarrow> Inl (Unavailable (''storage '' @ meth @ '' failed: '' @ e))
     | Status n \<Rightarrow> Inr n)"

definition object_exists ::
  "crates \<Rightarrow> storage_config \<Rightarrow> timestamp \<Rightarrow> storage_service \<Rightarrow> string \<Rightarrow> app_error + bool" where
  "object_exists X cfg now net key = bind_result (signed_request X cfg now net ''HEAD'' key) (\<lambda>status.
     if 200 \<le> status \<and> status \<le> 299 then Inr True
     else if status = 404 then Inr False
     else Inl (Unavailable (''storage HEAD returned unexpected status '' @ show_nat status)))"

definition delete_object ::
  "crates \<Rightarrow> storage_config \<Rightarrow> timestamp \<Rightarrow> storage_service \<Rightarrow> string \<Rightarrow> app_error + unit" where
  "delete_object X cfg now net key = bind_result (signed_request X cfg now net ''DELETE'' key) (\<lambda>status.
     if 200 \<le> status \<and> status \<le> 299 \<or> status = 404 then Inr ()
     else Inl (Unavailable (''storage DELETE returned unexpected status '' @ show_nat status)))"

subsection \<open>Keys name one tenant and one hash\<close>

lemma object_key_inj: "object_key w h = object_key w' h' \<longleftrightarrow> w = w' \<and> h = h'"
  by (auto simp: object_key_def show_uuid_inj dest: append_eq_append_conv [THEN iffD1, rotated])

lemma snapshot_object_key_inj: "snapshot_object_key w h = snapshot_object_key w' h' \<longleftrightarrow> w = w' \<and> h = h'"
  by (auto simp: snapshot_object_key_def show_uuid_inj dest: append_eq_append_conv [THEN iffD1, rotated])

lemma object_key_not_snapshot: "object_key w h \<noteq> snapshot_object_key w' h'"
proof
  assume "object_key w h = snapshot_object_key w' h'"
  then have "show_uuid w @ (''/blobs/'' @ h) = show_uuid w' @ (''/snapshot/'' @ h')"
    by (simp add: object_key_def snapshot_object_key_def)
  then have "''/blobs/'' @ h = ''/snapshot/'' @ h'"
    using append_eq_append_conv [of "show_uuid w" "show_uuid w'"] by simp
  then show False by simp
qed

lemma of_char_digit: "n < 16 \<Longrightarrow> (of_char (digit_char n) :: nat) = (if n < 10 then 48 + n else 87 + n)"
proof -
  assume "n < 16"
  then have "n \<in> set [0..<16]" by simp
  then show ?thesis by (simp add: upt_rec digit_char_def del: upt_Suc) (elim disjE; simp)
qed

lemma nibble_digit: "n < 16 \<Longrightarrow> nibble (digit_char n) = Some n"
  by (simp add: of_char_digit Let_def)

lemma byte_digits: "unat (b :: 8 word) div 16 < 16" "16 * (unat b div 16) + unat b mod 16 = unat b"
  using unsigned_less [of b, where 'a = nat] by simp_all

lemma hex_decode_encode: "hex_decode (hex_encode bs) = Some bs"
proof (induction bs)
  case (Cons b bs)
  have "of_nat (16 * (unat b div 16) + unat b mod 16) = b"
    by (simp only: byte_digits(2)) simp
  with Cons show ?case
    using byte_digits(1) [of b] by (simp add: hex_encode_def hex_byte_def nibble_digit del: nibble.simps)
qed (simp add: hex_encode_def)

lemma nibble_lower: "nibble c = Some n \<Longrightarrow> lower_char c = c \<Longrightarrow> n < 16 \<and> c = digit_char n"
proof -
  assume a: "nibble c = Some n" "lower_char c = c"
  have c256: "(of_char c :: nat) < 256" by (rule nat_of_char_less_256)
  have low: "\<not> (65 \<le> (of_char c :: nat) \<and> (of_char c :: nat) \<le> 90)"
  proof
    assume u: "65 \<le> (of_char c :: nat) \<and> (of_char c :: nat) \<le> 90"
    with a(2) have "(char_of ((of_char c :: nat) + 32) :: char) = c" by (simp add: lower_char_def)
    then have "(of_char (char_of ((of_char c :: nat) + 32) :: char) :: nat) = of_char c" by simp
    with u show False by simp
  qed
  from a(1) low have n: "n < 16" "(of_char c :: nat) = (if n < 10 then 48 + n else 87 + n)"
    by (auto simp: Let_def split: if_splits)
  then have "(of_char c :: nat) = of_char (digit_char n)" by (simp add: of_char_digit)
  then have "c = digit_char n" by (simp only: of_char_eq_iff)
  with n(1) show ?thesis by simp
qed

lemma hex_encode_decode: "hex_decode s = Some bs \<Longrightarrow> lower_str s = s \<Longrightarrow> hex_encode bs = s"
proof (induction s arbitrary: bs rule: hex_decode.induct)
  case (3 a b cs)
  from 3(2) obtain x y bs' where d: "nibble a = Some x" "nibble b = Some y" "hex_decode cs = Some bs'"
    "bs = of_nat (16 * x + y) # bs'" by (auto split: option.splits simp del: nibble.simps)
  from 3(3) have l: "lower_char a = a" "lower_char b = b" "lower_str cs = cs" by (simp_all add: lower_str_def)
  note x = nibble_lower [OF d(1) l(1)] and y = nibble_lower [OF d(2) l(2)]
  have "unat (of_nat (16 * x + y) :: 8 word) = (16 * x + y) mod 2 ^ 8"
    by (simp only: unat_of_nat) simp
  then have "unat (of_nat (16 * x + y) :: 8 word) = 16 * x + y" using x y by simp
  then have "hex_byte (of_nat (16 * x + y)) = [a, b]" using x y by (simp add: hex_byte_def)
  with 3(1) [OF d(3) l(3)] d(4) show ?case by (simp add: hex_encode_def)
qed (auto simp: hex_encode_def)

lemma lower_str_idem: "lower_str (lower_str s) = lower_str s"
proof -
  have "lower_char (lower_char c) = lower_char c" for c
    by (auto simp: lower_char_def)
  then show ?thesis by (simp add: lower_str_def)
qed

lemma parse_sha256_Inr:
  assumes "parse_sha256 s = Inr (b, h)"
  shows "length b = 32 \<and> h = hex_encode b \<and> h = lower_str s"
proof -
  from assms have h: "length (lower_str s) = 64" "hex_decode (lower_str s) = Some b" "h = lower_str s"
    by (auto simp: parse_sha256_def Let_def result_simps split: if_splits)
  have e: "hex_encode b = lower_str s" by (rule hex_encode_decode [OF h(2) lower_str_idem])
  have "2 * length b = 64" using length_hex_encode [of b] e h(1) by simp
  with e h(3) show ?thesis by simp
qed

lemma parse_sha256_hex:
  assumes "length b = 32"
  shows "parse_sha256 (hex_encode b) = Inr (b, hex_encode b)"
proof -
  have d: "lower_char (digit_char n) = digit_char n \<and> is_hexdigit (digit_char n)" for n
  proof -
    have "n mod 16 \<in> set [0..<16]" by simp
    then have "lower_char (''0123456789abcdef'' ! (n mod 16)) = ''0123456789abcdef'' ! (n mod 16) \<and>
        is_hexdigit (''0123456789abcdef'' ! (n mod 16))"
      by (simp add: upt_rec lower_char_def is_hexdigit_def del: upt_Suc) (elim disjE; simp)
    then show ?thesis by (simp add: digit_char_def)
  qed
  have l: "lower_str (hex_encode b) = hex_encode b"
    by (induction b) (simp_all add: hex_encode_def lower_str_def hex_byte_def d)
  have "list_all is_hexdigit (hex_encode b)"
    by (induction b) (simp_all add: hex_encode_def hex_byte_def d)
  with l assms show ?thesis by (simp add: parse_sha256_def Let_def hex_decode_encode)
qed

subsection \<open>What is signed\<close>

lemma upper_digit_in: "upper_digit n \<in> set ''0123456789ABCDEF''"
  unfolding upper_digit_def by (rule nth_mem) simp

lemma percent_no_newline: "CHR 0x0A \<notin> set (percent c)"
proof -
  have "upper_digit n \<noteq> CHR 0x0A" for n using upper_digit_in [of n] by auto
  from this [symmetric] show ?thesis by (simp add: percent_def)
qed

lemma uri_encode_no_newline: "CHR 0x0A \<notin> set (uri_encode es s)"
  using percent_no_newline by (auto simp: uri_encode_def unreserved_def is_alnum_def)

lemma canonical_path_eq: "canonical_path bucket key = ''/'' @ uri_encode True bucket @ ''/'' @ uri_encode False key"
proof -
  have split: "split_on c s \<noteq> []" for c s by (cases s) (auto split: list.splits)
  have "concat (map (\<lambda>seg. ''/'' @ uri_encode True seg) (split_on (CHR ''/'') key)) = ''/'' @ uri_encode False key"
  proof (induction key)
    case (Cons x xs)
    obtain p ps where p: "split_on (CHR ''/'') xs = p # ps" using split by (cases "split_on (CHR ''/'') xs") auto
    have e: "uri_encode True [x] = uri_encode False [x]" if "x \<noteq> CHR ''/''"
      using that by (simp add: uri_encode_def unreserved_def)
    have cons: "uri_encode b (y # ys) = uri_encode b [y] @ uri_encode b ys" for b y ys
      by (simp add: uri_encode_def)
    show ?case
    proof (cases "x = CHR ''/''")
      case True
      then show ?thesis using Cons p by (simp add: uri_encode_def unreserved_def)
    next
      case False
      then show ?thesis using Cons p e cons [of True x p] cons [of False x xs] by simp
    qed
  qed (simp add: uri_encode_def)
  then show ?thesis by (simp add: canonical_path_def)
qed

text \<open>Percent-encoding is invertible.\<close>

fun uri_decode :: "string \<Rightarrow> string" where
  "uri_decode [] = []"
| "uri_decode [c] = [c]"
| "uri_decode [c, d] = [c, d]"
| "uri_decode (c # x # y # cs) = (if c = CHR ''%'' then
     (case (nibble x, nibble y) of (Some a, Some b) \<Rightarrow> char_of (16 * a + b) # uri_decode cs | _ \<Rightarrow> c # uri_decode (x # y # cs))
   else c # uri_decode (x # y # cs))"

lemma uri_decode_Cons: "c \<noteq> CHR ''%'' \<Longrightarrow> uri_decode (c # cs) = c # uri_decode cs"
  by (cases cs rule: uri_decode.cases) auto

lemma nibble_upper: "n < 16 \<Longrightarrow> nibble (upper_digit n) = Some n"
proof -
  assume "n < 16"
  then have "n \<in> set [0..<16]" by simp
  then show ?thesis by (simp add: upt_rec upper_digit_def del: upt_Suc) (elim disjE; simp add: Let_def)
qed

lemma uri_decode_encode: "uri_decode (uri_encode es s) = s"
proof (induction s)
  case (Cons c s)
  have cons: "uri_encode es (c # s) = uri_encode es [c] @ uri_encode es s"
    by (simp add: uri_encode_def)
  show ?case
  proof (cases "unreserved es c")
    case True
    then have "c \<noteq> CHR ''%''" by (auto simp: unreserved_def is_alnum_def Let_def)
    with True Cons cons show ?thesis by (simp add: uri_encode_def uri_decode_Cons)
  next
    case False
    have "(of_char c :: nat) < 16 * 16" using nat_of_char_less_256 [of c] by simp
    then have d: "(of_char c :: nat) div 16 < 16" "(of_char c :: nat) mod 16 < 16"
      by (rule less_mult_imp_div_less) simp
    have "(char_of (16 * ((of_char c :: nat) div 16) + (of_char c :: nat) mod 16) :: char) = c"
      by (simp only: mult_div_mod_eq) simp
    with False Cons cons d show ?thesis
      by (simp add: uri_encode_def percent_def nibble_upper del: nibble.simps)
  qed
qed (simp add: uri_encode_def)

lemma uri_encode_inj: "uri_encode es s = uri_encode es s' \<longleftrightarrow> s = s'"
  by (metis uri_decode_encode)

lemma newline_parts:
  "a @ newline @ b = a' @ newline @ b' \<Longrightarrow> CHR 0x0A \<notin> set a \<Longrightarrow> CHR 0x0A \<notin> set a' \<Longrightarrow> a = a' \<and> b = b'"
  using newline_split [of a b a' b'] by (simp add: newline_def)

lemma show_nat_inj: "show_nat m = show_nat n \<longleftrightarrow> m = n"
  using digits_value_show by (metis option.inject)

lemma header_pairs_simps:
  "header_pairs host None = [(''host'', host)]"
  "header_pairs host (Some len) = [(''content-length'', show_nat len), (''host'', host)]"
  by (simp_all add: header_pairs_def less_eq_char_def)

lemma join_no_newline:
  "CHR 0x0A \<notin> set sep \<Longrightarrow> (\<And>x. x \<in> set xs \<Longrightarrow> CHR 0x0A \<notin> set x) \<Longrightarrow> CHR 0x0A \<notin> set (join_with sep xs)"
  by (induction sep xs rule: join_with.induct) auto

lemma presign_query_no_newline: "CHR 0x0A \<notin> set (presign_query X cfg len now)"
  unfolding presign_query_def canonical_query_def
  by (rule join_no_newline) (auto simp: uri_encode_no_newline)

lemma canonical_path_no_newline: "CHR 0x0A \<notin> set (canonical_path bucket key)"
  by (simp add: canonical_path_eq uri_encode_no_newline)

subsection \<open>Properties\<close>

text \<open>Storage keys separate tenants. The hash a client sends is accepted only as 64 hexadecimal
  digits and is its 32 bytes, whatever the case it was written in; two blobs share a storage key
  exactly when tenant and hash agree, a snapshot never shares one with a blob, and every key lies
  under the tenant's own prefix.\<close>

theorem storage_keys_separate_tenants:
  assumes "parse_sha256 s = Inr (b, h)" and "parse_sha256 s' = Inr (b', h')"
  shows "length b = 32 \<and> h = hex_encode b \<and> (lower_str s = lower_str s' \<longleftrightarrow> b = b') \<and>
    (object_key w h = object_key w' h' \<longleftrightarrow> w = w' \<and> b = b') \<and>
    (snapshot_object_key w h = snapshot_object_key w' h' \<longleftrightarrow> w = w' \<and> b = b') \<and>
    object_key w h \<noteq> snapshot_object_key w' h' \<and>
    take 45 (object_key w h) = ''tenants/'' @ show_uuid w @ ''/'' \<and>
    take 45 (snapshot_object_key w h) = ''tenants/'' @ show_uuid w @ ''/''"
proof -
  note p = parse_sha256_Inr [OF assms(1)] and p' = parse_sha256_Inr [OF assms(2)]
  have hb: "h = h' \<longleftrightarrow> b = b'" using p p' hex_encode_inj by metis
  have l: "lower_str s = h" "lower_str s' = h'" by (rule p [THEN conjunct2, THEN conjunct2, symmetric], rule p' [THEN conjunct2, THEN conjunct2, symmetric])
  have t: "take 45 (''tenants/'' @ show_uuid w @ CHR ''/'' # r) = ''tenants/'' @ show_uuid w @ ''/''" for r
    by simp
  show ?thesis
    unfolding l object_key_inj snapshot_object_key_inj hb
    using p object_key_not_snapshot t by (simp add: object_key_def snapshot_object_key_def)
qed

lemma storage_keys_separate_tenants_witness:
  "object_key 1 (hex_encode (replicate 32 10)) \<noteq> object_key 2 (hex_encode (replicate 32 10)) \<and>
   object_key 1 (hex_encode (replicate 32 10)) \<noteq> snapshot_object_key 1 (hex_encode (replicate 32 10))"
proof -
  have p: "parse_sha256 (hex_encode (replicate 32 10)) = Inr (replicate 32 10, hex_encode (replicate 32 10))"
    by (rule parse_sha256_hex) simp
  show ?thesis
    using storage_keys_separate_tenants [OF p p, of 1 2] storage_keys_separate_tenants [OF p p, of 1 1] by simp
qed

text \<open>A presigned URL is good for one request only. What is signed determines the method, the
  object and whether and to which length the upload is pinned: two requests presigned under one
  configuration, at whatever times, have the same canonical request only if they agree in all
  three. So a URL signed for one object or one declared size signs no other.\<close>

theorem presign_binds_request:
  assumes "presign_request X cfg meth key len now = presign_request X cfg meth' key' len' now'"
    and "CHR 0x0A \<notin> set meth" and "CHR 0x0A \<notin> set meth'"
  shows "meth = meth' \<and> key = key' \<and> len = len'"
proof -
  let ?hs = "\<lambda>len. concat (map (\<lambda>(k, v). k @ '':'' @ v @ newline) (header_pairs (endpoint_host cfg) len))"
  let ?tail = "\<lambda>len. ?hs len @ newline @ signed_headers cfg len @ newline @ ''UNSIGNED-PAYLOAD''"
  let ?p = "\<lambda>key. canonical_path (sc_bucket cfg) key"
  have "meth @ newline @ (?p key @ newline @ presign_query X cfg len now @ newline @ ?tail len) =
      meth' @ newline @ (?p key' @ newline @ presign_query X cfg len' now' @ newline @ ?tail len')"
    using assms(1) by (simp add: presign_request_def canonical_request_def)
  from newline_parts [OF this assms(2,3)] have m: "meth = meth'" and
    e: "?p key @ newline @ (presign_query X cfg len now @ newline @ ?tail len) =
      ?p key' @ newline @ (presign_query X cfg len' now' @ newline @ ?tail len')" by auto
  from newline_parts [OF e canonical_path_no_newline canonical_path_no_newline]
  have pa: "?p key = ?p key'" and
    q: "presign_query X cfg len now @ newline @ ?tail len = presign_query X cfg len' now' @ newline @ ?tail len'" by auto
  from newline_parts [OF q presign_query_no_newline presign_query_no_newline] have t: "?tail len = ?tail len'" by simp
  have "key = key'" using pa by (simp add: canonical_path_eq uri_encode_inj)
  moreover have "len = len'"
  proof (cases len; cases len')
    fix n n' assume "len = Some n" "len' = Some n'"
    with t have "(''content-length:'' @ show_nat n) @ newline @ (''host:'' @ endpoint_host cfg @ newline @ newline
          @ signed_headers cfg len @ newline @ ''UNSIGNED-PAYLOAD'') =
        (''content-length:'' @ show_nat n') @ newline @ (''host:'' @ endpoint_host cfg @ newline @ newline
          @ signed_headers cfg len' @ newline @ ''UNSIGNED-PAYLOAD'')"
      by (simp add: header_pairs_simps)
    from newline_parts [OF this] have "show_nat n = show_nat n'"
      using show_nat_no_newline by auto
    with \<open>len = Some n\<close> \<open>len' = Some n'\<close> show ?thesis by (simp add: show_nat_inj)
  qed (use t in \<open>auto simp: header_pairs_simps\<close>)
  ultimately show ?thesis using m by simp
qed

definition sample_storage :: storage_config where
  "sample_storage = \<lparr>sc_endpoint = ''http://minio:9000/'', sc_region = ''us'', sc_bucket = ''b'',
     sc_access_key = ''k'', sc_secret = ''s'', sc_public_endpoint = None, sc_ttl = 900\<rparr>"

lemma presign_binds_request_witness:
  "presign_request toy_crates sample_storage ''PUT'' ''a'' (Some 10) 0 \<noteq>
     presign_request toy_crates sample_storage ''PUT'' ''a'' (Some 11) 5"
  using presign_binds_request [of toy_crates sample_storage "''PUT''" "''a''" "Some 10" 0 "''PUT''" "''a''" "Some 11" 5]
  by auto

end
