(* ===== verification/Audio_Blobs.thy ===== *)
theory Audio_Blobs
  imports Object_Storage Choke Devices
begin

text \<open>
  Audio: \<open>crates/yapstack-server/src/audio.rs\<close>. The presign transaction with its mapping-count
  reference counting, in two halves: what it reads without a lock and what it writes, so that
  concurrent requests can be told apart from serial ones; the handler around it; and the redirect
  to a part's blob. Counts are integers (a blob does not reach \<open>2^63\<close> references).
\<close>

record presign_query_params =
  pq_sha256 :: string
  pq_size :: int
  pq_part :: uuid
  pq_session :: uuid

record presign_response =
  pre_already_exists :: bool
  pre_upload_url :: "string option"
  pre_object_key :: string
  pre_content_length :: int

definition add_ref :: "uuid \<Rightarrow> bytes \<Rightarrow> db \<Rightarrow> db" where
  "add_ref t hash d = d\<lparr>blobs := update_where (\<lambda>r. ab_ws r = t \<and> ab_hash r = hash)
     (\<lambda>r. r\<lparr>ab_refcount := ab_refcount r + 1, ab_released_at := None\<rparr>) (blobs d)\<rparr>"

definition drop_ref :: "timestamp \<Rightarrow> uuid \<Rightarrow> bytes \<Rightarrow> db \<Rightarrow> db" where
  "drop_ref now t hash d = d\<lparr>blobs := update_where (\<lambda>r. ab_ws r = t \<and> ab_hash r = hash)
     (\<lambda>r. r\<lparr>ab_refcount := max 0 (ab_refcount r - 1),
            ab_released_at := (if ab_refcount r - 1 \<le> 0 \<and> ab_released_at r = None
                               then Some now else ab_released_at r)\<rparr>) (blobs d)\<rparr>"

definition blob_of :: "uuid \<Rightarrow> bytes \<Rightarrow> db \<Rightarrow> blob_row option" where
  "blob_of t hash d = fetch_optional (\<lambda>r. ab_ws r = t \<and> ab_hash r = hash) (blobs d)"

definition mapping_of :: "uuid \<Rightarrow> uuid \<Rightarrow> db \<Rightarrow> bytes option" where
  "mapping_of t part d = map_option ao_hash (fetch_optional (\<lambda>r. ao_ws r = t \<and> ao_part r = part) (objects d))"

text \<open>The two unlocked reads.\<close>

record audio_seen =
  se_size :: "int option"
  se_old :: "bytes option"

definition audio_read :: "uuid \<Rightarrow> bytes \<Rightarrow> uuid \<Rightarrow> db \<Rightarrow> audio_seen" where
  "audio_read t hash part d = \<lparr>se_size = map_option ab_size (blob_of t hash d), se_old = mapping_of t part d\<rparr>"

text \<open>\<open>INSERT INTO audio_objects .. ON CONFLICT DO UPDATE\<close>.\<close>

definition point_part :: "uuid \<Rightarrow> uuid \<Rightarrow> uuid \<Rightarrow> bytes \<Rightarrow> unit tx" where
  "point_part t part session hash = (\<lambda>d.
     if exists_row (\<lambda>r. ao_ws r = t \<and> ao_part r = part) (objects d)
     then Inr ((), d\<lparr>objects := update_where (\<lambda>r. ao_ws r = t \<and> ao_part r = part)
            (\<lambda>r. r\<lparr>ao_hash := hash, ao_session := session\<rparr>) (objects d)\<rparr>)
     else tx_seq (tx_fk_workspace t) (tx_write (\<lambda>d. d\<lparr>objects := objects d @
            [\<lparr>ao_ws = t, ao_part = part, ao_session = session, ao_hash = hash\<rparr>]\<rparr>)) d)"

text \<open>\<open>INSERT INTO audio_blobs .. ON CONFLICT DO NOTHING\<close>, with whether a row was inserted.\<close>

definition insert_blob :: "uuid \<Rightarrow> bytes \<Rightarrow> int \<Rightarrow> bool tx" where
  "insert_blob t hash sz = (\<lambda>d.
     if exists_row (\<lambda>r. ab_ws r = t \<and> ab_hash r = hash) (blobs d) then Inr (False, d)
     else tx_seq (tx_fk_workspace t) (tx_seq (tx_write (\<lambda>d. d\<lparr>blobs := blobs d @
            [\<lparr>ab_ws = t, ab_hash = hash, ab_size = sz, ab_refcount = 1, ab_released_at = None\<rparr>]\<rparr>))
            (tx_return True)) d)"

definition as_u64 :: "int \<Rightarrow> int" where
  "as_u64 sz = max 0 sz"

text \<open>The writing half: the part's old blob loses a reference, the part is pointed at the new one,
  and the new one gains a reference or is created and metered. The result is the stored size and
  whether the blob row was created.\<close>

definition release_old :: "timestamp \<Rightarrow> uuid \<Rightarrow> bytes \<Rightarrow> audio_seen \<Rightarrow> unit tx" where
  "release_old now t hash seen = (case se_old seen of
     Some oh \<Rightarrow> tx_when (oh \<noteq> hash) (tx_write (drop_ref now t oh)) | None \<Rightarrow> tx_return ())"

definition count_ref :: "uuid \<Rightarrow> bytes \<Rightarrow> audio_seen \<Rightarrow> unit tx" where
  "count_ref t hash seen = tx_when (se_old seen \<noteq> Some hash) (tx_write (add_ref t hash))"

definition claim_blob :: "timestamp \<Rightarrow> uuid \<Rightarrow> tenant_limits \<Rightarrow> string \<Rightarrow> presign_query_params \<Rightarrow> bytes
    \<Rightarrow> audio_seen \<Rightarrow> (int \<times> bool) tx" where
  "claim_blob now t limits help_url q hash seen = (case se_size seen of
       Some sz \<Rightarrow> tx_seq (count_ref t hash seen) (tx_return (as_u64 sz, False))
     | None \<Rightarrow>
         tx_bind (insert_blob t hash (to_i64_sat (pq_size q))) (\<lambda>inserted.
           if \<not> inserted
           then tx_bind (tx_read (blob_of t hash)) (\<lambda>stored.
                  tx_seq (count_ref t hash seen) (tx_return
                    ((case stored of None \<Rightarrow> pq_size q | Some b \<Rightarrow> as_u64 (ab_size b)), False)))
           else tx_seq (admit now t limits (pq_size q) help_url) (tx_return (pq_size q, True))))"

definition audio_write :: "timestamp \<Rightarrow> uuid \<Rightarrow> tenant_limits \<Rightarrow> string \<Rightarrow> presign_query_params \<Rightarrow> bytes
    \<Rightarrow> audio_seen \<Rightarrow> (int \<times> bool) tx" where
  "audio_write now t limits help_url q hash seen =
     tx_seq (release_old now t hash seen)
       (tx_seq (point_part t (pq_part q) (pq_session q) hash) (claim_blob now t limits help_url q hash seen))"

subsection \<open>The handler\<close>

record relay_env =
  re_now :: timestamp
  re_source :: limit_source
  re_help_url :: string
  re_storage :: "storage_config option"
  re_net :: storage_service

definition storage_cfg :: "relay_env \<Rightarrow> app_error + storage_config" where
  "storage_cfg env = ok_or (re_storage env) (Unavailable ''object storage not configured'')"

definition audio_presign_tx ::
  "relay_env \<Rightarrow> auth_tenant \<Rightarrow> presign_query_params \<Rightarrow> (storage_config \<times> string \<times> int \<times> bool) tx" where
  "audio_presign_tx env auth q =
     (let t = au_tenant auth in
      tx_seq (require_active_caller t (au_client auth)) (
      tx_bind (tx_lift (storage_cfg env)) (\<lambda>cfg.
      tx_bind (tx_lift (parse_sha256 (pq_sha256 q))) (\<lambda>(hash, hash_hex).
      tx_bind (tx_read (\<lambda>d. limits_for (re_source env) (Some (fetch_limits_row t d)))) (\<lambda>limits.
      tx_bind (tx_read (audio_read t hash (pq_part q))) (\<lambda>seen.
      tx_bind (audio_write (re_now env) t limits (re_help_url env) q hash seen) (\<lambda>(stored, new_object).
      tx_return (cfg, object_key t hash_hex, stored, new_object))))))))"

definition upload_response :: "string \<Rightarrow> string \<Rightarrow> int \<Rightarrow> presign_response" where
  "upload_response key url content_length = \<lparr>pre_already_exists = False, pre_upload_url = Some url,
     pre_object_key = key, pre_content_length = content_length\<rparr>"

text \<open>After the commit: an upload URL, or \<open>already_exists\<close> when the object is confirmed.\<close>

definition audio_answer :: "crates \<Rightarrow> relay_env \<Rightarrow> presign_query_params \<Rightarrow> storage_config \<times> string \<times> int \<times> bool
    \<Rightarrow> presign_response" where
  "audio_answer X env q r = (case r of (cfg, key, stored, new_object) \<Rightarrow>
     if new_object
     then upload_response key (presign X cfg ''PUT'' key (Some (nat (pq_size q))) (re_now env)) (pq_size q)
     else if (case object_exists X cfg (re_now env) (re_net env) key of Inr b \<Rightarrow> b | Inl _ \<Rightarrow> False)
     then \<lparr>pre_already_exists = True, pre_upload_url = None, pre_object_key = key, pre_content_length = stored\<rparr>
     else upload_response key (presign X cfg ''PUT'' key (Some (nat stored)) (re_now env)) stored)"

definition audio_presign :: "crates \<Rightarrow> relay_env \<Rightarrow> auth_tenant \<Rightarrow> presign_query_params \<Rightarrow> db
    \<Rightarrow> db \<times> (app_error + presign_response)" where
  "audio_presign X env auth q d = (case run_tx (audio_presign_tx env auth q) d of
     (d', Inl e) \<Rightarrow> (d', Inl e) | (d', Inr r) \<Rightarrow> (d', Inr (audio_answer X env q r)))"

definition get_by_part :: "crates \<Rightarrow> relay_env \<Rightarrow> auth_tenant \<Rightarrow> uuid \<Rightarrow> db \<Rightarrow> app_error + string" where
  "get_by_part X env auth part d =
     bind_result (storage_cfg env) (\<lambda>cfg.
     bind_result (ok_or (mapping_of (au_tenant auth) part d) NotFound) (\<lambda>hash.
       Inr (presign X cfg ''GET'' (object_key (au_tenant auth) (hex_encode hash)) None (re_now env))))"

subsection \<open>The mapping count\<close>

definition refs :: "uuid \<Rightarrow> bytes \<Rightarrow> db \<Rightarrow> nat" where
  "refs t hash d = rows_where (\<lambda>r. ao_ws r = t \<and> ao_hash r = hash) (objects d)"

text \<open>A tenant's parts and blobs are keyed, every blob counts exactly the parts that point at it and
  is released exactly while the count is zero, and every part points at a blob.\<close>

definition counted :: "uuid \<Rightarrow> (bytes \<Rightarrow> int) \<Rightarrow> db \<Rightarrow> bool" where
  "counted t c d \<longleftrightarrow> (\<forall>b\<in>set (blobs d). ab_ws b = t \<longrightarrow>
     ab_refcount b = c (ab_hash b) \<and> (ab_released_at b \<noteq> None \<longleftrightarrow> ab_refcount b = 0))"

definition blob_hashes :: "uuid \<Rightarrow> db \<Rightarrow> bytes list" where
  "blob_hashes t d = map ab_hash (filter (\<lambda>r. ab_ws r = t) (blobs d))"

definition audio_inv :: "uuid \<Rightarrow> db \<Rightarrow> bool" where
  "audio_inv t d \<longleftrightarrow>
     distinct (map ao_part (filter (\<lambda>r. ao_ws r = t) (objects d))) \<and> distinct (blob_hashes t d) \<and>
     counted t (\<lambda>h. int (refs t h d)) d \<and>
     (\<forall>r\<in>set (objects d). ao_ws r = t \<longrightarrow> ao_hash r \<in> set (blob_hashes t d))"

lemma audio_inv_empty: "audio_inv t empty_db"
  by (simp add: audio_inv_def counted_def blob_hashes_def empty_db_def)

lemma refs_pos_iff: "0 < refs t h d \<longleftrightarrow> (\<exists>r\<in>set (objects d). ao_ws r = t \<and> ao_hash r = h)"
  by (simp add: refs_def rows_where_pos_iff)

lemma mapping_of_Some:
  "mapping_of t part d = Some h \<Longrightarrow> \<exists>r\<in>set (objects d). ao_ws r = t \<and> ao_part r = part \<and> ao_hash r = h"
  by (auto simp: mapping_of_def dest: fetch_optional_Some)

lemma blob_of_None_iff: "blob_of t h d = None \<longleftrightarrow> h \<notin> set (blob_hashes t d)"
  by (auto simp: blob_of_def blob_hashes_def fetch_optional_None_iff)

lemma repoint_count:
  assumes "distinct (map ao_part (filter (\<lambda>r. ao_ws r = t) rows))"
  shows "int (rows_where (\<lambda>r. ao_ws r = t \<and> ao_hash r = h)
      (update_where (\<lambda>r. ao_ws r = t \<and> ao_part r = part) (\<lambda>r. r\<lparr>ao_hash := hash, ao_session := session\<rparr>) rows)) =
    int (rows_where (\<lambda>r. ao_ws r = t \<and> ao_hash r = h) rows) +
    (if h = hash \<and> (\<exists>r\<in>set rows. ao_ws r = t \<and> ao_part r = part) then 1 else 0) -
    (if map_option ao_hash (fetch_optional (\<lambda>r. ao_ws r = t \<and> ao_part r = part) rows) = Some h then 1 else 0)"
  using assms
proof (induction rows)
  case (Cons r rs)
  show ?case
  proof (cases "ao_ws r = t \<and> ao_part r = part")
    case True
    with Cons.prems have "part \<notin> ao_part ` {x \<in> set rs. ao_ws x = t}" by simp
    then have "\<not> (\<exists>r\<in>set rs. ao_ws r = t \<and> ao_part r = part)" by blast
    then have "update_where (\<lambda>r. ao_ws r = t \<and> ao_part r = part) (\<lambda>r. r\<lparr>ao_hash := hash, ao_session := session\<rparr>) rs = rs"
      by (intro update_where_id) auto
    with True show ?thesis by simp
  next
    case False
    with Cons show ?thesis by (auto split: if_splits)
  qed
qed simp

lemma point_part_effect:
  assumes "point_part t part session hash d = Inr ((), d')"
    and "distinct (map ao_part (filter (\<lambda>r. ao_ws r = t) (objects d)))"
  shows "\<exists>rows. d' = d\<lparr>objects := rows\<rparr>"
    and "distinct (map ao_part (filter (\<lambda>r. ao_ws r = t) (objects d')))"
    and "int (refs t h d') = int (refs t h d) + (if h = hash then 1 else 0)
      - (if mapping_of t part d = Some h then 1 else 0)"
    and "\<And>r. r \<in> set (objects d') \<Longrightarrow> ao_ws r = t \<Longrightarrow>
      ao_hash r = hash \<or> (\<exists>r'\<in>set (objects d). ao_ws r' = t \<and> ao_hash r' = ao_hash r)"
    and "mapping_of t part d' = Some hash"
proof -
  let ?p = "\<lambda>r. ao_ws r = t \<and> ao_part r = part"
  let ?f = "\<lambda>r. r\<lparr>ao_hash := hash, ao_session := session\<rparr>"
  let ?new = "\<lparr>ao_ws = t, ao_part = part, ao_session = session, ao_hash = hash\<rparr>"
  have cases: "(\<exists>r\<in>set (objects d). ?p r) \<and> d' = d\<lparr>objects := update_where ?p ?f (objects d)\<rparr> \<or>
      \<not> (\<exists>r\<in>set (objects d). ?p r) \<and> d' = d\<lparr>objects := objects d @ [?new]\<rparr>"
    using assms(1) by (auto simp: point_part_def result_simps split: if_splits)
  then show "\<exists>rows. d' = d\<lparr>objects := rows\<rparr>" by auto
  have keys: "map ao_part (filter (\<lambda>r. ao_ws r = t) (update_where ?p ?f rows)) =
      map ao_part (filter (\<lambda>r. ao_ws r = t) rows)" for rows
    by (induction rows) auto
  show "distinct (map ao_part (filter (\<lambda>r. ao_ws r = t) (objects d')))"
    using cases
  proof (elim disjE conjE)
    assume "\<exists>r\<in>set (objects d). ?p r" and "d' = d\<lparr>objects := update_where ?p ?f (objects d)\<rparr>"
    then show ?thesis using assms(2) by (simp add: keys)
  next
    assume "\<not> (\<exists>r\<in>set (objects d). ?p r)" and "d' = d\<lparr>objects := objects d @ [?new]\<rparr>"
    then show ?thesis using assms(2) by auto
  qed
  show "int (refs t h d') = int (refs t h d) + (if h = hash then 1 else 0)
      - (if mapping_of t part d = Some h then 1 else 0)"
    using cases
  proof (elim disjE conjE)
    assume "\<exists>r\<in>set (objects d). ?p r" and "d' = d\<lparr>objects := update_where ?p ?f (objects d)\<rparr>"
    then show ?thesis
      using repoint_count [OF assms(2), where h = h and part = part and hash = hash and session = session] by (simp add: refs_def mapping_of_def)
  next
    assume n: "\<not> (\<exists>r\<in>set (objects d). ?p r)" and "d' = d\<lparr>objects := objects d @ [?new]\<rparr>"
    moreover from n have "mapping_of t part d = None" by (simp add: mapping_of_def fetch_optional_None_iff)
    ultimately show ?thesis by (simp add: refs_def)
  qed
  show "ao_hash r = hash \<or> (\<exists>r'\<in>set (objects d). ao_ws r' = t \<and> ao_hash r' = ao_hash r)"
    if "r \<in> set (objects d')" "ao_ws r = t" for r
    using cases
  proof (elim disjE conjE)
    assume "d' = d\<lparr>objects := update_where ?p ?f (objects d)\<rparr>"
    with that(1) obtain r' where "r' \<in> set (objects d)" "r = (if ?p r' then ?f r' else r')"
      by (auto simp: set_update_where)
    with that(2) show ?thesis by (cases "?p r'") auto
  next
    assume "d' = d\<lparr>objects := objects d @ [?new]\<rparr>"
    with that(1) have "r = ?new \<or> r \<in> set (objects d)" by simp
    with that(2) show ?thesis by (elim disjE) auto
  qed
  have upd: "(\<exists>r\<in>set rows. ?p r) \<Longrightarrow> map_option ao_hash (fetch_optional ?p (update_where ?p ?f rows)) = Some hash" for rows
    by (induction rows) auto
  show "mapping_of t part d' = Some hash"
    using cases
  proof (elim disjE conjE)
    assume "\<exists>r\<in>set (objects d). ?p r" and "d' = d\<lparr>objects := update_where ?p ?f (objects d)\<rparr>"
    then show ?thesis using upd by (simp add: mapping_of_def)
  next
    assume n: "\<not> (\<exists>r\<in>set (objects d). ?p r)" and d': "d' = d\<lparr>objects := objects d @ [?new]\<rparr>"
    from n have "fetch_optional ?p (objects d) = None" by (simp add: fetch_optional_None_iff)
    with d' show ?thesis by (simp add: mapping_of_def fetch_append)
  qed
qed

lemma blob_hashes_update:
  "(\<And>r. ab_ws (f r) = ab_ws r \<and> ab_hash (f r) = ab_hash r) \<Longrightarrow>
   blob_hashes t (d\<lparr>blobs := update_where p f (blobs d)\<rparr>) = blob_hashes t d"
proof -
  assume f: "\<And>r. ab_ws (f r) = ab_ws r \<and> ab_hash (f r) = ab_hash r"
  have "map ab_hash (filter (\<lambda>r. ab_ws r = t) (update_where p f rows)) = map ab_hash (filter (\<lambda>r. ab_ws r = t) rows)" for rows
    by (induction rows) (auto simp: f)
  then show ?thesis by (simp add: blob_hashes_def)
qed

lemma blob_hashes_refs [simp]:
  "blob_hashes t (add_ref u h d) = blob_hashes t d" "blob_hashes t (drop_ref now u h d) = blob_hashes t d"
  by (simp_all add: add_ref_def drop_ref_def blob_hashes_update)

lemma counted_update:
  assumes "counted t c d"
    and "\<And>b. ab_ws b = t \<Longrightarrow> p b \<Longrightarrow> ab_refcount b = c (ab_hash b) \<Longrightarrow>
      (ab_released_at b \<noteq> None \<longleftrightarrow> ab_refcount b = 0) \<Longrightarrow>
      ab_refcount (f b) = c' (ab_hash b) \<and> (ab_released_at (f b) \<noteq> None \<longleftrightarrow> ab_refcount (f b) = 0)"
    and "\<And>b. ab_ws b = t \<Longrightarrow> \<not> p b \<Longrightarrow> c' (ab_hash b) = c (ab_hash b)"
    and "\<And>b. ab_ws (f b) = ab_ws b \<and> ab_hash (f b) = ab_hash b"
  shows "counted t c' (d\<lparr>blobs := update_where p f (blobs d)\<rparr>)"
  unfolding counted_def
proof (intro ballI impI)
  fix b assume "b \<in> set (blobs (d\<lparr>blobs := update_where p f (blobs d)\<rparr>))" and w: "ab_ws b = t"
  then obtain b0 where b0: "b0 \<in> set (blobs d)" "b = (if p b0 then f b0 else b0)"
    by (auto simp: set_update_where)
  then have w0: "ab_ws b0 = t" using w assms(4) by (cases "p b0") auto
  then have c0: "ab_refcount b0 = c (ab_hash b0)" "ab_released_at b0 \<noteq> None \<longleftrightarrow> ab_refcount b0 = 0"
    using assms(1) b0(1) by (auto simp: counted_def)
  show "ab_refcount b = c' (ab_hash b) \<and> (ab_released_at b \<noteq> None \<longleftrightarrow> ab_refcount b = 0)"
    using assms(2) [OF w0 _ c0] assms(3) [OF w0] assms(4) [of b0] b0(2) c0 by (cases "p b0") auto
qed

lemma counted_drop_ref:
  "counted t c d \<Longrightarrow> 0 < c h \<Longrightarrow> counted t (c(h := c h - 1)) (drop_ref now t h d)"
  unfolding drop_ref_def by (rule counted_update) auto

lemma counted_add_ref:
  "counted t c d \<Longrightarrow> 0 \<le> c h \<Longrightarrow> counted t (c(h := c h + 1)) (add_ref t h d)"
  unfolding add_ref_def by (rule counted_update) auto

lemma insert_blob_effect:
  assumes "insert_blob t h sz d = Inr (ins, d')"
  shows "ins \<longleftrightarrow> blob_of t h d = None"
    and "\<not> ins \<Longrightarrow> d' = d"
    and "ins \<Longrightarrow> d' = d\<lparr>blobs := blobs d @ [\<lparr>ab_ws = t, ab_hash = h, ab_size = sz, ab_refcount = 1, ab_released_at = None\<rparr>]\<rparr>"
  using assms
  by (auto simp: insert_blob_def blob_of_def fetch_optional_None_iff result_simps split: if_splits)

lemma admit_blobs:
  assumes "admit now t limits n h d = Inr (u, d')"
  shows "\<exists>rows. d' = d\<lparr>usage := rows\<rparr>"
proof -
  from assms have "admit now t limits n h d = Inr ((), d')" by simp
  from admit_Inr(2) [OF this] show ?thesis by blast
qed

text \<open>What a serial presign does to the two tables.\<close>

lemma audio_write_serial:
  assumes inv: "audio_inv t d"
    and run: "audio_write now t limits help q hash (audio_read t hash (pq_part q) d) d = Inr ((sz, fresh), d')"
  shows "audio_inv t d'" and "fresh \<longleftrightarrow> blob_of t hash d = None"
    and "mapping_of t (pq_part q) d' = Some hash"
    and "fresh \<Longrightarrow> sz = pq_size q \<and> usage_of t d' = Some (charge (to_i64_sat (pq_size q)) (metered_row now t limits d))"
    and "\<not> fresh \<Longrightarrow> \<exists>b. blob_of t hash d = Some b \<and> sz = as_u64 (ab_size b) \<and> usage d' = usage d"
proof -
  let ?part = "pq_part q"
  let ?old = "mapping_of t ?part d"
  let ?c = "\<lambda>h. int (refs t h d)"
  let ?seen = "audio_read t hash ?part d"
  have seen: "se_old ?seen = ?old" "se_size ?seen = map_option ab_size (blob_of t hash d)"
    by (simp_all add: audio_read_def)
  define d1 where "d1 = (case ?old of Some oh \<Rightarrow> if oh \<noteq> hash then drop_ref now t oh d else d | None \<Rightarrow> d)"
  have rel: "release_old now t hash ?seen d = Inr ((), d1)"
    by (simp add: release_old_def seen d1_def tx_run_simps split: option.split)
  obtain d2 where d2: "point_part t ?part (pq_session q) hash d1 = Inr ((), d2)"
    and rest: "claim_blob now t limits help q hash ?seen d2 = Inr ((sz, fresh), d')"
    using run rel by (auto simp: audio_write_def tx_seq_eq_Inr)
  have d1f: "objects d1 = objects d" "blob_hashes t d1 = blob_hashes t d" "usage d1 = usage d"
    by (auto simp: d1_def drop_ref_def blob_hashes_update split: option.splits)
  then have m1: "mapping_of t ?part d1 = ?old" and r1: "refs t h d1 = refs t h d" for h
    by (simp_all add: mapping_of_def refs_def)
  from inv have dist: "distinct (map ao_part (filter (\<lambda>r. ao_ws r = t) (objects d1)))"
    and distb: "distinct (blob_hashes t d)" and cnt: "counted t ?c d"
    and cov: "\<And>r. r \<in> set (objects d) \<Longrightarrow> ao_ws r = t \<Longrightarrow> ao_hash r \<in> set (blob_hashes t d)"
    by (auto simp: audio_inv_def d1f)
  note pt = point_part_effect [OF d2 dist]
  obtain rows where rows: "d2 = d1\<lparr>objects := rows\<rparr>" using pt(1) by blast
  have old_pos: "0 < refs t oh d \<and> oh \<in> set (blob_hashes t d)" if "?old = Some oh" for oh
    using mapping_of_Some [OF that] cov by (auto simp: refs_pos_iff)
  define c1 where "c1 = (case ?old of Some oh \<Rightarrow> if oh \<noteq> hash then ?c(oh := ?c oh - 1) else ?c | None \<Rightarrow> ?c)"
  have cnt1: "counted t c1 d1"
    using cnt old_pos unfolding c1_def d1_def
    by (auto intro: counted_drop_ref split: option.split)
  have cnt2: "counted t c1 d2" using cnt1 by (simp add: rows counted_def)
  have c1h: "c1 hash = ?c hash" by (simp add: c1_def split: option.split)
  have final: "(c1(hash := c1 hash + (if ?old = Some hash then 0 else 1))) h = int (refs t h d2)" for h
    using pt(3) [of h] old_pos by (auto simp: r1 m1 c1_def split: option.split)
  have "blob_hashes t d2 = blob_hashes t d1" by (simp add: rows blob_hashes_def)
  then have bh2: "blob_hashes t d2 = blob_hashes t d" by (simp add: d1f)
  have obj2: "ao_hash r = hash \<or> ao_hash r \<in> set (blob_hashes t d)" if "r \<in> set (objects d2)" "ao_ws r = t" for r
    using pt(4) [OF that] cov unfolding d1f(1) by metis
  have done_inv: "audio_inv t d'"
    if "objects d' = objects d2" "counted t (c1(hash := c1 hash + (if ?old = Some hash then 0 else 1))) d'"
      "set (blob_hashes t d') = insert hash (set (blob_hashes t d))" "distinct (blob_hashes t d')"
  proof -
    have "refs t h d' = refs t h d2" for h using that(1) by (simp add: refs_def)
    then have "counted t (\<lambda>h. int (refs t h d')) d'" using that(2) final by (simp add: counted_def)
    moreover have "ao_hash r \<in> set (blob_hashes t d')" if "r \<in> set (objects d')" "ao_ws r = t" for r
      using obj2 [of r] that \<open>objects d' = objects d2\<close> \<open>set (blob_hashes t d') = _\<close> by auto
    ultimately show ?thesis using pt(2) that by (simp add: audio_inv_def)
  qed
  let ?k = "if ?old = Some hash then (0::int) else 1"
  have "audio_inv t d' \<and> (fresh \<longleftrightarrow> blob_of t hash d = None) \<and> objects d' = objects d2 \<and>
      (if fresh then sz = pq_size q \<and> usage_of t d' = Some (charge (to_i64_sat (pq_size q)) (metered_row now t limits d))
       else \<exists>b. blob_of t hash d = Some b \<and> sz = as_u64 (ab_size b) \<and> usage d' = usage d)"
  proof (cases "blob_of t hash d")
    case (Some b)
    then have mem: "hash \<in> set (blob_hashes t d)" using blob_of_None_iff [of t hash d] by auto
    from rest Some have d': "d' = (if ?old = Some hash then d2 else add_ref t hash d2)" "sz = as_u64 (ab_size b)" "\<not> fresh"
      by (auto simp: claim_blob_def seen count_ref_def result_simps split: if_splits)
    have "counted t (c1(hash := c1 hash + ?k)) d'"
    proof (cases "?old = Some hash")
      case True
      then show ?thesis using cnt2 d'(1) by simp
    next
      case False
      have "0 \<le> c1 hash" using c1h by simp
      from counted_add_ref [OF cnt2 this] False d'(1) show ?thesis by simp
    qed
    then have "audio_inv t d'"
      by (rule done_inv [rotated]) (use d'(1) bh2 mem distb in \<open>auto simp: add_ref_def blob_hashes_update\<close>)
    moreover have "usage d' = usage d" using d'(1) d1f(3) by (simp add: add_ref_def rows)
    moreover have "objects d' = objects d2" using d'(1) by (simp add: add_ref_def)
    ultimately show ?thesis using Some d' by simp
  next
    case None
    then have nm: "hash \<notin> set (blob_hashes t d)" by (simp add: blob_of_None_iff)
    then have old: "?old \<noteq> Some hash" using old_pos by auto
    have z: "?c hash = 0"
    proof (rule ccontr)
      assume "?c hash \<noteq> 0"
      then have "0 < refs t hash d" by simp
      with cov nm show False by (auto simp: refs_pos_iff)
    qed
    let ?new = "\<lparr>ab_ws = t, ab_hash = hash, ab_size = to_i64_sat (pq_size q), ab_refcount = 1, ab_released_at = None\<rparr>"
    have "blob_of t hash d2 = None" using nm by (simp add: blob_of_None_iff bh2)
    then obtain d3 where d3: "insert_blob t hash (to_i64_sat (pq_size q)) d2 = Inr (True, d3)"
      and adm: "admit now t limits (pq_size q) help d3 = Inr ((), d')" and res: "sz = pq_size q" "fresh"
      using rest None by (auto simp: claim_blob_def seen result_simps dest: insert_blob_effect(1) split: if_splits)
    have b3: "d3 = d2\<lparr>blobs := blobs d2 @ [?new]\<rparr>" using insert_blob_effect(3) [OF d3] by simp
    obtain us where us: "d' = d3\<lparr>usage := us\<rparr>" using admit_blobs [OF adm] by blast
    have nm2: "ab_hash b \<noteq> hash" if "b \<in> set (blobs d2)" "ab_ws b = t" for b
      using nm that unfolding bh2 [symmetric] by (auto simp: blob_hashes_def)
    have "counted t (c1(hash := c1 hash + ?k)) d'"
      using cnt2 old z c1h nm2 by (auto simp: us b3 counted_def)
    moreover have "blob_hashes t d' = blob_hashes t d @ [hash]"
      unfolding bh2 [symmetric] by (simp add: us b3 blob_hashes_def)
    ultimately have "audio_inv t d'"
      by (intro done_inv) (use nm distb in \<open>simp_all add: us b3\<close>)
    moreover have "usage_of t d3 = usage_of t d" by (simp add: usage_of_def b3 rows d1f)
    then have "metered_row now t limits d3 = metered_row now t limits d" by (simp add: metered_row_def)
    then have "usage_of t d' = Some (charge (to_i64_sat (pq_size q)) (metered_row now t limits d))"
      using admit_Inr(3) [OF adm] by simp
    ultimately show ?thesis using None res by (simp add: us b3)
  qed
  then show "audio_inv t d'" and "fresh \<longleftrightarrow> blob_of t hash d = None"
    and "mapping_of t ?part d' = Some hash"
    and "fresh \<Longrightarrow> sz = pq_size q \<and> usage_of t d' = Some (charge (to_i64_sat (pq_size q)) (metered_row now t limits d))"
    and "\<not> fresh \<Longrightarrow> \<exists>b. blob_of t hash d = Some b \<and> sz = as_u64 (ab_size b) \<and> usage d' = usage d"
    using pt(5) by (auto simp: mapping_of_def)
qed

subsection \<open>Other tenants\<close>

lemma others_kept_blobs:
  "(\<And>t'. t' \<noteq> t \<Longrightarrow> filter (\<lambda>r. ab_ws r = t') rows = filter (\<lambda>r. ab_ws r = t') (blobs d)) \<Longrightarrow>
   others_kept t d (d\<lparr>blobs := rows\<rparr>)"
  by (simp add: others_kept_def tenant_view_def)

lemma others_kept_objects:
  "(\<And>t'. t' \<noteq> t \<Longrightarrow> filter (\<lambda>r. ao_ws r = t') rows = filter (\<lambda>r. ao_ws r = t') (objects d)) \<Longrightarrow>
   others_kept t d (d\<lparr>objects := rows\<rparr>)"
  by (simp add: others_kept_def tenant_view_def)

lemma frames_add_ref [frame_intros]: "frames t (tx_write (add_ref t h))"
  unfolding add_ref_def by (intro frame_intros others_kept_blobs table_simps) auto

lemma frames_drop_ref [frame_intros]: "frames t (tx_write (drop_ref now t h))"
  unfolding drop_ref_def by (intro frame_intros others_kept_blobs table_simps) auto

lemma frames_point_part [frame_intros]: "frames t (point_part t part session h)"
proof -
  have upd: "others_kept t d (d\<lparr>objects := update_where (\<lambda>r. ao_ws r = t \<and> ao_part r = part)
      (\<lambda>r. r\<lparr>ao_hash := h, ao_session := session\<rparr>) (objects d)\<rparr>)" for d
    by (intro others_kept_objects table_simps) auto
  have ins: "others_kept t d (d\<lparr>objects := objects d @ [\<lparr>ao_ws = t, ao_part = part, ao_session = session, ao_hash = h\<rparr>]\<rparr>)" for d
    by (intro others_kept_objects) simp
  show ?thesis
    using upd ins by (auto simp: frames_def point_part_def result_simps split: if_splits)
qed

lemma frames_insert_blob [frame_intros]: "frames t (insert_blob t h sz)"
proof -
  have "others_kept t d (d\<lparr>blobs := blobs d @ [\<lparr>ab_ws = t, ab_hash = h, ab_size = sz, ab_refcount = 1, ab_released_at = None\<rparr>]\<rparr>)" for d
    by (intro others_kept_blobs) simp
  then show ?thesis by (auto simp: frames_def insert_blob_def result_simps split: if_splits)
qed

lemma frames_audio_write [frame_intros]: "frames t (audio_write now t limits help q hash seen)"
  unfolding audio_write_def release_old_def claim_blob_def count_ref_def by (intro frame_intros)

lemma frames_audio_presign_tx: "frames (au_tenant auth) (audio_presign_tx env auth q)"
  unfolding audio_presign_tx_def Let_def split_def by (intro frame_intros)

lemma audio_inv_view: "tenant_view t d' = tenant_view t d \<Longrightarrow> audio_inv t d' = audio_inv t d"
proof -
  have v: "audio_inv t d = audio_inv t (tenant_view t d)" for d
  proof -
    have "rows_where (\<lambda>r. ao_ws r = t \<and> ao_hash r = h) (filter (\<lambda>r. ao_ws r = t) rows) =
        rows_where (\<lambda>r. ao_ws r = t \<and> ao_hash r = h) rows" for h rows
      by (induction rows) auto
    then have "refs t h (tenant_view t d) = refs t h d" for h by (simp add: refs_def tenant_view_def)
    then show ?thesis by (auto simp: audio_inv_def counted_def blob_hashes_def) (auto simp: tenant_view_def)
  qed
  show "tenant_view t d' = tenant_view t d \<Longrightarrow> ?thesis" using v by metis
qed

lemma audio_inv_others:
  "others_kept t d d' \<Longrightarrow> (t' = t \<Longrightarrow> audio_inv t' d') \<Longrightarrow> audio_inv t' d \<Longrightarrow> audio_inv t' d'"
  using audio_inv_view unfolding others_kept_def by metis

subsection \<open>The presign transaction\<close>

lemma audio_presign_tx_Inr:
  assumes "audio_presign_tx env auth q d = Inr ((cfg, key, sz, fresh), d')"
  obtains hash hex where "active_device (au_tenant auth) (au_client auth) d" "storage_cfg env = Inr cfg"
    "parse_sha256 (pq_sha256 q) = Inr (hash, hex)" "key = object_key (au_tenant auth) hex"
    "audio_write (re_now env) (au_tenant auth)
       (limits_for (re_source env) (Some (fetch_limits_row (au_tenant auth) d))) (re_help_url env) q hash
       (audio_read (au_tenant auth) hash (pq_part q) d) d = Inr ((sz, fresh), d')"
  using assms by (auto simp: audio_presign_tx_def Let_def result_simps split: prod.splits)

lemma audio_presign_inv:
  assumes "\<And>t. audio_inv t d"
  shows "audio_inv t (fst (run_tx (audio_presign_tx env auth q) d))"
proof (cases "audio_presign_tx env auth q d")
  case (Inl e)
  then show ?thesis using assms by (simp add: run_tx_def)
next
  case (Inr r)
  obtain cfg key sz fresh d' where r: "r = ((cfg, key, sz, fresh), d')" by (metis prod.exhaust)
  have ok: "others_kept (au_tenant auth) d d'"
    using framesD [OF frames_audio_presign_tx] Inr r by blast
  from audio_presign_tx_Inr [OF Inr [unfolded r]] obtain hash where
    "audio_write (re_now env) (au_tenant auth)
       (limits_for (re_source env) (Some (fetch_limits_row (au_tenant auth) d))) (re_help_url env) q hash
       (audio_read (au_tenant auth) hash (pq_part q) d) d = Inr ((sz, fresh), d')" by blast
  note own = audio_write_serial(1) [OF assms this]
  have "audio_inv t d'" by (rule audio_inv_others [OF ok _ assms]) (simp add: own)
  then show ?thesis using Inr r by (simp add: run_tx_def)
qed

definition blob_state :: "uuid \<Rightarrow> bytes \<Rightarrow> db \<Rightarrow> (int \<times> timestamp option) option" where
  "blob_state t h d = map_option (\<lambda>b. (ab_refcount b, ab_released_at b)) (blob_of t h d)"

subsection \<open>Properties\<close>

text \<open>C25. The mapping count is exact under serial requests. Whatever presign runs with no other one in
  between, accepted or refused, in every tenant each blob still counts exactly the parts that
  point at it and is released exactly while that count is zero, and every part points at a stored
  blob. An accepted presign points the part at the hash that was sent, under the caller's tenant.
  (Two presigns whose reads and writes interleave can leave the count too low: see
  \<open>concurrent_presigns_lose_audio\<close> of the theory \<open>Gc\<close>.)\<close>

theorem audio_presign_counts:
  assumes "\<And>t. audio_inv t d" and "audio_presign X env auth q d = (d', r)"
  shows "audio_inv t d' \<and> (\<forall>resp. r = Inr resp \<longrightarrow> (\<exists>hash hex.
    parse_sha256 (pq_sha256 q) = Inr (hash, hex) \<and> pre_object_key resp = object_key (au_tenant auth) hex \<and>
    mapping_of (au_tenant auth) (pq_part q) d' = Some hash))"
proof (intro conjI allI impI)
  show "audio_inv t d'"
    using audio_presign_inv [OF assms(1), of t env auth q] assms(2)
    by (auto simp: audio_presign_def split: prod.splits sum.splits)
  fix resp assume "r = Inr resp"
  with assms(2) obtain cfg key sz fresh where
    tx: "audio_presign_tx env auth q d = Inr ((cfg, key, sz, fresh), d')"
    and resp: "resp = audio_answer X env q (cfg, key, sz, fresh)"
    by (auto simp: audio_presign_def run_tx_def split: prod.splits sum.splits)
  from audio_presign_tx_Inr [OF tx] obtain hash hex where h: "parse_sha256 (pq_sha256 q) = Inr (hash, hex)"
    "key = object_key (au_tenant auth) hex"
    and w: "audio_write (re_now env) (au_tenant auth)
       (limits_for (re_source env) (Some (fetch_limits_row (au_tenant auth) d))) (re_help_url env) q hash
       (audio_read (au_tenant auth) hash (pq_part q) d) d = Inr ((sz, fresh), d')" by blast
  from audio_write_serial(3) [OF assms(1) w] h resp
  show "\<exists>hash hex. parse_sha256 (pq_sha256 q) = Inr (hash, hex) \<and> pre_object_key resp = object_key (au_tenant auth) hex \<and>
      mapping_of (au_tenant auth) (pq_part q) d' = Some hash"
    by (auto simp: audio_answer_def upload_response_def)
qed

definition audio_db :: db where
  "audio_db = empty_db\<lparr>workspaces := [\<lparr>ws_id = 1, ws_name = []\<rparr>], devices := [sample_device 7 DevActive]\<rparr>"

definition audio_env :: relay_env where
  "audio_env = \<lparr>re_now = 100, re_source = AllowAll, re_help_url = [], re_storage = Some sample_storage,
     re_net = (\<lambda>m u. Status 200)\<rparr>"

definition sample_query :: presign_query_params where
  "sample_query = \<lparr>pq_sha256 = hex_encode (replicate 32 10), pq_size = 5, pq_part = 3, pq_session = 4\<rparr>"

lemma sample_query_sha: "parse_sha256 (pq_sha256 sample_query) = Inr (replicate 32 10, hex_encode (replicate 32 10))"
  unfolding sample_query_def presign_query_params.simps by (rule parse_sha256_hex) simp

lemma audio_inv_audio_db: "audio_inv t audio_db"
  by (simp add: audio_inv_def counted_def blob_hashes_def audio_db_def empty_db_def)

text \<open>The first presign of a part in an empty workspace.\<close>

lemma sample_presign: "\<exists>d' resp. audio_presign X audio_env sample_auth sample_query audio_db = (d', Inr resp)"
proof -
  have "active_device 1 (Some 7) audio_db"
    by (simp add: active_device_def device_of_def audio_db_def sample_device_def)
  then have act: "require_active_caller 1 (Some 7) audio_db = Inr ((), audio_db)"
    by (simp add: require_active_caller_Inr)
  have st: "storage_cfg audio_env = Inr sample_storage" by (simp add: storage_cfg_def audio_env_def)
  have adm: "\<exists>d'. admit 100 1 unlimited 5 [] d = Inr ((), d')" if "workspaces d = [\<lparr>ws_id = 1, ws_name = []\<rparr>]" "usage d = []" for d
  proof -
    have "metered_row 100 1 unlimited d = new_usage 1 100"
      using that by (simp add: metered_row_def unlimited_def usage_of_def Let_def)
    then show ?thesis
      using admit_result(1) [of d 1 5 100 unlimited "[]"] that
      by (auto simp: fits_def new_usage_def machine_int_defs should_admit_def unlimited_def)
  qed
  let ?h = "replicate 32 (10 :: 8 word)"
  let ?seen = "audio_read 1 ?h 3 audio_db"
  have seen: "se_old ?seen = None" "se_size ?seen = None"
    by (simp_all add: audio_read_def mapping_of_def blob_of_def audio_db_def empty_db_def)
  define d2 where "d2 = audio_db\<lparr>objects := [\<lparr>ao_ws = 1, ao_part = 3, ao_session = 4, ao_hash = ?h\<rparr>]\<rparr>"
  define d3 where "d3 = d2\<lparr>blobs := [\<lparr>ab_ws = 1, ab_hash = ?h, ab_size = 5, ab_refcount = 1, ab_released_at = None\<rparr>]\<rparr>"
  have s1: "release_old 100 1 ?h ?seen audio_db = Inr ((), audio_db)"
    by (simp add: release_old_def seen tx_return_def)
  have s2: "point_part 1 3 4 ?h audio_db = Inr ((), d2)"
    by (simp add: point_part_def d2_def audio_db_def empty_db_def tx_run_simps)
  have s3: "insert_blob 1 ?h 5 d2 = Inr (True, d3)"
    by (simp add: insert_blob_def d3_def d2_def audio_db_def empty_db_def tx_run_simps)
  obtain d4 where s4: "admit 100 1 unlimited 5 [] d3 = Inr ((), d4)"
    using adm [of d3] by (auto simp: d3_def d2_def audio_db_def empty_db_def)
  have q: "pq_part sample_query = 3" "pq_session sample_query = 4" "pq_size sample_query = 5"
    by (simp_all add: sample_query_def)
  have w: "audio_write 100 1 unlimited [] sample_query ?h ?seen audio_db = Inr ((5, True), d4)"
    unfolding audio_write_def claim_blob_def seen
    by (simp add: tx_seq_def tx_bind_def s1 s2 q s3 s4 tx_return_def to_i64_sat_def i64_max_def del: replicate.simps)
  have env: "re_now audio_env = 100" "re_source audio_env = AllowAll" "re_help_url audio_env = []"
    by (simp_all add: audio_env_def)
  have "audio_presign_tx audio_env sample_auth sample_query audio_db =
      Inr ((sample_storage, object_key 1 (hex_encode ?h), 5, True), d4)"
    unfolding audio_presign_tx_def Let_def
    by (simp add: sample_auth_def tx_seq_def tx_bind_def act tx_lift_def st sample_query_sha tx_read_def
        limits_for_def env q w tx_return_def del: replicate.simps)
  then show ?thesis by (auto simp: audio_presign_def run_tx_def)
qed

lemma audio_presign_counts_witness:
  "\<exists>resp. snd (audio_presign toy_crates audio_env sample_auth sample_query audio_db) = Inr resp \<and>
     mapping_of 1 3 (fst (audio_presign toy_crates audio_env sample_auth sample_query audio_db)) = Some (replicate 32 10)"
proof -
  obtain d' resp where p: "audio_presign toy_crates audio_env sample_auth sample_query audio_db = (d', Inr resp)"
    using sample_presign by blast
  from audio_presign_counts [OF audio_inv_audio_db p, of 1] have "mapping_of 1 3 d' = Some (replicate 32 10)"
    using sample_query_sha by (auto simp: sample_auth_def sample_query_def)
  with p show ?thesis by simp
qed

text \<open>New bytes are metered once, and nothing is reported stored that is not confirmed. When the
  tenant has no blob with this hash, an accepted presign charges exactly the declared size at the
  choke point and answers with an upload URL; when it has one, nothing is charged, the pinned
  length is the stored size, and the answer is \<open>already_exists\<close> exactly when the \<open>HEAD\<close> confirmed
  the object, an error included in "not confirmed".\<close>

theorem audio_presign_meters_once:
  assumes "audio_inv (au_tenant auth) d" and "parse_sha256 (pq_sha256 q) = Inr (hash, hex)"
    and "audio_presign X env auth q d = (d', Inr resp)" and "re_storage env = Some cfg"
  defines "lim \<equiv> limits_for (re_source env) (Some (fetch_limits_row (au_tenant auth) d))"
  shows "case blob_of (au_tenant auth) hash d of
     None \<Rightarrow> usage_of (au_tenant auth) d' =
         Some (charge (to_i64_sat (pq_size q)) (metered_row (re_now env) (au_tenant auth) lim d)) \<and>
       \<not> pre_already_exists resp \<and> pre_upload_url resp \<noteq> None \<and> pre_content_length resp = pq_size q
   | Some b \<Rightarrow> usage d' = usage d \<and> pre_content_length resp = max 0 (ab_size b) \<and>
       (pre_already_exists resp \<longleftrightarrow>
          object_exists X cfg (re_now env) (re_net env) (object_key (au_tenant auth) hex) = Inr True) \<and>
       (pre_already_exists resp \<longleftrightarrow> pre_upload_url resp = None)"
proof -
  from assms(3) obtain cfg' key sz fresh where
    tx: "audio_presign_tx env auth q d = Inr ((cfg', key, sz, fresh), d')"
    and resp: "resp = audio_answer X env q (cfg', key, sz, fresh)"
    by (auto simp: audio_presign_def run_tx_def split: prod.splits sum.splits)
  from audio_presign_tx_Inr [OF tx] have h: "storage_cfg env = Inr cfg'" "key = object_key (au_tenant auth) hex"
    and w: "audio_write (re_now env) (au_tenant auth) lim (re_help_url env) q hash
       (audio_read (au_tenant auth) hash (pq_part q) d) d = Inr ((sz, fresh), d')"
    using assms(2) by (auto simp: lim_def)
  from h(1) assms(4) have cfg: "cfg' = cfg" by (simp add: storage_cfg_def)
  note ser = audio_write_serial [OF assms(1) w]
  show ?thesis
  proof (cases "blob_of (au_tenant auth) hash d")
    case None
    then have "fresh" using ser(2) by simp
    with ser(4) None resp show ?thesis by (simp add: audio_answer_def upload_response_def)
  next
    case (Some b)
    then have "\<not> fresh" using ser(2) by simp
    with ser(5) Some resp h(2) cfg show ?thesis
      by (auto simp: audio_answer_def upload_response_def as_u64_def split: sum.splits)
  qed
qed

lemma audio_presign_meters_once_witness:
  "\<exists>d' resp. audio_presign toy_crates audio_env sample_auth sample_query audio_db = (d', Inr resp) \<and>
     \<not> pre_already_exists resp \<and> pre_content_length resp = 5"
proof -
  obtain d' resp where p: "audio_presign toy_crates audio_env sample_auth sample_query audio_db = (d', Inr resp)"
    using sample_presign by blast
  have inv: "audio_inv (au_tenant sample_auth) audio_db" by (rule audio_inv_audio_db)
  have st: "re_storage audio_env = Some sample_storage" by (simp add: audio_env_def)
  have n: "blob_of (au_tenant sample_auth) (replicate 32 10) audio_db = None"
    by (simp add: blob_of_def audio_db_def empty_db_def)
  from audio_presign_meters_once [OF inv sample_query_sha p st] n p show ?thesis
    by (auto simp: sample_query_def)
qed

end
