(* ===== verification/Gc.thy ===== *)
theory Gc
  imports Audio_Blobs
begin

text \<open>
  Blob garbage collection: \<open>crates/yapstack-server/src/gc.rs\<close>. A sweep over the tenants: the scan
  for blobs that have been unreferenced for longer than the grace period, and for each of them the
  deletion of the object first and then of the row, with the refund of the metered bytes. The state
  of a sweep keeps the keys whose deletion the storage service confirmed. The scan and the two
  phases are separate definitions, so that a presign can be placed between them.
\<close>

record sweep_stats =
  sw_deleted :: int
  sw_bytes :: int
  sw_skipped :: int

record sweep =
  sg_db :: db
  sg_stats :: sweep_stats
  sg_gone :: "string list"

definition eligible :: "timestamp \<Rightarrow> uuid \<Rightarrow> blob_row \<Rightarrow> bool" where
  "eligible cutoff t b \<longleftrightarrow> ab_ws b = t \<and> ab_refcount b \<le> 0 \<and>
     (case ab_released_at b of None \<Rightarrow> False | Some r \<Rightarrow> r < cutoff)"

definition scan_blobs :: "timestamp \<Rightarrow> uuid \<Rightarrow> db \<Rightarrow> (bytes \<times> int) list" where
  "scan_blobs cutoff t d = map (\<lambda>b. (ab_hash b, ab_size b)) (filter (eligible cutoff t) (blobs d))"

text \<open>Phase 2: the row, if it is still eligible, with the refund.\<close>

definition delete_row :: "timestamp \<Rightarrow> uuid \<Rightarrow> bytes \<Rightarrow> int \<Rightarrow> db \<Rightarrow> nat \<times> db" where
  "delete_row cutoff t hash sz d =
     (let p = (\<lambda>b. eligible cutoff t b \<and> ab_hash b = hash);
          n = rows_where p (blobs d);
          d1 = d\<lparr>blobs := delete_where p (blobs d)\<rparr>
      in (n, if n > 0 then d1\<lparr>usage := update_where (\<lambda>r. ug_tenant r = t)
                 (\<lambda>r. r\<lparr>ug_storage := max 0 (ug_storage r - max 0 sz)\<rparr>) (usage d1)\<rparr> else d1))"

definition blob_key :: "uuid \<Rightarrow> bytes \<Rightarrow> string" where
  "blob_key t hash = object_key t (hex_encode hash)"

definition sweep_blob :: "crates \<Rightarrow> storage_config \<Rightarrow> timestamp \<Rightarrow> storage_service \<Rightarrow> timestamp \<Rightarrow> uuid
    \<Rightarrow> bytes \<times> int \<Rightarrow> sweep \<Rightarrow> sweep" where
  "sweep_blob X cfg now net cutoff t blob s = (case blob of (hash, sz) \<Rightarrow>
     (case delete_object X cfg now net (blob_key t hash) of
        Inl e \<Rightarrow> s\<lparr>sg_stats := (sg_stats s)\<lparr>sw_skipped := sw_skipped (sg_stats s) + 1\<rparr>\<rparr>
      | Inr _ \<Rightarrow>
          (case delete_row cutoff t hash sz (sg_db s) of (n, d') \<Rightarrow>
             \<lparr>sg_db = d',
              sg_stats = (if n > 0
                then (sg_stats s)\<lparr>sw_deleted := sw_deleted (sg_stats s) + 1,
                                   sw_bytes := sat_add_u64 (sw_bytes (sg_stats s)) (max 0 sz)\<rparr>
                else sg_stats s),
              sg_gone = sg_gone s @ [blob_key t hash]\<rparr>)))"

definition sweep_tenant :: "crates \<Rightarrow> storage_config \<Rightarrow> timestamp \<Rightarrow> storage_service \<Rightarrow> timestamp \<Rightarrow> uuid
    \<Rightarrow> sweep \<Rightarrow> sweep" where
  "sweep_tenant X cfg now net cutoff t s = fold (sweep_blob X cfg now net cutoff t) (scan_blobs cutoff t (sg_db s)) s"

definition sweep_start :: "db \<Rightarrow> sweep" where
  "sweep_start d = \<lparr>sg_db = d, sg_stats = \<lparr>sw_deleted = 0, sw_bytes = 0, sw_skipped = 0\<rparr>, sg_gone = []\<rparr>"

definition run_sweep :: "crates \<Rightarrow> storage_config \<Rightarrow> storage_service \<Rightarrow> timestamp \<Rightarrow> timestamp \<Rightarrow> db \<Rightarrow> sweep" where
  "run_sweep X cfg net grace now d =
     fold (sweep_tenant X cfg now net (now - grace)) (map ws_id (workspaces d)) (sweep_start d)"

subsection \<open>One deletion\<close>

lemma delete_row_tables:
  assumes "delete_row cutoff t hash sz d = (n, d')"
  shows "blobs d' = filter (\<lambda>b. \<not> (eligible cutoff t b \<and> ab_hash b = hash)) (blobs d)"
    and "objects d' = objects d" and "n = rows_where (\<lambda>b. eligible cutoff t b \<and> ab_hash b = hash) (blobs d)"
    and "usage d' = (if n > 0 then update_where (\<lambda>r. ug_tenant r = t)
       (\<lambda>r. r\<lparr>ug_storage := max 0 (ug_storage r - max 0 sz)\<rparr>) (usage d) else usage d)"
  using assms by (auto simp: delete_row_def Let_def delete_where_def)

lemma eligible_unreferenced:
  "audio_inv t d \<Longrightarrow> b \<in> set (blobs d) \<Longrightarrow> eligible cutoff t b \<Longrightarrow> refs t (ab_hash b) d = 0"
  by (auto simp: audio_inv_def counted_def eligible_def)

lemma audio_inv_delete_row:
  assumes "audio_inv t' d" and "audio_inv t d" and "delete_row cutoff t hash sz d = (n, d')"
  shows "audio_inv t' d'"
proof -
  note tb = delete_row_tables [OF assms(3)]
  have r: "refs u h d' = refs u h d" for u h by (simp add: refs_def tb)
  have "distinct (blob_hashes t' d')"
  proof -
    have swap: "filter (\<lambda>b. ab_ws b = t') (filter q rows) = filter q (filter (\<lambda>b. ab_ws b = t') rows)" for q rows
      by (induction rows) auto
    have "distinct (map ab_hash (filter (\<lambda>b. ab_ws b = t') (blobs d)))"
      using assms(1) by (simp add: audio_inv_def blob_hashes_def)
    then show ?thesis unfolding blob_hashes_def tb(1) swap by (rule distinct_map_filter)
  qed
  moreover have "counted t' (\<lambda>h. int (refs t' h d')) d'"
    using assms(1) by (auto simp: audio_inv_def counted_def r tb)
  moreover have "ao_hash r \<in> set (blob_hashes t' d')" if r: "r \<in> set (objects d')" "ao_ws r = t'" for r
  proof -
    have ro: "r \<in> set (objects d)" using r by (simp add: tb)
    then obtain b where b: "b \<in> set (blobs d)" "ab_ws b = t'" "ab_hash b = ao_hash r"
      using assms(1) r(2) by (auto simp: audio_inv_def blob_hashes_def)
    have "0 < refs t' (ab_hash b) d" using ro r(2) b by (auto simp: refs_pos_iff)
    then have "\<not> (eligible cutoff t b \<and> ab_hash b = hash)"
      using eligible_unreferenced [OF assms(2) b(1), of cutoff] b(2) by (auto simp: eligible_def)
    with b show ?thesis by (force simp: blob_hashes_def tb)
  qed
  ultimately show ?thesis using assms(1) by (simp add: audio_inv_def tb)
qed

subsection \<open>A sweep\<close>

text \<open>What holds between the database a sweep started from and where it is.\<close>

definition sweep_inv :: "timestamp \<Rightarrow> db \<Rightarrow> sweep \<Rightarrow> bool" where
  "sweep_inv cutoff d0 s \<longleftrightarrow>
     (\<forall>t. audio_inv t (sg_db s)) \<and> objects (sg_db s) = objects d0 \<and> set (blobs (sg_db s)) \<subseteq> set (blobs d0) \<and>
     (\<forall>k\<in>set (sg_gone s). \<exists>b\<in>set (blobs d0). eligible cutoff (ab_ws b) b \<and> k = blob_key (ab_ws b) (ab_hash b)) \<and>
     (\<forall>b\<in>set (blobs d0) - set (blobs (sg_db s)). eligible cutoff (ab_ws b) b \<and>
        blob_key (ab_ws b) (ab_hash b) \<in> set (sg_gone s))"

lemma sweep_inv_start: "(\<And>t. audio_inv t d) \<Longrightarrow> sweep_inv cutoff d (sweep_start d)"
  by (simp add: sweep_inv_def sweep_start_def)

lemma sweep_inv_blob:
  assumes inv: "sweep_inv cutoff d0 s" and b: "b \<in> set (blobs d0)" "eligible cutoff t b"
  shows "sweep_inv cutoff d0 (sweep_blob X cfg now net cutoff t (ab_hash b, ab_size b) s)"
proof (cases "delete_object X cfg now net (blob_key t (ab_hash b))")
  case (Inl e)
  with inv show ?thesis by (simp add: sweep_blob_def sweep_inv_def)
next
  case (Inr u)
  obtain n d' where d': "delete_row cutoff t (ab_hash b) (ab_size b) (sg_db s) = (n, d')" by fastforce
  note tb = delete_row_tables [OF d']
  have ws: "ab_ws b = t" using b(2) by (simp add: eligible_def)
  have db': "sg_db (sweep_blob X cfg now net cutoff t (ab_hash b, ab_size b) s) = d'"
    and gone': "sg_gone (sweep_blob X cfg now net cutoff t (ab_hash b, ab_size b) s) = sg_gone s @ [blob_key t (ab_hash b)]"
    by (simp_all add: sweep_blob_def Inr d')
  have "audio_inv t' d'" for t'
    by (rule audio_inv_delete_row [OF _ _ d']) (use inv in \<open>simp_all add: sweep_inv_def\<close>)
  moreover have "eligible cutoff (ab_ws c) c \<and> blob_key (ab_ws c) (ab_hash c) \<in> set (sg_gone s @ [blob_key t (ab_hash b)])"
    if c: "c \<in> set (blobs d0) - set (blobs d')" for c
  proof (cases "c \<in> set (blobs (sg_db s))")
    case True
    with c have "eligible cutoff t c \<and> ab_hash c = ab_hash b" by (auto simp: tb)
    then show ?thesis by (simp add: eligible_def)
  next
    case False
    with c inv show ?thesis by (auto simp: sweep_inv_def)
  qed
  ultimately show ?thesis
    using inv b ws unfolding sweep_inv_def db' gone' by (auto simp: tb)
qed

lemma sweep_inv_fold:
  assumes "sweep_inv cutoff d0 s" and "\<And>x. x \<in> set xs \<Longrightarrow> \<exists>b\<in>set (blobs d0). eligible cutoff t b \<and> x = (ab_hash b, ab_size b)"
  shows "sweep_inv cutoff d0 (fold (sweep_blob X cfg now net cutoff t) xs s)"
  using assms
proof (induction xs arbitrary: s)
  case (Cons x xs)
  then obtain b where b: "b \<in> set (blobs d0)" "eligible cutoff t b" "x = (ab_hash b, ab_size b)"
    by fastforce
  with sweep_inv_blob [OF Cons.prems(1) b(1,2)] Cons show ?case by simp
qed simp

lemma sweep_inv_tenant:
  assumes "sweep_inv cutoff d0 s"
  shows "sweep_inv cutoff d0 (sweep_tenant X cfg now net cutoff t s)"
  unfolding sweep_tenant_def
proof (rule sweep_inv_fold [OF assms])
  fix x assume "x \<in> set (scan_blobs cutoff t (sg_db s))"
  then show "\<exists>b\<in>set (blobs d0). eligible cutoff t b \<and> x = (ab_hash b, ab_size b)"
    using assms by (auto simp: scan_blobs_def sweep_inv_def)
qed

lemma sweep_inv_run:
  assumes "\<And>t. audio_inv t d"
  shows "sweep_inv (now - grace) d (run_sweep X cfg net grace now d)"
proof -
  have "sweep_inv c d s \<Longrightarrow> sweep_inv c d (fold (sweep_tenant X cfg now net c) ts s)" for c ts s
    by (induction ts arbitrary: s) (simp_all add: sweep_inv_tenant)
  then show ?thesis unfolding run_sweep_def by (blast intro: sweep_inv_start assms)
qed

subsection \<open>The account of a sweep\<close>

definition declared :: "blob_row list \<Rightarrow> int" where
  "declared rows = sum_list (map (\<lambda>b. max 0 (ab_size b)) rows)"

definition tenant_declared :: "uuid \<Rightarrow> db \<Rightarrow> int" where
  "tenant_declared t d = declared (filter (\<lambda>b. ab_ws b = t) (blobs d))"

definition accounted :: "db \<Rightarrow> sweep \<Rightarrow> bool" where
  "accounted d0 s \<longleftrightarrow>
     sw_deleted (sg_stats s) = int (length (blobs d0)) - int (length (blobs (sg_db s))) \<and>
     sw_bytes (sg_stats s) = min u64_max (declared (blobs d0) - declared (blobs (sg_db s))) \<and>
     (\<forall>t. tenant_declared t (sg_db s) \<le> tenant_declared t d0 \<and>
        (0 \<le> storage_used t d0 \<longrightarrow> storage_used t (sg_db s) =
           max 0 (storage_used t d0 - (tenant_declared t d0 - tenant_declared t (sg_db s)))))"

lemma declared_split: "declared rows = declared (filter p rows) + declared (filter (\<lambda>b. \<not> p b) rows)"
  by (induction rows) (auto simp: declared_def)

lemma declared_nonneg: "0 \<le> declared rows"
  by (induction rows) (auto simp: declared_def)

lemma unique_row:
  assumes "distinct (map ab_hash (filter (\<lambda>b. ab_ws b = t) rows))" and "b \<in> set rows" and "eligible cutoff t b"
  shows "filter (\<lambda>c. eligible cutoff t c \<and> ab_hash c = ab_hash b) rows = [b]"
  using assms
proof (induction rows)
  case (Cons c rows)
  have ws: "ab_ws b = t" "\<And>c. eligible cutoff t c \<Longrightarrow> ab_ws c = t" using assms(3) by (auto simp: eligible_def)
  show ?case
  proof (cases "c = b")
    case True
    with Cons.prems ws have "ab_hash b \<notin> ab_hash ` {x \<in> set rows. ab_ws x = t}" by simp
    then have no: "ab_hash x \<noteq> ab_hash b" if "x \<in> set rows" "ab_ws x = t" for x
      using that by (metis (mono_tags, lifting) image_eqI mem_Collect_eq)
    have "filter (\<lambda>c. eligible cutoff t c \<and> ab_hash c = ab_hash b) rows = []"
      unfolding filter_empty_conv using no ws(2) by blast
    with True Cons.prems show ?thesis by simp
  next
    case False
    with Cons.prems have b: "b \<in> set rows" by simp
    then have "\<not> (eligible cutoff t c \<and> ab_hash c = ab_hash b)" using Cons.prems(1) ws by force
    moreover have "distinct (map ab_hash (filter (\<lambda>b. ab_ws b = t) rows))"
      using Cons.prems(1) by (simp split: if_splits)
    ultimately show ?thesis using Cons.IH [OF _ b assms(3)] by simp
  qed
qed simp

lemma same_hash_same_row:
  "audio_inv t d \<Longrightarrow> b \<in> set (blobs d) \<Longrightarrow> c \<in> set (blobs d) \<Longrightarrow> ab_ws b = t \<Longrightarrow> ab_ws c = t \<Longrightarrow>
   ab_hash b = ab_hash c \<Longrightarrow> b = c"
  unfolding audio_inv_def blob_hashes_def
  by (rule keyed_unique [of ab_hash "filter (\<lambda>b. ab_ws b = t) (blobs d)"]) auto

lemma storage_used_refund:
  "storage_used t' (d\<lparr>usage := update_where (\<lambda>r. ug_tenant r = t)
     (\<lambda>r. r\<lparr>ug_storage := max 0 (ug_storage r - x)\<rparr>) (usage d)\<rparr>) =
   (if t' = t \<and> usage_of t d \<noteq> None then max 0 (storage_used t d - x) else storage_used t' d)"
proof (cases "t' = t")
  case True
  have "usage_of t (d\<lparr>usage := update_where (\<lambda>r. ug_tenant r = t)
     (\<lambda>r. r\<lparr>ug_storage := max 0 (ug_storage r - x)\<rparr>) (usage d)\<rparr>) =
     map_option (\<lambda>r. r\<lparr>ug_storage := max 0 (ug_storage r - x)\<rparr>) (usage_of t d)"
    unfolding usage_of_def by (simp add: fetch_update_same)
  with True show ?thesis by (simp add: storage_used_def split: option.split)
next
  case False
  have other: "fetch_optional (\<lambda>r. ug_tenant r = t') (update_where (\<lambda>r. ug_tenant r = t) f rows) =
      fetch_optional (\<lambda>r. ug_tenant r = t') rows" if "\<And>r. ug_tenant (f r) = ug_tenant r" for f rows
    using False that by (induction rows) auto
  have "usage_of t' (d\<lparr>usage := update_where (\<lambda>r. ug_tenant r = t)
      (\<lambda>r. r\<lparr>ug_storage := max 0 (ug_storage r - x)\<rparr>) (usage d)\<rparr>) = usage_of t' d"
    by (simp add: usage_of_def other)
  with False show ?thesis by (simp add: storage_used_def)
qed

lemma refund_arith:
  fixes a b b' u u0 u' x :: int
  assumes "b \<le> a" and "b = b' + x" and "0 \<le> x" and "0 \<le> u0 \<Longrightarrow> u = max 0 (u0 - (a - b))" and "u' = max 0 (u - x)"
  shows "b' \<le> a \<and> (0 \<le> u0 \<longrightarrow> u' = max 0 (u0 - (a - b')))"
proof (intro conjI impI)
  show "b' \<le> a" using assms(1-3) by simp
  assume "0 \<le> u0"
  with assms(4) have "u = max 0 (u0 - (a - b))" by simp
  with assms(2,3,5) show "u' = max 0 (u0 - (a - b'))" by (simp add: max_def)
qed

lemma accounted_blob:
  assumes acc: "accounted d0 s" and inv: "sweep_inv cutoff d0 s" and inv0: "audio_inv t d0"
    and b: "b \<in> set (blobs d0)" "eligible cutoff t b"
  shows "accounted d0 (sweep_blob X cfg now net cutoff t (ab_hash b, ab_size b) s)"
proof (cases "delete_object X cfg now net (blob_key t (ab_hash b))")
  case (Inl e)
  with acc show ?thesis by (simp add: sweep_blob_def accounted_def)
next
  case (Inr u)
  let ?d = "sg_db s" and ?p = "\<lambda>c. eligible cutoff t c \<and> ab_hash c = ab_hash b"
  obtain n d' where d': "delete_row cutoff t (ab_hash b) (ab_size b) ?d = (n, d')" by fastforce
  note tb = delete_row_tables [OF d']
  have ws: "ab_ws b = t" using b(2) by (simp add: eligible_def)
  have invt: "audio_inv t ?d" and sub: "set (blobs ?d) \<subseteq> set (blobs d0)" using inv by (simp_all add: sweep_inv_def)
  show ?thesis
  proof (cases "n > 0")
    case False
    then have "filter ?p (blobs ?d) = []" using tb(3) by (simp add: rows_where_def)
    then have "\<forall>c\<in>set (blobs ?d). \<not> ?p c" by (simp add: filter_empty_conv)
    then have "blobs d' = blobs ?d" unfolding tb(1) by (intro filter_True) simp
    moreover have "usage d' = usage ?d" using False tb(4) by simp
    ultimately have "accounted d0 (s\<lparr>sg_db := d'\<rparr>)"
      using acc by (simp add: accounted_def tenant_declared_def storage_used_def usage_of_def)
    with False show ?thesis by (simp add: sweep_blob_def Inr d' accounted_def)
  next
    case True
    then obtain c where c: "c \<in> set (blobs ?d)" "?p c" using tb(3) by (auto simp: rows_where_pos_iff)
    then have "c = b" using same_hash_same_row [OF inv0 _ b(1)] sub ws by (auto simp: eligible_def)
    with c have bin: "b \<in> set (blobs ?d)" by simp
    have one: "filter ?p (blobs ?d) = [b]"
      by (rule unique_row [OF _ bin b(2)]) (use invt in \<open>simp add: audio_inv_def blob_hashes_def\<close>)
    have keep: "blobs d' = filter (\<lambda>c. \<not> ?p c) (blobs ?d)" by (rule tb(1))
    have len: "length (blobs ?d) = Suc (length (blobs d'))"
      using sum_length_filter_compl [of ?p "blobs ?d"] by (simp add: one keep)
    let ?x = "max 0 (ab_size b)"
    have dec: "declared (blobs ?d) = declared (blobs d') + ?x"
      using declared_split [of "blobs ?d" ?p] by (simp add: one keep declared_def)
    have dect: "tenant_declared t' ?d = tenant_declared t' d' + (if t' = t then ?x else 0)" for t'
    proof -
      let ?rows = "filter (\<lambda>b. ab_ws b = t') (blobs ?d)"
      have "filter ?p ?rows = filter (\<lambda>b. ab_ws b = t') (filter ?p (blobs ?d))"
        by (simp add: conj_commute)
      then have a: "filter ?p ?rows = (if t' = t then [b] else [])" using one ws by simp
      have "filter (\<lambda>c. \<not> ?p c) ?rows = filter (\<lambda>b. ab_ws b = t') (blobs d')"
        unfolding keep by (simp add: conj_commute)
      with a declared_split [of ?rows ?p] show ?thesis by (simp add: tenant_declared_def declared_def)
    qed
    have us: "storage_used t' d' = (if t' = t \<and> usage_of t ?d \<noteq> None then max 0 (storage_used t ?d - ?x) else storage_used t' ?d)" for t'
      using storage_used_refund [where t' = t' and d = ?d and t = t and x = ?x] tb(4) True by (simp add: storage_used_def usage_of_def)
    have z: "usage_of t ?d = None \<Longrightarrow> storage_used t ?d = 0" by (simp add: storage_used_def)
    have st: "tenant_declared t' d' \<le> tenant_declared t' d0 \<and> (0 \<le> storage_used t' d0 \<longrightarrow> storage_used t' d' =
        max 0 (storage_used t' d0 - (tenant_declared t' d0 - tenant_declared t' d')))" for t'
    proof -
      have a: "tenant_declared t' ?d \<le> tenant_declared t' d0"
        "0 \<le> storage_used t' d0 \<Longrightarrow> storage_used t' ?d = max 0 (storage_used t' d0 - (tenant_declared t' d0 - tenant_declared t' ?d))"
        using acc by (simp_all add: accounted_def)
      show ?thesis
      proof (cases "t' = t")
        case True
        have "storage_used t' d' = (if usage_of t ?d = None then 0 else max 0 (storage_used t' ?d - ?x))"
          using us [of t'] z True by simp
        moreover have "usage_of t ?d = None \<Longrightarrow> storage_used t' ?d = 0" using z True by simp
        ultimately have u: "storage_used t' d' = max 0 (storage_used t' ?d - ?x)" by (cases "usage_of t ?d = None") simp_all
        have e: "tenant_declared t' ?d = tenant_declared t' d' + ?x" using dect [of t'] True by simp
        show ?thesis by (rule refund_arith [OF a(1) e _ a(2) u]) simp_all
      next
        case False
        with a dect [of t'] us [of t'] show ?thesis by simp
      qed
    qed
    have sat: "sat_add_u64 (min u64_max a) ?x = min u64_max (a + ?x)" for a
      by (auto simp: sat_add_u64_def)
    show ?thesis
      using acc st True len dec
      by (simp add: sweep_blob_def Inr d' accounted_def sat algebra_simps)
  qed
qed

lemma accounted_run:
  assumes "\<And>t. audio_inv t d"
  shows "accounted d (run_sweep X cfg net grace now d)"
proof -
  let ?c = "now - grace"
  have blobs: "accounted d s \<Longrightarrow> sweep_inv ?c d s \<Longrightarrow>
      (\<And>x. x \<in> set xs \<Longrightarrow> \<exists>b\<in>set (blobs d). eligible ?c t b \<and> x = (ab_hash b, ab_size b)) \<Longrightarrow>
      accounted d (fold (sweep_blob X cfg now net ?c t) xs s)" for xs s t
  proof (induction xs arbitrary: s)
    case (Cons x xs)
    then obtain b where b: "b \<in> set (blobs d)" "eligible ?c t b" "x = (ab_hash b, ab_size b)" by fastforce
    with accounted_blob [OF Cons.prems(1,2) assms b(1,2)] sweep_inv_blob [OF Cons.prems(2) b(1,2)] Cons
    show ?case by simp
  qed simp
  have tenant: "accounted d (sweep_tenant X cfg now net ?c t s)" if "accounted d s" "sweep_inv ?c d s" for s t
    unfolding sweep_tenant_def
  proof (rule blobs [OF that])
    fix x assume "x \<in> set (scan_blobs ?c t (sg_db s))"
    then show "\<exists>b\<in>set (blobs d). eligible ?c t b \<and> x = (ab_hash b, ab_size b)"
      using that(2) by (auto simp: scan_blobs_def sweep_inv_def)
  qed
  have "accounted d s \<Longrightarrow> sweep_inv ?c d s \<Longrightarrow> accounted d (fold (sweep_tenant X cfg now net ?c) ts s)" for ts s
    by (induction ts arbitrary: s) (simp_all add: tenant sweep_inv_tenant)
  moreover have "accounted d (sweep_start d)"
    by (simp add: accounted_def sweep_start_def u64_max_def)
  ultimately show ?thesis
    unfolding run_sweep_def by (simp add: sweep_inv_start assms)
qed

subsection \<open>Properties\<close>

text \<open>C21. A sweep with no request in between loses nothing that is in use. From exact mapping counts, which
  serial requests keep (\<open>audio_presign_inv\<close>), it keeps them exact; every object it deletes belongs to a
  blob that no part points at and that has been released for longer than the grace period; every row it
  removes had its object deleted first; and every part still points at a stored blob whose object was
  not deleted. Both conditions are needed: \<open>concurrent_presigns_lose_audio\<close> and
  \<open>sweep_deletes_object_reported_stored\<close> show what requests that overlap do.\<close>

theorem gc_sweep_safe:
  assumes "\<And>t. audio_inv t d"
    and s_def: "s = run_sweep X cfg net grace now d"
  shows "audio_inv t (sg_db s) \<and>
    (\<forall>k\<in>set (sg_gone s). \<exists>b\<in>set (blobs d). eligible (now - grace) (ab_ws b) b \<and>
       refs (ab_ws b) (ab_hash b) d = 0 \<and> k = blob_key (ab_ws b) (ab_hash b)) \<and>
    (\<forall>b\<in>set (blobs d) - set (blobs (sg_db s)). blob_key (ab_ws b) (ab_hash b) \<in> set (sg_gone s)) \<and>
    (\<forall>part h. mapping_of t part d = Some h \<longrightarrow>
       mapping_of t part (sg_db s) = Some h \<and> blob_of t h (sg_db s) \<noteq> None \<and> blob_key t h \<notin> set (sg_gone s))"
proof -
  have inv: "sweep_inv (now - grace) d s" unfolding s_def by (rule sweep_inv_run [OF assms(1)])
  have gone: "\<exists>b\<in>set (blobs d). eligible (now - grace) (ab_ws b) b \<and>
       refs (ab_ws b) (ab_hash b) d = 0 \<and> k = blob_key (ab_ws b) (ab_hash b)" if "k \<in> set (sg_gone s)" for k
    using inv that eligible_unreferenced [OF assms(1)] unfolding sweep_inv_def by blast
  have used: "mapping_of t part (sg_db s) = Some h \<and> blob_of t h (sg_db s) \<noteq> None \<and> blob_key t h \<notin> set (sg_gone s)"
    if m: "mapping_of t part d = Some h" for part h
  proof (intro conjI)
    have objs: "objects (sg_db s) = objects d" using inv by (simp add: sweep_inv_def)
    then show m': "mapping_of t part (sg_db s) = Some h" using m by (simp add: mapping_of_def)
    have "audio_inv t (sg_db s)" using inv by (simp add: sweep_inv_def)
    then show "blob_of t h (sg_db s) \<noteq> None"
      using mapping_of_Some [OF m'] by (auto simp: audio_inv_def blob_of_None_iff)
    show "blob_key t h \<notin> set (sg_gone s)"
    proof
      assume "blob_key t h \<in> set (sg_gone s)"
      then obtain b :: blob_row where b: "refs (ab_ws b) (ab_hash b) d = 0" "blob_key t h = blob_key (ab_ws b) (ab_hash b)"
        using gone by meson
      from b(2) have "ab_ws b = t" "ab_hash b = h" by (simp_all add: blob_key_def object_key_inj hex_encode_inj)
      with b(1) mapping_of_Some [OF m] show False using refs_pos_iff [of t h d] by auto
    qed
  qed
  show ?thesis using inv gone used unfolding sweep_inv_def by blast
qed

text \<open>A sweep's books balance. It reports exactly the rows it removed and their declared bytes
  (saturating), and returns to every tenant exactly the bytes of its own removed rows, never below
  zero; a tenant without removed rows is not touched.\<close>

theorem gc_accounts:
  assumes "\<And>t. audio_inv t d"
    and s_def: "s = run_sweep X cfg net grace now d"
  shows "sw_deleted (sg_stats s) = int (length (blobs d)) - int (length (blobs (sg_db s))) \<and>
    sw_bytes (sg_stats s) = min u64_max (declared (blobs d) - declared (blobs (sg_db s))) \<and>
    (0 \<le> storage_used t d \<longrightarrow> storage_used t (sg_db s) =
       max 0 (storage_used t d - (tenant_declared t d - tenant_declared t (sg_db s))))"
  using accounted_run [OF assms(1), of X cfg net grace now] by (simp add: s_def accounted_def)

text \<open>Sample databases: a released blob beside a used one, and two parts of one blob.\<close>

definition sample_blob :: "bytes \<Rightarrow> int \<Rightarrow> timestamp option \<Rightarrow> blob_row" where
  "sample_blob h n r = \<lparr>ab_ws = 1, ab_hash = h, ab_size = 5, ab_refcount = n, ab_released_at = r\<rparr>"

definition sample_object :: "uuid \<Rightarrow> bytes \<Rightarrow> object_row" where
  "sample_object part h = \<lparr>ao_ws = 1, ao_part = part, ao_session = 4, ao_hash = h\<rparr>"

definition gc_db :: db where
  "gc_db = audio_db\<lparr>usage := [\<lparr>ug_tenant = 1, ug_storage = 12, ug_upload = 12, ug_share = 0, ug_device = 0, ug_window = 0\<rparr>],
     blobs := [sample_blob [1] 0 (Some 1), sample_blob [2] 1 None], objects := [sample_object 4 [2]]\<rparr>"

lemma audio_inv_gc_db: "audio_inv t gc_db"
  by (simp add: audio_inv_def counted_def blob_hashes_def refs_def gc_db_def sample_blob_def sample_object_def)

lemma delete_confirmed: "delete_object X cfg now (\<lambda>m u. Status 204) key = Inr ()"
  by (simp add: delete_object_def signed_request_def)

lemma gc_db_sweep:
  "run_sweep toy_crates sample_storage (\<lambda>m u. Status 204) 50 100 gc_db =
     \<lparr>sg_db = gc_db\<lparr>usage := [\<lparr>ug_tenant = 1, ug_storage = 7, ug_upload = 12, ug_share = 0, ug_device = 0, ug_window = 0\<rparr>],
        blobs := [sample_blob [2] 1 None]\<rparr>,
      sg_stats = \<lparr>sw_deleted = 1, sw_bytes = 5, sw_skipped = 0\<rparr>, sg_gone = [blob_key 1 [1]]\<rparr>"
  by (simp add: run_sweep_def sweep_tenant_def sweep_start_def scan_blobs_def gc_db_def audio_db_def
      empty_db_def eligible_def sample_blob_def sweep_blob_def delete_confirmed delete_row_def Let_def
      sat_add_u64_def u64_max_def)

lemma gc_sweep_safe_witness:
  "blob_key 1 [2] \<notin> set (sg_gone (run_sweep toy_crates sample_storage (\<lambda>m u. Status 204) 50 100 gc_db)) \<and>
   sg_gone (run_sweep toy_crates sample_storage (\<lambda>m u. Status 204) 50 100 gc_db) = [blob_key 1 [1]]"
proof -
  have "mapping_of 1 4 gc_db = Some [2]" by (simp add: mapping_of_def gc_db_def sample_object_def)
  with gc_sweep_safe [OF audio_inv_gc_db refl, of 1 toy_crates sample_storage "\<lambda>m u. Status 204" 50 100] gc_db_sweep
  show ?thesis by auto
qed

lemma gc_accounts_witness:
  "storage_used 1 (sg_db (run_sweep toy_crates sample_storage (\<lambda>m u. Status 204) 50 100 gc_db)) = 7"
  using gc_accounts [OF audio_inv_gc_db refl, of toy_crates sample_storage "\<lambda>m u. Status 204" 50 100 1]
  unfolding gc_db_sweep
  by (simp add: storage_used_def usage_of_def tenant_declared_def declared_def gc_db_def sample_blob_def)

text \<open>Two presigns of one part that both read before either writes.\<close>

definition race_db :: db where
  "race_db = audio_db\<lparr>blobs := [sample_blob [1] 2 None, sample_blob [2] 0 (Some 1), sample_blob [3] 0 (Some 1)],
     objects := [sample_object 3 [1], sample_object 4 [1]]\<rparr>"

lemma audio_inv_race_db: "audio_inv t race_db"
  by (simp add: audio_inv_def counted_def blob_hashes_def refs_def race_db_def sample_blob_def sample_object_def)

definition raced_db :: db where
  "raced_db = audio_db\<lparr>blobs := [sample_blob [1] 0 (Some 100), sample_blob [2] 1 None, sample_blob [3] 1 None],
     objects := [sample_object 3 [3], sample_object 4 [1]]\<rparr>"

lemma race_run:
  "\<exists>d1. audio_write 100 1 unlimited [] sample_query [2] (audio_read 1 [2] 3 race_db) race_db = Inr ((5, False), d1) \<and>
     audio_write 100 1 unlimited [] sample_query [3] (audio_read 1 [3] 3 race_db) d1 = Inr ((5, False), raced_db)"
  by (simp add: audio_write_def release_old_def claim_blob_def count_ref_def audio_read_def mapping_of_def blob_of_def
      race_db_def raced_db_def sample_blob_def sample_object_def tx_run_simps drop_ref_def add_ref_def point_part_def
      sample_query_def as_u64_def)

text \<open>The mapping count is not exact under concurrent requests, and a sweep then deletes audio
  that is in use. Two presigns that point one part at two other blobs, both of which read the old
  mapping before either writes, take two references from the part's old blob; another part still
  points at it, but its count is zero and it is released, so once the grace period is over a sweep
  deletes its object, and the part's download is redirected to an object that is gone.\<close>

theorem concurrent_presigns_lose_audio:
  "\<exists>d d1 d2 r1 r2. (\<forall>t. audio_inv t d) \<and>
     audio_write 100 1 unlimited [] sample_query [2] (audio_read 1 [2] 3 d) d = Inr (r1, d1) \<and>
     audio_write 100 1 unlimited [] sample_query [3] (audio_read 1 [3] 3 d) d1 = Inr (r2, d2) \<and>
     \<not> audio_inv 1 d2 \<and>
     (let s = run_sweep toy_crates sample_storage (\<lambda>m u. Status 204) 50 200 d2
      in blob_key 1 [1] \<in> set (sg_gone s) \<and>
         get_by_part toy_crates audio_env sample_auth 4 (sg_db s) =
           Inr (presign toy_crates sample_storage ''GET'' (blob_key 1 [1]) None 100))"
proof -
  obtain d1 r1 r2 where
    w: "audio_write 100 1 unlimited [] sample_query [2] (audio_read 1 [2] 3 race_db) race_db = Inr (r1, d1)"
       "audio_write 100 1 unlimited [] sample_query [3] (audio_read 1 [3] 3 race_db) d1 = Inr (r2, raced_db)"
    using race_run by blast
  have ninv: "\<not> audio_inv 1 raced_db"
    by (simp add: audio_inv_def counted_def raced_db_def sample_blob_def sample_object_def refs_def)
  have s: "run_sweep toy_crates sample_storage (\<lambda>m u. Status 204) 50 200 raced_db =
      \<lparr>sg_db = raced_db\<lparr>blobs := [sample_blob [2] 1 None, sample_blob [3] 1 None]\<rparr>,
       sg_stats = \<lparr>sw_deleted = 1, sw_bytes = 5, sw_skipped = 0\<rparr>, sg_gone = [blob_key 1 [1]]\<rparr>"
    by (simp add: run_sweep_def sweep_tenant_def sweep_start_def scan_blobs_def raced_db_def audio_db_def
        empty_db_def eligible_def sample_blob_def sweep_blob_def delete_confirmed delete_row_def Let_def
        sat_add_u64_def u64_max_def)
  have g: "get_by_part toy_crates audio_env sample_auth 4 (raced_db\<lparr>blobs := bs\<rparr>) =
      Inr (presign toy_crates sample_storage ''GET'' (blob_key 1 [1]) None 100)" for bs
    by (simp add: get_by_part_def storage_cfg_def audio_env_def sample_auth_def mapping_of_def raced_db_def
        sample_object_def blob_key_def)
  show ?thesis
    by (intro exI [of _ race_db] exI [of _ d1] exI [of _ raced_db] exI [of _ r1] exI [of _ r2])
      (simp add: audio_inv_race_db w ninv s g Let_def)
qed

text \<open>A presign between a sweep's scan and its deletion of the scanned blob.\<close>

definition released_db :: db where
  "released_db = audio_db\<lparr>blobs := [sample_blob (replicate 32 10) 0 (Some 1)]\<rparr>"

definition reused_db :: db where
  "reused_db = audio_db\<lparr>blobs := [sample_blob (replicate 32 10) 1 None], objects := [sample_object 3 (replicate 32 10)]\<rparr>"

lemma reused_presign:
  "audio_presign toy_crates audio_env sample_auth sample_query released_db =
     (reused_db, Inr \<lparr>pre_already_exists = True, pre_upload_url = None,
        pre_object_key = blob_key 1 (replicate 32 10), pre_content_length = 5\<rparr>)"
proof -
  let ?h = "replicate 32 (10 :: 8 word)"
  have h: "require_active_caller 1 (Some 7) released_db = Inr ((), released_db)"
    by (simp add: require_active_caller_Inr active_device_def device_of_def released_db_def audio_db_def sample_device_def)
  have st: "storage_cfg audio_env = Inr sample_storage" by (simp add: storage_cfg_def audio_env_def)
  have env: "re_now audio_env = 100" "re_source audio_env = AllowAll" "re_help_url audio_env = []"
    by (simp_all add: audio_env_def)
  have "se_old (audio_read 1 h 3 released_db) = None" for h
    by (simp add: audio_read_def mapping_of_def released_db_def audio_db_def empty_db_def)
  moreover have "se_size (audio_read 1 ?h 3 released_db) = Some 5"
    by (simp add: audio_read_def blob_of_def released_db_def sample_blob_def)
  moreover have "point_part 1 3 4 ?h released_db = Inr ((), released_db\<lparr>objects := [sample_object 3 ?h]\<rparr>)"
    by (simp add: point_part_def released_db_def audio_db_def empty_db_def tx_run_simps sample_object_def del: replicate.simps)
  moreover have "add_ref 1 ?h (released_db\<lparr>objects := [sample_object 3 ?h]\<rparr>) = reused_db"
    by (simp add: add_ref_def released_db_def reused_db_def sample_blob_def)
  ultimately have w: "audio_write 100 1 unlimited [] sample_query ?h (audio_read 1 ?h 3 released_db) released_db =
      Inr ((5, False), reused_db)"
    unfolding audio_write_def release_old_def claim_blob_def count_ref_def
    by (simp add: tx_run_simps sample_query_def as_u64_def del: replicate.simps)
  have q: "pq_part sample_query = 3" by (simp add: sample_query_def)
  have "audio_presign_tx audio_env sample_auth sample_query released_db =
      Inr ((sample_storage, object_key 1 (hex_encode ?h), 5, False), reused_db)"
    unfolding audio_presign_tx_def Let_def
    using w by (simp add: sample_auth_def tx_seq_def tx_bind_def h tx_lift_def st sample_query_sha tx_read_def
        limits_for_def env tx_return_def q del: replicate.simps)
  then show ?thesis
    by (simp add: audio_presign_def run_tx_def audio_answer_def object_exists_def signed_request_def
        audio_env_def blob_key_def del: replicate.simps)
qed

text \<open>Deletion is not atomic with the reference count. A blob is scanned as unreferenced; a
  presign then points a part at it, finds the object with its \<open>HEAD\<close>, and answers that the upload
  is not needed; the sweep goes on and deletes the object. The row is kept, since it is referenced
  again, but the part it was kept for has no audio, and its client was told it is stored.\<close>

theorem sweep_deletes_object_reported_stored:
  "\<exists>d d' resp blob. (\<forall>t. audio_inv t d) \<and> blob \<in> set (scan_blobs 50 1 d) \<and>
     audio_presign toy_crates audio_env sample_auth sample_query d = (d', Inr resp) \<and> pre_already_exists resp \<and>
     (let s = sweep_blob toy_crates sample_storage 100 (\<lambda>m u. Status 204) 50 1 blob (sweep_start d')
      in pre_object_key resp \<in> set (sg_gone s) \<and> audio_inv 1 (sg_db s) \<and>
         mapping_of 1 3 (sg_db s) = Some (fst blob) \<and> pre_object_key resp = blob_key 1 (fst blob))"
proof -
  let ?h = "replicate 32 (10 :: 8 word)"
  have "audio_inv t released_db" for t
    by (simp add: audio_inv_def counted_def blob_hashes_def refs_def released_db_def sample_blob_def audio_db_def empty_db_def)
  moreover have "(?h, 5) \<in> set (scan_blobs 50 1 released_db)"
    by (simp add: scan_blobs_def eligible_def released_db_def sample_blob_def del: replicate.simps)
  moreover have "delete_row 50 1 ?h 5 reused_db = (0, reused_db)"
    by (simp add: delete_row_def Let_def eligible_def reused_db_def sample_blob_def del: replicate.simps)
  then have "sweep_blob toy_crates sample_storage 100 (\<lambda>m u. Status 204) 50 1 (?h, 5) (sweep_start reused_db) =
      (sweep_start reused_db)\<lparr>sg_gone := [blob_key 1 ?h]\<rparr>"
    by (simp add: sweep_blob_def delete_confirmed sweep_start_def del: replicate.simps)
  moreover have "audio_inv 1 reused_db" "mapping_of 1 3 reused_db = Some ?h"
    by (simp_all add: audio_inv_def counted_def blob_hashes_def refs_def reused_db_def sample_blob_def
        sample_object_def mapping_of_def del: replicate.simps)
  ultimately show ?thesis
    by (intro exI [of _ released_db] exI [of _ reused_db] exI [of _ "(?h, 5)"] exI conjI)
      (auto simp: reused_presign sweep_start_def Let_def simp del: replicate.simps)
qed

end
