(* ===== verification/Snapshots.thy ===== *)
theory Snapshots
  imports Audio_Blobs Capability
begin

text \<open>
  Snapshot bootstrap: \<open>crates/yapstack-server/src/snapshot.rs\<close>. The presign handler is three
  transactions with a \<open>HEAD\<close> between the second and the third: the gate, the first write (a new
  generation is inserted and metered, an existing one is only read) and the compare-and-swap that
  points a generation whose upload died at its resealed ciphertext. \<open>snapshot_head\<close> is the read.
\<close>

record snapshot_request =
  sr_sha256 :: string
  sr_size :: int
  sr_generation :: int
  sr_baseline :: int

record snapshot_response =
  sp_already_exists :: bool
  sp_upload_url :: "string option"
  sp_object_key :: string

definition snapshot_of :: "uuid \<Rightarrow> int \<Rightarrow> db \<Rightarrow> snapshot_row option" where
  "snapshot_of t gen d = fetch_optional (\<lambda>r. sn_ws r = t \<and> sn_generation r = gen) (snapshots d)"

definition snap_gate :: "timestamp \<Rightarrow> auth_tenant \<Rightarrow> header \<Rightarrow> int \<Rightarrow> (app_error + unit) tx" where
  "snap_gate now auth h content_level = gated_read now auth h (\<lambda>levels.
     tx_seq (require_active_caller (au_tenant auth) (au_client auth))
       (tx_seq (tx_lift (admit_publication levels content_level)) (tx_return (Inr ()))))"

text \<open>The publication gate of every writing transaction: the check under the floor lock.\<close>

definition publication_gate :: "uuid \<Rightarrow> int \<Rightarrow> unit tx" where
  "publication_gate t content_level =
     tx_bind (lock_floor t) (\<lambda>levels. tx_lift (admit_publication levels content_level))"

definition new_snapshot :: "uuid \<Rightarrow> int \<Rightarrow> bytes \<Rightarrow> snapshot_request \<Rightarrow> snapshot_row" where
  "new_snapshot t gen hash req = \<lparr>sn_ws = t, sn_generation = gen, sn_hash = hash,
     sn_size = to_i64_sat (sr_size req), sn_baseline = sr_baseline req\<rparr>"

definition insert_snapshot :: "snapshot_row \<Rightarrow> unit tx" where
  "insert_snapshot r = tx_seq
     (\<lambda>d. if exists_row (\<lambda>x. sn_ws x = sn_ws r \<and> sn_generation x = sn_generation r) (snapshots d)
           then Inl (Db ''duplicate key'') else Inr ((), d))
     (tx_seq (tx_fk_workspace (sn_ws r)) (tx_write (\<lambda>d. d\<lparr>snapshots := snapshots d @ [r]\<rparr>)))"

text \<open>The first write: \<open>Some\<close> the existing row's hash and size, or \<open>None\<close> after the insertion.\<close>

definition snap_first :: "timestamp \<Rightarrow> uuid \<Rightarrow> tenant_limits \<Rightarrow> string \<Rightarrow> int \<Rightarrow> int \<Rightarrow> bytes \<Rightarrow> snapshot_request
    \<Rightarrow> ((bytes \<times> int) option) tx" where
  "snap_first now t limits help_url content_level gen hash req =
     tx_seq (publication_gate t content_level)
       (tx_bind (tx_read (snapshot_of t gen)) (\<lambda>existing. case existing of
            Some r \<Rightarrow> tx_return (Some (sn_hash r, sn_size r))
          | None \<Rightarrow>
              tx_seq (insert_snapshot (new_snapshot t gen hash req))
                (tx_seq (admit now t limits (sr_size req) help_url) (tx_return None))))"

text \<open>\<open>UPDATE snapshots .. WHERE ciphertext_sha256 = $6\<close>, with whether a row was updated.\<close>

definition swap_snapshot :: "uuid \<Rightarrow> int \<Rightarrow> bytes \<Rightarrow> bytes \<Rightarrow> snapshot_request \<Rightarrow> db \<Rightarrow> nat \<times> db" where
  "swap_snapshot t gen old hash req d =
     (let p = (\<lambda>r. sn_ws r = t \<and> sn_generation r = gen \<and> sn_hash r = old)
      in (rows_where p (snapshots d), d\<lparr>snapshots := update_where p
           (\<lambda>r. r\<lparr>sn_hash := hash, sn_size := to_i64_sat (sr_size req), sn_baseline := sr_baseline req\<rparr>) (snapshots d)\<rparr>))"

definition snap_repoint :: "timestamp \<Rightarrow> uuid \<Rightarrow> tenant_limits \<Rightarrow> string \<Rightarrow> int \<Rightarrow> int \<Rightarrow> bytes \<Rightarrow> int \<Rightarrow> bytes
    \<Rightarrow> snapshot_request \<Rightarrow> unit tx" where
  "snap_repoint now t limits help_url content_level gen existing_hash existing_size hash req =
     tx_seq (publication_gate t content_level)
       (tx_seq (admit now t limits (max 0 (sr_size req - existing_size)) help_url)
         (tx_bind (\<lambda>d. Inr (swap_snapshot t gen existing_hash hash req d)) (\<lambda>updated.
            tx_require (updated \<noteq> 0) (Conflict ''snapshot generation concurrently updated; retry''))))"

definition confirmed :: "crates \<Rightarrow> relay_env \<Rightarrow> storage_config \<Rightarrow> string \<Rightarrow> bool" where
  "confirmed X env cfg key = (case object_exists X cfg (re_now env) (re_net env) key of Inr b \<Rightarrow> b | Inl _ \<Rightarrow> False)"

definition put_url :: "crates \<Rightarrow> relay_env \<Rightarrow> storage_config \<Rightarrow> string \<Rightarrow> int \<Rightarrow> snapshot_response" where
  "put_url X env cfg key len = \<lparr>sp_already_exists = False,
     sp_upload_url = Some (presign X cfg ''PUT'' key (Some (nat len)) (re_now env)), sp_object_key = key\<rparr>"

text \<open>What follows the first write when the generation exists.\<close>

definition snap_existing :: "crates \<Rightarrow> relay_env \<Rightarrow> storage_config \<Rightarrow> uuid \<Rightarrow> tenant_limits \<Rightarrow> int \<Rightarrow> int \<Rightarrow> bytes
    \<Rightarrow> string \<Rightarrow> snapshot_request \<Rightarrow> bytes \<Rightarrow> int \<Rightarrow> db \<Rightarrow> db \<times> (app_error + snapshot_response)" where
  "snap_existing X env cfg t limits content_level gen hash key req existing_hash existing_raw d =
     (let existing_present = confirmed X env cfg (snapshot_object_key t (hex_encode existing_hash));
          existing_size = max 0 existing_raw
      in if existing_hash = hash
         then (d, Inr (if existing_present
                 then \<lparr>sp_already_exists = True, sp_upload_url = None, sp_object_key = key\<rparr>
                 else put_url X env cfg key existing_size))
         else if existing_present
         then (d, Inl (Conflict ''snapshot generation already published with a different hash''))
         else (case run_tx (snap_repoint (re_now env) t limits (re_help_url env) content_level gen
                       existing_hash existing_size hash req) d of
                 (d', Inl e) \<Rightarrow> (d', Inl e) | (d', Inr _) \<Rightarrow> (d', Inr (put_url X env cfg key (sr_size req)))))"

definition snapshot_presign :: "crates \<Rightarrow> relay_env \<Rightarrow> auth_tenant \<Rightarrow> header \<Rightarrow> header \<Rightarrow> snapshot_request \<Rightarrow> db
    \<Rightarrow> db \<times> (app_error + snapshot_response)" where
  "snapshot_presign X env auth cap_header content_header req d =
     (let t = au_tenant auth in
      case header_level content_header ''x-yapstack-snapshot-capability'' of
        Inl e \<Rightarrow> (d, Inl e)
      | Inr content_level \<Rightarrow>
      (case run_tx_join (snap_gate (re_now env) auth cap_header content_level) d of
        (d1, Inl e) \<Rightarrow> (d1, Inl e)
      | (d1, Inr _) \<Rightarrow>
      (case bind_result (storage_cfg env) (\<lambda>cfg. bind_result (parse_sha256 (sr_sha256 req)) (\<lambda>h. Inr (cfg, h))) of
        Inl e \<Rightarrow> (d1, Inl e)
      | Inr (cfg, hash, hash_hex) \<Rightarrow>
      (let key = snapshot_object_key t hash_hex;
           limits = limits_for (re_source env) (Some (fetch_limits_row t d1));
           gen = to_i64_sat (sr_generation req)
       in case run_tx (snap_first (re_now env) t limits (re_help_url env) content_level gen hash req) d1 of
            (d2, Inl e) \<Rightarrow> (d2, Inl e)
          | (d2, Inr None) \<Rightarrow> (d2, Inr (put_url X env cfg key (sr_size req)))
          | (d2, Inr (Some (existing_hash, existing_size))) \<Rightarrow>
              snap_existing X env cfg t limits content_level gen hash key req existing_hash existing_size d2))))"

subsection \<open>The read\<close>

record snapshot_head_response =
  sh_present :: bool
  sh_generation :: int
  sh_baseline :: int
  sh_download_url :: "string option"

definition no_snapshot :: snapshot_head_response where
  "no_snapshot = \<lparr>sh_present = False, sh_generation = 0, sh_baseline = 0, sh_download_url = None\<rparr>"

definition latest_snapshot :: "uuid \<Rightarrow> db \<Rightarrow> snapshot_row option" where
  "latest_snapshot t d = (let rows = filter (\<lambda>r. sn_ws r = t) (snapshots d)
     in if rows = [] then None
        else fetch_optional (\<lambda>r. sn_generation r = Max (set (map sn_generation rows))) rows)"

definition snapshot_head :: "crates \<Rightarrow> relay_env \<Rightarrow> auth_tenant \<Rightarrow> header \<Rightarrow> db
    \<Rightarrow> db \<times> (app_error + snapshot_head_response)" where
  "snapshot_head X env auth h d =
     (case run_tx_join (gated_read (re_now env) auth h (\<lambda>levels.
          tx_bind (tx_lift (storage_cfg env)) (\<lambda>cfg.
            tx_read (\<lambda>d. Inr (cfg, latest_snapshot (au_tenant auth) d))))) d of
        (d', Inl e) \<Rightarrow> (d', Inl e)
      | (d', Inr (cfg, None)) \<Rightarrow> (d', Inr no_snapshot)
      | (d', Inr (cfg, Some r)) \<Rightarrow>
          (let key = snapshot_object_key (au_tenant auth) (hex_encode (sn_hash r))
           in if \<not> confirmed X env cfg key then (d', Inr no_snapshot)
              else (d', Inr \<lparr>sh_present = True, sh_generation = max 0 (sn_generation r),
                     sh_baseline = sn_baseline r,
                     sh_download_url = Some (presign X cfg ''GET'' key None (re_now env))\<rparr>)))"

subsection \<open>What the transactions do to the tables\<close>

lemma floor_and_stamp_keep [simp]:
  "snapshots (with_floor t d) = snapshots d" "snapshots (stamp_device now t c l d) = snapshots d"
  by (simp_all add: with_floor_def stamp_device_def split: option.split)

lemma snap_gate_keeps:
  assumes "run_tx_join (snap_gate now auth h lvl) d = (d', r)"
  shows "snapshots d' = snapshots d \<and> usage d' = usage d"
proof (cases "snap_gate now auth h lvl d")
  case (Inr p)
  obtain res d1 where p: "p = (res, d1)" by fastforce
  have "gated_read now auth h (\<lambda>levels. tx_seq (require_active_caller (au_tenant auth) (au_client auth))
       (tx_seq (tx_lift (admit_publication levels lvl)) (tx_return (Inr ())))) d = Inr (res, d1)"
    using Inr p by (simp add: snap_gate_def)
  then have "snapshots d1 = snapshots d \<and> usage d1 = usage d"
    unfolding gated_read_Inr lock_floor_Inr by (auto simp: result_simps split: if_splits)
  then show ?thesis using assms Inr p by (simp add: run_tx_join_def)
qed (use assms in \<open>simp add: run_tx_join_def\<close>)

lemma publication_gate_Inr:
  "publication_gate t lvl d = Inr (u, d') \<longleftrightarrow> (\<exists>l. lock_floor t d = Inr (l, d') \<and> admit_publication l lvl = Inr u)"
  by (auto simp: publication_gate_def tx_bind_eq_Inr tx_lift_eq_Inr)

lemma publication_gate_keeps:
  "publication_gate t lvl d = Inr (u, d') \<Longrightarrow> snapshots d' = snapshots d \<and> usage d' = usage d"
  by (auto simp: publication_gate_Inr lock_floor_Inr)

lemma admit_storage:
  assumes "admit now t limits n h d = Inr (u, d')"
  shows "snapshots d' = snapshots d" and "storage_used t d' = storage_used t d + to_i64_sat n"
proof -
  have a: "admit now t limits n h d = Inr ((), d')" using assms by simp
  show "snapshots d' = snapshots d" using admit_Inr(2) [OF a] by auto
  show "storage_used t d' = storage_used t d + to_i64_sat n"
    using admit_Inr(3) [OF a] by (simp add: storage_used_def charge_def metered_row_storage [unfolded storage_used_def])
qed

lemma storage_used_cong: "usage d' = usage d \<Longrightarrow> storage_used t d' = storage_used t d"
  by (simp add: storage_used_def usage_of_def)

lemma snap_first_Inr:
  assumes "snap_first now t limits help lvl gen hash req d = Inr (r, d')"
  shows "case r of Some (eh, es) \<Rightarrow> \<exists>row. snapshot_of t gen d = Some row \<and> eh = sn_hash row \<and> es = sn_size row \<and>
           snapshots d' = snapshots d \<and> usage d' = usage d
    | None \<Rightarrow> snapshot_of t gen d = None \<and> snapshots d' = snapshots d @ [new_snapshot t gen hash req] \<and>
        storage_used t d' = storage_used t d + to_i64_sat (sr_size req)"
proof -
  obtain d1 where g: "publication_gate t lvl d = Inr ((), d1)"
    and rest: "(case snapshot_of t gen d1 of
            Some r \<Rightarrow> tx_return (Some (sn_hash r, sn_size r))
          | None \<Rightarrow>
              tx_seq (insert_snapshot (new_snapshot t gen hash req))
                (tx_seq (admit now t limits (sr_size req) help) (tx_return None))) d1 = Inr (r, d')"
    using assms by (auto simp: snap_first_def tx_seq_eq_Inr tx_bind_eq_Inr tx_read_eq)
  note k = publication_gate_keeps [OF g]
  then have so: "snapshot_of t gen d1 = snapshot_of t gen d" by (simp add: snapshot_of_def)
  show ?thesis
  proof (cases "snapshot_of t gen d")
    case (Some row)
    with rest so k show ?thesis by (simp add: tx_return_eq)
  next
    case None
    with rest so obtain d2 where i: "insert_snapshot (new_snapshot t gen hash req) d1 = Inr ((), d2)"
      and a: "admit now t limits (sr_size req) help d2 = Inr ((), d')" and r: "r = None"
      by (auto simp: tx_seq_eq_Inr tx_return_eq)
    have d2: "d2 = d1\<lparr>snapshots := snapshots d1 @ [new_snapshot t gen hash req]\<rparr>"
      using i by (auto simp: insert_snapshot_def result_simps split: if_splits)
    have "storage_used t d2 = storage_used t d" using k by (intro storage_used_cong) (simp add: d2)
    with admit_storage [OF a] None r k show ?thesis by (simp add: d2)
  qed
qed

lemma snap_repoint_Inr:
  assumes "snap_repoint now t limits help lvl gen eh es hash req d = Inr (u, d')"
  shows "snapshots d' = update_where (\<lambda>r. sn_ws r = t \<and> sn_generation r = gen \<and> sn_hash r = eh)
       (\<lambda>r. r\<lparr>sn_hash := hash, sn_size := to_i64_sat (sr_size req), sn_baseline := sr_baseline req\<rparr>) (snapshots d)"
    and "storage_used t d' = storage_used t d + to_i64_sat (max 0 (sr_size req - es))"
    and "\<exists>r\<in>set (snapshots d). sn_ws r = t \<and> sn_generation r = gen \<and> sn_hash r = eh"
proof -
  obtain d1 d2 where g: "publication_gate t lvl d = Inr ((), d1)"
    and a: "admit now t limits (max 0 (sr_size req - es)) help d1 = Inr ((), d2)"
    and sw: "fst (swap_snapshot t gen eh hash req d2) \<noteq> 0" "d' = snd (swap_snapshot t gen eh hash req d2)"
    using assms by (auto simp: snap_repoint_def tx_seq_eq_Inr tx_bind_eq_Inr tx_require_eq_Inr prod_eq_iff)
  note k = publication_gate_keeps [OF g] and a' = admit_storage [OF a]
  have s2: "snapshots d2 = snapshots d" using k a'(1) by simp
  then show "snapshots d' = update_where (\<lambda>r. sn_ws r = t \<and> sn_generation r = gen \<and> sn_hash r = eh)
       (\<lambda>r. r\<lparr>sn_hash := hash, sn_size := to_i64_sat (sr_size req), sn_baseline := sr_baseline req\<rparr>) (snapshots d)"
    using sw(2) by (simp add: swap_snapshot_def Let_def)
  have "storage_used t d' = storage_used t d2"
    using sw(2) by (intro storage_used_cong) (simp add: swap_snapshot_def Let_def)
  moreover have "storage_used t d1 = storage_used t d" using k by (intro storage_used_cong) simp
  ultimately show "storage_used t d' = storage_used t d + to_i64_sat (max 0 (sr_size req - es))"
    using a'(2) by simp
  show "\<exists>r\<in>set (snapshots d). sn_ws r = t \<and> sn_generation r = gen \<and> sn_hash r = eh"
    using sw(1) s2 rows_where_pos_iff [of _ "snapshots d2"] by (auto simp: swap_snapshot_def Let_def)
qed

text \<open>The three outcomes of the handler.\<close>

lemma snapshot_presign_cases:
  assumes "snapshot_presign X env auth ch coh req d = (d', res)"
  obtains (kept) "snapshots d' = snapshots d" "usage d' = usage d"
  | (inserted) gen hash where "snapshot_of (au_tenant auth) gen d = None"
      "snapshots d' = snapshots d @ [new_snapshot (au_tenant auth) gen hash req]"
      "storage_used (au_tenant auth) d' = storage_used (au_tenant auth) d + to_i64_sat (sr_size req)"
  | (swapped) gen row hash cfg where "snapshot_of (au_tenant auth) gen d = Some row" "storage_cfg env = Inr cfg"
      "\<not> confirmed X env cfg (snapshot_object_key (au_tenant auth) (hex_encode (sn_hash row)))"
      "snapshots d' = update_where (\<lambda>r. sn_ws r = au_tenant auth \<and> sn_generation r = gen \<and> sn_hash r = sn_hash row)
         (\<lambda>r. r\<lparr>sn_hash := hash, sn_size := to_i64_sat (sr_size req), sn_baseline := sr_baseline req\<rparr>) (snapshots d)"
      "storage_used (au_tenant auth) d' = storage_used (au_tenant auth) d +
         to_i64_sat (max 0 (sr_size req - max 0 (sn_size row)))"
proof -
  let ?t = "au_tenant auth"
  show thesis
  proof (cases "header_level coh ''x-yapstack-snapshot-capability''")
    case (Inl e)
    with assms show thesis by (intro kept) (simp_all add: snapshot_presign_def Let_def)
  next
    case lvl: (Inr lvl)
    obtain d1 g where g: "run_tx_join (snap_gate (re_now env) auth ch lvl) d = (d1, g)" by fastforce
    note k1 = snap_gate_keeps [OF g]
    have so1: "snapshot_of ?t gen d1 = snapshot_of ?t gen d" for gen using k1 by (simp add: snapshot_of_def)
    have su1: "storage_used ?t d1 = storage_used ?t d" by (rule storage_used_cong) (simp add: k1)
    show thesis
    proof (cases g)
      case (Inl e)
      with assms lvl g k1 show thesis by (intro kept) (simp_all add: snapshot_presign_def Let_def)
    next
      case gi: (Inr u)
      show thesis
      proof (cases "bind_result (storage_cfg env) (\<lambda>cfg. bind_result (parse_sha256 (sr_sha256 req)) (\<lambda>h. Inr (cfg, h)))")
        case (Inl e)
        with assms lvl g gi k1 show thesis by (intro kept) (simp_all add: snapshot_presign_def Let_def)
      next
        case (Inr parts)
        obtain cfg hash hex where c: "parts = (cfg, hash, hex)" by (metis prod.exhaust)
        have cfg: "storage_cfg env = Inr cfg" using Inr c by (auto simp: result_simps)
        let ?lim = "limits_for (re_source env) (Some (fetch_limits_row ?t d1))"
        let ?gen = "to_i64_sat (sr_generation req)"
        let ?first = "snap_first (re_now env) ?t ?lim (re_help_url env) lvl ?gen hash req"
        have run: "(case run_tx ?first d1 of
            (d2, Inl e) \<Rightarrow> (d2, Inl e)
          | (d2, Inr None) \<Rightarrow> (d2, Inr (put_url X env cfg (snapshot_object_key ?t hex) (sr_size req)))
          | (d2, Inr (Some (existing_hash, existing_size))) \<Rightarrow>
              snap_existing X env cfg ?t ?lim lvl ?gen hash (snapshot_object_key ?t hex) req existing_hash existing_size d2) = (d', res)"
          using assms g gi Inr c lvl by (simp add: snapshot_presign_def Let_def)
        show thesis
        proof (cases "?first d1")
          case (Inl e)
          with run k1 show thesis by (intro kept) (simp_all add: run_tx_def)
        next
          case f: (Inr r2)
          obtain r d2 where r2: "r2 = (r, d2)" by fastforce
          note fi = snap_first_Inr [OF f [unfolded r2]]
          show thesis
          proof (cases r)
            case None
            with run f r2 have "d' = d2" by (simp add: run_tx_def)
            with fi None so1 su1 k1 show thesis by (intro inserted) simp_all
          next
            case (Some x)
            then obtain eh es where x: "r = Some (eh, es)" by fastforce
            with fi so1 k1 obtain row where row: "snapshot_of ?t ?gen d = Some row" "eh = sn_hash row" "es = sn_size row"
              "snapshots d2 = snapshots d" "usage d2 = usage d" by auto
            have ex: "snap_existing X env cfg ?t ?lim lvl ?gen hash (snapshot_object_key ?t hex) req eh es d2 = (d', res)"
              using run f r2 x by (simp add: run_tx_def)
            show thesis
            proof (cases "d' = d2")
              case True
              with row show thesis by (intro kept) simp_all
            next
              case False
              with ex obtain u where rp: "snap_repoint (re_now env) ?t ?lim (re_help_url env) lvl ?gen eh (max 0 es) hash req d2 = Inr (u, d')"
                and nc: "\<not> confirmed X env cfg (snapshot_object_key ?t (hex_encode eh))"
                by (auto simp: snap_existing_def Let_def run_tx_def split: if_splits sum.splits prod.splits)
              have "storage_used ?t d2 = storage_used ?t d" by (rule storage_used_cong) (simp add: row)
              with snap_repoint_Inr [OF rp] row cfg nc show thesis by (intro swapped [of ?gen row cfg hash]) simp_all
            qed
          qed
        qed
      qed
    qed
  qed
qed

subsection \<open>Stored bytes\<close>

definition snapshots_keyed :: "db \<Rightarrow> bool" where
  "snapshots_keyed d \<longleftrightarrow> distinct (map (\<lambda>r. (sn_ws r, sn_generation r)) (snapshots d))"

definition snapshot_bytes :: "uuid \<Rightarrow> db \<Rightarrow> int" where
  "snapshot_bytes t d = sum_list (map sn_size (filter (\<lambda>r. sn_ws r = t) (snapshots d)))"

lemma snapshot_of_Some:
  "snapshot_of t gen d = Some r \<Longrightarrow> r \<in> set (snapshots d) \<and> sn_ws r = t \<and> sn_generation r = gen"
  by (auto simp: snapshot_of_def dest: fetch_optional_Some)

lemma swap_bytes:
  assumes "distinct (map (\<lambda>r. (sn_ws r, sn_generation r)) rows)" and "row \<in> set rows"
    and "sn_ws row = t" and "sn_generation row = gen"
  shows "sum_list (map sn_size (filter (\<lambda>r. sn_ws r = t) (update_where
      (\<lambda>r. sn_ws r = t \<and> sn_generation r = gen \<and> sn_hash r = sn_hash row)
      (\<lambda>r. r\<lparr>sn_hash := hash, sn_size := sz, sn_baseline := bl\<rparr>) rows))) =
    sum_list (map sn_size (filter (\<lambda>r. sn_ws r = t) rows)) + sz - sn_size row"
  using assms
proof (induction rows)
  case (Cons r rows)
  show ?case
  proof (cases "r = row")
    case True
    with Cons.prems have "(t, gen) \<notin> (\<lambda>r. (sn_ws r, sn_generation r)) ` set rows" by auto
    then have "\<not> (sn_ws r' = t \<and> sn_generation r' = gen)" if "r' \<in> set rows" for r'
      using that by (auto simp: image_iff)
    then have "update_where (\<lambda>r. sn_ws r = t \<and> sn_generation r = gen \<and> sn_hash r = sn_hash row)
        (\<lambda>r. r\<lparr>sn_hash := hash, sn_size := sz, sn_baseline := bl\<rparr>) rows = rows"
      by (intro update_where_id) blast
    with True Cons.prems show ?thesis by simp
  next
    case False
    with Cons.prems have "row \<in> set rows" by simp
    moreover from this Cons.prems have "\<not> (sn_ws r = t \<and> sn_generation r = gen)" by force
    ultimately show ?thesis using Cons by (cases "sn_ws r = t") auto
  qed
qed simp

subsection \<open>Properties\<close>

text \<open>No snapshot byte is stored unmetered. Whatever a presign does - insert a generation, hand
  out a fresh URL for an upload that died, point the generation at a larger or smaller resealed
  ciphertext, or refuse - the bytes the tenant's snapshot rows declare grow by at most what the
  choke point charged in the same request, and generations stay unique.\<close>

theorem snapshot_bytes_metered:
  assumes "snapshot_presign X env auth ch coh req d = (d', res)" and "snapshots_keyed d"
    and "0 \<le> sr_size req" and "\<And>r. r \<in> set (snapshots d) \<Longrightarrow> 0 \<le> sn_size r"
  shows "snapshot_bytes (au_tenant auth) d' - snapshot_bytes (au_tenant auth) d \<le>
      storage_used (au_tenant auth) d' - storage_used (au_tenant auth) d \<and> snapshots_keyed d'"
  using assms(1)
proof (cases rule: snapshot_presign_cases)
  case kept
  have "storage_used t d' = storage_used t d" for t by (rule storage_used_cong) (rule kept(2))
  then show ?thesis using assms(2) by (simp add: snapshot_bytes_def snapshots_keyed_def kept(1))
next
  case (inserted gen hash)
  have "(au_tenant auth, gen) \<notin> (\<lambda>r. (sn_ws r, sn_generation r)) ` set (snapshots d)"
    using inserted(1) by (auto simp: snapshot_of_def fetch_optional_None_iff)
  with inserted assms(2) show ?thesis
    by (simp add: snapshot_bytes_def snapshots_keyed_def new_snapshot_def)
next
  case (swapped gen row hash cfg)
  note r = snapshot_of_Some [OF swapped(1)]
  have "0 \<le> sn_size row" using r assms(4) by blast
  then have "to_i64_sat (sr_size req) - sn_size row \<le> to_i64_sat (max 0 (sr_size req - max 0 (sn_size row)))"
    using assms(3) by (auto simp: to_i64_sat_def i64_max_def)
  moreover have "snapshot_bytes (au_tenant auth) d' =
      snapshot_bytes (au_tenant auth) d + to_i64_sat (sr_size req) - sn_size row"
    unfolding snapshot_bytes_def swapped(4)
    by (rule swap_bytes) (use r assms(2) in \<open>simp_all add: snapshots_keyed_def\<close>)
  moreover have "snapshots_keyed d'"
    using assms(2) by (simp add: snapshots_keyed_def swapped(4) map_update_where)
  ultimately show ?thesis using swapped(5) by simp
qed

text \<open>A published snapshot is immutable. Once the object of a generation is confirmed to be in
  storage, no presign changes its row: not its hash, its size or its baseline; a request with
  another ciphertext for the generation gets a conflict.\<close>

theorem snapshot_published_immutable:
  assumes "snapshots_keyed d" and "r \<in> set (snapshots d)" and "re_storage env = Some cfg"
    and "object_exists X cfg (re_now env) (re_net env)
           (snapshot_object_key (sn_ws r) (hex_encode (sn_hash r))) = Inr True"
  shows "r \<in> set (snapshots (fst (snapshot_presign X env auth ch coh req d)))"
proof -
  obtain d' res where run: "snapshot_presign X env auth ch coh req d = (d', res)" by fastforce
  then have "r \<in> set (snapshots d')"
  proof (cases rule: snapshot_presign_cases)
    case (swapped gen row hash cfg')
    note rw = snapshot_of_Some [OF swapped(1)]
    have "cfg' = cfg" using swapped(2) assms(3) by (simp add: storage_cfg_def)
    with swapped(3) assms(4) have ne: "\<not> (sn_ws r = au_tenant auth \<and> sn_hash r = sn_hash row)"
      by (auto simp: confirmed_def)
    then have "\<not> (sn_ws r = au_tenant auth \<and> sn_generation r = gen \<and> sn_hash r = sn_hash row)" by blast
    with assms(2) show ?thesis unfolding swapped(4) set_update_where
      by (intro image_eqI [of _ _ r]) auto
  qed (use assms(2) in auto)
  with run show ?thesis by simp
qed

definition snapshot_db :: db where
  "snapshot_db = audio_db\<lparr>snapshots := [\<lparr>sn_ws = 1, sn_generation = 3, sn_hash = [7], sn_size = 10, sn_baseline = 2\<rparr>]\<rparr>"

definition sample_snapshot :: snapshot_request where
  "sample_snapshot = \<lparr>sr_sha256 = hex_encode (replicate 32 10), sr_size = 12, sr_generation = 3, sr_baseline = 5\<rparr>"

lemma snapshot_bytes_metered_witness:
  "snapshot_bytes 1 (fst (snapshot_presign toy_crates audio_env sample_auth None None sample_snapshot snapshot_db)) - 10
     \<le> storage_used 1 (fst (snapshot_presign toy_crates audio_env sample_auth None None sample_snapshot snapshot_db))"
proof -
  obtain d' res where run: "snapshot_presign toy_crates audio_env sample_auth None None sample_snapshot snapshot_db = (d', res)"
    by fastforce
  have k: "snapshots_keyed snapshot_db" by (simp add: snapshots_keyed_def snapshot_db_def)
  have z: "0 \<le> sr_size sample_snapshot" by (simp add: sample_snapshot_def)
  have p: "0 \<le> sn_size r" if "r \<in> set (snapshots snapshot_db)" for r
    using that by (simp add: snapshot_db_def)
  have "au_tenant sample_auth = 1" by (simp add: sample_auth_def)
  moreover have "snapshot_bytes 1 snapshot_db = 10" by (simp add: snapshot_bytes_def snapshot_db_def)
  moreover have "storage_used 1 snapshot_db = 0"
    by (simp add: storage_used_def usage_of_def snapshot_db_def audio_db_def empty_db_def)
  ultimately show ?thesis using snapshot_bytes_metered [OF run k z p] run by simp
qed

lemma snapshot_published_immutable_witness:
  "\<lparr>sn_ws = 1, sn_generation = 3, sn_hash = [7], sn_size = 10, sn_baseline = 2\<rparr> \<in>
     set (snapshots (fst (snapshot_presign toy_crates audio_env sample_auth None None sample_snapshot snapshot_db)))"
  by (rule snapshot_published_immutable [where cfg = sample_storage])
    (simp_all add: snapshots_keyed_def snapshot_db_def audio_env_def object_exists_def signed_request_def)

end
