(* ===== verification/Tokens.thy ===== *)
theory Tokens
  imports Devices
begin

text \<open>
  Tokens and proofs of possession: \<open>crates/yapstack-server/src/jwt.rs\<close> (issuing and verifying access
  and refresh tokens over the JWT library's encoding), the \<open>AuthTenant\<close> extractor of \<open>extract.rs\<close>, the
  length-prefixed encoding of \<open>crates/yapstack-crypto/src/aead.rs\<close> and the login proof of \<open>sign.rs\<close>.
  The signing secret is an argument; \<open>Utc::now().timestamp()\<close> is the clock in whole seconds.
\<close>

definition access_ttl_secs :: int where
  "access_ttl_secs = 15 * 60"

definition refresh_ttl_secs :: int where
  "refresh_ttl_secs = 30 * 24 * 60 * 60"

definition unix_seconds :: "timestamp \<Rightarrow> int" where
  "unix_seconds now = now div 1000000"

record access_claims =
  ac_sub :: uuid
  ac_tenant :: uuid
  ac_client :: "uuid option"
  ac_typ :: string
  ac_iat :: int
  ac_exp :: int

record refresh_claims =
  rc_sub :: uuid
  rc_tenant :: uuid
  rc_client :: "uuid option"
  rc_family :: uuid
  rc_jti :: uuid
  rc_typ :: string
  rc_iat :: int
  rc_exp :: int

definition access_json :: "access_claims \<Rightarrow> claims" where
  "access_json c = \<lparr>jc_sub = ac_sub c, jc_tenant = ac_tenant c, jc_client = ac_client c, jc_family = None,
     jc_jti = None, jc_typ = ac_typ c, jc_iat = ac_iat c, jc_exp = ac_exp c\<rparr>"

definition refresh_json :: "refresh_claims \<Rightarrow> claims" where
  "refresh_json c = \<lparr>jc_sub = rc_sub c, jc_tenant = rc_tenant c, jc_client = rc_client c,
     jc_family = Some (rc_family c), jc_jti = Some (rc_jti c), jc_typ = rc_typ c, jc_iat = rc_iat c,
     jc_exp = rc_exp c\<rparr>"

text \<open>Deserialising: unknown fields are ignored, and a missing \<open>family\<close> or \<open>jti\<close> is an error.\<close>

definition access_of_json :: "claims \<Rightarrow> access_claims option" where
  "access_of_json j = Some \<lparr>ac_sub = jc_sub j, ac_tenant = jc_tenant j, ac_client = jc_client j,
     ac_typ = jc_typ j, ac_iat = jc_iat j, ac_exp = jc_exp j\<rparr>"

definition refresh_of_json :: "claims \<Rightarrow> refresh_claims option" where
  "refresh_of_json j = (case (jc_family j, jc_jti j) of
       (Some f, Some i) \<Rightarrow> Some \<lparr>rc_sub = jc_sub j, rc_tenant = jc_tenant j, rc_client = jc_client j,
          rc_family = f, rc_jti = i, rc_typ = jc_typ j, rc_iat = jc_iat j, rc_exp = jc_exp j\<rparr>
     | _ \<Rightarrow> None)"

definition issue_access :: "crates \<Rightarrow> bytes \<Rightarrow> timestamp \<Rightarrow> uuid \<Rightarrow> uuid \<Rightarrow> uuid option \<Rightarrow> string" where
  "issue_access X secret now user tenant client_id = jwt_encode X secret (access_json
     \<lparr>ac_sub = user, ac_tenant = tenant, ac_client = client_id, ac_typ = ''access'',
      ac_iat = unix_seconds now, ac_exp = unix_seconds now + access_ttl_secs\<rparr>)"

definition issue_refresh ::
  "crates \<Rightarrow> bytes \<Rightarrow> timestamp \<Rightarrow> uuid \<Rightarrow> uuid \<Rightarrow> uuid option \<Rightarrow> uuid \<Rightarrow> uuid \<Rightarrow> string" where
  "issue_refresh X secret now user tenant client_id family jti = jwt_encode X secret (refresh_json
     \<lparr>rc_sub = user, rc_tenant = tenant, rc_client = client_id, rc_family = family, rc_jti = jti,
      rc_typ = ''refresh'', rc_iat = unix_seconds now, rc_exp = unix_seconds now + refresh_ttl_secs\<rparr>)"

definition verify_access :: "crates \<Rightarrow> bytes \<Rightarrow> timestamp \<Rightarrow> string \<Rightarrow> access_claims option" where
  "verify_access X secret now token =
     (case jwt_decode X secret (unix_seconds now) token of None \<Rightarrow> None | Some j \<Rightarrow>
       (case access_of_json j of None \<Rightarrow> None | Some c \<Rightarrow> if ac_typ c \<noteq> ''access'' then None else Some c))"

definition verify_refresh :: "crates \<Rightarrow> bytes \<Rightarrow> timestamp \<Rightarrow> string \<Rightarrow> refresh_claims option" where
  "verify_refresh X secret now token =
     (case jwt_decode X secret (unix_seconds now) token of None \<Rightarrow> None | Some j \<Rightarrow>
       (case refresh_of_json j of None \<Rightarrow> None | Some c \<Rightarrow> if rc_typ c \<noteq> ''refresh'' then None else Some c))"

subsection \<open>The authenticated caller\<close>

fun strip_prefix :: "string \<Rightarrow> string \<Rightarrow> string option" where
  "strip_prefix [] s = Some s"
| "strip_prefix (p # ps) [] = None"
| "strip_prefix (p # ps) (c # s) = (if p = c then strip_prefix ps s else None)"

text \<open>The header as \<open>to_str\<close> reads it: \<open>None\<close> when it is missing or not visible ASCII.\<close>

definition auth_from_header :: "crates \<Rightarrow> bytes \<Rightarrow> timestamp \<Rightarrow> string option \<Rightarrow> app_error + auth_tenant" where
  "auth_from_header X secret now hdr =
     bind_result (ok_or (case hdr of None \<Rightarrow> None | Some v \<Rightarrow> strip_prefix ''Bearer '' v) Unauthorized) (\<lambda>token.
       bind_result (ok_or (verify_access X secret now token) Unauthorized) (\<lambda>c.
         Inr \<lparr>au_user = ac_sub c, au_tenant = ac_tenant c, au_client = ac_client c\<rparr>))"

lemma strip_prefix_append [simp]: "strip_prefix p (p @ s) = Some s"
  by (induction p) simp_all

subsection \<open>The login proof\<close>

definition login_pop_domain :: bytes where
  "login_pop_domain = str_bytes ''yapstack.login.pop.v1''"

definition login_pop_message :: "bytes \<Rightarrow> bytes \<Rightarrow> bytes \<Rightarrow> string \<Rightarrow> bytes option" where
  "login_pop_message nonce client_id ed25519_pub email_lower =
     lp [login_pop_domain, nonce, client_id, ed25519_pub, str_bytes email_lower]"

definition verify_pop_signature :: "crates \<Rightarrow> bytes \<Rightarrow> bytes \<Rightarrow> bytes \<Rightarrow> crypto_error + unit" where
  "verify_pop_signature X public_key message signature =
     (if ed25519_verify_strict X public_key message signature then Inr () else Inl Signature)"

subsection \<open>A concrete token format, for examples\<close>

text \<open>Numbers in unary, each closed by a semicolon, then the type.\<close>

definition put_nat :: "nat \<Rightarrow> string" where
  "put_nat n = replicate n (CHR ''x'') @ '';''"

definition get_nat :: "string \<Rightarrow> nat \<times> string" where
  "get_nat s = (length (takeWhile (\<lambda>c. c = CHR ''x'') s), drop 1 (dropWhile (\<lambda>c. c = CHR ''x'') s))"

fun get_nats :: "nat \<Rightarrow> string \<Rightarrow> nat list \<times> string" where
  "get_nats 0 s = ([], s)"
| "get_nats (Suc k) s = (let (n, s1) = get_nat s; (ns, s2) = get_nats k s1 in (n # ns, s2))"

definition opt_nat :: "uuid option \<Rightarrow> nat" where
  "opt_nat u = (case u of None \<Rightarrow> 0 | Some x \<Rightarrow> Suc (unat x))"

definition nat_opt :: "nat \<Rightarrow> uuid option" where
  "nat_opt n = (case n of 0 \<Rightarrow> None | Suc k \<Rightarrow> Some (of_nat k))"

definition zig :: "int \<Rightarrow> nat" where
  "zig i = (if 0 \<le> i then 2 * nat i else 2 * nat (- i) - 1)"

definition zag :: "nat \<Rightarrow> int" where
  "zag n = (if even n then int (n div 2) else - int ((n + 1) div 2))"

definition unary_token :: "claims \<Rightarrow> string" where
  "unary_token c = concat (map put_nat [unat (jc_sub c), unat (jc_tenant c), opt_nat (jc_client c),
     opt_nat (jc_family c), opt_nat (jc_jti c), zig (jc_iat c), zig (jc_exp c)]) @ jc_typ c"

definition unary_claims :: "string \<Rightarrow> claims" where
  "unary_claims s = (let (ns, typ) = get_nats 7 s in
     \<lparr>jc_sub = of_nat (ns ! 0), jc_tenant = of_nat (ns ! 1), jc_client = nat_opt (ns ! 2),
      jc_family = nat_opt (ns ! 3), jc_jti = nat_opt (ns ! 4), jc_typ = typ, jc_iat = zag (ns ! 5),
      jc_exp = zag (ns ! 6)\<rparr>)"

definition token_crates :: crates where
  "token_crates = toy_crates\<lparr>jwt_encode := (\<lambda>k c. unary_token c),
     jwt_decode := (\<lambda>k now s. let c = unary_claims s in if now \<le> jc_exp c + 60 then Some c else None)\<rparr>"

lemma get_put_nat: "get_nat (put_nat n @ s) = (n, s)"
proof -
  have "takeWhile (\<lambda>c. c = CHR ''x'') (replicate n (CHR ''x'') @ CHR '';'' # s) = replicate n (CHR ''x'')"
    by (induction n) simp_all
  moreover have "dropWhile (\<lambda>c. c = CHR ''x'') (replicate n (CHR ''x'') @ CHR '';'' # s) = CHR '';'' # s"
    by (induction n) simp_all
  ultimately show ?thesis by (simp add: get_nat_def put_nat_def)
qed

lemma get_put_nats: "get_nats (length ns) (concat (map put_nat ns) @ s) = (ns, s)"
  by (induction ns) (simp_all add: get_put_nat)

lemma nat_opt_nat: "nat_opt (opt_nat u) = u"
  by (cases u) (simp_all add: nat_opt_def opt_nat_def)

lemma zag_zig: "zag (zig i) = i"
proof (cases "0 \<le> i")
  case False
  then obtain k where k: "nat (- i) = Suc k" by (cases "nat (- i)") auto
  then have "zag (zig i) = - int (Suc k)" using False by (simp add: zag_def zig_def)
  also have "- int (Suc k) = i" using k False by (simp add: nat_eq_iff)
  finally show ?thesis .
qed (simp add: zag_def zig_def)

lemma unary_round: "unary_claims (unary_token c) = c"
proof -
  have seven: "(7 :: nat) = length [unat (jc_sub c), unat (jc_tenant c), opt_nat (jc_client c),
     opt_nat (jc_family c), opt_nat (jc_jti c), zig (jc_iat c), zig (jc_exp c)]" by simp
  show ?thesis unfolding unary_claims_def unary_token_def seven get_put_nats
    by (simp add: nat_opt_nat zag_zig)
qed

lemma token_crates_laws: "jwt_law token_crates" "hmac_law token_crates" "b64_law token_crates"
  using toy_hmac toy_b64
  by (simp_all add: jwt_law_def hmac_law_def b64_law_def token_crates_def unary_round)

text \<open>An issued access token authenticates its caller while it lasts.\<close>

lemma tokens_bind:
  assumes "jwt_law X" and "unix_seconds t \<le> unix_seconds now + access_ttl_secs + 60"
  shows "auth_from_header X k t (Some (''Bearer '' @ issue_access X k now u w c)) =
        Inr \<lparr>au_user = u, au_tenant = w, au_client = c\<rparr>"
  using assms by (simp add: auth_from_header_def verify_access_def issue_access_def access_json_def
      access_of_json_def jwt_law_def)

subsection \<open>Properties\<close>

text \<open>Tokens bind their tenant and their kind. For as long as the library's sixty seconds of leeway
  past fifteen minutes (thirty days) allow, an issued access (refresh) token verifies to exactly the
  user, workspace and device it was issued for, and the extractor answers with them; a refresh token
  is never accepted as an access token nor the other way round.\<close>

theorem tokens_bind_tenant_and_kind:
  assumes "jwt_law X"
  shows "(unix_seconds t \<le> unix_seconds now + access_ttl_secs + 60 \<longrightarrow>
      auth_from_header X k t (Some (''Bearer '' @ issue_access X k now u w c)) =
        Inr \<lparr>au_user = u, au_tenant = w, au_client = c\<rparr> \<and>
      verify_refresh X k t (issue_access X k now u w c) = None) \<and>
    (unix_seconds t \<le> unix_seconds now + refresh_ttl_secs + 60 \<longrightarrow>
      verify_refresh X k t (issue_refresh X k now u w c f i) =
        Some \<lparr>rc_sub = u, rc_tenant = w, rc_client = c, rc_family = f, rc_jti = i, rc_typ = ''refresh'',
           rc_iat = unix_seconds now, rc_exp = unix_seconds now + refresh_ttl_secs\<rparr> \<and>
      auth_from_header X k t (Some (''Bearer '' @ issue_refresh X k now u w c f i)) = Inl Unauthorized)"
proof -
  note defs = auth_from_header_def verify_access_def verify_refresh_def issue_access_def issue_refresh_def
    access_json_def refresh_json_def access_of_json_def refresh_of_json_def
  have sp: "strip_prefix ''Bearer '' (CHR ''B'' # CHR ''e'' # CHR ''a'' # CHR ''r'' # CHR ''e'' # CHR ''r'' # CHR '' '' # s) = Some s" for s
    by simp
  have dec: "jwt_decode X k n (jwt_encode X k j) = Some j" if "n \<le> jc_exp j + 60" for n j
    using assms that by (simp add: jwt_law_def)
  show ?thesis by (simp add: defs dec sp del: strip_prefix.simps)
qed

lemma tokens_bind_tenant_and_kind_witness:
  "auth_from_header token_crates [1] (minutes 10) (Some (''Bearer '' @ issue_access token_crates [1] 0 2 3 (Some 4))) =
     Inr \<lparr>au_user = 2, au_tenant = 3, au_client = Some 4\<rparr> \<and>
   auth_from_header token_crates [1] 0 (Some (''Bearer '' @ issue_refresh token_crates [1] 0 2 3 None 5 6)) = Inl Unauthorized"
  using tokens_bind_tenant_and_kind [OF token_crates_laws(1), where t = "minutes 10" and now = 0 and k = "[1]" and u = 2 and w = 3 and c = "Some 4"]
    tokens_bind_tenant_and_kind [OF token_crates_laws(1), where t = 0 and now = 0 and k = "[1]" and u = 2 and w = 3 and c = None and f = 5 and i = 6]
  by (simp add: unix_seconds_def access_ttl_secs_def refresh_ttl_secs_def interval_defs)

text \<open>A login proof signs its fields. The message a device signs determines the nonce, the client,
  the public key and the account, so a captured signature is worth nothing for any other login.\<close>

theorem login_pop_binds_fields:
  assumes "login_pop_message n c k e = Some m" and "login_pop_message n' c' k' e' = Some m"
  shows "n = n' \<and> c = c' \<and> k = k' \<and> e = e'"
proof -
  have inj: "str_bytes a = str_bytes b \<Longrightarrow> a = b" for a b
  proof (induction a arbitrary: b)
    case (Cons x xs)
    then obtain y ys where b: "b = y # ys" by (cases b) (auto simp: str_bytes_def)
    with Cons.prems have "(of_char x :: nat) mod 256 = of_char y mod 256" "str_bytes xs = str_bytes ys"
      by (auto simp: str_bytes_def of_nat_byte_eq)
    then show ?case using b Cons.IH by (simp add: of_char_eq_iff)
  qed (simp add: str_bytes_def)
  from lp_inj [OF assms [unfolded login_pop_message_def]] show ?thesis by (auto dest: inj)
qed

lemma login_pop_binds_fields_witness:
  "login_pop_message [9] [2] [3] ''a'' \<noteq> login_pop_message [1] [2] [3] ''a''"
proof
  assume "login_pop_message [9] [2] [3] ''a'' = login_pop_message [1] [2] [3] ''a''"
  moreover obtain m where "login_pop_message [1] [2] [3] ''a'' = Some m"
    by (auto simp: login_pop_message_def login_pop_domain_def str_bytes_def)
  ultimately have "[9 :: 8 word] = [1]" using login_pop_binds_fields by metis
  then show False by simp
qed

end
