(* ===== verification/Auth.thy ===== *)
theory Auth
  imports Tokens Rate_Limit
begin

text \<open>
  The auth endpoints: \<open>crates/yapstack-server/src/auth.rs\<close>. Sign-up, the two login rounds with the
  proof of possession, recovery, the password change, and the rotation of refresh tokens with reuse
  detection. The database, and the three rate limiters the handlers consult, are threaded through; the
  values that the code draws at random (salts, nonces, identifiers) are arguments, and so is the
  time. A statement the code runs on the pool, outside the transaction, is a step of its own whose
  effect stays when the handler then fails.
\<close>

record signup_request =
  sg_email :: string
  sg_auth_key :: string
  sg_recovery_auth_key :: string
  sg_salt_enc :: string
  sg_wrapped_password :: string
  sg_wrapped_recovery :: string
  sg_list :: json
  sg_signature :: string
  sg_counter :: int
  sg_epoch :: int
  sg_client :: uuid
  sg_pub :: string
  sg_label :: string
  sg_platform :: string

record token_response =
  tr_access :: string
  tr_refresh :: string
  tr_tenant :: uuid

text \<open>\<open>LoginFinishRequest\<close> and \<open>RecoverRequest\<close> differ in the name of the key field only; so do the
  two responses in the name of the wrap.\<close>

record login_request =
  lq_email :: string
  lq_key :: string
  lq_client :: "uuid option"
  lq_pub :: "string option"
  lq_label :: "string option"
  lq_platform :: "string option"
  lq_nonce :: "string option"
  lq_proof :: "string option"

record login_response =
  lr_tokens :: token_response
  lr_salt_enc :: string
  lr_wrapped :: string
  lr_list :: "json option"
  lr_signature :: "string option"

record begin_response =
  br_salt_enc :: string
  br_nonce :: "string option"

record password_request =
  pw_current :: "string option"
  pw_auth_key :: string
  pw_wrap :: string

record auth_config =
  cf_invite :: "string option"
  cf_pepper :: string
  cf_jwt_secret :: bytes

text \<open>What a call draws at random; a handler uses the parts it needs.\<close>

record fresh =
  fr_salt :: bytes
  fr_recovery_salt :: bytes
  fr_nonce :: bytes
  fr_user :: uuid
  fr_workspace :: uuid
  fr_family :: uuid
  fr_jti :: uuid

record relay =
  rs_db :: db
  rs_ratelimit :: limiter
  rs_login_ratelimit :: limiter
  rs_signup_ratelimit :: limiter

subsection \<open>Statements\<close>

text \<open>An \<open>INSERT\<close> whose primary key must be new and whose user must exist.\<close>

definition tx_unique :: "(db \<Rightarrow> bool) \<Rightarrow> unit tx" where
  "tx_unique taken = (\<lambda>d. if taken d then Inl (Db ''duplicate key value'') else Inr ((), d))"

definition tx_fk_user :: "uuid \<Rightarrow> unit tx" where
  "tx_fk_user u = (\<lambda>d. if exists_row (\<lambda>r. us_id r = u) (users d)
     then Inr ((), d) else Inl (Db ''violates foreign key constraint''))"

definition email_of :: "string \<Rightarrow> user_row \<Rightarrow> bool" where
  "email_of email r \<longleftrightarrow> lower_str (us_email r) = lower_str email"

text \<open>\<open>yapstack_lookup_login\<close> joined with \<open>users\<close>: the account of an email and its workspace.\<close>

definition lookup_login :: "string \<Rightarrow> db \<Rightarrow> (user_row \<times> uuid) option" where
  "lookup_login email d = (case concat (map (\<lambda>u. map (\<lambda>m. (u, wm_ws m))
       (filter (\<lambda>m. wm_user m = us_id u) (members d))) (filter (email_of email) (users d))) of
     [] \<Rightarrow> None | p # _ \<Rightarrow> Some p)"

definition insert_token :: "refresh_row \<Rightarrow> unit tx" where
  "insert_token r = tx_seq (tx_unique (\<lambda>d. exists_row (\<lambda>x. rt_id x = rt_id r) (refresh_tokens d)))
     (tx_seq (tx_fk_workspace (rt_ws r)) (tx_seq (tx_fk_user (rt_user r))
       (tx_write (\<lambda>d. d\<lparr>refresh_tokens := refresh_tokens d @ [r]\<rparr>))))"

definition new_token :: "timestamp \<Rightarrow> uuid \<Rightarrow> uuid \<Rightarrow> uuid \<Rightarrow> uuid option \<Rightarrow> uuid \<Rightarrow> refresh_row" where
  "new_token now jti t user client family = \<lparr>rt_id = jti, rt_ws = t, rt_user = user, rt_client = client,
     rt_family = family, rt_expires_at = now + seconds refresh_ttl_secs, rt_rotated_at = None,
     rt_replaced_by = None, rt_revoked = False\<rparr>"

definition tokens_of :: "crates \<Rightarrow> bytes \<Rightarrow> timestamp \<Rightarrow> uuid \<Rightarrow> uuid \<Rightarrow> uuid option \<Rightarrow> uuid \<Rightarrow> uuid \<Rightarrow> token_response" where
  "tokens_of X secret now user t client family jti =
     \<lparr>tr_access = issue_access X secret now user t client,
      tr_refresh = issue_refresh X secret now user t client family jti, tr_tenant = t\<rparr>"

definition issue_pair :: "crates \<Rightarrow> bytes \<Rightarrow> timestamp \<Rightarrow> fresh \<Rightarrow> uuid \<Rightarrow> uuid \<Rightarrow> uuid option \<Rightarrow> token_response tx" where
  "issue_pair X secret now fr user t client =
     tx_seq (insert_token (new_token now (fr_jti fr) t user client (fr_family fr)))
       (tx_return (tokens_of X secret now user t client (fr_family fr) (fr_jti fr)))"

subsection \<open>Sign-up\<close>

definition invite_ok :: "auth_config \<Rightarrow> string option \<Rightarrow> bool" where
  "invite_ok cfg hdr = (case cf_invite cfg of None \<Rightarrow> True
     | Some expected \<Rightarrow> ct_eq (str_bytes (case hdr of None \<Rightarrow> [] | Some v \<Rightarrow> v)) (str_bytes expected))"

record signup_fields =
  sf_salt_enc :: bytes
  sf_wrapped_password :: bytes
  sf_wrapped_recovery :: bytes
  sf_signature :: bytes
  sf_pub :: bytes
  sf_verifier :: bytes
  sf_recovery_verifier :: bytes

definition signup_fields_of :: "crates \<Rightarrow> fresh \<Rightarrow> signup_request \<Rightarrow> app_error + signup_fields" where
  "signup_fields_of X fr req =
     bind_result (b64_decode X ''auth_key'' (sg_auth_key req)) (\<lambda>auth_key.
     bind_result (b64_decode X ''recovery_auth_key'' (sg_recovery_auth_key req)) (\<lambda>recovery_auth_key.
     bind_result (b64_decode X ''salt_enc'' (sg_salt_enc req)) (\<lambda>salt_enc.
     bind_result (require (length salt_enc = 16) (BadRequest ''salt_enc: expected 16 bytes'')) (\<lambda>_.
     bind_result (b64_decode X ''wrapped_vault_key_password'' (sg_wrapped_password req)) (\<lambda>wrapped_pw.
     bind_result (b64_decode X ''wrapped_vault_key_recovery'' (sg_wrapped_recovery req)) (\<lambda>wrapped_rec.
     bind_result (b64_decode X ''device_list.signature'' (sg_signature req)) (\<lambda>signature.
     bind_result (b64_decode X ''device_list.ed25519_pub'' (sg_pub req)) (\<lambda>ed_pub.
     bind_result (server_verifier X auth_key (fr_salt fr)) (\<lambda>verifier.
     bind_result (server_verifier X recovery_auth_key (fr_recovery_salt fr)) (\<lambda>recovery_verifier.
       Inr \<lparr>sf_salt_enc = salt_enc, sf_wrapped_password = wrapped_pw, sf_wrapped_recovery = wrapped_rec,
            sf_signature = signature, sf_pub = ed_pub, sf_verifier = verifier,
            sf_recovery_verifier = recovery_verifier\<rparr>))))))))))"

definition new_user :: "fresh \<Rightarrow> signup_request \<Rightarrow> signup_fields \<Rightarrow> user_row" where
  "new_user fr req f = \<lparr>us_id = fr_user fr, us_email = sg_email req, us_verifier = sf_verifier f,
     us_server_salt = fr_salt fr, us_salt_enc = sf_salt_enc f, us_wrapped_password = sf_wrapped_password f,
     us_wrapped_recovery = sf_wrapped_recovery f, us_recovery_salt = Some (fr_recovery_salt fr),
     us_recovery_verifier = Some (sf_recovery_verifier f)\<rparr>"

definition new_device :: "timestamp \<Rightarrow> uuid \<Rightarrow> uuid \<Rightarrow> uuid \<Rightarrow> bytes \<Rightarrow> string \<Rightarrow> string \<Rightarrow> device_status \<Rightarrow> device_row" where
  "new_device now cid t user ed_pub label platform status = \<lparr>dv_client = cid, dv_ws = t, dv_user = user,
     dv_pub = ed_pub, dv_label = label, dv_platform = platform, dv_status = status, dv_added_at = now,
     dv_recovery_grant_at = None, dv_recovered_at = None, dv_sync_capability = 0, dv_seen_at = None\<rparr>"

text \<open>The insertions of the sign-up transaction, each under its keys.\<close>

definition signup_tx :: "crates \<Rightarrow> auth_config \<Rightarrow> timestamp \<Rightarrow> fresh \<Rightarrow> signup_request \<Rightarrow> signup_fields \<Rightarrow> token_response tx" where
  "signup_tx X cfg now fr req f =
     (let u = fr_user fr; t = fr_workspace fr in
      tx_bind (tx_read (\<lambda>d. exists_row (email_of (sg_email req)) (users d))) (\<lambda>taken.
      tx_seq (tx_require (\<not> taken) (Conflict ''email already registered''))
      (tx_seq (tx_unique (\<lambda>d. exists_row (\<lambda>r. us_id r = u) (users d)))
      (tx_seq (tx_write (\<lambda>d. d\<lparr>users := users d @ [new_user fr req f]\<rparr>))
      (tx_seq (tx_unique (\<lambda>d. exists_row (\<lambda>r. ws_id r = t) (workspaces d)))
      (tx_seq (tx_write (\<lambda>d. d\<lparr>workspaces := workspaces d @ [\<lparr>ws_id = t, ws_name = []\<rparr>]\<rparr>))
      (tx_seq (tx_unique (\<lambda>d. exists_row (\<lambda>m. wm_ws m = t \<and> wm_user m = u) (members d)))
      (tx_seq (tx_write (\<lambda>d. d\<lparr>members := members d @ [\<lparr>wm_ws = t, wm_user = u, wm_role = ''owner''\<rparr>]\<rparr>))
      (tx_seq (tx_unique (\<lambda>d. exists_row (\<lambda>r. dv_client r = sg_client req) (devices d)))
      (tx_seq (tx_write (\<lambda>d. d\<lparr>devices := devices d @
          [new_device now (sg_client req) t u (sf_pub f) (sg_label req) (sg_platform req) DevActive]\<rparr>))
      (tx_seq (tx_unique (\<lambda>d. exists_row (\<lambda>r. ro_ws r = t) (rosters d)))
      (tx_seq (tx_write (\<lambda>d. d\<lparr>rosters := rosters d @ [\<lparr>ro_ws = t, ro_list = sg_list req,
          ro_signature = sf_signature f, ro_counter = sg_counter req, ro_epoch = sg_epoch req\<rparr>]\<rparr>))
      (issue_pair X (cf_jwt_secret cfg) now fr u t (Some (sg_client req)))))))))))))))"

definition signup :: "crates \<Rightarrow> auth_config \<Rightarrow> timestamp \<Rightarrow> fresh \<Rightarrow> string \<Rightarrow> string option \<Rightarrow> signup_request \<Rightarrow> relay
    \<Rightarrow> relay \<times> (app_error + token_response)" where
  "signup X cfg now fr ip invite req st =
     (let (allowed, rl) = check (rs_signup_ratelimit st) now nil_uuid ip;
          st1 = st\<lparr>rs_signup_ratelimit := rl\<rparr>
      in if \<not> allowed then (st1, Inl RateLimited)
         else if \<not> invite_ok cfg invite then (st1, Inl Unauthorized)
         else case signup_fields_of X fr req of
              Inl e \<Rightarrow> (st1, Inl e)
            | Inr f \<Rightarrow> (case run_tx (signup_tx X cfg now fr req f) (rs_db st1) of
                 (d, r) \<Rightarrow> (st1\<lparr>rs_db := d\<rparr>, r)))"

subsection \<open>Login, round one\<close>

definition prune_nonces :: "timestamp \<Rightarrow> db \<Rightarrow> db" where
  "prune_nonces now d = d\<lparr>login_nonces := delete_where (\<lambda>r. ln_issued_at r < now - minutes 10) (login_nonces d)\<rparr>"

definition insert_nonce :: "timestamp \<Rightarrow> bytes \<Rightarrow> string \<Rightarrow> unit tx" where
  "insert_nonce now nonce email = tx_seq (tx_unique (\<lambda>d. exists_row (\<lambda>r. ln_nonce r = nonce) (login_nonces d)))
     (tx_write (\<lambda>d. d\<lparr>login_nonces := login_nonces d @
        [\<lparr>ln_nonce = nonce, ln_email = lower_str email, ln_issued_at = now\<rparr>]\<rparr>))"

text \<open>The stored salt, or the decoy. (\<open>expand\<close> of 16 bytes does not panic.)\<close>

definition login_salt :: "crates \<Rightarrow> auth_config \<Rightarrow> string \<Rightarrow> db \<Rightarrow> app_error + bytes" where
  "login_salt X cfg email d = (case fetch_optional (email_of email) (users d) of
       Some u \<Rightarrow> Inr (us_salt_enc u)
     | None \<Rightarrow> ok_or (hkdf_expand X (str_bytes (cf_pepper cfg)) (str_bytes (lower_str email)) 16) (Internal ''panic''))"

definition login_begin :: "crates \<Rightarrow> auth_config \<Rightarrow> timestamp \<Rightarrow> fresh \<Rightarrow> string \<Rightarrow> string \<Rightarrow> relay
    \<Rightarrow> relay \<times> (app_error + begin_response)" where
  "login_begin X cfg now fr ip email st =
     (let (allowed, rl) = check (rs_ratelimit st) now nil_uuid ip;
          st1 = st\<lparr>rs_ratelimit := rl\<rparr>
      in if \<not> allowed then (st1, Inl RateLimited)
         else if length email > 254 then (st1, Inl (BadRequest ''email: too long''))
         else case login_salt X cfg email (rs_db st1) of
              Inl e \<Rightarrow> (st1, Inl e)
            | Inr salt \<Rightarrow> (case run_tx (insert_nonce now (fr_nonce fr) email) (prune_nonces now (rs_db st1)) of
                 (d, Inl e) \<Rightarrow> (st1\<lparr>rs_db := d\<rparr>, Inl e)
               | (d, Inr _) \<Rightarrow> (st1\<lparr>rs_db := d\<rparr>,
                   Inr \<lparr>br_salt_enc = b64_enc X salt, br_nonce = Some (b64_enc X (fr_nonce fr))\<rparr>)))"

subsection \<open>Proof of possession\<close>

record login_pop =
  lp_client :: uuid
  lp_pub :: string
  lp_nonce :: string
  lp_proof :: string

definition pop_fields :: "crates \<Rightarrow> login_pop \<Rightarrow> app_error + bytes \<times> bytes \<times> bytes" where
  "pop_fields X pop =
     bind_result (b64_decode X ''ed25519_pub'' (lp_pub pop)) (\<lambda>presented.
     bind_result (require (length presented = 32) (BadRequest ''ed25519_pub: expected 32 bytes'')) (\<lambda>_.
     bind_result (ok_or (b64_dec X (lp_nonce pop)) Unauthorized) (\<lambda>nonce.
     bind_result (ok_or (b64_dec X (lp_proof pop)) Unauthorized) (\<lambda>proof.
     bind_result (require (length proof = 64) Unauthorized) (\<lambda>_. Inr (presented, nonce, proof))))))"

definition nonce_matches :: "timestamp \<Rightarrow> bytes \<Rightarrow> string \<Rightarrow> login_nonce_row \<Rightarrow> bool" where
  "nonce_matches now nonce email r \<longleftrightarrow>
     ln_nonce r = nonce \<and> ln_email r = lower_str email \<and> ln_issued_at r > now - minutes 5"

definition consume_nonce :: "timestamp \<Rightarrow> bytes \<Rightarrow> string \<Rightarrow> db \<Rightarrow> nat \<times> db" where
  "consume_nonce now nonce email d = (rows_where (nonce_matches now nonce email) (login_nonces d),
     d\<lparr>login_nonces := delete_where (nonce_matches now nonce email) (login_nonces d)\<rparr>)"

text \<open>The key the proof must verify under: the stored one of a known device.\<close>

definition proof_key :: "uuid \<Rightarrow> uuid \<Rightarrow> bytes \<Rightarrow> db \<Rightarrow> app_error + bytes" where
  "proof_key t client presented d = (case device_of t client d of
       None \<Rightarrow> Inr presented
     | Some r \<Rightarrow> if length (dv_pub r) = 32 then Inr (dv_pub r) else Inl Unauthorized)"

definition verify_login_pop :: "crates \<Rightarrow> timestamp \<Rightarrow> uuid \<Rightarrow> string \<Rightarrow> login_pop \<Rightarrow> db \<Rightarrow> db \<times> (app_error + bytes)" where
  "verify_login_pop X now t email pop d = (case pop_fields X pop of
       Inl e \<Rightarrow> (d, Inl e)
     | Inr (presented, nonce, proof) \<Rightarrow>
       (case consume_nonce now nonce email d of (consumed, d1) \<Rightarrow>
          if consumed \<noteq> 1 then (d1, Inl Unauthorized)
          else (d1, bind_result (proof_key t (lp_client pop) presented d1) (\<lambda>key.
             bind_result (ok_or (login_pop_message nonce (uuid_bytes (lp_client pop)) presented (lower_str email))
                            (Internal ''panic'')) (\<lambda>message.
               if verify_pop_signature X key message proof = Inr () then Inr key else Inl Unauthorized)))))"

subsection \<open>Login, round two, and recovery\<close>

text \<open>\<open>INSERT INTO devices .. ON CONFLICT (client_id) DO UPDATE .. WHERE\<close> the row is this account's:
  the number of rows touched. \<open>arm\<close> is what the update sets besides the status.\<close>

definition enroll :: "(device_row \<Rightarrow> device_row) \<Rightarrow> device_row \<Rightarrow> db \<Rightarrow> nat \<times> db" where
  "enroll arm r d =
     (if exists_row (\<lambda>x. dv_client x = dv_client r) (devices d)
      then (let p = (\<lambda>x. dv_client x = dv_client r \<and> dv_ws x = dv_ws r \<and> dv_user x = dv_user r)
            in (rows_where p (devices d), d\<lparr>devices := update_where p
                 (\<lambda>x. (arm x)\<lparr>dv_status := (if dv_status x = DevRevoked then DevPending else dv_status x)\<rparr>) (devices d)\<rparr>))
      else (1, d\<lparr>devices := devices d @ [r]\<rparr>))"

definition enroll_tx :: "(device_row \<Rightarrow> device_row) \<Rightarrow> device_row \<Rightarrow> unit tx" where
  "enroll_tx arm r = tx_seq (tx_fk_workspace (dv_ws r)) (tx_seq (tx_fk_user (dv_user r))
     (tx_bind (\<lambda>d. Inr (enroll arm r d)) (\<lambda>touched.
        tx_require (touched = 1) (Conflict ''client_id is already enrolled under a different account''))))"

definition login_arm :: "device_row \<Rightarrow> device_row" where
  "login_arm r = r"

definition recover_arm :: "timestamp \<Rightarrow> device_row \<Rightarrow> device_row" where
  "recover_arm now r = r\<lparr>dv_recovery_grant_at := (if dv_status r = DevRevoked then None else Some now),
     dv_recovered_at := Some now\<rparr>"

definition pending_device :: "timestamp \<Rightarrow> uuid \<Rightarrow> uuid \<Rightarrow> uuid \<Rightarrow> bytes \<Rightarrow> login_request \<Rightarrow> device_row" where
  "pending_device now cid t user ed_pub req = new_device now cid t user ed_pub
     (case lq_label req of None \<Rightarrow> [] | Some l \<Rightarrow> l) (case lq_platform req of None \<Rightarrow> [] | Some p \<Rightarrow> p) DevPending"

definition login_pop_of :: "login_request \<Rightarrow> login_pop option" where
  "login_pop_of req = (case (lq_client req, lq_pub req, lq_nonce req, lq_proof req) of
       (Some c, Some k, Some n, Some p) \<Rightarrow> Some \<lparr>lp_client = c, lp_pub = k, lp_nonce = n, lp_proof = p\<rparr>
     | _ \<Rightarrow> None)"

text \<open>What login and recovery share after authentication: the roster read, the proof (whose nonce is
  consumed for good), the enrolment and the token pair. \<open>wrapped\<close> is the wrap that is served.\<close>

definition bind_device :: "crates \<Rightarrow> auth_config \<Rightarrow> timestamp \<Rightarrow> fresh \<Rightarrow> (device_row \<Rightarrow> device_row) \<Rightarrow> (device_row \<Rightarrow> device_row)
    \<Rightarrow> login_request \<Rightarrow> user_row \<Rightarrow> uuid \<Rightarrow> db \<Rightarrow> db \<times> (app_error + token_response)" where
  "bind_device X cfg now fr arm_new arm req u t d = (case login_pop_of req of
       None \<Rightarrow> run_tx (issue_pair X (cf_jwt_secret cfg) now fr (us_id u) t None) d
     | Some pop \<Rightarrow> (case verify_login_pop X now t (lq_email req) pop d of
           (d1, Inl e) \<Rightarrow> (d1, Inl e)
         | (d1, Inr ed_pub) \<Rightarrow> run_tx
             (tx_seq (enroll_tx arm (arm_new (pending_device now (lp_client pop) t (us_id u) ed_pub req)))
               (issue_pair X (cf_jwt_secret cfg) now fr (us_id u) t (Some (lp_client pop)))) d1))"

definition login_answer :: "crates \<Rightarrow> user_row \<Rightarrow> bytes \<Rightarrow> roster_row option \<Rightarrow> token_response \<Rightarrow> login_response" where
  "login_answer X u wrapped roster tokens = \<lparr>lr_tokens = tokens, lr_salt_enc = b64_enc X (us_salt_enc u),
     lr_wrapped = b64_enc X wrapped, lr_list = map_option ro_list roster,
     lr_signature = map_option (\<lambda>r. b64_enc X (ro_signature r)) roster\<rparr>"

definition with_answer :: "('a \<Rightarrow> 'b) \<Rightarrow> db \<times> (app_error + 'a) \<Rightarrow> db \<times> (app_error + 'b)" where
  "with_answer f p = (case p of (d, Inl e) \<Rightarrow> (d, Inl e) | (d, Inr x) \<Rightarrow> (d, Inr (f x)))"

definition login_db :: "crates \<Rightarrow> auth_config \<Rightarrow> timestamp \<Rightarrow> fresh \<Rightarrow> login_request \<Rightarrow> db \<Rightarrow> db \<times> (app_error + login_response)" where
  "login_db X cfg now fr req d =
     (case b64_decode X ''auth_key'' (lq_key req) of Inl e \<Rightarrow> (d, Inl e) | Inr auth_key \<Rightarrow>
     (case lookup_login (lq_email req) d of None \<Rightarrow> (d, Inl Unauthorized) | Some (u, t) \<Rightarrow>
     (case server_verifier X auth_key (us_server_salt u) of Inl e \<Rightarrow> (d, Inl e) | Inr computed \<Rightarrow>
       if \<not> ct_eq computed (us_verifier u) then (d, Inl Unauthorized)
       else with_answer (login_answer X u (us_wrapped_password u) (roster_of t d))
              (bind_device X cfg now fr (\<lambda>r. r) login_arm req u t d))))"

definition login_finish :: "crates \<Rightarrow> auth_config \<Rightarrow> timestamp \<Rightarrow> fresh \<Rightarrow> string \<Rightarrow> login_request \<Rightarrow> relay
    \<Rightarrow> relay \<times> (app_error + login_response)" where
  "login_finish X cfg now fr ip req st =
     (let (allowed, rl) = check (rs_login_ratelimit st) now nil_uuid ip;
          st1 = st\<lparr>rs_login_ratelimit := rl\<rparr>
      in if \<not> allowed then (st1, Inl RateLimited)
         else case login_db X cfg now fr req (rs_db st1) of (d, r) \<Rightarrow> (st1\<lparr>rs_db := d\<rparr>, r))"

definition recover_db :: "crates \<Rightarrow> auth_config \<Rightarrow> timestamp \<Rightarrow> fresh \<Rightarrow> login_request \<Rightarrow> db \<Rightarrow> db \<times> (app_error + login_response)" where
  "recover_db X cfg now fr req d =
     (case b64_decode X ''recovery_auth_key'' (lq_key req) of Inl e \<Rightarrow> (d, Inl e) | Inr auth_key \<Rightarrow>
     (case lookup_login (lq_email req) d of None \<Rightarrow> (d, Inl Unauthorized) | Some (u, t) \<Rightarrow>
     (case (us_recovery_salt u, us_recovery_verifier u) of
        (Some rec_salt, Some rec_verifier) \<Rightarrow>
          (case server_verifier X auth_key rec_salt of Inl e \<Rightarrow> (d, Inl e) | Inr computed \<Rightarrow>
            if \<not> ct_eq computed rec_verifier then (d, Inl Unauthorized)
            else with_answer (login_answer X u (us_wrapped_recovery u) (roster_of t d))
                   (bind_device X cfg now fr (recover_arm now) (recover_arm now) req u t d))
      | _ \<Rightarrow> (d, Inl Unauthorized))))"

definition recover :: "crates \<Rightarrow> auth_config \<Rightarrow> timestamp \<Rightarrow> fresh \<Rightarrow> string \<Rightarrow> login_request \<Rightarrow> relay
    \<Rightarrow> relay \<times> (app_error + login_response)" where
  "recover X cfg now fr ip req st =
     (let (allowed, rl) = check (rs_ratelimit st) now nil_uuid ip;
          st1 = st\<lparr>rs_ratelimit := rl\<rparr>
      in if \<not> allowed then (st1, Inl RateLimited)
         else case recover_db X cfg now fr req (rs_db st1) of (d, r) \<Rightarrow> (st1\<lparr>rs_db := d\<rparr>, r))"

subsection \<open>Password change\<close>

definition password_fields :: "crates \<Rightarrow> password_request \<Rightarrow> app_error + bytes \<times> bytes \<times> bytes option" where
  "password_fields X req =
     bind_result (b64_decode X ''auth_key'' (pw_auth_key req)) (\<lambda>new_key.
     bind_result (b64_decode X ''wrapped_vault_key_password'' (pw_wrap req)) (\<lambda>new_wrap.
     bind_result (require (length new_key = 32) (BadRequest ''auth_key: expected 32 bytes'')) (\<lambda>_.
     bind_result (require (length new_wrap = 105)
         (BadRequest ''wrapped_vault_key_password: expected a 105-byte committing envelope'')) (\<lambda>_.
     case pw_current req of None \<Rightarrow> Inr (new_key, new_wrap, None)
       | Some s \<Rightarrow> bind_result (b64_decode X ''current_auth_key'' s) (\<lambda>cur. Inr (new_key, new_wrap, Some cur))))))"

text \<open>The waiver of a device that recovered: consumed by the check.\<close>

definition waived :: "timestamp \<Rightarrow> uuid \<Rightarrow> uuid option \<Rightarrow> device_row \<Rightarrow> bool" where
  "waived now t client r \<longleftrightarrow> dv_ws r = t \<and> Some (dv_client r) = client \<and>
     (case dv_recovered_at r of None \<Rightarrow> False | Some g \<Rightarrow> g > now - minutes 15)"

definition consume_waiver :: "timestamp \<Rightarrow> uuid \<Rightarrow> uuid option \<Rightarrow> unit tx" where
  "consume_waiver now t client = (\<lambda>d. if rows_where (waived now t client) (devices d) \<noteq> 1 then Inl Unauthorized
     else Inr ((), d\<lparr>devices := update_where (waived now t client) (\<lambda>r. r\<lparr>dv_recovered_at := None\<rparr>) (devices d)\<rparr>))"

definition reauthenticate :: "crates \<Rightarrow> timestamp \<Rightarrow> auth_tenant \<Rightarrow> user_row \<Rightarrow> bytes option \<Rightarrow> unit tx" where
  "reauthenticate X now auth u current = (case current of
       Some cur \<Rightarrow> tx_bind (tx_lift (server_verifier X cur (us_server_salt u))) (\<lambda>computed.
         tx_require (ct_eq computed (us_verifier u)) Unauthorized)
     | None \<Rightarrow> consume_waiver now (au_tenant auth) (au_client auth))"

definition set_password :: "uuid \<Rightarrow> bytes \<Rightarrow> bytes \<Rightarrow> bytes \<Rightarrow> db \<Rightarrow> db" where
  "set_password user verifier salt wrap d = d\<lparr>users := update_where (\<lambda>r. us_id r = user)
     (\<lambda>r. r\<lparr>us_verifier := verifier, us_server_salt := salt, us_wrapped_password := wrap\<rparr>) (users d)\<rparr>"

definition revoke_others :: "uuid \<Rightarrow> uuid option \<Rightarrow> db \<Rightarrow> db" where
  "revoke_others t client d = d\<lparr>refresh_tokens := update_where
     (\<lambda>r. rt_ws r = t \<and> rt_client r \<noteq> client \<and> \<not> rt_revoked r) (\<lambda>r. r\<lparr>rt_revoked := True\<rparr>) (refresh_tokens d)\<rparr>"

definition clear_waiver :: "uuid \<Rightarrow> uuid option \<Rightarrow> db \<Rightarrow> db" where
  "clear_waiver t client d = d\<lparr>devices := update_where
     (\<lambda>r. dv_ws r = t \<and> Some (dv_client r) = client \<and> dv_recovered_at r \<noteq> None)
     (\<lambda>r. r\<lparr>dv_recovered_at := None\<rparr>) (devices d)\<rparr>"

definition change_password_tx :: "crates \<Rightarrow> timestamp \<Rightarrow> fresh \<Rightarrow> auth_tenant \<Rightarrow> bytes \<times> bytes \<times> bytes option \<Rightarrow> unit tx" where
  "change_password_tx X now fr auth parts = (case parts of (new_key, new_wrap, current) \<Rightarrow>
     tx_seq (require_active_caller (au_tenant auth) (au_client auth))
     (tx_bind (tx_read (user_of (au_user auth))) (\<lambda>row.
      tx_bind (tx_lift (ok_or row Unauthorized)) (\<lambda>u.
      tx_seq (reauthenticate X now auth u current)
      (tx_bind (tx_lift (server_verifier X new_key (fr_salt fr))) (\<lambda>verifier.
       tx_seq (tx_write (set_password (au_user auth) verifier (fr_salt fr) new_wrap))
       (tx_seq (tx_write (revoke_others (au_tenant auth) (au_client auth)))
         (tx_write (clear_waiver (au_tenant auth) (au_client auth))))))))))"

definition change_password :: "crates \<Rightarrow> timestamp \<Rightarrow> fresh \<Rightarrow> auth_tenant \<Rightarrow> string \<Rightarrow> password_request \<Rightarrow> relay
    \<Rightarrow> relay \<times> (app_error + unit)" where
  "change_password X now fr auth ip req st =
     (let (allowed, rl) = check (rs_ratelimit st) now (au_tenant auth) ip;
          st1 = st\<lparr>rs_ratelimit := rl\<rparr>
      in if \<not> allowed then (st1, Inl RateLimited)
         else case password_fields X req of
              Inl e \<Rightarrow> (st1, Inl e)
            | Inr parts \<Rightarrow> (case run_tx (change_password_tx X now fr auth parts) (rs_db st1) of
                 (d, r) \<Rightarrow> (st1\<lparr>rs_db := d\<rparr>, r)))"

subsection \<open>Refresh\<close>

definition token_row :: "uuid \<Rightarrow> uuid \<Rightarrow> db \<Rightarrow> refresh_row option" where
  "token_row jti t d = fetch_optional (\<lambda>r. rt_id r = jti \<and> rt_ws r = t) (refresh_tokens d)"

text \<open>\<open>UPDATE .. WHERE family_id = $1\<close>, under the policy of the tenant.\<close>

definition revoke_family :: "uuid \<Rightarrow> uuid \<Rightarrow> db \<Rightarrow> db" where
  "revoke_family t family d = d\<lparr>refresh_tokens := update_where (\<lambda>r. rt_ws r = t \<and> rt_family r = family)
     (\<lambda>r. r\<lparr>rt_revoked := True\<rparr>) (refresh_tokens d)\<rparr>"

definition mark_rotated :: "timestamp \<Rightarrow> uuid \<Rightarrow> uuid \<Rightarrow> uuid \<Rightarrow> db \<Rightarrow> db" where
  "mark_rotated now t jti new_jti d = d\<lparr>refresh_tokens := update_where (\<lambda>r. rt_ws r = t \<and> rt_id r = jti)
     (\<lambda>r. r\<lparr>rt_rotated_at := Some now, rt_replaced_by := Some new_jti\<rparr>) (refresh_tokens d)\<rparr>"

definition refresh_tx :: "crates \<Rightarrow> bytes \<Rightarrow> timestamp \<Rightarrow> fresh \<Rightarrow> refresh_claims \<Rightarrow> (app_error + token_response) tx" where
  "refresh_tx X secret now fr c =
     (let t = rc_tenant c in
      tx_bind (tx_read (token_row (rc_jti c) t)) (\<lambda>existing.
      tx_bind (tx_lift (ok_or existing Unauthorized)) (\<lambda>row.
      if rt_revoked row \<or> rt_rotated_at row \<noteq> None
      then tx_seq (tx_write (revoke_family t (rt_family row))) (tx_return (Inl Unauthorized))
      else tx_seq (tx_write (mark_rotated now t (rc_jti c) (fr_jti fr)))
        (tx_seq (insert_token (new_token now (fr_jti fr) t (rc_sub c) (rc_client c) (rt_family row)))
          (tx_return (Inr (tokens_of X secret now (rc_sub c) t (rc_client c) (rt_family row) (fr_jti fr))))))))"

definition refresh :: "crates \<Rightarrow> auth_config \<Rightarrow> timestamp \<Rightarrow> fresh \<Rightarrow> string \<Rightarrow> db \<Rightarrow> db \<times> (app_error + token_response)" where
  "refresh X cfg now fr token d = (case verify_refresh X (cf_jwt_secret cfg) now token of
       None \<Rightarrow> (d, Inl Unauthorized)
     | Some c \<Rightarrow> run_tx_join (refresh_tx X (cf_jwt_secret cfg) now fr c) d)"

end
