(* ===== verification/Sessions.thy ===== *)
theory Sessions
  imports Auth
begin

text \<open>
  Sessions: what the auth endpoints do to the refresh tokens. A session is a family of tokens; the
  step relation runs every handler that writes the table, under the assumption that a login draws an
  unused family identifier, and the invariant says that a family never has two live tokens.
\<close>

definition live :: "refresh_row \<Rightarrow> bool" where
  "live r \<longleftrightarrow> \<not> rt_revoked r \<and> rt_rotated_at r = None"

definition sessions_ok :: "db \<Rightarrow> bool" where
  "sessions_ok d \<longleftrightarrow> distinct (map rt_id (refresh_tokens d)) \<and>
     (\<forall>r\<in>set (refresh_tokens d). \<forall>s\<in>set (refresh_tokens d). rt_family r = rt_family s \<longrightarrow>
        rt_ws r = rt_ws s \<and> (live r \<and> live s \<longrightarrow> r = s))"

definition unused_family :: "uuid \<Rightarrow> db \<Rightarrow> bool" where
  "unused_family f d \<longleftrightarrow> (\<forall>r\<in>set (refresh_tokens d). rt_family r \<noteq> f)"

subsection \<open>What each handler does to the table\<close>

text \<open>Either nothing, or one token of the drawn family is added under an unused id.\<close>

definition adds_token :: "fresh \<Rightarrow> db \<Rightarrow> db \<Rightarrow> bool" where
  "adds_token fr d d' \<longleftrightarrow> refresh_tokens d' = refresh_tokens d \<or>
     (\<exists>r. refresh_tokens d' = refresh_tokens d @ [r] \<and> rt_id r = fr_jti fr \<and> rt_family r = fr_family fr \<and>
        live r \<and> (\<forall>x\<in>set (refresh_tokens d). rt_id x \<noteq> fr_jti fr))"

text \<open>Only revocations.\<close>

definition only_revokes :: "db \<Rightarrow> db \<Rightarrow> bool" where
  "only_revokes d d' \<longleftrightarrow> (\<exists>p. refresh_tokens d' = update_where p (\<lambda>r. r\<lparr>rt_revoked := True\<rparr>) (refresh_tokens d))"

lemma tx_unique_Inr [result_simps]: "tx_unique p d = Inr (x, d') \<longleftrightarrow> \<not> p d \<and> d' = d"
  by (auto simp: tx_unique_def)

lemma tx_fk_user_Inr [result_simps]: "tx_fk_user u d = Inr (x, d') \<longleftrightarrow> (\<exists>r\<in>set (users d). us_id r = u) \<and> d' = d"
  by (auto simp: tx_fk_user_def)

lemma insert_token_Inr: "insert_token r d = Inr (x, d') \<longleftrightarrow>
    (\<forall>y\<in>set (refresh_tokens d). rt_id y \<noteq> rt_id r) \<and> (\<exists>w\<in>set (workspaces d). ws_id w = rt_ws r) \<and>
    (\<exists>u\<in>set (users d). us_id u = rt_user r) \<and> d' = d\<lparr>refresh_tokens := refresh_tokens d @ [r]\<rparr>"
  by (auto simp: insert_token_def result_simps)

lemma new_token_simps [simp]:
  "rt_id (new_token now j t u c f) = j" "rt_ws (new_token now j t u c f) = t"
  "rt_user (new_token now j t u c f) = u" "rt_client (new_token now j t u c f) = c"
  "rt_family (new_token now j t u c f) = f" "live (new_token now j t u c f)"
  "rt_revoked (new_token now j t u c f) = False" "rt_rotated_at (new_token now j t u c f) = None"
  by (simp_all add: new_token_def live_def)

lemma issue_pair_Inr: "issue_pair X k now fr u t c d = Inr (x, d') \<longleftrightarrow>
    insert_token (new_token now (fr_jti fr) t u c (fr_family fr)) d = Inr ((), d') \<and>
    x = tokens_of X k now u t c (fr_family fr) (fr_jti fr)"
  by (auto simp: issue_pair_def result_simps)

lemma issue_pair_adds: "issue_pair X k now fr u t c d = Inr (x, d') \<Longrightarrow> adds_token fr d d'"
  by (auto simp: issue_pair_Inr insert_token_Inr adds_token_def)

lemma adds_token_cong: "refresh_tokens d0 = refresh_tokens d \<Longrightarrow> adds_token fr d0 d' \<Longrightarrow> adds_token fr d d'"
  by (simp add: adds_token_def)

lemma adds_token_same: "refresh_tokens d' = refresh_tokens d \<Longrightarrow> adds_token fr d d'"
  by (simp add: adds_token_def)

lemma adds_run_tx:
  "(\<And>x d1. m d = Inr (x, d1) \<Longrightarrow> adds_token fr d d1) \<Longrightarrow> adds_token fr d (fst (run_tx m d))"
  by (auto simp: run_tx_def adds_token_def split: sum.split)

lemma signup_tx_adds: "signup_tx X cfg now fr req f d = Inr (x, d') \<Longrightarrow> adds_token fr d d'"
  unfolding signup_tx_def Let_def
  by (auto simp: result_simps intro: adds_token_cong [rotated] dest!: issue_pair_adds)

lemma enroll_tokens [simp]: "refresh_tokens (snd (enroll arm r d)) = refresh_tokens d"
  by (simp add: enroll_def Let_def)

lemma enroll_tx_Inr: "enroll_tx arm r d = Inr (x, d') \<longleftrightarrow>
    (\<exists>w\<in>set (workspaces d). ws_id w = dv_ws r) \<and> (\<exists>u\<in>set (users d). us_id u = dv_user r) \<and>
    fst (enroll arm r d) = 1 \<and> d' = snd (enroll arm r d)"
  by (cases "enroll arm r d") (auto simp: enroll_tx_def result_simps)

lemma verify_login_pop_keeps: "verify_login_pop X now t e pop d = (d1, r) \<Longrightarrow>
    \<exists>ns. d1 = d\<lparr>login_nonces := ns\<rparr> \<and> set ns \<subseteq> set (login_nonces d)"
  unfolding verify_login_pop_def consume_nonce_def
  by (auto split: sum.splits prod.splits if_splits intro: exI [of _ "login_nonces d"])

lemma bind_device_adds: "adds_token fr d (fst (bind_device X cfg now fr an arm req u t d))"
proof (cases "login_pop_of req")
  case None
  then show ?thesis by (simp add: bind_device_def adds_run_tx issue_pair_adds)
next
  case (Some pop)
  obtain d1 r where v: "verify_login_pop X now t (lq_email req) pop d = (d1, r)" by fastforce
  from verify_login_pop_keeps [OF v] have keep: "refresh_tokens d1 = refresh_tokens d" by auto
  have "adds_token fr d1 (fst (run_tx (tx_seq (enroll_tx arm y) (issue_pair X k now fr a b c)) d1))" for y k a b c
  proof (rule adds_run_tx)
    fix x d2
    assume "tx_seq (enroll_tx arm y) (issue_pair X k now fr a b c) d1 = Inr (x, d2)"
    then obtain d3 where e: "enroll_tx arm y d1 = Inr ((), d3)" and i: "issue_pair X k now fr a b c d3 = Inr (x, d2)"
      by (auto simp: result_simps)
    from e have "refresh_tokens d3 = refresh_tokens d1" by (simp add: enroll_tx_Inr)
    then show "adds_token fr d1 d2" using issue_pair_adds [OF i] by (rule adds_token_cong)
  qed
  then show ?thesis using keep v Some
    by (cases r) (auto simp: bind_device_def adds_token_same intro: adds_token_cong)
qed

lemma fst_with_answer [simp]: "fst (with_answer f p) = fst p"
  by (cases p) (auto simp: with_answer_def split: sum.split)

lemma login_db_adds: "adds_token fr d (fst (login_db X cfg now fr req d))"
  using bind_device_adds by (auto simp: login_db_def adds_token_same split: sum.split option.split)

lemma recover_db_adds: "adds_token fr d (fst (recover_db X cfg now fr req d))"
  using bind_device_adds by (auto simp: recover_db_def adds_token_same split: sum.split option.split)

lemma only_revokes_refl: "refresh_tokens d' = refresh_tokens d \<Longrightarrow> only_revokes d d'"
  unfolding only_revokes_def by (rule exI [of _ "\<lambda>_. False"]) (simp add: update_where_id)

lemma consume_waiver_tokens: "consume_waiver now t c d = Inr (x, d') \<Longrightarrow> refresh_tokens d' = refresh_tokens d"
  by (auto simp: consume_waiver_def split: if_splits)

lemma reauthenticate_Inr: "reauthenticate X now auth u cur d = Inr (x, d') \<Longrightarrow>
    refresh_tokens d' = refresh_tokens d \<and> users d' = users d"
  by (cases cur) (auto simp: reauthenticate_def result_simps consume_waiver_def split: if_splits)

lemma change_password_tx_revokes: "change_password_tx X now fr auth parts d = Inr (x, d') \<Longrightarrow> only_revokes d d'"
  unfolding change_password_tx_def only_revokes_def
  by (auto simp: result_simps clear_waiver_def revoke_others_def set_password_def dest!: reauthenticate_Inr
      split: prod.splits)

lemma put_roster_revokes: "put_roster X now auth req d = Inr (x, d') \<Longrightarrow> only_revokes d d'"
proof -
  assume "put_roster X now auth req d = Inr (x, d')"
  then obtain caller sig where d': "d' = roster_effect (au_tenant auth) caller req sig d"
    unfolding put_roster_Inr by blast
  show "only_revokes d d'"
  proof (cases "ru_revoked req = []")
    case True
    then show ?thesis
      by (intro only_revokes_refl) (simp add: d' roster_effect_def consume_grant_def promote_def store_roster_def)
  next
    case False
    then show ?thesis unfolding only_revokes_def
      by (intro exI [of _ "\<lambda>r. rt_ws r = au_tenant auth \<and> (\<exists>c\<in>set (ru_revoked req). rt_client r = Some c) \<and> \<not> rt_revoked r"])
        (simp add: d' roster_effect_def consume_grant_def promote_def store_roster_def revoke_devices_def)
  qed
qed

subsection \<open>The invariant\<close>

lemma sessions_ok_cong: "refresh_tokens d' = refresh_tokens d \<Longrightarrow> sessions_ok d' \<longleftrightarrow> sessions_ok d"
  by (simp only: sessions_ok_def)

lemma sessions_okD:
  assumes "sessions_ok d" and "r \<in> set (refresh_tokens d)" and "s \<in> set (refresh_tokens d)"
    and "rt_family r = rt_family s"
  shows "rt_ws r = rt_ws s" and "live r \<Longrightarrow> live s \<Longrightarrow> r = s"
  using assms unfolding sessions_ok_def by blast+

lemma sessions_ok_adds:
  assumes "sessions_ok d" and "adds_token fr d d'" and "unused_family (fr_family fr) d"
  shows "sessions_ok d'"
proof (cases "refresh_tokens d' = refresh_tokens d")
  case False
  with assms(2) obtain r where r: "refresh_tokens d' = refresh_tokens d @ [r]" "rt_family r = fr_family fr"
    "\<forall>x\<in>set (refresh_tokens d). rt_id x \<noteq> rt_id r" unfolding adds_token_def by metis
  have ids: "distinct (map rt_id (refresh_tokens d'))"
    using assms(1) r(3) by (auto simp: r(1) sessions_ok_def)
  have fam: "rt_family x \<noteq> rt_family r" if "x \<in> set (refresh_tokens d)" for x
    using assms(3) that by (simp add: r(2) unused_family_def)
  show ?thesis unfolding sessions_ok_def
  proof (intro conjI ids ballI impI)
    fix a b
    assume "a \<in> set (refresh_tokens d')" "b \<in> set (refresh_tokens d')" "rt_family a = rt_family b"
    then have "a = b \<or> a \<in> set (refresh_tokens d) \<and> b \<in> set (refresh_tokens d) \<and> rt_family a = rt_family b"
      using fam [of a] fam [of b] by (auto simp: r(1))
    then show "rt_ws a = rt_ws b" and "live a \<and> live b \<Longrightarrow> a = b"
      using assms(1) unfolding sessions_ok_def by blast+
  qed
next
  case True
  with assms(1) show ?thesis by (simp only: sessions_ok_cong [OF True])
qed

lemma sessions_ok_revokes:
  assumes "sessions_ok d" and "only_revokes d d'"
  shows "sessions_ok d'"
proof -
  from assms(2) obtain p where t: "refresh_tokens d' = update_where p (\<lambda>r. r\<lparr>rt_revoked := True\<rparr>) (refresh_tokens d)"
    by (auto simp: only_revokes_def)
  have ids: "map rt_id (refresh_tokens d') = map rt_id (refresh_tokens d)"
    unfolding t by (rule map_update_where) simp
  have row: "\<exists>r0\<in>set (refresh_tokens d). rt_family r = rt_family r0 \<and> rt_ws r = rt_ws r0 \<and> (live r \<longrightarrow> r = r0)"
    if "r \<in> set (refresh_tokens d')" for r
    using that unfolding t set_update_where by (auto simp: live_def)
  show ?thesis unfolding sessions_ok_def ids
  proof (intro conjI ballI impI)
    show "distinct (map rt_id (refresh_tokens d))" using assms(1) by (simp add: sessions_ok_def)
    fix r s
    assume rs: "r \<in> set (refresh_tokens d')" "s \<in> set (refresh_tokens d')" "rt_family r = rt_family s"
    from row [OF rs(1)] row [OF rs(2)] obtain r0 s0 where
      0: "r0 \<in> set (refresh_tokens d)" "rt_family r = rt_family r0" "rt_ws r = rt_ws r0" "live r \<longrightarrow> r = r0"
      "s0 \<in> set (refresh_tokens d)" "rt_family s = rt_family s0" "rt_ws s = rt_ws s0" "live s \<longrightarrow> s = s0"
      by blast
    with rs(3) assms(1) show "rt_ws r = rt_ws s" unfolding sessions_ok_def by metis
    assume "live r \<and> live s"
    with 0 rs(3) assms(1) show "r = s" unfolding sessions_ok_def by metis
  qed
qed

text \<open>Rotation: the presented row is spent and its successor is live in the same family.\<close>

lemma refresh_tx_Inr:
  "refresh_tx X k now fr c d = Inr (res, d') \<longleftrightarrow>
   (\<exists>row. token_row (rc_jti c) (rc_tenant c) d = Some row \<and>
     (if live row
      then insert_token (new_token now (fr_jti fr) (rc_tenant c) (rc_sub c) (rc_client c) (rt_family row))
             (mark_rotated now (rc_tenant c) (rc_jti c) (fr_jti fr) d) = Inr ((), d') \<and>
           res = Inr (tokens_of X k now (rc_sub c) (rc_tenant c) (rc_client c) (rt_family row) (fr_jti fr))
      else d' = revoke_family (rc_tenant c) (rt_family row) d \<and> res = Inl Unauthorized))"
proof -
  have "refresh_tx X k now fr c d = Inr (res, d') \<longleftrightarrow>
    (\<exists>row. token_row (rc_jti c) (rc_tenant c) d = Some row \<and>
      (if rt_revoked row \<or> rt_rotated_at row \<noteq> None
       then tx_seq (tx_write (revoke_family (rc_tenant c) (rt_family row))) (tx_return (Inl Unauthorized)) d = Inr (res, d')
       else tx_seq (tx_write (mark_rotated now (rc_tenant c) (rc_jti c) (fr_jti fr)))
         (tx_seq (insert_token (new_token now (fr_jti fr) (rc_tenant c) (rc_sub c) (rc_client c) (rt_family row)))
          (tx_return (Inr (tokens_of X k now (rc_sub c) (rc_tenant c) (rc_client c) (rt_family row) (fr_jti fr))))) d = Inr (res, d')))"
    unfolding refresh_tx_def Let_def tx_bind_eq_Inr tx_read_eq tx_lift_eq_Inr ok_or_eq_Inr
    by (auto split: if_splits)
  also have "\<dots> \<longleftrightarrow> (\<exists>row. token_row (rc_jti c) (rc_tenant c) d = Some row \<and>
     (if live row
      then insert_token (new_token now (fr_jti fr) (rc_tenant c) (rc_sub c) (rc_client c) (rt_family row))
             (mark_rotated now (rc_tenant c) (rc_jti c) (fr_jti fr) d) = Inr ((), d') \<and>
           res = Inr (tokens_of X k now (rc_sub c) (rc_tenant c) (rc_client c) (rt_family row) (fr_jti fr))
      else d' = revoke_family (rc_tenant c) (rt_family row) d \<and> res = Inl Unauthorized))"
    by (intro ex_cong1 conj_cong refl) (auto simp: live_def result_simps)
  finally show ?thesis .
qed

lemma token_row_Some: "token_row j t d = Some r \<Longrightarrow> r \<in> set (refresh_tokens d) \<and> rt_id r = j \<and> rt_ws r = t"
  by (auto simp: token_row_def dest: fetch_optional_Some)

lemma sessions_ok_rotate:
  assumes ok: "sessions_ok d" and row: "token_row j t d = Some r" and "live r"
    and ins: "insert_token (new_token now n t u c (rt_family r)) (mark_rotated now t j n d) = Inr ((), d')"
  shows "sessions_ok d'" and "\<forall>s\<in>set (refresh_tokens d'). live s \<and> rt_family s = rt_family r \<longrightarrow> rt_id s = n"
    and "token_row n t d' = Some (new_token now n t u c (rt_family r))"
    and "\<exists>r'. token_row j t d' = Some r' \<and> \<not> live r' \<and> rt_family r' = rt_family r" and "j \<noteq> n"
proof -
  let ?f = "\<lambda>r. r\<lparr>rt_rotated_at := Some now, rt_replaced_by := Some n\<rparr>"
  let ?m = "update_where (\<lambda>r. rt_ws r = t \<and> rt_id r = j) ?f (refresh_tokens d)"
  let ?new = "new_token now n t u c (rt_family r)"
  note rr = token_row_Some [OF row]
  have d': "refresh_tokens d' = ?m @ [?new]" and un: "\<forall>y\<in>set ?m. rt_id y \<noteq> n"
    using ins by (auto simp: insert_token_Inr mark_rotated_def)
  have ids: "map rt_id ?m = map rt_id (refresh_tokens d)" by (rule map_update_where) simp
  have "n \<notin> set (map rt_id ?m)" using un by auto
  then have un': "n \<notin> rt_id ` set (refresh_tokens d)" unfolding ids by simp
  then show jn: "j \<noteq> n" using rr by auto
  have row0: "\<exists>s0\<in>set (refresh_tokens d). rt_family s = rt_family s0 \<and> rt_ws s = rt_ws s0 \<and>
      (live s \<longrightarrow> s = s0 \<and> s0 \<noteq> r)" if "s \<in> set ?m" for s
  proof -
    from that obtain s0 where s0: "s0 \<in> set (refresh_tokens d)" "s = (if rt_ws s0 = t \<and> rt_id s0 = j then ?f s0 else s0)"
      unfolding set_update_where by blast
    show ?thesis
    proof (cases "rt_ws s0 = t \<and> rt_id s0 = j")
      case False
      have "s = s0" unfolding s0(2) by (rule if_not_P [OF False])
      moreover have "s0 \<noteq> r" using False rr by metis
      ultimately have "s = s0" "s0 \<noteq> r" by blast+
      with s0(1) show ?thesis by blast
    qed (use s0 in \<open>auto simp: live_def intro!: bexI [of _ s0]\<close>)
  qed
  have dead: "\<not> live s" if "s \<in> set ?m" "rt_family s = rt_family r" for s
  proof
    assume l: "live s"
    from row0 [OF that(1)] obtain s0 where s0: "s0 \<in> set (refresh_tokens d)" "rt_family s = rt_family s0"
      "live s \<longrightarrow> s = s0 \<and> s0 \<noteq> r" by blast
    have "s0 = r" using s0 l that(2) rr \<open>live r\<close> by (intro sessions_okD(2) [OF ok]) simp_all
    with s0(3) l show False by blast
  qed
  then show "\<forall>s\<in>set (refresh_tokens d'). live s \<and> rt_family s = rt_family r \<longrightarrow> rt_id s = n"
    by (auto simp: d')
  have ws: "rt_ws s = t" if s: "s \<in> set ?m" "rt_family s = rt_family r" for s
  proof -
    from row0 [OF s(1)] obtain s0 where s0: "s0 \<in> set (refresh_tokens d)" "rt_family s = rt_family s0" "rt_ws s = rt_ws s0"
      by blast
    have "rt_ws s0 = rt_ws r" using s0 s(2) rr by (intro sessions_okD(1) [OF ok]) simp_all
    with s0(3) rr show ?thesis by simp
  qed
  show "sessions_ok d'" unfolding sessions_ok_def
  proof (intro conjI ballI impI)
    show "distinct (map rt_id (refresh_tokens d'))"
      using ok un' by (simp add: d' ids sessions_ok_def)
    fix a b assume ab: "a \<in> set (refresh_tokens d')" "b \<in> set (refresh_tokens d')" "rt_family a = rt_family b"
    consider "a \<in> set ?m" "b \<in> set ?m" | "a = ?new" "b = ?new" | "a = ?new" "b \<in> set ?m" | "b = ?new" "a \<in> set ?m"
      using ab by (auto simp: d')
    then have "rt_ws a = rt_ws b \<and> (live a \<and> live b \<longrightarrow> a = b)"
    proof cases
      case 1
      from row0 [OF 1(1)] row0 [OF 1(2)] obtain a0 b0 where
        0: "a0 \<in> set (refresh_tokens d)" "rt_family a = rt_family a0" "rt_ws a = rt_ws a0" "live a \<longrightarrow> a = a0"
        "b0 \<in> set (refresh_tokens d)" "rt_family b = rt_family b0" "rt_ws b = rt_ws b0" "live b \<longrightarrow> b = b0" by blast
      with ab(3) have "rt_family a0 = rt_family b0" by simp
      then have "rt_ws a0 = rt_ws b0" "live a0 \<Longrightarrow> live b0 \<Longrightarrow> a0 = b0"
        using sessions_okD [OF ok 0(1,5)] by blast+
      with 0 show ?thesis by auto
    next
      case 3
      then have "rt_family b = rt_family r" using ab(3) by simp
      with dead [OF 3(2)] ws [OF 3(2)] 3(1) show ?thesis by simp
    next
      case 4
      then have "rt_family a = rt_family r" using ab(3) by simp
      with dead [OF 4(2)] ws [OF 4(2)] 4(1) show ?thesis by simp
    qed simp
    then show "rt_ws a = rt_ws b" and "live a \<and> live b \<Longrightarrow> a = b" by simp_all
  qed
  have none: "fetch_optional (\<lambda>s. rt_id s = n \<and> rt_ws s = t) ?m = None"
    using un by (auto simp: fetch_optional_None_iff)
  then show "token_row n t d' = Some ?new" by (simp add: token_row_def d' fetch_append)
  have "fetch_optional (\<lambda>s. rt_id s = j \<and> rt_ws s = t) ?m = Some (?f r)"
  proof -
    have "fetch_optional (\<lambda>s. rt_id s = j \<and> rt_ws s = t) ?m =
        map_option (\<lambda>r. if rt_ws r = t \<and> rt_id r = j then ?f r else r)
          (fetch_optional (\<lambda>s. rt_id s = j \<and> rt_ws s = t) (refresh_tokens d))"
      unfolding update_where_def by (rule fetch_map_key) simp
    with row rr show ?thesis by (simp add: token_row_def)
  qed
  then show "\<exists>r'. token_row j t d' = Some r' \<and> \<not> live r' \<and> rt_family r' = rt_family r"
    by (simp add: token_row_def d' fetch_append live_def)
qed

lemma revoke_family_revokes: "only_revokes d (revoke_family t f d)"
  by (auto simp: only_revokes_def revoke_family_def)

lemma refresh_sessions_ok:
  assumes "sessions_ok d"
  shows "sessions_ok (fst (refresh X cfg now fr token d))"
proof (cases "verify_refresh X (cf_jwt_secret cfg) now token")
  case (Some c)
  show ?thesis
  proof (cases "refresh_tx X (cf_jwt_secret cfg) now fr c d")
    case (Inr p)
    obtain res d' where p: "p = (res, d')" by fastforce
    from Inr have "refresh_tx X (cf_jwt_secret cfg) now fr c d = Inr (res, d')" by (simp add: p)
    then obtain row where row: "token_row (rc_jti c) (rc_tenant c) d = Some row" and
      eff: "if live row then insert_token (new_token now (fr_jti fr) (rc_tenant c) (rc_sub c) (rc_client c) (rt_family row))
             (mark_rotated now (rc_tenant c) (rc_jti c) (fr_jti fr) d) = Inr ((), d')
          else d' = revoke_family (rc_tenant c) (rt_family row) d"
      unfolding refresh_tx_Inr by (auto split: if_splits)
    have "sessions_ok d'"
    proof (cases "live row")
      case True
      with eff show ?thesis by (intro sessions_ok_rotate(1) [OF assms row]) simp_all
    next
      case False
      with eff show ?thesis by (simp add: sessions_ok_revokes [OF assms revoke_family_revokes])
    qed
    with Some Inr show ?thesis by (simp add: refresh_def run_tx_join_def p)
  qed (use Some assms in \<open>simp add: refresh_def run_tx_join_def\<close>)
qed (use assms in \<open>simp add: refresh_def\<close>)

subsection \<open>Reachable session tables\<close>

text \<open>Every handler that writes \<open>refresh_tokens\<close>, in any order, at any time and for any caller.\<close>

inductive session_step :: "crates \<Rightarrow> auth_config \<Rightarrow> db \<Rightarrow> db \<Rightarrow> bool" for X cfg where
  signup: "signup X cfg now fr ip invite req st = (st', r) \<Longrightarrow> unused_family (fr_family fr) (rs_db st) \<Longrightarrow>
     session_step X cfg (rs_db st) (rs_db st')"
| login_begin: "login_begin X cfg now fr ip email st = (st', r) \<Longrightarrow> session_step X cfg (rs_db st) (rs_db st')"
| login_finish: "login_finish X cfg now fr ip lreq st = (st', r) \<Longrightarrow> unused_family (fr_family fr) (rs_db st) \<Longrightarrow>
     session_step X cfg (rs_db st) (rs_db st')"
| recover: "recover X cfg now fr ip lreq st = (st', r) \<Longrightarrow> unused_family (fr_family fr) (rs_db st) \<Longrightarrow>
     session_step X cfg (rs_db st) (rs_db st')"
| change_password: "change_password X now fr auth ip preq st = (st', r) \<Longrightarrow> session_step X cfg (rs_db st) (rs_db st')"
| refresh: "refresh X cfg now fr token d = (d', r) \<Longrightarrow> session_step X cfg d d'"
| put_roster: "run_tx (put_roster X now auth upload) d = (d', r) \<Longrightarrow> session_step X cfg d d'"

inductive sessions_reachable :: "crates \<Rightarrow> auth_config \<Rightarrow> db \<Rightarrow> bool" for X cfg where
  start: "sessions_reachable X cfg empty_db"
| step: "sessions_reachable X cfg d \<Longrightarrow> session_step X cfg d d' \<Longrightarrow> sessions_reachable X cfg d'"

inductive_cases session_stepE: "session_step X cfg d d'"

lemma signup_run_adds: "adds_token fr d (fst (run_tx (signup_tx X cfg now fr req f) d))"
  by (rule adds_run_tx) (rule signup_tx_adds)

lemma signup_adds: "adds_token fr (rs_db st) (rs_db (fst (signup X cfg now fr ip invite req st)))"
  by (simp add: signup_def Let_def case_prod_beta adds_token_same signup_run_adds split: sum.split)

lemma login_begin_keeps: "refresh_tokens (rs_db (fst (login_begin X cfg now fr ip email st))) = refresh_tokens (rs_db st)"
  by (auto simp: login_begin_def Let_def run_tx_def insert_nonce_def result_simps prune_nonces_def
      split: prod.splits if_splits sum.splits)

lemma login_finish_adds: "adds_token fr (rs_db st) (rs_db (fst (login_finish X cfg now fr ip req st)))"
  by (simp add: login_finish_def Let_def case_prod_beta adds_token_same login_db_adds)

lemma recover_adds: "adds_token fr (rs_db st) (rs_db (fst (recover X cfg now fr ip req st)))"
  by (simp add: recover_def Let_def case_prod_beta adds_token_same recover_db_adds)

lemma revokes_run_tx:
  "(\<And>x d1. m d = Inr (x, d1) \<Longrightarrow> only_revokes d d1) \<Longrightarrow> only_revokes d (fst (run_tx m d))"
  by (auto simp: run_tx_def only_revokes_refl split: sum.split)

lemma change_password_run_revokes: "only_revokes d (fst (run_tx (change_password_tx X now fr auth parts) d))"
  by (rule revokes_run_tx) (rule change_password_tx_revokes)

lemma change_password_revokes: "only_revokes (rs_db st) (rs_db (fst (change_password X now fr auth ip req st)))"
  by (simp add: change_password_def Let_def case_prod_beta only_revokes_refl change_password_run_revokes
      split: sum.split)

lemma put_roster_run_revokes: "only_revokes d (fst (run_tx (put_roster X now auth req) d))"
  by (rule revokes_run_tx) (rule put_roster_revokes)

lemma session_step_ok: "session_step X cfg d d' \<Longrightarrow> sessions_ok d \<Longrightarrow> sessions_ok d'"
proof (induction rule: session_step.induct)
  case (signup now fr ip invite req st st' r)
  with signup_adds [of fr st X cfg now ip invite req] show ?case by (auto intro: sessions_ok_adds)
next
  case (login_begin now fr ip email st st' r)
  with sessions_ok_cong [OF login_begin_keeps [of X cfg now fr ip email st]] show ?case by simp
next
  case (login_finish now fr ip lreq st st' r)
  with login_finish_adds [of fr st X cfg now ip lreq] show ?case by (auto intro: sessions_ok_adds)
next
  case (recover now fr ip lreq st st' r)
  with recover_adds [of fr st X cfg now ip lreq] show ?case by (auto intro: sessions_ok_adds)
next
  case (change_password now fr auth ip preq st st' r)
  with change_password_revokes [of st X now fr auth ip preq] show ?case by (auto intro: sessions_ok_revokes)
next
  case (refresh now fr token d d' r)
  then show ?case using refresh_sessions_ok [of d X cfg now fr token] by simp
next
  case (put_roster now auth upload d d' r)
  with put_roster_run_revokes [of d X now auth upload] show ?case by (auto intro: sessions_ok_revokes)
qed

lemma sessions_reachable_ok: "sessions_reachable X cfg d \<Longrightarrow> sessions_ok d"
proof (induction rule: sessions_reachable.induct)
  case start
  show ?case by (simp add: sessions_ok_def empty_db_def)
qed (rule session_step_ok)

lemma sessions_ok_count:
  assumes "sessions_ok d"
  shows "rows_where (\<lambda>r. live r \<and> rt_family r = f) (refresh_tokens d) \<le> 1"
proof -
  let ?l = "filter (\<lambda>r. live r \<and> rt_family r = f) (refresh_tokens d)"
  have "distinct ?l" using assms by (auto simp: sessions_ok_def distinct_map)
  moreover have "a = b" if "a \<in> set ?l" "b \<in> set ?l" for a b
    using that sessions_okD(2) [OF assms, of a b] by auto
  then have "card (set ?l) \<le> Suc 0" using card_le_Suc0_iff_eq [OF finite_set, of ?l] by blast
  ultimately show ?thesis unfolding rows_where_def using distinct_card [of ?l] by linarith
qed

subsection \<open>Properties\<close>

text \<open>C22. A session never has two live tokens. From the empty database, through any sequence of
  sign-ups, logins, recoveries, password changes, rotations and roster uploads (a login drawing an
  unused family), token ids stay unique and every family has at most one token that is neither revoked
  nor rotated.\<close>

theorem session_families_single_live:
  assumes "sessions_reachable X cfg d"
  shows "distinct (map rt_id (refresh_tokens d)) \<and>
    (\<forall>f. rows_where (\<lambda>r. live r \<and> rt_family r = f) (refresh_tokens d) \<le> 1)"
  using sessions_ok_count [OF sessions_reachable_ok [OF assms]] sessions_reachable_ok [OF assms]
  by (simp add: sessions_ok_def)

definition sample_cfg :: auth_config where
  "sample_cfg = \<lparr>cf_invite = None, cf_pepper = ''p'', cf_jwt_secret = [1]\<rparr>"

definition sample_fresh :: fresh where
  "sample_fresh = \<lparr>fr_salt = [1], fr_recovery_salt = [2], fr_nonce = [3], fr_user = 9, fr_workspace = 1,
     fr_family = 5, fr_jti = 6\<rparr>"

definition sample_relay :: "db \<Rightarrow> relay" where
  "sample_relay d = \<lparr>rs_db = d, rs_ratelimit = limiter_new 0, rs_login_ratelimit = limiter_new 0,
     rs_signup_ratelimit = limiter_new 0\<rparr>"

definition sample_signup :: signup_request where
  "sample_signup = \<lparr>sg_email = ''Ann'', sg_auth_key = ''k'', sg_recovery_auth_key = ''r'',
     sg_salt_enc = replicate 16 (CHR ''s''), sg_wrapped_password = ''w'', sg_wrapped_recovery = ''v'', sg_list = ''[]'',
     sg_signature = ''g'', sg_counter = 1, sg_epoch = 1, sg_client = 7, sg_pub = ''p'', sg_label = [], sg_platform = []\<rparr>"

definition signed_up :: db where
  "signed_up = rs_db (fst (signup token_crates sample_cfg 0 sample_fresh ''ip'' None sample_signup (sample_relay empty_db)))"

lemma signed_up_tokens: "refresh_tokens signed_up = [new_token 0 6 1 9 (Some 7) 5]"
  and signed_up_users: "map us_id (users signed_up) = [9]" "map ws_id (workspaces signed_up) = [1]"
proof -
  have sel: "cf_invite sample_cfg = None" "fr_user sample_fresh = 9" "fr_workspace sample_fresh = 1"
    "fr_family sample_fresh = 5" "fr_jti sample_fresh = 6" "sg_client sample_signup = 7"
    by (simp_all add: sample_cfg_def sample_fresh_def sample_signup_def)
  have f: "\<exists>f. signup_fields_of token_crates sample_fresh sample_signup = Inr f"
    by (simp add: signup_fields_of_def b64_decode_def token_crates_def toy_crates_def server_verifier_def
        server_verifier_kdf_def sample_signup_def sample_fresh_def)
  then obtain f where f: "signup_fields_of token_crates sample_fresh sample_signup = Inr f" by blast
  show "refresh_tokens signed_up = [new_token 0 6 1 9 (Some 7) 5]"
    "map us_id (users signed_up) = [9]" "map ws_id (workspaces signed_up) = [1]"
    by (simp_all add: signed_up_def signup_def sample_relay_def check_def limiter_new_def invite_ok_def f sel Let_def
        run_tx_def signup_tx_def tx_run_simps tx_unique_def empty_db_def issue_pair_def insert_token_def tx_fk_user_def
        new_user_def)
qed

lemma session_families_single_live_witness:
  "refresh_tokens signed_up \<noteq> [] \<and> rows_where (\<lambda>r. live r \<and> rt_family r = 5) (refresh_tokens signed_up) \<le> 1"
proof -
  obtain st' r where run: "signup token_crates sample_cfg 0 sample_fresh ''ip'' None sample_signup (sample_relay empty_db) = (st', r)"
    by fastforce
  have "session_step token_crates sample_cfg (rs_db (sample_relay empty_db)) (rs_db st')"
    by (rule session_step.signup [OF run]) (simp add: unused_family_def sample_relay_def empty_db_def)
  then have "sessions_reachable token_crates sample_cfg signed_up"
    using run by (intro sessions_reachable.step [OF sessions_reachable.start]) (simp add: signed_up_def sample_relay_def)
  from session_families_single_live [OF this] show ?thesis by (simp add: signed_up_tokens)
qed

text \<open>C36. Reuse is detected. When a refresh token was exchanged and is presented again, by the thief or by
  the victim, whichever comes second, the answer is 401, no token of its family is live any more, and
  the successor it was exchanged for is refused as well.\<close>

theorem refresh_replay_kills_family:
  assumes law: "jwt_law X" and ok: "sessions_ok d"
    and v1: "verify_refresh X (cf_jwt_secret cfg) now1 token = Some c"
    and v2: "verify_refresh X (cf_jwt_secret cfg) now2 token = Some c"
    and r1: "refresh X cfg now1 fr1 token d = (d1, Inr toks)"
    and r2: "refresh X cfg now2 fr2 token d1 = (d2, res)"
    and alive: "unix_seconds now3 \<le> unix_seconds now1 + refresh_ttl_secs + 60"
  shows "res = Inl Unauthorized \<and>
    (\<exists>row. token_row (rc_jti c) (rc_tenant c) d = Some row \<and> live row \<and>
       (\<forall>r\<in>set (refresh_tokens d2). rt_family r = rt_family row \<longrightarrow> rt_revoked r)) \<and>
    snd (refresh X cfg now3 fr3 (tr_refresh toks) d2) = Inl Unauthorized"
proof -
  let ?k = "cf_jwt_secret cfg" and ?t = "rc_tenant c" and ?j = "rc_jti c" and ?n = "fr_jti fr1"
  from r1 v1 have "refresh_tx X ?k now1 fr1 c d = Inr (Inr toks, d1)"
    by (auto simp: refresh_def run_tx_join_def split: sum.splits)
  then obtain row where row: "token_row ?j ?t d = Some row" and lv: "live row"
    and ins: "insert_token (new_token now1 ?n ?t (rc_sub c) (rc_client c) (rt_family row)) (mark_rotated now1 ?t ?j ?n d) = Inr ((), d1)"
    and toks: "toks = tokens_of X ?k now1 (rc_sub c) ?t (rc_client c) (rt_family row) ?n"
    unfolding refresh_tx_Inr by (auto split: if_splits)
  note rot = sessions_ok_rotate [OF ok row lv ins]
  from rot(4) obtain r' where r': "token_row ?j ?t d1 = Some r'" "\<not> live r'" "rt_family r' = rt_family row" by blast
  have "refresh_tx X ?k now2 fr2 c d1 = Inr (Inl Unauthorized, revoke_family ?t (rt_family row) d1)"
    unfolding refresh_tx_Inr using r' by auto
  then have res: "res = Inl Unauthorized" and d2: "d2 = revoke_family ?t (rt_family row) d1"
    using r2 v2 by (auto simp: refresh_def run_tx_join_def)
  have rv: "rt_revoked r" if r: "r \<in> set (refresh_tokens d2)" "rt_family r = rt_family row" for r
  proof -
    from r(1) obtain r0 where r0: "r0 \<in> set (refresh_tokens d1)"
      "r = (if rt_ws r0 = ?t \<and> rt_family r0 = rt_family row then r0\<lparr>rt_revoked := True\<rparr> else r0)"
      unfolding d2 revoke_family_def by (auto simp: set_update_where)
    have "rt_family r0 = rt_family row" using r(2) r0(2) by (simp split: if_splits)
    moreover note r's = token_row_Some [OF r'(1)]
    ultimately have "rt_ws r0 = rt_ws r'" using r'(3) r0(1) by (intro sessions_okD(1) [OF rot(1)]) simp_all
    with r's r0(2) \<open>rt_family r0 = rt_family row\<close> show ?thesis by simp
  qed
  have new: "\<exists>s. token_row ?n ?t d2 = Some s \<and> \<not> live s"
  proof -
    have "token_row ?n ?t d2 = map_option (\<lambda>r. if rt_ws r = ?t \<and> rt_family r = rt_family row
        then r\<lparr>rt_revoked := True\<rparr> else r) (token_row ?n ?t d1)"
      unfolding d2 revoke_family_def token_row_def by (simp add: update_where_def fetch_map_key)
    with rot(3) show ?thesis by (simp add: live_def)
  qed
  have v3: "verify_refresh X ?k now3 (tr_refresh toks) = Some
      \<lparr>rc_sub = rc_sub c, rc_tenant = ?t, rc_client = rc_client c, rc_family = rt_family row, rc_jti = ?n,
       rc_typ = ''refresh'', rc_iat = unix_seconds now1, rc_exp = unix_seconds now1 + refresh_ttl_secs\<rparr>" (is "_ = Some ?c3")
    using law alive by (simp add: toks tokens_of_def issue_refresh_def verify_refresh_def refresh_json_def
        refresh_of_json_def jwt_law_def)
  from new obtain s where s: "token_row ?n ?t d2 = Some s" "\<not> live s" by blast
  have "refresh_tx X ?k now3 fr3 ?c3 d2 = Inr (Inl Unauthorized, revoke_family ?t (rt_family s) d2)"
    unfolding refresh_tx_Inr using s by auto
  then have "snd (refresh X cfg now3 fr3 (tr_refresh toks) d2) = Inl Unauthorized"
    by (simp add: refresh_def v3 run_tx_join_def)
  with res row lv rv show ?thesis by blast
qed

definition sample_token :: string where
  "sample_token = issue_refresh token_crates [1] 0 9 1 (Some 7) 5 6"

lemma sample_token_verifies:
  "verify_refresh token_crates [1] 1000000 sample_token = Some
     \<lparr>rc_sub = 9, rc_tenant = 1, rc_client = Some 7, rc_family = 5, rc_jti = 6, rc_typ = ''refresh'',
      rc_iat = 0, rc_exp = refresh_ttl_secs\<rparr>"
  using token_crates_laws(1)
  by (simp add: sample_token_def issue_refresh_def verify_refresh_def refresh_json_def refresh_of_json_def
      jwt_law_def unix_seconds_def refresh_ttl_secs_def)

lemma refresh_replay_kills_family_witness:
  "\<exists>toks d1 d2. refresh token_crates sample_cfg 1000000 (sample_fresh\<lparr>fr_jti := 8\<rparr>) sample_token signed_up = (d1, Inr toks) \<and>
     refresh token_crates sample_cfg 1000000 sample_fresh sample_token d1 = (d2, Inl Unauthorized) \<and>
     snd (refresh token_crates sample_cfg 1000000 sample_fresh (tr_refresh toks) d2) = Inl Unauthorized"
proof -
  let ?f = "sample_fresh\<lparr>fr_jti := 8\<rparr>"
  have ok: "sessions_ok signed_up" by (simp add: sessions_ok_def signed_up_tokens)
  have u: "\<exists>u\<in>set (users signed_up). us_id u = 9" "\<exists>w\<in>set (workspaces signed_up). ws_id w = 1"
    using signed_up_users by (metis imageI list.set_intros(1) list.set_map image_iff)+
  have k: "cf_jwt_secret sample_cfg = [1]" by (simp add: sample_cfg_def)
  have "\<exists>d1 toks. refresh token_crates sample_cfg 1000000 ?f sample_token signed_up = (d1, Inr toks)"
    using u by (simp add: refresh_def k sample_token_verifies run_tx_join_def refresh_tx_def tx_run_simps tx_lift_def
        token_row_def signed_up_tokens insert_token_def tx_unique_def tx_fk_user_def mark_rotated_def sample_fresh_def)
  then obtain d1 toks where r1: "refresh token_crates sample_cfg 1000000 ?f sample_token signed_up = (d1, Inr toks)" by blast
  obtain d2 res where r2: "refresh token_crates sample_cfg 1000000 sample_fresh sample_token d1 = (d2, res)" by fastforce
  from refresh_replay_kills_family [OF token_crates_laws(1) ok sample_token_verifies [folded k] sample_token_verifies [folded k] r1 r2,
      of 1000000 sample_fresh]
  have "res = Inl Unauthorized" "snd (refresh token_crates sample_cfg 1000000 sample_fresh (tr_refresh toks) d2) = Inl Unauthorized"
    by (simp_all add: refresh_ttl_secs_def)
  with r1 r2 show ?thesis by blast
qed

end
