(* ===== verification/Logins.thy ===== *)
theory Logins
  imports Sessions
begin

text \<open>
  What the login, recovery and password handlers of \<open>crates/yapstack-server/src/auth.rs\<close> guarantee:
  a proof of possession is good once, a login binds only an identity that was proven and never
  makes a device active, the answers do not tell whether an account exists, and a password
  change replaces the verifier and ends the other devices' sessions.
\<close>

lemma b64_decode_Inr [result_simps]: "b64_decode X f s = Inr b \<longleftrightarrow> b64_dec X s = Some b"
  by (auto simp: b64_decode_def split: option.splits)

lemma pop_fields_Inr: "pop_fields X pop = Inr (presented, nonce, proof) \<longleftrightarrow>
    b64_dec X (lp_pub pop) = Some presented \<and> length presented = 32 \<and>
    b64_dec X (lp_nonce pop) = Some nonce \<and> b64_dec X (lp_proof pop) = Some proof \<and> length proof = 64"
  by (auto simp: pop_fields_def result_simps)

lemma proof_key_Inr: "proof_key t c presented d = Inr key \<longleftrightarrow>
    (case device_of t c d of None \<Rightarrow> key = presented | Some r \<Rightarrow> key = dv_pub r \<and> length key = 32)"
  by (auto simp: proof_key_def split: option.splits)

lemma device_of_login_nonces [simp]: "device_of t c (d\<lparr>login_nonces := ns\<rparr>) = device_of t c d"
  by (simp add: device_of_def)

lemma verify_login_pop_Inr:
  "verify_login_pop X now t email pop d = (d1, Inr key) \<longleftrightarrow>
   (\<exists>presented nonce proof m. pop_fields X pop = Inr (presented, nonce, proof) \<and>
      rows_where (nonce_matches now nonce email) (login_nonces d) = 1 \<and>
      d1 = d\<lparr>login_nonces := delete_where (nonce_matches now nonce email) (login_nonces d)\<rparr> \<and>
      proof_key t (lp_client pop) presented d = Inr key \<and>
      login_pop_message nonce (uuid_bytes (lp_client pop)) presented (lower_str email) = Some m \<and>
      ed25519_verify_strict X key m proof)"
proof -
  have pk: "proof_key t c p (d\<lparr>login_nonces := ns\<rparr>) = proof_key t c p d" for c p ns by (simp add: proof_key_def)
  show ?thesis
    unfolding verify_login_pop_def consume_nonce_def
    by (auto simp: result_simps verify_pop_signature_def pk split: sum.splits if_splits)
qed

text \<open>A nonce with no matching row is refused, whoever presents it.\<close>

lemma verify_login_pop_no_nonce:
  assumes "b64_dec X (lp_nonce pop) = Some nonce" and "nonce \<notin> ln_nonce ` set (login_nonces d)"
  shows "\<exists>e. verify_login_pop X now t email pop d = (d, Inl e)"
proof (cases "pop_fields X pop")
  case (Inr p)
  obtain presented nonce' sg where p: "p = (presented, nonce', sg)" by (cases p)
  with Inr assms(1) have n: "nonce' = nonce" by (auto simp: pop_fields_Inr)
  have "rows_where (nonce_matches now nonce email) (login_nonces d) = 0"
    using assms(2) by (auto simp: rows_where_0_iff nonce_matches_def)
  moreover have "delete_where (nonce_matches now nonce email) (login_nonces d) = login_nonces d"
    using assms(2) by (auto simp: delete_where_def nonce_matches_def intro!: filter_True)
  ultimately show ?thesis using Inr p n by (simp add: verify_login_pop_def consume_nonce_def)
qed (simp add: verify_login_pop_def)

subsection \<open>The issued nonces\<close>

text \<open>The nonces on record. Only the first round of a login adds one, the one it draws; every other handler
  leaves the table alone or deletes from it.\<close>

definition nonces :: "db \<Rightarrow> bytes set" where
  "nonces d = ln_nonce ` set (login_nonces d)"

lemma nonces_cong: "login_nonces d' = login_nonces d \<Longrightarrow> nonces d' = nonces d"
  by (simp add: nonces_def)

lemma nonces_run_tx:
  "(\<And>x d1. m d = Inr (x, d1) \<Longrightarrow> nonces d1 \<subseteq> nonces d \<union> N) \<Longrightarrow> nonces (fst (run_tx m d)) \<subseteq> nonces d \<union> N"
  by (auto simp: run_tx_def split: sum.split)

lemmas nonces_run_tx_same = nonces_run_tx [where N = "{}", simplified]

lemma issue_pair_nonces: "issue_pair X k now fr u t c d = Inr (x, d') \<Longrightarrow> login_nonces d' = login_nonces d"
  by (auto simp: issue_pair_Inr insert_token_Inr)

lemma signup_tx_nonces: "signup_tx X cfg now fr req f d = Inr (x, d') \<Longrightarrow> login_nonces d' = login_nonces d"
  unfolding signup_tx_def Let_def by (auto simp: result_simps dest!: issue_pair_nonces)

lemma signup_nonces: "nonces (rs_db (fst (signup X cfg now fr ip invite req st))) \<subseteq> nonces (rs_db st)"
proof -
  have "nonces (fst (run_tx (signup_tx X cfg now fr req f) d)) \<subseteq> nonces d" for f d
    by (rule nonces_run_tx_same) (simp add: nonces_cong [OF signup_tx_nonces])
  then show ?thesis by (simp add: signup_def Let_def case_prod_beta split: sum.split)
qed

lemma login_begin_nonces:
  "nonces (rs_db (fst (login_begin X cfg now fr ip email st))) \<subseteq> nonces (rs_db st) \<union> {fr_nonce fr}"
proof -
  have "nonces (prune_nonces now d) \<subseteq> nonces d" for d by (auto simp: nonces_def prune_nonces_def)
  moreover have "nonces (fst (run_tx (insert_nonce now (fr_nonce fr) email) d)) \<subseteq> nonces d \<union> {fr_nonce fr}" for d
    by (rule nonces_run_tx) (auto simp: nonces_def insert_nonce_def result_simps)
  ultimately have "nonces (fst (run_tx (insert_nonce now (fr_nonce fr) email) (prune_nonces now d)))
      \<subseteq> nonces d \<union> {fr_nonce fr}" for d by blast
  then show ?thesis
    by (auto simp: login_begin_def Let_def case_prod_beta subset_insertI split: sum.split)
qed

lemma enroll_nonces [simp]: "login_nonces (snd (enroll arm r d)) = login_nonces d"
  by (simp add: enroll_def Let_def)

lemma bind_device_nonces: "nonces (fst (bind_device X cfg now fr an arm req u t d)) \<subseteq> nonces d"
proof (cases "login_pop_of req")
  case None
  then show ?thesis
    by (simp add: bind_device_def) (rule nonces_run_tx_same, simp add: nonces_cong [OF issue_pair_nonces])
next
  case (Some pop)
  obtain d1 r where v: "verify_login_pop X now t (lq_email req) pop d = (d1, r)" by fastforce
  from verify_login_pop_keeps [OF v] have keep: "nonces d1 \<subseteq> nonces d" by (auto simp: nonces_def)
  have "nonces (fst (run_tx (tx_seq (enroll_tx arm y) (issue_pair X k now fr a b c)) d1)) \<subseteq> nonces d1" for y k a b c
    by (rule nonces_run_tx_same)
      (auto simp: nonces_def result_simps enroll_tx_Inr dest!: issue_pair_nonces)
  then have "nonces (fst (run_tx (tx_seq (enroll_tx arm y) (issue_pair X k now fr a b c)) d1)) \<subseteq> nonces d" for y k a b c
    using keep by (rule subset_trans)
  with keep v Some show ?thesis by (cases r) (simp_all add: bind_device_def)
qed

lemma login_db_nonces: "nonces (fst (login_db X cfg now fr req d)) \<subseteq> nonces d"
  using bind_device_nonces by (simp add: login_db_def case_prod_beta split: sum.split option.split)

lemma recover_db_nonces: "nonces (fst (recover_db X cfg now fr req d)) \<subseteq> nonces d"
  using bind_device_nonces by (simp add: recover_db_def case_prod_beta split: sum.split option.split)

lemma change_password_tx_nonces:
  "change_password_tx X now fr auth parts d = Inr (x, d') \<Longrightarrow> login_nonces d' = login_nonces d"
proof -
  have "reauthenticate X now auth u cur d = Inr (y, d1) \<Longrightarrow> login_nonces d1 = login_nonces d" for u cur y d1
    by (cases cur) (auto simp: reauthenticate_def result_simps consume_waiver_def split: if_splits)
  then show "change_password_tx X now fr auth parts d = Inr (x, d') \<Longrightarrow> login_nonces d' = login_nonces d"
    unfolding change_password_tx_def
    by (auto simp: result_simps clear_waiver_def revoke_others_def set_password_def split: prod.splits)
qed

lemma change_password_nonces: "nonces (rs_db (fst (change_password X now fr auth ip req st))) \<subseteq> nonces (rs_db st)"
proof -
  have "nonces (fst (run_tx (change_password_tx X now fr auth parts) d)) \<subseteq> nonces d" for parts d
    by (rule nonces_run_tx_same) (simp add: nonces_cong [OF change_password_tx_nonces])
  then show ?thesis by (simp add: change_password_def Let_def case_prod_beta split: sum.split)
qed

lemma refresh_nonces: "nonces (fst (refresh X cfg now fr token d)) \<subseteq> nonces d"
proof -
  have "login_nonces d1 = login_nonces d" if "refresh_tx X k now fr c d = Inr (y, d1)" for k c y d1
    using that by (auto simp: refresh_tx_Inr insert_token_Inr mark_rotated_def revoke_family_def split: if_splits)
  then show ?thesis
    by (auto simp: refresh_def run_tx_join_def nonces_def split: option.split sum.split)
qed

lemma put_roster_nonces: "nonces (fst (run_tx (put_roster X now auth req) d)) \<subseteq> nonces d"
proof (rule nonces_run_tx_same)
  fix x d1
  have eff: "login_nonces (roster_effect t c req sg d) = login_nonces d" for t c sg
    by (cases "ru_revoked req = []"; cases "ru_active req = []")
      (simp_all add: roster_effect_def consume_grant_def promote_def store_roster_def revoke_devices_def)
  assume "put_roster X now auth req d = Inr (x, d1)"
  then show "nonces d1 \<subseteq> nonces d" by (auto simp: put_roster_Inr nonces_def eff)
qed

text \<open>What the relay may do while a nonce \<open>n\<close> is not drawn again: its handlers in any order, for any
  callers and at any times, where a login's first round draws another nonce, and any other request,
  none of which adds to the table.\<close>

inductive nonce_run :: "crates \<Rightarrow> auth_config \<Rightarrow> bytes \<Rightarrow> db \<Rightarrow> db \<Rightarrow> bool" for X cfg n d where
  start: "nonce_run X cfg n d d"
| signup: "nonce_run X cfg n d (rs_db st) \<Longrightarrow> signup X cfg now fr ip invite req st = (st', r) \<Longrightarrow>
     nonce_run X cfg n d (rs_db st')"
| login_begin: "nonce_run X cfg n d (rs_db st) \<Longrightarrow> fr_nonce fr \<noteq> n \<Longrightarrow> login_begin X cfg now fr ip email st = (st', b) \<Longrightarrow>
     nonce_run X cfg n d (rs_db st')"
| login_finish: "nonce_run X cfg n d (rs_db st) \<Longrightarrow> login_finish X cfg now fr ip lreq st = (st', l) \<Longrightarrow>
     nonce_run X cfg n d (rs_db st')"
| recover: "nonce_run X cfg n d (rs_db st) \<Longrightarrow> recover X cfg now fr ip lreq st = (st', l) \<Longrightarrow>
     nonce_run X cfg n d (rs_db st')"
| change_password: "nonce_run X cfg n d (rs_db st) \<Longrightarrow> change_password X now fr auth ip preq st = (st', q) \<Longrightarrow>
     nonce_run X cfg n d (rs_db st')"
| refresh: "nonce_run X cfg n d d1 \<Longrightarrow> refresh X cfg now fr token d1 = (d2, t) \<Longrightarrow> nonce_run X cfg n d d2"
| put_roster: "nonce_run X cfg n d d1 \<Longrightarrow> run_tx (put_roster X now auth upload) d1 = (d2, u) \<Longrightarrow> nonce_run X cfg n d d2"
| other: "nonce_run X cfg n d d1 \<Longrightarrow> set (login_nonces d2) \<subseteq> set (login_nonces d1) \<Longrightarrow> nonce_run X cfg n d d2"

lemma nonce_run_absent: "nonce_run X cfg n d d' \<Longrightarrow> n \<notin> nonces d \<Longrightarrow> n \<notin> nonces d'"
proof (induction rule: nonce_run.induct)
  case (signup st now fr ip invite req st' r)
  then show ?case using signup_nonces [of X cfg now fr ip invite req st] by auto
next
  case (login_begin st fr now ip email st' b)
  then show ?case using login_begin_nonces [of X cfg now fr ip email st] by auto
next
  case (login_finish st now fr ip lreq st' l)
  have "nonces (rs_db (fst (login_finish X cfg now fr ip lreq st))) \<subseteq> nonces (rs_db st)"
    by (simp add: login_finish_def Let_def case_prod_beta login_db_nonces)
  with login_finish show ?case by auto
next
  case (recover st now fr ip lreq st' l)
  have "nonces (rs_db (fst (recover X cfg now fr ip lreq st))) \<subseteq> nonces (rs_db st)"
    by (simp add: recover_def Let_def case_prod_beta recover_db_nonces)
  with recover show ?case by auto
next
  case (change_password st now fr auth ip preq st' q)
  then show ?case using change_password_nonces [of X now fr auth ip preq st] by auto
next
  case (refresh d1 now fr token d2 t)
  then show ?case using refresh_nonces [of X cfg now fr token d1] by auto
next
  case (put_roster d1 now auth upload d2 u)
  then show ?case using put_roster_nonces [of X now auth upload d1] by auto
qed (auto simp: nonces_def)

lemma nonce_run_refuses:
  assumes "nonce_run X cfg nonce d1 d2" and "nonce \<notin> nonces d1" and "b64_dec X (lp_nonce pop2) = Some nonce"
  shows "\<exists>e. verify_login_pop X now2 t2 email2 pop2 d2 = (d2, Inl e)"
  using verify_login_pop_no_nonce [OF assms(3)] nonce_run_absent [OF assms(1,2)] by (simp add: nonces_def)

text \<open>C37. A login proof is good once. When a proof is accepted, its nonce had been issued for this email
  less than five minutes before, the signature over that nonce, the device, its key and the account
  verifies, under the stored key if the device is known to the workspace, and the nonce is consumed:
  whatever the relay does afterwards, further logins, recoveries, sign-ups, rotations, password
  changes and roster uploads included, no proof that carries the same nonce, however it is spelled in
  base64, is accepted for any email, device or workspace, unless a login's first round draws that
  very nonce again.\<close>

theorem login_proof_single_use:
  assumes acc: "verify_login_pop X now t email pop d = (d1, Inr key)"
    and uniq: "distinct (map ln_nonce (login_nonces d))"
  shows "\<exists>presented nonce proof m row. pop_fields X pop = Inr (presented, nonce, proof) \<and>
      row \<in> set (login_nonces d) \<and> ln_nonce row = nonce \<and> ln_email row = lower_str email \<and>
      now - minutes 5 < ln_issued_at row \<and>
      login_pop_message nonce (uuid_bytes (lp_client pop)) presented (lower_str email) = Some m \<and>
      ed25519_verify_strict X key m proof \<and>
      key = (case device_of t (lp_client pop) d of None \<Rightarrow> presented | Some r \<Rightarrow> dv_pub r) \<and>
      (\<forall>now2 t2 email2 pop2 d2 cfg. b64_dec X (lp_nonce pop2) = Some nonce \<and> nonce_run X cfg nonce d1 d2 \<longrightarrow>
         (\<exists>e. verify_login_pop X now2 t2 email2 pop2 d2 = (d2, Inl e)))"
proof -
  from acc obtain presented nonce sg m where f: "pop_fields X pop = Inr (presented, nonce, sg)"
    and one: "rows_where (nonce_matches now nonce email) (login_nonces d) = 1"
    and d1: "d1 = d\<lparr>login_nonces := delete_where (nonce_matches now nonce email) (login_nonces d)\<rparr>"
    and key: "proof_key t (lp_client pop) presented d = Inr key"
    and m: "login_pop_message nonce (uuid_bytes (lp_client pop)) presented (lower_str email) = Some m"
    and sig: "ed25519_verify_strict X key m sg"
    unfolding verify_login_pop_Inr by blast
  from one have "\<exists>r\<in>set (login_nonces d). nonce_matches now nonce email r"
    using rows_where_pos_iff [of "nonce_matches now nonce email" "login_nonces d"] by simp
  then obtain row where row: "row \<in> set (login_nonces d)" "nonce_matches now nonce email row" by blast
  have gone: "nonce \<notin> nonces d1"
  proof
    assume "nonce \<in> nonces d1"
    then obtain r where r: "r \<in> set (login_nonces d)" "\<not> nonce_matches now nonce email r" "ln_nonce r = nonce"
      by (auto simp: d1 nonces_def)
    have "r = row" using r(3) row(2) by (intro keyed_unique [OF uniq r(1) row(1)]) (simp add: nonce_matches_def)
    with r(2) row(2) show False by simp
  qed
  have "key = (case device_of t (lp_client pop) d of None \<Rightarrow> presented | Some r \<Rightarrow> dv_pub r)"
    using key by (auto simp: proof_key_Inr split: option.splits)
  with f row m sig nonce_run_refuses [OF _ gone] show ?thesis unfolding nonce_matches_def by blast
qed

definition sample_pop :: login_pop where
  "sample_pop = \<lparr>lp_client = 8, lp_pub = replicate 32 (CHR ''k''), lp_nonce = ''n'', lp_proof = replicate 64 (CHR ''k'')\<rparr>"

definition nonce_db :: db where
  "nonce_db = empty_db\<lparr>login_nonces := [\<lparr>ln_nonce = [110], ln_email = ''ann'', ln_issued_at = 0\<rparr>]\<rparr>"

lemma sample_pop_fields: "pop_fields token_crates sample_pop = Inr (replicate 32 107, [110], replicate 64 107)"
  by (simp add: pop_fields_Inr sample_pop_def token_crates_def toy_crates_def)

lemma sample_pop_accepted:
  "verify_login_pop token_crates 10 1 ''Ann'' sample_pop nonce_db = (nonce_db\<lparr>login_nonces := []\<rparr>, Inr (replicate 32 107))"
proof -
  have n: "nonce_matches 10 [110] ''Ann'' \<lparr>ln_nonce = [110], ln_email = ''ann'', ln_issued_at = 0\<rparr>"
  proof -
    have "lower_str ''Ann'' = ''ann''" by code_simp
    then show ?thesis by (simp add: nonce_matches_def interval_defs)
  qed
  have "\<exists>m. login_pop_message [110] (uuid_bytes 8) (replicate 32 107) (lower_str ''Ann'') = Some m"
    by (simp add: login_pop_message_def login_pop_domain_def str_bytes_def lower_str_def del: replicate.simps)
  then show ?thesis unfolding verify_login_pop_Inr sample_pop_fields
    using n by (auto simp: nonce_db_def proof_key_def device_of_def empty_db_def sample_pop_def token_crates_def
        toy_crates_def simp del: replicate.simps)
qed

text \<open>The same nonce is refused after another login's first round, presented for
  another device.\<close>

lemma login_proof_single_use_witness:
  "\<exists>st' b. login_begin token_crates sample_cfg 15 sample_fresh ''ip'' ''Ann'' (sample_relay (nonce_db\<lparr>login_nonces := []\<rparr>)) = (st', b) \<and>
   verify_login_pop token_crates 10 1 ''Ann'' sample_pop nonce_db = (nonce_db\<lparr>login_nonces := []\<rparr>, Inr (replicate 32 107)) \<and>
   (\<exists>e. verify_login_pop token_crates 20 1 ''Ann'' (sample_pop\<lparr>lp_client := 9\<rparr>) (rs_db st') = (rs_db st', Inl e))"
proof -
  let ?d1 = "nonce_db\<lparr>login_nonces := []\<rparr>"
  obtain st' b where run: "login_begin token_crates sample_cfg 15 sample_fresh ''ip'' ''Ann'' (sample_relay ?d1) = (st', b)"
    by fastforce
  have "nonce_run token_crates sample_cfg [110] ?d1 (rs_db (sample_relay ?d1))"
    by (simp add: sample_relay_def nonce_run.start)
  then have nr: "nonce_run token_crates sample_cfg [110] ?d1 (rs_db st')"
    by (rule nonce_run.login_begin [OF _ _ run]) (simp add: sample_fresh_def)
  have un: "distinct (map ln_nonce (login_nonces nonce_db))" by (simp add: nonce_db_def)
  have "b64_dec token_crates (lp_nonce (sample_pop\<lparr>lp_client := 9\<rparr>)) = Some [110]"
    by (simp add: sample_pop_def token_crates_def toy_crates_def)
  with login_proof_single_use [OF sample_pop_accepted un] nr
  have "\<exists>e. verify_login_pop token_crates 20 1 ''Ann'' (sample_pop\<lparr>lp_client := 9\<rparr>) (rs_db st') = (rs_db st', Inl e)"
    unfolding sample_pop_fields sum.inject prod.inject by metis
  with sample_pop_accepted run show ?thesis by blast
qed

subsection \<open>What a login binds\<close>

lemma with_answer_Inr: "with_answer f p = (d, Inr y) \<longleftrightarrow> (\<exists>x. p = (d, Inr x) \<and> y = f x)"
  by (cases p; cases "snd p") (auto simp: with_answer_def)

lemma bind_device_Inr:
  "bind_device X cfg now fr an arm req u t d = (d', Inr toks) \<longleftrightarrow>
   (case login_pop_of req of
      None \<Rightarrow> issue_pair X (cf_jwt_secret cfg) now fr (us_id u) t None d = Inr (toks, d')
    | Some pop \<Rightarrow> \<exists>d1 d2 key. verify_login_pop X now t (lq_email req) pop d = (d1, Inr key) \<and>
        enroll_tx arm (an (pending_device now (lp_client pop) t (us_id u) key req)) d1 = Inr ((), d2) \<and>
        issue_pair X (cf_jwt_secret cfg) now fr (us_id u) t (Some (lp_client pop)) d2 = Inr (toks, d'))"
proof (cases "login_pop_of req")
  case None
  then show ?thesis by (simp add: bind_device_def run_tx_eq)
next
  case (Some pop)
  obtain d1 r where "verify_login_pop X now t (lq_email req) pop d = (d1, r)" by fastforce
  with Some show ?thesis by (cases r) (auto simp: bind_device_def run_tx_eq tx_seq_eq_Inr)
qed

lemma tokens_authenticate:
  assumes "jwt_law X"
  shows "auth_from_header X k now (Some (''Bearer '' @ tr_access (tokens_of X k now u t c f j))) =
      Inr \<lparr>au_user = u, au_tenant = t, au_client = c\<rparr>"
  by (simp add: tokens_of_def tokens_bind [OF assms] access_ttl_secs_def del: append.simps)

lemma lookup_login_Some:
  assumes "lookup_login email d = Some (u, t)"
  shows "u \<in> set (users d) \<and> email_of email u \<and> (\<exists>m\<in>set (members d). wm_user m = us_id u \<and> wm_ws m = t)"
proof -
  let ?rows = "concat (map (\<lambda>u. map (\<lambda>m. (u, wm_ws m)) (filter (\<lambda>m. wm_user m = us_id u) (members d)))
      (filter (email_of email) (users d)))"
  from assms obtain rest where "?rows = (u, t) # rest" by (auto simp: lookup_login_def split: list.splits)
  then have "(u, t) \<in> set ?rows" by (simp only: list.set_intros)
  then show ?thesis by auto
qed

lemma login_db_Inr: "login_db X cfg now fr req d = (d', Inr resp) \<longleftrightarrow>
   (\<exists>key u t toks. b64_dec X (lq_key req) = Some key \<and> lookup_login (lq_email req) d = Some (u, t) \<and>
      server_verifier X key (us_server_salt u) = Inr (us_verifier u) \<and>
      bind_device X cfg now fr (\<lambda>r. r) login_arm req u t d = (d', Inr toks) \<and>
      resp = login_answer X u (us_wrapped_password u) (roster_of t d) toks)"
proof -
  have "b64_decode X f x = (case b64_dec X x of None \<Rightarrow> Inl (BadRequest (f @ '': invalid base64'')) | Some b \<Rightarrow> Inr b)" for f x
    by (simp add: b64_decode_def)
  then show ?thesis
    by (cases "lookup_login (lq_email req) d")
      (auto simp: login_db_def with_answer_Inr ct_eq_iff split: option.splits sum.splits if_splits)
qed

text \<open>A login binds a proven identity. A successful login presented the account's current key; its
  access token authenticates exactly this account's user and workspace, and a device only if the
  request carried a proof that verified for it, under the device's stored key when it is known; a
  known device then belongs to this account. The wrap that is served is the password's.\<close>

theorem login_binds_proven_identity:
  assumes "jwt_law X" and ok: "login_db X cfg now fr req d = (d', Inr resp)"
    and pk: "distinct (map dv_client (devices d))"
  shows "\<exists>key u t c. b64_dec X (lq_key req) = Some key \<and> lookup_login (lq_email req) d = Some (u, t) \<and>
     server_verifier X key (us_server_salt u) = Inr (us_verifier u) \<and>
     auth_from_header X (cf_jwt_secret cfg) now (Some (''Bearer '' @ tr_access (lr_tokens resp))) =
       Inr \<lparr>au_user = us_id u, au_tenant = t, au_client = c\<rparr> \<and>
     lr_wrapped resp = b64_enc X (us_wrapped_password u) \<and>
     (case c of None \<Rightarrow> login_pop_of req = None
      | Some cid \<Rightarrow> \<exists>pop key m sg presented nonce. login_pop_of req = Some pop \<and> lp_client pop = cid \<and>
          pop_fields X pop = Inr (presented, nonce, sg) \<and>
          login_pop_message nonce (uuid_bytes cid) presented (lower_str (lq_email req)) = Some m \<and>
          ed25519_verify_strict X key m sg \<and>
          key = (case device_of t cid d of None \<Rightarrow> presented | Some r \<Rightarrow> dv_pub r) \<and>
          (\<forall>r\<in>set (devices d). dv_client r = cid \<longrightarrow> dv_ws r = t \<and> dv_user r = us_id u))"
proof -
  from ok obtain key u t toks where l: "b64_dec X (lq_key req) = Some key" "lookup_login (lq_email req) d = Some (u, t)"
    "server_verifier X key (us_server_salt u) = Inr (us_verifier u)"
    and b: "bind_device X cfg now fr (\<lambda>r. r) login_arm req u t d = (d', Inr toks)"
    and resp: "resp = login_answer X u (us_wrapped_password u) (roster_of t d) toks"
    unfolding login_db_Inr by blast
  show ?thesis
  proof (cases "login_pop_of req")
    case None
    with b have "toks = tokens_of X (cf_jwt_secret cfg) now (us_id u) t None (fr_family fr) (fr_jti fr)"
      by (simp add: bind_device_Inr issue_pair_Inr)
    with l None resp show ?thesis
      by (intro exI [of _ key] exI [of _ u] exI [of _ t] exI [of _ None])
        (simp add: login_answer_def tokens_authenticate [OF assms(1)] del: append.simps)
  next
    case (Some pop)
    with b obtain d1 d2 k where v: "verify_login_pop X now t (lq_email req) pop d = (d1, Inr k)"
      and e: "enroll_tx login_arm (pending_device now (lp_client pop) t (us_id u) k req) d1 = Inr ((), d2)"
      and i: "issue_pair X (cf_jwt_secret cfg) now fr (us_id u) t (Some (lp_client pop)) d2 = Inr (toks, d')"
      by (auto simp: bind_device_Inr)
    from v obtain presented nonce sg m where p: "pop_fields X pop = Inr (presented, nonce, sg)"
      "login_pop_message nonce (uuid_bytes (lp_client pop)) presented (lower_str (lq_email req)) = Some m"
      "ed25519_verify_strict X k m sg" "proof_key t (lp_client pop) presented d = Inr k"
      and d1: "devices d1 = devices d"
      unfolding verify_login_pop_Inr by fastforce
    have k: "k = (case device_of t (lp_client pop) d of None \<Rightarrow> presented | Some r \<Rightarrow> dv_pub r)"
      using p(4) by (auto simp: proof_key_Inr split: option.splits)
    have own: "dv_ws r = t \<and> dv_user r = us_id u" if r: "r \<in> set (devices d)" "dv_client r = lp_client pop" for r
    proof -
      have "rows_where (\<lambda>x. dv_client x = lp_client pop \<and> dv_ws x = t \<and> dv_user x = us_id u) (devices d) = 1"
        using e r by (auto simp: enroll_tx_Inr enroll_def d1 Let_def pending_device_def new_device_def split: if_splits)
      then obtain y where y: "y \<in> set (devices d)" "dv_client y = lp_client pop" "dv_ws y = t" "dv_user y = us_id u"
        using rows_where_pos_iff [of "\<lambda>x. dv_client x = lp_client pop \<and> dv_ws x = t \<and> dv_user x = us_id u" "devices d"]
        by auto
      have "r = y" using r y by (intro keyed_unique [OF pk]) simp_all
      with y show ?thesis by simp
    qed
    from i have "toks = tokens_of X (cf_jwt_secret cfg) now (us_id u) t (Some (lp_client pop)) (fr_family fr) (fr_jti fr)"
      by (simp add: issue_pair_Inr)
    with l Some resp p k own show ?thesis
      by (intro exI [of _ key] exI [of _ u] exI [of _ t] exI [of _ "Some (lp_client pop)"])
        (auto simp: login_answer_def tokens_authenticate [OF assms(1)] simp del: append.simps)
  qed
qed

definition ann :: user_row where
  "ann = \<lparr>us_id = 9, us_email = ''Ann'', us_verifier = 107 # 1 # replicate 30 0, us_server_salt = [1], us_salt_enc = replicate 16 0,
     us_wrapped_password = [4], us_wrapped_recovery = [5], us_recovery_salt = None, us_recovery_verifier = None\<rparr>"

definition ann_db :: db where
  "ann_db = nonce_db\<lparr>workspaces := [\<lparr>ws_id = 1, ws_name = []\<rparr>], users := [ann],
     members := [\<lparr>wm_ws = 1, wm_user = 9, wm_role = ''owner''\<rparr>]\<rparr>"

definition ann_login :: login_request where
  "ann_login = \<lparr>lq_email = ''Ann'', lq_key = ''k'', lq_client = Some 8, lq_pub = Some (lp_pub sample_pop), lq_label = None,
     lq_platform = None, lq_nonce = Some (lp_nonce sample_pop), lq_proof = Some (lp_proof sample_pop)\<rparr>"

lemma ann_pop: "login_pop_of ann_login = Some sample_pop"
  by (simp add: login_pop_of_def ann_login_def sample_pop_def)

lemma ann_lookup: "lookup_login (lq_email ann_login) ann_db = Some (ann, 1)"
  by (simp add: lookup_login_def email_of_def ann_login_def ann_db_def nonce_db_def empty_db_def ann_def)

lemma ann_accepted:
  "verify_login_pop token_crates 10 1 (lq_email ann_login) sample_pop ann_db = (ann_db\<lparr>login_nonces := []\<rparr>, Inr (replicate 32 107))"
proof -
  have "proof_key 1 8 (replicate 32 107) ann_db = proof_key 1 8 (replicate 32 107) nonce_db"
    by (simp add: proof_key_def device_of_def ann_db_def)
  moreover have "login_nonces ann_db = login_nonces nonce_db" by (simp add: ann_db_def)
  moreover have "lq_email ann_login = ''Ann''" "lp_client sample_pop = 8" by (simp_all add: ann_login_def sample_pop_def)
  ultimately show ?thesis using sample_pop_accepted unfolding verify_login_pop_Inr sample_pop_fields
    by (auto simp: nonce_db_def split: if_splits)
qed

lemma ann_logs_in: "\<exists>d' resp. login_db token_crates sample_cfg 10 sample_fresh ann_login ann_db = (d', Inr resp)"
proof -
  have "server_verifier token_crates [107] (us_server_salt ann) = Inr (us_verifier ann)"
    by (simp add: server_verifier_def server_verifier_kdf_def token_crates_def toy_crates_def ann_def eval_nat_numeral)
  moreover have "b64_dec token_crates (lq_key ann_login) = Some [107]"
    by (simp add: token_crates_def toy_crates_def ann_login_def)
  moreover have "\<exists>d' toks. bind_device token_crates sample_cfg 10 sample_fresh (\<lambda>r. r) login_arm ann_login ann 1 ann_db = (d', Inr toks)"
    using ann_accepted by (simp add: bind_device_Inr ann_pop enroll_tx_Inr enroll_def pending_device_def new_device_def
        issue_pair_Inr insert_token_Inr ann_db_def nonce_db_def empty_db_def ann_def)
  ultimately show ?thesis unfolding login_db_Inr using ann_lookup by blast
qed

lemma login_binds_proven_identity_witness:
  "\<exists>d' resp. login_db token_crates sample_cfg 10 sample_fresh ann_login ann_db = (d', Inr resp) \<and>
     auth_from_header token_crates [1] 10 (Some (''Bearer '' @ tr_access (lr_tokens resp))) =
       Inr \<lparr>au_user = 9, au_tenant = 1, au_client = Some 8\<rparr>"
proof -
  obtain d' resp where run: "login_db token_crates sample_cfg 10 sample_fresh ann_login ann_db = (d', Inr resp)"
    using ann_logs_in by blast
  have "distinct (map dv_client (devices ann_db))" by (simp add: ann_db_def nonce_db_def empty_db_def)
  from login_binds_proven_identity [OF token_crates_laws(1) run this] obtain u t c where
    "lookup_login (lq_email ann_login) ann_db = Some (u, t)"
    "auth_from_header token_crates [1] 10 (Some (''Bearer '' @ tr_access (lr_tokens resp))) =
       Inr \<lparr>au_user = us_id u, au_tenant = t, au_client = c\<rparr>"
    "case c of None \<Rightarrow> login_pop_of ann_login = None | Some cid \<Rightarrow> lp_client sample_pop = cid"
    by (auto simp: sample_cfg_def ann_pop split: option.splits)
  then show ?thesis using run ann_lookup by (auto simp: ann_def sample_pop_def ann_pop split: option.splits)
qed

subsection \<open>What a login does to the device index\<close>

text \<open>Row \<open>x\<close> after an enrolment comes from row \<open>y\<close>: the same device under the same key, with its
  status unless it was revoked.\<close>

definition same_device :: "device_row \<Rightarrow> device_row \<Rightarrow> bool" where
  "same_device y x \<longleftrightarrow> dv_client x = dv_client y \<and> dv_ws x = dv_ws y \<and> dv_user x = dv_user y \<and> dv_pub x = dv_pub y \<and>
     dv_status x = (if dv_status y = DevRevoked \<and> dv_status x = DevPending then DevPending else dv_status y)"

lemma enroll_rows:
  assumes "x \<in> set (devices (snd (enroll arm r d)))" and "\<And>y. same_device y (arm y) \<and> dv_status (arm y) = dv_status y"
  shows "(\<forall>y\<in>set (devices d). dv_client y \<noteq> dv_client x) \<and> x = r \<or>
    (\<exists>y\<in>set (devices d). same_device y x \<and> (x = y \<or>
       x = (arm y)\<lparr>dv_status := (if dv_status y = DevRevoked then DevPending else dv_status y)\<rparr>))"
proof (cases "\<exists>z\<in>set (devices d). dv_client z = dv_client r")
  case True
  let ?f = "\<lambda>y. (arm y)\<lparr>dv_status := (if dv_status y = DevRevoked then DevPending else dv_status y)\<rparr>"
  from True assms(1) obtain y where y: "y \<in> set (devices d)" "x = y \<or> x = ?f y"
    by (auto simp: enroll_def Let_def set_update_where split: if_splits)
  have "same_device y y" "same_device y (?f y)"
    using assms(2) [of y] by (auto simp: same_device_def)
  with y have "same_device y x" by (elim disjE) simp_all
  with y show ?thesis by blast
next
  case False
  then have "x \<in> set (devices d) \<or> x = r" using assms(1) by (auto simp: enroll_def)
  moreover have "same_device x x" by (simp add: same_device_def)
  ultimately show ?thesis using False by metis
qed

lemma bind_device_devices:
  assumes "bind_device X cfg now fr an arm req u t d = (d', r)"
  shows "devices d' = devices d \<or> (\<exists>c k. devices d' =
    devices (snd (enroll arm (an (pending_device now c t (us_id u) k req)) d)))"
proof (cases "login_pop_of req")
  case None
  then show ?thesis using assms
    by (auto simp: bind_device_def run_tx_def issue_pair_Inr insert_token_Inr split: sum.splits)
next
  case (Some pop)
  obtain d1 v where v: "verify_login_pop X now t (lq_email req) pop d = (d1, v)" by fastforce
  from verify_login_pop_keeps [OF v] have d1: "devices d1 = devices d" by auto
  then have en: "devices (snd (enroll arm y d1)) = devices (snd (enroll arm y d))" for y
    by (simp add: enroll_def Let_def)
  show ?thesis
  proof (cases v)
    case (Inl e)
    with assms Some v d1 show ?thesis by (simp add: bind_device_def)
  next
    case (Inr k)
    let ?tx = "tx_seq (enroll_tx arm (an (pending_device now (lp_client pop) t (us_id u) k req)))
       (issue_pair X (cf_jwt_secret cfg) now fr (us_id u) t (Some (lp_client pop)))"
    have run: "run_tx ?tx d1 = (d', r)" using assms Some v Inr by (simp add: bind_device_def)
    show ?thesis
    proof (cases r)
      case (Inl e)
      then have "d' = d1" using run by (auto simp: run_tx_def split: sum.splits)
      with d1 show ?thesis by simp
    next
      case (Inr toks)
      then obtain d2 where "enroll_tx arm (an (pending_device now (lp_client pop) t (us_id u) k req)) d1 = Inr ((), d2)"
        "issue_pair X (cf_jwt_secret cfg) now fr (us_id u) t (Some (lp_client pop)) d2 = Inr (toks, d')"
        using run by (auto simp: run_tx_eq tx_seq_eq_Inr)
      then have "devices d' = devices (snd (enroll arm (an (pending_device now (lp_client pop) t (us_id u) k req)) d1))"
        by (simp add: enroll_tx_Inr issue_pair_Inr insert_token_Inr)
      then show ?thesis unfolding en by blast
    qed
  qed
qed

lemma fst_bind_device: "devices (fst (bind_device X cfg now fr an arm req u t d)) = devices d \<or>
   (\<exists>c k. devices (fst (bind_device X cfg now fr an arm req u t d)) =
      devices (snd (enroll arm (an (pending_device now c t (us_id u) k req)) d)))"
  by (rule bind_device_devices [where r = "snd (bind_device X cfg now fr an arm req u t d)"]) simp

lemma login_db_devices: "devices (fst (login_db X cfg now fr req d)) = devices d \<or>
   (\<exists>c t u k. devices (fst (login_db X cfg now fr req d)) = devices (snd (enroll login_arm (pending_device now c t u k req) d)))"
  using fst_bind_device [where an = "\<lambda>r. r" and arm = login_arm]
  by (simp add: login_db_def split: sum.split option.split) blast

lemma recover_db_devices: "devices (fst (recover_db X cfg now fr req d)) = devices d \<or>
   (\<exists>c t u k. devices (fst (recover_db X cfg now fr req d)) =
      devices (snd (enroll (recover_arm now) (recover_arm now (pending_device now c t u k req)) d)))"
  using fst_bind_device [where an = "recover_arm now" and arm = "recover_arm now"]
  by (simp add: recover_db_def split: sum.split option.split) blast

text \<open>A login never activates a device. Whatever a login or recovery request is answered, each row of
  the device index after it is either a new pending device, or an old device with its key, its
  account and its status, except that a revoked one may become pending again. A login grants nothing;
  a recovery arms the recovery grant of a new device or of one that was not revoked, never of a
  revoked one.\<close>

theorem login_never_activates:
  "(\<forall>x\<in>set (devices (fst (login_db X cfg now fr req d))).
      ((\<forall>y\<in>set (devices d). dv_client y \<noteq> dv_client x) \<and> dv_status x = DevPending \<and> dv_recovery_grant_at x = None) \<or>
      (\<exists>y\<in>set (devices d). same_device y x \<and> dv_recovery_grant_at x = dv_recovery_grant_at y)) \<and>
   (\<forall>x\<in>set (devices (fst (recover_db X cfg now fr req d))).
      ((\<forall>y\<in>set (devices d). dv_client y \<noteq> dv_client x) \<and> dv_status x = DevPending) \<or>
      (\<exists>y\<in>set (devices d). same_device y x \<and> (dv_recovery_grant_at x = dv_recovery_grant_at y \<or>
         dv_recovery_grant_at x = (if dv_status y = DevRevoked then None else Some now))))"
proof (intro conjI ballI)
  have self: "same_device y y" for y by (simp add: same_device_def)
  fix x
  {
    assume x: "x \<in> set (devices (fst (login_db X cfg now fr req d)))"
    show "((\<forall>y\<in>set (devices d). dv_client y \<noteq> dv_client x) \<and> dv_status x = DevPending \<and> dv_recovery_grant_at x = None) \<or>
      (\<exists>y\<in>set (devices d). same_device y x \<and> dv_recovery_grant_at x = dv_recovery_grant_at y)"
    proof (cases "devices (fst (login_db X cfg now fr req d)) = devices d")
      case True
      with x self show ?thesis by auto
    next
      case False
      then obtain c t u k where "x \<in> set (devices (snd (enroll login_arm (pending_device now c t u k req) d)))"
        using login_db_devices [of X cfg now fr req d] x by auto
      then consider "\<forall>y\<in>set (devices d). dv_client y \<noteq> dv_client x" "x = pending_device now c t u k req"
        | y where "y \<in> set (devices d)" "same_device y x" "x = y \<or>
            x = (login_arm y)\<lparr>dv_status := (if dv_status y = DevRevoked then DevPending else dv_status y)\<rparr>"
        using enroll_rows [of x login_arm "pending_device now c t u k req" d] self by (auto simp: login_arm_def)
      then show ?thesis
      proof cases
        case 1
        then show ?thesis by (simp add: pending_device_def new_device_def)
      next
        case (2 y)
        then have "dv_recovery_grant_at x = dv_recovery_grant_at y" by (auto simp: login_arm_def)
        with 2 show ?thesis by blast
      qed
    qed
  next
    assume x: "x \<in> set (devices (fst (recover_db X cfg now fr req d)))"
    show "((\<forall>y\<in>set (devices d). dv_client y \<noteq> dv_client x) \<and> dv_status x = DevPending) \<or>
      (\<exists>y\<in>set (devices d). same_device y x \<and> (dv_recovery_grant_at x = dv_recovery_grant_at y \<or>
         dv_recovery_grant_at x = (if dv_status y = DevRevoked then None else Some now)))"
    proof (cases "devices (fst (recover_db X cfg now fr req d)) = devices d")
      case True
      with x self show ?thesis by auto
    next
      case False
      then obtain c t u k where "x \<in> set (devices (snd (enroll (recover_arm now) (recover_arm now (pending_device now c t u k req)) d)))"
        using recover_db_devices [of X cfg now fr req d] x by auto
      moreover have "same_device y (recover_arm now y) \<and> dv_status (recover_arm now y) = dv_status y" for y
        by (simp add: recover_arm_def same_device_def)
      ultimately consider "\<forall>y\<in>set (devices d). dv_client y \<noteq> dv_client x" "x = recover_arm now (pending_device now c t u k req)"
        | y where "y \<in> set (devices d)" "same_device y x" "x = y \<or>
            x = (recover_arm now y)\<lparr>dv_status := (if dv_status y = DevRevoked then DevPending else dv_status y)\<rparr>"
        using enroll_rows [of x "recover_arm now" "recover_arm now (pending_device now c t u k req)" d] by blast
      then show ?thesis
      proof cases
        case 1
        then show ?thesis by (simp add: recover_arm_def pending_device_def new_device_def)
      next
        case (2 y)
        then have "dv_recovery_grant_at x = dv_recovery_grant_at y \<or>
            dv_recovery_grant_at x = (if dv_status y = DevRevoked then None else Some now)"
          by (elim disjE) (simp_all add: recover_arm_def)
        with 2 show ?thesis by blast
      qed
    qed
  }
qed

lemma login_never_activates_witness:
  "\<exists>d' resp. login_db token_crates sample_cfg 10 sample_fresh ann_login ann_db = (d', Inr resp) \<and>
     list_all (\<lambda>x. dv_status x = DevPending) (devices d')"
proof -
  obtain d' resp where run: "login_db token_crates sample_cfg 10 sample_fresh ann_login ann_db = (d', Inr resp)"
    using ann_logs_in by blast
  have "devices ann_db = []" by (simp add: ann_db_def nonce_db_def empty_db_def)
  with login_never_activates [of token_crates sample_cfg 10 sample_fresh ann_login ann_db] run
  have "list_all (\<lambda>x. dv_status x = DevPending) (devices d')" by (simp add: list_all_iff)
  with run show ?thesis by blast
qed

subsection \<open>Password change\<close>

lemma change_password_tx_Inr:
  assumes "change_password_tx X now fr auth (k, w, cur) d = Inr (x, d')"
  obtains u d1 v where "active_device (au_tenant auth) (au_client auth) d" and "user_of (au_user auth) d = Some u"
    and "reauthenticate X now auth u cur d = Inr ((), d1)" and "server_verifier X k (fr_salt fr) = Inr v"
    and "d' = clear_waiver (au_tenant auth) (au_client auth)
      (revoke_others (au_tenant auth) (au_client auth) (set_password (au_user auth) v (fr_salt fr) w d1))"
proof -
  from assms obtain row where a: "active_device (au_tenant auth) (au_client auth) d" and
    "tx_bind (tx_lift (ok_or (user_of (au_user auth) d) Unauthorized)) (\<lambda>u.
      tx_seq (reauthenticate X now auth u cur)
      (tx_bind (tx_lift (server_verifier X k (fr_salt fr))) (\<lambda>verifier.
       tx_seq (tx_write (set_password (au_user auth) verifier (fr_salt fr) w))
       (tx_seq (tx_write (revoke_others (au_tenant auth) (au_client auth)))
         (tx_write (clear_waiver (au_tenant auth) (au_client auth))))))) d = Inr (x, d')"
    by (auto simp: change_password_tx_def tx_seq_eq_Inr tx_bind_eq_Inr [of "tx_read f" for f] tx_read_eq
        require_active_caller_Inr)
  then show thesis
    using that [OF a] by (auto simp: result_simps)
qed

text \<open>Re-authentication: by the current key, or by the waiver of a recent recovery.\<close>

lemma reauthenticate_cases:
  assumes "reauthenticate X now auth u cur d = Inr ((), d1)"
  shows "case cur of Some c \<Rightarrow> server_verifier X c (us_server_salt u) = Inr (us_verifier u) \<and> d1 = d
     | None \<Rightarrow> (\<exists>r\<in>set (devices d). waived now (au_tenant auth) (au_client auth) r)"
proof (cases cur)
  case None
  with assms have "rows_where (waived now (au_tenant auth) (au_client auth)) (devices d) = 1"
    by (auto simp: reauthenticate_def consume_waiver_def split: if_splits)
  then show ?thesis using None rows_where_pos_iff [of "waived now (au_tenant auth) (au_client auth)" "devices d"] by simp
qed (use assms in \<open>auto simp: reauthenticate_def result_simps ct_eq_iff\<close>)

text \<open>C38. What a password change does. It needs an active device that presents the current key or holds a
  recovery stamp of the last fifteen minutes; it replaces the verifier, its salt and the password wrap
  of this account and of no other; it revokes every refresh token of the workspace that is not the
  calling device's and keeps the caller's; and it clears the caller's stamp, so that a second change
  without the current key is refused.\<close>

theorem password_change_effect:
  assumes ok: "change_password_tx X now fr auth (k, w, cur) d = Inr (x, d')"
    and pk: "distinct (map us_id (users d))"
  shows "active_device (au_tenant auth) (au_client auth) d \<and>
    (\<exists>u v. user_of (au_user auth) d = Some u \<and> server_verifier X k (fr_salt fr) = Inr v \<and>
       (case cur of Some c \<Rightarrow> server_verifier X c (us_server_salt u) = Inr (us_verifier u)
        | None \<Rightarrow> \<exists>r\<in>set (devices d). waived now (au_tenant auth) (au_client auth) r) \<and>
       user_of (au_user auth) d' = Some (u\<lparr>us_verifier := v, us_server_salt := fr_salt fr, us_wrapped_password := w\<rparr>)) \<and>
    (\<forall>a. a \<noteq> au_user auth \<longrightarrow> user_of a d' = user_of a d) \<and>
    (\<forall>r\<in>set (refresh_tokens d'). rt_ws r = au_tenant auth \<and> rt_client r \<noteq> au_client auth \<longrightarrow> rt_revoked r) \<and>
    (\<forall>r\<in>set (refresh_tokens d). rt_client r = au_client auth \<longrightarrow> r \<in> set (refresh_tokens d')) \<and>
    (\<forall>now2. consume_waiver now2 (au_tenant auth) (au_client auth) d' = Inl Unauthorized)"
proof -
  let ?t = "au_tenant auth" and ?c = "au_client auth" and ?a = "au_user auth"
  from ok obtain u d1 v where act: "active_device ?t ?c d" and u: "user_of ?a d = Some u"
    and re: "reauthenticate X now auth u cur d = Inr ((), d1)" and v: "server_verifier X k (fr_salt fr) = Inr v"
    and d': "d' = clear_waiver ?t ?c (revoke_others ?t ?c (set_password ?a v (fr_salt fr) w d1))"
    by (rule change_password_tx_Inr)
  note keep = reauthenticate_Inr [OF re]
  let ?f = "\<lambda>r. r\<lparr>us_verifier := v, us_server_salt := fr_salt fr, us_wrapped_password := w\<rparr>"
  have us: "user_of a d' = map_option (\<lambda>r. if us_id r = ?a then ?f r else r) (user_of a d)" for a
    using keep by (simp add: user_of_def d' clear_waiver_def revoke_others_def set_password_def fetch_update_where)
  have uid: "us_id r = a" if "user_of a d = Some r" for a r
    using that by (auto simp: user_of_def dest: fetch_optional_Some)
  have tk: "refresh_tokens d' = update_where (\<lambda>r. rt_ws r = ?t \<and> rt_client r \<noteq> ?c \<and> \<not> rt_revoked r)
      (\<lambda>r. r\<lparr>rt_revoked := True\<rparr>) (refresh_tokens d)"
    using keep by (simp add: d' clear_waiver_def revoke_others_def set_password_def)
  have "rows_where (waived now2 ?t ?c) (devices d') = 0" for now2
    by (auto simp: rows_where_0_iff d' clear_waiver_def set_update_where waived_def split: option.splits)
  then have "consume_waiver now2 ?t ?c d' = Inl Unauthorized" for now2
    by (simp add: consume_waiver_def)
  moreover have "user_of ?a d' = Some (?f u)" using u uid [OF u] by (simp add: us)
  moreover have "user_of a d' = user_of a d" if "a \<noteq> ?a" for a
    using that uid [of a] by (cases "user_of a d") (auto simp: us)
  moreover have "\<forall>r\<in>set (refresh_tokens d'). rt_ws r = ?t \<and> rt_client r \<noteq> ?c \<longrightarrow> rt_revoked r"
    by (auto simp: tk set_update_where)
  moreover have "\<forall>r\<in>set (refresh_tokens d). rt_client r = ?c \<longrightarrow> r \<in> set (refresh_tokens d')"
    by (auto simp: tk set_update_where image_iff)
  ultimately show ?thesis using act u v reauthenticate_cases [OF re] by (auto split: option.splits)
qed

definition settled_db :: db where
  "settled_db = ann_db\<lparr>devices := [sample_device 7 DevActive],
     refresh_tokens := [new_token 0 6 1 9 (Some 7) 5, new_token 0 16 1 9 (Some 8) 15]\<rparr>"

lemma password_change_effect_witness:
  "\<exists>d'. change_password_tx token_crates 10 sample_fresh sample_auth (replicate 32 3, replicate 105 4, Some [107]) settled_db = Inr ((), d') \<and>
     map rt_revoked (refresh_tokens d') = [False, True] \<and>
     (\<forall>r\<in>set (refresh_tokens d'). rt_ws r = 1 \<and> rt_client r \<noteq> Some 7 \<longrightarrow> rt_revoked r)"
proof -
  have sv: "server_verifier token_crates [107] (us_server_salt ann) = Inr (us_verifier ann)"
    by (simp add: server_verifier_def server_verifier_kdf_def token_crates_def toy_crates_def ann_def eval_nat_numeral)
  have sv2: "\<exists>v. server_verifier token_crates k s = Inr v" for k s
    by (simp add: server_verifier_def server_verifier_kdf_def token_crates_def toy_crates_def)
  have "active_device 1 (Some 7) settled_db"
    by (simp add: active_device_def device_of_def settled_db_def sample_device_def)
  then have "require_active_caller 1 (Some 7) settled_db = Inr ((), settled_db)" by (simp add: require_active_caller_Inr)
  moreover have "user_of 9 settled_db = Some ann" by (simp add: user_of_def settled_db_def ann_db_def ann_def)
  moreover obtain v where "server_verifier token_crates (replicate 32 3) (fr_salt sample_fresh) = Inr v" using sv2 by blast
  ultimately obtain d' where run: "change_password_tx token_crates 10 sample_fresh sample_auth (replicate 32 3, replicate 105 4, Some [107]) settled_db = Inr ((), d')"
    and d': "d' = clear_waiver 1 (Some 7) (revoke_others 1 (Some 7) (set_password 9 v (fr_salt sample_fresh) (replicate 105 4) settled_db))"
    using sv by (simp add: change_password_tx_def tx_run_simps tx_lift_def reauthenticate_def ct_eq_iff sample_auth_def del: replicate.simps)
  have "distinct (map us_id (users settled_db))" by (simp add: settled_db_def ann_db_def)
  from password_change_effect [OF run this] run show ?thesis
    by (simp add: d' sample_auth_def clear_waiver_def revoke_others_def set_password_def settled_db_def del: replicate.simps)
qed

subsection \<open>No account oracle\<close>

lemma signup_salt_length: "signup_fields_of X fr req = Inr f \<Longrightarrow> length (sf_salt_enc f) = 16"
  by (auto simp: signup_fields_of_def result_simps)

text \<open>The handlers do not tell whether an account exists. When every stored salt has the sixteen bytes
  that sign-up enforces, the first round answers sixteen bytes for any email; and given that the
  password hash succeeds, the second round and recovery answer an unknown account and a wrong key
  alike, with 401 and without a trace in the database.\<close>

theorem login_no_account_oracle:
  assumes hmac: "hmac_law X" and salts: "\<And>u. u \<in> set (users d) \<Longrightarrow> length (us_salt_enc u) = 16"
    and hash: "\<And>k s. \<exists>v. server_verifier X k s = Inr v" and key: "b64_dec X (lq_key req) = Some key"
  shows "(\<exists>salt. login_salt X cfg email d = Inr salt \<and> length salt = 16) \<and>
    ((case lookup_login (lq_email req) d of None \<Rightarrow> True
      | Some (u, t) \<Rightarrow> server_verifier X key (us_server_salt u) \<noteq> Inr (us_verifier u)) \<longrightarrow>
        login_db X cfg now fr req d = (d, Inl Unauthorized)) \<and>
    ((case lookup_login (lq_email req) d of None \<Rightarrow> True
      | Some (u, t) \<Rightarrow> us_recovery_salt u = None \<or> us_recovery_verifier u = None \<or>
          server_verifier X key (the (us_recovery_salt u)) \<noteq> Inr (the (us_recovery_verifier u))) \<longrightarrow>
        recover_db X cfg now fr req d = (d, Inl Unauthorized))"
proof (intro conjI impI)
  show "\<exists>salt. login_salt X cfg email d = Inr salt \<and> length salt = 16"
  proof (cases "fetch_optional (email_of email) (users d)")
    case None
    have "\<exists>n. 16 \<le> 32 * n \<and> hkdf_expand X p i 16 = Some (take 16 (rfc_blocks X p i n))" for p i
      by (rule hkdf_expand_eq [OF hmac]) simp
    then obtain n where "16 \<le> 32 * n"
      "hkdf_expand X (str_bytes (cf_pepper cfg)) (str_bytes (lower_str email)) 16 =
         Some (take 16 (rfc_blocks X (str_bytes (cf_pepper cfg)) (str_bytes (lower_str email)) n))" by blast
    with None show ?thesis by (simp add: login_salt_def length_rfc_blocks [OF hmac])
  next
    case (Some u)
    with salts show ?thesis by (auto simp: login_salt_def dest: fetch_optional_Some)
  qed
  have k: "b64_decode X f (lq_key req) = Inr key" for f using key by (simp add: b64_decode_def)
  show "login_db X cfg now fr req d = (d, Inl Unauthorized)"
    if "case lookup_login (lq_email req) d of None \<Rightarrow> True
      | Some (u, t) \<Rightarrow> server_verifier X key (us_server_salt u) \<noteq> Inr (us_verifier u)"
  proof (cases "lookup_login (lq_email req) d")
    case (Some p)
    obtain u t where p: "p = (u, t)" by fastforce
    obtain v where "server_verifier X key (us_server_salt u) = Inr v" using hash by blast
    with that Some p show ?thesis by (simp add: login_db_def k ct_eq_iff)
  qed (simp add: login_db_def k)
  show "recover_db X cfg now fr req d = (d, Inl Unauthorized)"
    if "case lookup_login (lq_email req) d of None \<Rightarrow> True
      | Some (u, t) \<Rightarrow> us_recovery_salt u = None \<or> us_recovery_verifier u = None \<or>
          server_verifier X key (the (us_recovery_salt u)) \<noteq> Inr (the (us_recovery_verifier u))"
  proof (cases "lookup_login (lq_email req) d")
    case (Some p)
    obtain u t where p: "p = (u, t)" by fastforce
    show ?thesis
    proof (cases "us_recovery_salt u")
      case None
      with Some p show ?thesis by (simp add: recover_db_def k)
    next
      case (Some s)
      note s = this
      obtain v where v: "server_verifier X key s = Inr v" using hash by blast
      with that \<open>lookup_login (lq_email req) d = Some p\<close> p s show ?thesis
        by (cases "us_recovery_verifier u") (simp_all add: recover_db_def k ct_eq_iff)
    qed
  qed (simp add: recover_db_def k)
qed

lemma login_no_account_oracle_witness:
  "login_db token_crates sample_cfg 10 sample_fresh (ann_login\<lparr>lq_email := ''Bob''\<rparr>) ann_db = (ann_db, Inl Unauthorized) \<and>
   login_db token_crates sample_cfg 10 sample_fresh (ann_login\<lparr>lq_key := ''x''\<rparr>) ann_db = (ann_db, Inl Unauthorized)"
proof -
  have h: "\<exists>v. server_verifier token_crates k s = Inr v" for k s
    by (simp add: server_verifier_def server_verifier_kdf_def token_crates_def toy_crates_def)
  have s: "length (us_salt_enc u) = 16" if "u \<in> set (users ann_db)" for u
    using that by (simp add: ann_db_def ann_def)
  have k: "\<exists>b. b64_dec token_crates x = Some b" for x by (simp add: token_crates_def toy_crates_def)
  have bob: "lookup_login ''Bob'' ann_db = None"
  proof -
    have "lower_str ''Ann'' \<noteq> lower_str ''Bob''" by code_simp
    then show ?thesis by (simp add: lookup_login_def email_of_def ann_db_def ann_def)
  qed
  have "(120 :: 8 word) \<noteq> 107" by simp
  then have wrong: "server_verifier token_crates [120] (us_server_salt ann) \<noteq> Inr (us_verifier ann)"
    by (auto simp: server_verifier_def server_verifier_kdf_def token_crates_def toy_crates_def ann_def
        take_Cons')
  obtain b where b: "b64_dec token_crates (lq_key (ann_login\<lparr>lq_email := ''Bob''\<rparr>)) = Some b" using k by blast
  have x: "b64_dec token_crates (lq_key (ann_login\<lparr>lq_key := ''x''\<rparr>)) = Some [120]"
    by (simp add: token_crates_def toy_crates_def)
  from login_no_account_oracle [OF token_crates_laws(2) s h b, where cfg = sample_cfg and now = 10 and fr = sample_fresh]
    login_no_account_oracle [OF token_crates_laws(2) s h x, where cfg = sample_cfg and now = 10 and fr = sample_fresh] bob ann_lookup wrong
  show ?thesis by simp
qed

end
