(* ===== verification/Admin.thy ===== *)
theory Admin
  imports Entitlements Crates Parse
begin

text \<open>
  The control plane's admin API: \<open>crates/yapstack-server/src/admin.rs\<close>. A request is signed with
  Ed25519 over its time, nonce, method, path and the hash of its body; the time must be within five
  minutes and the nonce unused. \<open>put_limits\<close> upserts the limits row of the tenant in the path and
  \<open>get_usage\<close> reads its meters. The JSON parser of the body is an argument.
\<close>

definition replay_window_secs :: int where
  "replay_window_secs = 300"

text \<open>The headers as \<open>to_str\<close> reads them.\<close>

record admin_headers =
  ah_timestamp :: "string option"
  ah_nonce :: "string option"
  ah_signature :: "string option"

text \<open>\<open>i64\<close> subtraction and \<open>abs\<close> of a release build, which wrap.\<close>

definition wrap_i64 :: "int \<Rightarrow> int" where
  "wrap_i64 x = (x + 9223372036854775808) mod 18446744073709551616 - 9223372036854775808"

definition abs_i64 :: "int \<Rightarrow> int" where
  "abs_i64 x = (if x = i64_min then i64_min else abs x)"

definition outside_window :: "timestamp \<Rightarrow> int \<Rightarrow> bool" where
  "outside_window now ts \<longleftrightarrow> abs_i64 (wrap_i64 (now div 1000000 - ts)) > replay_window_secs"

definition admin_message :: "crates \<Rightarrow> int \<Rightarrow> string \<Rightarrow> string \<Rightarrow> string \<Rightarrow> bytes \<Rightarrow> string" where
  "admin_message X ts nonce meth path body = show_int ts @ [CHR 0x0A] @ nonce @ [CHR 0x0A] @ meth @ [CHR 0x0A]
     @ path @ [CHR 0x0A] @ hex_encode (sha256 X body)"

text \<open>What is checked before the nonce: the accepted nonce, or the refusal.\<close>

definition admin_signed :: "crates \<Rightarrow> bytes option \<Rightarrow> timestamp \<Rightarrow> string \<Rightarrow> string \<Rightarrow> bytes \<Rightarrow> admin_headers \<Rightarrow> app_error + string" where
  "admin_signed X admin_key now meth path body h =
     bind_result (ok_or admin_key Forbidden) (\<lambda>key.
     bind_result (ok_or (Option.bind (ah_timestamp h) parse_i64) Unauthorized) (\<lambda>ts.
     bind_result (ok_or (Option.bind (ah_nonce h) (\<lambda>s. if s \<noteq> [] \<and> length s \<le> 128 then Some s else None)) Unauthorized) (\<lambda>nonce.
     bind_result (ok_or (Option.bind (ah_signature h) (b64_dec X)) Unauthorized) (\<lambda>sig.
     bind_result (require (length sig = 64) Unauthorized) (\<lambda>_.
     bind_result (require (\<not> outside_window now ts) Unauthorized) (\<lambda>_.
     bind_result (require (ed25519_verify_strict X key (str_bytes (admin_message X ts nonce meth path body)) sig)
                   Unauthorized) (\<lambda>_. Inr nonce)))))))"

definition prune_admin_nonces :: "timestamp \<Rightarrow> db \<Rightarrow> db" where
  "prune_admin_nonces now d =
     d\<lparr>admin_nonces := delete_where (\<lambda>r. an_seen_at r < now - minutes 10) (admin_nonces d)\<rparr>"

definition take_admin_nonce :: "timestamp \<Rightarrow> string \<Rightarrow> db \<Rightarrow> nat \<times> db" where
  "take_admin_nonce now nonce d =
     (if exists_row (\<lambda>r. an_nonce r = nonce) (admin_nonces d) then (0, d)
      else (1, d\<lparr>admin_nonces := admin_nonces d @ [\<lparr>an_nonce = nonce, an_seen_at = now\<rparr>]\<rparr>))"

definition verify_admin :: "crates \<Rightarrow> bytes option \<Rightarrow> timestamp \<Rightarrow> string \<Rightarrow> string \<Rightarrow> bytes \<Rightarrow> admin_headers \<Rightarrow> db
    \<Rightarrow> db \<times> (app_error + unit)" where
  "verify_admin X admin_key now meth path body h d = (case admin_signed X admin_key now meth path body h of
       Inl e \<Rightarrow> (d, Inl e)
     | Inr nonce \<Rightarrow> (case take_admin_nonce now nonce (prune_admin_nonces now d) of
           (inserted, d') \<Rightarrow> if inserted = 0 then (d', Inl Unauthorized) else (d', Inr ())))"

text \<open>\<open>INSERT INTO tenant_limits .. ON CONFLICT (tenant_id) DO UPDATE\<close>.\<close>

definition upsert_limits :: "limits_row \<Rightarrow> unit tx" where
  "upsert_limits r = tx_seq (tx_fk_workspace (li_tenant r)) (tx_write (\<lambda>d. d\<lparr>limits_tbl :=
     (if exists_row (\<lambda>x. li_tenant x = li_tenant r) (limits_tbl d)
      then update_where (\<lambda>x. li_tenant x = li_tenant r) (\<lambda>_. r) (limits_tbl d) else limits_tbl d @ [r])\<rparr>))"

definition put_limits :: "crates \<Rightarrow> (bytes \<Rightarrow> tenant_limits_update option) \<Rightarrow> bytes option \<Rightarrow> timestamp \<Rightarrow> uuid \<Rightarrow> string \<Rightarrow> string
    \<Rightarrow> admin_headers \<Rightarrow> bytes \<Rightarrow> db \<Rightarrow> db \<times> (app_error + unit)" where
  "put_limits X from_json admin_key now tenant meth path h body d =
     (case verify_admin X admin_key now meth path body h d of
        (d1, Inl e) \<Rightarrow> (d1, Inl e)
      | (d1, Inr _) \<Rightarrow> (case from_json body of
            None \<Rightarrow> (d1, Inl (BadRequest ''body''))
          | Some update \<Rightarrow> run_tx (upsert_limits (row_of_update tenant update)) d1))"

record usage_response =
  ur_storage :: int
  ur_upload :: int
  ur_share :: int
  ur_device :: int
  ur_window :: timestamp

definition usage_report :: "timestamp \<Rightarrow> usage_row option \<Rightarrow> usage_response" where
  "usage_report now row = (case row of
       Some u \<Rightarrow> \<lparr>ur_storage = max 0 (ug_storage u), ur_upload = max 0 (ug_upload u), ur_share = max 0 (ug_share u),
          ur_device = max 0 (ug_device u), ur_window = ug_window u\<rparr>
     | None \<Rightarrow> \<lparr>ur_storage = 0, ur_upload = 0, ur_share = 0, ur_device = 0, ur_window = now\<rparr>)"

definition get_usage :: "crates \<Rightarrow> bytes option \<Rightarrow> timestamp \<Rightarrow> uuid \<Rightarrow> string \<Rightarrow> string \<Rightarrow> admin_headers \<Rightarrow> db
    \<Rightarrow> db \<times> (app_error + usage_response)" where
  "get_usage X admin_key now tenant meth path h d =
     (case verify_admin X admin_key now meth path [] h d of
        (d1, Inl e) \<Rightarrow> (d1, Inl e)
      | (d1, Inr _) \<Rightarrow> (d1, Inr (usage_report now (fetch_optional (\<lambda>r. ug_tenant r = tenant) (usage d1)))))"

subsection \<open>Facts\<close>

lemma admin_signed_Inr: "admin_signed X k now meth path body h = Inr nonce \<longleftrightarrow>
   (\<exists>key ts sig. k = Some key \<and> Option.bind (ah_timestamp h) parse_i64 = Some ts \<and>
      ah_nonce h = Some nonce \<and> nonce \<noteq> [] \<and> length nonce \<le> 128 \<and>
      Option.bind (ah_signature h) (b64_dec X) = Some sig \<and> length sig = 64 \<and> \<not> outside_window now ts \<and>
      ed25519_verify_strict X key (str_bytes (admin_message X ts nonce meth path body)) sig)"
  by (auto simp: admin_signed_def result_simps bind_eq_Some_conv split: if_splits)

lemma verify_admin_Inr: "verify_admin X k now meth path body h d = (d', Inr u) \<longleftrightarrow>
   (\<exists>nonce. admin_signed X k now meth path body h = Inr nonce \<and>
      (\<forall>r\<in>set (admin_nonces d). an_nonce r = nonce \<longrightarrow> an_seen_at r < now - minutes 10) \<and>
      d' = (prune_admin_nonces now d)\<lparr>admin_nonces := admin_nonces (prune_admin_nonces now d) @
         [\<lparr>an_nonce = nonce, an_seen_at = now\<rparr>]\<rparr>)"
  unfolding verify_admin_def take_admin_nonce_def
  by (auto simp: prune_admin_nonces_def split: sum.splits if_splits)

lemma verify_admin_frame: "verify_admin X k now meth path body h d = (d', r) \<Longrightarrow>
    \<exists>ns. d' = d\<lparr>admin_nonces := ns\<rparr>"
  unfolding verify_admin_def take_admin_nonce_def prune_admin_nonces_def
  by (auto split: sum.splits if_splits intro: exI [of _ "admin_nonces d"])

lemma upsert_limits_Inr: "upsert_limits r d = Inr (x, d') \<longleftrightarrow> (\<exists>w\<in>set (workspaces d). ws_id w = li_tenant r) \<and>
    d' = d\<lparr>limits_tbl := (if exists_row (\<lambda>x. li_tenant x = li_tenant r) (limits_tbl d)
      then update_where (\<lambda>x. li_tenant x = li_tenant r) (\<lambda>_. r) (limits_tbl d) else limits_tbl d @ [r])\<rparr>"
  by (auto simp: upsert_limits_def result_simps)

lemma upsert_fetch:
  assumes "upsert_limits r d = Inr (x, d')"
  shows "fetch_limits_row t d' = (if t = li_tenant r then Some r else fetch_limits_row t d)"
proof -
  have "fetch_optional (\<lambda>x. li_tenant x = t) (update_where (\<lambda>x. li_tenant x = li_tenant r) (\<lambda>_. r) rows) =
      (if t = li_tenant r then (if \<exists>x\<in>set rows. li_tenant x = t then Some r else None)
       else fetch_optional (\<lambda>x. li_tenant x = t) rows)" for rows
    by (induction rows) auto
  note upd = this
  have d': "limits_tbl d' = (if exists_row (\<lambda>x. li_tenant x = li_tenant r) (limits_tbl d)
      then update_where (\<lambda>x. li_tenant x = li_tenant r) (\<lambda>_. r) (limits_tbl d) else limits_tbl d @ [r])"
    using assms by (auto simp: upsert_limits_Inr)
  show ?thesis
  proof (cases "\<exists>x\<in>set (limits_tbl d). li_tenant x = li_tenant r")
    case True
    then show ?thesis by (simp add: fetch_limits_row_def d' upd)
  next
    case False
    then have "fetch_optional (\<lambda>x. li_tenant x = li_tenant r) (limits_tbl d) = None"
      by (simp add: fetch_optional_None_iff)
    with False show ?thesis by (simp add: fetch_limits_row_def d' fetch_append split: option.split)
  qed
qed

text \<open>The window test, with the one wrapped value that passes it.\<close>

lemma wrap_i64_id: "in_i64 x \<Longrightarrow> wrap_i64 x = x"
  by (simp add: wrap_i64_def machine_int_defs)

lemma outside_window_iff:
  assumes "0 \<le> now" and "now \<le> i64_max" and "in_i64 ts"
  shows "\<not> outside_window now ts \<longleftrightarrow>
     \<bar>now div 1000000 - ts\<bar> \<le> 300 \<or> ts = now div 1000000 - 9223372036854775808"
proof -
  have "now div 1000000 \<le> 9223372036854775807 div 1000000"
    using assms(2) by (intro zdiv_mono1) (simp_all add: i64_max_def)
  then obtain n where n: "n = now div 1000000" "0 \<le> n" "n \<le> 9223372036854" using assms(1) by simp
  have ts: "- 9223372036854775808 \<le> ts" "ts \<le> 9223372036854775807" using assms(3) by (simp_all add: machine_int_defs)
  have o: "outside_window now ts \<longleftrightarrow> abs_i64 (wrap_i64 (n - ts)) > 300"
    by (simp add: outside_window_def n(1) replay_window_secs_def)
  show ?thesis
  proof (cases "n - ts \<le> 9223372036854775807")
    case True
    then have "in_i64 (n - ts)" using n ts by (simp add: machine_int_defs)
    then have "wrap_i64 (n - ts) = n - ts" by (rule wrap_i64_id)
    moreover have "n - ts \<noteq> i64_min" using n ts by (simp add: i64_min_def)
    moreover have "ts \<noteq> n - 9223372036854775808" using True by simp
    ultimately show ?thesis unfolding o n(1) [symmetric] by (simp add: abs_i64_def not_less)
  next
    case False
    then have r: "0 \<le> n - ts - 9223372036854775808" "n - ts - 9223372036854775808 < 18446744073709551616"
      using n ts by linarith+
    have "(n - ts + 9223372036854775808) mod 18446744073709551616 =
        (n - ts - 9223372036854775808 + 18446744073709551616) mod 18446744073709551616" by (simp add: algebra_simps)
    also have "\<dots> = n - ts - 9223372036854775808"
      using r by (simp only: mod_add_self2 mod_pos_pos_trivial)
    finally have w: "wrap_i64 (n - ts) = n - ts - 18446744073709551616" by (simp add: wrap_i64_def)
    show ?thesis
    proof (cases "n - ts = 9223372036854775808")
      case True
      have "wrap_i64 (n - ts) = i64_min" using w by (simp only: True) (simp add: i64_min_def)
      then have "abs_i64 (wrap_i64 (n - ts)) = - 9223372036854775808" by (simp add: abs_i64_def i64_min_def)
      with True show ?thesis unfolding o n(1) [symmetric] by simp
    next
      case ne: False
      then have "wrap_i64 (n - ts) \<noteq> i64_min" by (simp add: w i64_min_def)
      then have "abs_i64 (wrap_i64 (n - ts)) = \<bar>n - ts - 18446744073709551616\<bar>" by (simp add: abs_i64_def w)
      moreover have "300 < \<bar>n - ts - 18446744073709551616\<bar>" using n(2,3) ts by (simp add: abs_if)
      moreover have "\<not> \<bar>n - ts\<bar> \<le> 300" using False by (simp add: abs_if)
      moreover have "ts \<noteq> n - 9223372036854775808" using ne by simp
      ultimately show ?thesis unfolding o n(1) [symmetric] by simp
    qed
  qed
qed

subsection \<open>Properties\<close>

lemma show_int_no_newline: "CHR 0x0A \<notin> set (show_int i)"
  by (simp add: show_int_def show_nat_no_newline)

lemma show_int_inj:
  assumes "show_int i = show_int j"
  shows "i = j"
proof -
  have "parse_signed (min i j) (max i j) (show_int i) = Some i" by (rule parse_signed_show) simp_all
  moreover have "parse_signed (min i j) (max i j) (show_int j) = Some j" by (rule parse_signed_show) simp_all
  ultimately have "Some i = Some j" unfolding assms by (rule trans [OF sym])
  then show ?thesis by (rule option.inject [THEN iffD1])
qed

lemma window_edges:
  fixes a b ts :: int
  assumes "\<bar>a - ts\<bar> \<le> 300 \<or> ts = a - 9223372036854775808" and "\<bar>b - ts\<bar> \<le> 300 \<or> ts = b - 9223372036854775808"
    and "a + 600 \<le> b" and "300 \<le> a" and "b \<le> 9223372036854775807"
  shows "ts = a + 300 \<and> ts = b - 300"
  using assms by (auto simp: abs_le_iff)

lemma admin_message_inj:
  assumes "admin_message X ts n m p b = admin_message X ts' n' m' p' b'"
    and "\<And>s. s \<in> {n, n', m, m', p, p'} \<Longrightarrow> CHR 0x0A \<notin> set s"
  shows "ts = ts' \<and> n = n' \<and> m = m' \<and> p = p' \<and> sha256 X b = sha256 X b'"
proof -
  from assms(1) have "show_int ts @ CHR 0x0A # (n @ CHR 0x0A # (m @ CHR 0x0A # (p @ CHR 0x0A # hex_encode (sha256 X b)))) =
      show_int ts' @ CHR 0x0A # (n' @ CHR 0x0A # (m' @ CHR 0x0A # (p' @ CHR 0x0A # hex_encode (sha256 X b'))))"
    by (simp add: admin_message_def)
  from newline_split [OF this show_int_no_newline show_int_no_newline] have
    "show_int ts = show_int ts'" and 1: "n @ CHR 0x0A # (m @ CHR 0x0A # (p @ CHR 0x0A # hex_encode (sha256 X b))) =
      n' @ CHR 0x0A # (m' @ CHR 0x0A # (p' @ CHR 0x0A # hex_encode (sha256 X b')))" by blast+
  moreover from newline_split [OF 1] assms(2) have "n = n'" and
    2: "m @ CHR 0x0A # (p @ CHR 0x0A # hex_encode (sha256 X b)) = m' @ CHR 0x0A # (p' @ CHR 0x0A # hex_encode (sha256 X b'))" by simp_all
  moreover from newline_split [OF 2] assms(2) have "m = m'" and
    3: "p @ CHR 0x0A # hex_encode (sha256 X b) = p' @ CHR 0x0A # hex_encode (sha256 X b')" by simp_all
  moreover from newline_split [OF 3] assms(2) have "p = p'" "hex_encode (sha256 X b) = hex_encode (sha256 X b')" by simp_all
  ultimately show ?thesis by (simp add: hex_encode_inj show_int_inj)
qed

text \<open>What an accepted admin request was. It was signed under the configured key over its own time,
  nonce, method, path and body hash, its time is within five minutes of the relay's (or the one value
  whose difference wraps around \<open>i64\<close>), and its nonce was not in the table among the last ten
  minutes' and is there afterwards. A signature covers nothing else: two requests with the same signed
  text have the same time, nonce, method and path, and bodies with the same hash.\<close>

theorem admin_request_authentic:
  assumes ok: "verify_admin X k now meth path body h d = (d', Inr u)"
    and now: "0 \<le> now" "now \<le> i64_max"
  shows "\<exists>key ts nonce sig. k = Some key \<and> Option.bind (ah_timestamp h) parse_i64 = Some ts \<and> ah_nonce h = Some nonce \<and>
      Option.bind (ah_signature h) (b64_dec X) = Some sig \<and> length sig = 64 \<and>
      ed25519_verify_strict X key (str_bytes (admin_message X ts nonce meth path body)) sig \<and>
      (\<bar>now div 1000000 - ts\<bar> \<le> 300 \<or> ts = now div 1000000 - 9223372036854775808) \<and>
      (\<forall>r\<in>set (admin_nonces d). an_nonce r = nonce \<longrightarrow> an_seen_at r < now - minutes 10) \<and>
      (\<exists>r\<in>set (admin_nonces d'). an_nonce r = nonce \<and> an_seen_at r = now) \<and>
      (\<forall>ts' nonce' meth' path' body'.
         admin_message X ts nonce meth path body = admin_message X ts' nonce' meth' path' body' \<and>
         CHR 0x0A \<notin> set nonce \<union> set nonce' \<union> set meth \<union> set meth' \<union> set path \<union> set path' \<longrightarrow>
         ts = ts' \<and> nonce = nonce' \<and> meth = meth' \<and> path = path' \<and> sha256 X body = sha256 X body')"
proof -
  from ok obtain nonce where s: "admin_signed X k now meth path body h = Inr nonce"
    and fresh: "\<forall>r\<in>set (admin_nonces d). an_nonce r = nonce \<longrightarrow> an_seen_at r < now - minutes 10"
    and kept: "\<exists>r\<in>set (admin_nonces d'). an_nonce r = nonce \<and> an_seen_at r = now"
    by (auto simp: verify_admin_Inr)
  from s obtain key ts sg where a: "k = Some key" "Option.bind (ah_timestamp h) parse_i64 = Some ts" "ah_nonce h = Some nonce"
    "Option.bind (ah_signature h) (b64_dec X) = Some sg" "length sg = 64" "\<not> outside_window now ts"
    "ed25519_verify_strict X key (str_bytes (admin_message X ts nonce meth path body)) sg"
    unfolding admin_signed_Inr by blast
  have "in_i64 ts" using a(2) by (auto simp: bind_eq_Some_conv parse_i64_def in_i64_def dest!: parse_signed_range)
  from outside_window_iff [OF now this] a(6)
  have w: "\<bar>now div 1000000 - ts\<bar> \<le> 300 \<or> ts = now div 1000000 - 9223372036854775808" by blast
  have inj: "ts = ts' \<and> nonce = nonce' \<and> meth = meth' \<and> path = path' \<and> sha256 X body = sha256 X body'"
    if "admin_message X ts nonce meth path body = admin_message X ts' nonce' meth' path' body'"
      "CHR 0x0A \<notin> set nonce \<union> set nonce' \<union> set meth \<union> set meth' \<union> set path \<union> set path'" for ts' nonce' meth' path' body'
    using that(2) by (intro admin_message_inj [OF that(1)]) auto
  from a w fresh kept inj show ?thesis by blast
qed

definition admin_sample :: admin_headers where
  "admin_sample = \<lparr>ah_timestamp = Some ''900'', ah_nonce = Some ''n'', ah_signature = Some (replicate 64 (CHR ''k''))\<rparr>"

lemma admin_sample_signed:
  assumes "now div 1000000 \<in> {600, 1200}"
  shows "admin_signed toy_crates (Some (replicate 32 107)) now ''PUT'' ''/p'' body admin_sample = Inr ''n''"
proof -
  have p: "parse_i64 ''900'' = Some 900" by code_simp
  have w: "\<not> outside_window now 900" using assms by (auto simp: outside_window_def wrap_i64_def abs_i64_def
      i64_min_def replay_window_secs_def)
  have "b64_dec toy_crates (replicate 64 (CHR ''k'')) = Some (replicate 64 107)" by (simp add: toy_crates_def)
  moreover have "ed25519_verify_strict toy_crates (replicate 32 107) m (replicate 64 107)" for m
    by (simp add: toy_crates_def)
  ultimately show ?thesis unfolding admin_signed_Inr
    using p w by (simp add: admin_sample_def del: replicate.simps)
qed

definition admin_db :: db where
  "admin_db = empty_db\<lparr>workspaces := [\<lparr>ws_id = 1, ws_name = []\<rparr>]\<rparr>"

lemma admin_sample_accepted:
  "verify_admin toy_crates (Some (replicate 32 107)) 600000000 ''PUT'' ''/p'' body admin_sample admin_db =
     (admin_db\<lparr>admin_nonces := [\<lparr>an_nonce = ''n'', an_seen_at = 600000000\<rparr>]\<rparr>, Inr ())"
  using admin_sample_signed [of 600000000 body]
  by (simp add: verify_admin_Inr prune_admin_nonces_def admin_db_def empty_db_def)

lemma admin_request_authentic_witness:
  "\<exists>ts. Option.bind (ah_timestamp admin_sample) parse_i64 = Some ts \<and> (\<bar>600 - ts\<bar> \<le> 300 \<or> ts = 600 - 9223372036854775808)"
  using admin_request_authentic [OF admin_sample_accepted, of "[]"] by (auto simp: i64_max_def)

text \<open>Admin nonces are single-use but for one second. If one request is accepted twice, although
  the table kept every nonce not older than ten minutes, then its time lay exactly five minutes
  ahead of the relay's clock at the first acceptance and exactly five minutes behind it at the
  second, ten minutes later.\<close>

theorem admin_replay_only_at_edge:
  assumes first: "verify_admin X k now1 meth path body h d = (d1, Inr u1)"
    and kept: "\<forall>r\<in>set (admin_nonces d1). \<not> an_seen_at r < now2 - minutes 10 \<longrightarrow> r \<in> set (admin_nonces d2)"
    and second: "verify_admin X k now2 meth' path' body' h d2 = (d3, Inr u2)"
    and clock: "seconds 300 \<le> now1" "now1 \<le> now2" "now2 \<le> i64_max"
  shows "\<exists>ts. Option.bind (ah_timestamp h) parse_i64 = Some ts \<and>
      (ts = now1 div 1000000 + 300 \<and> ts = now2 div 1000000 - 300)"
proof -
  have b1: "now1 \<le> i64_max" using clock(2,3) by linarith
  from first obtain nonce where s1: "admin_signed X k now1 meth path body h = Inr nonce"
    and row: "\<lparr>an_nonce = nonce, an_seen_at = now1\<rparr> \<in> set (admin_nonces d1)" by (auto simp: verify_admin_Inr)
  from second obtain nonce2 where s2: "admin_signed X k now2 meth' path' body' h = Inr nonce2"
    and free: "\<forall>r\<in>set (admin_nonces d2). an_nonce r = nonce2 \<longrightarrow> an_seen_at r < now2 - minutes 10"
    by (auto simp: verify_admin_Inr)
  have "nonce2 = nonce" using s1 s2 by (auto simp: admin_signed_Inr)
  with free row kept have old: "now1 < now2 - minutes 10" by fastforce
  from s1 s2 obtain ts where ts: "Option.bind (ah_timestamp h) parse_i64 = Some ts"
    and w: "\<not> outside_window now1 ts" "\<not> outside_window now2 ts" by (auto simp: admin_signed_Inr)
  have i: "in_i64 ts" using ts by (auto simp: bind_eq_Some_conv parse_i64_def in_i64_def dest!: parse_signed_range)
  let ?a = "now1 div 1000000" and ?b = "now2 div 1000000"
  have "600000000 < now2 - now1" using old by (simp add: interval_defs)
  then have gap: "?a + 600 \<le> ?b" using zdiv_mono1 [of "now1 + 600000000" now2 1000000] by simp
  have w1: "\<bar>?a - ts\<bar> \<le> 300 \<or> ts = ?a - 9223372036854775808"
    using outside_window_iff [OF _ b1 i] clock(1) w(1) by (simp add: seconds_def)
  have "0 \<le> now2" using clock by (simp add: seconds_def)
  have w2: "\<bar>?b - ts\<bar> \<le> 300 \<or> ts = ?b - 9223372036854775808"
    using outside_window_iff [OF \<open>0 \<le> now2\<close> clock(3) i] w(2) by blast
  have "300 \<le> ?a" using clock(1) zdiv_mono1 [of "300000000" now1 1000000] by (simp add: seconds_def)
  moreover have "?b \<le> 9223372036854775807 div 1000000" using clock(3) by (intro zdiv_mono1) (simp_all add: i64_max_def)
  then have "?b \<le> 9223372036854775807" by simp
  ultimately have "ts = ?a + 300 \<and> ts = ?b - 300" using window_edges [OF w1 w2 gap] by blast
  with ts show ?thesis by blast
qed

text \<open>And there it is accepted twice: the nonce is pruned after ten minutes to the microsecond, the
  window is counted in whole seconds.\<close>

lemma admin_sample_replayed:
  "\<exists>d3. verify_admin toy_crates (Some (replicate 32 107)) 1200500000 ''PUT'' ''/p'' body admin_sample
     (admin_db\<lparr>admin_nonces := [\<lparr>an_nonce = ''n'', an_seen_at = 600000000\<rparr>]\<rparr>) = (d3, Inr ())"
  using admin_sample_signed [of 1200500000 body] by (simp add: verify_admin_Inr interval_defs)

lemma admin_replay_only_at_edge_witness:
  "\<exists>d1 d3. verify_admin toy_crates (Some (replicate 32 107)) 600000000 ''PUT'' ''/p'' [] admin_sample admin_db = (d1, Inr ()) \<and>
     verify_admin toy_crates (Some (replicate 32 107)) 1200500000 ''PUT'' ''/p'' [] admin_sample d1 = (d3, Inr ()) \<and>
     Option.bind (ah_timestamp admin_sample) parse_i64 = Some 900"
proof -
  obtain d3 where r: "verify_admin toy_crates (Some (replicate 32 107)) 1200500000 ''PUT'' ''/p'' [] admin_sample
     (admin_db\<lparr>admin_nonces := [\<lparr>an_nonce = ''n'', an_seen_at = 600000000\<rparr>]\<rparr>) = (d3, Inr ())"
    using admin_sample_replayed by blast
  have "\<exists>ts. Option.bind (ah_timestamp admin_sample) parse_i64 = Some ts \<and>
      (ts = 600000000 div 1000000 + 300 \<and> ts = 1200500000 div 1000000 - 300)"
    by (rule admin_replay_only_at_edge [OF admin_sample_accepted _ r]) (simp_all add: i64_max_def seconds_def)
  then have "Option.bind (ah_timestamp admin_sample) parse_i64 = Some 900" by simp
  with r admin_sample_accepted [of "[]"] show ?thesis by blast
qed

end
