(* ===== verification/Client_Ip.thy ===== *)
theory Client_Ip
  imports Object_Storage
begin

text \<open>
  The client address that keys the rate limiters: \<open>crates/yapstack-server/src/extract.rs\<close>, over
  the standard library's parser and printer of IP addresses. The parser functions return the value
  with the rest of the text; \<open>None\<close> leaves the text unread, as \<open>read_atomically\<close> does.
\<close>

datatype ip_addr = V4 "int list" | V6 "int list"

subsection \<open>Parsing\<close>

definition digit_in :: "int \<Rightarrow> char \<Rightarrow> int option" where
  "digit_in radix c = (let n = of_char c :: int;
       v = (if 48 \<le> n \<and> n \<le> 57 then Some (n - 48)
            else if 97 \<le> n \<and> n \<le> 122 then Some (n - 87)
            else if 65 \<le> n \<and> n \<le> 90 then Some (n - 55) else None)
     in case v of None \<Rightarrow> None | Some d \<Rightarrow> if d < radix then Some d else None)"

fun read_digits :: "int \<Rightarrow> nat \<Rightarrow> int \<Rightarrow> nat \<Rightarrow> string \<Rightarrow> (int \<times> nat \<times> string) option" where
  "read_digits radix max_digits acc count [] = Some (acc, count, [])"
| "read_digits radix max_digits acc count (c # cs) = (case digit_in radix c of
       None \<Rightarrow> Some (acc, count, c # cs)
     | Some d \<Rightarrow> if count + 1 > max_digits then None
         else read_digits radix max_digits (acc * radix + d) (count + 1) cs)"

definition read_number :: "int \<Rightarrow> nat \<Rightarrow> bool \<Rightarrow> int \<Rightarrow> string \<Rightarrow> (int \<times> string) option" where
  "read_number radix max_digits allow_zero_prefix bound s = (case read_digits radix max_digits 0 0 s of
       None \<Rightarrow> None
     | Some (v, count, rest) \<Rightarrow>
         if count = 0 then None
         else if \<not> allow_zero_prefix \<and> take 1 s = ''0'' \<and> count > 1 then None
         else if v < bound then Some (v, rest) else None)"

text \<open>\<open>read_separator\<close>: the separator is expected before every group but the first.\<close>

definition read_separator :: "char \<Rightarrow> nat \<Rightarrow> (string \<Rightarrow> ('a \<times> string) option) \<Rightarrow> string \<Rightarrow> ('a \<times> string) option" where
  "read_separator sep i inner s = (if i = 0 then inner s else (case s of
       [] \<Rightarrow> None | c # cs \<Rightarrow> if c = sep then inner cs else None))"

definition read_octet :: "nat \<Rightarrow> string \<Rightarrow> (int \<times> string) option" where
  "read_octet i = read_separator (CHR ''.'') i (read_number 10 3 False 256)"

definition read_ipv4 :: "string \<Rightarrow> (int list \<times> string) option" where
  "read_ipv4 s = Option.bind (read_octet 0 s) (\<lambda>(a, s1). Option.bind (read_octet 1 s1) (\<lambda>(b, s2).
     Option.bind (read_octet 2 s2) (\<lambda>(c, s3). Option.bind (read_octet 3 s3) (\<lambda>(d, s4). Some ([a, b, c, d], s4)))))"

text \<open>\<open>read_groups\<close> from group \<open>i\<close> of \<open>limit\<close>: the groups read, whether they end with an embedded
  IPv4 address, and the rest.\<close>

function read_groups :: "nat \<Rightarrow> nat \<Rightarrow> string \<Rightarrow> int list \<times> bool \<times> string" where
  "read_groups limit i s =
     (if limit \<le> i then ([], False, s)
      else case (if i + 1 < limit then read_separator (CHR '':'') i read_ipv4 s else None) of
        Some (v4, rest) \<Rightarrow> ([256 * v4 ! 0 + v4 ! 1, 256 * v4 ! 2 + v4 ! 3], True, rest)
      | None \<Rightarrow> (case read_separator (CHR '':'') i (read_number 16 4 True 65536) s of
            None \<Rightarrow> ([], False, s)
          | Some (g, rest) \<Rightarrow> (case read_groups limit (i + 1) rest of (gs, v4, rest') \<Rightarrow> (g # gs, v4, rest'))))"
  by pat_completeness auto
termination
  by (relation "measure (\<lambda>(limit, i, s). limit - i)") auto

declare read_groups.simps [simp del]

definition read_ipv6 :: "string \<Rightarrow> (int list \<times> string) option" where
  "read_ipv6 s = (case read_groups 8 0 s of (head, head_ipv4, s1) \<Rightarrow>
     if length head = 8 then Some (head, s1)
     else if head_ipv4 then None
     else if take 2 s1 \<noteq> ''::'' then None
     else (case read_groups (7 - length head) 0 (drop 2 s1) of (tail, _, s2) \<Rightarrow>
        Some (head @ replicate (8 - length head - length tail) 0 @ tail, s2)))"

definition parse_ip :: "string \<Rightarrow> ip_addr option" where
  "parse_ip s =
     (case (case read_ipv4 s of Some (v, rest) \<Rightarrow> Some (V4 v, rest)
            | None \<Rightarrow> (case read_ipv6 s of Some (v, rest) \<Rightarrow> Some (V6 v, rest) | None \<Rightarrow> None)) of
        Some (ip, []) \<Rightarrow> Some ip | _ \<Rightarrow> None)"

subsection \<open>Printing\<close>

text \<open>A group in hexadecimal: \<open>{:x}\<close>, without leading zeros.\<close>

definition show_hex :: "int \<Rightarrow> string" where
  "show_hex n = (let d = map (\<lambda>k. nat (n div k mod 16)) [4096, 256, 16, 1];
     s = dropWhile (\<lambda>x. x = 0) d in map digit_char (if s = [] then [0] else s))"

text \<open>The first longest run of zero groups, as its start and length.\<close>

definition zero_run :: "int list \<Rightarrow> nat" where
  "zero_run gs = length (takeWhile (\<lambda>g. g = 0) gs)"

definition longest_zeros :: "int list \<Rightarrow> nat \<times> nat" where
  "longest_zeros gs = fold (\<lambda>i (start, len). let l = zero_run (drop i gs) in if len < l then (i, l) else (start, len))
     [0..<length gs] (0, 0)"

definition show_v4 :: "int list \<Rightarrow> string" where
  "show_v4 os = join_with ''.'' (map show_int os)"

definition show_groups :: "int list \<Rightarrow> string" where
  "show_groups gs = join_with '':'' (map show_hex gs)"

fun show_ip :: "ip_addr \<Rightarrow> string" where
  "show_ip (V4 os) = show_v4 os"
| "show_ip (V6 gs) =
     (if take 6 gs = [0, 0, 0, 0, 0, 65535]
      then ''::ffff:'' @ show_v4 [gs ! 6 div 256, gs ! 6 mod 256, gs ! 7 div 256, gs ! 7 mod 256]
      else let (start, len) = longest_zeros gs
           in if len > 1 then show_groups (take start gs) @ ''::'' @ show_groups (drop (start + len) gs)
              else show_groups gs)"

subsection \<open>The extractor\<close>

text \<open>\<open>HeaderValue::to_str\<close>: the value as text, when all its bytes are visible ASCII or tabs.\<close>

definition visible_ascii :: "string \<Rightarrow> bool" where
  "visible_ascii v \<longleftrightarrow> list_all (\<lambda>c. let b = of_char c :: int in (32 \<le> b \<and> b < 127) \<or> b = 9) v"

definition header_to_str :: "string \<Rightarrow> string option" where
  "header_to_str v = (if visible_ascii v then Some v else None)"

text \<open>\<open>from_xff\<close>: of the header's bytes (the first header, if it is repeated), the last element that is an
  address and not a trusted proxy; nothing at all if a byte anywhere in the value is not visible.\<close>

definition from_xff :: "ip_addr list \<Rightarrow> string option \<Rightarrow> ip_addr option" where
  "from_xff trusted header = Option.bind (Option.bind header header_to_str) (\<lambda>v.
     find (\<lambda>ip. ip \<notin> set trusted) (List.map_filter (\<lambda>s. parse_ip (trim s)) (rev (split_on (CHR '','') v))))"

definition client_ip :: "ip_addr list \<Rightarrow> ip_addr option \<Rightarrow> string option \<Rightarrow> string" where
  "client_ip trusted peer xff = (case peer of
       None \<Rightarrow> ''0.0.0.0''
     | Some p \<Rightarrow> if p \<in> set trusted
         then show_ip (case from_xff trusted xff of Some ip \<Rightarrow> ip | None \<Rightarrow> p)
         else show_ip p)"

subsection \<open>Facts\<close>

lemma split_on_append: "c \<notin> set b \<Longrightarrow> split_on c (a @ c # b) = split_on c a @ [b]"
proof (induction a)
  case Nil
  have "c \<notin> set b \<Longrightarrow> split_on c b = [b]" for b by (induction b) auto
  with Nil show ?case by simp
next
  case (Cons x a)
  have "split_on c a \<noteq> []" for a by (induction a) (auto split: list.split)
  with Cons show ?case by (cases "split_on c a") auto
qed

lemma visible_append [simp]: "visible_ascii (a @ b) \<longleftrightarrow> visible_ascii a \<and> visible_ascii b"
  by (simp add: visible_ascii_def)

lemma visible_comma [simp]: "visible_ascii (CHR '','' # v) \<longleftrightarrow> visible_ascii v"
  by (simp add: visible_ascii_def)

text \<open>Elements before the last, whatever they are, do not matter.\<close>

lemma from_xff_last:
  assumes "CHR '','' \<notin> set real" and "parse_ip (trim real) = Some ip" and "ip \<notin> set trusted"
    and "visible_ascii (claimed @ real)"
  shows "from_xff trusted (Some (claimed @ '','' @ real)) = Some ip"
  using split_on_append [OF assms(1), of claimed] assms(2-)
  by (simp add: from_xff_def header_to_str_def map_filter_simps)

lemma from_xff_skip:
  assumes "CHR '','' \<notin> set hop" and "parse_ip (trim hop) = None \<or> (\<exists>p\<in>set trusted. parse_ip (trim hop) = Some p)"
    and "visible_ascii hop"
  shows "from_xff trusted (Some (v @ '','' @ hop)) = from_xff trusted (Some v)"
  using split_on_append [OF assms(1), of v] assms(2-)
  by (auto simp: from_xff_def header_to_str_def map_filter_simps)

lemma from_xff_invisible: "\<not> visible_ascii v \<Longrightarrow> from_xff trusted (Some (v @ w)) = None"
  by (simp add: from_xff_def header_to_str_def)

subsection \<open>Properties\<close>

text \<open>C40. A client cannot choose its rate-limit key freely. If the connecting peer is not a configured proxy,
  the key is the peer's address whatever the header says. Behind trusted proxies that append the
  address they saw, whatever bytes the client sent to the left of it, the key is the first address
  from the right that is no proxy's, with proxies' and malformed hops behind it skipped, or else the
  connecting proxy's own address: that exactly when the client's part has a byte that is not visible
  ASCII, which makes the extractor drop the whole header.\<close>

theorem client_ip_unspoofable:
  assumes "CHR '','' \<notin> set real" and "parse_ip (trim real) = Some ip" and "ip \<notin> set trusted" and "visible_ascii real"
    and "\<forall>hop\<in>set hops. CHR '','' \<notin> set hop \<and> visible_ascii hop \<and>
           (parse_ip (trim hop) = None \<or> (\<exists>p\<in>set trusted. parse_ip (trim hop) = Some p))"
  shows "(\<forall>xff p. p \<notin> set trusted \<longrightarrow> client_ip trusted (Some p) xff = show_ip p) \<and>
    (\<forall>p claimed. p \<in> set trusted \<longrightarrow>
       client_ip trusted (Some p) (Some (claimed @ '','' @ real @ concat (map (\<lambda>h. '','' @ h) hops))) =
         show_ip (if visible_ascii claimed then ip else p))"
proof -
  have seen: "from_xff trusted (Some ((claimed @ '','' @ real) @ concat (map (\<lambda>h. '','' @ h) hops))) = Some ip"
    if "visible_ascii claimed" for claimed
    using assms(5)
  proof (induction hops rule: rev_induct)
    case Nil
    then show ?case using from_xff_last [OF assms(1-3), of claimed] that assms(4) by simp
  next
    case (snoc h hs)
    then have "from_xff trusted (Some (((claimed @ '','' @ real) @ concat (map (\<lambda>h. '','' @ h) hs)) @ '','' @ h)) =
        from_xff trusted (Some ((claimed @ '','' @ real) @ concat (map (\<lambda>h. '','' @ h) hs)))"
      by (intro from_xff_skip) auto
    with snoc show ?case by simp
  qed
  have hidden: "from_xff trusted (Some (claimed @ '','' @ real @ concat (map (\<lambda>h. '','' @ h) hops))) = None"
    if "\<not> visible_ascii claimed" for claimed using from_xff_invisible [OF that] .
  show ?thesis using seen hidden by (simp add: client_ip_def)
qed

text \<open>One invisible byte, and the key is the proxy's.\<close>

lemma invisible_byte_takes_proxy_key:
  "client_ip [V4 [127, 0, 0, 1]] (Some (V4 [127, 0, 0, 1])) (Some ([CHR 0xFF] @ '',203.0.113.7'')) = ''127.0.0.1''"
proof -
  have "\<not> visible_ascii [CHR 0xFF]" by code_simp
  from from_xff_invisible [OF this] show ?thesis
    by (simp add: client_ip_def show_v4_def) code_simp
qed

lemma parse_samples:
  "parse_ip ''203.0.113.7'' = Some (V4 [203, 0, 113, 7])" "parse_ip ''::1'' = Some (V6 [0, 0, 0, 0, 0, 0, 0, 1])"
  "parse_ip ''::ffff:1.2.3.4'' = Some (V6 [0, 0, 0, 0, 0, 65535, 258, 772])" "parse_ip ''1.2.3.04'' = None"
  "parse_ip ''2001:db8::1:0:0:1'' = Some (V6 [8193, 3512, 0, 0, 1, 0, 0, 1])" "parse_ip ''1::2::3'' = None"
  by code_simp+

lemma show_samples:
  "show_ip (V6 [8193, 3512, 0, 0, 1, 0, 0, 1]) = ''2001:db8::1:0:0:1''" "show_ip (V6 [0, 0, 0, 0, 0, 65535, 258, 772]) = ''::ffff:1.2.3.4''"
  "show_ip (V6 [0, 0, 0, 0, 0, 0, 0, 1]) = ''::1''" "show_ip (V4 [203, 0, 113, 7]) = ''203.0.113.7''"
  by code_simp+

lemma client_ip_unspoofable_witness:
  "client_ip [V4 [127, 0, 0, 1]] (Some (V4 [127, 0, 0, 1])) (Some ''9.9.9.9, 203.0.113.7,127.0.0.1'') = ''203.0.113.7''"
proof -
  have t: "trim '' 203.0.113.7'' = ''203.0.113.7''" "trim ''127.0.0.1'' = ''127.0.0.1''" by code_simp+
  have p: "parse_ip ''127.0.0.1'' = Some (V4 [127, 0, 0, 1])" by code_simp
  let ?t = "[V4 [127, 0, 0, 1]]"
  have "CHR '','' \<notin> set '' 203.0.113.7''" "parse_ip (trim '' 203.0.113.7'') = Some (V4 [203, 0, 113, 7])"
    "V4 [203, 0, 113, 7] \<notin> set ?t" "visible_ascii '' 203.0.113.7''" "\<forall>hop\<in>set [''127.0.0.1'']. CHR '','' \<notin> set hop \<and> visible_ascii hop \<and>
      (parse_ip (trim hop) = None \<or> (\<exists>p\<in>set ?t. parse_ip (trim hop) = Some p))"
    by (simp_all add: t p parse_samples visible_ascii_def)
  note key = client_ip_unspoofable [OF this, THEN conjunct2, THEN spec, THEN spec, of "V4 [127, 0, 0, 1]" "''9.9.9.9''"]
  have "visible_ascii ''9.9.9.9''" by (simp add: visible_ascii_def)
  with key show ?thesis by (simp add: show_samples del: show_ip.simps)
qed

end
