(* ===== verification/Relay_Config.thy ===== *)
theory Relay_Config
  imports Client_Ip Entitlements Rate_Limit
begin

text \<open>
  The relay's configuration: \<open>crates/yapstack-server/src/config.rs\<close> and the parts of \<open>AppState::new\<close>
  (\<open>state.rs\<close>) that are computed from it. The TOML reader is not modelled: a section that is
  absent has the value its \<open>serde\<close> default gives. The environment is an argument, a map from names
  to values.
\<close>

type_synonym environment = "string \<Rightarrow> string option"

record ratelimit_config =
  rlc_push :: nat
  rlc_login :: nat
  rlc_signup :: nat

definition ratelimit_default :: ratelimit_config where
  "ratelimit_default = \<lparr>rlc_push = 120, rlc_login = 10, rlc_signup = 5\<rparr>"

record gc_config =
  gcc_enabled :: bool
  gcc_interval_secs :: int
  gcc_grace_secs :: int

definition gc_default :: gc_config where
  "gc_default = \<lparr>gcc_enabled = True, gcc_interval_secs = 86400, gcc_grace_secs = 604800\<rparr>"

record limits_config =
  lc_admin_public_key :: string
  lc_help_url :: "string option"
  lc_default :: limit_defaults

record config =
  cfg_bind_addr :: string
  cfg_limits :: "limits_config option"
  cfg_ratelimit :: ratelimit_config
  cfg_trusted_proxies :: "string list"
  cfg_gc :: gc_config

definition default_bind_addr :: string where
  "default_bind_addr = ''0.0.0.0:8080''"

subsection \<open>GC settings\<close>

definition env_u64 :: "environment \<Rightarrow> string \<Rightarrow> int option" where
  "env_u64 env key = Option.bind (env key) (\<lambda>s. parse_u64 (trim s))"

definition env_bool :: "environment \<Rightarrow> string \<Rightarrow> bool option" where
  "env_bool env key = Option.bind (env key) (\<lambda>s. let v = lower_str (trim s) in
     if v \<in> {''1'', ''true'', ''yes'', ''on''} then Some True
     else if v \<in> {''0'', ''false'', ''no'', ''off''} then Some False else None)"

definition gc_resolved :: "environment \<Rightarrow> gc_config \<Rightarrow> gc_config" where
  "gc_resolved env g = \<lparr>
     gcc_enabled = (case env_bool env ''YAPSTACK_GC_ENABLED'' of Some b \<Rightarrow> b | None \<Rightarrow> gcc_enabled g),
     gcc_interval_secs = (case env_u64 env ''YAPSTACK_GC_INTERVAL_SECS'' of Some n \<Rightarrow> n | None \<Rightarrow> gcc_interval_secs g),
     gcc_grace_secs = (case env_u64 env ''YAPSTACK_GC_GRACE_SECS'' of Some n \<Rightarrow> n | None \<Rightarrow> gcc_grace_secs g)\<rparr>"

text \<open>\<open>chrono::Duration::seconds\<close> is an argument: it is documented to panic (\<open>None\<close>) above
  \<open>i64::MAX / 1000\<close> seconds and below the corresponding minimum.\<close>

definition duration_law :: "(int \<Rightarrow> timestamp option) \<Rightarrow> bool" where
  "duration_law duration_seconds \<longleftrightarrow>
     (\<forall>n. duration_seconds n = (if \<bar>n\<bar> \<le> i64_max div 1000 then Some (seconds n) else None))"

definition gc_grace :: "(int \<Rightarrow> timestamp option) \<Rightarrow> gc_config \<Rightarrow> timestamp option" where
  "gc_grace duration_seconds g = duration_seconds (to_i64_sat (gcc_grace_secs g))"

text \<open>What \<open>gc::spawn\<close> does at start-up: nothing, a panic, or a sweeper with its grace and interval.\<close>

datatype gc_start = NoSweeper | SpawnPanics | Sweeper timestamp int

definition gc_spawn :: "(int \<Rightarrow> timestamp option) \<Rightarrow> environment \<Rightarrow> gc_config \<Rightarrow> storage_config option \<Rightarrow> gc_start" where
  "gc_spawn duration_seconds env g storage =
     (let gc = gc_resolved env g
      in if \<not> gcc_enabled gc then NoSweeper
         else case storage of None \<Rightarrow> NoSweeper
         | Some _ \<Rightarrow> (case gc_grace duration_seconds gc of
               None \<Rightarrow> SpawnPanics | Some grace \<Rightarrow> Sweeper grace (max 1 (gcc_interval_secs gc))))"

subsection \<open>The other settings\<close>

definition trusted_proxy_ips :: "config \<Rightarrow> ip_addr list" where
  "trusted_proxy_ips c = List.map_filter (\<lambda>s. parse_ip (trim s)) (cfg_trusted_proxies c)"

definition signup_invite :: "environment \<Rightarrow> string option" where
  "signup_invite env = (case map_option trim (env ''YAPSTACK_SIGNUP_INVITE'') of
       Some s \<Rightarrow> if s = [] then None else Some s | None \<Rightarrow> None)"

fun config_prefix :: "string \<Rightarrow> string \<Rightarrow> string option" where
  "config_prefix [] s = Some s"
| "config_prefix (p # ps) [] = None"
| "config_prefix (p # ps) (c # s) = (if p = c then config_prefix ps s else None)"

definition admin_public_key_bytes :: "crates \<Rightarrow> config \<Rightarrow> bytes option" where
  "admin_public_key_bytes X c = Option.bind (cfg_limits c) (\<lambda>l.
     Option.bind (config_prefix ''ed25519:'' (lc_admin_public_key l)) (\<lambda>raw.
     Option.bind (b64_dec X raw) (\<lambda>b. if length b = 32 then Some b else None)))"

definition config_help_url :: "config \<Rightarrow> string" where
  "config_help_url c = (case Option.bind (cfg_limits c) lc_help_url of Some u \<Rightarrow> u | None \<Rightarrow> [])"

definition limits_enabled :: "config \<Rightarrow> bool" where
  "limits_enabled c \<longleftrightarrow> cfg_limits c \<noteq> None"

text \<open>\<open>AppState::new\<close>: the limit source and the three limiters.\<close>

definition limit_source_of :: "config \<Rightarrow> limit_source" where
  "limit_source_of c = (case cfg_limits c of Some l \<Rightarrow> StoredLimits (lc_default l) | None \<Rightarrow> AllowAll)"

definition limiters_of :: "config \<Rightarrow> limiter \<times> limiter \<times> limiter" where
  "limiters_of c = (limiter_new (rlc_push (cfg_ratelimit c)), limiter_new (rlc_login (cfg_ratelimit c)),
     limiter_new (rlc_signup (cfg_ratelimit c)))"

definition admin_enabled :: "crates \<Rightarrow> config \<Rightarrow> bool" where
  "admin_enabled X c \<longleftrightarrow> admin_public_key_bytes X c \<noteq> None"

subsection \<open>Properties\<close>

text \<open>Which settings stop the relay. A malformed variable never does: the configured value stands. A
  well-formed grace period does, exactly when it exceeds \<open>i64::MAX / 1000\<close> seconds: then \<open>gc::spawn\<close>
  panics while the router is built, although the setting is a valid number of seconds. Otherwise
  the sweeper gets the configured grace and an interval of at least one second.\<close>

theorem gc_settings_start:
  assumes "duration_law dur" and "0 \<le> gcc_grace_secs g"
  shows "gc_spawn dur env g storage =
    (if gcc_enabled (gc_resolved env g) \<and> storage \<noteq> None
     then (if gcc_grace_secs (gc_resolved env g) \<le> 9223372036854775
           then Sweeper (seconds (gcc_grace_secs (gc_resolved env g))) (max 1 (gcc_interval_secs (gc_resolved env g)))
           else SpawnPanics)
     else NoSweeper) \<and>
    (\<forall>v. env ''YAPSTACK_GC_GRACE_SECS'' = Some v \<and> parse_u64 (trim v) = None \<longrightarrow>
       gcc_grace_secs (gc_resolved env g) = gcc_grace_secs g)"
proof -
  obtain c where c: "c = gc_resolved env g" by blast
  have "0 \<le> n" if "env_u64 env k = Some n" for k n
    using that by (auto simp: env_u64_def bind_eq_Some_conv parse_u64_def dest: parse_unsigned_range)
  then have "0 \<le> gcc_grace_secs c"
    using assms(2) by (simp add: c gc_resolved_def split: option.split)
  then have "dur (to_i64_sat (gcc_grace_secs c)) =
      (if gcc_grace_secs c \<le> 9223372036854775 then Some (seconds (gcc_grace_secs c)) else None)"
    using assms(1) by (auto simp: duration_law_def to_i64_sat_def i64_max_def)
  then have "gc_spawn dur env g storage =
    (if gcc_enabled c \<and> storage \<noteq> None
     then (if gcc_grace_secs c \<le> 9223372036854775 then Sweeper (seconds (gcc_grace_secs c)) (max 1 (gcc_interval_secs c))
           else SpawnPanics) else NoSweeper)"
    by (simp add: gc_spawn_def Let_def gc_grace_def c [symmetric] split: option.split)
  moreover have "gcc_grace_secs c = gcc_grace_secs g"
    if "env ''YAPSTACK_GC_GRACE_SECS'' = Some v" "parse_u64 (trim v) = None" for v
    using that by (simp add: c gc_resolved_def env_u64_def)
  ultimately show ?thesis unfolding c by blast
qed

definition toy_duration :: "int \<Rightarrow> timestamp option" where
  "toy_duration n = (if \<bar>n\<bar> \<le> i64_max div 1000 then Some (seconds n) else None)"

lemma toy_duration_law: "duration_law toy_duration"
  by (simp add: duration_law_def toy_duration_def)

lemma gc_settings_start_witness:
  "gc_spawn toy_duration (\<lambda>k. if k = ''YAPSTACK_GC_GRACE_SECS'' then Some ''9223372036854776'' else None) gc_default
     (Some sample_storage) = SpawnPanics"
proof -
  have t: "trim ''9223372036854776'' = ''9223372036854776''" by code_simp
  have p: "parse_u64 (trim ''9223372036854776'') = Some 9223372036854776" unfolding t
    by (simp add: parse_u64_def parse_unsigned_def parse_digits_def digit_value_def u64_max_def)
  show ?thesis
    using gc_settings_start [OF toy_duration_law,
        where env = "\<lambda>k. if k = ''YAPSTACK_GC_GRACE_SECS'' then Some ''9223372036854776'' else None"
          and g = gc_default and storage = "Some sample_storage"]
    by (simp add: gc_resolved_def env_u64_def env_bool_def p gc_default_def to_i64_sat_def i64_max_def)
qed

text \<open>The self-host default: without a \<open>[limits]\<close> section nothing is limited and the admin API is off,
  and a malformed admin key turns the admin API off without touching the limits.\<close>

theorem config_self_host:
  "cfg_limits c = None \<Longrightarrow> limit_source_of c = AllowAll \<and> \<not> admin_enabled X c \<and> config_help_url c = []"
  by (simp add: limit_source_of_def admin_enabled_def admin_public_key_bytes_def config_help_url_def)

end
