(* ===== verification/Envelopes.thy ===== *)
theory Envelopes
  imports Crates "HOL-Library.Sublist"
begin

text \<open>
  The encrypted envelopes of \<open>crates/yapstack-crypto\<close>: the standard and the committing envelope
  of \<open>aead.rs\<close>, and the streamed audio blob of \<open>audio_stream.rs\<close> with its readers, writers, key
  wrap and segment framing. The cipher and the STREAM construction are third-party code: they are
  the functions of the record \<open>aead\<close>, with their documented behaviour as hypotheses
  (\<open>aead_law\<close>, \<open>stream_law\<close>). The random keys and nonces are arguments.

  An outcome is \<open>None\<close> when the code panics, and else an error or a value. A reader is the
  list of what its next calls deliver, a writer the bytes it took and the room it has left.
\<close>

record aead =
  aead_encrypt :: "bytes \<Rightarrow> bytes \<Rightarrow> bytes \<Rightarrow> bytes \<Rightarrow> bytes option"
  aead_decrypt :: "bytes \<Rightarrow> bytes \<Rightarrow> bytes \<Rightarrow> bytes \<Rightarrow> bytes option"
  stream_encrypt :: "bytes \<Rightarrow> bytes \<Rightarrow> nat \<Rightarrow> bool \<Rightarrow> bytes \<Rightarrow> bytes \<Rightarrow> bytes option"
  stream_decrypt :: "bytes \<Rightarrow> bytes \<Rightarrow> nat \<Rightarrow> bool \<Rightarrow> bytes \<Rightarrow> bytes \<Rightarrow> bytes option"

text \<open>Arguments: key, nonce (or nonce prefix, position and last flag), associated data, text. A
  ciphertext is sixteen bytes longer, and opens to its text under the same arguments.\<close>

definition aead_law :: "aead \<Rightarrow> bool" where
  "aead_law A \<longleftrightarrow> (\<forall>k n a m. \<exists>c. aead_encrypt A k n a m = Some c \<and> length c = length m + 16 \<and>
     aead_decrypt A k n a c = Some m)"

text \<open>The segment counter of \<open>StreamBE32\<close> is 32 bits wide.\<close>

definition stream_law :: "aead \<Rightarrow> bool" where
  "stream_law A \<longleftrightarrow> (\<forall>k p i l a m. i < 2 ^ 32 - 1 \<longrightarrow> (\<exists>c. stream_encrypt A k p i l a m = Some c \<and>
     length c = length m + 16 \<and> stream_decrypt A k p i l a c = Some m))"

type_synonym 'a outcome = "(crypto_error + 'a) option"

definition c_bind :: "'a outcome \<Rightarrow> ('a \<Rightarrow> 'b outcome) \<Rightarrow> 'b outcome" where
  "c_bind m f = (case m of None \<Rightarrow> None | Some (Inl e) \<Rightarrow> Some (Inl e) | Some (Inr x) \<Rightarrow> f x)"

definition no_panic :: "'a option \<Rightarrow> 'a outcome" where
  "no_panic = map_option Inr"

lemma c_bind_simps [simp]:
  "c_bind None f = None" "c_bind (Some (Inl e)) f = Some (Inl e)" "c_bind (Some (Inr x)) f = f x"
  by (simp_all add: c_bind_def)

lemma no_panic_simps [simp]: "no_panic None = None" "no_panic (Some x) = Some (Inr x)"
  by (simp_all add: no_panic_def)

lemma c_bind_Inr [result_simps]:
  "c_bind m f = Some (Inr y) \<longleftrightarrow> (\<exists>x. m = Some (Inr x) \<and> f x = Some (Inr y))"
  by (auto simp: c_bind_def split: option.split sum.split)

lemma no_panic_Inr [result_simps]: "no_panic x = Some (Inr y) \<longleftrightarrow> x = Some y"
  by (cases x) simp_all

subsection \<open>The two envelopes\<close>

definition envelope_version :: "8 word" where
  "envelope_version = 1"

definition commit_info :: bytes where
  "commit_info = str_bytes ''yapstack.commit.v1''"

definition seal_standard :: "aead \<Rightarrow> bytes \<Rightarrow> bytes \<Rightarrow> bytes \<Rightarrow> bytes \<Rightarrow> crypto_error + bytes" where
  "seal_standard A key nonce plaintext aad =
     bind_result (ok_or (aead_encrypt A key nonce aad plaintext) Seal) (\<lambda>ct.
       Inr ([envelope_version] @ nonce @ ct))"

definition open_standard :: "aead \<Rightarrow> bytes \<Rightarrow> bytes \<Rightarrow> bytes \<Rightarrow> crypto_error + bytes" where
  "open_standard A key blob aad =
     (if length blob < 1 + 24 + 16 then Inl Malformed
      else if blob ! 0 \<noteq> envelope_version then Inl (Version (blob ! 0))
      else ok_or (aead_decrypt A key (take 24 (drop 1 blob)) aad (drop 25 blob)) Open)"

definition seal_committing :: "crates \<Rightarrow> aead \<Rightarrow> bytes \<Rightarrow> bytes \<Rightarrow> bytes \<Rightarrow> bytes \<Rightarrow> bytes outcome" where
  "seal_committing X A k_root nonce plaintext aad =
     c_bind (no_panic (hkdf_extract_expand X nonce k_root commit_info 64)) (\<lambda>okm.
       Some (bind_result (ok_or (aead_encrypt A (take 32 (drop 32 okm)) nonce aad plaintext) Seal) (\<lambda>ct.
         Inr ([envelope_version] @ take 32 okm @ nonce @ ct))))"

definition open_committing :: "crates \<Rightarrow> aead \<Rightarrow> bytes \<Rightarrow> bytes \<Rightarrow> bytes \<Rightarrow> bytes outcome" where
  "open_committing X A k_root blob aad =
     (if length blob < 1 + 32 + 24 + 16 then Some (Inl Malformed)
      else if blob ! 0 \<noteq> envelope_version then Some (Inl (Version (blob ! 0)))
      else let commitment = take 32 (drop 1 blob); nonce = take 24 (drop 33 blob); ct = drop 57 blob
        in c_bind (no_panic (hkdf_extract_expand X nonce k_root commit_info 64)) (\<lambda>okm.
             Some (if \<not> ct_eq (take 32 okm) commitment then Inl Commitment
               else ok_or (aead_decrypt A (take 32 (drop 32 okm)) nonce aad ct) Open)))"

subsection \<open>Readers and writers\<close>

datatype read_event = Chunk bytes | Interrupted | Broken string

text \<open>\<open>read_full\<close>: an empty read is the end, an interrupted call is repeated.\<close>

fun read_full :: "nat \<Rightarrow> read_event list \<Rightarrow> (crypto_error + bytes) \<times> read_event list" where
  "read_full want [] = (Inr [], [])"
| "read_full want (ev # src) =
     (if want = 0 then (Inr [], ev # src)
      else case ev of
        Interrupted \<Rightarrow> read_full want src
      | Broken e \<Rightarrow> (Inl (Io e), src)
      | Chunk bs \<Rightarrow>
          if bs = [] then (Inr [], src)
          else if length bs \<le> want then
            (case read_full (want - length bs) src of
               (Inl e, src') \<Rightarrow> (Inl e, src') | (Inr rest, src') \<Rightarrow> (Inr (bs @ rest), src'))
          else (Inr (take want bs), Chunk (drop want bs) # src))"

definition read_exact_or :: "nat \<Rightarrow> read_event list \<Rightarrow> (crypto_error + bytes) \<times> read_event list" where
  "read_exact_or want src = (case read_full want src of
       (Inl e, src') \<Rightarrow> (Inl e, src')
     | (Inr bs, src') \<Rightarrow> (if length bs \<noteq> want then Inl Malformed else Inr bs, src'))"

record sink =
  sk_out :: bytes
  sk_room :: "nat option"

definition sink_write_all :: "bytes \<Rightarrow> sink \<Rightarrow> (crypto_error + unit) \<times> sink" where
  "sink_write_all bs d = (case sk_room d of
       None \<Rightarrow> (Inr (), d\<lparr>sk_out := sk_out d @ bs\<rparr>)
     | Some r \<Rightarrow>
         if length bs \<le> r then (Inr (), d\<lparr>sk_out := sk_out d @ bs, sk_room := Some (r - length bs)\<rparr>)
         else (Inl (Io ''write''), d\<lparr>sk_out := sk_out d @ take r bs, sk_room := Some 0\<rparr>))"

text \<open>The size that every read of a byte or more makes smaller.\<close>

fun reader_size :: "read_event list \<Rightarrow> nat" where
  "reader_size [] = 0"
| "reader_size (Chunk bs # src) = Suc (length bs) + reader_size src"
| "reader_size (ev # src) = Suc (reader_size src)"

lemma read_full_size: "read_full want src = (r, src') \<Longrightarrow> reader_size src' \<le> reader_size src"
  by (induction want src arbitrary: r rule: read_full.induct)
    (fastforce split: read_event.splits if_splits prod.splits sum.splits)+

lemma read_full_progress:
  "read_full want src = (Inr bs, src') \<Longrightarrow> bs \<noteq> [] \<Longrightarrow> reader_size src' < reader_size src"
proof (induction want src arbitrary: bs rule: read_full.induct)
  case (2 want ev src)
  then show ?case
    using read_full_size [of "want - length _" src]
    by (cases ev) (fastforce split: if_splits prod.splits sum.splits)+
qed simp

subsection \<open>The streamed audio blob\<close>

record audio_identity =
  ai_tenant :: uuid
  ai_session :: uuid
  ai_part :: uuid
  ai_epoch :: "32 word"

definition wrap_audio_domain :: bytes where
  "wrap_audio_domain = str_bytes ''yapstack.wrap.audio.stream.v1''"

definition wrap_aad_fields :: "audio_identity \<Rightarrow> bytes list" where
  "wrap_aad_fields i = [[envelope_version], wrap_audio_domain, uuid_bytes (ai_tenant i),
     uuid_bytes (ai_session i), uuid_bytes (ai_part i), u32_be (unat (ai_epoch i))]"

definition wrap_aad :: "audio_identity \<Rightarrow> bytes option" where
  "wrap_aad i = lp (wrap_aad_fields i)"

definition audio_stream_version :: "8 word" where
  "audio_stream_version = 1"

definition audio_chunk_size :: "32 word" where
  "audio_chunk_size = 1024 * 1024"

definition stream_tag_len :: nat where
  "stream_tag_len = 16"

definition audio_header_len :: nat where
  "audio_header_len = 1 + 4 + 19"

definition max_chunk_size :: nat where
  "max_chunk_size = 64 * 1024 * 1024"

definition max_wrapped_key_len :: nat where
  "max_wrapped_key_len = 4096"

definition audio_header :: "32 word \<Rightarrow> bytes \<Rightarrow> bytes" where
  "audio_header chunk_size nonce_prefix =
     [audio_stream_version] @ u32_be (unat chunk_size) @ nonce_prefix"

definition wrap_audio_key :: "crates \<Rightarrow> aead \<Rightarrow> bytes \<Rightarrow> bytes \<Rightarrow> bytes \<Rightarrow> audio_identity \<Rightarrow> bytes outcome" where
  "wrap_audio_key X A vault_key data_key wrap_nonce i =
     c_bind (no_panic (wrap_aad i)) (seal_committing X A vault_key wrap_nonce data_key)"

definition unwrap_audio_key :: "crates \<Rightarrow> aead \<Rightarrow> bytes \<Rightarrow> bytes \<Rightarrow> audio_identity \<Rightarrow> bytes outcome" where
  "unwrap_audio_key X A vault_key wrapped i =
     c_bind (no_panic (wrap_aad i)) (\<lambda>aad.
       c_bind (open_committing X A vault_key wrapped aad) (\<lambda>pt.
         Some (if length pt \<noteq> 32 then Inl Malformed else Inr pt)))"

text \<open>
  The loop of \<open>seal_segments\<close> and of \<open>open_segments\<close>, which are the same but for the
  operation on a segment (\<open>encrypt_next\<close> or \<open>decrypt_next\<close>, at the position the cipher counts), the
  error it is mapped to and the buffer's length. One segment is held back, since only the end
  of the source tells that it is the last.
\<close>

definition emit_pending :: "(nat \<Rightarrow> bytes \<Rightarrow> bytes option) \<Rightarrow> crypto_error \<Rightarrow> nat \<Rightarrow> bytes option \<Rightarrow> sink
    \<Rightarrow> (crypto_error + nat) \<times> sink" where
  "emit_pending f err pos pending d = (case pending of
       None \<Rightarrow> (Inr pos, d)
     | Some prev \<Rightarrow> (case f pos prev of
           None \<Rightarrow> (Inl err, d)
         | Some seg \<Rightarrow> (case sink_write_all seg d of
               (Inl e, d') \<Rightarrow> (Inl e, d') | (Inr _, d') \<Rightarrow> (Inr (pos + 1), d'))))"

function segment_loop :: "(nat \<Rightarrow> bytes \<Rightarrow> bytes option) \<Rightarrow> crypto_error \<Rightarrow> nat \<Rightarrow> nat \<Rightarrow> bytes option
    \<Rightarrow> read_event list \<Rightarrow> sink \<Rightarrow> (crypto_error + nat \<times> bytes option) \<times> sink" where
  "segment_loop f err len pos pending src d = (case read_full len src of
       (Inl e, _) \<Rightarrow> (Inl e, d)
     | (Inr buf, src') \<Rightarrow>
         if buf = [] then (Inr (pos, pending), d)
         else (case emit_pending f err pos pending d of
             (Inl e, d') \<Rightarrow> (Inl e, d')
           | (Inr pos', d') \<Rightarrow>
               if length buf < len then (Inr (pos', Some buf), d')
               else segment_loop f err len pos' (Some buf) src' d'))"
  by pat_completeness auto
termination
  by (relation "measure (\<lambda>(f, err, len, pos, pending, src, d). reader_size src)")
    (auto dest: read_full_progress [OF sym])

declare segment_loop.simps [simp del]

definition seal_segments :: "aead \<Rightarrow> bytes \<Rightarrow> bytes \<Rightarrow> 32 word \<Rightarrow> read_event list \<Rightarrow> sink
    \<Rightarrow> (crypto_error + unit) \<times> sink" where
  "seal_segments A data_key nonce_prefix chunk_size src d =
     (if chunk_size = 0 then (Inl Malformed, d)
      else let header = audio_header chunk_size nonce_prefix in
        case sink_write_all header d of
          (Inl e, d1) \<Rightarrow> (Inl e, d1)
        | (Inr _, d1) \<Rightarrow>
            (case segment_loop (\<lambda>i m. stream_encrypt A data_key nonce_prefix i False header m) Seal
                (unat chunk_size) 0 None src d1 of
              (Inl e, d2) \<Rightarrow> (Inl e, d2)
            | (Inr (pos, pending), d2) \<Rightarrow>
                (case stream_encrypt A data_key nonce_prefix pos True header
                    (case pending of None \<Rightarrow> [] | Some m \<Rightarrow> m) of
                  None \<Rightarrow> (Inl Seal, d2)
                | Some seg \<Rightarrow> sink_write_all seg d2)))"

definition open_segments :: "aead \<Rightarrow> read_event list \<Rightarrow> bytes \<Rightarrow> sink \<Rightarrow> (crypto_error + unit) \<times> sink" where
  "open_segments A src data_key d = (case read_exact_or audio_header_len src of
       (Inl e, _) \<Rightarrow> (Inl e, d)
     | (Inr header, src1) \<Rightarrow>
         if header ! 0 \<noteq> audio_stream_version then (Inl (Version (header ! 0)), d)
         else let chunk_size = from_be (take 4 (drop 1 header)); np = drop 5 header in
           if chunk_size = 0 \<or> chunk_size > max_chunk_size then (Inl Malformed, d)
           else (case segment_loop (\<lambda>i c. stream_decrypt A data_key np i False header c) Open
                 (chunk_size + stream_tag_len) 0 None src1 d of
               (Inl e, d1) \<Rightarrow> (Inl e, d1)
             | (Inr (pos, None), d1) \<Rightarrow> (Inl Malformed, d1)
             | (Inr (pos, Some lst), d1) \<Rightarrow>
                 (case stream_decrypt A data_key np pos True header lst of
                   None \<Rightarrow> (Inl Open, d1)
                 | Some pt \<Rightarrow> sink_write_all pt d1)))"

definition seal_blob :: "crates \<Rightarrow> aead \<Rightarrow> bytes \<Rightarrow> audio_identity \<Rightarrow> bytes \<Rightarrow> bytes \<Rightarrow> bytes
    \<Rightarrow> read_event list \<Rightarrow> sink \<Rightarrow> ((crypto_error + unit) \<times> sink) option" where
  "seal_blob X A vault_key i data_key nonce_prefix wrap_nonce src d =
     (case wrap_audio_key X A vault_key data_key wrap_nonce i of
        None \<Rightarrow> None
      | Some (Inl e) \<Rightarrow> Some (Inl e, d)
      | Some (Inr wrapped) \<Rightarrow> Some
          (if length wrapped \<ge> 2 ^ 32 then (Inl Seal, d)
           else case sink_write_all (u32_be (length wrapped)) d of
               (Inl e, d1) \<Rightarrow> (Inl e, d1)
             | (Inr _, d1) \<Rightarrow> (case sink_write_all wrapped d1 of
                   (Inl e, d2) \<Rightarrow> (Inl e, d2)
                 | (Inr _, d2) \<Rightarrow> seal_segments A data_key nonce_prefix audio_chunk_size src d2)))"

definition open_blob :: "crates \<Rightarrow> aead \<Rightarrow> bytes \<Rightarrow> audio_identity \<Rightarrow> read_event list \<Rightarrow> sink
    \<Rightarrow> ((crypto_error + unit) \<times> sink) option" where
  "open_blob X A vault_key i src d = (case read_exact_or 4 src of
       (Inl e, _) \<Rightarrow> Some (Inl e, d)
     | (Inr lenb, src1) \<Rightarrow>
         let wlen = from_be lenb in
         if wlen = 0 \<or> wlen > max_wrapped_key_len then Some (Inl Malformed, d)
         else (case read_exact_or wlen src1 of
             (Inl e, _) \<Rightarrow> Some (Inl e, d)
           | (Inr wrapped, src2) \<Rightarrow> (case unwrap_audio_key X A vault_key wrapped i of
                 None \<Rightarrow> None
               | Some (Inl e) \<Rightarrow> Some (Inl e, d)
               | Some (Inr data_key) \<Rightarrow> Some (open_segments A src2 data_key d))))"

subsection \<open>What a reader without faults delivers\<close>

fun content :: "read_event list \<Rightarrow> bytes" where
  "content [] = []"
| "content (Chunk bs # src) = bs @ content src"
| "content (ev # src) = content src"

text \<open>No fault and no early end: the chunks may be of any size.\<close>

definition faultless :: "read_event list \<Rightarrow> bool" where
  "faultless src \<longleftrightarrow> (\<forall>ev\<in>set src. case ev of Chunk bs \<Rightarrow> bs \<noteq> [] | Interrupted \<Rightarrow> True | Broken e \<Rightarrow> False)"

lemma faultless_simps [simp]:
  "faultless []" "faultless (Interrupted # src) \<longleftrightarrow> faultless src"
  "faultless (Chunk bs # src) \<longleftrightarrow> bs \<noteq> [] \<and> faultless src" "\<not> faultless (Broken e # src)"
  by (simp_all add: faultless_def)

lemma read_full_faultless:
  "faultless src \<Longrightarrow> \<exists>src'. read_full want src = (Inr (take want (content src)), src') \<and>
     faultless src' \<and> content src' = drop want (content src)"
proof (induction want src rule: read_full.induct)
  case (2 want ev src)
  show ?case
  proof (cases "want = 0")
    case False
    show ?thesis
    proof (cases ev)
      case (Chunk bs)
      with 2 have bs: "bs \<noteq> []" "faultless src" by simp_all
      show ?thesis
      proof (cases "length bs \<le> want")
        case True
        from 2(1) [OF False Chunk bs(1) True bs(2)] obtain src' where
          "read_full (want - length bs) src = (Inr (take (want - length bs) (content src)), src')"
          "faultless src'" "content src' = drop (want - length bs) (content src)" by blast
        with True False Chunk bs show ?thesis by simp
      qed (use Chunk bs False in auto)
    qed (use 2 False in auto)
  qed (use 2 in auto)
qed simp

lemma read_exact_faultless:
  assumes "faultless src" and "content src = a @ b" and "length a = n"
  shows "\<exists>src'. read_exact_or n src = (Inr a, src') \<and> faultless src' \<and> content src' = b"
  using read_full_faultless [OF assms(1), of n] assms(2,3) by (auto simp: read_exact_or_def)

text \<open>The chunks of a byte string: all full but for the last.\<close>

function segs :: "nat \<Rightarrow> bytes \<Rightarrow> bytes list" where
  "segs len bs = (if len = 0 \<or> bs = [] then [] else take len bs # segs len (drop len bs))"
  by pat_completeness auto
termination
  by (relation "measure (\<lambda>(len, bs). length bs)") auto

declare segs.simps [simp del]

lemma segs_simps [simp]: "segs len [] = []" "segs 0 bs = []"
  by (simp_all add: segs.simps)

lemma segs_Cons: "0 < len \<Longrightarrow> bs \<noteq> [] \<Longrightarrow> segs len bs = take len bs # segs len (drop len bs)"
  by (subst segs.simps) simp

lemma concat_segs [simp]: "0 < len \<Longrightarrow> concat (segs len bs) = bs"
  by (induction len bs rule: segs.induct) (subst segs.simps, simp)

lemma segs_length: "c \<in> set (segs len bs) \<Longrightarrow> 0 < length c \<and> length c \<le> len"
  by (induction len bs rule: segs.induct) (subst (asm) segs.simps, auto split: if_splits)

lemma length_segs: "0 < len \<Longrightarrow> len * length (segs len bs) < length bs + len"
proof (induction len bs rule: segs.induct)
  case (1 len bs)
  show ?case
  proof (cases "bs = []")
    case False
    with 1 have "len * length (segs len (drop len bs)) < length (drop len bs) + len" by simp
    moreover have "length (drop len bs) = 0 \<or> length (drop len bs) + len = length bs" by auto
    ultimately show ?thesis
      using 1(2) False by (cases "drop len bs = []") (auto simp: segs_Cons)
  qed (use 1 in simp)
qed

lemma segs_full: "segs len bs = pre @ [c] \<Longrightarrow> x \<in> set pre \<Longrightarrow> length x = len"
proof (induction len bs arbitrary: pre rule: segs.induct)
  case (1 len bs)
  show ?case
  proof (cases "len = 0 \<or> bs = []")
    case False
    then have eq: "take len bs # segs len (drop len bs) = pre @ [c]" using 1(2) by (simp add: segs_Cons)
    then obtain pre' where pre: "pre = take len bs # pre'" using 1(3) by (cases pre) auto
    with eq have rest: "segs len (drop len bs) = pre' @ [c]" by simp
    then have "drop len bs \<noteq> []" by auto
    then have "length (take len bs) = len" by simp
    with 1 False rest pre show ?thesis by auto
  qed (use 1 in auto)
qed

lemma segs_concat:
  "0 < len \<Longrightarrow> (\<And>x. x \<in> set pre \<Longrightarrow> length x = len) \<Longrightarrow> c \<noteq> [] \<Longrightarrow> length c \<le> len \<Longrightarrow>
   segs len (concat pre @ c) = pre @ [c]"
proof (induction pre)
  case Nil
  then show ?case by (simp add: segs_Cons)
next
  case (Cons x pre)
  then have "length x = len" "x \<noteq> []" by auto
  with Cons show ?case by (simp add: segs_Cons)
qed

subsection \<open>The loop over a faultless source\<close>

fun emits :: "(nat \<Rightarrow> bytes \<Rightarrow> bytes option) \<Rightarrow> nat \<Rightarrow> bytes list \<Rightarrow> bytes list \<Rightarrow> bool" where
  "emits f pos [] [] = True"
| "emits f pos (c # cs) (x # xs) \<longleftrightarrow> f pos c = Some x \<and> emits f (pos + 1) cs xs"
| "emits f pos _ _ = False"

definition opt_list :: "'a option \<Rightarrow> 'a list" where
  "opt_list x = (case x of None \<Rightarrow> [] | Some y \<Rightarrow> [y])"

lemma sink_write_unlimited [simp]:
  "sk_room d = None \<Longrightarrow> sink_write_all bs d = (Inr (), d\<lparr>sk_out := sk_out d @ bs\<rparr>)"
  by (simp add: sink_write_all_def)

lemma segment_loop_faultless:
  assumes "faultless src" and "sk_room d = None" and "0 < len"
    and "opt_list pending @ segs len (content src) = pre @ [c]" and "emits f pos pre outs"
  shows "segment_loop f err len pos pending src d =
    (Inr (pos + length pre, Some c), d\<lparr>sk_out := sk_out d @ concat outs\<rparr>)"
  using assms
proof (induction f err len pos pending src d arbitrary: pre outs rule: segment_loop.induct)
  case (1 f err len pos pending src d)
  obtain src' where rd: "read_full len src = (Inr (take len (content src)), src')"
    "faultless src'" "content src' = drop len (content src)"
    using read_full_faultless [OF 1(2)] by blast
  show ?case
  proof (cases "content src = []")
    case True
    then have "pending = Some c" "pre = []" using 1(5) by (auto simp: opt_list_def split: option.splits)
    with 1(6) True rd(1) show ?thesis by (subst segment_loop.simps) (cases outs, auto)
  next
    case False
    then have segs: "segs len (content src) = take len (content src) # segs len (content src')"
      using 1(4) rd(3) by (simp add: segs_Cons)
    define buf where "buf = take len (content src)"
    have buf: "buf \<noteq> []" using False 1(4) by (simp add: buf_def)
    obtain pre' outs' pos' d' where em: "emit_pending f err pos pending d = (Inr pos', d')"
      "pre = opt_list pending @ pre'" "pos' = pos + length (opt_list pending)"
      "d' = d\<lparr>sk_out := sk_out d @ concat (opt_list (case pending of None \<Rightarrow> None | Some p \<Rightarrow> f pos p))\<rparr>"
      "outs = opt_list (case pending of None \<Rightarrow> None | Some p \<Rightarrow> f pos p) @ outs'" "emits f pos' pre' outs'"
    proof (cases pending)
      case None
      then show ?thesis using 1(6) by (intro that [of pos d pre outs]) (auto simp: emit_pending_def opt_list_def)
    next
      case (Some p)
      with 1(5) segs obtain pre' where pre: "pre = p # pre'" by (cases pre) (auto simp: opt_list_def)
      with 1(6) obtain x outs' where "outs = x # outs'" "f pos p = Some x" "emits f (pos + 1) pre' outs'"
        by (cases outs) auto
      with Some pre 1(3) show ?thesis
        by (intro that [of "pos + 1" "d\<lparr>sk_out := sk_out d @ x\<rparr>" pre' outs'])
          (auto simp: emit_pending_def opt_list_def)
    qed
    have rest: "opt_list (Some buf) @ segs len (content src') = pre' @ [c]"
      using 1(5) segs em(2) by (simp add: opt_list_def buf_def)
    have room: "sk_room d' = None" using em(4) 1(3) by simp
    show ?thesis
    proof (cases "length buf < len")
      case True
      then have "content src' = []" using rd(3) by (auto simp: buf_def)
      with rest have "pre' = []" "c = buf" by (auto simp: opt_list_def)
      with em(6) have "outs' = []" by (cases outs') auto
      with True buf em rd(1) \<open>pre' = []\<close> \<open>c = buf\<close> show ?thesis
        by (subst segment_loop.simps) (auto simp: buf_def [symmetric])
    next
      case False
      have "segment_loop f err len pos' (Some buf) src' d' =
          (Inr (pos' + length pre', Some c), d'\<lparr>sk_out := sk_out d' @ concat outs'\<rparr>)"
        by (rule 1(1) [OF rd(1) [symmetric, folded buf_def] refl buf em(1) [symmetric] refl False
              rd(2) room 1(4) rest em(6)])
      with False buf em rd(1) show ?thesis
        by (subst segment_loop.simps) (simp add: buf_def [symmetric])
    qed
  qed
qed

subsection \<open>Sealing and opening\<close>

lemma hkdf_64: "hmac_law X \<Longrightarrow> \<exists>okm. hkdf_extract_expand X salt ikm info 64 = Some okm \<and> length okm = 64"
  using hkdf_expand_eq [of X 64 "hkdf_extract X salt ikm" info]
  by (auto simp: hkdf_extract_expand_def length_rfc_blocks)

lemma standard_roundtrip:
  assumes "aead_law A" and "length nonce = 24"
  shows "\<exists>blob. seal_standard A key nonce pt aad = Inr blob \<and> length blob = length pt + 41 \<and>
    open_standard A key blob aad = Inr pt"
proof -
  obtain c where "aead_encrypt A key nonce aad pt = Some c" "length c = length pt + 16"
    "aead_decrypt A key nonce aad c = Some pt" using assms(1) unfolding aead_law_def by blast
  with assms(2) show ?thesis by (simp add: seal_standard_def open_standard_def)
qed

lemma committing_roundtrip:
  assumes "hmac_law X" and "aead_law A" and "length nonce = 24"
  shows "\<exists>blob. seal_committing X A key nonce pt aad = Some (Inr blob) \<and> length blob = length pt + 73 \<and>
    open_committing X A key blob aad = Some (Inr pt)"
proof -
  obtain okm where okm: "hkdf_extract_expand X nonce key commit_info 64 = Some okm" "length okm = 64"
    using hkdf_64 [OF assms(1)] by blast
  obtain c where c: "aead_encrypt A (take 32 (drop 32 okm)) nonce aad pt = Some c" "length c = length pt + 16"
    "aead_decrypt A (take 32 (drop 32 okm)) nonce aad c = Some pt" using assms(2) unfolding aead_law_def by blast
  define blob where "blob = [envelope_version] @ take 32 okm @ nonce @ c"
  have blob: "take 32 (drop 1 blob) = take 32 okm" "take 24 (drop 33 blob) = nonce" "drop 57 blob = c"
    "blob ! 0 = envelope_version" "length blob = length pt + 73"
    using okm(2) c(2) assms(3) by (simp_all add: blob_def)
  have "seal_committing X A key nonce pt aad = Some (Inr blob)"
    using okm c(1) by (simp add: seal_committing_def blob_def)
  moreover have "open_committing X A key blob aad = Some (Inr pt)"
    unfolding open_committing_def Let_def blob using okm(1) c(3) by (simp add: ct_eq_iff)
  ultimately show ?thesis using blob(5) by blast
qed

lemma length_str_bytes [simp]: "length (str_bytes s) = length s"
  by (simp add: str_bytes_def)

lemma wrap_aad_Some: "\<exists>aad. wrap_aad i = Some aad"
  by (simp add: wrap_aad_def wrap_aad_fields_def wrap_audio_domain_def length_uuid_bytes)

lemma wrap_aad_inj: "wrap_aad i = Some aad \<Longrightarrow> wrap_aad j = Some aad \<Longrightarrow> i = j"
proof -
  assume "wrap_aad i = Some aad" "wrap_aad j = Some aad"
  then have f: "wrap_aad_fields i = wrap_aad_fields j" by (auto simp: wrap_aad_def dest: lp_inj)
  have "unat (e :: 32 word) < 2 ^ 32" for e by (rule unsigned_less [THEN less_le_trans]) simp
  with f have "unat (ai_epoch i) = unat (ai_epoch j)" by (intro u32_be_inj) (simp_all add: wrap_aad_fields_def)
  then have "ai_epoch i = ai_epoch j" by (simp add: word_unat_eq_iff)
  with f show "i = j" by (cases i; cases j) (simp add: wrap_aad_fields_def uuid_bytes_inj)
qed

text \<open>The segments of a plaintext, and their ciphertexts.\<close>

definition plain_segments :: "nat \<Rightarrow> bytes \<Rightarrow> bytes list" where
  "plain_segments len bs = (if bs = [] then [[]] else segs len bs)"

lemma plain_segments_ne: "0 < len \<Longrightarrow> plain_segments len bs \<noteq> []"
  by (simp add: plain_segments_def segs_Cons)

lemma concat_plain_segments [simp]: "0 < len \<Longrightarrow> concat (plain_segments len bs) = bs"
  by (simp add: plain_segments_def)

lemma emits_total:
  assumes "\<And>i m. pos \<le> i \<Longrightarrow> i < pos + length ms \<Longrightarrow> \<exists>c. enc i m = Some c \<and> length c = length m + 16 \<and> dec i c = Some m"
  shows "\<exists>cs. emits enc pos ms cs \<and> emits dec pos cs ms \<and> map length cs = map (\<lambda>m. length m + 16) ms"
  using assms
proof (induction ms arbitrary: pos)
  case (Cons m ms)
  from Cons.prems [of pos m] obtain c where c: "enc pos m = Some c" "length c = length m + 16" "dec pos c = Some m"
    by auto
  have "\<exists>cs. emits enc (pos + 1) ms cs \<and> emits dec (pos + 1) cs ms \<and> map length cs = map (\<lambda>m. length m + 16) ms"
    by (rule Cons.IH) (use Cons.prems in simp)
  then obtain cs where "emits enc (pos + 1) ms cs" "emits dec (pos + 1) cs ms"
    "map length cs = map (\<lambda>m. length m + 16) ms" by blast
  with c show ?case by (intro exI [of _ "c # cs"]) simp
qed (auto intro!: exI [of _ "[]"])

lemma segments_roundtrip:
  assumes law: "stream_law A" and src: "faultless src" and room: "sk_room d = None"
    and chunk: "0 < unat chunk" "unat chunk \<le> max_chunk_size"
    and np: "length np = 19" and bound: "length (content src) < unat chunk * (2 ^ 32 - 1)"
  shows "\<exists>stream. seal_segments A key np chunk src d = (Inr (), d\<lparr>sk_out := sk_out d @ stream\<rparr>) \<and>
    (\<forall>src' d'. faultless src' \<and> content src' = stream \<and> sk_room d' = None \<longrightarrow>
       open_segments A src' key d' = (Inr (), d'\<lparr>sk_out := sk_out d' @ content src\<rparr>))"
proof -
  define h where "h = audio_header chunk np"
  define ms where "ms = plain_segments (unat chunk) (content src)"
  obtain pre c where ms: "ms = pre @ [c]"
    using plain_segments_ne [OF chunk(1)] by (metis ms_def rev_exhaust)
  have n: "length pre < 2 ^ 32 - 1"
  proof (cases "content src = []")
    case True
    with ms have "pre = []" by (simp add: ms_def plain_segments_def)
    then show ?thesis by simp
  next
    case False
    then have "unat chunk * (length pre + 1) < length (content src) + unat chunk"
      using length_segs [OF chunk(1), of "content src"] ms by (simp add: ms_def plain_segments_def)
    then have "unat chunk * length pre < length (content src)" by simp
    from less_trans [OF this bound] show ?thesis by (simp only: mult_less_cancel1)
  qed
  let ?enc = "\<lambda>i m. stream_encrypt A key np i False h m"
  let ?dec = "\<lambda>i c. stream_decrypt A key np i False h c"
  have total: "\<exists>x. stream_encrypt A key np i l h m = Some x \<and> length x = length m + 16 \<and>
      stream_decrypt A key np i l h x = Some m" if "i \<le> length pre" for i l m
    using law that n unfolding stream_law_def by simp
  obtain cs where cs: "emits ?enc 0 pre cs" "emits ?dec 0 cs pre" "map length cs = map (\<lambda>m. length m + 16) pre"
    using emits_total [of 0 pre ?enc ?dec] total by auto
  obtain x where x: "stream_encrypt A key np (length pre) True h c = Some x" "length x = length c + 16"
    "stream_decrypt A key np (length pre) True h x = Some c" using total [of "length pre"] by blast
  have len: "length cs = length pre" using cs(3) by (metis length_map)
  have full: "length y = unat chunk + 16" if y: "y \<in> set cs" for y
  proof -
    have "length y \<in> set (map length cs)" using y by simp
    then obtain m where "m \<in> set pre" "length y = length m + 16" using cs(3) by auto
    moreover have "m \<in> set pre \<Longrightarrow> length m = unat chunk" for m
      using ms segs_full by (auto simp: ms_def plain_segments_def split: if_splits)
    ultimately show ?thesis by simp
  qed
  have cl: "length c \<le> unat chunk"
    using ms segs_length [of c "unat chunk" "content src"]
    by (auto simp: ms_def plain_segments_def split: if_splits)
  have header: "length h = 24" "h ! 0 = audio_stream_version" "drop 5 h = np" "take 4 (drop 1 h) = u32_be (unat chunk)"
    using np by (simp_all add: h_def audio_header_def)
  have ub: "unat chunk < 2 ^ 32" by (rule unsigned_less [THEN less_le_trans]) simp
  define stream where "stream = h @ concat cs @ x"
  have seal: "seal_segments A key np chunk src d = (Inr (), d\<lparr>sk_out := sk_out d @ stream\<rparr>)"
  proof (cases "content src = []")
    case True
    with ms have "pre = []" "c = []" by (simp_all add: ms_def plain_segments_def)
    moreover have "cs = []" using len \<open>pre = []\<close> by simp
    moreover obtain s' where "read_full (unat chunk) src = (Inr [], s')"
      using read_full_faultless [OF src, of "unat chunk"] True by auto
    ultimately show ?thesis using chunk(1) room x
      by (auto simp: seal_segments_def Let_def h_def [symmetric] stream_def segment_loop.simps)
  next
    case False
    then have "segment_loop ?enc Seal (unat chunk) 0 None src (d\<lparr>sk_out := sk_out d @ h\<rparr>) =
        (Inr (0 + length pre, Some c), d\<lparr>sk_out := sk_out d @ h\<rparr>\<lparr>sk_out := sk_out (d\<lparr>sk_out := sk_out d @ h\<rparr>) @ concat cs\<rparr>)"
      by (intro segment_loop_faultless) (use src room chunk(1) ms cs(1) in \<open>auto simp: opt_list_def ms_def plain_segments_def\<close>)
    with chunk(1) room x show ?thesis
      by (auto simp: seal_segments_def Let_def h_def [symmetric] stream_def)
  qed
  have "open_segments A src' key d' = (Inr (), d'\<lparr>sk_out := sk_out d' @ content src\<rparr>)"
    if s: "faultless src'" "content src' = stream" and r: "sk_room d' = None" for src' d'
  proof -
    obtain src1 where rd: "read_exact_or 24 src' = (Inr h, src1)" "faultless src1" "content src1 = concat cs @ x"
      using read_exact_faultless [OF s(1), of h "concat cs @ x" 24] s(2) header(1) by (auto simp: stream_def)
    have "segs (unat chunk + 16) (content src1) = cs @ [x]"
      unfolding rd(3) by (rule segs_concat) (use full x(2) cl in auto)
    then have "segment_loop ?dec Open (unat chunk + 16) 0 None src1 d' =
        (Inr (0 + length cs, Some x), d'\<lparr>sk_out := sk_out d' @ concat pre\<rparr>)"
      by (intro segment_loop_faultless) (use rd r cs(2) in \<open>auto simp: opt_list_def\<close>)
    moreover have "concat pre @ c = content src"
      using arg_cong [OF ms, of concat] chunk(1) by (simp add: ms_def)
    ultimately show ?thesis using rd(1) header chunk ub r x(3) len
      by (simp add: open_segments_def audio_header_len_def Let_def stream_tag_len_def)
  qed
  with seal show ?thesis by blast
qed

subsection \<open>What an attacker's blob can make the code write\<close>

text \<open>
  Integrity of the ciphers, for the bytes that were served: what opens under a secret key is what a
  holder of the key sealed, under the same arguments. A cipher that opens all it seals has a
  ciphertext for every message, so this can be asked only of the byte strings that somebody
  without the keys came up with, and not of all byte strings.
\<close>

definition unforged :: "aead \<Rightarrow> bytes \<Rightarrow> bytes set \<Rightarrow> (bytes \<times> bytes \<times> bytes \<times> bytes) set \<Rightarrow> bool" where
  "unforged A served keys sealed \<longleftrightarrow> (\<forall>k n a c m. k \<in> keys \<longrightarrow> sublist c served \<longrightarrow>
     aead_decrypt A k n a c = Some m \<longrightarrow> (k, n, a, m) \<in> sealed)"

definition stream_unforged :: "aead \<Rightarrow> bytes \<Rightarrow> bytes set \<Rightarrow> (bytes \<times> bytes \<times> nat \<times> bool \<times> bytes \<times> bytes) set \<Rightarrow> bool" where
  "stream_unforged A served keys sealed \<longleftrightarrow> (\<forall>k p i l a c m. k \<in> keys \<longrightarrow> sublist c served \<longrightarrow>
     stream_decrypt A k p i l a c = Some m \<longrightarrow> (k, p, i, l, a, m) \<in> sealed)"

text \<open>The keys that the committing envelope derives from a vault key.\<close>

definition derived_keys :: "crates \<Rightarrow> bytes \<Rightarrow> bytes set" where
  "derived_keys X vault_key = {k. \<exists>nonce okm. hkdf_extract_expand X nonce vault_key commit_info 64 = Some okm \<and>
     k = take 32 (drop 32 okm)}"

text \<open>
  The calls of \<open>seal_blob\<close> under a vault key: identity, data key, wrap nonce, nonce prefix and audio.
  Each wraps its data key under a derived key, and encrypts the segments under the data key.
\<close>

type_synonym blob_call = "audio_identity \<times> bytes \<times> bytes \<times> bytes \<times> bytes"

definition wrap_events :: "crates \<Rightarrow> bytes \<Rightarrow> blob_call set \<Rightarrow> (bytes \<times> bytes \<times> bytes \<times> bytes) set" where
  "wrap_events X vault_key calls = {(k, n, a, m). \<exists>i np pt okm. (i, m, n, np, pt) \<in> calls \<and> wrap_aad i = Some a \<and>
     hkdf_extract_expand X n vault_key commit_info 64 = Some okm \<and> k = take 32 (drop 32 okm)}"

definition segment_events :: "blob_call set \<Rightarrow> (bytes \<times> bytes \<times> nat \<times> bool \<times> bytes \<times> bytes) set" where
  "segment_events calls = {(k, p, j, l, a, m). \<exists>i wn pt. (i, k, wn, p, pt) \<in> calls \<and> a = audio_header audio_chunk_size p \<and>
     j < length (plain_segments (unat audio_chunk_size) pt) \<and>
     (l \<longleftrightarrow> j = length (plain_segments (unat audio_chunk_size) pt) - 1) \<and> m = plain_segments (unat audio_chunk_size) pt ! j}"

definition only_segments :: "aead \<Rightarrow> bytes \<Rightarrow> bytes \<Rightarrow> bytes \<Rightarrow> bool" where
  "only_segments A served key pt \<longleftrightarrow> (\<forall>p i l a c m. sublist c served \<longrightarrow> stream_decrypt A key p i l a c = Some m \<longrightarrow>
     i < length (plain_segments (unat audio_chunk_size) pt) \<and>
     (l \<longleftrightarrow> i = length (plain_segments (unat audio_chunk_size) pt) - 1) \<and> m = plain_segments (unat audio_chunk_size) pt ! i)"

lemma one_call_segments:
  assumes "stream_unforged A served {k. \<exists>i wn np pt. (i, k, wn, np, pt) \<in> calls} (segment_events calls)"
    and "inj_on (\<lambda>(i, k, wn, np, pt). k) calls" and "(i, k, wn, np, pt) \<in> calls"
  shows "only_segments A served k pt"
  unfolding only_segments_def
proof (intro allI impI)
  fix p j l a c m
  assume "sublist c served" "stream_decrypt A k p j l a c = Some m"
  then have "(k, p, j, l, a, m) \<in> segment_events calls" using assms(1,3) unfolding stream_unforged_def by blast
  then obtain i' wn' pt' where c: "(i', k, wn', p, pt') \<in> calls" "j < length (plain_segments (unat audio_chunk_size) pt')"
    "l \<longleftrightarrow> j = length (plain_segments (unat audio_chunk_size) pt') - 1" "m = plain_segments (unat audio_chunk_size) pt' ! j"
    by (auto simp: segment_events_def)
  from inj_onD [OF assms(2) _ c(1) assms(3)] have "pt' = pt" by simp
  with c show "j < length (plain_segments (unat audio_chunk_size) pt) \<and>
      (l \<longleftrightarrow> j = length (plain_segments (unat audio_chunk_size) pt) - 1) \<and> m = plain_segments (unat audio_chunk_size) pt ! j" by blast
qed

text \<open>What is read is a piece of what is served.\<close>

lemma read_full_content: "read_full want src = (Inr bs, src') \<Longrightarrow> content src = bs @ content src'"
proof (induction want src arbitrary: bs rule: read_full.induct)
  case (2 want ev src)
  then show ?case by (cases ev) (fastforce split: if_splits prod.splits sum.splits)+
qed simp

lemma read_exact_content: "read_exact_or n src = (Inr bs, src') \<Longrightarrow> content src = bs @ content src'"
  by (auto simp: read_exact_or_def dest: read_full_content split: prod.splits sum.splits if_splits)

lemma sublist_of_append: "sublist c b \<Longrightarrow> sublist c (a @ b)" "sublist c a \<Longrightarrow> sublist c (a @ b)"
  by (meson sublist_append_leftI sublist_append_rightI sublist_order.order_trans)+

lemma sink_write_prefix:
  "sink_write_all bs d = (r, d') \<Longrightarrow> \<exists>w. sk_out d' = sk_out d @ w \<and> prefix w bs \<and> (r = Inr () \<longrightarrow> w = bs)"
  by (auto simp: sink_write_all_def take_is_prefix split: option.splits if_splits)

lemma prefix_concat_take: "i < length pre \<Longrightarrow> prefix w (pre ! i) \<Longrightarrow> prefix (concat (take i pre) @ w) (concat pre)"
proof -
  assume i: "i < length pre" and w: "prefix w (pre ! i)"
  have "concat pre = concat (take i pre) @ pre ! i @ concat (drop (Suc i) pre)"
    using arg_cong [OF id_take_nth_drop [OF i], of concat] by simp
  with w show ?thesis by (auto simp: prefix_def)
qed

lemma prefix_concat_take0: "prefix (concat (take i pre)) (concat pre)"
  by (metis append_take_drop_id concat_append prefixI)

definition yields_only :: "bytes \<Rightarrow> (nat \<Rightarrow> bytes \<Rightarrow> bytes option) \<Rightarrow> bytes list \<Rightarrow> bool" where
  "yields_only served f pre \<longleftrightarrow> (\<forall>i c m. sublist c served \<longrightarrow> f i c = Some m \<longrightarrow> i < length pre \<and> m = pre ! i)"

lemma emit_pending_authentic:
  assumes f: "yields_only served f pre" and held: "\<forall>p. pending = Some p \<longrightarrow> sublist p served"
    and "emit_pending f err pos pending d = (r, d')" and "sk_out d = base @ concat (take pos pre)"
  shows "\<exists>w. sk_out d' = base @ w \<and> prefix w (concat pre) \<and> (\<forall>pos'. r = Inr pos' \<longrightarrow> w = concat (take pos' pre))"
proof (cases pending)
  case None
  with assms(3,4) show ?thesis by (auto simp: emit_pending_def intro: prefix_concat_take0)
next
  case (Some p)
  show ?thesis
  proof (cases "f pos p")
    case None
    with assms(3,4) Some show ?thesis by (auto simp: emit_pending_def intro: prefix_concat_take0)
  next
    case (Some m)
    with f held \<open>pending = Some p\<close> have m: "pos < length pre" "m = pre ! pos" by (auto simp: yields_only_def)
    obtain r0 d0 where w: "sink_write_all m d = (r0, d0)" by fastforce
    then obtain w where w': "sk_out d0 = sk_out d @ w" "prefix w m" "r0 = Inr () \<longrightarrow> w = m"
      using sink_write_prefix by blast
    have d': "d' = d0" "\<forall>pos'. r = Inr pos' \<longrightarrow> r0 = Inr () \<and> pos' = Suc pos"
      using assms(3) \<open>pending = Some p\<close> Some w by (auto simp: emit_pending_def split: sum.splits)
    have "prefix (concat (take pos pre) @ w) (concat pre)"
      using prefix_concat_take m w'(2) by blast
    with assms(4) w' d' m show ?thesis by (auto simp: take_Suc_conv_app_nth intro!: exI [of _ "concat (take pos pre) @ w"])
  qed
qed

lemma segment_loop_authentic:
  assumes "yields_only served f pre" and "sublist (content src) served" and "\<forall>p. pending = Some p \<longrightarrow> sublist p served"
    and "segment_loop f err len pos pending src d = (r, d')" and "sk_out d = base @ concat (take pos pre)"
  shows "\<exists>w. sk_out d' = base @ w \<and> prefix w (concat pre) \<and>
    (\<forall>pos' p. r = Inr (pos', p) \<longrightarrow> w = concat (take pos' pre) \<and> (\<forall>x. p = Some x \<longrightarrow> sublist x served))"
  using assms
proof (induction f err len pos pending src d rule: segment_loop.induct)
  case (1 f err len pos pending src d)
  obtain b src' where rd: "read_full len src = (b, src')" by fastforce
  show ?case
  proof (cases b)
    case (Inl e)
    with 1(5,6) rd show ?thesis by (subst (asm) segment_loop.simps) (auto intro: prefix_concat_take0)
  next
    case (Inr buf)
    have cs: "content src = buf @ content src'" using read_full_content rd Inr by simp
    have buf: "sublist buf served" "sublist (content src') served"
      using 1(3) unfolding cs by (meson sublist_append_leftI sublist_append_rightI sublist_order.order_trans)+
    show ?thesis
    proof (cases "buf = []")
      case True
      with 1(4,5,6) rd Inr show ?thesis by (subst (asm) segment_loop.simps) (auto intro: prefix_concat_take0)
    next
      case False
      obtain r1 d1 where em: "emit_pending f err pos pending d = (r1, d1)" by fastforce
      from emit_pending_authentic [OF 1(2,4) em 1(6)] obtain w where w: "sk_out d1 = base @ w"
        "prefix w (concat pre)" "\<forall>pos'. r1 = Inr pos' \<longrightarrow> w = concat (take pos' pre)" by blast
      show ?thesis
      proof (cases r1)
        case (Inl e)
        with 1(5) rd \<open>b = Inr buf\<close> False em w show ?thesis by (subst (asm) segment_loop.simps) auto
      next
        case pos': (Inr pos')
        show ?thesis
        proof (cases "length buf < len")
          case True
          with 1(5) rd \<open>b = Inr buf\<close> False em w pos' buf show ?thesis by (subst (asm) segment_loop.simps) auto
        next
          case long: False
          have "segment_loop f err len pos' (Some buf) src' d1 = (r, d')"
            using 1(5) rd \<open>b = Inr buf\<close> False em pos' long by (subst (asm) segment_loop.simps) simp
          moreover have "sk_out d1 = base @ concat (take pos' pre)" using w pos' by simp
          moreover have "\<forall>p. Some buf = Some p \<longrightarrow> sublist p served" using buf(1) by simp
          ultimately show ?thesis
            using 1(1) [OF rd [symmetric] \<open>b = Inr buf\<close> False em [symmetric] pos' long 1(2) buf(2)] by blast
        qed
      qed
    qed
  qed
qed

lemma open_segments_authentic:
  assumes only: "only_segments A served key pt" and served: "sublist (content src) served"
    and run: "open_segments A src key d = (r, d')"
  shows "\<exists>w. sk_out d' = sk_out d @ w \<and> Sublist.prefix w pt \<and> (r = Inr () \<longrightarrow> w = pt)"
proof -
  let ?chunk = "unat audio_chunk_size"
  have "0 < ?chunk" by (simp add: audio_chunk_size_def)
  then obtain pre c where ms: "plain_segments ?chunk pt = pre @ [c]"
    using plain_segments_ne by (metis rev_exhaust)
  have pt: "pt = concat pre @ c"
    using arg_cong [OF ms, of concat] \<open>0 < ?chunk\<close> by simp
  have nil: ?thesis if "d' = d" "r \<noteq> Inr ()" using that by simp
  obtain h src1 where rd: "read_exact_or audio_header_len src = (h, src1)" by fastforce
  show ?thesis
  proof (cases h)
    case (Inl e)
    with run rd nil show ?thesis by (auto simp: open_segments_def)
  next
    case (Inr header)
    have "content src = header @ content src1" using read_exact_content rd Inr by simp
    then have served1: "sublist (content src1) served"
      using served by (metis sublist_append_leftI sublist_order.order_trans)
    define cs where "cs = from_be (take 4 (drop (Suc 0) header))"
    let ?dec = "\<lambda>l i c. stream_decrypt A key (drop 5 header) i l header c"
    show ?thesis
    proof (cases "header ! 0 = audio_stream_version \<and> \<not> (cs = 0 \<or> cs > max_chunk_size)")
      case False
      with run rd Inr nil show ?thesis
        by (auto simp: open_segments_def Let_def cs_def split: if_splits)
    next
      case True
      have body: "yields_only served (?dec False) pre"
        unfolding yields_only_def
      proof (intro allI impI)
        fix i x m
        assume that: "sublist x served" "?dec False i x = Some m"
        have "i < length (pre @ [c])" "False = (i = length (pre @ [c]) - 1)" "m = (pre @ [c]) ! i"
          using only that unfolding only_segments_def ms by blast+
        then show "i < length pre \<and> m = pre ! i" by (auto simp: nth_append)
      qed
      have last: "i = length pre \<and> m = c" if "sublist x served" "?dec True i x = Some m" for i x m
      proof -
        have "i < length (pre @ [c])" "True = (i = length (pre @ [c]) - 1)" "m = (pre @ [c]) ! i"
          using only that unfolding only_segments_def ms by blast+
        then show ?thesis by simp
      qed
      obtain r1 d1 where loop: "segment_loop (?dec False) Open (cs + stream_tag_len) 0 None src1 d = (r1, d1)"
        by fastforce
      from segment_loop_authentic [OF body served1 _ loop, where base = "sk_out d"] obtain w where
        w: "sk_out d1 = sk_out d @ w" "Sublist.prefix w (concat pre)"
          "\<forall>pos' p. r1 = Inr (pos', p) \<longrightarrow> w = concat (take pos' pre) \<and> (\<forall>x. p = Some x \<longrightarrow> sublist x served)" by auto
      then have pre: "Sublist.prefix w pt" by (simp add: pt)
      have stop: ?thesis if "d' = d1" "r \<noteq> Inr ()" using that w(1) pre by auto
      show ?thesis
      proof (cases "\<exists>pos x. r1 = Inr (pos, Some x) \<and> ?dec True pos x \<noteq> None")
        case False
        with run rd Inr True loop show ?thesis
          by (intro stop) (auto simp: open_segments_def Let_def One_nat_def cs_def [symmetric] split: sum.splits prod.splits option.splits)
      next
        case True2: True
        then obtain pos x m where x: "r1 = Inr (pos, Some x)" "?dec True pos x = Some m" by blast
        with last w(3) have m: "pos = length pre" "m = c" by auto
        have "sink_write_all m d1 = (r, d')"
          using run rd Inr True loop x by (simp add: open_segments_def Let_def One_nat_def cs_def [symmetric])
        then obtain v where v: "sk_out d' = sk_out d1 @ v" "Sublist.prefix v m" "r = Inr () \<longrightarrow> v = m"
          using sink_write_prefix by blast
        have "w = concat pre" using w(3) x(1) m(1) by simp
        with w(1) v m(2) show ?thesis by (auto simp: pt)
      qed
    qed
  qed
qed

subsection \<open>Properties\<close>

definition empty_sink :: sink where
  "empty_sink = \<lparr>sk_out = [], sk_room = None\<rparr>"

lemma wrap_roundtrip:
  assumes "hmac_law X" and "aead_law A" and "length data_key = 32" and "length wrap_nonce = 24"
  shows "\<exists>wrapped. wrap_audio_key X A vault_key data_key wrap_nonce i = Some (Inr wrapped) \<and> length wrapped = 105 \<and>
    unwrap_audio_key X A vault_key wrapped i = Some (Inr data_key)"
proof -
  obtain aad where aad: "wrap_aad i = Some aad" using wrap_aad_Some by blast
  obtain w where "seal_committing X A vault_key wrap_nonce data_key aad = Some (Inr w)"
    "length w = 105" "open_committing X A vault_key w aad = Some (Inr data_key)"
    using committing_roundtrip [OF assms(1,2,4), of vault_key data_key aad] assms(3) by auto
  with aad assms(3) show ?thesis by (simp add: wrap_audio_key_def unwrap_audio_key_def)
qed

text \<open>C32. A sealed audio blob opens to the audio. Whatever the random key and nonces, and however
  the operating system cuts or interrupts the reads on either side, sealing succeeds and opening
  its bytes under the same vault key and identity writes exactly the plaintext, the empty file and
  exact multiples of the chunk size included, up to the \<open>2^32 - 1\<close> segments the counter allows.\<close>

theorem audio_blob_roundtrip:
  assumes "hmac_law X" and "aead_law A" and "stream_law A"
    and "length data_key = 32" and "length nonce_prefix = 19" and "length wrap_nonce = 24"
    and "faultless src" and "length (content src) < 2 ^ 20 * (2 ^ 32 - 1)"
  shows "\<exists>blob. seal_blob X A vault_key i data_key nonce_prefix wrap_nonce src empty_sink =
      Some (Inr (), empty_sink\<lparr>sk_out := blob\<rparr>) \<and>
    (\<forall>src'. faultless src' \<and> content src' = blob \<longrightarrow>
       open_blob X A vault_key i src' empty_sink = Some (Inr (), empty_sink\<lparr>sk_out := content src\<rparr>))"
proof -
  obtain w where w: "wrap_audio_key X A vault_key data_key wrap_nonce i = Some (Inr w)" "length w = 105"
    "unwrap_audio_key X A vault_key w i = Some (Inr data_key)"
    using wrap_roundtrip [OF assms(1,2,4,6)] by blast
  have chunk: "0 < unat audio_chunk_size" "unat audio_chunk_size \<le> max_chunk_size"
    "length (content src) < unat audio_chunk_size * (2 ^ 32 - 1)"
    using assms(8) by (simp_all add: audio_chunk_size_def max_chunk_size_def)
  define d where "d = empty_sink\<lparr>sk_out := u32_be 105 @ w\<rparr>"
  have room: "sk_room d = None" "sk_room empty_sink = None" by (simp_all add: d_def empty_sink_def)
  obtain stream where seg: "seal_segments A data_key nonce_prefix audio_chunk_size src d =
      (Inr (), d\<lparr>sk_out := sk_out d @ stream\<rparr>)"
    "\<And>src' d'. faultless src' \<Longrightarrow> content src' = stream \<Longrightarrow> sk_room d' = None \<Longrightarrow>
       open_segments A src' data_key d' = (Inr (), d'\<lparr>sk_out := sk_out d' @ content src\<rparr>)"
    using segments_roundtrip [OF assms(3,7) room(1) chunk(1,2) assms(5) chunk(3)] by blast
  have "seal_blob X A vault_key i data_key nonce_prefix wrap_nonce src empty_sink =
      Some (Inr (), empty_sink\<lparr>sk_out := u32_be 105 @ w @ stream\<rparr>)"
    using w(1,2) room(2) seg(1) by (simp add: seal_blob_def d_def empty_sink_def)
  moreover have "open_blob X A vault_key i src' empty_sink = Some (Inr (), empty_sink\<lparr>sk_out := content src\<rparr>)"
    if s: "faultless src'" "content src' = u32_be 105 @ w @ stream" for src'
  proof -
    obtain s1 where s1: "read_exact_or 4 src' = (Inr (u32_be 105), s1)" "faultless s1" "content s1 = w @ stream"
      using read_exact_faultless [OF s] by auto
    obtain s2 where s2: "read_exact_or 105 s1 = (Inr w, s2)" "faultless s2" "content s2 = stream"
      using read_exact_faultless [OF s1(2,3) w(2)] by auto
    from seg(2) [OF s2(2,3) room(2)] s1(1) s2(1) w(3) show ?thesis
      by (simp add: open_blob_def max_wrapped_key_len_def empty_sink_def)
  qed
  ultimately show ?thesis by blast
qed

definition toy_aead :: aead where
  "toy_aead = \<lparr>aead_encrypt = (\<lambda>k n a m. Some (m @ replicate 16 0)),
     aead_decrypt = (\<lambda>k n a c. Some (take (length c - 16) c)),
     stream_encrypt = (\<lambda>k p i l a m. Some (m @ replicate 16 0)),
     stream_decrypt = (\<lambda>k p i l a c. Some (take (length c - 16) c))\<rparr>"

lemma toy_aead_laws: "aead_law toy_aead" "stream_law toy_aead"
  by (simp_all add: aead_law_def stream_law_def toy_aead_def)

lemma audio_blob_roundtrip_witness:
  "\<exists>blob. seal_blob toy_crates toy_aead [1] \<lparr>ai_tenant = 1, ai_session = 2, ai_part = 3, ai_epoch = 0\<rparr>
      (replicate 32 7) (replicate 19 9) (replicate 24 5) [Chunk [1, 2], Interrupted, Chunk [3]] empty_sink =
    Some (Inr (), empty_sink\<lparr>sk_out := blob\<rparr>)"
  using audio_blob_roundtrip [OF toy_hmac toy_aead_laws, where data_key = "replicate 32 7" and
      nonce_prefix = "replicate 19 9" and wrap_nonce = "replicate 24 5" and vault_key = "[1]" and
      src = "[Chunk [1, 2], Interrupted, Chunk [3]]" and
      i = "\<lparr>ai_tenant = 1, ai_session = 2, ai_part = 3, ai_epoch = 0\<rparr>"] by auto

text \<open>C24. Whatever bytes the relay serves as an audio blob, and whatever fails on the way, the opened
  file only ever receives a prefix of audio that was sealed for exactly this tenant, session, part
  and key epoch, and opening reports success only when it has written all of one such recording: a
  truncated, reordered, extended, spliced or substituted blob, or one moved to another identity,
  ends in an error. Nothing panics. The ciphers are trusted for the served bytes only: what opens
  there under a key of the vault was sealed by a holder of the vault key (for audio by one of the
  calls, or in another domain), and every call drew a data key of its own.\<close>

theorem audio_blob_authentic:
  assumes "hmac_law X"
    and "unforged A (content src) (derived_keys X vault_key) (wrap_events X vault_key calls \<union> other)"
    and "\<forall>(k, n, a, m)\<in>other. \<forall>i. wrap_aad i \<noteq> Some a"
    and "stream_unforged A (content src) {k. \<exists>i wn np pt. (i, k, wn, np, pt) \<in> calls} (segment_events calls)"
    and "inj_on (\<lambda>(i, k, wn, np, pt). k) calls"
  shows "\<exists>r d' w. open_blob X A vault_key i src d = Some (r, d') \<and> sk_out d' = sk_out d @ w \<and>
    (w = [] \<or> (\<exists>k wn np pt. (i, k, wn, np, pt) \<in> calls \<and> Sublist.prefix w pt)) \<and>
    (r = Inr () \<longrightarrow> (\<exists>k wn np. (i, k, wn, np, w) \<in> calls))"
proof -
  have nil: ?thesis if "open_blob X A vault_key i src d = Some (Inl e, d)" for e
    using that by (intro exI [of _ "Inl e"] exI [of _ d] exI [of _ "[]"]) simp
  obtain b1 src1 where r1: "read_exact_or 4 src = (b1, src1)" by fastforce
  show ?thesis
  proof (cases "\<exists>lenb. b1 = Inr lenb \<and> from_be lenb \<noteq> 0 \<and> from_be lenb \<le> max_wrapped_key_len")
    case False
    then have "\<exists>e. open_blob X A vault_key i src d = Some (Inl e, d)"
      using r1 by (cases b1) (auto simp: open_blob_def Let_def)
    then show ?thesis using nil by blast
  next
    case True
    then obtain lenb where b1: "b1 = Inr lenb" "from_be lenb \<noteq> 0" "from_be lenb \<le> max_wrapped_key_len" by blast
    obtain b2 src2 where r2: "read_exact_or (from_be lenb) src1 = (b2, src2)" by fastforce
    show ?thesis
    proof (cases b2)
      case (Inl e)
      with r1 r2 b1 show ?thesis by (intro nil [of e]) (simp add: open_blob_def)
    next
      case (Inr wrapped)
      obtain aad where aad: "wrap_aad i = Some aad" using wrap_aad_Some by blast
      define nonce where "nonce = take 24 (drop 33 wrapped)"
      obtain okm where okm: "hkdf_extract_expand X nonce vault_key commit_info 64 = Some okm"
        using hkdf_64 [OF assms(1)] by blast
      show ?thesis
      proof (cases "unwrap_audio_key X A vault_key wrapped i")
        case None
        with aad okm show ?thesis
          by (auto simp: unwrap_audio_key_def open_committing_def c_bind_def Let_def nonce_def split: if_splits sum.splits)
      next
        case (Some u)
        show ?thesis
        proof (cases u)
          case (Inl e)
          with r1 r2 b1 \<open>b2 = Inr wrapped\<close> Some show ?thesis by (intro nil [of e]) (simp add: open_blob_def)
        next
          case k: (Inr k)
          have "aead_decrypt A (take 32 (drop 32 okm)) nonce aad (drop 57 wrapped) = Some k"
            using Some k aad okm
            by (auto simp: unwrap_audio_key_def open_committing_def Let_def nonce_def ok_or_eq_Inr result_simps split: if_splits)
          moreover have served: "content src = lenb @ wrapped @ content src2"
            using read_exact_content r1 r2 b1(1) Inr by simp
          then have "sublist (drop 57 wrapped) (content src)"
            by (metis append_take_drop_id sublist_appendI append.assoc)
          moreover have "take 32 (drop 32 okm) \<in> derived_keys X vault_key" using okm by (auto simp: derived_keys_def)
          ultimately have "(take 32 (drop 32 okm), nonce, aad, k) \<in> wrap_events X vault_key calls \<union> other"
            using assms(2) unfolding unforged_def by blast
          with assms(3) aad obtain i' np pt where in_calls: "(i', k, nonce, np, pt) \<in> calls" "wrap_aad i' = Some aad"
            by (auto simp: wrap_events_def)
          with aad have "i' = i" by (metis wrap_aad_inj)
          obtain r d' where os: "open_segments A src2 k d = (r, d')" by fastforce
          have "sublist (content src2) (content src)" unfolding served by (simp add: sublist_of_append)
          from open_segments_authentic [OF one_call_segments [OF assms(4,5) in_calls(1)] this os]
          obtain w where w: "sk_out d' = sk_out d @ w" "Sublist.prefix w pt" "r = Inr () \<longrightarrow> w = pt" by blast
          have run: "open_blob X A vault_key i src d = Some (r, d')"
            using r1 r2 b1 \<open>b2 = Inr wrapped\<close> Some k os by (simp add: open_blob_def)
          with w in_calls(1) \<open>i' = i\<close> show ?thesis
            by (intro exI [of _ r] exI [of _ d'] exI [of _ w]) auto
        qed
      qed
    qed
  qed
qed

text \<open>A cipher that obeys the laws, and marks what is in a list of sealed messages: everything else gets a
  tag of the byte \<open>b\<close>, which does not occur in the served bytes.\<close>

definition tagged_aead :: "8 word \<Rightarrow> (bytes \<times> bytes \<times> bytes \<times> bytes) set \<Rightarrow>
    (bytes \<times> bytes \<times> nat \<times> bool \<times> bytes \<times> bytes) set \<Rightarrow> aead" where
  "tagged_aead b E S =
     \<lparr>aead_encrypt = (\<lambda>k n a m. Some (m @ replicate 16 (if (k, n, a, m) \<in> E then 1 else b))),
      aead_decrypt = (\<lambda>k n a c. let m = take (length c - 16) c
        in if c = m @ replicate 16 (if (k, n, a, m) \<in> E then 1 else b) then Some m else None),
      stream_encrypt = (\<lambda>k p i l a m. Some (m @ replicate 16 (if (k, p, i, l, a, m) \<in> S then 1 else b))),
      stream_decrypt = (\<lambda>k p i l a c. let m = take (length c - 16) c
        in if c = m @ replicate 16 (if (k, p, i, l, a, m) \<in> S then 1 else b) then Some m else None)\<rparr>"

lemma tagged_laws: "aead_law (tagged_aead b E S)" "stream_law (tagged_aead b E S)"
  by (simp_all add: aead_law_def stream_law_def tagged_aead_def Let_def)

lemma tagged_unforged:
  assumes "b \<notin> set served"
  shows "unforged (tagged_aead b E S) served keys E" and "stream_unforged (tagged_aead b E S) served keys S"
proof -
  have tag: "x \<noteq> b" if "sublist (m @ replicate 16 x) served" for m :: bytes and x
    using set_mono_sublist [OF that] assms by auto
  show "unforged (tagged_aead b E S) served keys E"
    unfolding unforged_def
  proof (intro allI impI)
    fix k n a c m
    assume c: "sublist c served" and "aead_decrypt (tagged_aead b E S) k n a c = Some m"
    then have "c = m @ replicate 16 (if (k, n, a, m) \<in> E then 1 else b)"
      by (simp add: tagged_aead_def Let_def split: if_splits)
    with tag [of m b] c show "(k, n, a, m) \<in> E" by (cases "(k, n, a, m) \<in> E") simp_all
  qed
  show "stream_unforged (tagged_aead b E S) served keys S"
    unfolding stream_unforged_def
  proof (intro allI impI)
    fix k p i l a c m
    assume c: "sublist c served" and "stream_decrypt (tagged_aead b E S) k p i l a c = Some m"
    then have "c = m @ replicate 16 (if (k, p, i, l, a, m) \<in> S then 1 else b)"
      by (simp add: tagged_aead_def Let_def split: if_splits)
    with tag [of m b] c show "(k, p, i, l, a, m) \<in> S" by (cases "(k, p, i, l, a, m) \<in> S") simp_all
  qed
qed

lemma spare_byte: "length served < 256 \<Longrightarrow> \<exists>b :: 8 word. b \<notin> set served"
proof (rule ccontr)
  assume short: "length served < 256" and "\<nexists>b :: 8 word. b \<notin> set served"
  then have "set served = UNIV" by auto
  then have "card (UNIV :: 8 word set) \<le> length served" by (metis card_length)
  with short show False by (simp add: card_word)
qed

text \<open>One recording, sealed once under the vault key, and its blob.\<close>

definition one_identity :: audio_identity where
  "one_identity = \<lparr>ai_tenant = 1, ai_session = 2, ai_part = 3, ai_epoch = 0\<rparr>"

definition one_calls :: "blob_call set" where
  "one_calls = {(one_identity, replicate 32 7, replicate 24 5, replicate 19 9, [1, 2])}"

definition one_wrapped :: bytes where
  "one_wrapped = [envelope_version] @ take 32 (the (hkdf_extract_expand toy_crates (replicate 24 5) [1] commit_info 64))
     @ replicate 24 5 @ replicate 32 7 @ replicate 16 1"

definition one_blob :: bytes where
  "one_blob = u32_be 105 @ one_wrapped @ audio_header audio_chunk_size (replicate 19 9) @ [1, 2] @ replicate 16 1"

definition one_aead :: "8 word \<Rightarrow> aead" where
  "one_aead b = tagged_aead b (wrap_events toy_crates [1] one_calls) (segment_events one_calls)"

lemma one_segment: "plain_segments (unat audio_chunk_size) [1, 2] = [[1, 2]]"
  by (simp add: plain_segments_def segs_Cons audio_chunk_size_def)

lemma one_blob_opens:
  "open_blob toy_crates (one_aead b) [1] one_identity [Chunk one_blob] empty_sink =
     Some (Inr (), empty_sink\<lparr>sk_out := [1, 2]\<rparr>)"
proof -
  obtain okm where okm: "hkdf_extract_expand toy_crates (replicate 24 5) [1] commit_info 64 = Some okm" "length okm = 64"
    using hkdf_64 [OF toy_hmac] by blast
  have w: "length one_wrapped = 105" "one_wrapped ! 0 = envelope_version" "take 32 (drop 1 one_wrapped) = take 32 okm"
    "take 24 (drop 33 one_wrapped) = replicate 24 5" "drop 57 one_wrapped = replicate 32 7 @ replicate 16 1"
    using okm by (simp_all add: one_wrapped_def)
  obtain aad where aad: "wrap_aad one_identity = Some aad" using wrap_aad_Some by blast
  have "(take 32 (drop 32 okm), replicate 24 5, aad, replicate 32 7) \<in> wrap_events toy_crates [1] one_calls"
    using okm(1) aad unfolding wrap_events_def one_calls_def by blast
  then have "aead_decrypt (one_aead b) (take 32 (drop 32 okm)) (replicate 24 5) aad (replicate 32 7 @ replicate 16 1) = Some (replicate 32 7)"
    by (simp add: one_aead_def tagged_aead_def)
  then have unwrap: "unwrap_audio_key toy_crates (one_aead b) [1] one_wrapped one_identity = Some (Inr (replicate 32 7))"
    unfolding unwrap_audio_key_def open_committing_def Let_def w aad
    using okm(1) by (simp add: ct_eq_iff)
  let ?h = "audio_header audio_chunk_size (replicate 19 9)" and ?x = "[1, 2] @ replicate 16 (1 :: 8 word)"
  have f0: "faultless [Chunk one_blob]" "content [Chunk one_blob] = u32_be 105 @ one_wrapped @ ?h @ ?x"
    by (simp_all add: one_blob_def u32_be_def)
  obtain s1 where s1: "read_exact_or 4 [Chunk one_blob] = (Inr (u32_be 105), s1)" "faultless s1"
    "content s1 = one_wrapped @ ?h @ ?x" using read_exact_faultless [OF f0] by auto
  obtain s2 where s2: "read_exact_or 105 s1 = (Inr one_wrapped, s2)" "faultless s2" "content s2 = ?h @ ?x"
    using read_exact_faultless [OF s1(2,3) w(1)] by auto
  have h: "length ?h = 24" "?h ! 0 = audio_stream_version" "drop 5 ?h = replicate 19 9" "from_be (take 4 (drop 1 ?h)) = 2 ^ 20"
    by (simp_all add: audio_header_def audio_chunk_size_def)
  obtain s3 where s3: "read_exact_or 24 s2 = (Inr ?h, s3)" "faultless s3" "content s3 = ?x"
    using read_exact_faultless [OF s2(2,3) h(1)] by auto
  have "(replicate 32 7, replicate 19 9, 0, True, ?h, [1, 2]) \<in> segment_events one_calls"
    by (auto simp: segment_events_def one_calls_def one_segment)
  then have dec: "stream_decrypt (one_aead b) (replicate 32 7) (replicate 19 9) 0 True ?h ?x = Some [1, 2]"
    by (simp add: one_aead_def tagged_aead_def)
  have "segment_loop (\<lambda>i c. stream_decrypt (one_aead b) (replicate 32 7) (replicate 19 9) i False ?h c) Open (2 ^ 20 + 16) 0 None s3 empty_sink =
      (Inr (0 + length ([] :: bytes list), Some ?x), empty_sink\<lparr>sk_out := sk_out empty_sink @ concat []\<rparr>)"
    by (rule segment_loop_faultless) (simp_all add: s3 empty_sink_def opt_list_def segs_Cons)
  then have "open_segments (one_aead b) s2 (replicate 32 7) empty_sink = (Inr (), empty_sink\<lparr>sk_out := [1, 2]\<rparr>)"
    using s3(1) dec unfolding open_segments_def audio_header_len_def Let_def
    by (simp add: h [unfolded One_nat_def] max_chunk_size_def stream_tag_len_def empty_sink_def)
  with s1(1) s2(1) unwrap show ?thesis by (simp add: open_blob_def max_wrapped_key_len_def)
qed

text \<open>The cipher of the witness also obeys the laws that the round trip rests on.\<close>

lemma audio_blob_authentic_witness:
  "\<exists>A w. aead_law A \<and> stream_law A \<and>
     open_blob toy_crates A [1] one_identity [Chunk one_blob] empty_sink = Some (Inr (), empty_sink\<lparr>sk_out := w\<rparr>) \<and>
     (\<exists>k wn np. (one_identity, k, wn, np, w) \<in> one_calls)"
proof -
  obtain okm where okm: "hkdf_extract_expand toy_crates (replicate 24 5) [1] commit_info 64 = Some okm" "length okm = 64"
    using hkdf_64 [OF toy_hmac] by blast
  have "length one_blob = 151" by (simp add: one_blob_def one_wrapped_def okm audio_header_def)
  then obtain b where b: "b \<notin> set one_blob" using spare_byte [of one_blob] by auto
  then have served: "b \<notin> set (content [Chunk one_blob])" by simp
  note un = tagged_unforged [OF served, where E = "wrap_events toy_crates [1] one_calls" and S = "segment_events one_calls", folded one_aead_def]
  have "unforged (one_aead b) (content [Chunk one_blob]) (derived_keys toy_crates [1]) (wrap_events toy_crates [1] one_calls \<union> {})"
    using un(1) by simp
  from audio_blob_authentic [OF toy_hmac this _ un(2), of one_identity empty_sink]
  have "\<exists>w. open_blob toy_crates (one_aead b) [1] one_identity [Chunk one_blob] empty_sink = Some (Inr (), empty_sink\<lparr>sk_out := w\<rparr>) \<and>
     (\<exists>k wn np. (one_identity, k, wn, np, w) \<in> one_calls)"
    unfolding one_blob_opens by (auto simp: one_calls_def empty_sink_def)
  then show ?thesis using tagged_laws unfolding one_aead_def by blast
qed

end
