(* ===== verification/Changesets.thy ===== *)
theory Changesets
  imports Envelopes
begin

text \<open>
  What the client puts on the wire: the rows of \<open>crsql_changes\<close> and their binary codec
  (\<open>crates/yapstack-sync/src/change.rs\<close>), and the changeset and snapshot ciphers
  (\<open>crypto.rs\<close>) over the envelopes. A Rust \<open>String\<close> is its UTF-8 bytes, an \<open>i64\<close> an integer in
  range, an \<open>f64\<close> its bit pattern, and the decoder's position the bytes that are left.
\<close>

subsection \<open>Errors of the sync runtime\<close>

text \<open>\<open>SyncError\<close> of \<open>lib.rs\<close>. \<open>RelayUnauthorized\<close> is its \<open>Unauthorized\<close>.\<close>

datatype sync_error =
  Sqlite string
| Crypto crypto_error
| Codec string
| Migration string
| UnknownTable string
| CrrUnavailable string
| Transport string
| RelayUnauthorized
| Oversized int nat
| Network string
| RelayConflict string
| UpdateRequired int int int
| CapabilityFloor int int int
| CapabilityBlocked int "capability_blocker list"
| CapabilityGateMissing int
| Http string

definition is_network :: "sync_error \<Rightarrow> bool" where
  "is_network e = (case e of Network _ \<Rightarrow> True | _ \<Rightarrow> False)"

subsection \<open>Change rows\<close>

datatype sql_value = Null | Integer int | Real "64 word" | Text bytes | Blob bytes

record change_row =
  cr_table :: bytes
  cr_pk :: bytes
  cr_cid :: bytes
  cr_val :: sql_value
  cr_col_version :: int
  cr_db_version :: int
  cr_site_id :: "bytes option"
  cr_cl :: int
  cr_seq :: int

definition sentinel_cid :: bytes where
  "sentinel_cid = str_bytes ''-1''"

subsection \<open>UTF-8\<close>

definition cont_byte :: "8 word \<Rightarrow> bool" where
  "cont_byte b \<longleftrightarrow> 0x80 \<le> b \<and> b \<le> 0xBF"

text \<open>\<open>String::from_utf8\<close> accepts the well-formed sequences of the Unicode standard.\<close>

fun utf8_ok :: "bytes \<Rightarrow> bool" where
  "utf8_ok [] = True"
| "utf8_ok (a # bs) =
     (if a \<le> 0x7F then utf8_ok bs
      else case bs of
        [] \<Rightarrow> False
      | b # bs2 \<Rightarrow>
          if 0xC2 \<le> a \<and> a \<le> 0xDF then cont_byte b \<and> utf8_ok bs2
          else case bs2 of
            [] \<Rightarrow> False
          | c # bs3 \<Rightarrow>
              if 0xE0 \<le> a \<and> a \<le> 0xEF
              then cont_byte b \<and> (a = 0xE0 \<longrightarrow> 0xA0 \<le> b) \<and> (a = 0xED \<longrightarrow> b \<le> 0x9F) \<and> cont_byte c \<and> utf8_ok bs3
              else case bs3 of
                [] \<Rightarrow> False
              | d # bs4 \<Rightarrow>
                  0xF0 \<le> a \<and> a \<le> 0xF4 \<and> cont_byte b \<and> (a = 0xF0 \<longrightarrow> 0x90 \<le> b) \<and>
                  (a = 0xF4 \<longrightarrow> b \<le> 0x8F) \<and> cont_byte c \<and> cont_byte d \<and> utf8_ok bs4)"

subsection \<open>The codec\<close>

definition put_bytes :: "bytes \<Rightarrow> bytes" where
  "put_bytes b = u32_be (length b) @ b"

definition i64_be :: "int \<Rightarrow> bytes" where
  "i64_be i = u64_be (nat (i mod 2 ^ 64))"

definition i64_of :: "nat \<Rightarrow> int" where
  "i64_of n = (if n < 2 ^ 63 then int n else int n - 2 ^ 64)"

definition take_bytes :: "bytes \<Rightarrow> sync_error + bytes \<times> bytes" where
  "take_bytes buf =
     (if length buf < 4 then Inl (Codec ''truncated length'')
      else let len = from_be (take 4 buf); rest = drop 4 buf in
        if length rest < len then Inl (Codec ''truncated bytes'') else Inr (take len rest, drop len rest))"

definition take_u64 :: "bytes \<Rightarrow> sync_error + nat \<times> bytes" where
  "take_u64 buf =
     (if length buf < 8 then Inl (Codec ''truncated i64'') else Inr (from_be (take 8 buf), drop 8 buf))"

definition take_i64 :: "bytes \<Rightarrow> sync_error + int \<times> bytes" where
  "take_i64 buf = bind_result (take_u64 buf) (\<lambda>(n, rest). Inr (i64_of n, rest))"

definition take_u8 :: "bytes \<Rightarrow> sync_error + (8 word) \<times> bytes" where
  "take_u8 buf = (case buf of [] \<Rightarrow> Inl (Codec ''truncated u8'') | b # rest \<Rightarrow> Inr (b, rest))"

definition take_string :: "string \<Rightarrow> bytes \<Rightarrow> sync_error + bytes \<times> bytes" where
  "take_string what buf = bind_result (take_bytes buf) (\<lambda>(s, rest).
     if utf8_ok s then Inr (s, rest) else Inl (Codec (what @ '' not utf8'')))"

definition encode_value :: "sql_value \<Rightarrow> bytes" where
  "encode_value v = (case v of
       Null \<Rightarrow> [0]
     | Integer i \<Rightarrow> [1] @ i64_be i
     | Real f \<Rightarrow> [2] @ u64_be (unat f)
     | Text s \<Rightarrow> [3] @ put_bytes s
     | Blob b \<Rightarrow> [4] @ put_bytes b)"

definition encode_site :: "bytes option \<Rightarrow> bytes" where
  "encode_site s = (case s of None \<Rightarrow> [0] | Some b \<Rightarrow> [1] @ put_bytes b)"

definition encode_row :: "change_row \<Rightarrow> bytes" where
  "encode_row r = put_bytes (cr_table r) @ put_bytes (cr_pk r) @ put_bytes (cr_cid r) @ encode_value (cr_val r)
     @ i64_be (cr_col_version r) @ i64_be (cr_db_version r) @ encode_site (cr_site_id r)
     @ i64_be (cr_cl r) @ i64_be (cr_seq r)"

definition encode_changeset :: "change_row list \<Rightarrow> bytes" where
  "encode_changeset rows = u32_be (length rows) @ concat (map encode_row rows)"

definition decode_value :: "bytes \<Rightarrow> sync_error + sql_value \<times> bytes" where
  "decode_value buf = bind_result (take_u8 buf) (\<lambda>(tag, rest).
     if tag = 0 then Inr (Null, rest)
     else if tag = 1 then bind_result (take_i64 rest) (\<lambda>(i, rest'). Inr (Integer i, rest'))
     else if tag = 2 then bind_result (take_u64 rest) (\<lambda>(n, rest'). Inr (Real (of_nat n), rest'))
     else if tag = 3 then bind_result (take_string ''text'' rest) (\<lambda>(s, rest'). Inr (Text s, rest'))
     else if tag = 4 then bind_result (take_bytes rest) (\<lambda>(b, rest'). Inr (Blob b, rest'))
     else Inl (Codec ''bad value tag''))"

definition decode_site :: "bytes \<Rightarrow> sync_error + bytes option \<times> bytes" where
  "decode_site buf = bind_result (take_u8 buf) (\<lambda>(tag, rest).
     if tag = 0 then Inr (None, rest)
     else if tag = 1 then bind_result (take_bytes rest) (\<lambda>(b, rest'). Inr (Some b, rest'))
     else Inl (Codec ''bad site tag''))"

definition decode_row :: "bytes \<Rightarrow> sync_error + change_row \<times> bytes" where
  "decode_row b0 =
     bind_result (take_string ''table'' b0) (\<lambda>(table, b1).
     bind_result (take_bytes b1) (\<lambda>(pk, b2).
     bind_result (take_string ''cid'' b2) (\<lambda>(cid, b3).
     bind_result (decode_value b3) (\<lambda>(val, b4).
     bind_result (take_i64 b4) (\<lambda>(col_version, b5).
     bind_result (take_i64 b5) (\<lambda>(db_version, b6).
     bind_result (decode_site b6) (\<lambda>(site_id, b7).
     bind_result (take_i64 b7) (\<lambda>(cl, b8).
     bind_result (take_i64 b8) (\<lambda>(seq, b9).
       Inr (\<lparr>cr_table = table, cr_pk = pk, cr_cid = cid, cr_val = val, cr_col_version = col_version,
         cr_db_version = db_version, cr_site_id = site_id, cr_cl = cl, cr_seq = seq\<rparr>, b9))))))))))"

fun decode_rows :: "nat \<Rightarrow> bytes \<Rightarrow> sync_error + change_row list \<times> bytes" where
  "decode_rows 0 buf = Inr ([], buf)"
| "decode_rows (Suc n) buf = bind_result (decode_row buf) (\<lambda>(r, rest).
     bind_result (decode_rows n rest) (\<lambda>(rs, rest'). Inr (r # rs, rest')))"

definition decode_changeset :: "bytes \<Rightarrow> sync_error + change_row list" where
  "decode_changeset buf =
     (if length buf < 4 then Inl (Codec ''truncated header'')
      else bind_result (decode_rows (from_be (take 4 buf)) (drop 4 buf)) (\<lambda>(rows, _). Inr rows))"

text \<open>The vector for the rows is reserved from the count in the header, before any row is read. With room for
  \<open>room\<close> rows in memory, \<open>None\<close> is the aborted process.\<close>

definition decode_in_memory :: "nat \<Rightarrow> bytes \<Rightarrow> (sync_error + change_row list) option" where
  "decode_in_memory room buf =
     (if length buf \<ge> 4 \<and> from_be (take 4 buf) > room then None else Some (decode_changeset buf))"

text \<open>\<open>row_encoded_size\<close> of \<open>outbox.rs\<close>.\<close>

definition row_encoded_size :: "change_row \<Rightarrow> nat" where
  "row_encoded_size r =
     (4 + length (cr_table r)) + (4 + length (cr_pk r)) + (4 + length (cr_cid r))
     + (case cr_val r of Null \<Rightarrow> 1 | Integer _ \<Rightarrow> 1 + 8 | Real _ \<Rightarrow> 1 + 8
        | Text s \<Rightarrow> 1 + 4 + length s | Blob b \<Rightarrow> 1 + 4 + length b)
     + 8 + 8 + (1 + (case cr_site_id r of None \<Rightarrow> 0 | Some s \<Rightarrow> 4 + length s)) + 8 + 8"

subsection \<open>Every decoder inverts its encoder, and accepts nothing else\<close>

text \<open>The contract of an encoder and the decoder that reads it off the front of a buffer.\<close>

locale wire_codec =
  fixes ok :: "'a \<Rightarrow> bool"
    and enc :: "'a \<Rightarrow> bytes"
    and dec :: "bytes \<Rightarrow> sync_error + 'a \<times> bytes"
  assumes dec_enc: "ok x \<Longrightarrow> dec (enc x @ rest) = Inr (x, rest)"
    and enc_dec: "dec buf = Inr (x, rest) \<Longrightarrow> ok x \<and> buf = enc x @ rest"
begin

lemma dec_iff: "dec buf = Inr (x, rest) \<longleftrightarrow> ok x \<and> buf = enc x @ rest"
proof
  assume "dec buf = Inr (x, rest)"
  then show "ok x \<and> buf = enc x @ rest" by (rule enc_dec)
qed (simp add: dec_enc)

lemma enc_prefix_free:
  assumes "ok x" and "ok y" and "enc x @ r = enc y @ q"
  shows "x = y \<and> r = q"
proof -
  have "Inr (x, r) = dec (enc y @ q)" using dec_enc [OF assms(1), of r] unfolding assms(3) by simp
  then show ?thesis unfolding dec_enc [OF assms(2)] by simp
qed

end

definition wf_bytes :: "bytes \<Rightarrow> bool" where
  "wf_bytes b \<longleftrightarrow> length b < 2 ^ 32"

definition wf_text :: "bytes \<Rightarrow> bool" where
  "wf_text s \<longleftrightarrow> wf_bytes s \<and> utf8_ok s"

fun wf_value :: "sql_value \<Rightarrow> bool" where
  "wf_value (Integer i) \<longleftrightarrow> in_i64 i"
| "wf_value (Text s) \<longleftrightarrow> wf_text s"
| "wf_value (Blob b) \<longleftrightarrow> wf_bytes b"
| "wf_value _ = True"

definition wf_site :: "bytes option \<Rightarrow> bool" where
  "wf_site s = (case s of None \<Rightarrow> True | Some b \<Rightarrow> wf_bytes b)"

definition wf_row :: "change_row \<Rightarrow> bool" where
  "wf_row r \<longleftrightarrow> wf_text (cr_table r) \<and> wf_bytes (cr_pk r) \<and> wf_text (cr_cid r) \<and> wf_value (cr_val r) \<and>
     in_i64 (cr_col_version r) \<and> in_i64 (cr_db_version r) \<and> wf_site (cr_site_id r) \<and>
     in_i64 (cr_cl r) \<and> in_i64 (cr_seq r)"

lemma i64_of_nat: "in_i64 i \<Longrightarrow> i64_of (nat (i mod 2 ^ 64)) = i"
proof -
  assume i: "in_i64 i"
  show ?thesis
  proof (cases "0 \<le> i")
    case True
    with i show ?thesis by (simp add: i64_of_def machine_int_defs)
  next
    case False
    then have "i mod 2 ^ 64 = i + 2 ^ 64"
      using i mod_pos_pos_trivial [of "i + 2 ^ 64" "2 ^ 64"] by (simp add: machine_int_defs)
    with False i show ?thesis by (simp add: i64_of_def machine_int_defs)
  qed
qed

lemma nat_i64_of: "n < 2 ^ 64 \<Longrightarrow> nat (i64_of n mod 2 ^ 64) = n \<and> in_i64 (i64_of n)"
proof -
  assume n: "n < 2 ^ 64"
  then have m: "int n mod 2 ^ 64 = int n" by (simp add: mod_pos_pos_trivial)
  then have "(int n - 2 ^ 64) mod 2 ^ 64 = int n" by (simp only: minus_mod_self2)
  with m have "nat (i64_of n mod 2 ^ 64) = n" by (simp add: i64_of_def)
  moreover have "in_i64 (i64_of n)" using n by (simp add: i64_of_def machine_int_defs)
  ultimately show ?thesis by blast
qed

lemma from_be_lt_64: "length bs = 8 \<Longrightarrow> from_be bs < 2 ^ 64"
  using from_be_less [of bs] by simp

lemma from_be_lt_32: "length bs = 4 \<Longrightarrow> from_be bs < 2 ^ 32"
  using from_be_less [of bs] by simp

interpretation bytes_codec: wire_codec wf_bytes put_bytes take_bytes
proof
  fix x rest
  assume "wf_bytes x"
  then show "take_bytes (put_bytes x @ rest) = Inr (x, rest)"
    by (simp add: take_bytes_def put_bytes_def wf_bytes_def Let_def)
next
  fix buf x rest
  assume d: "take_bytes buf = Inr (x, rest)"
  define n where "n = from_be (take 4 buf)"
  have l: "4 \<le> length buf" "n \<le> length (drop 4 buf)" "x = take n (drop 4 buf)" "rest = drop n (drop 4 buf)"
    using d by (auto simp: take_bytes_def Let_def n_def split: if_splits)
  then have "u32_be n = take 4 buf" "n < 2 ^ 32"
    using u32_be_from_be [of "take 4 buf"] from_be_lt_32 [of "take 4 buf"] by (simp_all add: n_def)
  moreover have "length x = n" "x @ rest = drop 4 buf" using l(2) unfolding l(3,4) by (simp_all del: drop_drop)
  ultimately show "wf_bytes x \<and> buf = put_bytes x @ rest"
    using append_take_drop_id [of 4 buf] by (simp add: wf_bytes_def put_bytes_def)
qed

interpretation u64_codec: wire_codec "\<lambda>n. n < 2 ^ 64" u64_be take_u64
proof
  fix x :: nat and rest
  assume "x < 2 ^ 64"
  then show "take_u64 (u64_be x @ rest) = Inr (x, rest)" by (simp add: take_u64_def)
next
  fix buf x rest
  assume "take_u64 buf = Inr (x, rest)"
  then have "8 \<le> length buf" "x = from_be (take 8 buf)" "rest = drop 8 buf"
    by (auto simp: take_u64_def split: if_splits)
  then show "x < 2 ^ 64 \<and> buf = u64_be x @ rest"
    using from_be_lt_64 [of "take 8 buf"] u64_be_from_be [of "take 8 buf"] by simp
qed

interpretation i64_codec: wire_codec in_i64 i64_be take_i64
proof
  fix x rest
  assume "in_i64 x"
  moreover have "nat (x mod 2 ^ 64) < 2 ^ 64" by (simp add: nat_less_iff)
  ultimately show "take_i64 (i64_be x @ rest) = Inr (x, rest)"
    by (simp only: take_i64_def i64_be_def u64_codec.dec_enc bind_result_Inr i64_of_nat prod.case)
next
  fix buf x rest
  assume "take_i64 buf = Inr (x, rest)"
  then obtain n where n: "take_u64 buf = Inr (n, rest)" "x = i64_of n"
    by (auto simp: take_i64_def bind_result_eq_Inr)
  from u64_codec.enc_dec [OF n(1)] nat_i64_of [of n] show "in_i64 x \<and> buf = i64_be x @ rest"
    by (simp add: n(2) i64_be_def)
qed

interpretation text_codec: wire_codec wf_text put_bytes "take_string what" for what
proof
  fix x rest
  assume "wf_text x"
  then show "take_string what (put_bytes x @ rest) = Inr (x, rest)"
    by (simp add: wf_text_def take_string_def bytes_codec.dec_enc)
next
  fix buf x rest
  assume "take_string what buf = Inr (x, rest)"
  then have "take_bytes buf = Inr (x, rest)" "utf8_ok x"
    by (auto simp: take_string_def bind_result_eq_Inr split: if_splits)
  then show "wf_text x \<and> buf = put_bytes x @ rest"
    using bytes_codec.enc_dec by (auto simp: wf_text_def)
qed

lemma take_u8_iff: "take_u8 buf = Inr (b, rest) \<longleftrightarrow> buf = b # rest"
  by (auto simp: take_u8_def split: list.splits)

lemmas codec_iffs = bytes_codec.dec_iff u64_codec.dec_iff i64_codec.dec_iff text_codec.dec_iff take_u8_iff

interpretation value_codec: wire_codec wf_value encode_value decode_value
proof
  fix x rest
  assume "wf_value x"
  moreover have "unat (f :: 64 word) < 2 ^ 64" for f by (rule unsigned_less [THEN less_le_trans]) simp
  ultimately show "decode_value (encode_value x @ rest) = Inr (x, rest)"
    by (cases x) (simp_all add: decode_value_def encode_value_def take_u8_def u64_codec.dec_enc
      i64_codec.dec_enc bytes_codec.dec_enc text_codec.dec_enc)
next
  fix buf x rest
  assume "decode_value buf = Inr (x, rest)"
  moreover have "unat (of_nat n :: 64 word) = n" if "n < 2 ^ 64" for n
    using that by (simp add: unat_of_nat)
  ultimately show "wf_value x \<and> buf = encode_value x @ rest"
    by (auto simp: decode_value_def encode_value_def bind_result_eq_Inr codec_iffs split: if_splits)
qed

interpretation site_codec: wire_codec wf_site encode_site decode_site
proof
  fix x rest
  assume "wf_site x"
  then show "decode_site (encode_site x @ rest) = Inr (x, rest)"
    by (cases x) (simp_all add: decode_site_def encode_site_def take_u8_def wf_site_def bytes_codec.dec_enc)
next
  fix buf x rest
  assume "decode_site buf = Inr (x, rest)"
  then show "wf_site x \<and> buf = encode_site x @ rest"
    by (auto simp: decode_site_def encode_site_def wf_site_def bind_result_eq_Inr codec_iffs split: if_splits)
qed

interpretation row_codec: wire_codec wf_row encode_row decode_row
proof
  fix x rest
  assume "wf_row x"
  then show "decode_row (encode_row x @ rest) = Inr (x, rest)"
    by (simp add: wf_row_def decode_row_def encode_row_def text_codec.dec_enc bytes_codec.dec_enc
      value_codec.dec_enc i64_codec.dec_enc site_codec.dec_enc)
next
  fix buf x rest
  assume "decode_row buf = Inr (x, rest)"
  then show "wf_row x \<and> buf = encode_row x @ rest"
    by (auto simp: decode_row_def encode_row_def wf_row_def bind_result_eq_Inr codec_iffs
      value_codec.dec_iff site_codec.dec_iff)
qed

lemma decode_rows_iff:
  "decode_rows n buf = Inr (rs, rest) \<longleftrightarrow> length rs = n \<and> (\<forall>r\<in>set rs. wf_row r) \<and> buf = concat (map encode_row rs) @ rest"
  by (induction n arbitrary: buf rs)
    (fastforce simp: bind_result_eq_Inr row_codec.dec_iff length_Suc_conv)+

subsection \<open>The ciphers\<close>

text \<open>The provided methods of the trait \<open>TwoEnvelope\<close>: the vault key and the associated data of the
  wrap are the implementor's, the random key and nonces are arguments.\<close>

definition wrapped_key_len :: nat where
  "wrapped_key_len = 1 + 32 + 24 + 32 + 16"

definition two_envelope_seal :: "crates \<Rightarrow> aead \<Rightarrow> bytes \<Rightarrow> bytes option \<Rightarrow> bytes option \<Rightarrow> bytes \<Rightarrow> bytes
    \<Rightarrow> bytes \<Rightarrow> bytes \<Rightarrow> bytes outcome" where
  "two_envelope_seal X A vault_key wrap payload data_key wrap_nonce ct_nonce plaintext =
     c_bind (no_panic payload) (\<lambda>payload_aad.
     c_bind (no_panic wrap) (\<lambda>wrap_aad.
     c_bind (seal_committing X A vault_key wrap_nonce data_key wrap_aad) (\<lambda>wrapped.
     c_bind (Some (seal_standard A data_key ct_nonce plaintext payload_aad)) (\<lambda>sealed.
       Some (Inr (wrapped @ sealed))))))"

definition two_envelope_open :: "crates \<Rightarrow> aead \<Rightarrow> bytes \<Rightarrow> bytes option \<Rightarrow> bytes option \<Rightarrow> bytes \<Rightarrow> bytes outcome" where
  "two_envelope_open X A vault_key wrap payload blob =
     c_bind (no_panic payload) (\<lambda>payload_aad.
       if length blob < wrapped_key_len then Some (Inl Malformed)
       else c_bind (no_panic wrap) (\<lambda>wrap_aad.
         c_bind (open_committing X A vault_key (take wrapped_key_len blob) wrap_aad) (\<lambda>data_key.
           if length data_key \<noteq> 32 then Some (Inl Malformed)
           else Some (open_standard A data_key (drop wrapped_key_len blob) payload_aad))))"

record changeset_cipher =
  cc_vault_key :: bytes
  cc_epoch :: "32 word"
  cc_tenant :: uuid
  cc_schema :: "32 word"
  cc_engine :: "32 word"

definition wrap_data_aad :: "32 word \<Rightarrow> bytes option" where
  "wrap_data_aad epoch = lp [[envelope_version], str_bytes ''yapstack.wrap.data.v1'', u32_be (unat epoch)]"

definition changeset_aad :: "changeset_cipher \<Rightarrow> uuid \<Rightarrow> int \<Rightarrow> bytes option" where
  "changeset_aad c client client_seq =
     lp [[envelope_version], str_bytes ''yapstack.changeset.v1'', uuid_bytes (cc_tenant c), uuid_bytes client,
       i64_be client_seq, u32_be (unat (cc_schema c)), u32_be (unat (cc_engine c))]"

definition changeset_encrypt :: "crates \<Rightarrow> aead \<Rightarrow> changeset_cipher \<Rightarrow> uuid \<Rightarrow> int \<Rightarrow> bytes \<Rightarrow> bytes \<Rightarrow> bytes
    \<Rightarrow> bytes \<Rightarrow> bytes outcome" where
  "changeset_encrypt X A c client client_seq data_key wrap_nonce ct_nonce plaintext =
     two_envelope_seal X A (cc_vault_key c) (wrap_data_aad (cc_epoch c)) (changeset_aad c client client_seq)
       data_key wrap_nonce ct_nonce plaintext"

definition changeset_decrypt :: "crates \<Rightarrow> aead \<Rightarrow> changeset_cipher \<Rightarrow> uuid \<Rightarrow> int \<Rightarrow> bytes \<Rightarrow> bytes outcome" where
  "changeset_decrypt X A c client client_seq blob =
     two_envelope_open X A (cc_vault_key c) (wrap_data_aad (cc_epoch c)) (changeset_aad c client client_seq) blob"

record snapshot_cipher =
  sc_vault_key :: bytes
  sc_epoch :: "32 word"
  sc_tenant :: uuid

definition wrap_snapshot_aad :: "32 word \<Rightarrow> bytes option" where
  "wrap_snapshot_aad epoch = lp [[envelope_version], str_bytes ''yapstack.wrap.snapshot.v1'', u32_be (unat epoch)]"

definition snapshot_aad :: "snapshot_cipher \<Rightarrow> nat \<Rightarrow> bytes option" where
  "snapshot_aad c generation =
     lp [[envelope_version], str_bytes ''yapstack.snapshot.v1'', uuid_bytes (sc_tenant c), u64_be generation]"

definition snapshot_encrypt :: "crates \<Rightarrow> aead \<Rightarrow> snapshot_cipher \<Rightarrow> nat \<Rightarrow> bytes \<Rightarrow> bytes \<Rightarrow> bytes \<Rightarrow> bytes \<Rightarrow> bytes outcome" where
  "snapshot_encrypt X A c generation data_key wrap_nonce ct_nonce plaintext =
     two_envelope_seal X A (sc_vault_key c) (wrap_snapshot_aad (sc_epoch c)) (snapshot_aad c generation)
       data_key wrap_nonce ct_nonce plaintext"

definition snapshot_decrypt :: "crates \<Rightarrow> aead \<Rightarrow> snapshot_cipher \<Rightarrow> nat \<Rightarrow> bytes \<Rightarrow> bytes outcome" where
  "snapshot_decrypt X A c generation blob =
     two_envelope_open X A (sc_vault_key c) (wrap_snapshot_aad (sc_epoch c)) (snapshot_aad c generation) blob"

lemma two_envelope_roundtrip:
  assumes "hmac_law X" and "aead_law A" and "length data_key = 32" and "length wrap_nonce = 24"
    and "length ct_nonce = 24" and "wrap = Some wa" and "payload = Some pa"
  shows "\<exists>blob. two_envelope_seal X A vault wrap payload data_key wrap_nonce ct_nonce pt = Some (Inr blob) \<and>
    length blob = length pt + 146 \<and> two_envelope_open X A vault wrap payload blob = Some (Inr pt)"
proof -
  obtain w where w: "seal_committing X A vault wrap_nonce data_key wa = Some (Inr w)" "length w = 105"
    "open_committing X A vault w wa = Some (Inr data_key)"
    using committing_roundtrip [OF assms(1,2,4), of vault data_key wa] assms(3) by auto
  obtain b where b: "seal_standard A data_key ct_nonce pt pa = Inr b" "length b = length pt + 41"
    "open_standard A data_key b pa = Inr pt" using standard_roundtrip [OF assms(2,5)] by blast
  with w assms(3,6,7) show ?thesis
    by (simp add: two_envelope_seal_def two_envelope_open_def wrapped_key_len_def)
qed

lemma length_i64_be [simp]: "length (i64_be i) = 8"
  by (simp add: i64_be_def)

lemma changeset_aads: "\<exists>a. changeset_aad c client q = Some a" "\<exists>a. wrap_data_aad e = Some a"
  "\<exists>a. snapshot_aad sc g = Some a" "\<exists>a. wrap_snapshot_aad e = Some a"
  by (simp_all add: changeset_aad_def wrap_data_aad_def snapshot_aad_def wrap_snapshot_aad_def)

lemma u32_be_word_inj: "u32_be (unat (a :: 32 word)) = u32_be (unat b) \<Longrightarrow> a = b"
proof -
  assume "u32_be (unat a) = u32_be (unat b)"
  moreover have "unat (e :: 32 word) < 2 ^ 32" for e by (rule unsigned_less [THEN less_le_trans]) simp
  ultimately show "a = b" using u32_be_inj word_unat_eq_iff by blast
qed

lemma changeset_aad_inj:
  assumes "changeset_aad c client q = Some a" and "changeset_aad c' client' q' = Some a" and "in_i64 q" and "in_i64 q'"
  shows "client' = client \<and> q' = q \<and> cc_tenant c' = cc_tenant c \<and> cc_schema c' = cc_schema c \<and> cc_engine c' = cc_engine c"
proof -
  have f: "uuid_bytes (cc_tenant c) = uuid_bytes (cc_tenant c')" "uuid_bytes client = uuid_bytes client'"
    "i64_be q = i64_be q'" "u32_be (unat (cc_schema c)) = u32_be (unat (cc_schema c'))"
    "u32_be (unat (cc_engine c)) = u32_be (unat (cc_engine c'))"
    using lp_inj [OF assms(1,2) [unfolded changeset_aad_def]] by simp_all
  have "q = q'" using i64_codec.enc_prefix_free [OF assms(3,4), of "[]" "[]"] f(3) by simp
  with f show ?thesis by (auto simp: uuid_bytes_inj dest!: u32_be_word_inj)
qed

lemma length_encode_row: "length (encode_row r) = row_encoded_size r"
  by (simp add: encode_row_def row_encoded_size_def put_bytes_def encode_value_def encode_site_def
    split: sql_value.split option.split)

lemma encrypt_decrypt:
  assumes "hmac_law X" and "aead_law A" and "length data_key = 32" and "length wrap_nonce = 24" and "length ct_nonce = 24"
  shows "\<exists>blob. changeset_encrypt X A c client q data_key wrap_nonce ct_nonce pt = Some (Inr blob) \<and>
      length blob = length pt + 146 \<and> changeset_decrypt X A c client q blob = Some (Inr pt)"
  using changeset_aads two_envelope_roundtrip [OF assms] unfolding changeset_encrypt_def changeset_decrypt_def by blast

definition wf_changeset :: "change_row list \<Rightarrow> bool" where
  "wf_changeset rows \<longleftrightarrow> length rows < 2 ^ 32 \<and> (\<forall>r\<in>set rows. wf_row r)"

lemma decode_encode: "wf_changeset rows \<Longrightarrow> decode_changeset (encode_changeset rows @ rest) = Inr rows"
  by (simp add: decode_changeset_def encode_changeset_def wf_changeset_def bind_result_eq_Inr decode_rows_iff)

subsection \<open>Properties\<close>

text \<open>A header of four bytes reserves room for \<open>2 ^ 32 - 1\<close> rows, though no row follows.\<close>

lemma decode_reserves_announced_count:
  assumes "room < 2 ^ 32 - 1"
  shows "decode_in_memory room (replicate 4 255) = None \<and> decode_changeset (replicate 4 255) = Inl (Codec ''truncated length'')"
proof -
  define n where "n = from_be (replicate 4 (255 :: 8 word))"
  have "replicate 4 x = [x, x, x, x]" for x :: "8 word" by (simp add: numeral_eq_Suc)
  then have n: "n = 2 ^ 32 - 1" by (simp add: n_def from_be_def)
  have none: "decode_rows m [] = Inl (Codec ''truncated length'')" if "0 < m" for m
    using that by (cases m) (simp_all add: decode_row_def take_string_def take_bytes_def bind_result_Inl)
  have "0 < n" by (simp add: n)
  from none [OF this] have "decode_changeset (replicate 4 255) = Inl (Codec ''truncated length'')"
    by (simp add: decode_changeset_def n_def)
  with assms n show ?thesis by (simp add: decode_in_memory_def n_def [symmetric])
qed

text \<open>C28. The changeset codec is exact. Decoding accepts a buffer exactly when it starts with the
  encoding of well-formed rows (texts in UTF-8, integers in 64 bits, fields below 4 GiB), whatever
  bytes follow that encoding, and returns those rows; so every well-formed changeset round-trips, two
  changesets never share their bytes, and what decodes is well formed whatever the bytes. The
  capture's size estimate of a row is the number of bytes its encoding takes.\<close>

theorem changeset_codec_exact:
  "(decode_changeset buf = Inr rows \<longleftrightarrow> wf_changeset rows \<and> (\<exists>rest. buf = encode_changeset rows @ rest)) \<and>
   length (encode_row r) = row_encoded_size r"
proof
  show "decode_changeset buf = Inr rows \<longleftrightarrow> wf_changeset rows \<and> (\<exists>rest. buf = encode_changeset rows @ rest)"
  proof
    assume d: "decode_changeset buf = Inr rows"
    define n where "n = from_be (take 4 buf)"
    from d obtain rest where "4 \<le> length buf" and rows: "decode_rows n (drop 4 buf) = Inr (rows, rest)"
      by (auto simp: decode_changeset_def n_def bind_result_eq_Inr split: if_splits)
    then have "take 4 buf = u32_be n" "n < 2 ^ 32"
      using u32_be_from_be [of "take 4 buf"] from_be_lt_32 [of "take 4 buf"] by (simp_all add: n_def)
    moreover have "length rows = n" "\<forall>r\<in>set rows. wf_row r" "drop 4 buf = concat (map encode_row rows) @ rest"
      using rows by (auto simp: decode_rows_iff)
    ultimately have "wf_changeset rows" "buf = encode_changeset rows @ rest"
      using append_take_drop_id [of 4 buf] by (simp_all add: wf_changeset_def encode_changeset_def)
    then show "wf_changeset rows \<and> (\<exists>rest. buf = encode_changeset rows @ rest)" by blast
  next
    assume "wf_changeset rows \<and> (\<exists>rest. buf = encode_changeset rows @ rest)"
    then obtain rest where "wf_changeset rows" "buf = encode_changeset rows @ rest" by blast
    then show "decode_changeset buf = Inr rows" by (simp add: decode_encode)
  qed
  show "length (encode_row r) = row_encoded_size r" by (rule length_encode_row)
qed

text \<open>Encryption round-trips: a changeset encrypted for a client and sequence number, and a
  snapshot encrypted for a generation, decrypt under the same context to the plaintext, in exactly
  146 bytes more, whatever the random keys and nonces.\<close>

theorem changeset_cipher_roundtrip:
  assumes "hmac_law X" and "aead_law A" and "length data_key = 32" and "length wrap_nonce = 24" and "length ct_nonce = 24"
  shows "(\<exists>blob. changeset_encrypt X A c client q data_key wrap_nonce ct_nonce pt = Some (Inr blob) \<and>
      length blob = length pt + 146 \<and> changeset_decrypt X A c client q blob = Some (Inr pt)) \<and>
    (\<exists>blob. snapshot_encrypt X A sc g data_key wrap_nonce ct_nonce pt = Some (Inr blob) \<and>
      length blob = length pt + 146 \<and> snapshot_decrypt X A sc g blob = Some (Inr pt))"
  using changeset_aads two_envelope_roundtrip [OF assms]
  unfolding changeset_encrypt_def changeset_decrypt_def snapshot_encrypt_def snapshot_decrypt_def by blast

lemma changeset_cipher_roundtrip_witness:
  "\<exists>blob. changeset_encrypt toy_crates toy_aead \<lparr>cc_vault_key = [1], cc_epoch = 0, cc_tenant = 5, cc_schema = 1, cc_engine = 16003\<rparr>
     7 3 (replicate 32 7) (replicate 24 1) (replicate 24 2) [9, 8] = Some (Inr blob) \<and> length blob = 148"
  using changeset_cipher_roundtrip [OF toy_hmac toy_aead_laws(1), where data_key = "replicate 32 7" and
    wrap_nonce = "replicate 24 1" and ct_nonce = "replicate 24 2" and pt = "[9, 8]" and client = 7 and q = 3 and
    c = "\<lparr>cc_vault_key = [1], cc_epoch = 0, cc_tenant = 5, cc_schema = 1, cc_engine = 16003\<rparr>"] by auto

text \<open>
  The calls of \<open>changeset_encrypt\<close> by the holders of a vault key: cipher, author, number, data key,
  wrap nonce, nonce and plaintext. Each wraps its data key under a derived key and encrypts the
  plaintext under the data key.
\<close>

type_synonym changeset_call = "changeset_cipher \<times> uuid \<times> int \<times> bytes \<times> bytes \<times> bytes \<times> bytes"

definition changeset_events :: "crates \<Rightarrow> bytes \<Rightarrow> changeset_call set \<Rightarrow> (bytes \<times> bytes \<times> bytes \<times> bytes) set" where
  "changeset_events X vault_key calls =
     {(k, n, a, m). \<exists>c client q cn pt okm. (c, client, q, m, n, cn, pt) \<in> calls \<and> wrap_data_aad (cc_epoch c) = Some a \<and>
        hkdf_extract_expand X n vault_key commit_info 64 = Some okm \<and> k = take 32 (drop 32 okm)} \<union>
     {(k, n, a, m). \<exists>c client q wn. (c, client, q, k, wn, n, m) \<in> calls \<and> changeset_aad c client q = Some a}"

text \<open>The keys: those derived from the vault key, and the data keys.\<close>

definition changeset_keys :: "crates \<Rightarrow> bytes \<Rightarrow> changeset_call set \<Rightarrow> bytes set" where
  "changeset_keys X vault_key calls = derived_keys X vault_key \<union> {k. \<exists>c client q wn cn pt. (c, client, q, k, wn, cn, pt) \<in> calls}"

definition foreign_event :: "bytes \<times> bytes \<times> bytes \<times> bytes \<Rightarrow> bool" where
  "foreign_event e \<longleftrightarrow> (\<forall>epoch. wrap_data_aad epoch \<noteq> Some (fst (snd (snd e)))) \<and>
     (\<forall>c client q. changeset_aad c client q \<noteq> Some (fst (snd (snd e))))"

lemma wrap_not_changeset: "wrap_data_aad e \<noteq> changeset_aad c client q"
proof
  assume "wrap_data_aad e = changeset_aad c client q"
  moreover obtain a where "wrap_data_aad e = Some a" using changeset_aads by blast
  ultimately have "wrap_data_aad e = Some a" "changeset_aad c client q = Some a" by simp_all
  from lp_inj [OF this [unfolded wrap_data_aad_def changeset_aad_def]] show False by simp
qed

lemma wrap_event:
  assumes "(k, n, a, m) \<in> changeset_events X vault_key calls" and "wrap_data_aad e = Some a"
  shows "\<exists>c client q cn pt. (c, client, q, m, n, cn, pt) \<in> calls"
proof -
  have "changeset_aad c client q \<noteq> Some a" for c client q using wrap_not_changeset [of e] assms(2) by metis
  with assms(1) show ?thesis unfolding changeset_events_def by blast
qed

text \<open>C23. What decrypts as the changeset of a client at a sequence number was encrypted for that
  client at that number, in this workspace and under this schema and engine version, and is the very
  plaintext: the relay can neither alter a changeset nor move it to another place in a log, to
  another author or to another workspace. Any bytes are answered; none make the code panic. The
  cipher is trusted for the served bytes only: what opens there under a key of the vault was
  sealed by a holder of the vault key, by one of these calls or in another domain.\<close>

theorem changeset_authentic:
  assumes "hmac_law X"
    and "unforged A blob (changeset_keys X (cc_vault_key c) calls) (changeset_events X (cc_vault_key c) calls \<union> other)"
    and "\<forall>e\<in>other. foreign_event e"
    and "\<forall>(c', client', q', rest)\<in>calls. in_i64 q'" and "in_i64 q"
  shows "\<exists>r. changeset_decrypt X A c client q blob = Some r \<and> (\<forall>pt. r = Inr pt \<longrightarrow>
    (\<exists>c' k wn cn. (c', client, q, k, wn, cn, pt) \<in> calls \<and> cc_tenant c' = cc_tenant c \<and> cc_schema c' = cc_schema c \<and>
      cc_engine c' = cc_engine c))"
proof -
  obtain pa where pa: "changeset_aad c client q = Some pa" using changeset_aads by blast
  obtain wa where wa: "wrap_data_aad (cc_epoch c) = Some wa" using changeset_aads by blast
  define nonce where "nonce = take 24 (drop 33 (take wrapped_key_len blob))"
  obtain okm where okm: "hkdf_extract_expand X nonce (cc_vault_key c) commit_info 64 = Some okm"
    using hkdf_64 [OF assms(1)] by blast
  have piece: "sublist (drop n (take m blob)) blob" "sublist (drop n (drop m blob)) blob" for n m
    by (meson sublist_drop sublist_take sublist_order.order_trans)+
  have sealed: "(k, n, a, m) \<in> changeset_events X (cc_vault_key c) calls"
    if "k \<in> changeset_keys X (cc_vault_key c) calls" "sublist x blob" "aead_decrypt A k n a x = Some m" "a = wa \<or> a = pa" for k n a m x
  proof -
    have "(k, n, a, m) \<in> changeset_events X (cc_vault_key c) calls \<union> other" using assms(2) that(1-3) unfolding unforged_def by blast
    moreover have "\<not> foreign_event (k, n, a, m)" using that(4) pa wa by (auto simp: foreign_event_def)
    ultimately show ?thesis using assms(3) by blast
  qed
  show ?thesis
  proof (cases "changeset_decrypt X A c client q blob")
    case None
    with pa wa okm show ?thesis
      by (auto simp: changeset_decrypt_def two_envelope_open_def open_committing_def c_bind_def Let_def nonce_def
        split: if_splits sum.splits option.splits)
  next
    case (Some r)
    have "\<exists>c' k wn cn. (c', client, q, k, wn, cn, pt) \<in> calls \<and> cc_tenant c' = cc_tenant c \<and> cc_schema c' = cc_schema c \<and>
      cc_engine c' = cc_engine c" if r: "r = Inr pt" for pt
    proof -
      obtain k where k: "open_committing X A (cc_vault_key c) (take wrapped_key_len blob) wa = Some (Inr k)"
        "open_standard A k (drop wrapped_key_len blob) pa = Inr pt"
        using Some pa wa unfolding r changeset_decrypt_def two_envelope_open_def
        by (auto simp: result_simps split: if_splits)
      have "aead_decrypt A (take 32 (drop 32 okm)) nonce wa (drop 57 (take wrapped_key_len blob)) = Some k"
        using k(1) okm by (auto simp: open_committing_def Let_def nonce_def result_simps split: if_splits)
      moreover have "take 32 (drop 32 okm) \<in> changeset_keys X (cc_vault_key c) calls"
        using okm by (auto simp: changeset_keys_def derived_keys_def)
      ultimately have "(take 32 (drop 32 okm), nonce, wa, k) \<in> changeset_events X (cc_vault_key c) calls"
        using sealed piece(1) by blast
      then have "k \<in> changeset_keys X (cc_vault_key c) calls"
        using wrap_event [OF _ wa] unfolding changeset_keys_def by blast
      moreover obtain n where "aead_decrypt A k n pa (drop 25 (drop wrapped_key_len blob)) = Some pt"
        using k(2) by (auto simp: open_standard_def result_simps split: if_splits)
      ultimately have "(k, n, pa, pt) \<in> changeset_events X (cc_vault_key c) calls" using sealed piece(2) by blast
      then obtain c' client' q' wn where call: "(c', client', q', k, wn, n, pt) \<in> calls" "changeset_aad c' client' q' = Some pa"
        using pa wrap_not_changeset [of _ c client q] by (auto simp: changeset_events_def)
      then have "in_i64 q'" using assms(4) by blast
      from changeset_aad_inj [OF pa call(2) assms(5) this] call(1) show ?thesis by auto
    qed
    with Some show ?thesis by blast
  qed
qed

text \<open>One changeset, encrypted once under the vault key, and its blob, under the marking cipher.\<close>

definition two_cipher :: changeset_cipher where
  "two_cipher = \<lparr>cc_vault_key = [1], cc_epoch = 0, cc_tenant = 5, cc_schema = 1, cc_engine = 16003\<rparr>"

definition two_calls :: "changeset_call set" where
  "two_calls = {(two_cipher, 7, 3, replicate 32 7, replicate 24 5, replicate 24 6, [9, 8])}"

definition two_aead :: "8 word \<Rightarrow> aead" where
  "two_aead b = tagged_aead b (changeset_events toy_crates [1] two_calls) {}"

definition two_blob :: bytes where
  "two_blob = ([envelope_version] @ take 32 (the (hkdf_extract_expand toy_crates (replicate 24 5) [1] commit_info 64))
      @ replicate 24 5 @ replicate 32 7 @ replicate 16 1)
     @ ([envelope_version] @ replicate 24 6 @ [9, 8] @ replicate 16 1)"

lemma two_blob_encrypted:
  "changeset_encrypt toy_crates (two_aead b) two_cipher 7 3 (replicate 32 7) (replicate 24 5) (replicate 24 6) [9, 8] = Some (Inr two_blob)"
proof -
  obtain okm where okm: "hkdf_extract_expand toy_crates (replicate 24 5) [1] commit_info 64 = Some okm" "length okm = 64"
    using hkdf_64 [OF toy_hmac] by blast
  obtain wa where wa: "wrap_data_aad 0 = Some wa" using changeset_aads by blast
  obtain pa where pa: "changeset_aad two_cipher 7 3 = Some pa" using changeset_aads by blast
  have "(take 32 (drop 32 okm), replicate 24 5, wa, replicate 32 7) \<in> changeset_events toy_crates [1] two_calls"
    using okm(1) wa unfolding changeset_events_def two_calls_def by (auto simp: two_cipher_def)
  then have w: "aead_encrypt (two_aead b) (take 32 (drop 32 okm)) (replicate 24 5) wa (replicate 32 7) = Some (replicate 32 7 @ replicate 16 1)"
    by (simp add: two_aead_def tagged_aead_def)
  have "(replicate 32 7, replicate 24 6, pa, [9, 8]) \<in> changeset_events toy_crates [1] two_calls"
    using pa unfolding changeset_events_def two_calls_def by auto
  then have p: "aead_encrypt (two_aead b) (replicate 32 7) (replicate 24 6) pa [9, 8] = Some ([9, 8] @ replicate 16 1)"
    by (simp add: two_aead_def tagged_aead_def)
  have "cc_vault_key two_cipher = [1]" "cc_epoch two_cipher = 0" by (simp_all add: two_cipher_def)
  with wa pa okm w p show ?thesis
    by (simp add: changeset_encrypt_def two_envelope_seal_def seal_committing_def seal_standard_def two_blob_def wrapped_key_len_def)
qed

text \<open>The cipher of the witness also obeys the laws that the round trip rests on.\<close>

lemma changeset_authentic_witness:
  "\<exists>A. aead_law A \<and> changeset_decrypt toy_crates A two_cipher 7 3 two_blob = Some (Inr [9, 8]) \<and>
     (\<exists>c' k wn cn. (c', 7, 3, k, wn, cn, [9, 8]) \<in> two_calls \<and> cc_tenant c' = 5)"
proof -
  obtain okm where "hkdf_extract_expand toy_crates (replicate 24 5) [1] commit_info 64 = Some okm" "length okm = 64"
    using hkdf_64 [OF toy_hmac] by blast
  then have "length two_blob = 148" by (simp add: two_blob_def)
  then obtain b where b: "b \<notin> set two_blob" using spare_byte [of two_blob] by auto
  have law: "aead_law (two_aead b)" using tagged_laws by (simp add: two_aead_def)
  have "changeset_decrypt toy_crates (two_aead b) two_cipher 7 3 two_blob = Some (Inr [9, 8])"
    using encrypt_decrypt [OF toy_hmac law, of "replicate 32 7" "replicate 24 5" "replicate 24 6" two_cipher 7 3 "[9, 8]"]
    unfolding two_blob_encrypted by simp
  moreover have "unforged (two_aead b) two_blob (changeset_keys toy_crates (cc_vault_key two_cipher) two_calls)
      (changeset_events toy_crates (cc_vault_key two_cipher) two_calls \<union> {})"
    using tagged_unforged(1) [OF b] by (simp add: two_aead_def two_cipher_def)
  moreover have "\<forall>(c', client', q', rest)\<in>two_calls. in_i64 q'" "in_i64 3" by (auto simp: two_calls_def machine_int_defs)
  ultimately have "\<exists>c' k wn cn. (c', 7, 3, k, wn, cn, [9, 8]) \<in> two_calls \<and> cc_tenant c' = 5 \<and>
      changeset_decrypt toy_crates (two_aead b) two_cipher 7 3 two_blob = Some (Inr [9, 8])"
    using changeset_authentic [OF toy_hmac, of "two_aead b" two_blob two_cipher two_calls "{}" 3 7] by (auto simp: two_cipher_def)
  with law show ?thesis by blast
qed

end
