(* ===== verification/Client_State.thy ===== *)
theory Client_State
  imports Changesets Pull
begin

text \<open>
  The client's local, non-synced sync state: \<open>crates/yapstack-sync/src/state.rs\<close>. The persisted
  key-value table with the watermarks and the outgoing counter, and the per-connection (TEMP)
  tables with the session's markers and the floor-raise backoff. The tables that the other modules
  keep beside them (outbox, crypto quarantine, stash) are in the same record, and the cr-sqlite
  database is its last component, of a type the model does not look into.

  The blockers that a backoff row stores as JSON are kept as the list they encode. Creating the
  tables is not modelled: they are there.
\<close>

record outbox_entry =
  oe_seq :: int
  oe_ciphertext :: bytes
  oe_schema :: int
  oe_engine :: int
  oe_acked :: bool
  oe_changeset :: "int option"
  oe_level :: int

record unreadable_row =
  ur_seq :: int
  ur_author :: string
  ur_client_seq :: int
  ur_ciphertext :: string
  ur_schema :: int
  ur_engine :: int
  ur_detail :: string

record stash_row =
  st_id :: int
  st_table :: bytes
  st_cid :: bytes
  st_blob :: bytes

record raise_row =
  rr_level :: int
  rr_kind :: string
  rr_blockers :: "capability_blocker list"
  rr_retry_at :: int
  rr_delay :: int
  rr_required :: "int option"
  rr_requested :: "int option"

record 'd client_db =
  cd_meta :: "string \<Rightarrow> string option"
  cd_markers :: "string set"
  cd_backoff :: "raise_row option"
  cd_outbox :: "outbox_entry list"
  cd_unreadable :: "unreadable_row list"
  cd_stash :: "stash_row list"
  cd_stash_next :: int
  cd_crr :: 'd

subsection \<open>Meta values\<close>

definition k_pull_wm :: string where "k_pull_wm = ''pull_watermark''"
definition k_push_wm :: string where "k_push_wm = ''push_watermark''"
definition k_client_seq :: string where "k_client_seq = ''client_seq''"
definition k_client_id :: string where "k_client_id = ''client_id''"

lemmas meta_keys = k_pull_wm_def k_push_wm_def k_client_seq_def k_client_id_def

definition get_str :: "string \<Rightarrow> 'd client_db \<Rightarrow> string option" where
  "get_str k db = cd_meta db k"

definition set_str :: "string \<Rightarrow> string \<Rightarrow> 'd client_db \<Rightarrow> 'd client_db" where
  "set_str k v db = db\<lparr>cd_meta := (cd_meta db)(k := Some v)\<rparr>"

definition get_i64 :: "string \<Rightarrow> 'd client_db \<Rightarrow> int" where
  "get_i64 k db = (case Option.bind (get_str k db) parse_i64 of Some i \<Rightarrow> i | None \<Rightarrow> 0)"

definition set_i64 :: "string \<Rightarrow> int \<Rightarrow> 'd client_db \<Rightarrow> 'd client_db" where
  "set_i64 k v db = set_str k (show_int v) db"

text \<open>\<open>Uuid::parse_str\<close> is a parameter; \<open>fresh\<close> is the random UUID.\<close>

definition client_id :: "(string \<Rightarrow> uuid option) \<Rightarrow> uuid \<Rightarrow> 'd client_db \<Rightarrow> uuid \<times> 'd client_db" where
  "client_id parse_uuid fresh db = (case Option.bind (get_str k_client_id db) parse_uuid of
       Some i \<Rightarrow> (i, db) | None \<Rightarrow> (fresh, set_str k_client_id (show_uuid fresh) db))"

definition pull_watermark :: "'d client_db \<Rightarrow> int" where
  "pull_watermark = get_i64 k_pull_wm"

definition set_pull_watermark :: "int \<Rightarrow> 'd client_db \<Rightarrow> 'd client_db" where
  "set_pull_watermark = set_i64 k_pull_wm"

definition push_watermark :: "'d client_db \<Rightarrow> int" where
  "push_watermark = get_i64 k_push_wm"

definition set_push_watermark :: "int \<Rightarrow> 'd client_db \<Rightarrow> 'd client_db" where
  "set_push_watermark = set_i64 k_push_wm"

definition client_seq :: "'d client_db \<Rightarrow> int" where
  "client_seq = get_i64 k_client_seq"

definition set_client_seq :: "int \<Rightarrow> 'd client_db \<Rightarrow> 'd client_db" where
  "set_client_seq = set_i64 k_client_seq"

definition next_client_seq :: "'d client_db \<Rightarrow> int \<times> 'd client_db" where
  "next_client_seq db = (client_seq db + 1, set_i64 k_client_seq (client_seq db + 1) db)"

subsection \<open>Session markers\<close>

definition k_seq_reconciled :: string where "k_seq_reconciled = ''seq_reconciled''"
definition k_gate_proven :: string where "k_gate_proven = ''capability_gate_proven''"

definition session_marker :: "string \<Rightarrow> 'd client_db \<Rightarrow> bool" where
  "session_marker k db \<longleftrightarrow> k \<in> cd_markers db"

definition set_session_marker :: "string \<Rightarrow> 'd client_db \<Rightarrow> 'd client_db" where
  "set_session_marker k db = db\<lparr>cd_markers := insert k (cd_markers db)\<rparr>"

definition seq_reconciled :: "'d client_db \<Rightarrow> bool" where
  "seq_reconciled = session_marker k_seq_reconciled"

definition mark_seq_reconciled :: "'d client_db \<Rightarrow> 'd client_db" where
  "mark_seq_reconciled = set_session_marker k_seq_reconciled"

definition clear_seq_reconciled :: "'d client_db \<Rightarrow> 'd client_db" where
  "clear_seq_reconciled db = db\<lparr>cd_markers := cd_markers db - {k_seq_reconciled}\<rparr>"

definition capability_gate_proven :: "'d client_db \<Rightarrow> bool" where
  "capability_gate_proven = session_marker k_gate_proven"

definition mark_capability_gate_proven :: "'d client_db \<Rightarrow> 'd client_db" where
  "mark_capability_gate_proven = set_session_marker k_gate_proven"

subsection \<open>The raise backoff\<close>

definition raise_backoff_initial_ms :: int where
  "raise_backoff_initial_ms = 60000"

definition raise_backoff_max_ms :: int where
  "raise_backoff_max_ms = 15 * 60000"

datatype raise_refusal = Blocked "capability_blocker list" | GateMissing

record refused_raise =
  rf_level :: int
  rf_refusal :: raise_refusal

definition refusal_error :: "refused_raise \<Rightarrow> sync_error" where
  "refusal_error r = (case rf_refusal r of
       Blocked bs \<Rightarrow> CapabilityBlocked (rf_level r) bs | GateMissing \<Rightarrow> CapabilityGateMissing (rf_level r))"

definition refusal_kind :: "refused_raise \<Rightarrow> string" where
  "refusal_kind r = (case rf_refusal r of Blocked _ \<Rightarrow> ''blocked'' | GateMissing \<Rightarrow> ''gate_missing'')"

definition raise_backoff :: "int \<Rightarrow> 'd client_db \<Rightarrow> refused_raise option" where
  "raise_backoff now db = (case cd_backoff db of
       None \<Rightarrow> None
     | Some r \<Rightarrow>
         if now \<ge> rr_retry_at r \<or> rr_retry_at r - now > rr_delay r then None
         else Some \<lparr>rf_level = rr_level r,
           rf_refusal = (if rr_kind r = ''gate_missing'' then GateMissing else Blocked (rr_blockers r))\<rparr>)"

definition next_delay :: "refused_raise \<Rightarrow> 'd client_db \<Rightarrow> int" where
  "next_delay refused db = (case cd_backoff db of
       Some r \<Rightarrow> if rr_level r = rf_level refused \<and> rr_kind r = refusal_kind refused
                  then min (rr_delay r * 2) raise_backoff_max_ms else raise_backoff_initial_ms
     | None \<Rightarrow> raise_backoff_initial_ms)"

text \<open>On a conflict the upsert keeps the levels noted before.\<close>

definition record_refused_raise :: "refused_raise \<Rightarrow> int \<Rightarrow> 'd client_db \<Rightarrow> 'd client_db" where
  "record_refused_raise refused now db =
     (let delay = next_delay refused db in
      db\<lparr>cd_backoff := Some
        \<lparr>rr_level = rf_level refused, rr_kind = refusal_kind refused,
         rr_blockers = (case rf_refusal refused of Blocked bs \<Rightarrow> bs | GateMissing \<Rightarrow> []),
         rr_retry_at = now + delay, rr_delay = delay,
         rr_required = Option.bind (cd_backoff db) rr_required,
         rr_requested = Option.bind (cd_backoff db) rr_requested\<rparr>\<rparr>)"

definition clear_raise_backoff :: "'d client_db \<Rightarrow> 'd client_db" where
  "clear_raise_backoff db = db\<lparr>cd_backoff := None\<rparr>"

definition note_relay_capability :: "capability_levels \<Rightarrow> 'd client_db \<Rightarrow> 'd client_db" where
  "note_relay_capability levels db =
     (let required = required_sync_capability levels; requested = requested_sync_capability levels in
      db\<lparr>cd_backoff := (case cd_backoff db of
          None \<Rightarrow> None
        | Some r \<Rightarrow>
            if required \<ge> rr_level r \<or> (rr_required r \<noteq> None \<and> rr_required r \<noteq> Some required)
              \<or> (rr_requested r \<noteq> None \<and> rr_requested r \<noteq> Some requested) then None
            else if rr_required r = None then Some (r\<lparr>rr_required := Some required, rr_requested := Some requested\<rparr>)
            else Some r)\<rparr>)"

definition forget_capability_gate :: "'d client_db \<Rightarrow> 'd client_db" where
  "forget_capability_gate db = db\<lparr>cd_markers := cd_markers db - {k_gate_proven},
     cd_backoff := (case cd_backoff db of
         Some r \<Rightarrow> if rr_kind r = ''gate_missing'' then None else Some r | None \<Rightarrow> None)\<rparr>"

text \<open>A new connection: the TEMP tables are gone.\<close>

definition reopen :: "'d client_db \<Rightarrow> 'd client_db" where
  "reopen db = db\<lparr>cd_markers := {}, cd_backoff := None\<rparr>"

subsection \<open>The relay's levels and minimum version, per workspace\<close>

definition relay_capability_key :: "uuid \<Rightarrow> string" where
  "relay_capability_key w = ''relay_capability:'' @ show_uuid w"

definition relay_min_client_version_key :: "uuid \<Rightarrow> string" where
  "relay_min_client_version_key w = ''relay_min_client_version:'' @ show_uuid w"

text \<open>\<open>split_once(',')\<close>.\<close>

fun split_once :: "char \<Rightarrow> string \<Rightarrow> (string \<times> string) option" where
  "split_once c [] = None"
| "split_once c (x # xs) = (if x = c then Some ([], xs) else map_option (\<lambda>(a, b). (x # a, b)) (split_once c xs))"

definition relay_capability :: "uuid \<Rightarrow> 'd client_db \<Rightarrow> capability_levels option" where
  "relay_capability w db = Option.bind (get_str (relay_capability_key w) db) (\<lambda>v.
     Option.bind (split_once (CHR '','') v) (\<lambda>(a, b).
       Option.bind (parse_i32 a) (\<lambda>required. Option.bind (parse_i32 b) (\<lambda>requested.
         Some \<lparr>required_sync_capability = required, requested_sync_capability = requested\<rparr>))))"

definition record_relay_capability :: "uuid \<Rightarrow> capability_levels \<Rightarrow> 'd client_db \<Rightarrow> bool \<times> 'd client_db" where
  "record_relay_capability w levels db =
     (if relay_capability w db = Some levels then (False, db)
      else (True, set_str (relay_capability_key w)
        (show_int (required_sync_capability levels) @ '','' @ show_int (requested_sync_capability levels)) db))"

definition relay_min_client_version :: "uuid \<Rightarrow> 'd client_db \<Rightarrow> string option" where
  "relay_min_client_version w = get_str (relay_min_client_version_key w)"

definition set_relay_min_client_version :: "uuid \<Rightarrow> string \<Rightarrow> 'd client_db \<Rightarrow> 'd client_db" where
  "set_relay_min_client_version w v = set_str (relay_min_client_version_key w) v"

definition clear_relay_min_client_version :: "uuid \<Rightarrow> 'd client_db \<Rightarrow> 'd client_db" where
  "clear_relay_min_client_version w db = db\<lparr>cd_meta := (cd_meta db)(relay_min_client_version_key w := None)\<rparr>"

subsection \<open>Reading back what was written\<close>

lemma get_set_str [simp]: "get_str k (set_str k' v db) = (if k = k' then Some v else get_str k db)"
  by (simp add: get_str_def set_str_def)

lemma get_set_i64: "get_i64 k (set_i64 k' v db) = (if k = k' then if in_i64 v then v else 0 else get_i64 k db)"
proof (cases "k = k'")
  case True
  have "parse_i64 (show_int v) = (if in_i64 v then Some v else None)"
  proof (cases "in_i64 v")
    case True
    then show ?thesis by (simp add: parse_i64_def parse_signed_show in_i64_def)
  next
    case False
    have "Some v = parse_signed (min v 0) (max v 0) (show_int v)" by (rule parse_signed_show [symmetric]) auto
    with False show ?thesis
      by (auto simp: parse_i64_def parse_signed_def in_i64_def Let_def split: option.splits if_splits)
  qed
  with True show ?thesis by (simp add: get_i64_def set_i64_def)
qed (simp add: get_i64_def set_i64_def)

lemma meta_keys_distinct [simp]: "k_pull_wm \<noteq> k_push_wm" "k_push_wm \<noteq> k_pull_wm" "k_pull_wm \<noteq> k_client_seq"
  "k_client_seq \<noteq> k_pull_wm" "k_push_wm \<noteq> k_client_seq" "k_client_seq \<noteq> k_push_wm"
  "k_seq_reconciled \<noteq> k_gate_proven" "k_gate_proven \<noteq> k_seq_reconciled"
  by (simp_all add: meta_keys k_seq_reconciled_def k_gate_proven_def)

lemma watermarks_set [simp]:
  "in_i64 v \<Longrightarrow> pull_watermark (set_pull_watermark v db) = v"
  "in_i64 v \<Longrightarrow> push_watermark (set_push_watermark v db) = v"
  "in_i64 v \<Longrightarrow> client_seq (set_client_seq v db) = v"
  "pull_watermark (set_push_watermark v db) = pull_watermark db"
  "pull_watermark (set_client_seq v db) = pull_watermark db"
  "push_watermark (set_pull_watermark v db) = push_watermark db"
  "push_watermark (set_client_seq v db) = push_watermark db"
  "client_seq (set_pull_watermark v db) = client_seq db"
  "client_seq (set_push_watermark v db) = client_seq db"
  by (simp_all add: pull_watermark_def push_watermark_def client_seq_def set_pull_watermark_def
    set_push_watermark_def set_client_seq_def get_set_i64)

lemma set_i64_fields [simp]:
  "cd_outbox (set_i64 k v db) = cd_outbox db" "cd_crr (set_i64 k v db) = cd_crr db"
  "cd_unreadable (set_i64 k v db) = cd_unreadable db" "cd_stash (set_i64 k v db) = cd_stash db"
  "cd_markers (set_i64 k v db) = cd_markers db" "cd_backoff (set_i64 k v db) = cd_backoff db"
  "cd_stash_next (set_i64 k v db) = cd_stash_next db"
  by (simp_all add: set_i64_def set_str_def)

lemma get_i64_frame [simp]:
  "get_i64 k (db\<lparr>cd_outbox := x\<rparr>) = get_i64 k db" "get_i64 k (db\<lparr>cd_crr := d\<rparr>) = get_i64 k db"
  "get_i64 k (db\<lparr>cd_unreadable := u\<rparr>) = get_i64 k db" "get_i64 k (db\<lparr>cd_stash := st\<rparr>) = get_i64 k db"
  "get_i64 k (db\<lparr>cd_stash_next := n\<rparr>) = get_i64 k db"
  "get_i64 k (db\<lparr>cd_markers := m\<rparr>) = get_i64 k db" "get_i64 k (db\<lparr>cd_backoff := b\<rparr>) = get_i64 k db"
  by (simp_all add: get_i64_def get_str_def)

lemma get_i64_range: "in_i64 (get_i64 k db)"
proof (cases "Option.bind (get_str k db) parse_i64")
  case None
  then show ?thesis by (simp add: get_i64_def machine_int_defs)
next
  case (Some i)
  then have "in_i64 i"
    by (auto simp: parse_i64_def in_i64_def bind_eq_Some_conv dest: parse_signed_range)
  with Some show ?thesis by (simp add: get_i64_def)
qed

subsection \<open>Properties\<close>

text \<open>A run of refusals of one kind at one level, at the given times.\<close>

definition refuse_all :: "refused_raise \<Rightarrow> int list \<Rightarrow> 'd client_db \<Rightarrow> 'd client_db" where
  "refuse_all r ts db = foldl (\<lambda>d t. record_refused_raise r t d) db ts"

lemma refuse_all_snoc: "refuse_all r (ts @ [t]) db = record_refused_raise r t (refuse_all r ts db)"
  by (simp add: refuse_all_def)

lemma refuse_all_delay:
  "cd_backoff db = None \<Longrightarrow> ts \<noteq> [] \<Longrightarrow> \<exists>row. cd_backoff (refuse_all r ts db) = Some row \<and>
     rr_level row = rf_level r \<and> rr_kind row = refusal_kind r \<and> rr_retry_at row = last ts + rr_delay row \<and>
     rr_delay row = min (60000 * 2 ^ (length ts - 1)) 900000 \<and>
     rr_blockers row = (case rf_refusal r of Blocked bs \<Rightarrow> bs | GateMissing \<Rightarrow> [])"
proof (induction ts rule: rev_induct)
  case (snoc t ts)
  show ?case
  proof (cases "ts = []")
    case True
    with snoc.prems(1) show ?thesis
      by (simp add: refuse_all_def record_refused_raise_def next_delay_def Let_def raise_backoff_initial_ms_def)
  next
    case False
    with snoc obtain row where row: "cd_backoff (refuse_all r ts db) = Some row" "rr_level row = rf_level r"
      "rr_kind row = refusal_kind r" "rr_delay row = min (60000 * 2 ^ (length ts - 1)) 900000" by blast
    have "(2 :: int) ^ length ts = 2 * 2 ^ (length ts - 1)" using False by (cases ts) simp_all
    with row show ?thesis
      by (simp add: refuse_all_snoc record_refused_raise_def next_delay_def Let_def raise_backoff_max_ms_def min_def)
  qed
qed simp

text \<open>The wait between floor raises is bounded. After any number of refusals of the same kind at a
  level, on a connection that had none, the cached refusal answers for the gated pushes for exactly
  one minute doubled with every refusal, at most fifteen minutes, from the moment the last one
  arrived; a clock that jumped back further than the wait ends it. It reports the level and blockers
  the relay named, and a new connection asks at once.\<close>

theorem raise_backoff_bounded:
  assumes "cd_backoff db = None" and "ts \<noteq> []"
  shows "raise_backoff now (refuse_all r ts db) =
      (if last ts \<le> now \<and> now < last ts + min (60000 * 2 ^ (length ts - 1)) 900000 then Some r else None) \<and>
    raise_backoff now (reopen (refuse_all r ts db)) = None"
proof -
  obtain row where row: "cd_backoff (refuse_all r ts db) = Some row" "rr_level row = rf_level r"
    "rr_kind row = refusal_kind r" "rr_retry_at row = last ts + rr_delay row"
    "rr_delay row = min (60000 * 2 ^ (length ts - 1)) 900000"
    "rr_blockers row = (case rf_refusal r of Blocked bs \<Rightarrow> bs | GateMissing \<Rightarrow> [])"
    using refuse_all_delay [OF assms] by blast
  have "\<lparr>rf_level = rr_level row, rf_refusal =
      (if rr_kind row = ''gate_missing'' then GateMissing else Blocked (rr_blockers row))\<rparr> = r"
    using row by (cases r) (auto simp: refusal_kind_def split: raise_refusal.splits)
  with row(1,4,5) show ?thesis by (auto simp: raise_backoff_def reopen_def)
qed

definition fresh_client :: "'d \<Rightarrow> 'd client_db" where
  "fresh_client d = \<lparr>cd_meta = (\<lambda>_. None), cd_markers = {}, cd_backoff = None, cd_outbox = [], cd_unreadable = [],
     cd_stash = [], cd_stash_next = 1, cd_crr = d\<rparr>"

lemma raise_backoff_bounded_witness:
  "raise_backoff 200000 (refuse_all \<lparr>rf_level = 1, rf_refusal = GateMissing\<rparr> [0, 100000] (fresh_client ())) =
     Some \<lparr>rf_level = 1, rf_refusal = GateMissing\<rparr>"
  using raise_backoff_bounded [of "fresh_client ()" "[0, 100000]" 200000 "\<lparr>rf_level = 1, rf_refusal = GateMissing\<rparr>"]
  by (simp add: fresh_client_def)

text \<open>The counter hands out consecutive numbers, and levels noted for a workspace are read back.\<close>

lemma next_client_seq_advances:
  "in_i64 (client_seq db + 1) \<Longrightarrow> next_client_seq db = (q, db') \<Longrightarrow> q = client_seq db + 1 \<and> client_seq db' = q"
  by (auto simp: next_client_seq_def client_seq_def get_set_i64)

end
