(* ===== verification/Capture.thy ===== *)
theory Capture
  imports Client_State
begin

text \<open>
  Capturing local writes: the part of \<open>crates/yapstack-sync/src/outbox.rs\<close> that turns the rows of
  \<open>crsql_changes\<close> above the push watermark into encrypted outbox entries, one transaction per
  bounded chunk, and \<open>read_local_changes_since\<close> of \<open>change.rs\<close>.

  cr-sqlite is a parameter: the record \<open>crsql\<close> gives this device's own change rows, ordered by
  \<open>(db_version, seq)\<close>, its clock, and the operations the merge needs. The random key and nonces of
  the entry under a sequence number are given by a function of the number.
\<close>

record 'd crsql =
  crr_local :: "'d \<Rightarrow> change_row list"
  crr_clock :: "'d \<Rightarrow> int"
  crr_is :: "bytes \<Rightarrow> 'd \<Rightarrow> bool"
  crr_column :: "bytes \<Rightarrow> bytes \<Rightarrow> 'd \<Rightarrow> bool"
  crr_apply :: "change_row \<Rightarrow> 'd \<Rightarrow> 'd option"

text \<open>Documented behaviour: versions are positive, do not exceed the database's clock, which is never
  negative, and the rows come in their order; SQLite's values are well formed.\<close>

definition crsql_law :: "'d crsql \<Rightarrow> bool" where
  "crsql_law C \<longleftrightarrow> (\<forall>d. 0 \<le> crr_clock C d \<and> sorted (map cr_db_version (crr_local C d)) \<and>
     (\<forall>r\<in>set (crr_local C d). wf_row r \<and> 1 \<le> cr_db_version r \<and> cr_db_version r \<le> crr_clock C d))"

text \<open>What any other writer may do to the database: its own rows stay, vanish or are superseded, and
  new ones carry versions past the clock.\<close>

definition later :: "'d crsql \<Rightarrow> 'd \<Rightarrow> 'd \<Rightarrow> bool" where
  "later C d d' \<longleftrightarrow> crr_clock C d \<le> crr_clock C d' \<and>
     (\<forall>r\<in>set (crr_local C d'). r \<in> set (crr_local C d) \<or> crr_clock C d < cr_db_version r)"

subsection \<open>Sync tables and capability levels\<close>

definition sync_tables :: "bytes list" where
  "sync_tables = map str_bytes [''sessions'', ''segments'', ''notes'', ''note_versions'', ''folders'',
     ''session_folders'', ''chat_messages'', ''dictation_history'', ''tags'', ''session_tags'',
     ''session_audio_parts'', ''shares'']"

definition cutover_sync_table_count :: nat where
  "cutover_sync_table_count = 12"

definition gated_sync_tables :: "(bytes \<times> int) list" where
  "gated_sync_tables = []"

definition table_readiness_level :: int where
  "table_readiness_level = 1"

definition table_sync_capability :: "bytes \<Rightarrow> int" where
  "table_sync_capability table =
     (if table \<in> set (take cutover_sync_table_count sync_tables) then 0
      else case map_of gated_sync_tables table of Some level \<Rightarrow> level | None \<Rightarrow> table_readiness_level)"

definition highest_table_sync_capability :: int where
  "highest_table_sync_capability = foldl max table_readiness_level (map snd gated_sync_tables)"

subsection \<open>The capture plan\<close>

definition read_local_changes_since :: "'d crsql \<Rightarrow> int \<Rightarrow> 'd \<Rightarrow> change_row list" where
  "read_local_changes_since C since d = filter (\<lambda>r. cr_db_version r > since) (crr_local C d)"

definition chunk_rows :: nat where
  "chunk_rows = 5000"

definition chunk_plaintext_budget :: nat where
  "chunk_plaintext_budget = 512 * 1024"

fun plan_loop :: "change_row list \<Rightarrow> nat \<Rightarrow> int \<Rightarrow> change_row list \<Rightarrow> change_row list list" where
  "plan_loop buf acc buf_level [] = (if buf = [] then [] else [buf])"
| "plan_loop buf acc buf_level (row # rows) =
     (let sz = row_encoded_size row; level = table_sync_capability (cr_table row) in
      if buf \<noteq> [] \<and> (level \<noteq> buf_level \<or> length buf \<ge> chunk_rows \<or> acc + sz > chunk_plaintext_budget)
      then buf # plan_loop [row] (4 + sz) level rows
      else plan_loop (buf @ [row]) (acc + sz) level rows)"

definition plan_capture_chunks :: "change_row list \<Rightarrow> change_row list list" where
  "plan_capture_chunks rows = plan_loop [] 4 0 rows"

definition chunk_commit_watermark :: "change_row list \<Rightarrow> int option \<Rightarrow> int option" where
  "chunk_commit_watermark chunk next_first =
     (if chunk = [] then None
      else let chunk_max = cr_db_version (last chunk) in
        case next_first of
          Some nxt \<Rightarrow> if nxt \<le> chunk_max then find (\<lambda>v. v < nxt) (map cr_db_version (rev chunk)) else Some chunk_max
        | None \<Rightarrow> Some chunk_max)"

subsection \<open>Committing the chunks\<close>

record capture_env =
  ce_crates :: crates
  ce_aead :: aead
  ce_cipher :: changeset_cipher
  ce_client :: uuid
  ce_schema :: int
  ce_engine :: int
  ce_random :: "int \<Rightarrow> bytes \<times> bytes \<times> bytes"

definition batch_level :: "change_row list \<Rightarrow> int" where
  "batch_level rows = (if rows = [] then 0 else Max (set (map (\<lambda>r. table_sync_capability (cr_table r)) rows)))"

definition insert_chunk :: "capture_env \<Rightarrow> change_row list \<Rightarrow> 'd client_db \<Rightarrow> (sync_error + int \<times> 'd client_db) option" where
  "insert_chunk E rows db =
     (let (seq, db1) = next_client_seq db; (data_key, wrap_nonce, ct_nonce) = ce_random E seq in
      case changeset_encrypt (ce_crates E) (ce_aead E) (ce_cipher E) (ce_client E) seq data_key wrap_nonce ct_nonce
          (encode_changeset rows) of
        None \<Rightarrow> None
      | Some (Inl e) \<Rightarrow> Some (Inl (Crypto e))
      | Some (Inr blob) \<Rightarrow> Some
          (if seq \<in> oe_seq ` set (cd_outbox db1) then Inl (Sqlite ''UNIQUE constraint failed'')
           else Inr (seq, db1\<lparr>cd_outbox := cd_outbox db1 @ [\<lparr>oe_seq = seq, oe_ciphertext = blob,
             oe_schema = ce_schema E, oe_engine = ce_engine E, oe_acked = False, oe_changeset = None,
             oe_level = batch_level rows\<rparr>]\<rparr>)))"

text \<open>One iteration of \<open>enqueue_local_with\<close>: the transaction of a chunk, which an error rolls back.\<close>

definition next_watermark :: "change_row list \<Rightarrow> change_row list list \<Rightarrow> int \<Rightarrow> int option" where
  "next_watermark chunk rest committed =
     (let next_first = (case rest of (r # _) # _ \<Rightarrow> Some (cr_db_version r) | _ \<Rightarrow> None) in
      case chunk_commit_watermark chunk next_first of
        Some v \<Rightarrow> if v > committed then Some v else None | None \<Rightarrow> None)"

definition capture_chunk :: "capture_env \<Rightarrow> change_row list \<Rightarrow> change_row list list \<Rightarrow> int \<Rightarrow> 'd client_db
    \<Rightarrow> (sync_error + int \<times> 'd client_db) option" where
  "capture_chunk E chunk rest committed db = (case insert_chunk E chunk db of
       None \<Rightarrow> None
     | Some (Inl e) \<Rightarrow> Some (Inl e)
     | Some (Inr (seq, db1)) \<Rightarrow> Some (Inr (seq, (case next_watermark chunk rest committed of
           Some v \<Rightarrow> set_push_watermark v db1 | None \<Rightarrow> db1))))"

fun enqueue_loop :: "capture_env \<Rightarrow> change_row list list \<Rightarrow> int \<Rightarrow> 'd client_db
    \<Rightarrow> (sync_error + int list) option \<times> 'd client_db" where
  "enqueue_loop E [] committed db = (Some (Inr []), db)"
| "enqueue_loop E (chunk # rest) committed db = (case capture_chunk E chunk rest committed db of
       None \<Rightarrow> (None, db)
     | Some (Inl e) \<Rightarrow> (Some (Inl e), db)
     | Some (Inr (seq, db')) \<Rightarrow>
         (case enqueue_loop E rest (case next_watermark chunk rest committed of Some v \<Rightarrow> v | None \<Rightarrow> committed) db' of
            (Some (Inr assigned), db'') \<Rightarrow> (Some (Inr (seq # assigned)), db'')
          | (r, db'') \<Rightarrow> (r, db'')))"

definition enqueue_local :: "'d crsql \<Rightarrow> capture_env \<Rightarrow> 'd client_db \<Rightarrow> (sync_error + int list) option \<times> 'd client_db" where
  "enqueue_local C E db =
     (let wm = push_watermark db; rows = read_local_changes_since C wm (cd_crr db) in
      if rows = [] then (Some (Inr []), db)
      else enqueue_loop E (plan_capture_chunks rows) wm db)"

text \<open>\<open>reseed_counter_to_tail\<close>: the counter past the relay's tail, the watermark back to zero, and
  the unacked entries dropped.\<close>

definition reseed_counter_to_tail :: "int \<Rightarrow> 'd client_db \<Rightarrow> 'd client_db" where
  "reseed_counter_to_tail target db =
     (let db1 = set_push_watermark 0 (set_client_seq target db)
      in db1\<lparr>cd_outbox := filter oe_acked (cd_outbox db1)\<rparr>)"

definition b64_len :: "nat \<Rightarrow> nat" where
  "b64_len raw = (raw + 2) div 3 * 4"

definition push_wire_budget :: nat where
  "push_wire_budget = 1500000"

subsection \<open>The plan\<close>

lemma concat_plan_loop [simp]: "concat (plan_loop buf acc l rows) = buf @ rows"
  by (induction buf acc l rows rule: plan_loop.induct) (simp_all add: Let_def)

lemma concat_plan [simp]: "concat (plan_capture_chunks rows) = rows"
  by (simp add: plan_capture_chunks_def)

lemma plan_loop_nonempty: "c \<in> set (plan_loop buf acc l rows) \<Longrightarrow> c \<noteq> []"
  by (induction buf acc l rows rule: plan_loop.induct) (auto simp: Let_def split: if_splits)

lemma plan_nonempty: "[] \<notin> set (plan_capture_chunks rows)"
  using plan_loop_nonempty [of "[]" "[]" 4 0 rows] by (auto simp: plan_capture_chunks_def)

lemma length_encode_changeset: "length (encode_changeset rows) = 4 + sum_list (map row_encoded_size rows)"
  by (induction rows) (simp_all add: encode_changeset_def length_encode_row)

definition chunk_ok :: "change_row list \<Rightarrow> bool" where
  "chunk_ok c \<longleftrightarrow> length c \<le> chunk_rows \<and> (\<exists>l. \<forall>r\<in>set c. table_sync_capability (cr_table r) = l) \<and>
     (length c \<le> 1 \<or> length (encode_changeset c) \<le> chunk_plaintext_budget)"

lemma plan_loop_ok:
  "acc = 4 + sum_list (map row_encoded_size buf) \<Longrightarrow> \<forall>r\<in>set buf. table_sync_capability (cr_table r) = l \<Longrightarrow>
   length buf \<le> chunk_rows \<Longrightarrow> length buf \<le> 1 \<or> acc \<le> chunk_plaintext_budget \<Longrightarrow>
   c \<in> set (plan_loop buf acc l rows) \<Longrightarrow> chunk_ok c"
proof (induction buf acc l rows rule: plan_loop.induct)
  case (1 buf acc l)
  then show ?case by (auto simp: chunk_ok_def length_encode_changeset split: if_splits)
next
  case (2 buf acc l row rows)
  define flush where "flush \<longleftrightarrow> buf \<noteq> [] \<and> (table_sync_capability (cr_table row) \<noteq> l \<or> length buf \<ge> chunk_rows \<or>
      acc + row_encoded_size row > chunk_plaintext_budget)"
  show ?case
  proof (cases flush)
    case True
    then have c: "c = buf \<or> c \<in> set (plan_loop [row] (4 + row_encoded_size row) (table_sync_capability (cr_table row)) rows)"
      using 2(7) by (auto simp: Let_def flush_def)
    have "chunk_ok buf" using 2(3-6) by (auto simp: chunk_ok_def length_encode_changeset)
    moreover have "chunk_ok c" if "c \<in> set (plan_loop [row] (4 + row_encoded_size row) (table_sync_capability (cr_table row)) rows)"
      using 2(1) [OF refl refl True [unfolded flush_def]] that by (simp add: chunk_rows_def)
    ultimately show ?thesis using c by blast
  next
    case False
    then have c: "c \<in> set (plan_loop (buf @ [row]) (acc + row_encoded_size row) (table_sync_capability (cr_table row)) rows)"
      using 2(7) by (auto simp: Let_def flush_def)
    show ?thesis
      by (rule 2(2) [OF refl refl False [unfolded flush_def] _ _ _ _ c])
        (use False 2(3-5) in \<open>auto simp: flush_def chunk_rows_def\<close>)
  qed
qed

lemma plan_ok: "c \<in> set (plan_capture_chunks rows) \<Longrightarrow> chunk_ok c"
  unfolding plan_capture_chunks_def by (rule plan_loop_ok [where buf = "[]"]) (auto simp: chunk_rows_def)

lemma find_less: "find (\<lambda>v. v < n) xs = Some v \<Longrightarrow> v \<in> set xs \<and> v < (n :: int)"
  by (auto simp: find_Some_iff)

lemma commit_watermark:
  assumes "chunk_commit_watermark chunk (case rest of [] \<Rightarrow> None | r # _ \<Rightarrow> Some (cr_db_version r)) = Some v"
    and "sorted (map cr_db_version (chunk @ rest))"
  shows "v \<in> cr_db_version ` set chunk \<and> (\<forall>r\<in>set rest. v < cr_db_version r)"
proof -
  have ne: "chunk \<noteq> []" using assms(1) by (auto simp: chunk_commit_watermark_def)
  show ?thesis
  proof (cases rest)
    case Nil
    with assms(1) ne show ?thesis by (auto simp: chunk_commit_watermark_def Let_def)
  next
    case (Cons r rs)
    have le: "cr_db_version r \<le> cr_db_version x" if "x \<in> set rest" for x
      using assms(2) that Cons by (auto simp: sorted_append)
    have "v \<in> cr_db_version ` set chunk \<and> v < cr_db_version r"
      using assms(1) ne Cons find_less by (fastforce simp: chunk_commit_watermark_def Let_def split: if_splits)
    with le show ?thesis by fastforce
  qed
qed

subsection \<open>Capture beside other writers\<close>

text \<open>
  A capture between its transactions: the client's database, the chunks of the plan still to commit
  and the watermark committed so far. Any other writer may run between two transactions, the
  process may die at any of them, the drain acknowledges entries, moves the pull watermark, changes
  its markers and tables, and, when no capture runs, reseeds the counter.
\<close>

record 'd capture_sys =
  ca_db :: "'d client_db"
  ca_plan :: "change_row list list"
  ca_wm :: int

definition ack_entry :: "int \<Rightarrow> int \<Rightarrow> 'd client_db \<Rightarrow> 'd client_db" where
  "ack_entry q changeset_seq db = db\<lparr>cd_outbox := update_where (\<lambda>e. oe_seq e = q)
     (\<lambda>e. e\<lparr>oe_acked := True, oe_changeset := Some changeset_seq\<rparr>) (cd_outbox db)\<rparr>"

inductive capture_step :: "'d crsql \<Rightarrow> capture_env \<Rightarrow> 'd capture_sys \<Rightarrow> 'd capture_sys \<Rightarrow> bool" for C E where
  cs_write: "later C (cd_crr (ca_db s)) d \<Longrightarrow> capture_step C E s (s\<lparr>ca_db := (ca_db s)\<lparr>cd_crr := d\<rparr>\<rparr>)"
| cs_begin: "capture_step C E s (s\<lparr>ca_wm := push_watermark (ca_db s),
     ca_plan := plan_capture_chunks (read_local_changes_since C (push_watermark (ca_db s)) (cd_crr (ca_db s)))\<rparr>)"
| cs_chunk: "ca_plan s = chunk # rest \<Longrightarrow> client_seq (ca_db s) < i64_max \<Longrightarrow>
     capture_chunk E chunk rest (ca_wm s) (ca_db s) = Some (Inr (q, db')) \<Longrightarrow>
     capture_step C E s (s\<lparr>ca_db := db', ca_plan := rest,
       ca_wm := (case next_watermark chunk rest (ca_wm s) of Some v \<Rightarrow> v | None \<Rightarrow> ca_wm s)\<rparr>)"
| cs_die: "capture_step C E s (s\<lparr>ca_db := reopen (ca_db s), ca_plan := []\<rparr>)"
| cs_ack: "capture_step C E s (s\<lparr>ca_db := ack_entry q n (ca_db s)\<rparr>)"
| cs_other: "cd_outbox db' = cd_outbox (ca_db s) \<Longrightarrow> cd_crr db' = cd_crr (ca_db s) \<Longrightarrow>
     push_watermark db' = push_watermark (ca_db s) \<Longrightarrow> client_seq db' = client_seq (ca_db s) \<Longrightarrow>
     capture_step C E s (s\<lparr>ca_db := db'\<rparr>)"
| cs_reseed: "ca_plan s = [] \<Longrightarrow> client_seq (ca_db s) \<le> target \<Longrightarrow> in_i64 target \<Longrightarrow>
     capture_step C E s (s\<lparr>ca_db := reseed_counter_to_tail target (ca_db s)\<rparr>)"

definition start_capture :: "'d \<Rightarrow> 'd capture_sys" where
  "start_capture d = \<lparr>ca_db = fresh_client d, ca_plan = [], ca_wm = 0\<rparr>"

inductive capture_reachable :: "'d crsql \<Rightarrow> capture_env \<Rightarrow> 'd capture_sys \<Rightarrow> bool" for C E where
  cr_start: "capture_reachable C E (start_capture d)"
| cr_step: "capture_reachable C E s \<Longrightarrow> capture_step C E s s' \<Longrightarrow> capture_reachable C E s'"

text \<open>A row is captured when an outbox entry decrypts, under its own number, to a changeset with it.\<close>

definition captured :: "capture_env \<Rightarrow> outbox_entry list \<Rightarrow> change_row \<Rightarrow> bool" where
  "captured E es r \<longleftrightarrow> (\<exists>e\<in>set es. \<exists>pt rows.
     changeset_decrypt (ce_crates E) (ce_aead E) (ce_cipher E) (ce_client E) (oe_seq e) (oe_ciphertext e) = Some (Inr pt) \<and>
     decode_changeset pt = Inr rows \<and> r \<in> set rows)"

definition env_law :: "capture_env \<Rightarrow> bool" where
  "env_law E \<longleftrightarrow> hmac_law (ce_crates E) \<and> aead_law (ce_aead E) \<and>
     (\<forall>q. case ce_random E q of (dk, wn, cn) \<Rightarrow> length dk = 32 \<and> length wn = 24 \<and> length cn = 24)"

lemma captured_mono: "captured E es r \<Longrightarrow> set es \<subseteq> set es' \<Longrightarrow> captured E es' r"
  by (fastforce simp: captured_def)

lemma captured_ack: "captured E es r \<Longrightarrow> captured E (update_where p (\<lambda>e. e\<lparr>oe_acked := a, oe_changeset := b\<rparr>) es) r"
proof -
  assume "captured E es r"
  then obtain e pt rows where e: "e \<in> set es"
    "changeset_decrypt (ce_crates E) (ce_aead E) (ce_cipher E) (ce_client E) (oe_seq e) (oe_ciphertext e) = Some (Inr pt)"
    "decode_changeset pt = Inr rows" "r \<in> set rows" by (auto simp: captured_def)
  let ?f = "\<lambda>e. if p e then e\<lparr>oe_acked := a, oe_changeset := b\<rparr> else e"
  have "?f e \<in> set (update_where p (\<lambda>e. e\<lparr>oe_acked := a, oe_changeset := b\<rparr>) es)"
    using e(1) by (simp add: set_update_where)
  moreover have "changeset_decrypt (ce_crates E) (ce_aead E) (ce_cipher E) (ce_client E) (oe_seq (?f e)) (oe_ciphertext (?f e)) =
      Some (Inr pt)" using e(2) by simp
  ultimately show ?thesis unfolding captured_def using e(3,4) by blast
qed

lemma capture_chunk_Inr:
  assumes law: "env_law E" and rows: "wf_changeset chunk"
    and run: "capture_chunk E chunk rest committed db = Some (Inr (q, db'))"
  shows "\<exists>e. cd_outbox db' = cd_outbox db @ [e] \<and> oe_seq e = q \<and> \<not> oe_acked e \<and> q = client_seq db + 1 \<and>
    q \<notin> oe_seq ` set (cd_outbox db) \<and>
    length (oe_ciphertext e) = length (encode_changeset chunk) + 146 \<and> oe_level e = batch_level chunk \<and>
    (\<forall>r\<in>set chunk. captured E [e] r) \<and> cd_crr db' = cd_crr db \<and>
    (client_seq db < i64_max \<longrightarrow> client_seq db' = q) \<and>
    push_watermark db' = (case next_watermark chunk rest committed of
       Some v \<Rightarrow> if in_i64 v then v else 0 | None \<Rightarrow> push_watermark db)"
proof -
  obtain dk wn cn where rnd: "ce_random E (client_seq db + 1) = (dk, wn, cn)" by (metis prod_cases3)
  with law have len: "length dk = 32" "length wn = 24" "length cn = 24" by (auto simp: env_law_def split: prod.splits)
  obtain blob where blob: "changeset_encrypt (ce_crates E) (ce_aead E) (ce_cipher E) (ce_client E) (client_seq db + 1)
      dk wn cn (encode_changeset chunk) = Some (Inr blob)" "length blob = length (encode_changeset chunk) + 146"
    "changeset_decrypt (ce_crates E) (ce_aead E) (ce_cipher E) (ce_client E) (client_seq db + 1) blob =
      Some (Inr (encode_changeset chunk))"
    using encrypt_decrypt [OF _ _ len] law unfolding env_law_def by blast
  define e where "e = \<lparr>oe_seq = client_seq db + 1, oe_ciphertext = blob, oe_schema = ce_schema E, oe_engine = ce_engine E,
     oe_acked = False, oe_changeset = None, oe_level = batch_level chunk\<rparr>"
  define db1 where "db1 = (set_i64 k_client_seq (client_seq db + 1) db)\<lparr>cd_outbox := cd_outbox db @ [e]\<rparr>"
  have dec: "decode_changeset (encode_changeset chunk) = Inr chunk" using decode_encode [OF rows, of "[]"] by simp
  have ins: "insert_chunk E chunk db = Some (if client_seq db + 1 \<in> oe_seq ` set (cd_outbox db)
      then Inl (Sqlite ''UNIQUE constraint failed'') else Inr (client_seq db + 1, db1))"
    using rnd blob(1) by (simp add: insert_chunk_def next_client_seq_def Let_def db1_def e_def)
  have run': "client_seq db + 1 \<notin> oe_seq ` set (cd_outbox db)" "q = client_seq db + 1"
    "db' = (case next_watermark chunk rest committed of Some v \<Rightarrow> set_push_watermark v db1 | None \<Rightarrow> db1)"
    using run unfolding capture_chunk_def ins by (simp_all split: if_splits)
  have "captured E [e] r" if "r \<in> set chunk" for r
    using that blob(3) dec by (auto simp: captured_def e_def)
  moreover have "cd_outbox db' = cd_outbox db @ [e]" "cd_crr db' = cd_crr db"
    by (simp_all add: run'(3) db1_def set_push_watermark_def split: option.split)
  moreover have "client_seq db' = q" if "client_seq db < i64_max"
  proof -
    have "in_i64 (client_seq db)" by (simp add: client_seq_def get_i64_range)
    with that have "in_i64 (client_seq db + 1)" by (simp add: machine_int_defs)
    then show ?thesis
      by (simp add: run'(2,3) db1_def client_seq_def get_set_i64 set_push_watermark_def split: option.split)
  qed
  moreover have "push_watermark db' = (case next_watermark chunk rest committed of
       Some v \<Rightarrow> if in_i64 v then v else 0 | None \<Rightarrow> push_watermark db)"
    by (simp add: run'(3) db1_def push_watermark_def set_push_watermark_def get_set_i64 split: option.split)
  ultimately show ?thesis using run'(1,2) blob(2) by (intro exI [of _ e]) (simp add: e_def)
qed

subsection \<open>The invariant\<close>

lemma sorted_last: "sorted (map f xs) \<Longrightarrow> x \<in> set xs \<Longrightarrow> f x \<le> f (last xs)"
  by (induction xs) auto

definition plan_inv :: "'d crsql \<Rightarrow> capture_env \<Rightarrow> 'd client_db \<Rightarrow> change_row list list \<Rightarrow> int \<Rightarrow> bool" where
  "plan_inv C E db plan wm \<longleftrightarrow> wm = push_watermark db \<and> sorted (map cr_db_version (concat plan)) \<and> [] \<notin> set plan \<and>
     (\<forall>c\<in>set plan. wf_changeset c) \<and> (\<forall>r\<in>set (concat plan). cr_db_version r \<le> crr_clock C (cd_crr db)) \<and>
     (\<forall>r\<in>set (crr_local C (cd_crr db)). cr_db_version r \<le> cr_db_version (last (concat plan)) \<longrightarrow>
        captured E (cd_outbox db) r \<or> r \<in> set (concat plan))"

definition counter_inv :: "'d client_db \<Rightarrow> bool" where
  "counter_inv db \<longleftrightarrow> distinct (map oe_seq (cd_outbox db)) \<and> (\<forall>e\<in>set (cd_outbox db). oe_seq e \<le> client_seq db)"

definition watermark_inv :: "'d crsql \<Rightarrow> capture_env \<Rightarrow> 'd client_db \<Rightarrow> bool" where
  "watermark_inv C E db \<longleftrightarrow> push_watermark db \<le> crr_clock C (cd_crr db) \<and>
     (\<forall>r\<in>set (crr_local C (cd_crr db)). cr_db_version r \<le> push_watermark db \<longrightarrow> captured E (cd_outbox db) r)"

definition capture_inv :: "'d crsql \<Rightarrow> capture_env \<Rightarrow> 'd capture_sys \<Rightarrow> bool" where
  "capture_inv C E s \<longleftrightarrow> counter_inv (ca_db s) \<and> watermark_inv C E (ca_db s) \<and>
     (ca_plan s \<noteq> [] \<longrightarrow> plan_inv C E (ca_db s) (ca_plan s) (ca_wm s))"

lemma watermark_inv_later:
  "watermark_inv C E db \<Longrightarrow> later C (cd_crr db) d \<Longrightarrow> watermark_inv C E (db\<lparr>cd_crr := d\<rparr>)"
  by (fastforce simp: watermark_inv_def later_def push_watermark_def)

lemma plan_inv_later:
  assumes "plan_inv C E db plan wm" and "later C (cd_crr db) d" and "plan \<noteq> []"
  shows "plan_inv C E (db\<lparr>cd_crr := d\<rparr>) plan wm"
proof -
  have ne: "concat plan \<noteq> []" using assms(1,3) by (cases plan) (auto simp: plan_inv_def)
  then have le: "cr_db_version (last (concat plan)) \<le> crr_clock C (cd_crr db)"
    using assms(1) last_in_set [OF ne] by (auto simp: plan_inv_def)
  have old: "r \<in> set (crr_local C (cd_crr db))"
    if "r \<in> set (crr_local C d)" "cr_db_version r \<le> cr_db_version (last (concat plan))" for r
    using assms(2) that le by (fastforce simp: later_def)
  have clock: "crr_clock C (cd_crr db) \<le> crr_clock C d" using assms(2) by (simp add: later_def)
  show ?thesis
    unfolding plan_inv_def
  proof (intro conjI ballI impI)
    fix r
    assume "r \<in> set (crr_local C (cd_crr (db\<lparr>cd_crr := d\<rparr>)))" "cr_db_version r \<le> cr_db_version (last (concat plan))"
    with old assms(1) show "captured E (cd_outbox (db\<lparr>cd_crr := d\<rparr>)) r \<or> r \<in> set (concat plan)"
      by (simp add: plan_inv_def)
  next
    fix r
    assume "r \<in> set (concat plan)"
    then have "cr_db_version r \<le> crr_clock C (cd_crr db)" using assms(1) unfolding plan_inv_def by blast
    with clock show "cr_db_version r \<le> crr_clock C (cd_crr (db\<lparr>cd_crr := d\<rparr>))" by simp
  qed (use assms(1) in \<open>auto simp: plan_inv_def push_watermark_def\<close>)
qed

lemma plan_inv_begin:
  assumes law: "crsql_law C" and wm: "watermark_inv C E db"
    and rows: "rows = read_local_changes_since C (push_watermark db) (cd_crr db)" "rows \<noteq> []"
  shows "plan_inv C E db (plan_capture_chunks rows) (push_watermark db)"
proof -
  have sorted: "sorted (map cr_db_version rows)"
    using law by (simp add: rows(1) read_local_changes_since_def crsql_law_def sorted_map_same sorted_filter)
  have wf: "wf_changeset c" if "c \<in> set (plan_capture_chunks rows)" for c
  proof -
    have "set c \<subseteq> set rows" using that concat_plan [of rows] by (metis UN_upper set_concat)
    moreover have "\<forall>r\<in>set rows. wf_row r" using law by (auto simp: rows(1) read_local_changes_since_def crsql_law_def)
    moreover have "length c \<le> chunk_rows" using plan_ok [OF that] by (simp add: chunk_ok_def)
    ultimately show ?thesis by (auto simp: wf_changeset_def chunk_rows_def)
  qed
  have cap: "captured E (cd_outbox db) r \<or> r \<in> set rows" if "r \<in> set (crr_local C (cd_crr db))" for r
    using wm that by (fastforce simp: rows(1) read_local_changes_since_def watermark_inv_def)
  have clock: "cr_db_version r \<le> crr_clock C (cd_crr db)" if "r \<in> set rows" for r
    using law that by (simp add: rows(1) read_local_changes_since_def crsql_law_def)
  show ?thesis unfolding plan_inv_def concat_plan using sorted wf cap clock plan_nonempty by blast
qed

lemma next_watermark_eq:
  assumes "[] \<notin> set rest"
  shows "next_watermark chunk rest wm =
    (case chunk_commit_watermark chunk (case concat rest of [] \<Rightarrow> None | r # _ \<Rightarrow> Some (cr_db_version r)) of
       Some v \<Rightarrow> if v > wm then Some v else None | None \<Rightarrow> None)"
proof (cases rest)
  case (Cons c cs)
  then obtain r rs where "c = r # rs" using assms by (cases c) auto
  with Cons show ?thesis by (simp add: next_watermark_def)
qed (simp add: next_watermark_def)

lemma capture_chunk_inv:
  assumes env: "env_law E" and plan: "plan_inv C E db (chunk # rest) wm" and wm: "watermark_inv C E db"
    and run: "capture_chunk E chunk rest wm db = Some (Inr (q, db'))"
    and wm': "wm' = (case next_watermark chunk rest wm of Some v \<Rightarrow> v | None \<Rightarrow> wm)"
  shows "watermark_inv C E db' \<and> (rest \<noteq> [] \<longrightarrow> plan_inv C E db' rest wm') \<and> push_watermark db' = wm'"
proof -
  have wf: "wf_changeset chunk" and ne: "chunk \<noteq> []" "[] \<notin> set rest" and sorted: "sorted (map cr_db_version (chunk @ concat rest))"
    using plan by (auto simp: plan_inv_def)
  obtain e where e: "cd_outbox db' = cd_outbox db @ [e]" "\<forall>r\<in>set chunk. captured E [e] r" "cd_crr db' = cd_crr db"
    "push_watermark db' = (case next_watermark chunk rest wm of
       Some v \<Rightarrow> if in_i64 v then v else 0 | None \<Rightarrow> push_watermark db)"
    using capture_chunk_Inr [OF env wf run] by blast
  have keep: "captured E (cd_outbox db') r" if "captured E (cd_outbox db) r \<or> r \<in> set chunk" for r
    using that e(1,2) captured_mono [of E "cd_outbox db" r "cd_outbox db'"] captured_mono [of E "[e]" r "cd_outbox db'"] by auto
  have v: "v \<in> cr_db_version ` set chunk \<and> (\<forall>r\<in>set (concat rest). v < cr_db_version r)"
    if "next_watermark chunk rest wm = Some v" for v
    using that commit_watermark [of chunk "concat rest" v] sorted
    unfolding next_watermark_eq [OF ne(2)] by (auto split: option.splits if_splits)
  have v64: "in_i64 v" if "next_watermark chunk rest wm = Some v" for v
    using v [OF that] wf by (auto simp: wf_changeset_def wf_row_def)
  have push: "push_watermark db' = wm'"
    using e(4) v64 plan by (auto simp: wm' plan_inv_def split: option.split)
  have clock: "cr_db_version r \<le> crr_clock C (cd_crr db)" if "r \<in> set chunk \<union> set (concat rest)" for r
    using plan that by (auto simp: plan_inv_def)
  have le_last: "cr_db_version x \<le> cr_db_version (last (chunk @ concat rest))" if "x \<in> set chunk" for x
    using sorted_last [OF sorted] that by simp
  have old: "captured E (cd_outbox db) r \<or> r \<in> set chunk \<or> r \<in> set (concat rest)"
    if "r \<in> set (crr_local C (cd_crr db))" "cr_db_version r \<le> cr_db_version (last (chunk @ concat rest))" for r
    using plan that by (auto simp: plan_inv_def)
  have below: "captured E (cd_outbox db') r" if r: "r \<in> set (crr_local C (cd_crr db))" "cr_db_version r \<le> wm'" for r
  proof (cases "next_watermark chunk rest wm")
    case None
    then have "cr_db_version r \<le> push_watermark db" using r(2) plan by (simp add: wm' plan_inv_def)
    then show ?thesis using wm r(1) keep by (auto simp: watermark_inv_def)
  next
    case (Some v)
    with v obtain x where x: "x \<in> set chunk" "v = cr_db_version x" by auto
    have "cr_db_version r \<le> v" using r(2) Some by (simp add: wm')
    moreover from this have "r \<notin> set (concat rest)" using v [OF Some] by fastforce
    ultimately show ?thesis using old [OF r(1)] le_last [OF x(1)] x(2) keep by fastforce
  qed
  have wmc: "wm' \<le> crr_clock C (cd_crr db)"
  proof (cases "next_watermark chunk rest wm")
    case None
    then show ?thesis using wm plan by (simp add: wm' plan_inv_def watermark_inv_def)
  next
    case (Some v)
    with v [OF Some] clock show ?thesis by (auto simp: wm')
  qed
  have "plan_inv C E db' rest wm'" if "rest \<noteq> []"
  proof -
    have "concat rest \<noteq> []" using that ne(2) by (cases rest) auto
    then have "last (chunk @ concat rest) = last (concat rest)" by simp
    with old keep have "captured E (cd_outbox db') r \<or> r \<in> set (concat rest)"
      if "r \<in> set (crr_local C (cd_crr db))" "cr_db_version r \<le> cr_db_version (last (concat rest))" for r
      using that by metis
    with plan sorted push clock e(3) show ?thesis by (auto simp: plan_inv_def sorted_append)
  qed
  with below wmc push e(3) show ?thesis by (simp add: watermark_inv_def)
qed

lemma capture_chunk_counter:
  assumes env: "env_law E" and wf: "wf_changeset chunk" and cnt: "counter_inv db" "client_seq db < i64_max"
    and run: "capture_chunk E chunk rest wm db = Some (Inr (q, db'))"
  shows "counter_inv db' \<and> client_seq db' = client_seq db + 1"
proof -
  obtain e where e: "cd_outbox db' = cd_outbox db @ [e]" "oe_seq e = q" "q = client_seq db + 1"
    "q \<notin> oe_seq ` set (cd_outbox db)" "client_seq db' = q"
    using capture_chunk_Inr [OF env wf run] cnt(2) by blast
  with cnt(1) show ?thesis by (fastforce simp: counter_inv_def)
qed

lemma reseed_inv:
  assumes "crsql_law C" and "counter_inv db" and "client_seq db \<le> target" and "in_i64 target"
  shows "counter_inv (reseed_counter_to_tail target db) \<and> watermark_inv C E (reseed_counter_to_tail target db)"
proof -
  let ?db = "reseed_counter_to_tail target db"
  have "in_i64 0" by (simp add: machine_int_defs)
  then have f: "cd_outbox ?db = filter oe_acked (cd_outbox db)" "client_seq ?db = target" "push_watermark ?db = 0"
    "cd_crr ?db = cd_crr db"
    using assms(4) by (simp_all add: reseed_counter_to_tail_def Let_def client_seq_def push_watermark_def
      set_push_watermark_def set_client_seq_def get_set_i64)
  have "distinct (map oe_seq (filter oe_acked (cd_outbox db)))"
    using assms(2) by (simp add: counter_inv_def distinct_map_filter)
  moreover have "oe_seq e \<le> target" if "e \<in> set (cd_outbox db)" for e
    using assms(2,3) that by (fastforce simp: counter_inv_def)
  moreover have "\<not> cr_db_version r \<le> 0" if "r \<in> set (crr_local C (cd_crr db))" for r
    using assms(1) that by (fastforce simp: crsql_law_def)
  ultimately show ?thesis using assms(1) f by (auto simp: counter_inv_def watermark_inv_def crsql_law_def)
qed

lemma plan_inv_cong:
  "cd_crr db' = cd_crr db \<Longrightarrow> push_watermark db' = push_watermark db \<Longrightarrow>
   (\<And>r. captured E (cd_outbox db) r \<Longrightarrow> captured E (cd_outbox db') r) \<Longrightarrow>
   plan_inv C E db plan wm \<Longrightarrow> plan_inv C E db' plan wm"
  unfolding plan_inv_def by auto

lemma watermark_inv_cong:
  "cd_crr db' = cd_crr db \<Longrightarrow> push_watermark db' = push_watermark db \<Longrightarrow>
   (\<And>r. captured E (cd_outbox db) r \<Longrightarrow> captured E (cd_outbox db') r) \<Longrightarrow>
   watermark_inv C E db \<Longrightarrow> watermark_inv C E db'"
  unfolding watermark_inv_def by auto

lemma capture_inv_cong:
  "cd_crr db' = cd_crr (ca_db s) \<Longrightarrow> push_watermark db' = push_watermark (ca_db s) \<Longrightarrow>
   (\<And>r. captured E (cd_outbox (ca_db s)) r \<Longrightarrow> captured E (cd_outbox db') r) \<Longrightarrow> counter_inv db' \<Longrightarrow>
   capture_inv C E s \<Longrightarrow> capture_inv C E (s\<lparr>ca_db := db'\<rparr>)"
  using plan_inv_cong [of db' "ca_db s" E C] watermark_inv_cong [of db' "ca_db s" E C]
  by (simp add: capture_inv_def)

lemma capture_step_inv:
  assumes law: "crsql_law C" "env_law E" and step: "capture_step C E s s'" and inv: "capture_inv C E s"
  shows "capture_inv C E s'"
  using step inv
proof (induction rule: capture_step.induct)
  case (cs_write s d)
  with watermark_inv_later [of C E "ca_db s" d] plan_inv_later [of C E "ca_db s" "ca_plan s" "ca_wm s" d]
  show ?case by (simp add: capture_inv_def counter_inv_def client_seq_def)
next
  case (cs_begin s)
  let ?rows = "read_local_changes_since C (push_watermark (ca_db s)) (cd_crr (ca_db s))"
  have "?rows \<noteq> []" if "plan_capture_chunks ?rows \<noteq> []"
    using that by (auto simp: plan_capture_chunks_def)
  with cs_begin plan_inv_begin [OF law(1) _ refl, of E "ca_db s"] show ?case by (simp add: capture_inv_def)
next
  case (cs_chunk s chunk rest q db')
  then have plan: "plan_inv C E (ca_db s) (chunk # rest) (ca_wm s)" and wm: "watermark_inv C E (ca_db s)"
    and cnt: "counter_inv (ca_db s)" by (simp_all add: capture_inv_def)
  then have wf: "wf_changeset chunk" by (simp add: plan_inv_def)
  from capture_chunk_inv [OF law(2) plan wm cs_chunk(3) refl] capture_chunk_counter [OF law(2) wf cnt cs_chunk(2,3)]
  show ?case by (simp add: capture_inv_def)
next
  case (cs_die s)
  with watermark_inv_cong [of "reopen (ca_db s)" "ca_db s" E C] show ?case
    by (simp add: capture_inv_def counter_inv_def reopen_def client_seq_def push_watermark_def)
next
  case (cs_ack s q n)
  have "map oe_seq (cd_outbox (ack_entry q n (ca_db s))) = map oe_seq (cd_outbox (ca_db s))"
    by (simp add: ack_entry_def map_update_where)
  moreover have "client_seq (ack_entry q n (ca_db s)) = client_seq (ca_db s)" by (simp add: ack_entry_def client_seq_def)
  ultimately have "counter_inv (ack_entry q n (ca_db s))"
    using cs_ack by (auto simp: counter_inv_def capture_inv_def ack_entry_def set_update_where)
  with cs_ack show ?case
    by (intro capture_inv_cong) (simp_all add: ack_entry_def push_watermark_def captured_ack)
next
  case (cs_other db' s)
  then show ?case by (intro capture_inv_cong) (simp_all add: capture_inv_def counter_inv_def)
next
  case (cs_reseed s target)
  with reseed_inv [OF law(1), of "ca_db s" target E] show ?case by (simp add: capture_inv_def)
qed

lemma capture_reachable_inv:
  assumes law: "crsql_law C" "env_law E" and "capture_reachable C E s"
  shows "capture_inv C E s"
  using assms(3)
proof (induction rule: capture_reachable.induct)
  case (cr_start d)
  have wm: "push_watermark (fresh_client d) = 0"
    by (simp add: push_watermark_def get_i64_def get_str_def fresh_client_def)
  have "\<not> cr_db_version r \<le> 0" if "r \<in> set (crr_local C d)" for r
    using law(1) that by (fastforce simp: crsql_law_def)
  with law(1) wm show ?case
    by (auto simp: capture_inv_def start_capture_def counter_inv_def watermark_inv_def crsql_law_def fresh_client_def)
qed (blast intro: capture_step_inv [OF law])

lemma length_concat_ge: "[] \<notin> set cs \<Longrightarrow> length cs \<le> length (concat cs)"
proof (induction cs)
  case (Cons c cs)
  then show ?case by (cases c) auto
qed simp

lemma capture_chunk_runs:
  assumes env: "env_law E" and cnt: "counter_inv db"
  shows "\<exists>q db1. capture_chunk E chunk rest wm db = Some (Inr (q, db1))"
proof -
  have fresh: "client_seq db + 1 \<notin> oe_seq ` set (cd_outbox db)"
    using cnt by (fastforce simp: counter_inv_def)
  obtain dk wn cn where rnd: "ce_random E (client_seq db + 1) = (dk, wn, cn)" by (metis prod_cases3)
  with env have len: "length dk = 32" "length wn = 24" "length cn = 24" by (auto simp: env_law_def split: prod.splits)
  obtain blob where "changeset_encrypt (ce_crates E) (ce_aead E) (ce_cipher E) (ce_client E) (client_seq db + 1)
      dk wn cn (encode_changeset chunk) = Some (Inr blob)"
    using encrypt_decrypt [OF _ _ len] env unfolding env_law_def by blast
  with rnd fresh show ?thesis
    by (simp add: capture_chunk_def insert_chunk_def next_client_seq_def Let_def)
qed

lemma enqueue_loop_all:
  assumes env: "env_law E"
  shows "plan = [] \<or> plan_inv C E db plan wm \<Longrightarrow> watermark_inv C E db \<Longrightarrow> counter_inv db \<Longrightarrow>
    client_seq db + int (length plan) \<le> i64_max \<Longrightarrow>
    (\<And>r. r \<in> set (crr_local C (cd_crr db)) \<Longrightarrow> captured E (cd_outbox db) r \<or> r \<in> set (concat plan)) \<Longrightarrow>
    \<exists>new db'. enqueue_loop E plan wm db = (Some (Inr (map oe_seq new)), db') \<and> cd_outbox db' = cd_outbox db @ new \<and>
      map oe_seq new = map (\<lambda>i. client_seq db + int (Suc i)) [0..<length plan] \<and>
      map (\<lambda>e. length (oe_ciphertext e)) new = map (\<lambda>c. length (encode_changeset c) + 146) plan \<and>
      (\<forall>r\<in>set (crr_local C (cd_crr db)). captured E (cd_outbox db') r)"
proof (induction plan arbitrary: db wm)
  case Nil
  then show ?case by (intro exI [of _ "[]"] exI [of _ db]) auto
next
  case (Cons chunk rest)
  then have plan: "plan_inv C E db (chunk # rest) wm" by simp
  then have wf: "wf_changeset chunk" by (simp add: plan_inv_def)
  have lt: "client_seq db < i64_max" using Cons.prems(4) by simp
  obtain q db1 where run: "capture_chunk E chunk rest wm db = Some (Inr (q, db1))"
    using capture_chunk_runs [OF env Cons.prems(3)] by blast
  define wm' where "wm' = (case next_watermark chunk rest wm of Some v \<Rightarrow> v | None \<Rightarrow> wm)"
  obtain e where e: "cd_outbox db1 = cd_outbox db @ [e]" "oe_seq e = q" "q = client_seq db + 1"
    "length (oe_ciphertext e) = length (encode_changeset chunk) + 146"
    "\<forall>r\<in>set chunk. captured E [e] r" "cd_crr db1 = cd_crr db"
    using capture_chunk_Inr [OF env wf run] by blast
  have inv: "watermark_inv C E db1" "rest = [] \<or> plan_inv C E db1 rest wm'"
    using capture_chunk_inv [OF env plan Cons.prems(2) run wm'_def] by auto
  have cnt: "counter_inv db1" "client_seq db1 = client_seq db + 1"
    using capture_chunk_counter [OF env wf Cons.prems(3) lt run] by auto
  have keep: "captured E (cd_outbox db1) r" if "captured E (cd_outbox db) r \<or> captured E [e] r" for r
    using that captured_mono [of E "cd_outbox db" r "cd_outbox db1"] captured_mono [of E "[e]" r "cd_outbox db1"] e(1) by auto
  have room: "client_seq db1 + int (length rest) \<le> i64_max" using Cons.prems(4) cnt(2) by simp
  have all: "captured E (cd_outbox db1) r \<or> r \<in> set (concat rest)" if "r \<in> set (crr_local C (cd_crr db1))" for r
    using Cons.prems(5) [of r] that e(5,6) keep by auto
  obtain new db' where rec: "enqueue_loop E rest wm' db1 = (Some (Inr (map oe_seq new)), db')"
    "cd_outbox db' = cd_outbox db1 @ new" "map oe_seq new = map (\<lambda>i. client_seq db1 + int (Suc i)) [0..<length rest]"
    "map (\<lambda>e. length (oe_ciphertext e)) new = map (\<lambda>c. length (encode_changeset c) + 146) rest"
    "\<forall>r\<in>set (crr_local C (cd_crr db1)). captured E (cd_outbox db') r"
    using Cons.IH [OF inv(2,1) cnt(1) room all] by blast
  have "map (\<lambda>i. client_seq db + int (Suc i)) [0..<length (chunk # rest)] =
      (client_seq db + 1) # map (\<lambda>i. client_seq db1 + int (Suc i)) [0..<length rest]"
    by (simp add: cnt(2) upt_conv_Cons map_Suc_upt [symmetric] comp_def algebra_simps del: upt_Suc)
  with run rec e show ?case by (intro exI [of _ "e # new"] exI [of _ db']) (simp add: wm'_def [symmetric])
qed

subsection \<open>Properties\<close>

text \<open>C3. No local write is lost on its way into the outbox. However other writers, crashes between the
  chunk transactions, acknowledgements, restarts and counter repairs interleave with captures, every
  change row of this device at or below the push watermark is inside an outbox entry that decrypts,
  under its own number, to a changeset with that row; so a capture, which reads the rows above the
  watermark, never skips one. Sequence numbers are never reused.\<close>

theorem capture_never_loses_rows:
  assumes "crsql_law C" and "env_law E" and "capture_reachable C E s"
    and "r \<in> set (crr_local C (cd_crr (ca_db s)))" and "cr_db_version r \<le> push_watermark (ca_db s)"
  shows "captured E (cd_outbox (ca_db s)) r \<and> distinct (map oe_seq (cd_outbox (ca_db s))) \<and>
    (\<forall>e\<in>set (cd_outbox (ca_db s)). oe_seq e \<le> client_seq (ca_db s))"
  using capture_reachable_inv [OF assms(1-3)] assms(4,5)
  by (simp add: capture_inv_def watermark_inv_def counter_inv_def)

text \<open>C29. A capture succeeds and captures everything. From any reachable state between captures, while
  the counter has room, \<open>enqueue_local\<close> answers the numbers of the entries it added, consecutive from
  the counter, and afterwards every change row of this device is in an entry.\<close>

theorem capture_enqueues_everything:
  assumes "crsql_law C" and "env_law E" and "capture_reachable C E s" and "ca_plan s = []"
    and "client_seq (ca_db s) + int (length (crr_local C (cd_crr (ca_db s)))) \<le> i64_max"
  shows "\<exists>new db'. enqueue_local C E (ca_db s) = (Some (Inr (map oe_seq new)), db') \<and>
    cd_outbox db' = cd_outbox (ca_db s) @ new \<and>
    map oe_seq new = map (\<lambda>i. client_seq (ca_db s) + int (Suc i)) [0..<length new] \<and>
    (\<forall>r\<in>set (crr_local C (cd_crr (ca_db s))). captured E (cd_outbox db') r)"
proof -
  let ?db = "ca_db s"
  let ?rows = "read_local_changes_since C (push_watermark ?db) (cd_crr ?db)"
  have inv: "counter_inv ?db" "watermark_inv C E ?db"
    using capture_reachable_inv [OF assms(1-3)] by (simp_all add: capture_inv_def)
  have old: "captured E (cd_outbox ?db) r \<or> r \<in> set ?rows" if "r \<in> set (crr_local C (cd_crr ?db))" for r
    using inv(2) that by (fastforce simp: watermark_inv_def read_local_changes_since_def)
  show ?thesis
  proof (cases "?rows = []")
    case True
    with old show ?thesis by (intro exI [of _ "[]"] exI [of _ ?db]) (simp add: enqueue_local_def)
  next
    case False
    have plan: "plan_inv C E ?db (plan_capture_chunks ?rows) (push_watermark ?db)"
      by (rule plan_inv_begin [OF assms(1) inv(2) refl False])
    have "length (plan_capture_chunks ?rows) \<le> length ?rows"
      using length_concat_ge [OF plan_nonempty, of ?rows] by simp
    moreover have "length ?rows \<le> length (crr_local C (cd_crr ?db))" by (simp add: read_local_changes_since_def)
    ultimately have "length (plan_capture_chunks ?rows) \<le> length (crr_local C (cd_crr ?db))" by (rule le_trans)
    with assms(5) have room: "client_seq ?db + int (length (plan_capture_chunks ?rows)) \<le> i64_max" by linarith
    have all: "captured E (cd_outbox ?db) r \<or> r \<in> set (concat (plan_capture_chunks ?rows))"
      if "r \<in> set (crr_local C (cd_crr ?db))" for r using old [OF that] by simp
    obtain new db' where loop: "enqueue_loop E (plan_capture_chunks ?rows) (push_watermark ?db) ?db =
        (Some (Inr (map oe_seq new)), db')" "cd_outbox db' = cd_outbox ?db @ new"
      "map oe_seq new = map (\<lambda>i. client_seq ?db + int (Suc i)) [0..<length (plan_capture_chunks ?rows)]"
      "\<forall>r\<in>set (crr_local C (cd_crr ?db)). captured E (cd_outbox db') r"
      using enqueue_loop_all [OF assms(2) disjI2 [OF plan] inv(2,1) room all] by blast
    have "length new = length (plan_capture_chunks ?rows)" using arg_cong [OF loop(3), of length] by simp
    with loop False show ?thesis
      by (intro exI [of _ new] exI [of _ db']) (simp add: enqueue_local_def Let_def)
  qed
qed


subsection \<open>Examples\<close>

definition sample_row :: "int \<Rightarrow> change_row" where
  "sample_row v = \<lparr>cr_table = str_bytes ''notes'', cr_pk = [1], cr_cid = str_bytes ''body'', cr_val = Text [104, 105],
     cr_col_version = 1, cr_db_version = v, cr_site_id = Some [7], cr_cl = 1, cr_seq = 0\<rparr>"

text \<open>A database that is empty, or holds two own rows.\<close>

definition two_row_crsql :: "bool crsql" where
  "two_row_crsql = \<lparr>crr_local = (\<lambda>d. if d then [sample_row 1, sample_row 2] else []), crr_clock = (\<lambda>d. if d then 2 else 0),
     crr_is = (\<lambda>t d. True), crr_column = (\<lambda>t c d. True), crr_apply = (\<lambda>r d. Some d)\<rparr>"

definition sample_capture_env :: capture_env where
  "sample_capture_env = \<lparr>ce_crates = toy_crates, ce_aead = toy_aead, ce_cipher = two_cipher, ce_client = 7,
     ce_schema = 1, ce_engine = 16003, ce_random = (\<lambda>q. (replicate 32 7, replicate 24 1, replicate 24 2))\<rparr>"

lemma sample_capture_laws: "crsql_law two_row_crsql" "env_law sample_capture_env"
proof -
  have "wf_row (sample_row 1)" "wf_row (sample_row 2)"
    by (simp_all add: wf_row_def sample_row_def wf_text_def wf_bytes_def wf_site_def str_bytes_def machine_int_defs)
  then show "crsql_law two_row_crsql" by (simp add: crsql_law_def two_row_crsql_def sample_row_def)
  show "env_law sample_capture_env" by (simp add: env_law_def sample_capture_env_def toy_hmac toy_aead_laws)
qed

definition two_rows_written :: "bool capture_sys" where
  "two_rows_written = (start_capture False)\<lparr>ca_db := (fresh_client False)\<lparr>cd_crr := True\<rparr>\<rparr>"

lemma two_rows_reachable: "capture_reachable two_row_crsql sample_capture_env two_rows_written"
proof -
  have "later two_row_crsql (cd_crr (ca_db (start_capture False))) True"
    by (simp add: later_def two_row_crsql_def start_capture_def fresh_client_def sample_row_def)
  from cr_step [OF cr_start cs_write [OF this]] show ?thesis
    by (simp add: two_rows_written_def start_capture_def)
qed

lemma two_rows_counter: "client_seq (ca_db two_rows_written) = 0" "push_watermark (ca_db two_rows_written) = 0"
  by (simp_all add: two_rows_written_def start_capture_def fresh_client_def client_seq_def push_watermark_def
    get_i64_def get_str_def)

lemma capture_enqueues_everything_witness:
  "\<exists>(new :: outbox_entry list) db'. enqueue_local two_row_crsql sample_capture_env (ca_db two_rows_written) = (Some (Inr (map oe_seq new)), db') \<and>
     captured sample_capture_env (cd_outbox db') (sample_row 2)"
proof -
  have plan: "ca_plan two_rows_written = []" and crr: "cd_crr (ca_db two_rows_written) = True"
    by (simp_all add: two_rows_written_def start_capture_def)
  have "client_seq (ca_db two_rows_written) + int (length (crr_local two_row_crsql (cd_crr (ca_db two_rows_written)))) \<le> i64_max"
    unfolding crr by (simp add: two_rows_counter two_row_crsql_def machine_int_defs)
  from capture_enqueues_everything [OF sample_capture_laws two_rows_reachable plan this] obtain new :: "outbox_entry list" and db' where
    "enqueue_local two_row_crsql sample_capture_env (ca_db two_rows_written) = (Some (Inr (map oe_seq new)), db')"
    "\<forall>r\<in>set (crr_local two_row_crsql True). captured sample_capture_env (cd_outbox db') r"
    unfolding crr by blast
  moreover have "sample_row 2 \<in> set (crr_local two_row_crsql True)" by (simp add: two_row_crsql_def)
  ultimately show ?thesis by blast
qed


lemma capture_never_loses_rows_witness:
  "\<exists>s. capture_reachable two_row_crsql sample_capture_env s \<and> push_watermark (ca_db s) = 2 \<and>
     captured sample_capture_env (cd_outbox (ca_db s)) (sample_row 2)"
proof -
  define b where "b = two_rows_written\<lparr>ca_wm := 0, ca_plan := [[sample_row 1, sample_row 2]]\<rparr>"
  have plan: "plan_capture_chunks (read_local_changes_since two_row_crsql 0 True) = [[sample_row 1, sample_row 2]]"
  proof -
    have "table_sync_capability (cr_table (sample_row v)) = 0" "row_encoded_size (sample_row v) < 100" for v
      by (simp_all add: sample_row_def table_sync_capability_def sync_tables_def cutover_sync_table_count_def
        row_encoded_size_def)
    then show ?thesis
      by (simp add: plan_capture_chunks_def read_local_changes_since_def two_row_crsql_def sample_row_def
        chunk_rows_def chunk_plaintext_budget_def Let_def row_encoded_size_def)
  qed
  have crr: "cd_crr (ca_db two_rows_written) = True" by (simp add: two_rows_written_def start_capture_def)
  have b: "capture_reachable two_row_crsql sample_capture_env b"
    using cr_step [OF two_rows_reachable cs_begin] unfolding two_rows_counter crr plan b_def .
  have db: "ca_db b = ca_db two_rows_written" "ca_plan b = [[sample_row 1, sample_row 2]]" "ca_wm b = 0"
    by (simp_all add: b_def)
  have inv: "capture_inv two_row_crsql sample_capture_env b"
    by (rule capture_reachable_inv [OF sample_capture_laws b])
  then have cnt: "counter_inv (ca_db b)" by (simp add: capture_inv_def)
  obtain q db' where run: "capture_chunk sample_capture_env [sample_row 1, sample_row 2] [] (ca_wm b) (ca_db b) = Some (Inr (q, db'))"
    using capture_chunk_runs [OF sample_capture_laws(2) cnt] by blast
  have nw: "next_watermark [sample_row 1, sample_row 2] [] 0 = Some 2"
    by (simp add: next_watermark_def chunk_commit_watermark_def Let_def sample_row_def)
  have lt: "client_seq (ca_db b) < i64_max" by (simp add: db two_rows_counter machine_int_defs)
  define s where "s = b\<lparr>ca_db := db', ca_plan := [], ca_wm := 2\<rparr>"
  have s: "capture_reachable two_row_crsql sample_capture_env s"
    using cr_step [OF b cs_chunk [OF db(2) lt run]] nw db(3) by (simp add: s_def)
  have "plan_inv two_row_crsql sample_capture_env (ca_db b) [[sample_row 1, sample_row 2]] 0"
    using inv db by (simp add: capture_inv_def)
  moreover have "watermark_inv two_row_crsql sample_capture_env (ca_db b)" using inv by (simp add: capture_inv_def)
  ultimately have "push_watermark db' = 2"
    using capture_chunk_inv [OF sample_capture_laws(2) _ _ run [unfolded db(3)] refl] nw by simp
  moreover have "cd_crr db' = True"
    using capture_chunk_Inr [OF sample_capture_laws(2) _ run] inv crr db by (auto simp: capture_inv_def plan_inv_def)
  ultimately have "captured sample_capture_env (cd_outbox (ca_db s)) (sample_row 2)"
    using capture_never_loses_rows [OF sample_capture_laws s, of "sample_row 2"]
    by (simp add: s_def two_row_crsql_def sample_row_def)
  with s \<open>push_watermark db' = 2\<close> show ?thesis by (intro exI [of _ s]) (simp add: s_def)
qed

end
