(* ===== verification/Quarantine.thy ===== *)
theory Quarantine
  imports Capture
begin

text \<open>
  Merging pulled changesets and replaying the stash: \<open>crates/yapstack-sync/src/quarantine.rs\<close>,
  \<open>apply_change\<close> of \<open>change.rs\<close> and \<open>is_crr\<close>, \<open>column_exists\<close> of \<open>schema.rs\<close> (through the cr-sqlite
  parameter). A row whose table or column this device does not have yet is stashed and replayed
  after the update that adds it.

  A transaction that fails leaves the database as it was, so its result is only the error; a replay
  pass commits row by row, so its result carries the database it reached.
\<close>

type_synonym row_key = "bytes \<times> bytes"
type_synonym crr_cache = "bytes \<Rightarrow> bool option"

definition key_of_row :: "change_row \<Rightarrow> row_key" where
  "key_of_row r = (cr_table r, cr_pk r)"

definition cached_is_crr :: "'d crsql \<Rightarrow> crr_cache \<Rightarrow> bytes \<Rightarrow> 'd \<Rightarrow> bool \<times> crr_cache" where
  "cached_is_crr C cache t d = (case cache t of
       Some known \<Rightarrow> (known, cache)
     | None \<Rightarrow> (crr_is C t d, cache(t \<mapsto> crr_is C t d)))"

definition is_deferrable :: "'d crsql \<Rightarrow> crr_cache \<Rightarrow> change_row \<Rightarrow> 'd \<Rightarrow> bool \<times> crr_cache" where
  "is_deferrable C cache r d = (case cached_is_crr C cache (cr_table r) d of (known, cache') \<Rightarrow>
     if \<not> known then (True, cache')
     else if cr_cid r = sentinel_cid then (False, cache')
     else (\<not> crr_column C (cr_table r) (cr_cid r) d, cache'))"

text \<open>The key an entry of the stash holds back, when it is ready.\<close>

definition stashed_key :: "'d crsql \<Rightarrow> bytes \<Rightarrow> 'd \<Rightarrow> stash_row \<Rightarrow> row_key option" where
  "stashed_key C t d e =
     (if st_table e = t \<and> (st_cid e = sentinel_cid \<or> crr_column C t (st_cid e) d)
      then case decode_changeset (st_blob e) of Inr (r # _) \<Rightarrow> Some (key_of_row r) | _ \<Rightarrow> None
      else None)"

fun ready_keys_loop :: "'d crsql \<Rightarrow> 'd client_db \<Rightarrow> bytes list \<Rightarrow> crr_cache \<Rightarrow> row_key set \<times> crr_cache" where
  "ready_keys_loop C db [] cache = ({}, cache)"
| "ready_keys_loop C db (t # ts) cache = (case cached_is_crr C cache t (cd_crr db) of (known, cache') \<Rightarrow>
     case ready_keys_loop C db ts cache' of (keys, cache'') \<Rightarrow>
       (if known then keys \<union> set (List.map_filter (stashed_key C t (cd_crr db)) (cd_stash db)) else keys, cache''))"

definition ready_stashed_keys :: "'d crsql \<Rightarrow> crr_cache \<Rightarrow> change_row list \<Rightarrow> 'd client_db \<Rightarrow> row_key set \<times> crr_cache" where
  "ready_stashed_keys C cache rows db = ready_keys_loop C db (remdups (map cr_table rows)) cache"

definition stash :: "change_row \<Rightarrow> 'd client_db \<Rightarrow> 'd client_db" where
  "stash r db = db\<lparr>cd_stash := cd_stash db @ [\<lparr>st_id = cd_stash_next db, st_table = cr_table r, st_cid = cr_cid r,
     st_blob = encode_changeset [r]\<rparr>], cd_stash_next := cd_stash_next db + 1\<rparr>"

definition apply_change :: "'d crsql \<Rightarrow> change_row \<Rightarrow> 'd client_db \<Rightarrow> sync_error + 'd client_db" where
  "apply_change C r db = (case crr_apply C r (cd_crr db) of
       None \<Rightarrow> Inl (Sqlite ''apply failed'') | Some d \<Rightarrow> Inr (db\<lparr>cd_crr := d\<rparr>))"

definition apply_or_quarantine :: "'d crsql \<Rightarrow> crr_cache \<Rightarrow> row_key set \<Rightarrow> change_row \<Rightarrow> 'd client_db
    \<Rightarrow> sync_error + bool \<times> crr_cache \<times> 'd client_db" where
  "apply_or_quarantine C cache stashed_ready r db =
     (if key_of_row r \<in> stashed_ready then Inr (True, cache, stash r db)
      else case is_deferrable C cache r (cd_crr db) of (deferrable, cache') \<Rightarrow>
        if deferrable then Inr (True, cache', stash r db)
        else bind_result (apply_change C r db) (\<lambda>db'. Inr (False, cache', db')))"

fun merge_rows :: "'d crsql \<Rightarrow> crr_cache \<Rightarrow> row_key set \<Rightarrow> change_row list \<Rightarrow> nat \<Rightarrow> nat \<Rightarrow> 'd client_db
    \<Rightarrow> sync_error + (nat \<times> nat) \<times> 'd client_db" where
  "merge_rows C cache keys [] applied quarantined db = Inr ((applied, quarantined), db)"
| "merge_rows C cache keys (r # rs) applied quarantined db =
     bind_result (apply_or_quarantine C cache keys r db) (\<lambda>(deferred, cache', db').
       if deferred then merge_rows C cache' keys rs applied (quarantined + 1) db'
       else merge_rows C cache' keys rs (applied + 1) quarantined db')"

definition merge_changeset :: "'d crsql \<Rightarrow> change_row list \<Rightarrow> 'd client_db \<Rightarrow> sync_error + (nat \<times> nat) \<times> 'd client_db" where
  "merge_changeset C rows db = (case ready_stashed_keys C Map.empty rows db of (keys, cache) \<Rightarrow>
     merge_rows C cache keys rows 0 0 db)"

subsection \<open>Replay\<close>

record replay_report =
  rp_replayed :: nat
  rp_waiting :: nat
  rp_failed :: nat
  rp_blocked :: nat

record replay_state =
  rs_report :: replay_report
  rs_cache :: crr_cache
  rs_failed_keys :: "row_key set"

definition replay_start :: replay_state where
  "replay_start = \<lparr>rs_report = \<lparr>rp_replayed = 0, rp_waiting = 0, rp_failed = 0, rp_blocked = 0\<rparr>,
     rs_cache = Map.empty, rs_failed_keys = {}\<rparr>"

definition candidates :: "'d client_db \<Rightarrow> (int \<times> bytes) list" where
  "candidates db = map (\<lambda>e. (st_id e, st_blob e)) (sort_key st_id (cd_stash db))"

definition delete_stashed :: "int \<Rightarrow> 'd client_db \<Rightarrow> 'd client_db" where
  "delete_stashed i db = db\<lparr>cd_stash := delete_where (\<lambda>e. st_id e = i) (cd_stash db)\<rparr>"

definition replay_row :: "'d crsql \<Rightarrow> int \<times> bytes \<Rightarrow> replay_state \<Rightarrow> 'd client_db
    \<Rightarrow> sync_error + replay_state \<times> 'd client_db" where
  "replay_row C cand st db = (case cand of (i, blob) \<Rightarrow>
     bind_result (decode_changeset blob) (\<lambda>rows. case rows of
       [] \<Rightarrow> Inr (st, delete_stashed i db)
     | r # _ \<Rightarrow>
         if key_of_row r \<in> rs_failed_keys st
         then Inr (st\<lparr>rs_report := (rs_report st)\<lparr>rp_blocked := rp_blocked (rs_report st) + 1\<rparr>\<rparr>, db)
         else case is_deferrable C (rs_cache st) r (cd_crr db) of (deferrable, cache) \<Rightarrow>
           if deferrable
           then Inr (st\<lparr>rs_cache := cache, rs_report := (rs_report st)\<lparr>rp_waiting := rp_waiting (rs_report st) + 1\<rparr>\<rparr>, db)
           else (case apply_change C r db of
               Inl e \<Rightarrow> Inr (st\<lparr>rs_cache := cache, rs_failed_keys := insert (key_of_row r) (rs_failed_keys st),
                 rs_report := (rs_report st)\<lparr>rp_failed := rp_failed (rs_report st) + 1\<rparr>\<rparr>, db)
             | Inr db' \<Rightarrow> Inr (st\<lparr>rs_cache := cache,
                 rs_report := (rs_report st)\<lparr>rp_replayed := rp_replayed (rs_report st) + 1\<rparr>\<rparr>, delete_stashed i db'))))"

fun replay_loop :: "'d crsql \<Rightarrow> (int \<times> bytes) list \<Rightarrow> replay_state \<Rightarrow> 'd client_db
    \<Rightarrow> (sync_error + replay_state) \<times> 'd client_db" where
  "replay_loop C [] st db = (Inr st, db)"
| "replay_loop C (c # cs) st db = (case replay_row C c st db of
       Inl e \<Rightarrow> (Inl e, db) | Inr (st', db') \<Rightarrow> replay_loop C cs st' db')"

definition k_replay_waiting :: string where "k_replay_waiting = ''replay_waiting''"
definition k_replay_failed :: string where "k_replay_failed = ''replay_failed''"

definition persist_one :: "string \<Rightarrow> string \<Rightarrow> 'd client_db \<Rightarrow> 'd client_db" where
  "persist_one k v db =
     (let current = get_str k db; unset_and_empty = (current = None \<and> v = ''0'')
      in if current \<noteq> Some v \<and> \<not> unset_and_empty then set_str k v db else db)"

definition persist_replay_outcome :: "replay_report \<Rightarrow> 'd client_db \<Rightarrow> 'd client_db" where
  "persist_replay_outcome rep db =
     persist_one k_replay_failed (show_nat (rp_failed rep + rp_blocked rep))
       (persist_one k_replay_waiting (show_nat (rp_waiting rep)) db)"

definition replay_pending :: "'d crsql \<Rightarrow> 'd client_db \<Rightarrow> (sync_error + replay_report) \<times> 'd client_db" where
  "replay_pending C db = (case replay_loop C (candidates db) replay_start db of
       (Inl e, db') \<Rightarrow> (Inl e, db')
     | (Inr st, db') \<Rightarrow> (Inr (rs_report st), persist_replay_outcome (rs_report st) db'))"

definition parse_u64_or_0 :: "string option \<Rightarrow> int" where
  "parse_u64_or_0 v = (case Option.bind v parse_u64 of Some n \<Rightarrow> n | None \<Rightarrow> 0)"

definition replay_status :: "'d client_db \<Rightarrow> int \<times> int" where
  "replay_status db = (parse_u64_or_0 (get_str k_replay_waiting db), parse_u64_or_0 (get_str k_replay_failed db))"

definition pending_count :: "'d client_db \<Rightarrow> int" where
  "pending_count db = int (length (cd_stash db))"

subsection \<open>What a merge does\<close>

text \<open>Documented behaviour of cr-sqlite: applying a change row never alters the schema.\<close>

definition same_schema :: "'d crsql \<Rightarrow> 'd \<Rightarrow> 'd \<Rightarrow> bool" where
  "same_schema C d d' \<longleftrightarrow> (\<forall>t. crr_is C t d = crr_is C t d') \<and> (\<forall>t c. crr_column C t c d = crr_column C t c d')"

definition schema_law :: "'d crsql \<Rightarrow> bool" where
  "schema_law C \<longleftrightarrow> (\<forall>r d d'. crr_apply C r d = Some d' \<longrightarrow> same_schema C d' d)"

definition ready :: "'d crsql \<Rightarrow> change_row \<Rightarrow> 'd \<Rightarrow> bool" where
  "ready C r d \<longleftrightarrow> crr_is C (cr_table r) d \<and> (cr_cid r = sentinel_cid \<or> crr_column C (cr_table r) (cr_cid r) d)"

definition cache_ok :: "'d crsql \<Rightarrow> crr_cache \<Rightarrow> 'd \<Rightarrow> bool" where
  "cache_ok C cache d \<longleftrightarrow> (\<forall>t known. cache t = Some known \<longrightarrow> known = crr_is C t d)"

fun apply_all :: "'d crsql \<Rightarrow> change_row list \<Rightarrow> 'd \<Rightarrow> 'd option" where
  "apply_all C [] d = Some d"
| "apply_all C (r # rs) d = Option.bind (crr_apply C r d) (apply_all C rs)"

text \<open>The entries a list of stashed rows takes, from the next id on.\<close>

definition entry_of_row :: "int \<Rightarrow> change_row \<Rightarrow> stash_row" where
  "entry_of_row i r = \<lparr>st_id = i, st_table = cr_table r, st_cid = cr_cid r, st_blob = encode_changeset [r]\<rparr>"

fun entries_from :: "int \<Rightarrow> change_row list \<Rightarrow> stash_row list" where
  "entries_from i [] = []"
| "entries_from i (r # rs) = entry_of_row i r # entries_from (i + 1) rs"

lemma same_schema_refl [simp]: "same_schema C d d"
  by (simp add: same_schema_def)

lemma same_schema_trans: "same_schema C a b \<Longrightarrow> same_schema C b c \<Longrightarrow> same_schema C a c"
  by (simp add: same_schema_def)

lemma ready_same: "same_schema C d d' \<Longrightarrow> ready C r d = ready C r d'"
  by (simp add: ready_def same_schema_def)

lemma cache_ok_same: "same_schema C d d' \<Longrightarrow> cache_ok C cache d = cache_ok C cache d'"
  by (simp add: cache_ok_def same_schema_def)

lemma cache_ok_empty [simp]: "cache_ok C Map.empty d"
  by (simp add: cache_ok_def)

lemma cached_is_crr_ok:
  "cache_ok C cache d \<Longrightarrow> \<exists>cache'. cached_is_crr C cache t d = (crr_is C t d, cache') \<and> cache_ok C cache' d"
  by (auto simp: cached_is_crr_def cache_ok_def split: option.splits)

lemma is_deferrable_ok:
  assumes "cache_ok C cache d"
  shows "\<exists>cache'. is_deferrable C cache r d = (\<not> ready C r d, cache') \<and> cache_ok C cache' d"
proof -
  obtain cache' where "cached_is_crr C cache (cr_table r) d = (crr_is C (cr_table r) d, cache')" "cache_ok C cache' d"
    using cached_is_crr_ok [OF assms] by blast
  then show ?thesis by (auto simp: is_deferrable_def ready_def)
qed

lemma ready_keys_loop_ok:
  "cache_ok C cache (cd_crr db) \<Longrightarrow> \<exists>cache'. ready_keys_loop C db ts cache =
     ({k. \<exists>t\<in>set ts. crr_is C t (cd_crr db) \<and> (\<exists>e\<in>set (cd_stash db). stashed_key C t (cd_crr db) e = Some k)}, cache') \<and>
     cache_ok C cache' (cd_crr db)"
proof (induction ts arbitrary: cache)
  case (Cons t ts)
  obtain c1 where c1: "cached_is_crr C cache t (cd_crr db) = (crr_is C t (cd_crr db), c1)" "cache_ok C c1 (cd_crr db)"
    using cached_is_crr_ok [OF Cons.prems] by blast
  obtain c2 where c2: "ready_keys_loop C db ts c1 =
     ({k. \<exists>t\<in>set ts. crr_is C t (cd_crr db) \<and> (\<exists>e\<in>set (cd_stash db). stashed_key C t (cd_crr db) e = Some k)}, c2)"
     "cache_ok C c2 (cd_crr db)" using Cons.IH [OF c1(2)] by blast
  have "set (List.map_filter (stashed_key C t (cd_crr db)) (cd_stash db)) =
      {k. \<exists>e\<in>set (cd_stash db). stashed_key C t (cd_crr db) e = Some k}"
    by (force simp: List.map_filter_def)
  with c1 c2 show ?case by auto
qed simp

lemma merge_rows_spec:
  assumes "schema_law C"
  shows "cache_ok C cache (cd_crr db) \<Longrightarrow> same_schema C (cd_crr db) d0 \<Longrightarrow>
    merge_rows C cache keys rows a q db =
      (case apply_all C (filter (\<lambda>r. \<not> (key_of_row r \<in> keys \<or> \<not> ready C r d0)) rows) (cd_crr db) of
         None \<Rightarrow> Inl (Sqlite ''apply failed'')
       | Some d \<Rightarrow> Inr ((a + length (filter (\<lambda>r. \<not> (key_of_row r \<in> keys \<or> \<not> ready C r d0)) rows),
           q + length (filter (\<lambda>r. key_of_row r \<in> keys \<or> \<not> ready C r d0) rows)),
           db\<lparr>cd_stash := cd_stash db @ entries_from (cd_stash_next db) (filter (\<lambda>r. key_of_row r \<in> keys \<or> \<not> ready C r d0) rows),
              cd_stash_next := cd_stash_next db + int (length (filter (\<lambda>r. key_of_row r \<in> keys \<or> \<not> ready C r d0) rows)),
              cd_crr := d\<rparr>))"
proof (induction rows arbitrary: cache a q db)
  case (Cons r rows)
  have rdy: "ready C r (cd_crr db) = ready C r d0" by (rule ready_same [OF Cons.prems(2)])
  obtain c1 where c1: "is_deferrable C cache r (cd_crr db) = (\<not> ready C r d0, c1)" "cache_ok C c1 (cd_crr db)"
    using is_deferrable_ok [OF Cons.prems(1), of r] rdy by auto
  show ?case
  proof (cases "key_of_row r \<in> keys \<or> \<not> ready C r d0")
    case True
    then obtain c' where "apply_or_quarantine C cache keys r db = Inr (True, c', stash r db)" "cache_ok C c' (cd_crr (stash r db))"
      using that [of cache] that [of c1] c1 Cons.prems(1)
      by (cases "key_of_row r \<in> keys") (auto simp: apply_or_quarantine_def stash_def)
    moreover have "same_schema C (cd_crr (stash r db)) d0" using Cons.prems(2) by (simp add: stash_def)
    ultimately show ?thesis
      using True Cons.IH [of c' "stash r db" a "q + 1"]
      by (auto simp: stash_def entry_of_row_def split: option.splits)
  next
    case False
    then show ?thesis
    proof (cases "crr_apply C r (cd_crr db)")
      case None
      with False c1 show ?thesis by (auto simp: apply_or_quarantine_def apply_change_def)
    next
      case (Some d)
      then have same: "same_schema C d (cd_crr db)" using assms by (auto simp: schema_law_def)
      have "cache_ok C c1 (cd_crr (db\<lparr>cd_crr := d\<rparr>))" "same_schema C (cd_crr (db\<lparr>cd_crr := d\<rparr>)) d0"
        using c1(2) cache_ok_same [OF same] same_schema_trans [OF same Cons.prems(2)] by simp_all
      from Cons.IH [OF this, of "a + 1" q] False c1 Some show ?thesis
        by (auto simp: apply_or_quarantine_def apply_change_def split: option.splits)
    qed
  qed
qed simp

text \<open>Every entry of the stash is the encoding of one well-formed row.\<close>

definition stash_wf :: "'d client_db \<Rightarrow> bool" where
  "stash_wf db \<longleftrightarrow> (\<forall>e\<in>set (cd_stash db). \<exists>r. wf_row r \<and> e = entry_of_row (st_id e) r)"

definition queued :: "'d crsql \<Rightarrow> 'd client_db \<Rightarrow> change_row \<Rightarrow> bool" where
  "queued C db r \<longleftrightarrow> \<not> ready C r (cd_crr db) \<or>
     (\<exists>e\<in>set (cd_stash db). \<exists>r'. wf_row r' \<and> e = entry_of_row (st_id e) r' \<and> ready C r' (cd_crr db) \<and> key_of_row r' = key_of_row r)"

lemma decode_one: "wf_row r \<Longrightarrow> decode_changeset (encode_changeset [r]) = Inr [r]"
  using decode_encode [of "[r]" "[]"] by (simp add: wf_changeset_def)

lemma stashed_key_entry:
  "wf_row r \<Longrightarrow> stashed_key C t d (entry_of_row i r) = Some k \<longleftrightarrow>
     cr_table r = t \<and> (cr_cid r = sentinel_cid \<or> crr_column C t (cr_cid r) d) \<and> k = key_of_row r"
  by (auto simp: stashed_key_def entry_of_row_def decode_one)

lemma merge_changeset_spec:
  assumes law: "schema_law C" and wf: "stash_wf db"
  shows "merge_changeset C rows db = (case apply_all C (filter (\<lambda>r. \<not> queued C db r) rows) (cd_crr db) of
      None \<Rightarrow> Inl (Sqlite ''apply failed'')
    | Some d \<Rightarrow> Inr ((length (filter (\<lambda>r. \<not> queued C db r) rows), length (filter (queued C db) rows)),
        db\<lparr>cd_stash := cd_stash db @ entries_from (cd_stash_next db) (filter (queued C db) rows),
           cd_stash_next := cd_stash_next db + int (length (filter (queued C db) rows)), cd_crr := d\<rparr>))"
proof -
  define keys where "keys = {k. \<exists>t\<in>set (remdups (map cr_table rows)). crr_is C t (cd_crr db) \<and>
      (\<exists>e\<in>set (cd_stash db). stashed_key C t (cd_crr db) e = Some k)}"
  obtain cache where cache: "ready_stashed_keys C Map.empty rows db = (keys, cache)" "cache_ok C cache (cd_crr db)"
    using ready_keys_loop_ok [of C Map.empty db "remdups (map cr_table rows)"]
    unfolding ready_stashed_keys_def keys_def by auto
  have q: "(key_of_row r \<in> keys \<or> \<not> ready C r (cd_crr db)) = queued C db r" if r: "r \<in> set rows" for r
  proof -
    have "key_of_row r \<in> keys \<longleftrightarrow> (\<exists>e\<in>set (cd_stash db). \<exists>r'. wf_row r' \<and> e = entry_of_row (st_id e) r' \<and>
        ready C r' (cd_crr db) \<and> key_of_row r' = key_of_row r)" (is "?l = ?r")
    proof
      assume ?l
      then obtain t e where t: "crr_is C t (cd_crr db)" "e \<in> set (cd_stash db)" "stashed_key C t (cd_crr db) e = Some (key_of_row r)"
        unfolding keys_def by blast
      obtain r' where r': "wf_row r'" "e = entry_of_row (st_id e) r'" using wf t(2) unfolding stash_wf_def by blast
      have "stashed_key C t (cd_crr db) (entry_of_row (st_id e) r') = Some (key_of_row r)" using t(3) r'(2) by simp
      then have "cr_table r' = t" "key_of_row r' = key_of_row r"
        "cr_cid r' = sentinel_cid \<or> crr_column C t (cr_cid r') (cd_crr db)"
        unfolding stashed_key_entry [OF r'(1)] by auto
      with t(1,2) r' show ?r unfolding ready_def by blast
    next
      assume ?r
      then obtain e r' where e: "e \<in> set (cd_stash db)" "wf_row r'" "e = entry_of_row (st_id e) r'"
        "ready C r' (cd_crr db)" "key_of_row r' = key_of_row r" by blast
      have "stashed_key C (cr_table r) (cd_crr db) (entry_of_row (st_id e) r') = Some (key_of_row r)"
        using e(4,5) unfolding stashed_key_entry [OF e(2)] by (auto simp: ready_def key_of_row_def)
      moreover have "crr_is C (cr_table r) (cd_crr db)" using e(4,5) by (simp add: ready_def key_of_row_def)
      ultimately show ?l unfolding keys_def using r e(1,3) by auto
    qed
    then show ?thesis unfolding queued_def by blast
  qed
  then have f: "filter (\<lambda>r. key_of_row r \<in> keys \<or> \<not> ready C r (cd_crr db)) rows = filter (queued C db) rows"
    "filter (\<lambda>r. \<not> (key_of_row r \<in> keys \<or> \<not> ready C r (cd_crr db))) rows = filter (\<lambda>r. \<not> queued C db r) rows"
    by (simp_all cong: filter_cong)
  show ?thesis
    using merge_rows_spec [OF law cache(2) same_schema_refl, of keys rows 0 0]
    unfolding merge_changeset_def cache(1) prod.case f add_0 by simp
qed

subsection \<open>Merges and replay passes side by side\<close>

text \<open>
  Any number of connections may merge changesets and run replay passes while other writers change
  the database and its schema, and any of them may die between two transactions. The ghost
  components record which rows ever arrived, in order, the index of the row each stash id was given
  to, and the indices in the order the rows were applied.
\<close>

record 'd stash_sys =
  ss_db :: "'d client_db"
  ss_todo :: "nat \<Rightarrow> (int \<times> bytes) list"
  ss_pass :: "nat \<Rightarrow> replay_state"
  ss_arrived :: "change_row list"
  ss_applied :: "nat list"
  ss_index :: "int \<Rightarrow> nat"

definition new_index :: "'d crsql \<Rightarrow> 'd client_db \<Rightarrow> change_row list \<Rightarrow> nat \<Rightarrow> (int \<Rightarrow> nat) \<Rightarrow> int \<Rightarrow> nat" where
  "new_index C db rows base index i =
     (if cd_stash_next db \<le> i
      then base + filter (\<lambda>k. queued C db (rows ! k)) [0..<length rows] ! nat (i - cd_stash_next db) else index i)"

inductive stash_step :: "'d crsql \<Rightarrow> 'd stash_sys \<Rightarrow> 'd stash_sys \<Rightarrow> bool" for C where
  sk_merge: "wf_changeset rows \<Longrightarrow> merge_changeset C rows (ss_db s) = Inr (counts, db') \<Longrightarrow>
     stash_step C s (s\<lparr>ss_db := db', ss_arrived := ss_arrived s @ rows,
       ss_applied := ss_applied s @ map ((+) (length (ss_arrived s)))
         (filter (\<lambda>k. \<not> queued C (ss_db s) (rows ! k)) [0..<length rows]),
       ss_index := new_index C (ss_db s) rows (length (ss_arrived s)) (ss_index s)\<rparr>)"
| sk_begin: "stash_step C s (s\<lparr>ss_todo := (ss_todo s)(p := candidates (ss_db s)), ss_pass := (ss_pass s)(p := replay_start)\<rparr>)"
| sk_row: "ss_todo s p = c # rest \<Longrightarrow> replay_row C c (ss_pass s p) (ss_db s) = Inr (st', db') \<Longrightarrow>
     stash_step C s (s\<lparr>ss_db := db', ss_todo := (ss_todo s)(p := rest), ss_pass := (ss_pass s)(p := st'),
       ss_applied := (if rp_replayed (rs_report st') = rp_replayed (rs_report (ss_pass s p)) then ss_applied s
                      else ss_applied s @ [ss_index s (fst c)])\<rparr>)"
| sk_stop: "stash_step C s (s\<lparr>ss_todo := (ss_todo s)(p := [])\<rparr>)"
| sk_other: "cd_stash db' = cd_stash (ss_db s) \<Longrightarrow> cd_stash_next db' = cd_stash_next (ss_db s) \<Longrightarrow>
     stash_step C s (s\<lparr>ss_db := db'\<rparr>)"

definition start_stash :: "'d \<Rightarrow> 'd stash_sys" where
  "start_stash d = \<lparr>ss_db = fresh_client d, ss_todo = (\<lambda>_. []), ss_pass = (\<lambda>_. replay_start),
     ss_arrived = [], ss_applied = [], ss_index = (\<lambda>_. 0)\<rparr>"

inductive stash_reachable :: "'d crsql \<Rightarrow> 'd stash_sys \<Rightarrow> bool" for C where
  sr_start: "stash_reachable C (start_stash d)"
| sr_step: "stash_reachable C s \<Longrightarrow> stash_step C s s' \<Longrightarrow> stash_reachable C s'"

text \<open>A delete or re-create sentinel at \<open>i\<close> for the key of the row at \<open>j\<close>, and the promise: such a row
  is applied before any later one of its key.\<close>

definition bars :: "change_row list \<Rightarrow> nat \<Rightarrow> nat \<Rightarrow> bool" where
  "bars arrived i j \<longleftrightarrow> i < j \<and> cr_cid (arrived ! i) = sentinel_cid \<and> key_of_row (arrived ! i) = key_of_row (arrived ! j)"

definition lands_after :: "change_row list \<Rightarrow> nat list \<Rightarrow> bool" where
  "lands_after arrived applied \<longleftrightarrow> (\<forall>k<length applied. \<forall>i. bars arrived i (applied ! k) \<longrightarrow> i \<in> set (take k applied))"

definition stashed_inv :: "'d stash_sys \<Rightarrow> bool" where
  "stashed_inv s \<longleftrightarrow> (\<forall>r\<in>set (ss_arrived s). wf_row r) \<and>
     (\<forall>e\<in>set (cd_stash (ss_db s)). st_id e < cd_stash_next (ss_db s) \<and> ss_index s (st_id e) < length (ss_arrived s) \<and>
        e = entry_of_row (st_id e) (ss_arrived s ! ss_index s (st_id e))) \<and>
     sorted_wrt (\<lambda>e e'. st_id e < st_id e' \<and> ss_index s (st_id e) < ss_index s (st_id e')) (cd_stash (ss_db s)) \<and>
     (\<forall>i<length (ss_arrived s). i \<in> set (ss_applied s) \<or> (\<exists>e\<in>set (cd_stash (ss_db s)). ss_index s (st_id e) = i)) \<and>
     (\<forall>j\<in>set (ss_applied s). j < length (ss_arrived s))"

definition pass_inv :: "'d stash_sys \<Rightarrow> nat \<Rightarrow> bool" where
  "pass_inv s p \<longleftrightarrow>
     (\<forall>c\<in>set (ss_todo s p). fst c < cd_stash_next (ss_db s) \<and> ss_index s (fst c) < length (ss_arrived s) \<and>
        snd c = encode_changeset [ss_arrived s ! ss_index s (fst c)]) \<and>
     sorted_wrt (\<lambda>c c'. ss_index s (fst c) < ss_index s (fst c')) (ss_todo s p) \<and>
     (\<forall>c\<in>set (ss_todo s p). \<forall>i. bars (ss_arrived s) i (ss_index s (fst c)) \<and> i \<notin> set (ss_applied s) \<longrightarrow>
        key_of_row (ss_arrived s ! i) \<in> rs_failed_keys (ss_pass s p) \<or>
        rs_cache (ss_pass s p) (cr_table (ss_arrived s ! i)) = Some False \<or>
        (\<exists>c'\<in>set (ss_todo s p). ss_index s (fst c') = i))"

definition stash_inv :: "'d stash_sys \<Rightarrow> bool" where
  "stash_inv s \<longleftrightarrow> stashed_inv s \<and> (\<forall>p. pass_inv s p) \<and> lands_after (ss_arrived s) (ss_applied s)"

lemma lands_after_snoc:
  "lands_after arrived (applied @ [j]) \<longleftrightarrow> lands_after arrived applied \<and> (\<forall>i. bars arrived i j \<longrightarrow> i \<in> set applied)"
  unfolding lands_after_def by (auto simp: nth_append less_Suc_eq)

lemma lands_after_append:
  assumes "lands_after arrived applied" and "\<And>k i. k < length js \<Longrightarrow> bars arrived i (js ! k) \<Longrightarrow> i \<in> set applied \<union> set (take k js)"
  shows "lands_after arrived (applied @ js)"
  using assms by (fastforce simp: lands_after_def nth_append)

lemma bars_grow: "j < length arrived \<Longrightarrow> bars (arrived @ rows) i j = bars arrived i j"
  by (auto simp: bars_def nth_append)

lemma lands_after_grow:
  "\<forall>j\<in>set applied. j < length arrived \<Longrightarrow> lands_after (arrived @ rows) applied = lands_after arrived applied"
  unfolding lands_after_def by (metis bars_grow nth_mem)

lemma replay_row_applies:
  "wf_row r \<Longrightarrow> key_of_row r \<notin> rs_failed_keys st \<Longrightarrow> is_deferrable C (rs_cache st) r (cd_crr db) = (False, cache) \<Longrightarrow>
   crr_apply C r (cd_crr db) = Some d \<Longrightarrow>
   replay_row C (i, encode_changeset [r]) st db = Inr (st\<lparr>rs_cache := cache,
     rs_report := (rs_report st)\<lparr>rp_replayed := rp_replayed (rs_report st) + 1\<rparr>\<rparr>, delete_stashed i (db\<lparr>cd_crr := d\<rparr>))"
  by (simp add: replay_row_def decode_one apply_change_def)

lemma replay_row_effect:
  assumes wf: "wf_row r" and run: "replay_row C (i, encode_changeset [r]) st db = Inr (st', db')"
  shows "rs_cache st \<subseteq>\<^sub>m rs_cache st' \<and> rs_failed_keys st \<subseteq> rs_failed_keys st' \<and>
    (if rp_replayed (rs_report st') = rp_replayed (rs_report st)
     then db' = db \<and> (cr_cid r = sentinel_cid \<longrightarrow> key_of_row r \<in> rs_failed_keys st' \<or> rs_cache st' (cr_table r) = Some False)
     else key_of_row r \<notin> rs_failed_keys st \<and> rs_cache st (cr_table r) \<noteq> Some False \<and>
       (\<exists>d. crr_apply C r (cd_crr db) = Some d \<and> db' = delete_stashed i (db\<lparr>cd_crr := d\<rparr>)))"
proof (cases "key_of_row r \<in> rs_failed_keys st")
  case True
  then have "st' = st\<lparr>rs_report := (rs_report st)\<lparr>rp_blocked := rp_blocked (rs_report st) + 1\<rparr>\<rparr>" "db' = db"
    using run by (simp_all add: replay_row_def decode_one [OF wf])
  with True show ?thesis by simp
next
  case False
  obtain deferrable cache where d: "is_deferrable C (rs_cache st) r (cd_crr db) = (deferrable, cache)" by fastforce
  have c: "rs_cache st \<subseteq>\<^sub>m cache" "deferrable \<Longrightarrow> cr_cid r = sentinel_cid \<Longrightarrow> cache (cr_table r) = Some False"
    "\<not> deferrable \<Longrightarrow> rs_cache st (cr_table r) \<noteq> Some False"
    using d by (auto simp: is_deferrable_def cached_is_crr_def map_le_def split: option.splits if_splits)
  show ?thesis
  proof (cases deferrable)
    case True
    then have "st' = st\<lparr>rs_cache := cache, rs_report := (rs_report st)\<lparr>rp_waiting := rp_waiting (rs_report st) + 1\<rparr>\<rparr>" "db' = db"
      using run False d by (simp_all add: replay_row_def decode_one [OF wf])
    with True c show ?thesis by simp
  next
    case nd: False
    show ?thesis
    proof (cases "crr_apply C r (cd_crr db)")
      case None
      then have "st' = st\<lparr>rs_cache := cache, rs_failed_keys := insert (key_of_row r) (rs_failed_keys st),
          rs_report := (rs_report st)\<lparr>rp_failed := rp_failed (rs_report st) + 1\<rparr>\<rparr>" "db' = db"
        using run False d nd by (simp_all add: replay_row_def decode_one [OF wf] apply_change_def)
      with c show ?thesis by auto
    next
      case (Some x)
      then have "st' = st\<lparr>rs_cache := cache, rs_report := (rs_report st)\<lparr>rp_replayed := rp_replayed (rs_report st) + 1\<rparr>\<rparr>"
        "db' = delete_stashed i (db\<lparr>cd_crr := x\<rparr>)"
        using run d nd replay_row_applies [OF wf False _ Some, of cache i] by simp_all
      with c nd False Some show ?thesis by simp
    qed
  qed
qed

subsection \<open>Every step keeps the invariant\<close>

lemma length_entries_from [simp]: "length (entries_from i rs) = length rs"
  by (induction rs arbitrary: i) simp_all

lemma nth_entries_from: "k < length rs \<Longrightarrow> entries_from i rs ! k = entry_of_row (i + int k) (rs ! k)"
proof (induction rs arbitrary: i k)
  case (Cons r rs)
  then show ?case by (cases k) (simp_all add: ac_simps)
qed simp

lemma set_entries_from:
  "e \<in> set (entries_from i rs) \<longleftrightarrow> (\<exists>k<length rs. e = entry_of_row (i + int k) (rs ! k))"
  by (auto simp: in_set_conv_nth nth_entries_from)

lemma entry_sel [simp]: "st_id (entry_of_row i r) = i" "st_table (entry_of_row i r) = cr_table r" "st_cid (entry_of_row i r) = cr_cid r"
  "st_blob (entry_of_row i r) = encode_changeset [r]"
  by (simp_all add: entry_of_row_def)

lemma stashed_inv_wf: "stashed_inv s \<Longrightarrow> stash_wf (ss_db s)"
  unfolding stashed_inv_def stash_wf_def by (meson nth_mem)

lemma filter_nth_rows: "filter Q rows = map ((!) rows) (filter (\<lambda>k. Q (rows ! k)) [0..<length rows])"
proof -
  have "filter Q (map ((!) rows) [0..<length rows]) = map ((!) rows) (filter (\<lambda>k. Q (rows ! k)) [0..<length rows])"
    by (simp add: filter_map comp_def)
  then show ?thesis by (simp add: map_nth)
qed

lemma filter_upt_strict: "sorted_wrt (<) (filter P [0..<n])"
  by (simp add: sorted_wrt_filter)

text \<open>The state a merge leads to, in the terms of the specification.\<close>

definition merged :: "'d crsql \<Rightarrow> change_row list \<Rightarrow> 'd \<Rightarrow> 'd stash_sys \<Rightarrow> 'd stash_sys" where
  "merged C rows d s = s\<lparr>ss_db := (ss_db s)\<lparr>
       cd_stash := cd_stash (ss_db s) @ entries_from (cd_stash_next (ss_db s)) (filter (queued C (ss_db s)) rows),
       cd_stash_next := cd_stash_next (ss_db s) + int (length (filter (queued C (ss_db s)) rows)), cd_crr := d\<rparr>,
     ss_arrived := ss_arrived s @ rows,
     ss_applied := ss_applied s @ map ((+) (length (ss_arrived s)))
       (filter (\<lambda>k. \<not> queued C (ss_db s) (rows ! k)) [0..<length rows]),
     ss_index := new_index C (ss_db s) rows (length (ss_arrived s)) (ss_index s)\<rparr>"

lemma new_index_old:
  "i < cd_stash_next (ss_db s) \<Longrightarrow> ss_index (merged C rows d s) i = ss_index s i"
  by (simp add: merged_def new_index_def)

lemma new_entries:
  fixes C :: "'d crsql" and s :: "'d stash_sys" and rows :: "change_row list" and d :: 'd and ks :: "nat list"
  defines "ks \<equiv> filter (\<lambda>k. queued C (ss_db s) (rows ! k)) [0..<length rows]"
  assumes m: "m < length ks"
  shows "ss_index (merged C rows d s) (cd_stash_next (ss_db s) + int m) = length (ss_arrived s) + ks ! m"
    and "ks ! m < length rows"
    and "entries_from (cd_stash_next (ss_db s)) (filter (queued C (ss_db s)) rows) ! m =
      entry_of_row (cd_stash_next (ss_db s) + int m) (rows ! (ks ! m))"
proof -
  show "ss_index (merged C rows d s) (cd_stash_next (ss_db s) + int m) = length (ss_arrived s) + ks ! m"
    by (simp add: merged_def new_index_def ks_def)
  have "ks ! m \<in> set ks" using m by simp
  then show "ks ! m < length rows" by (simp add: ks_def)
  have "filter (queued C (ss_db s)) rows = map ((!) rows) ks" unfolding ks_def by (rule filter_nth_rows)
  with m show "entries_from (cd_stash_next (ss_db s)) (filter (queued C (ss_db s)) rows) ! m =
      entry_of_row (cd_stash_next (ss_db s) + int m) (rows ! (ks ! m))" by (simp add: nth_entries_from)
qed

lemma merged_stashed_inv:
  assumes inv: "stashed_inv s" and wf: "\<forall>r\<in>set rows. wf_row r"
  shows "stashed_inv (merged C rows d s)"
proof -
  let ?s = "merged C rows d s" and ?n = "length (ss_arrived s)" and ?nx = "cd_stash_next (ss_db s)"
  let ?new = "entries_from ?nx (filter (queued C (ss_db s)) rows)"
  define ks where "ks = filter (\<lambda>k. queued C (ss_db s) (rows ! k)) [0..<length rows]"
  have len: "length ?new = length ks"
    unfolding length_entries_from by (subst filter_nth_rows) (simp add: ks_def)
  have old: "st_id e < ?nx" "ss_index s (st_id e) < ?n" "e = entry_of_row (st_id e) (ss_arrived s ! ss_index s (st_id e))"
    if "e \<in> set (cd_stash (ss_db s))" for e using inv that unfolding stashed_inv_def by blast+
  have sel: "cd_stash (ss_db ?s) = cd_stash (ss_db s) @ ?new" "cd_stash_next (ss_db ?s) = ?nx + int (length ks)"
    "ss_arrived ?s = ss_arrived s @ rows"
    "ss_applied ?s = ss_applied s @ map ((+) ?n) (filter (\<lambda>k. \<not> queued C (ss_db s) (rows ! k)) [0..<length rows])"
    using len by (simp_all add: merged_def)
  have new: "?new ! m = entry_of_row (?nx + int m) (rows ! (ks ! m))" "ss_index ?s (?nx + int m) = ?n + ks ! m" "ks ! m < length rows"
    if "m < length ks" for m using that unfolding ks_def by (simp_all add: new_entries)
  have in_new: "\<exists>m<length ks. e = ?new ! m" if "e \<in> set ?new" for e using that len by (metis in_set_conv_nth)
  have strict: "ks ! m < ks ! m'" if "m < m'" "m' < length ks" for m m'
    using that filter_upt_strict unfolding ks_def sorted_wrt_iff_nth_less by blast
  have a: "\<forall>e\<in>set (cd_stash (ss_db ?s)). st_id e < cd_stash_next (ss_db ?s) \<and> ss_index ?s (st_id e) < length (ss_arrived ?s) \<and>
      e = entry_of_row (st_id e) (ss_arrived ?s ! ss_index ?s (st_id e))"
  proof
    fix e assume "e \<in> set (cd_stash (ss_db ?s))"
    then consider "e \<in> set (cd_stash (ss_db s))" | "e \<in> set ?new" by (auto simp: sel)
    then show "st_id e < cd_stash_next (ss_db ?s) \<and> ss_index ?s (st_id e) < length (ss_arrived ?s) \<and>
      e = entry_of_row (st_id e) (ss_arrived ?s ! ss_index ?s (st_id e))"
    proof cases
      case 1
      from old [OF 1] show ?thesis by (simp add: sel new_index_old nth_append)
    next
      case 2
      then obtain m where "m < length ks" "e = ?new ! m" using in_new by blast
      with new [of m] show ?thesis by (simp add: sel nth_append)
    qed
  qed
  have "sorted_wrt (\<lambda>e e'. st_id e < st_id e' \<and> ss_index ?s (st_id e) < ss_index ?s (st_id e')) (cd_stash (ss_db ?s))"
    unfolding sel sorted_wrt_append
  proof (intro conjI ballI)
    have "sorted_wrt (\<lambda>e e'. st_id e < st_id e' \<and> ss_index s (st_id e) < ss_index s (st_id e')) (cd_stash (ss_db s))"
      using inv unfolding stashed_inv_def by blast
    then show "sorted_wrt (\<lambda>e e'. st_id e < st_id e' \<and> ss_index ?s (st_id e) < ss_index ?s (st_id e')) (cd_stash (ss_db s))"
      by (rule sorted_wrt_mono_rel [rotated]) (simp add: old new_index_old)
    show "sorted_wrt (\<lambda>e e'. st_id e < st_id e' \<and> ss_index ?s (st_id e) < ss_index ?s (st_id e')) ?new"
      unfolding sorted_wrt_iff_nth_less len by (simp add: new strict)
    fix e e' assume e: "e \<in> set (cd_stash (ss_db s))" "e' \<in> set ?new"
    then obtain m where "m < length ks" "e' = ?new ! m" using in_new by blast
    with new [of m] old [OF e(1)] show "st_id e < st_id e'" "ss_index ?s (st_id e) < ss_index ?s (st_id e')"
      by (simp_all add: new_index_old)
  qed
  moreover have "\<forall>i<length (ss_arrived ?s). i \<in> set (ss_applied ?s) \<or> (\<exists>e\<in>set (cd_stash (ss_db ?s)). ss_index ?s (st_id e) = i)"
  proof (intro allI impI)
    fix i assume i: "i < length (ss_arrived ?s)"
    consider "i < ?n" | k where "i = ?n + k" "k < length rows"
      using i by (metis add_diff_inverse_nat length_append nat_add_left_cancel_less sel(3))
    then show "i \<in> set (ss_applied ?s) \<or> (\<exists>e\<in>set (cd_stash (ss_db ?s)). ss_index ?s (st_id e) = i)"
    proof cases
      case 1
      then have "i \<in> set (ss_applied s) \<or> (\<exists>e\<in>set (cd_stash (ss_db s)). ss_index s (st_id e) = i)"
        using inv unfolding stashed_inv_def by blast
      then show ?thesis using old new_index_old [of _ s C rows d] by (fastforce simp: sel)
    next
      case (2 k)
      show ?thesis
      proof (cases "queued C (ss_db s) (rows ! k)")
        case True
        with 2 have "k \<in> set ks" by (simp add: ks_def)
        then obtain m where m: "m < length ks" "ks ! m = k" by (metis in_set_conv_nth)
        then have "?new ! m \<in> set ?new" using len by (metis nth_mem)
        with m new [OF m(1)] 2 show ?thesis by (intro disjI2 bexI [of _ "?new ! m"]) (simp_all add: sel)
      next
        case False
        with 2 show ?thesis by (simp add: sel)
      qed
    qed
  qed
  ultimately show ?thesis
    unfolding stashed_inv_def using a wf inv by (auto simp: sel stashed_inv_def)
qed

lemma merged_pass_inv:
  assumes inv: "stashed_inv s" and pass: "pass_inv s p"
  shows "pass_inv (merged C rows d s) p"
proof -
  let ?s = "merged C rows d s"
  have todo: "fst c < cd_stash_next (ss_db s)" "ss_index s (fst c) < length (ss_arrived s)"
    "snd c = encode_changeset [ss_arrived s ! ss_index s (fst c)]" if "c \<in> set (ss_todo s p)" for c
    using pass that unfolding pass_inv_def by blast+
  have sel: "ss_todo ?s = ss_todo s" "ss_pass ?s = ss_pass s" "ss_arrived ?s = ss_arrived s @ rows"
    "cd_stash_next (ss_db s) \<le> cd_stash_next (ss_db ?s)" "set (ss_applied s) \<subseteq> set (ss_applied ?s)"
    by (auto simp: merged_def)
  have idx: "ss_index ?s (fst c) = ss_index s (fst c)" if "c \<in> set (ss_todo s p)" for c
    by (rule new_index_old [OF todo(1) [OF that]])
  have "\<forall>c\<in>set (ss_todo ?s p). fst c < cd_stash_next (ss_db ?s) \<and> ss_index ?s (fst c) < length (ss_arrived ?s) \<and>
        snd c = encode_changeset [ss_arrived ?s ! ss_index ?s (fst c)]"
  proof
    fix c assume "c \<in> set (ss_todo ?s p)"
    then have c: "c \<in> set (ss_todo s p)" by (simp add: sel)
    have "fst c < cd_stash_next (ss_db ?s)" using todo(1) [OF c] sel(4) by simp
    moreover have "(ss_arrived s @ rows) ! ss_index s (fst c) = ss_arrived s ! ss_index s (fst c)"
      using todo(2) [OF c] by (simp add: nth_append)
    ultimately show "fst c < cd_stash_next (ss_db ?s) \<and> ss_index ?s (fst c) < length (ss_arrived ?s) \<and>
        snd c = encode_changeset [ss_arrived ?s ! ss_index ?s (fst c)]"
      using todo(2,3) [OF c] unfolding sel(3) idx [OF c] by simp
  qed
  moreover have "sorted_wrt (\<lambda>c c'. ss_index s (fst c) < ss_index s (fst c')) (ss_todo s p)"
    using pass unfolding pass_inv_def by blast
  then have "sorted_wrt (\<lambda>c c'. ss_index ?s (fst c) < ss_index ?s (fst c')) (ss_todo ?s p)"
    unfolding sel(1) by (rule sorted_wrt_mono_rel [rotated]) (simp add: idx)
  moreover have "key_of_row (ss_arrived ?s ! i) \<in> rs_failed_keys (ss_pass ?s p) \<or>
        rs_cache (ss_pass ?s p) (cr_table (ss_arrived ?s ! i)) = Some False \<or> (\<exists>c'\<in>set (ss_todo ?s p). ss_index ?s (fst c') = i)"
    if c: "c \<in> set (ss_todo ?s p)" and b: "bars (ss_arrived ?s) i (ss_index ?s (fst c))" "i \<notin> set (ss_applied ?s)" for c i
  proof -
    have c': "c \<in> set (ss_todo s p)" using c by (simp add: sel)
    have b': "bars (ss_arrived s) i (ss_index s (fst c))"
      using b(1) todo(2) [OF c'] by (simp add: sel(3) idx [OF c'] bars_grow)
    then have i: "i < length (ss_arrived s)" using todo(2) [OF c'] by (simp add: bars_def)
    from pass c' b' b(2) sel(5) have "key_of_row (ss_arrived s ! i) \<in> rs_failed_keys (ss_pass s p) \<or>
        rs_cache (ss_pass s p) (cr_table (ss_arrived s ! i)) = Some False \<or> (\<exists>c'\<in>set (ss_todo s p). ss_index s (fst c') = i)"
      unfolding pass_inv_def by blast
    with i show ?thesis by (auto simp: sel(1-3) nth_append idx)
  qed
  ultimately show ?thesis unfolding pass_inv_def by blast
qed

lemma queued_behind_sentinel:
  assumes inv: "stashed_inv s" and e: "e \<in> set (cd_stash (ss_db s))" "cr_cid (ss_arrived s ! ss_index s (st_id e)) = sentinel_cid"
    and key: "key_of_row (ss_arrived s ! ss_index s (st_id e)) = key_of_row r"
  shows "queued C (ss_db s) r"
proof (cases "ready C r (cd_crr (ss_db s))")
  case True
  let ?r = "ss_arrived s ! ss_index s (st_id e)"
  have "e = entry_of_row (st_id e) ?r" "ss_index s (st_id e) < length (ss_arrived s)"
    using inv e(1) unfolding stashed_inv_def by blast+
  moreover from this have "wf_row ?r" using inv unfolding stashed_inv_def by (meson nth_mem)
  moreover have "ready C ?r (cd_crr (ss_db s))" using True key e(2) by (simp add: ready_def key_of_row_def)
  ultimately show ?thesis using e(1) key unfolding queued_def by blast
qed (simp add: queued_def)

lemma queued_sentinel_same_key:
  assumes "queued C db r" and "cr_cid r = sentinel_cid" and "key_of_row r = key_of_row r'"
  shows "queued C db r'"
proof (cases "ready C r (cd_crr db)")
  case True
  with assms(1) show ?thesis unfolding queued_def assms(3) by blast
next
  case False
  with assms(2,3) have "\<not> ready C r' (cd_crr db)" by (simp add: ready_def key_of_row_def)
  then show ?thesis by (simp add: queued_def)
qed

lemma merged_lands_after:
  assumes inv: "stashed_inv s" and ord: "lands_after (ss_arrived s) (ss_applied s)"
  shows "lands_after (ss_arrived (merged C rows d s)) (ss_applied (merged C rows d s))"
proof -
  let ?n = "length (ss_arrived s)"
  define ls where "ls = filter (\<lambda>k. \<not> queued C (ss_db s) (rows ! k)) [0..<length rows]"
  have app: "\<forall>j\<in>set (ss_applied s). j < ?n" using inv unfolding stashed_inv_def by blast
  have "lands_after (ss_arrived s @ rows) (ss_applied s @ map ((+) ?n) ls)"
  proof (rule lands_after_append)
    show "lands_after (ss_arrived s @ rows) (ss_applied s)" using ord lands_after_grow [OF app] by simp
    fix m i
    assume m: "m < length (map ((+) ?n) ls)" and b: "bars (ss_arrived s @ rows) i (map ((+) ?n) ls ! m)"
    have "ls ! m \<in> set ls" using m by simp
    then have k: "ls ! m < length rows" "\<not> queued C (ss_db s) (rows ! (ls ! m))" by (simp_all add: ls_def)
    have i: "i < ?n + ls ! m" "cr_cid ((ss_arrived s @ rows) ! i) = sentinel_cid"
      "key_of_row ((ss_arrived s @ rows) ! i) = key_of_row (rows ! (ls ! m))"
      using b m by (auto simp: bars_def)
    show "i \<in> set (ss_applied s) \<union> set (take m (map ((+) ?n) ls))"
    proof (cases "i < ?n")
      case True
      then have "i \<in> set (ss_applied s) \<or> (\<exists>e\<in>set (cd_stash (ss_db s)). ss_index s (st_id e) = i)"
        using inv unfolding stashed_inv_def by blast
      moreover have False if "e \<in> set (cd_stash (ss_db s))" "ss_index s (st_id e) = i" for e
        using queued_behind_sentinel [OF inv that(1), of "rows ! (ls ! m)" C] that(2) i(2,3) True k(2) by (simp add: nth_append)
      ultimately show ?thesis by blast
    next
      case False
      then obtain k' where k': "i = ?n + k'" by (metis add_diff_inverse_nat)
      then have "k' < ls ! m" "cr_cid (rows ! k') = sentinel_cid" "key_of_row (rows ! k') = key_of_row (rows ! (ls ! m))"
        using i by simp_all
      moreover from this have "\<not> queued C (ss_db s) (rows ! k')" using queued_sentinel_same_key k(2) by blast
      ultimately have "k' \<in> set ls" using k(1) by (simp add: ls_def)
      then obtain m' where m': "m' < length ls" "ls ! m' = k'" by (metis in_set_conv_nth)
      have "m' < m"
      proof (rule ccontr)
        assume "\<not> m' < m"
        then have "ls ! m \<le> ls ! m'"
          using m' filter_upt_strict [of "\<lambda>k. \<not> queued C (ss_db s) (rows ! k)" "length rows"]
          unfolding ls_def sorted_wrt_iff_nth_less by (metis le_less_linear less_or_eq_imp_le nat_less_le)
        with m' \<open>k' < ls ! m\<close> show False by simp
      qed
      then have "i \<in> set (take m (map ((+) ?n) ls))" using m m' k' by (auto simp: in_set_conv_nth intro!: exI [of _ m'])
      then show ?thesis by blast
    qed
  qed
  then show ?thesis by (simp add: merged_def ls_def)
qed

text \<open>A pass works through one candidate.\<close>

definition replayed_row :: "nat \<Rightarrow> int \<Rightarrow> (int \<times> bytes) list \<Rightarrow> replay_state \<Rightarrow> 'd \<Rightarrow> 'd stash_sys \<Rightarrow> 'd stash_sys" where
  "replayed_row p i rest st' d s = s\<lparr>ss_db := delete_stashed i ((ss_db s)\<lparr>cd_crr := d\<rparr>), ss_todo := (ss_todo s)(p := rest),
     ss_pass := (ss_pass s)(p := st'), ss_applied := ss_applied s @ [ss_index s i]\<rparr>"

definition skipped_row :: "nat \<Rightarrow> (int \<times> bytes) list \<Rightarrow> replay_state \<Rightarrow> 'd stash_sys \<Rightarrow> 'd stash_sys" where
  "skipped_row p rest st' s = s\<lparr>ss_todo := (ss_todo s)(p := rest), ss_pass := (ss_pass s)(p := st')\<rparr>"

lemma pass_inv_other:
  assumes "pass_inv s q" and "ss_todo s' q = ss_todo s q" "ss_pass s' q = ss_pass s q" "ss_index s' = ss_index s"
    "ss_arrived s' = ss_arrived s" "cd_stash_next (ss_db s') = cd_stash_next (ss_db s)" "set (ss_applied s) \<subseteq> set (ss_applied s')"
  shows "pass_inv s' q"
  using assms(1) unfolding pass_inv_def assms(2-6) using assms(7) by blast

lemma pass_inv_advance:
  assumes pass: "pass_inv s p" and todo: "ss_todo s p = (i, blob) # rest"
    and s': "ss_todo s' p = rest" "ss_index s' = ss_index s" "ss_arrived s' = ss_arrived s"
      "cd_stash_next (ss_db s') = cd_stash_next (ss_db s)" "set (ss_applied s) \<subseteq> set (ss_applied s')"
    and grow: "rs_failed_keys (ss_pass s p) \<subseteq> rs_failed_keys (ss_pass s' p)" "rs_cache (ss_pass s p) \<subseteq>\<^sub>m rs_cache (ss_pass s' p)"
    and done': "ss_index s i \<in> set (ss_applied s') \<or> (cr_cid (ss_arrived s ! ss_index s i) = sentinel_cid \<longrightarrow>
      key_of_row (ss_arrived s ! ss_index s i) \<in> rs_failed_keys (ss_pass s' p) \<or>
      rs_cache (ss_pass s' p) (cr_table (ss_arrived s ! ss_index s i)) = Some False)"
  shows "pass_inv s' p"
proof -
  have keep: "rs_cache (ss_pass s' p) t = Some b" if "rs_cache (ss_pass s p) t = Some b" for t b
    using grow(2) that by (metis domI map_le_def)
  have "key_of_row (ss_arrived s' ! k) \<in> rs_failed_keys (ss_pass s' p) \<or>
        rs_cache (ss_pass s' p) (cr_table (ss_arrived s' ! k)) = Some False \<or> (\<exists>c'\<in>set (ss_todo s' p). ss_index s' (fst c') = k)"
    if c: "c \<in> set (ss_todo s' p)" and b: "bars (ss_arrived s') k (ss_index s' (fst c))" "k \<notin> set (ss_applied s')" for c k
  proof -
    have "c \<in> set (ss_todo s p)" "bars (ss_arrived s) k (ss_index s (fst c))" "k \<notin> set (ss_applied s)"
      using c b todo s' by auto
    then consider "key_of_row (ss_arrived s ! k) \<in> rs_failed_keys (ss_pass s p)"
      | "rs_cache (ss_pass s p) (cr_table (ss_arrived s ! k)) = Some False"
      | c' where "c' \<in> set (ss_todo s p)" "ss_index s (fst c') = k"
      using pass unfolding pass_inv_def by blast
    then show ?thesis
    proof cases
      case 1
      with grow(1) s'(3) show ?thesis by auto
    next
      case 2
      with keep s'(3) show ?thesis by simp
    next
      case (3 c')
      show ?thesis
      proof (cases "c' = (i, blob)")
        case True
        then have "ss_index s i = k" using 3 by simp
        moreover have "cr_cid (ss_arrived s ! k) = sentinel_cid" using b(1) s' by (simp add: bars_def)
        ultimately show ?thesis using done' b(2) s'(3) by auto
      next
        case False
        with 3 todo s' show ?thesis by auto
      qed
    qed
  qed
  moreover have "\<forall>c\<in>set (ss_todo s' p). fst c < cd_stash_next (ss_db s') \<and> ss_index s' (fst c) < length (ss_arrived s') \<and>
        snd c = encode_changeset [ss_arrived s' ! ss_index s' (fst c)]"
    "sorted_wrt (\<lambda>c c'. ss_index s' (fst c) < ss_index s' (fst c')) (ss_todo s' p)"
    using pass todo s' unfolding pass_inv_def by auto
  ultimately show ?thesis unfolding pass_inv_def by blast
qed

lemma skipped_row_inv:
  assumes inv: "stash_inv s" and todo: "ss_todo s p = (i, blob) # rest"
    and st': "rs_failed_keys (ss_pass s p) \<subseteq> rs_failed_keys st'" "rs_cache (ss_pass s p) \<subseteq>\<^sub>m rs_cache st'"
    "cr_cid (ss_arrived s ! ss_index s i) = sentinel_cid \<longrightarrow>
      key_of_row (ss_arrived s ! ss_index s i) \<in> rs_failed_keys st' \<or>
      rs_cache st' (cr_table (ss_arrived s ! ss_index s i)) = Some False"
  shows "stash_inv (skipped_row p rest st' s)"
proof -
  have pass: "pass_inv s q" for q using inv by (simp add: stash_inv_def)
  have "pass_inv (skipped_row p rest st' s) q" for q
  proof (cases "q = p")
    case True
    show ?thesis unfolding True
      by (rule pass_inv_advance [OF pass todo]) (use st' in \<open>simp_all add: skipped_row_def\<close>)
  next
    case False
    then show ?thesis by (intro pass_inv_other [OF pass]) (simp_all add: skipped_row_def)
  qed
  moreover have "stashed_inv (skipped_row p rest st' s)"
    using inv by (simp add: stash_inv_def stashed_inv_def skipped_row_def)
  ultimately show ?thesis using inv by (simp add: stash_inv_def skipped_row_def)
qed

lemma replayed_row_inv:
  assumes inv: "stash_inv s" and todo: "ss_todo s p = (i, blob) # rest"
    and st': "rs_failed_keys (ss_pass s p) \<subseteq> rs_failed_keys st'" "rs_cache (ss_pass s p) \<subseteq>\<^sub>m rs_cache st'"
    and applied: "key_of_row (ss_arrived s ! ss_index s i) \<notin> rs_failed_keys (ss_pass s p)"
      "rs_cache (ss_pass s p) (cr_table (ss_arrived s ! ss_index s i)) \<noteq> Some False"
  shows "stash_inv (replayed_row p i rest st' d s)"
proof -
  let ?s = "replayed_row p i rest st' d s"
  have pass: "pass_inv s q" and stashed: "stashed_inv s" for q using inv by (simp_all add: stash_inv_def)
  have i: "ss_index s i < length (ss_arrived s)" using pass [of p] todo unfolding pass_inv_def by auto
  have sel: "ss_index ?s = ss_index s" "ss_arrived ?s = ss_arrived s" "cd_stash_next (ss_db ?s) = cd_stash_next (ss_db s)"
    "ss_applied ?s = ss_applied s @ [ss_index s i]" "cd_stash (ss_db ?s) = filter (\<lambda>e. st_id e \<noteq> i) (cd_stash (ss_db s))"
    "ss_todo ?s = (ss_todo s)(p := rest)" "ss_pass ?s = (ss_pass s)(p := st')"
    by (simp_all add: replayed_row_def delete_stashed_def delete_where_def)
  have "pass_inv ?s q" for q
  proof (cases "q = p")
    case True
    show ?thesis unfolding True
      by (rule pass_inv_advance [OF pass todo]) (use st' in \<open>simp_all add: sel\<close>, auto simp: sel)
  next
    case False
    then show ?thesis by (intro pass_inv_other [OF pass]) (auto simp: sel)
  qed
  moreover have "stashed_inv ?s"
  proof -
    have gone: "ss_index s (st_id e) \<in> set (ss_applied ?s)" if "e \<in> set (cd_stash (ss_db s))" "e \<notin> set (cd_stash (ss_db ?s))" for e
      using that by (auto simp: sel)
    have "\<forall>j<length (ss_arrived s). j \<in> set (ss_applied ?s) \<or> (\<exists>e\<in>set (cd_stash (ss_db ?s)). ss_index s (st_id e) = j)"
    proof (intro allI impI)
      fix j assume "j < length (ss_arrived s)"
      then have "j \<in> set (ss_applied s) \<or> (\<exists>e\<in>set (cd_stash (ss_db s)). ss_index s (st_id e) = j)"
        using stashed unfolding stashed_inv_def by blast
      then show "j \<in> set (ss_applied ?s) \<or> (\<exists>e\<in>set (cd_stash (ss_db ?s)). ss_index s (st_id e) = j)"
        using gone by (auto simp: sel(4))
    qed
    then show ?thesis
      using stashed i unfolding stashed_inv_def sel(1-3) by (auto simp: sel(4,5) intro: sorted_wrt_filter)
  qed
  moreover have "lands_after (ss_arrived ?s) (ss_applied ?s)"
    unfolding sel(2,4) lands_after_snoc
  proof (intro conjI allI impI)
    show "lands_after (ss_arrived s) (ss_applied s)" using inv by (simp add: stash_inv_def)
    fix k assume b: "bars (ss_arrived s) k (ss_index s i)"
    then have same: "key_of_row (ss_arrived s ! k) = key_of_row (ss_arrived s ! ss_index s i)" and lt: "k < ss_index s i"
      by (simp_all add: bars_def)
    show "k \<in> set (ss_applied s)"
    proof (rule ccontr)
      assume "k \<notin> set (ss_applied s)"
      with b pass [of p] todo have "key_of_row (ss_arrived s ! k) \<in> rs_failed_keys (ss_pass s p) \<or>
          rs_cache (ss_pass s p) (cr_table (ss_arrived s ! k)) = Some False \<or> (\<exists>c'\<in>set ((i, blob) # rest). ss_index s (fst c') = k)"
        unfolding pass_inv_def by (metis fst_conv list.set_intros(1))
      moreover have "ss_index s i < ss_index s (fst c')" if "c' \<in> set rest" for c'
        using pass [of p] todo that unfolding pass_inv_def by simp
      ultimately show False using applied same lt by (fastforce simp: key_of_row_def)
    qed
  qed
  ultimately show ?thesis by (simp add: stash_inv_def)
qed

lemma begin_pass_inv:
  assumes inv: "stashed_inv s"
  shows "pass_inv (s\<lparr>ss_todo := (ss_todo s)(p := candidates (ss_db s)), ss_pass := (ss_pass s)(p := st)\<rparr>) p"
proof -
  let ?s = "s\<lparr>ss_todo := (ss_todo s)(p := candidates (ss_db s)), ss_pass := (ss_pass s)(p := st)\<rparr>"
  have srt: "sorted_wrt (\<lambda>e e'. st_id e < st_id e' \<and> ss_index s (st_id e) < ss_index s (st_id e')) (cd_stash (ss_db s))"
    using inv unfolding stashed_inv_def by blast
  have "sorted (map st_id (cd_stash (ss_db s)))"
    unfolding sorted_map by (rule sorted_wrt_mono_rel [OF _ srt]) auto
  then have cand: "candidates (ss_db s) = map (\<lambda>e. (st_id e, st_blob e)) (cd_stash (ss_db s))"
    by (simp add: candidates_def sort_key_id_if_sorted)
  have ent: "st_id e < cd_stash_next (ss_db s)" "ss_index s (st_id e) < length (ss_arrived s)"
      "e = entry_of_row (st_id e) (ss_arrived s ! ss_index s (st_id e))" if "e \<in> set (cd_stash (ss_db s))" for e
    using inv that unfolding stashed_inv_def by blast+
  have blob: "st_blob e = encode_changeset [ss_arrived s ! ss_index s (st_id e)]" if "e \<in> set (cd_stash (ss_db s))" for e
    using arg_cong [OF ent(3) [OF that], of st_blob] by simp
  have "\<forall>c\<in>set (candidates (ss_db s)). fst c < cd_stash_next (ss_db s) \<and> ss_index s (fst c) < length (ss_arrived s) \<and>
        snd c = encode_changeset [ss_arrived s ! ss_index s (fst c)]"
    using ent(1,2) blob by (auto simp: cand)
  moreover have "sorted_wrt (\<lambda>c c'. ss_index s (fst c) < ss_index s (fst c')) (candidates (ss_db s))"
    unfolding cand sorted_wrt_map by (rule sorted_wrt_mono_rel [OF _ srt]) auto
  moreover have "\<exists>c'\<in>set (candidates (ss_db s)). ss_index s (fst c') = k"
    if "c \<in> set (candidates (ss_db s))" "bars (ss_arrived s) k (ss_index s (fst c))" "k \<notin> set (ss_applied s)" for c k
  proof -
    have "k < length (ss_arrived s)" using that ent(2) by (force simp: bars_def cand)
    then have "\<exists>e\<in>set (cd_stash (ss_db s)). ss_index s (st_id e) = k" using inv that(3) unfolding stashed_inv_def by blast
    then show ?thesis by (force simp: cand)
  qed
  ultimately show ?thesis unfolding pass_inv_def by auto
qed

lemma pass_of: "stash_inv s \<Longrightarrow> pass_inv s p"
  by (simp add: stash_inv_def)

lemma stash_step_inv:
  assumes law: "schema_law C" and step: "stash_step C s s'" and inv: "stash_inv s"
  shows "stash_inv s'"
  using step inv
proof (induction rule: stash_step.induct)
  case (sk_merge rows s counts db')
  then have st: "stashed_inv s" by (simp add: stash_inv_def)
  obtain d where d: "apply_all C (filter (\<lambda>r. \<not> queued C (ss_db s) r) rows) (cd_crr (ss_db s)) = Some d"
    "db' = (ss_db s)\<lparr>cd_stash := cd_stash (ss_db s) @ entries_from (cd_stash_next (ss_db s)) (filter (queued C (ss_db s)) rows),
       cd_stash_next := cd_stash_next (ss_db s) + int (length (filter (queued C (ss_db s)) rows)), cd_crr := d\<rparr>"
    using sk_merge(2) unfolding merge_changeset_spec [OF law stashed_inv_wf [OF st]] by (auto split: option.splits)
  have wf: "\<forall>r\<in>set rows. wf_row r" using sk_merge(1) by (simp add: wf_changeset_def)
  have "stash_inv (merged C rows d s)"
    using merged_stashed_inv [OF st wf] merged_pass_inv [OF st] merged_lands_after [OF st] sk_merge(3)
    by (simp add: stash_inv_def)
  then show ?case by (simp add: merged_def d(2))
next
  case (sk_begin s p)
  have "pass_inv (s\<lparr>ss_todo := (ss_todo s)(p := candidates (ss_db s)), ss_pass := (ss_pass s)(p := replay_start)\<rparr>) q" for q
  proof (cases "q = p")
    case True
    with sk_begin begin_pass_inv [of s p] show ?thesis by (simp add: stash_inv_def)
  next
    case False
    then show ?thesis by (intro pass_inv_other [OF pass_of [OF sk_begin]]) simp_all
  qed
  with sk_begin show ?case by (simp add: stash_inv_def stashed_inv_def)
next
  case (sk_row s p c rest st' db')
  obtain i blob where c: "c = (i, blob)" by fastforce
  let ?r = "ss_arrived s ! ss_index s i"
  have "pass_inv s p" "stashed_inv s" using sk_row(3) by (simp_all add: stash_inv_def)
  then have blob: "blob = encode_changeset [?r]" and wf: "wf_row ?r"
    using sk_row(1) c unfolding pass_inv_def stashed_inv_def by auto
  have todo: "ss_todo s p = (i, blob) # rest" using sk_row(1) c by simp
  have eff: "rs_cache (ss_pass s p) \<subseteq>\<^sub>m rs_cache st' \<and> rs_failed_keys (ss_pass s p) \<subseteq> rs_failed_keys st' \<and>
    (if rp_replayed (rs_report st') = rp_replayed (rs_report (ss_pass s p))
     then db' = ss_db s \<and> (cr_cid ?r = sentinel_cid \<longrightarrow> key_of_row ?r \<in> rs_failed_keys st' \<or> rs_cache st' (cr_table ?r) = Some False)
     else key_of_row ?r \<notin> rs_failed_keys (ss_pass s p) \<and> rs_cache (ss_pass s p) (cr_table ?r) \<noteq> Some False \<and>
       (\<exists>d. crr_apply C ?r (cd_crr (ss_db s)) = Some d \<and> db' = delete_stashed i ((ss_db s)\<lparr>cd_crr := d\<rparr>)))"
    by (rule replay_row_effect [OF wf sk_row(2) [unfolded c blob]])
  show ?case
  proof (cases "rp_replayed (rs_report st') = rp_replayed (rs_report (ss_pass s p))")
    case True
    with eff have "stash_inv (skipped_row p rest st' s)" by (intro skipped_row_inv [OF sk_row(3) todo]) simp_all
    with True eff show ?thesis by (simp add: skipped_row_def)
  next
    case False
    with eff obtain d where d: "db' = delete_stashed i ((ss_db s)\<lparr>cd_crr := d\<rparr>)" by auto
    have "stash_inv (replayed_row p i rest st' d s)"
      by (rule replayed_row_inv [OF sk_row(3) todo]) (use eff False in auto)
    with False d show ?thesis by (simp add: replayed_row_def c)
  qed
next
  case (sk_stop s p)
  have "pass_inv (s\<lparr>ss_todo := (ss_todo s)(p := [])\<rparr>) q" for q
  proof (cases "q = p")
    case False
    then show ?thesis by (intro pass_inv_other [OF pass_of [OF sk_stop]]) simp_all
  qed (simp add: pass_inv_def)
  with sk_stop show ?case by (simp add: stash_inv_def stashed_inv_def)
next
  case (sk_other db' s)
  have "pass_inv (s\<lparr>ss_db := db'\<rparr>) q" for q
    by (rule pass_inv_other [OF pass_of [OF sk_other(3)]]) (use sk_other(1,2) in simp_all)
  with sk_other show ?case by (simp add: stash_inv_def stashed_inv_def)
qed

lemma stash_reachable_inv: "schema_law C \<Longrightarrow> stash_reachable C s \<Longrightarrow> stash_inv s"
proof (rotate_tac 1, induction rule: stash_reachable.induct)
  case (sr_start d)
  then show ?case
    by (simp add: stash_inv_def stashed_inv_def pass_inv_def lands_after_def start_stash_def fresh_client_def)
next
  case (sr_step s s')
  then show ?case using stash_step_inv by blast
qed

text \<open>C7. Deletes are never overtaken. However merges on any connection, replay passes, schema changes,
  crashes and other writers interleave, a row is applied only after every delete (or re-create) sentinel that
  arrived before it for the same table and primary key has been applied, so a stashed or failed delete
  is never overwritten by a row that followed it. No arrived row is lost: each is applied or in the
  stash.\<close>

theorem deletes_never_overtaken:
  assumes "schema_law C" and "stash_reachable C s"
    and "k < length (ss_applied s)" and "i < ss_applied s ! k"
    and "cr_cid (ss_arrived s ! i) = sentinel_cid"
    and "key_of_row (ss_arrived s ! i) = key_of_row (ss_arrived s ! (ss_applied s ! k))"
  shows "i \<in> set (take k (ss_applied s)) \<and>
    (\<forall>j<length (ss_arrived s). j \<in> set (ss_applied s) \<or>
       (\<exists>e\<in>set (cd_stash (ss_db s)). decode_changeset (st_blob e) = Inr [ss_arrived s ! j]))"
proof
  have inv: "stash_inv s" by (rule stash_reachable_inv [OF assms(1,2)])
  then show "i \<in> set (take k (ss_applied s))"
    using assms(3-6) by (auto simp: stash_inv_def lands_after_def bars_def)
  have "stashed_inv s" using inv by (simp add: stash_inv_def)
  then have wf: "wf_row (ss_arrived s ! j)" if "j < length (ss_arrived s)" for j using that by (simp add: stashed_inv_def)
  have ent: "e = entry_of_row (st_id e) (ss_arrived s ! ss_index s (st_id e))" if "e \<in> set (cd_stash (ss_db s))" for e
    using \<open>stashed_inv s\<close> that unfolding stashed_inv_def by blast
  show "\<forall>j<length (ss_arrived s). j \<in> set (ss_applied s) \<or>
       (\<exists>e\<in>set (cd_stash (ss_db s)). decode_changeset (st_blob e) = Inr [ss_arrived s ! j])"
  proof (intro allI impI)
    fix j assume j: "j < length (ss_arrived s)"
    then consider "j \<in> set (ss_applied s)" | e where "e \<in> set (cd_stash (ss_db s))" "ss_index s (st_id e) = j"
      using \<open>stashed_inv s\<close> unfolding stashed_inv_def by blast
    then show "j \<in> set (ss_applied s) \<or> (\<exists>e\<in>set (cd_stash (ss_db s)). decode_changeset (st_blob e) = Inr [ss_arrived s ! j])"
    proof cases
      case (2 e)
      have "st_blob e = encode_changeset [ss_arrived s ! j]" using arg_cong [OF ent [OF 2(1)], of st_blob] 2(2) by simp
      with 2(1) decode_one [OF wf [OF j]] show ?thesis by metis
    qed blast
  qed
qed

subsection \<open>Convergence\<close>

text \<open>A row whose table and column exist may still be refused by the extension (a value or key that does not
  fit), so that the extension applies a row is a condition on the rows at hand, not a law. For a set \<open>A\<close>
  of rows that are not refused where their table and column exist, merges commute (they are those of a
  CRDT), and a migration that only adds tables and columns can run before or after them.\<close>

definition rows_apply :: "'d crsql \<Rightarrow> change_row set \<Rightarrow> bool" where
  "rows_apply C A \<longleftrightarrow> (\<forall>r\<in>A. \<forall>d. ready C r d \<longrightarrow> crr_apply C r d \<noteq> None)"

definition rows_commute :: "'d crsql \<Rightarrow> change_row set \<Rightarrow> bool" where
  "rows_commute C A \<longleftrightarrow> (\<forall>r\<in>A. \<forall>r'\<in>A. \<forall>d. ready C r d \<and> ready C r' d \<longrightarrow>
     Option.bind (crr_apply C r d) (crr_apply C r') = Option.bind (crr_apply C r' d) (crr_apply C r))"

definition migration_law :: "'d crsql \<Rightarrow> change_row set \<Rightarrow> ('d \<Rightarrow> 'd) \<Rightarrow> bool" where
  "migration_law C A g \<longleftrightarrow> (\<forall>r\<in>A. \<forall>d. ready C r d \<longrightarrow>
     ready C r (g d) \<and> crr_apply C r (g d) = map_option g (crr_apply C r d))"

lemma rows_apply_one:
  assumes "schema_law C" and "rows_apply C A" and "r \<in> A" and "ready C r d"
  obtains d' where "crr_apply C r d = Some d'" "\<And>r'. ready C r' d' = ready C r' d"
proof -
  have "crr_apply C r d \<noteq> None" using assms(2-4) unfolding rows_apply_def by blast
  then obtain d' where d': "crr_apply C r d = Some d'" by blast
  have "same_schema C d' d" using assms(1) d' unfolding schema_law_def by blast
  from that [OF d' ready_same [OF this]] show thesis .
qed

lemma apply_all_some:
  "schema_law C \<Longrightarrow> rows_apply C A \<Longrightarrow> set rs \<subseteq> A \<Longrightarrow> \<forall>r\<in>set rs. ready C r d \<Longrightarrow> \<exists>d'. apply_all C rs d = Some d' \<and> (\<forall>r. ready C r d' = ready C r d)"
proof (induction rs arbitrary: d)
  case (Cons r rs)
  obtain d1 where d1: "crr_apply C r d = Some d1" "\<And>r'. ready C r' d1 = ready C r' d"
    using rows_apply_one [OF Cons.prems(1,2), of r d] Cons.prems(3,4) by auto
  with Cons.IH [of d1] Cons.prems show ?case by fastforce
qed simp

lemma apply_all_append: "apply_all C (xs @ ys) d = Option.bind (apply_all C xs d) (apply_all C ys)"
  by (induction xs arbitrary: d) (auto split: bind_splits)

lemma apply_all_move:
  assumes law: "schema_law C" "rows_apply C A" "rows_commute C A"
  shows "r \<in> A \<Longrightarrow> set xs \<subseteq> A \<Longrightarrow> ready C r d \<Longrightarrow> \<forall>x\<in>set xs. ready C x d \<Longrightarrow> apply_all C (xs @ [r]) d = apply_all C (r # xs) d"
proof (induction xs arbitrary: d)
  case (Cons x xs)
  obtain d1 where d1: "crr_apply C x d = Some d1" "\<And>r'. ready C r' d1 = ready C r' d"
    using rows_apply_one [OF law(1,2), of x d] Cons.prems(2,4) by auto
  have "apply_all C ((x # xs) @ [r]) d = apply_all C (r # xs) d1" using d1 Cons by simp
  also have "\<dots> = Option.bind (Option.bind (crr_apply C x d) (crr_apply C r)) (apply_all C xs)" by (simp add: d1(1))
  also have "\<dots> = Option.bind (Option.bind (crr_apply C r d) (crr_apply C x)) (apply_all C xs)"
    using law(3) Cons.prems by (simp add: rows_commute_def)
  also have "\<dots> = apply_all C (r # x # xs) d" by (cases "crr_apply C r d") simp_all
  finally show ?case .
qed simp

text \<open>Applying the rows of one kind first, then the others, is applying them in order.\<close>

lemma apply_all_partition:
  assumes law: "schema_law C" "rows_apply C A" "rows_commute C A"
  shows "set rs \<subseteq> A \<Longrightarrow> \<forall>r\<in>set rs. ready C r d \<Longrightarrow> apply_all C (filter P rs @ filter (\<lambda>r. \<not> P r) rs) d = apply_all C rs d"
proof (induction rs arbitrary: d)
  case (Cons r rs)
  have r: "r \<in> A" "ready C r d" using Cons.prems by simp_all
  obtain d1 where d1: "crr_apply C r d = Some d1" "\<And>r'. ready C r' d1 = ready C r' d"
    using rows_apply_one [OF law(1,2) r] by blast
  have ih: "apply_all C (filter P rs @ filter (\<lambda>r. \<not> P r) rs) d1 = apply_all C rs d1"
    using Cons.IH [of d1] Cons.prems d1(2) by simp
  show ?case
  proof (cases "P r")
    case True
    with ih d1 show ?thesis by simp
  next
    case False
    have "apply_all C (filter P (r # rs) @ filter (\<lambda>r. \<not> P r) (r # rs)) d =
        Option.bind (apply_all C (filter P rs @ [r]) d) (apply_all C (filter (\<lambda>r. \<not> P r) rs))"
    proof -
      have "filter P (r # rs) @ filter (\<lambda>r. \<not> P r) (r # rs) = (filter P rs @ [r]) @ filter (\<lambda>r. \<not> P r) rs"
        using False by simp
      then show ?thesis by (simp only: apply_all_append)
    qed
    also have "apply_all C (filter P rs @ [r]) d = apply_all C (r # filter P rs) d"
      using Cons.prems by (intro apply_all_move [OF law r(1) _ r(2)]) auto
    finally show ?thesis using ih d1 by (simp add: apply_all_append)
  qed
qed simp

lemma apply_all_migrate:
  assumes "schema_law C" and "rows_apply C A" and "migration_law C A g"
  shows "set rs \<subseteq> A \<Longrightarrow> \<forall>r\<in>set rs. ready C r d \<Longrightarrow> apply_all C rs (g d) = map_option g (apply_all C rs d)"
proof (induction rs arbitrary: d)
  case (Cons r rs)
  obtain d1 where d1: "crr_apply C r d = Some d1" "\<And>r'. ready C r' d1 = ready C r' d"
    using rows_apply_one [OF assms(1,2), of r d] Cons.prems by auto
  with Cons assms(3) show ?case by (simp add: migration_law_def)
qed simp

lemma replay_loop_all:
  assumes law: "schema_law C" "rows_apply C A"
  shows "set rows \<subseteq> A \<Longrightarrow> cache_ok C (rs_cache st) (cd_crr db) \<Longrightarrow> rs_failed_keys st = {} \<Longrightarrow>
    \<forall>r\<in>set rows. wf_row r \<and> ready C r (cd_crr db) \<Longrightarrow>
    \<exists>st' d. apply_all C rows (cd_crr db) = Some d \<and>
      replay_loop C (map (\<lambda>e. (st_id e, st_blob e)) (entries_from i rows)) st db =
        (Inr st', db\<lparr>cd_crr := d, cd_stash := filter (\<lambda>e. st_id e < i \<or> i + int (length rows) \<le> st_id e) (cd_stash db)\<rparr>) \<and>
      rs_report st' = (rs_report st)\<lparr>rp_replayed := rp_replayed (rs_report st) + length rows\<rparr>"
proof (induction rows arbitrary: i st db)
  case Nil
  have "filter (\<lambda>e. st_id e < i \<or> i \<le> st_id e) (cd_stash db) = cd_stash db" by (rule filter_True) auto
  then show ?case by simp
next
  case (Cons r rows)
  have r: "wf_row r" "ready C r (cd_crr db)" "r \<in> A" using Cons.prems(1,4) by simp_all
  obtain d1 where d1: "crr_apply C r (cd_crr db) = Some d1" "\<And>r'. ready C r' d1 = ready C r' (cd_crr db)"
    using rows_apply_one [OF law r(3,2)] by blast
  obtain c1 where c1: "is_deferrable C (rs_cache st) r (cd_crr db) = (False, c1)" "cache_ok C c1 (cd_crr db)"
    using is_deferrable_ok [OF Cons.prems(2), of r] r(2) by auto
  have same: "same_schema C d1 (cd_crr db)" using law(1) d1(1) by (simp add: schema_law_def)
  define st1 where "st1 = st\<lparr>rs_cache := c1, rs_report := (rs_report st)\<lparr>rp_replayed := rp_replayed (rs_report st) + 1\<rparr>\<rparr>"
  define db1 where "db1 = delete_stashed i (db\<lparr>cd_crr := d1\<rparr>)"
  have crr1: "cd_crr db1 = d1" by (simp add: db1_def delete_stashed_def)
  have row: "replay_row C (i, encode_changeset [r]) st db = Inr (st1, db1)"
    using replay_row_applies [OF r(1) _ c1(1) d1(1)] Cons.prems(3) by (simp add: st1_def db1_def)
  have "cache_ok C (rs_cache st1) (cd_crr db1)" using c1(2) cache_ok_same [OF same] by (simp add: st1_def crr1)
  moreover have "rs_failed_keys st1 = {}" using Cons.prems(3) by (simp add: st1_def)
  moreover have "\<forall>r\<in>set rows. wf_row r \<and> ready C r (cd_crr db1)" using Cons.prems(4) d1(2) crr1 by simp
  ultimately obtain st' d where ih: "apply_all C rows d1 = Some d"
    "replay_loop C (map (\<lambda>e. (st_id e, st_blob e)) (entries_from (i + 1) rows)) st1 db1 =
        (Inr st', db1\<lparr>cd_crr := d, cd_stash := filter (\<lambda>e. st_id e < i + 1 \<or> i + 1 + int (length rows) \<le> st_id e) (cd_stash db1)\<rparr>)"
    "rs_report st' = (rs_report st1)\<lparr>rp_replayed := rp_replayed (rs_report st1) + length rows\<rparr>"
    using Cons.IH [of st1 db1 "i + 1"] Cons.prems(1) crr1 by auto
  have "filter (\<lambda>e. st_id e < i + 1 \<or> i + 1 + int (length rows) \<le> st_id e) (cd_stash db1) =
      filter (\<lambda>e. st_id e < i \<or> i + int (length (r # rows)) \<le> st_id e) (cd_stash db)"
    by (auto simp: db1_def delete_stashed_def delete_where_def intro!: filter_cong)
  with ih row d1(1) show ?case
    by (intro exI [of _ st'] exI [of _ d]) (simp add: st1_def db1_def delete_stashed_def)
qed

lemma persist_keeps [simp]:
  "cd_stash (persist_replay_outcome rep db) = cd_stash db" "cd_crr (persist_replay_outcome rep db) = cd_crr db"
  by (simp_all add: persist_replay_outcome_def persist_one_def set_str_def Let_def)

text \<open>C31. A changeset that arrives before the update that adds its tables or columns converges, when the
  extension refuses none of its rows once they are ready. Merging it, migrating and replaying ends, with
  an empty stash and no failure, in the database that the same changeset gives when it arrives after the
  migration. (A row that the extension refuses stays in the stash, see \<open>replay_row_effect\<close>.)\<close>

theorem quarantine_replay_converges:
  assumes schema: "schema_law C" and app: "rows_apply C (set rows)" and comm: "rows_commute C (set rows)"
    and mig: "migration_law C (set rows) g" and empty: "cd_stash db = []"
    and rows: "\<forall>r\<in>set rows. wf_row r \<and> ready C r (g (cd_crr db))"
  shows "\<exists>a q db1 rep db2 db3. merge_changeset C rows db = Inr ((a, q), db1) \<and> a + q = length rows \<and>
    replay_pending C (db1\<lparr>cd_crr := g (cd_crr db1)\<rparr>) = (Inr rep, db2) \<and>
    rep = \<lparr>rp_replayed = q, rp_waiting = 0, rp_failed = 0, rp_blocked = 0\<rparr> \<and> cd_stash db2 = [] \<and>
    merge_changeset C rows (db\<lparr>cd_crr := g (cd_crr db)\<rparr>) = Inr ((length rows, 0), db3) \<and> cd_crr db3 = cd_crr db2"
proof -
  let ?d = "cd_crr db" and ?i = "cd_stash_next db"
  let ?now = "filter (\<lambda>r. \<not> queued C db r) rows" and ?later = "filter (queued C db) rows"
  have sub: "set ?now \<subseteq> set rows" "set ?later \<subseteq> set rows" by auto
  have wf: "stash_wf db" "stash_wf (db\<lparr>cd_crr := g ?d\<rparr>)" using empty by (simp_all add: stash_wf_def)
  have q: "queued C db r = (\<not> ready C r ?d)" for r using empty by (simp add: queued_def)
  obtain d1 where d1: "apply_all C ?now ?d = Some d1" "\<And>r. ready C r d1 = ready C r ?d"
    using apply_all_some [OF schema app sub(1), of ?d] by (auto simp: q)
  define db1 where "db1 = db\<lparr>cd_stash := entries_from ?i ?later, cd_stash_next := ?i + int (length ?later), cd_crr := d1\<rparr>"
  have merge: "merge_changeset C rows db = Inr ((length ?now, length ?later), db1)"
    unfolding merge_changeset_spec [OF schema wf(1)] d1(1) by (simp add: db1_def empty)
  have gd1: "apply_all C ?now (g ?d) = Some (g d1)"
    using apply_all_migrate [OF schema app mig sub(1), of ?d] d1(1) by (simp add: q)
  have all: "\<forall>r\<in>set rows. ready C r (g ?d)" using rows by blast
  have rdy: "ready C r (g d1)" if "r \<in> set rows" for r
    using apply_all_some [OF schema app sub(1), of "g ?d"] all gd1 that by auto
  define db1g where "db1g = db1\<lparr>cd_crr := g (cd_crr db1)\<rparr>"
  have crr: "cd_crr db1g = g d1" "cd_stash db1g = entries_from ?i ?later" by (simp_all add: db1g_def db1_def)
  have "sorted (map st_id (entries_from i rs))" for i rs
    by (simp add: sorted_iff_nth_mono nth_entries_from)
  then have cand: "candidates db1g = map (\<lambda>e. (st_id e, st_blob e)) (entries_from ?i ?later)"
    by (simp add: candidates_def crr sort_key_id_if_sorted)
  obtain st' d2 where run: "apply_all C ?later (g d1) = Some d2"
    "replay_loop C (candidates db1g) replay_start db1g = (Inr st', db1g\<lparr>cd_crr := d2,
       cd_stash := filter (\<lambda>e. st_id e < ?i \<or> ?i + int (length ?later) \<le> st_id e) (cd_stash db1g)\<rparr>)"
    "rs_report st' = (rs_report replay_start)\<lparr>rp_replayed := rp_replayed (rs_report replay_start) + length ?later\<rparr>"
    using replay_loop_all [OF schema app sub(2), of replay_start db1g ?i] rows rdy
    unfolding cand crr(1) by (auto simp: replay_start_def)
  have gone: "filter (\<lambda>e. st_id e < ?i \<or> ?i + int (length ?later) \<le> st_id e) (cd_stash db1g) = []"
    unfolding crr(2) filter_empty_conv by (auto simp: set_entries_from)
  have "apply_all C (?now @ ?later) (g ?d) = Some d2" using gd1 run(1) by (simp add: apply_all_append)
  then have d2: "apply_all C rows (g ?d) = Some d2"
    using apply_all_partition [OF schema app comm subset_refl all, of "\<lambda>r. \<not> queued C db r"] by simp
  have "\<not> queued C (db\<lparr>cd_crr := g ?d\<rparr>) r" if "r \<in> set rows" for r
    using all that empty by (simp add: queued_def)
  then have "filter (\<lambda>r. \<not> queued C (db\<lparr>cd_crr := g ?d\<rparr>) r) rows = rows" "filter (queued C (db\<lparr>cd_crr := g ?d\<rparr>)) rows = []"
    by (simp_all add: filter_id_conv filter_empty_conv)
  then have direct: "\<exists>db3. merge_changeset C rows (db\<lparr>cd_crr := g ?d\<rparr>) = Inr ((length rows, 0), db3) \<and> cd_crr db3 = d2"
    unfolding merge_changeset_spec [OF schema wf(2)] using d2 by simp
  have "replay_pending C db1g = (Inr (rs_report st'), persist_replay_outcome (rs_report st') (db1g\<lparr>cd_crr := d2, cd_stash := []\<rparr>))"
    unfolding replay_pending_def run(2) gone by simp
  moreover have "rs_report st' = \<lparr>rp_replayed = length ?later, rp_waiting = 0, rp_failed = 0, rp_blocked = 0\<rparr>"
    unfolding run(3) by (simp add: replay_start_def)
  moreover have "length ?now + length ?later = length rows" by (metis add.commute sum_length_filter_compl)
  ultimately show ?thesis using merge direct unfolding db1g_def by fastforce
qed

subsection \<open>Examples\<close>

text \<open>A database that is a set of merged rows, and whether the update that adds the column has run.\<close>

definition growing_crsql :: "(bool \<times> change_row set) crsql" where
  "growing_crsql = \<lparr>crr_local = (\<lambda>_. []), crr_clock = (\<lambda>_. 0), crr_is = (\<lambda>t d. fst d), crr_column = (\<lambda>t c d. fst d),
     crr_apply = (\<lambda>r d. if fst d then Some (fst d, insert r (snd d)) else None)\<rparr>"

lemma growing_sel [simp]: "crr_is growing_crsql t d = fst d" "crr_column growing_crsql t c d = fst d"
  "crr_apply growing_crsql r d = (if fst d then Some (fst d, insert r (snd d)) else None)"
  by (simp_all add: growing_crsql_def)

lemma growing_laws: "schema_law growing_crsql" "rows_apply growing_crsql A" "rows_commute growing_crsql A"
  "migration_law growing_crsql A (\<lambda>d. (True, snd d))"
proof -
  show "schema_law growing_crsql" by (auto simp: schema_law_def growing_crsql_def same_schema_def split: if_splits)
  show "rows_apply growing_crsql A" by (auto simp: rows_apply_def growing_crsql_def ready_def)
  show "rows_commute growing_crsql A" by (auto simp: rows_commute_def growing_crsql_def ready_def insert_commute)
  show "migration_law growing_crsql A (\<lambda>d. (True, snd d))" by (auto simp: migration_law_def growing_crsql_def ready_def)
qed

lemma sample_row_wf: "wf_row (sample_row 1)" "wf_row ((sample_row 1)\<lparr>cr_cid := sentinel_cid\<rparr>)"
  by (simp_all add: wf_row_def sample_row_def wf_text_def wf_bytes_def wf_site_def sentinel_cid_def str_bytes_def machine_int_defs)

lemma quarantine_replay_converges_witness:
  "\<exists>a q db1 rep db2. merge_changeset growing_crsql [sample_row 1] (fresh_client (False, {})) = Inr ((a, q), db1) \<and> a + q = 1 \<and>
     replay_pending growing_crsql (db1\<lparr>cd_crr := (True, snd (cd_crr db1))\<rparr>) = (Inr rep, db2) \<and> cd_stash db2 = []"
proof -
  have "cd_stash (fresh_client (False, {})) = []" by (simp add: fresh_client_def)
  moreover have "\<forall>r\<in>set [sample_row 1]. wf_row r \<and> ready growing_crsql r (True, snd (cd_crr (fresh_client (False, {}))))"
    by (simp add: sample_row_wf ready_def growing_crsql_def)
  ultimately show ?thesis
    using quarantine_replay_converges [OF growing_laws, of "fresh_client (False, {})" "[sample_row 1]"] by fastforce
qed

text \<open>A delete sentinel and a row of its key arrive before their table, and are replayed after it.\<close>

lemma deletes_never_overtaken_witness:
  "\<exists>s. stash_reachable growing_crsql s \<and> length (ss_applied s) = 2 \<and> ss_applied s ! 1 = 1 \<and> 0 \<in> set (take 1 (ss_applied s))"
proof -
  let ?C = growing_crsql
  define del where "del = (sample_row 1)\<lparr>cr_cid := sentinel_cid\<rparr>"
  define rows where "rows = [del, sample_row 1]"
  define s0 :: "(bool \<times> change_row set) stash_sys" where "s0 = start_stash (False, {})"
  have q: "queued ?C (ss_db s0) r" for r by (simp add: queued_def ready_def growing_crsql_def s0_def start_stash_def fresh_client_def)
  have wf: "wf_row del" "wf_row (sample_row 1)" "stash_wf (ss_db s0)"
    using sample_row_wf by (simp_all add: del_def s0_def stash_wf_def start_stash_def fresh_client_def)
  have cs: "wf_changeset rows" using wf by (simp add: wf_changeset_def rows_def)
  define db1 where "db1 = (fresh_client (False, {} :: change_row set))\<lparr>cd_stash := [entry_of_row 1 del, entry_of_row 2 (sample_row 1)],
      cd_stash_next := 3\<rparr>"
  have "merge_changeset ?C rows (ss_db s0) = Inr ((0, 2), db1)"
  proof -
    have "filter (queued ?C (ss_db s0)) rows = rows" "filter (\<lambda>r. \<not> queued ?C (ss_db s0) r) rows = []"
      using q by (simp_all add: filter_id_conv filter_empty_conv)
    moreover have "ss_db s0 = fresh_client (False, {})" by (simp add: s0_def start_stash_def)
    ultimately show ?thesis
      unfolding merge_changeset_spec [OF growing_laws(1) wf(3)] by (simp add: rows_def db1_def fresh_client_def)
  qed
  from sr_step [OF sr_start sk_merge [OF cs this [unfolded s0_def]]]
  have r1: "stash_reachable ?C (s0\<lparr>ss_db := db1, ss_arrived := rows, ss_index := new_index ?C (ss_db s0) rows 0 (\<lambda>_. 0)\<rparr>)"
    using q by (simp add: s0_def start_stash_def)
  define db2 where "db2 = db1\<lparr>cd_crr := (True, {} :: change_row set)\<rparr>"
  define s2 where "s2 = (s0\<lparr>ss_db := db1, ss_arrived := rows, ss_index := new_index ?C (ss_db s0) rows 0 (\<lambda>_. 0)\<rparr>)\<lparr>ss_db := db2\<rparr>"
  have r2: "stash_reachable ?C s2"
    unfolding s2_def by (rule sr_step [OF r1 sk_other]) (simp_all add: db2_def)
  have idx: "ss_index s2 1 = 0" "ss_index s2 2 = 1"
    using q by (simp_all add: s2_def new_index_def rows_def s0_def start_stash_def fresh_client_def)
  have cand: "candidates (ss_db s2) = [(1, encode_changeset [del]), (2, encode_changeset [sample_row 1])]"
    by (simp add: candidates_def s2_def db2_def db1_def)
  define s3 where "s3 = s2\<lparr>ss_todo := (ss_todo s2)(0 := candidates (ss_db s2)), ss_pass := (ss_pass s2)(0 := replay_start)\<rparr>"
  have r3: "stash_reachable ?C s3" unfolding s3_def by (rule sr_step [OF r2 sk_begin])
  have key: "key_of_row r \<notin> rs_failed_keys replay_start" for r by (simp add: replay_start_def)
  obtain st4 db4 where row4: "replay_row ?C (1, encode_changeset [del]) (ss_pass s3 0) (ss_db s3) = Inr (st4, db4)"
    "rp_replayed (rs_report st4) = 1" "rs_failed_keys st4 = {}" "rs_cache st4 = [cr_table del \<mapsto> True]" "fst (cd_crr db4)"
  proof -
    have "is_deferrable ?C (rs_cache (ss_pass s3 0)) del (cd_crr (ss_db s3)) = (False, [cr_table del \<mapsto> True])"
      by (simp add: is_deferrable_def cached_is_crr_def s3_def s2_def db2_def replay_start_def del_def)
    from replay_row_applies [OF wf(1) _ this, of "(True, {del})" 1] key that show thesis
      by (simp add: s3_def s2_def db2_def replay_start_def delete_stashed_def)
  qed
  have todo3: "ss_todo s3 0 = (1, encode_changeset [del]) # [(2, encode_changeset [sample_row 1])]" by (simp add: s3_def cand)
  define s4 where "s4 = s3\<lparr>ss_db := db4, ss_todo := (ss_todo s3)(0 := [(2, encode_changeset [sample_row 1])]),
      ss_pass := (ss_pass s3)(0 := st4), ss_applied := [0]\<rparr>"
  have r4: "stash_reachable ?C s4"
    using sr_step [OF r3 sk_row [OF todo3 row4(1)]] row4(2) idx
    by (simp add: s4_def s3_def s2_def s0_def start_stash_def replay_start_def)
  have pass4: "ss_pass s4 0 = st4" "ss_db s4 = db4" by (simp_all add: s4_def)
  obtain st5 db5 where row5: "replay_row ?C (2, encode_changeset [sample_row 1]) (ss_pass s4 0) (ss_db s4) = Inr (st5, db5)"
    "rp_replayed (rs_report st5) = 2"
  proof -
    have "is_deferrable ?C (rs_cache (ss_pass s4 0)) (sample_row 1) (cd_crr (ss_db s4)) = (False, [cr_table del \<mapsto> True])"
      using row4(4,5) by (simp add: pass4 is_deferrable_def cached_is_crr_def del_def)
    from replay_row_applies [OF wf(2) _ this, of "(True, insert (sample_row 1) (snd (cd_crr db4)))" 2] row4(2,3,5) that show thesis
      by (simp add: pass4)
  qed
  have todo4: "ss_todo s4 0 = (2, encode_changeset [sample_row 1]) # []" by (simp add: s4_def)
  define s5 where "s5 = s4\<lparr>ss_db := db5, ss_todo := (ss_todo s4)(0 := []), ss_pass := (ss_pass s4)(0 := st5), ss_applied := [0, 1]\<rparr>"
  have r5: "stash_reachable ?C s5"
    using sr_step [OF r4 sk_row [OF todo4 row5(1)]] row5(2) row4(2) idx by (simp add: s5_def s4_def s3_def s2_def)
  have app: "ss_applied s5 = [0, 1]" "ss_arrived s5 = rows" by (simp_all add: s5_def s4_def s3_def s2_def)
  have "0 \<in> set (take 1 (ss_applied s5))"
    using deletes_never_overtaken [OF growing_laws(1) r5, of 1 0] unfolding app
    by (simp add: rows_def del_def key_of_row_def)
  with r5 app show ?thesis by (intro exI [of _ s5]) simp
qed

end
