(* ===== verification/Relay_Client.thy ===== *)
theory Relay_Client
  imports Quarantine
begin

text \<open>
  The transport seam: \<open>crates/yapstack-sync/src/transport.rs\<close>. The trait's methods that the drain
  uses are a record over a world that each call may change. The HTTP implementation classifies the
  relay's answers; \<open>relay_transport\<close> puts it in front of the relay's own handlers, over a network
  that loses requests and answers, while other devices of the tenant push. The snapshot and audio methods and the HTTP library's workings
  are not modelled; what serde finds in an answer's JSON is a record of the fields it reads.
\<close>

record 'w transport =
  t_push :: "push_change list \<Rightarrow> int \<Rightarrow> 'w \<Rightarrow> (sync_error + push_response) \<times> 'w"
  t_pull :: "int \<Rightarrow> int \<Rightarrow> 'w \<Rightarrow> (sync_error + pull_response) \<times> 'w"
  t_completeness :: "'w \<Rightarrow> (sync_error + completeness_response) \<times> 'w"
  t_raise :: "int \<Rightarrow> 'w \<Rightarrow> (sync_error + capability_levels) \<times> 'w"
  t_now :: "'w \<Rightarrow> int \<times> 'w"

subsection \<open>Classifying an answer\<close>

datatype send_failure = ConnectOrTimeout string | OtherFailure string

definition map_send_error :: "send_failure \<Rightarrow> sync_error" where
  "map_send_error f = (case f of ConnectOrTimeout m \<Rightarrow> Network m | OtherFailure m \<Rightarrow> Http m)"

record answer_body =
  ab_code :: "string option"
  ab_message :: "string option"
  ab_refusal :: "(int \<times> int) option"
  ab_blocked :: "capability_blocker list option"

text \<open>An answer: its status, its body (unless reading it fails; \<open>None\<close> when it is not JSON) and the
  response it decodes to.\<close>

datatype 'a http_reply = SendFailed send_failure | Answer nat "send_failure + answer_body option" "'a option"

definition classify_status :: "nat \<Rightarrow> sync_error option" where
  "classify_status status = (if status = 401 then Some RelayUnauthorized else None)"

definition is_conflict :: "sync_error \<Rightarrow> bool" where
  "is_conflict e = (case e of RelayConflict _ \<Rightarrow> True | _ \<Rightarrow> False)"

definition unrecognised :: "nat \<Rightarrow> string \<Rightarrow> sync_error" where
  "unrecognised status what = Transport (''relay answered '' @
     (if status = 409 then ''409 Conflict'' else ''426 Upgrade Required'') @ '' with '' @ what @ ''; nothing was changed locally'')"

definition body_refusal :: "nat \<Rightarrow> string \<Rightarrow> answer_body \<Rightarrow> sync_error + int \<times> int" where
  "body_refusal status code b = ok_or (ab_refusal b) (unrecognised status (''an incomplete `'' @ code @ ''` body''))"

definition check_capability :: "nat \<Rightarrow> send_failure + answer_body option \<Rightarrow> int \<Rightarrow> sync_error + unit" where
  "check_capability status body level_sent =
     (if status \<noteq> 426 \<and> status \<noteq> 409 then Inr ()
      else case body of
        Inl f \<Rightarrow> Inl (map_send_error f)
      | Inr None \<Rightarrow> Inl (unrecognised status ''a body that isn't JSON'')
      | Inr (Some b) \<Rightarrow>
          (let code = (case ab_code b of Some c \<Rightarrow> c | None \<Rightarrow> []) in
           if status = 426 \<and> code = ''update_required''
           then bind_result (body_refusal status code b) (\<lambda>(required, requested).
                  Inl (sync_error.UpdateRequired level_sent required requested))
           else if status = 409 \<and> code = ''sync_capability_floor''
           then bind_result (body_refusal status code b) (\<lambda>(required, requested).
                  Inl (sync_error.CapabilityFloor level_sent required requested))
           else if status = 409 \<and> code = ''sync_capability_blocked''
           then bind_result (ok_or (ab_blocked b) (unrecognised status ''an incomplete `sync_capability_blocked` body''))
                  (\<lambda>blockers. Inl (sync_error.CapabilityBlocked level_sent blockers))
           else if status = 409 \<and> code = ''conflict''
           then Inl (RelayConflict (case ab_message b of Some m \<Rightarrow> m | None \<Rightarrow> []))
           else Inl (unrecognised status (''an unrecognised code `'' @ code @ ''`''))))"

definition check_auth :: "nat \<Rightarrow> sync_error + unit" where
  "check_auth status = (case classify_status status of
       Some e \<Rightarrow> Inl e
     | None \<Rightarrow> if 400 \<le> status \<and> status < 600 then Inl (Http ''HTTP status error'') else Inr ())"

definition read_json :: "'a option \<Rightarrow> sync_error + 'a" where
  "read_json payload = ok_or payload (Http ''error decoding response body'')"

text \<open>The tails of \<open>push_batch\<close> and \<open>pull\<close>, of \<open>raise_sync_capability\<close> and of \<open>completeness\<close>.\<close>

definition gated_result :: "int \<Rightarrow> 'a http_reply \<Rightarrow> sync_error + 'a" where
  "gated_result level r = (case r of
       SendFailed f \<Rightarrow> Inl (map_send_error f)
     | Answer status body payload \<Rightarrow>
         bind_result (check_capability status body level) (\<lambda>_. bind_result (check_auth status) (\<lambda>_. read_json payload)))"

definition raise_result :: "int \<Rightarrow> 'a http_reply \<Rightarrow> sync_error + 'a" where
  "raise_result level r = (case r of
       SendFailed f \<Rightarrow> Inl (map_send_error f)
     | Answer status body payload \<Rightarrow>
         if status = 404 \<or> status = 405 then Inl (CapabilityGateMissing level)
         else bind_result (check_capability status body level) (\<lambda>_. bind_result (check_auth status) (\<lambda>_. read_json payload)))"

definition completeness_result :: "'a http_reply \<Rightarrow> sync_error + 'a" where
  "completeness_result r = (case r of
       SendFailed f \<Rightarrow> Inl (map_send_error f)
     | Answer status body payload \<Rightarrow> bind_result (check_auth status) (\<lambda>_. read_json payload))"

subsection \<open>The relay behind the network\<close>

fun body_of :: "body \<Rightarrow> answer_body" where
  "body_of (CodeBody c m) = \<lparr>ab_code = Some c, ab_message = Some m, ab_refusal = None, ab_blocked = None\<rparr>"
| "body_of (QuotaBody q) = \<lparr>ab_code = Some (qe_code q), ab_message = None, ab_refusal = None, ab_blocked = None\<rparr>"
| "body_of (RefusalBody c m required requested) =
     \<lparr>ab_code = Some c, ab_message = Some m, ab_refusal = Some (required, requested), ab_blocked = None\<rparr>"
| "body_of (BlockedBody b) = \<lparr>ab_code = Some ''sync_capability_blocked'', ab_message = None,
     ab_refusal = Some (bl_required b, bl_requested b), ab_blocked = Some (bl_blockers b)\<rparr>"

definition answer_of :: "app_error + 'a \<Rightarrow> 'a http_reply" where
  "answer_of res = (case res of
       Inr x \<Rightarrow> Answer 200 (Inr (Some \<lparr>ab_code = None, ab_message = None, ab_refusal = None, ab_blocked = None\<rparr>)) (Some x)
     | Inl e \<Rightarrow> (case into_response e of (status, b) \<Rightarrow> Answer status (Inr (Some (body_of b))) None))"

datatype fault = Delivered | RequestLost | AnswerLost

record relay_world =
  rw_relay :: push_state
  rw_tick :: nat

record relay_setup =
  rc_crates :: crates
  rc_auth :: auth_tenant
  rc_ip :: string
  rc_env :: "nat \<Rightarrow> push_env"
  rc_fault :: "nat \<Rightarrow> fault"
  rc_others :: "nat \<Rightarrow> (auth_tenant \<times> header \<times> push_change list) list"
  rc_clock :: "nat \<Rightarrow> int"

definition tick :: "relay_world \<Rightarrow> relay_world" where
  "tick w = w\<lparr>rw_tick := rw_tick w + 1\<rparr>"

text \<open>Before a request arrives, other devices of the tenant may have pushed.\<close>

definition after_others :: "relay_setup \<Rightarrow> relay_world \<Rightarrow> push_state" where
  "after_others R w = fold (\<lambda>(auth, hdr, changes) s.
       fst (push (rc_crates R) (rc_env R (rw_tick w)) (auth\<lparr>au_tenant := au_tenant (rc_auth R)\<rparr>) (rc_ip R) hdr changes s))
     (rc_others R (rw_tick w)) (rw_relay w)"

definition exchange :: "relay_setup \<Rightarrow> (push_env \<Rightarrow> push_state \<Rightarrow> push_state \<times> (app_error + 'a)) \<Rightarrow> relay_world
    \<Rightarrow> 'a http_reply \<times> relay_world" where
  "exchange R handler w = (case rc_fault R (rw_tick w) of
       RequestLost \<Rightarrow> (SendFailed (ConnectOrTimeout []), (tick w)\<lparr>rw_relay := after_others R w\<rparr>)
     | f \<Rightarrow> (case handler (rc_env R (rw_tick w)) (after_others R w) of (st, res) \<Rightarrow>
         (if f = AnswerLost then SendFailed (ConnectOrTimeout []) else answer_of res, (tick w)\<lparr>rw_relay := st\<rparr>)))"

definition sync_capability_level :: int where
  "sync_capability_level = table_readiness_level"

definition in_db_join :: "(app_error + 'a) tx \<Rightarrow> push_state \<Rightarrow> push_state \<times> (app_error + 'a)" where
  "in_db_join m s = (case run_tx_join m (ps_db s) of (d, res) \<Rightarrow> (s\<lparr>ps_db := d\<rparr>, res))"

definition relay_push :: "relay_setup \<Rightarrow> push_change list \<Rightarrow> int \<Rightarrow> push_env \<Rightarrow> push_state \<Rightarrow> push_state \<times> (app_error + push_response)" where
  "relay_push R changes level env s =
     (case push (rc_crates R) env (rc_auth R) (rc_ip R) (Some (Some (show_int level))) changes s of (s', res, _) \<Rightarrow> (s', res))"

definition own_level :: header where
  "own_level = Some (Some (show_int sync_capability_level))"

definition relay_transport :: "relay_setup \<Rightarrow> relay_world transport" where
  "relay_transport R = \<lparr>
     t_push = (\<lambda>changes level w. apfst (gated_result level) (exchange R (relay_push R changes level) w)),
     t_pull = (\<lambda>since limit w. apfst (gated_result sync_capability_level)
       (exchange R (\<lambda>env. in_db_join (pull (rc_crates R) (pe_now env) (rc_auth R) own_level since (Some limit))) w)),
     t_completeness = (\<lambda>w. apfst completeness_result
       (exchange R (\<lambda>env s. (s, Inr (completeness (rc_auth R) (ps_db s)))) w)),
     t_raise = (\<lambda>level w. apfst (raise_result level)
       (exchange R (\<lambda>env. in_db_join (raise_floor (pe_now env) (rc_auth R) own_level level)) w)),
     t_now = (\<lambda>w. (rc_clock R (rw_tick w), tick w))\<rparr>"

end
