(* ===== verification/Outbox_Push.thy ===== *)
theory Outbox_Push
  imports Relay_Client
begin

text \<open>
  Pushing the outbox: the push half of \<open>crates/yapstack-sync/src/outbox.rs\<close>, on any transport.
  Batches are planned from the unacked entries in order, gated by their capability level, pushed,
  and acknowledged; a conflict or a regressed counter reseeds the counter. A local action gets the
  client's database and the world and answers an error or a value; what it wrote before an error
  stays written.
\<close>

type_synonym ('d, 'w) client = "'d client_db \<times> 'w"
type_synonym ('d, 'w, 'a) act = "('d, 'w) client \<Rightarrow> (sync_error + 'a) \<times> ('d, 'w) client"

definition act_bind :: "('d, 'w, 'a) act \<Rightarrow> ('a \<Rightarrow> ('d, 'w, 'b) act) \<Rightarrow> ('d, 'w, 'b) act" where
  "act_bind m f s = (case m s of (Inl e, s') \<Rightarrow> (Inl e, s') | (Inr x, s') \<Rightarrow> f x s')"

definition act_try :: "('d, 'w, 'a) act \<Rightarrow> (sync_error + 'a \<Rightarrow> ('d, 'w, 'b) act) \<Rightarrow> ('d, 'w, 'b) act" where
  "act_try m k s = (case m s of (res, s') \<Rightarrow> k res s')"

definition act_return :: "'a \<Rightarrow> ('d, 'w, 'a) act" where
  "act_return x s = (Inr x, s)"

definition act_fail :: "sync_error \<Rightarrow> ('d, 'w, 'a) act" where
  "act_fail e s = (Inl e, s)"

definition act_db :: "('d client_db \<Rightarrow> 'd client_db) \<Rightarrow> ('d, 'w, unit) act" where
  "act_db f s = (Inr (), (f (fst s), snd s))"

definition act_get :: "('d client_db \<Rightarrow> 'a) \<Rightarrow> ('d, 'w, 'a) act" where
  "act_get f s = (Inr (f (fst s)), s)"

definition act_call :: "('w \<Rightarrow> (sync_error + 'a) \<times> 'w) \<Rightarrow> ('d, 'w, 'a) act" where
  "act_call c s = (case c (snd s) of (res, w) \<Rightarrow> (res, (fst s, w)))"

definition act_now :: "'w transport \<Rightarrow> ('d, 'w, int) act" where
  "act_now T s = (case t_now T (snd s) of (now, w) \<Rightarrow> (Inr now, (fst s, w)))"

subsection \<open>The gate\<close>

definition refuse_raise :: "'w transport \<Rightarrow> refused_raise \<Rightarrow> ('d, 'w, unit) act" where
  "refuse_raise T r = act_bind (act_now T) (\<lambda>now. act_bind (act_db (record_refused_raise r now)) (\<lambda>_. act_fail (refusal_error r)))"

definition raise_floor_client :: "'w transport \<Rightarrow> int \<Rightarrow> ('d, 'w, unit) act" where
  "raise_floor_client T level = act_try (act_call (t_raise T level)) (\<lambda>res. case res of
       Inr levels \<Rightarrow>
         if required_sync_capability levels \<ge> level
         then act_bind (act_db mark_capability_gate_proven) (\<lambda>_. act_db clear_raise_backoff)
         else refuse_raise T \<lparr>rf_level = level, rf_refusal = GateMissing\<rparr>
     | Inl (CapabilityGateMissing _) \<Rightarrow> refuse_raise T \<lparr>rf_level = level, rf_refusal = GateMissing\<rparr>
     | Inl (sync_error.CapabilityBlocked l blockers) \<Rightarrow>
         act_bind (act_db mark_capability_gate_proven) (\<lambda>_. refuse_raise T \<lparr>rf_level = l, rf_refusal = Blocked blockers\<rparr>)
     | Inl e \<Rightarrow> act_fail e)"

definition require_capability_gate :: "'w transport \<Rightarrow> int \<Rightarrow> ('d, 'w, unit) act" where
  "require_capability_gate T level =
     act_bind (act_now T) (\<lambda>now. act_bind (act_get (raise_backoff now)) (\<lambda>refused.
       act_bind (case refused of
           Some r \<Rightarrow> if level \<ge> rf_level r then act_fail (refusal_error r) else act_return ()
         | None \<Rightarrow> act_return ()) (\<lambda>_.
       act_bind (act_get capability_gate_proven) (\<lambda>proven.
         if \<not> proven then raise_floor_client T level else act_return ()))))"

definition act_lift :: "sync_error + 'a \<Rightarrow> ('d, 'w, 'a) act" where
  "act_lift res s = (res, s)"

definition push_gated :: "'w transport \<Rightarrow> push_change list \<Rightarrow> int \<Rightarrow> ('d, 'w, push_response) act" where
  "push_gated T changes level =
     (if level = 0 then act_call (t_push T changes 0)
      else act_bind (require_capability_gate T level) (\<lambda>_.
        act_try (act_call (t_push T changes level)) (\<lambda>res. case res of
          Inl (sync_error.CapabilityFloor _ _ _) \<Rightarrow>
            act_bind (act_db mark_capability_gate_proven) (\<lambda>_. act_bind (raise_floor_client T level) (\<lambda>_.
              act_call (t_push T changes level)))
        | other \<Rightarrow> act_lift other)))"

subsection \<open>Reconciling the counter\<close>

definition relay_tail :: "'w transport \<Rightarrow> uuid \<Rightarrow> ('d, 'w, int) act" where
  "relay_tail T client = act_bind (act_call (t_completeness T)) (\<lambda>resp.
     act_return (case find (\<lambda>p. fst p = client) (cr_tails resp) of Some p \<Rightarrow> snd p | None \<Rightarrow> 0))"

definition reconcile_seq_counter :: "'w transport \<Rightarrow> uuid \<Rightarrow> ('d, 'w, bool) act" where
  "reconcile_seq_counter T client = act_bind (relay_tail T client) (\<lambda>server_max.
     act_bind (act_get client_seq) (\<lambda>local.
       if server_max \<le> local then act_bind (act_db mark_seq_reconciled) (\<lambda>_. act_return False)
       else act_bind (act_db (mark_seq_reconciled \<circ> reseed_counter_to_tail server_max)) (\<lambda>_. act_return True)))"

definition recover_from_conflict :: "'w transport \<Rightarrow> uuid \<Rightarrow> ('d, 'w, unit) act" where
  "recover_from_conflict T client = act_bind (act_db clear_seq_reconciled) (\<lambda>_.
     act_bind (relay_tail T client) (\<lambda>server_max.
       act_bind (act_get client_seq) (\<lambda>local.
         act_db (mark_seq_reconciled \<circ> reseed_counter_to_tail (max server_max local)))))"

subsection \<open>One batch\<close>

definition push_max_entries_per_cycle :: nat where
  "push_max_entries_per_cycle = 100000"

definition unacked :: "'d client_db \<Rightarrow> outbox_entry list" where
  "unacked db = sort_key oe_seq (filter (\<lambda>e. \<not> oe_acked e) (cd_outbox db))"

type_synonym meta = "int \<times> nat \<times> int"

definition outbox_metas :: "'d client_db \<Rightarrow> meta list" where
  "outbox_metas db = map (\<lambda>e. (oe_seq e, length (oe_ciphertext e), oe_level e)) (take max_push_changes (unacked db))"

fun batch_loop :: "int \<Rightarrow> int list \<Rightarrow> nat \<Rightarrow> nat \<Rightarrow> meta list \<Rightarrow> int list" where
  "batch_loop level taken wire raw [] = taken"
| "batch_loop level taken wire raw ((seq, len, lvl) # metas) =
     (if taken \<noteq> [] \<and> (lvl \<noteq> level \<or> length taken \<ge> max_push_changes \<or> wire + b64_len len > push_wire_budget \<or>
           raw + len > max_push_bytes)
      then taken
      else batch_loop level (taken @ [seq]) (wire + b64_len len) (raw + len) metas)"

definition fetch_entry :: "'d client_db \<Rightarrow> int \<Rightarrow> sync_error + outbox_entry" where
  "fetch_entry db seq = ok_or (find (\<lambda>e. oe_seq e = seq) (cd_outbox db)) (Sqlite ''Query returned no rows'')"

fun fetch_changes :: "crates \<Rightarrow> uuid \<Rightarrow> 'd client_db \<Rightarrow> int list \<Rightarrow> sync_error + push_change list" where
  "fetch_changes X client db [] = Inr []"
| "fetch_changes X client db (seq # taken) = bind_result (fetch_entry db seq) (\<lambda>e.
     bind_result (fetch_changes X client db taken) (\<lambda>cs. Inr
       (\<lparr>pc_client = client, pc_client_seq = seq, pc_ciphertext = b64_enc X (oe_ciphertext e),
         pc_schema = oe_schema e, pc_engine = oe_engine e\<rparr> # cs)))"

datatype planned = NothingUnacked | PlannedBatch int "int list"

definition plan_batch :: "'d client_db \<Rightarrow> sync_error + planned" where
  "plan_batch db = (case outbox_metas db of
       [] \<Rightarrow> Inr NothingUnacked
     | (seq, len, level) # metas \<Rightarrow>
         if b64_len len > push_wire_budget \<or> len > max_push_bytes then Inl (Oversized seq (b64_len len))
         else Inr (PlannedBatch level (batch_loop level [] 0 0 ((seq, len, level) # metas))))"

definition apply_acks :: "push_ack list \<Rightarrow> 'd client_db \<Rightarrow> 'd client_db" where
  "apply_acks acks db = fold (\<lambda>a. ack_entry (pa_client_seq a) (pa_seq a)) acks db"

text \<open>What one turn of the loop came to: the outbox is drained, a conflict was repaired, or a batch was
  answered (the acks applied, the tip, whether the counter had regressed, whether there were acks).\<close>

datatype turn = Drained | Recovered | Pushed nat int bool bool

definition settle_acks :: "'w transport \<Rightarrow> uuid \<Rightarrow> push_response \<Rightarrow> ('d, 'w, turn) act" where
  "settle_acks T client resp =
     (let fresh = filter (\<lambda>a. \<not> pa_dedup a) (pr_acks resp); dup = filter pa_dedup (pr_acks resp) in
      act_bind (act_db (apply_acks fresh)) (\<lambda>_.
        if dup = [] then act_return (Pushed (length fresh) (pr_max resp) False (pr_acks resp = []))
        else act_bind (reconcile_seq_counter T client) (\<lambda>regressed.
          if regressed then act_return (Pushed (length fresh) (pr_max resp) True False)
          else act_bind (act_db (apply_acks dup)) (\<lambda>_.
            act_return (Pushed (length fresh + length dup) (pr_max resp) False False)))))"

definition push_planned :: "'w transport \<Rightarrow> uuid \<Rightarrow> push_change list \<Rightarrow> int \<Rightarrow> ('d, 'w, turn) act" where
  "push_planned T client changes level = act_try (push_gated T changes level) (\<lambda>res. case res of
       Inr resp \<Rightarrow> settle_acks T client resp
     | Inl e \<Rightarrow> if is_conflict e then act_bind (recover_from_conflict T client) (\<lambda>_. act_return Recovered) else act_fail e)"

definition push_turn :: "'w transport \<Rightarrow> crates \<Rightarrow> uuid \<Rightarrow> ('d, 'w, turn) act" where
  "push_turn T X client s = (case plan_batch (fst s) of
       Inl e \<Rightarrow> (Inl e, s)
     | Inr NothingUnacked \<Rightarrow> (Inr Drained, s)
     | Inr (PlannedBatch level taken) \<Rightarrow> (case fetch_changes X client (fst s) taken of
         Inl e \<Rightarrow> (Inl e, s)
       | Inr changes \<Rightarrow> push_planned T client changes level s))"

subsection \<open>The loop\<close>

lemma settle_acks_progress:
  "settle_acks T client resp s = (Inr (Pushed n tip regressed none), s') \<Longrightarrow> \<not> none \<Longrightarrow> \<not> regressed \<Longrightarrow> 0 < n"
  by (auto simp: settle_acks_def act_bind_def act_db_def act_return_def Let_def filter_empty_conv
    split: if_splits prod.splits sum.splits)

lemma push_turn_progress:
  "push_turn T X client s = (Inr (Pushed n tip regressed none), s') \<Longrightarrow> \<not> none \<Longrightarrow> \<not> regressed \<Longrightarrow> 0 < n"
  by (auto simp: push_turn_def push_planned_def act_try_def act_bind_def act_return_def act_fail_def dest: settle_acks_progress
    split: if_splits prod.splits sum.splits planned.splits)

definition max_tip :: "int option \<Rightarrow> int \<Rightarrow> int" where
  "max_tip tip m = (case tip of None \<Rightarrow> m | Some x \<Rightarrow> max x m)"

function push_loop :: "'w transport \<Rightarrow> crates \<Rightarrow> uuid \<Rightarrow> nat \<Rightarrow> int option \<Rightarrow> ('d, 'w, nat \<times> int option) act" where
  "push_loop T X client sent tip s = (case push_turn T X client s of
       (Inl e, s') \<Rightarrow> (Inl e, s')
     | (Inr (Pushed n m regressed none), s') \<Rightarrow>
         if regressed \<or> none \<or> sent + n \<ge> push_max_entries_per_cycle
         then (Inr (sent + n, Some (max_tip tip m)), s')
         else push_loop T X client (sent + n) (Some (max_tip tip m)) s'
     | (Inr _, s') \<Rightarrow> (Inr (sent, tip), s'))"
  by pat_completeness auto
termination
  by (relation "measure (\<lambda>(T, X, client, sent, tip, s). push_max_entries_per_cycle - sent)")
    (auto dest!: push_turn_progress [OF sym])

definition push_outbox :: "'w transport \<Rightarrow> crates \<Rightarrow> uuid \<Rightarrow> ('d, 'w, nat \<times> int option) act" where
  "push_outbox T X client = push_loop T X client 0 None"

subsection \<open>What a batch holds\<close>

definition change_of :: "crates \<Rightarrow> uuid \<Rightarrow> outbox_entry \<Rightarrow> push_change" where
  "change_of X client e = \<lparr>pc_client = client, pc_client_seq = oe_seq e, pc_ciphertext = b64_enc X (oe_ciphertext e),
     pc_schema = oe_schema e, pc_engine = oe_engine e\<rparr>"

text \<open>A planned batch: a prefix of the unacked entries in order, of one level, within both budgets.\<close>

definition batch_of :: "outbox_entry list \<Rightarrow> int \<Rightarrow> outbox_entry list \<Rightarrow> bool" where
  "batch_of queue level es \<longleftrightarrow> es \<noteq> [] \<and> (\<exists>n. es = take n queue) \<and> length es \<le> max_push_changes \<and>
     (\<forall>e\<in>set es. oe_level e = level) \<and>
     sum_list (map (\<lambda>e. b64_len (length (oe_ciphertext e))) es) \<le> push_wire_budget \<and>
     sum_list (map (\<lambda>e. length (oe_ciphertext e)) es) \<le> max_push_bytes"

definition meta_of :: "outbox_entry \<Rightarrow> meta" where
  "meta_of e = (oe_seq e, length (oe_ciphertext e), oe_level e)"

lemma batch_loop_prefix:
  assumes "es \<noteq> [] \<longrightarrow> batch_of (es @ rest) level es" and "rest = [] \<longrightarrow> es \<noteq> []"
    and "es = [] \<longrightarrow> (case rest of [] \<Rightarrow> True | e # _ \<Rightarrow> oe_level e = level \<and>
      b64_len (length (oe_ciphertext e)) \<le> push_wire_budget \<and> length (oe_ciphertext e) \<le> max_push_bytes)"
  shows "\<exists>es'. batch_of (es @ rest) level es' \<and>
    batch_loop level (map oe_seq es) (sum_list (map (\<lambda>e. b64_len (length (oe_ciphertext e))) es))
      (sum_list (map (\<lambda>e. length (oe_ciphertext e)) es)) (map meta_of rest) = map oe_seq es'"
  using assms
proof (induction rest arbitrary: es)
  case Nil
  then show ?case by auto
next
  case (Cons e rest)
  define stop where "stop \<longleftrightarrow> es \<noteq> [] \<and> (oe_level e \<noteq> level \<or> length es \<ge> max_push_changes \<or>
      sum_list (map (\<lambda>e. b64_len (length (oe_ciphertext e))) es) + b64_len (length (oe_ciphertext e)) > push_wire_budget \<or>
      sum_list (map (\<lambda>e. length (oe_ciphertext e)) es) + length (oe_ciphertext e) > max_push_bytes)"
  show ?case
  proof (cases stop)
    case True
    with Cons.prems(1) show ?thesis
      by (intro exI [of _ es]) (simp add: stop_def meta_of_def [of e])
  next
    case False
    have b: "batch_of (es @ e # rest) level (es @ [e])"
    proof (cases "es = []")
      case True
      have "\<exists>n. [e] = take n (e # rest)" by (rule exI [of _ 1]) simp
      with True Cons.prems(3) show ?thesis by (simp add: batch_of_def max_push_changes_def)
    next
      case ne: False
      then have "batch_of (es @ e # rest) level es" using Cons.prems(1) by simp
      moreover have "\<exists>n. es @ [e] = take n (es @ e # rest)" by (rule exI [of _ "length es + 1"]) simp
      ultimately show ?thesis using False ne by (auto simp: batch_of_def stop_def)
    qed
    have "\<exists>es'. batch_of ((es @ [e]) @ rest) level es' \<and>
      batch_loop level (map oe_seq (es @ [e])) (sum_list (map (\<lambda>e. b64_len (length (oe_ciphertext e))) (es @ [e])))
        (sum_list (map (\<lambda>e. length (oe_ciphertext e)) (es @ [e]))) (map meta_of rest) = map oe_seq es'"
      by (rule Cons.IH) (use b in auto)
    then show ?thesis using False by (auto simp: stop_def meta_of_def [of e])
  qed
qed

lemma batch_of_take: "batch_of (take m queue) level es \<Longrightarrow> batch_of queue level es"
  unfolding batch_of_def by (metis take_take)

lemma plan_batch_spec:
  assumes "plan_batch db = Inr (PlannedBatch level taken)"
  shows "\<exists>es. batch_of (unacked db) level es \<and> taken = map oe_seq es"
proof -
  obtain e rest where q: "take max_push_changes (unacked db) = e # rest"
    using assms by (cases "take max_push_changes (unacked db)") (auto simp: plan_batch_def outbox_metas_def)
  then have "outbox_metas db = map meta_of (e # rest)" by (simp add: outbox_metas_def meta_of_def)
  with assms have p: "\<not> (b64_len (length (oe_ciphertext e)) > push_wire_budget \<or> length (oe_ciphertext e) > max_push_bytes)"
    "level = oe_level e" "taken = batch_loop level [] 0 0 (map meta_of (e # rest))"
    by (auto simp: plan_batch_def meta_of_def split: if_splits)
  obtain es where "batch_of (e # rest) level es" "batch_loop level [] 0 0 (map meta_of (e # rest)) = map oe_seq es"
    using batch_loop_prefix [of "[]" "e # rest" level] p by auto
  with p q batch_of_take [of max_push_changes "unacked db"] show ?thesis by auto
qed

lemma fetch_changes_spec:
  assumes "distinct (map oe_seq (cd_outbox db))"
  shows "set es \<subseteq> set (cd_outbox db) \<Longrightarrow> fetch_changes X client db (map oe_seq es) = Inr (map (change_of X client) es)"
proof (induction es)
  case (Cons e es)
  have "find (\<lambda>x. oe_seq x = oe_seq e) (cd_outbox db) = Some e"
  proof (cases "find (\<lambda>x. oe_seq x = oe_seq e) (cd_outbox db)")
    case None
    with Cons.prems show ?thesis by (auto simp: find_None_iff)
  next
    case (Some x)
    then have "x \<in> set (cd_outbox db)" "oe_seq x = oe_seq e" by (auto simp: find_Some_iff)
    with Cons.prems assms have "x = e" by (meson distinct_map inj_onD list.set_intros(1) subsetD)
    with Some show ?thesis by simp
  qed
  with Cons show ?case by (simp add: fetch_entry_def change_of_def)
qed simp

lemma unacked_set: "set (unacked db) = {e \<in> set (cd_outbox db). \<not> oe_acked e}"
  by (simp add: unacked_def)

lemma batch_of_set: "batch_of queue level es \<Longrightarrow> set es \<subseteq> set queue"
  by (auto simp: batch_of_def dest: in_set_takeD)

text \<open>Every turn either stops before the network or pushes one such batch.\<close>

lemma push_turn_cases:
  assumes "distinct (map oe_seq (cd_outbox (fst s)))"
  obtains (stopped) r where "push_turn T X client s = (r, s)" "\<And>n m b c. r \<noteq> Inr (Pushed n m b c)" "r \<noteq> Inr Recovered"
      "r = Inr Drained \<longrightarrow> unacked (fst s) = []"
  | (pushed) level es where "batch_of (unacked (fst s)) level es"
      "push_turn T X client s = push_planned T client (map (change_of X client) es) level s"
proof (cases "plan_batch (fst s)")
  case (Inl e)
  then show ?thesis by (intro stopped [of "Inl e"]) (simp_all add: push_turn_def)
next
  case (Inr p)
  show ?thesis
  proof (cases p)
    case NothingUnacked
    then have "unacked (fst s) = []"
      using Inr by (auto simp: plan_batch_def outbox_metas_def max_push_changes_def split: list.splits if_splits)
    with Inr NothingUnacked show ?thesis by (intro stopped [of "Inr Drained"]) (simp_all add: push_turn_def)
  next
    case (PlannedBatch level taken)
    then obtain es where es: "batch_of (unacked (fst s)) level es" "taken = map oe_seq es"
      using Inr plan_batch_spec by blast
    then have "set es \<subseteq> set (cd_outbox (fst s))" using batch_of_set unacked_set by blast
    then have "fetch_changes X client (fst s) taken = Inr (map (change_of X client) es)"
      using fetch_changes_spec [OF assms] es(2) by simp
    with es Inr PlannedBatch show ?thesis by (intro pushed [of level es]) (simp_all add: push_turn_def)
  qed
qed

subsection \<open>Keeping an invariant\<close>

named_theorems keep_intros

definition keeps :: "(('d, 'w) client \<Rightarrow> bool) \<Rightarrow> ('d, 'w, 'a) act \<Rightarrow> bool" where
  "keeps P m \<longleftrightarrow> (\<forall>s. P s \<longrightarrow> P (snd (m s)))"

lemma act_result:
  obtains res s' where "m s = (res, s')"
  by (cases "m s")

lemma keepsD: "keeps P m \<Longrightarrow> P s \<Longrightarrow> m s = (res, s') \<Longrightarrow> P s'"
  by (metis keeps_def snd_conv)

lemma keeps_bind [keep_intros]: "keeps P m \<Longrightarrow> (\<And>x. keeps P (f x)) \<Longrightarrow> keeps P (act_bind m f)"
  by (auto simp: keeps_def act_bind_def split: prod.splits sum.splits) (metis snd_conv)+

lemma keeps_try [keep_intros]: "keeps P m \<Longrightarrow> (\<And>x. keeps P (k x)) \<Longrightarrow> keeps P (act_try m k)"
  by (auto simp: keeps_def act_try_def split: prod.splits) (metis snd_conv)

lemma keeps_pure [keep_intros]: "keeps P (act_return x)" "keeps P (act_fail e)" "keeps P (act_get g)" "keeps P (act_lift res)"
  by (simp_all add: keeps_def act_return_def act_fail_def act_get_def act_lift_def)

lemma keeps_db: "(\<And>db w. P (db, w) \<Longrightarrow> P (f db, w)) \<Longrightarrow> keeps P (act_db f)"
  by (simp add: keeps_def act_db_def)

lemma keeps_call: "(\<And>db w. P (db, w) \<Longrightarrow> P (db, snd (c w))) \<Longrightarrow> keeps P (act_call c)"
  by (simp add: keeps_def act_call_def split: prod.splits) (metis snd_conv)

lemma keeps_now: "(\<And>db w. P (db, w) \<Longrightarrow> P (db, snd (t_now T w))) \<Longrightarrow> keeps P (act_now T)"
  by (simp add: keeps_def act_now_def split: prod.splits) (metis snd_conv)

text \<open>The writes and calls of the gate, pushes apart: what keeps an invariant through them keeps it
  through the floor raise and the checks before a gated batch.\<close>

locale gate_acts =
  fixes P :: "('d, 'w) client \<Rightarrow> bool" and T :: "'w transport"
  assumes refused: "P (db, w) \<Longrightarrow> P (record_refused_raise r now db, w)"
    and proven: "P (db, w) \<Longrightarrow> P (mark_capability_gate_proven db, w)"
    and cleared: "P (db, w) \<Longrightarrow> P (clear_raise_backoff db, w)"
    and raised: "P (db, w) \<Longrightarrow> P (db, snd (t_raise T level w))"
    and clocked: "P (db, w) \<Longrightarrow> P (db, snd (t_now T w))"
begin

lemma gate_acts [keep_intros]:
  "keeps P (act_db (record_refused_raise r now))" "keeps P (act_db mark_capability_gate_proven)"
  "keeps P (act_db clear_raise_backoff)" "keeps P (act_call (t_raise T level))" "keeps P (act_now T)"
  by (auto intro!: keeps_db keeps_call keeps_now refused proven cleared raised clocked)

lemma refuse_acts [keep_intros]: "keeps P (refuse_raise T r)"
  unfolding refuse_raise_def by (intro keep_intros)

lemma raise_acts [keep_intros]: "keeps P (raise_floor_client T level)"
  unfolding raise_floor_client_def
  by (intro keep_intros) (auto split: sum.splits sync_error.splits intro!: keep_intros)

lemma require_acts [keep_intros]: "keeps P (require_capability_gate T level)"
  unfolding require_capability_gate_def by (intro keep_intros) (auto split: option.splits intro!: keep_intros)

lemma gated_acts: "(\<And>l. keeps P (act_call (t_push T cs l))) \<Longrightarrow> keeps P (push_gated T cs level)"
  unfolding push_gated_def by (auto intro!: keep_intros split: sum.splits sync_error.splits)

end

text \<open>With the writes of the reconciliation and the recovery, acks apart.\<close>

locale local_acts = gate_acts P T for P :: "('d, 'w) client \<Rightarrow> bool" and T :: "'w transport" +
  assumes reconciled: "P (db, w) \<Longrightarrow> P (mark_seq_reconciled db, w)"
    and unreconciled: "P (db, w) \<Longrightarrow> P (clear_seq_reconciled db, w)"
    and reseeded: "P (db, w) \<Longrightarrow> P (reseed_counter_to_tail n db, w)"
    and completed: "P (db, w) \<Longrightarrow> P (db, snd (t_completeness T w))"
begin

lemma counter_acts [keep_intros]:
  "keeps P (act_db mark_seq_reconciled)" "keeps P (act_db clear_seq_reconciled)"
  "keeps P (act_db (mark_seq_reconciled \<circ> reseed_counter_to_tail n))" "keeps P (act_call (t_completeness T))"
  by (auto intro!: keeps_db keeps_call reconciled unreconciled reseeded completed)

lemma reconcile_acts [keep_intros]: "keeps P (relay_tail T client)" "keeps P (reconcile_seq_counter T client)"
    "keeps P (recover_from_conflict T client)"
  unfolding reconcile_seq_counter_def recover_from_conflict_def relay_tail_def by (auto intro!: keep_intros)

lemma settle_acts: "(\<And>acks. keeps P (act_db (apply_acks acks))) \<Longrightarrow> keeps P (settle_acks T client resp)"
  unfolding settle_acks_def Let_def by (auto intro!: keep_intros)

text \<open>What keeps it through pushes and acks too keeps it through the whole cycle.\<close>

lemma turn_acts:
  assumes "\<And>cs l. keeps P (act_call (t_push T cs l))" and "\<And>acks. keeps P (act_db (apply_acks acks))"
  shows "keeps P (push_turn T X client)"
proof -
  have "keeps P (push_planned T client cs level)" for cs level
    unfolding push_planned_def
    by (auto intro!: keep_intros gated_acts settle_acts assms split: sum.splits)
  then show ?thesis by (auto simp: keeps_def push_turn_def split: sum.splits planned.splits)
qed

end

lemma keeps_push_loop: "keeps P (push_turn T X client) \<Longrightarrow> keeps P (push_loop T X client sent tip)"
  unfolding keeps_def
proof (intro allI impI)
  fix s assume turn: "\<forall>s. P s \<longrightarrow> P (snd (push_turn T X client s))" and "P s"
  then show "P (snd (push_loop T X client sent tip s))"
  proof (induction T X client sent tip s rule: push_loop.induct)
    case (1 T X client sent tip s)
    obtain t s1 where t: "push_turn T X client s = (t, s1)" by (rule act_result)
    have s1: "P s1" using 1(2,3) t by (metis snd_conv)
    show ?case
      using 1(1) [OF t [symmetric]] 1(2) s1 t
      by (subst push_loop.simps) (auto split: sum.splits turn.splits)
  qed
qed

subsection \<open>A transport that keeps a log of the pushes\<close>

definition logged :: "'w transport \<Rightarrow> ('w \<times> (push_change list \<times> int) list) transport" where
  "logged T = \<lparr>
     t_push = (\<lambda>cs level (w, log). apsnd (\<lambda>w'. (w', log @ [(cs, level)])) (t_push T cs level w)),
     t_pull = (\<lambda>since limit (w, log). apsnd (\<lambda>w'. (w', log)) (t_pull T since limit w)),
     t_completeness = (\<lambda>(w, log). apsnd (\<lambda>w'. (w', log)) (t_completeness T w)),
     t_raise = (\<lambda>level (w, log). apsnd (\<lambda>w'. (w', log)) (t_raise T level w)),
     t_now = (\<lambda>(w, log). apsnd (\<lambda>w'. (w', log)) (t_now T w))\<rparr>"

definition log_of :: "('d, 'w \<times> (push_change list \<times> int) list) client \<Rightarrow> (push_change list \<times> int) list" where
  "log_of s = snd (snd s)"

text \<open>Local writes that leave the gate's marker and the primary key of the outbox alone.\<close>

definition same_log :: "(push_change list \<times> int) list \<Rightarrow> ('d, 'w \<times> (push_change list \<times> int) list) client \<Rightarrow> bool" where
  "same_log log s \<longleftrightarrow> log_of s = log \<and> distinct (map oe_seq (cd_outbox (fst s)))"

lemma logged_calls: "snd (snd (t_completeness (logged T) w)) = snd w" "snd (snd (t_raise (logged T) level w)) = snd w"
  "snd (snd (t_now (logged T) w)) = snd w" "snd (snd (t_push (logged T) cs level w)) = snd w @ [(cs, level)]"
  by (cases w; simp add: logged_def)+

lemma outbox_frame [simp]:
  "cd_outbox (set_client_seq n db) = cd_outbox db" "cd_outbox (set_push_watermark n db) = cd_outbox db"
  "cd_outbox (set_session_marker k db) = cd_outbox db" "cd_outbox (mark_seq_reconciled db) = cd_outbox db"
  "cd_outbox (mark_capability_gate_proven db) = cd_outbox db" "cd_outbox (clear_seq_reconciled db) = cd_outbox db"
  "cd_outbox (record_refused_raise r now db) = cd_outbox db" "cd_outbox (clear_raise_backoff db) = cd_outbox db"
  "cd_outbox (reseed_counter_to_tail n db) = filter oe_acked (cd_outbox db)"
  by (simp_all add: set_client_seq_def set_push_watermark_def set_session_marker_def mark_seq_reconciled_def
    mark_capability_gate_proven_def clear_seq_reconciled_def record_refused_raise_def clear_raise_backoff_def
    reseed_counter_to_tail_def Let_def)

lemma ack_entry_seqs [simp]: "map oe_seq (cd_outbox (ack_entry q n db)) = map oe_seq (cd_outbox db)"
  by (simp add: ack_entry_def update_where_def)

lemma apply_acks_seqs [simp]: "map oe_seq (cd_outbox (apply_acks acks db)) = map oe_seq (cd_outbox db)"
  unfolding apply_acks_def by (induction acks arbitrary: db) simp_all

lemma distinct_filter_seqs: "distinct (map oe_seq es) \<Longrightarrow> distinct (map oe_seq (filter p es))"
  by (simp add: distinct_map inj_on_def)

interpretation sl: local_acts "same_log log" "logged T" for log T
  by unfold_locales (auto simp: same_log_def log_of_def logged_calls intro: distinct_filter_seqs)

lemma settle_keeps [keep_intros]: "keeps (same_log log) (settle_acks (logged T) client resp)"
  by (rule sl.settle_acts) (auto intro!: keeps_db simp: same_log_def log_of_def)

lemma push_logged:
  assumes "same_log log s" and "act_call (t_push (logged T) cs level) s = (r, s')"
  shows "same_log (log @ [(cs, level)]) s'"
  using assms logged_calls(4) [of T cs level "snd s"]
  by (auto simp: same_log_def log_of_def act_call_def split: prod.splits)

lemma push_gated_logged:
  assumes log: "same_log log s" and run: "push_gated (logged T) cs level s = (r, s')"
  shows "\<exists>k\<le>2. same_log (log @ replicate k (cs, level)) s'"
proof (cases "level = 0")
  case True
  then have "same_log (log @ [(cs, level)]) s'"
    using push_logged [OF log] run unfolding push_gated_def by auto
  then show ?thesis by (intro exI [of _ 1]) simp
next
  case False
  obtain q s1 where q: "require_capability_gate (logged T) level s = (q, s1)" by (rule act_result)
  have s1: "same_log log s1" by (rule keepsD [OF sl.require_acts log q])
  show ?thesis
  proof (cases q)
    case (Inl e)
    with run q False have "s' = s1" by (simp add: push_gated_def act_bind_def)
    with s1 show ?thesis by (intro exI [of _ 0]) simp
  next
    case (Inr u)
    obtain res s2 where p: "act_call (t_push (logged T) cs level) s1 = (res, s2)" by (rule act_result)
    have s2: "same_log (log @ [(cs, level)]) s2" by (rule push_logged [OF s1 p])
    let ?retry = "act_bind (act_db mark_capability_gate_proven) (\<lambda>_. act_bind (raise_floor_client (logged T) level) (\<lambda>_.
        act_call (t_push (logged T) cs level)))"
    have r: "(r, s') = (case res of Inl (sync_error.CapabilityFloor _ _ _) \<Rightarrow> ?retry s2 | other \<Rightarrow> act_lift other s2)"
      using run q False Inr p by (auto simp: push_gated_def act_bind_def act_try_def split: sum.splits sync_error.splits)
    show ?thesis
    proof (cases "\<exists>a b c. res = Inl (sync_error.CapabilityFloor a b c)")
      case True
      then have "(r, s') = ?retry s2" using r by auto
      moreover obtain q' s3 where q': "act_bind (act_db mark_capability_gate_proven) (\<lambda>_. raise_floor_client (logged T) level) s2 = (q', s3)"
        by (rule act_result)
      moreover have s3: "same_log (log @ [(cs, level)]) s3"
        using q' by (rule keepsD [where P = "same_log (log @ [(cs, level)])", rotated 2]) (intro keep_intros, rule s2)
      ultimately show ?thesis
      proof (cases q')
        case (Inl e)
        with \<open>(r, s') = ?retry s2\<close> q' have "s' = s3" by (auto simp: act_bind_def act_db_def split: prod.splits sum.splits)
        with s3 show ?thesis by (intro exI [of _ 1]) simp
      next
        case (Inr u)
        with \<open>(r, s') = ?retry s2\<close> q' have "act_call (t_push (logged T) cs level) s3 = (r, s')"
          by (auto simp: act_bind_def act_db_def split: prod.splits sum.splits)
        from push_logged [OF s3 this] show ?thesis by (intro exI [of _ 2]) (simp add: numeral_2_eq_2)
      qed
    next
      case False
      with r have "s' = s2" by (auto simp: act_lift_def split: sum.splits sync_error.splits)
      with s2 show ?thesis by (intro exI [of _ 1]) simp
    qed
  qed
qed

lemma push_planned_logged:
  assumes "same_log log s" and "push_planned (logged T) client cs level s = (r, s')"
  shows "\<exists>k\<le>2. same_log (log @ replicate k (cs, level)) s'"
proof -
  obtain res s1 where g: "push_gated (logged T) cs level s = (res, s1)" by (rule act_result)
  obtain k where k: "k \<le> 2" "same_log (log @ replicate k (cs, level)) s1" using push_gated_logged [OF assms(1) g] by blast
  have "keeps (same_log (log @ replicate k (cs, level))) (case res of
       Inr resp \<Rightarrow> settle_acks (logged T) client resp
     | Inl e \<Rightarrow> if is_conflict e then act_bind (recover_from_conflict (logged T) client) (\<lambda>_. act_return Recovered) else act_fail e)"
    by (auto split: sum.splits intro!: keep_intros)
  from keepsD [OF this k(2)] assms(2) g k(1) show ?thesis by (auto simp: push_planned_def act_try_def)
qed

text \<open>The turns of a push cycle: each with the unacked entries of the outbox when it began, and the push
  requests it sent.\<close>

inductive push_turns :: "('w \<times> (push_change list \<times> int) list) transport \<Rightarrow> crates \<Rightarrow> uuid
    \<Rightarrow> ('d, 'w \<times> (push_change list \<times> int) list) client \<Rightarrow> (outbox_entry list \<times> (push_change list \<times> int) list) list
    \<Rightarrow> ('d, 'w \<times> (push_change list \<times> int) list) client \<Rightarrow> bool" for T X client where
  no_turn: "push_turns T X client s [] s"
| one_turn: "push_turn T X client s = (r, s1) \<Longrightarrow> log_of s1 = log_of s @ reqs \<Longrightarrow> push_turns T X client s1 turns s' \<Longrightarrow>
    push_turns T X client s ((unacked (fst s), reqs) # turns) s'"

lemma push_turns_log: "push_turns T X client s turns s' \<Longrightarrow> log_of s' = log_of s @ concat (map snd turns)"
  by (induction rule: push_turns.induct) simp_all

definition proper_turn :: "crates \<Rightarrow> uuid \<Rightarrow> outbox_entry list \<Rightarrow> (push_change list \<times> int) list \<Rightarrow> bool" where
  "proper_turn X client queue reqs \<longleftrightarrow> length reqs \<le> 2 \<and>
     (\<forall>(cs, level)\<in>set reqs. \<exists>es. batch_of queue level es \<and> cs = map (change_of X client) es)"

lemma push_turn_logged:
  assumes "same_log log s" and "push_turn (logged T) X client s = (r, s')"
  shows "\<exists>new. same_log (log @ new) s' \<and> proper_turn X client (unacked (fst s)) new"
proof -
  have "distinct (map oe_seq (cd_outbox (fst s)))" using assms(1) by (simp add: same_log_def)
  then show ?thesis
  proof (cases rule: push_turn_cases [of s "logged T" X client])
    case (stopped r')
    with assms show ?thesis by (intro exI [of _ "[]"]) (simp add: proper_turn_def)
  next
    case (pushed level es)
    then obtain k where k: "k \<le> 2" "same_log (log @ replicate k (map (change_of X client) es, level)) s'"
      using push_planned_logged [OF assms(1), of T client "map (change_of X client) es" level r s'] assms(2) by auto
    have "proper_turn X client (unacked (fst s)) (replicate k (map (change_of X client) es, level))"
      using pushed(1) k(1) by (auto simp: proper_turn_def)
    with k(2) show ?thesis by blast
  qed
qed

lemma push_loop_turns:
  "same_log log s \<Longrightarrow> sent < push_max_entries_per_cycle \<Longrightarrow> push_loop (logged T) X client sent tip s = (r, s') \<Longrightarrow>
   \<exists>turns. push_turns (logged T) X client s turns s' \<and> length turns \<le> push_max_entries_per_cycle - sent \<and>
     (\<forall>(queue, reqs)\<in>set turns. proper_turn X client queue reqs)"
proof (induction "logged T" X client sent tip s arbitrary: log rule: push_loop.induct)
  case (1 X client sent tip s)
  obtain t s1 where t: "push_turn (logged T) X client s = (t, s1)" by (rule act_result)
  obtain new where new: "same_log (log @ new) s1" "proper_turn X client (unacked (fst s)) new"
    using push_turn_logged [OF 1(2) t] by blast
  then have grown: "log_of s1 = log_of s @ new" using 1(2) by (simp add: same_log_def)
  show ?case
  proof (cases "\<exists>n m. t = Inr (Pushed n m False False) \<and> \<not> push_max_entries_per_cycle \<le> sent + n")
    case True
    then obtain n m where n: "t = Inr (Pushed n m False False)" "\<not> push_max_entries_per_cycle \<le> sent + n" by blast
    have pos: "0 < n" using push_turn_progress [of "logged T" X client s n m False False s1] t n(1) by simp
    have run: "push_loop (logged T) X client (sent + n) (Some (max_tip tip m)) s1 = (r, s')"
      using 1(4) t n by (subst (asm) push_loop.simps) simp
    obtain turns where turns: "push_turns (logged T) X client s1 turns s'"
      "length turns \<le> push_max_entries_per_cycle - (sent + n)" "\<forall>(queue, reqs)\<in>set turns. proper_turn X client queue reqs"
      using 1(1) [OF t [symmetric] n(1) refl _ new(1) _ run] n by auto
    from one_turn [OF t grown turns(1)] turns(2,3) new(2) pos n(2) show ?thesis
      by (intro exI [of _ "(unacked (fst s), new) # turns"]) auto
  next
    case False
    then have "s' = s1"
      using 1(4) t by (subst (asm) push_loop.simps) (auto split: sum.splits turn.splits if_splits)
    with one_turn [OF t grown no_turn] new(2) 1(3) show ?thesis
      by (intro exI [of _ "[(unacked (fst s), new)]"]) auto
  qed
qed

subsection \<open>A relay that predates the gate\<close>

text \<open>Its answers to a raise never show a floor at the level asked for, nor name blockers.\<close>

definition pre_gate :: "'w transport \<Rightarrow> bool" where
  "pre_gate T \<longleftrightarrow> (\<forall>level w. case fst (t_raise T level w) of
       Inr l \<Rightarrow> required_sync_capability l < level
     | Inl e \<Rightarrow> \<not> (\<exists>l bs. e = sync_error.CapabilityBlocked l bs))"

definition quiet :: "(push_change list \<times> int) list \<Rightarrow> ('d, 'w \<times> (push_change list \<times> int) list) client \<Rightarrow> bool" where
  "quiet log s \<longleftrightarrow> same_log log s \<and> \<not> capability_gate_proven (fst s)"

lemma proven_frame [simp]:
  "capability_gate_proven (record_refused_raise r now db) = capability_gate_proven db"
  "capability_gate_proven (mark_seq_reconciled db) = capability_gate_proven db"
  "capability_gate_proven (clear_seq_reconciled db) = capability_gate_proven db"
  "capability_gate_proven (reseed_counter_to_tail n db) = capability_gate_proven db"
  "capability_gate_proven (ack_entry q n db) = capability_gate_proven db"
  by (simp_all add: capability_gate_proven_def session_marker_def record_refused_raise_def mark_seq_reconciled_def
    set_session_marker_def clear_seq_reconciled_def reseed_counter_to_tail_def Let_def ack_entry_def set_client_seq_def
    set_push_watermark_def)

lemma proven_apply_acks [simp]: "capability_gate_proven (apply_acks acks db) = capability_gate_proven db"
  unfolding apply_acks_def by (induction acks arbitrary: db) simp_all

lemma quiet_acts [keep_intros]:
  "keeps (quiet log) (act_db (record_refused_raise r now))" "keeps (quiet log) (act_db mark_seq_reconciled)"
  "keeps (quiet log) (act_db clear_seq_reconciled)" "keeps (quiet log) (act_db (apply_acks acks))"
  "keeps (quiet log) (act_db (mark_seq_reconciled \<circ> reseed_counter_to_tail n))"
  "keeps (quiet log) (act_call (t_raise (logged T) level))" "keeps (quiet log) (act_call (t_completeness (logged T)))"
  "keeps (quiet log) (act_now (logged T))"
  by (auto intro!: keeps_db keeps_call keeps_now distinct_filter_seqs simp: quiet_def same_log_def log_of_def logged_calls)

lemma quiet_reconcile [keep_intros]: "keeps (quiet log) (relay_tail (logged T) client)"
    "keeps (quiet log) (reconcile_seq_counter (logged T) client)" "keeps (quiet log) (recover_from_conflict (logged T) client)"
  unfolding reconcile_seq_counter_def recover_from_conflict_def relay_tail_def by (auto intro!: keep_intros)

lemma quiet_settle [keep_intros]: "keeps (quiet log) (settle_acks (logged T) client resp)"
  unfolding settle_acks_def Let_def by (auto intro!: keep_intros)

lemma refuse_raise_quiet:
  "quiet log s \<Longrightarrow> \<exists>e s'. refuse_raise (logged T) r s = (Inl e, s') \<and> quiet log s'"
proof -
  assume q: "quiet log s"
  obtain res s' where run: "refuse_raise (logged T) r s = (res, s')" by (rule act_result)
  have "keeps (quiet log) (refuse_raise (logged T) r)" unfolding refuse_raise_def by (intro keep_intros)
  from keepsD [OF this q run] run show ?thesis
    by (auto simp: refuse_raise_def act_bind_def act_now_def act_db_def act_fail_def split: prod.splits)
qed

lemma raise_floor_quiet:
  assumes "pre_gate T" and "quiet log s"
  shows "\<exists>e s'. raise_floor_client (logged T) level s = (Inl e, s') \<and> quiet log s'"
proof -
  obtain res s1 where c: "act_call (t_raise (logged T) level) s = (res, s1)" by (rule act_result)
  have s1: "quiet log s1" by (rule keepsD [OF quiet_acts(6) assms(2) c])
  have "res = fst (t_raise T level (fst (snd s)))"
    using c by (cases s; cases "t_raise T level (fst (snd s))") (auto simp: act_call_def logged_def)
  with assms(1) have pg: "case res of Inr l \<Rightarrow> required_sync_capability l < level
     | Inl e \<Rightarrow> \<not> (\<exists>l bs. e = sync_error.CapabilityBlocked l bs)" by (simp add: pre_gate_def)
  have r: "raise_floor_client (logged T) level s = (case res of
       Inr levels \<Rightarrow>
         if required_sync_capability levels \<ge> level
         then act_bind (act_db mark_capability_gate_proven) (\<lambda>_. act_db clear_raise_backoff)
         else refuse_raise (logged T) \<lparr>rf_level = level, rf_refusal = GateMissing\<rparr>
     | Inl (CapabilityGateMissing _) \<Rightarrow> refuse_raise (logged T) \<lparr>rf_level = level, rf_refusal = GateMissing\<rparr>
     | Inl (sync_error.CapabilityBlocked l blockers) \<Rightarrow>
         act_bind (act_db mark_capability_gate_proven) (\<lambda>_. refuse_raise (logged T) \<lparr>rf_level = l, rf_refusal = Blocked blockers\<rparr>)
     | Inl e \<Rightarrow> act_fail e) s1"
    using c by (simp add: raise_floor_client_def act_try_def)
  show ?thesis
  proof (cases res)
    case (Inr l)
    with pg r refuse_raise_quiet [OF s1] show ?thesis by simp
  next
    case (Inl e)
    with pg r s1 refuse_raise_quiet [OF s1] show ?thesis by (cases e) (simp_all add: act_fail_def)
  qed
qed

lemma push_gated_quiet:
  assumes pg: "pre_gate T" and q: "quiet log s" and run: "push_gated (logged T) cs level s = (r, s')"
  shows "if level = 0 then quiet (log @ [(cs, 0)]) s' else quiet log s'"
proof (cases "level = 0")
  case True
  then have call: "act_call (t_push (logged T) cs 0) s = (r, s')" using run by (simp add: push_gated_def)
  then have "fst s' = fst s" by (auto simp: act_call_def split: prod.splits)
  with True q call show ?thesis using push_logged [OF _ call, of log] by (simp add: quiet_def)
next
  case False
  obtain x s1 where req: "require_capability_gate (logged T) level s = (x, s1)" by (rule act_result)
  have "\<exists>e. x = Inl e \<and> quiet log s1"
  proof -
    obtain now s2 where now: "act_now (logged T) s = (Inr now, s2)"
      by (cases "t_now (logged T) (snd s)") (simp add: act_now_def)
    have s2: "quiet log s2" by (rule keepsD [OF quiet_acts(8) q now])
    then have np: "\<not> capability_gate_proven (fst s2)" by (simp add: quiet_def)
    show ?thesis
      using req now s2 np raise_floor_quiet [OF pg s2, of level]
      by (auto simp: require_capability_gate_def act_bind_def act_get_def act_fail_def act_return_def
        split: option.splits if_splits)
  qed
  with run req False show ?thesis by (auto simp: push_gated_def act_bind_def)
qed

lemma push_turn_quiet:
  assumes pg: "pre_gate T" and q: "quiet log s" and run: "push_turn (logged T) X client s = (r, s')"
  shows "\<exists>new. quiet (log @ new) s' \<and> (\<forall>b\<in>set new. snd b = 0)"
proof -
  have "distinct (map oe_seq (cd_outbox (fst s)))" using q by (simp add: quiet_def same_log_def)
  then show ?thesis
  proof (cases rule: push_turn_cases [of s "logged T" X client])
    case (stopped r')
    with q run show ?thesis by (intro exI [of _ "[]"]) simp
  next
    case (pushed level es)
    let ?cs = "map (change_of X client) es"
    obtain res s1 where g: "push_gated (logged T) ?cs level s = (res, s1)" by (rule act_result)
    define new where "new = (if level = 0 then [(?cs, 0 :: int)] else [])"
    have s1: "quiet (log @ new) s1" using push_gated_quiet [OF pg q g] by (simp add: new_def split: if_splits)
    have "keeps (quiet (log @ new)) (case res of
       Inr resp \<Rightarrow> settle_acks (logged T) client resp
     | Inl e \<Rightarrow> if is_conflict e then act_bind (recover_from_conflict (logged T) client) (\<lambda>_. act_return Recovered) else act_fail e)"
      by (auto split: sum.splits intro!: keep_intros)
    from keepsD [OF this s1] run g pushed(2) have "quiet (log @ new) s'" by (simp add: push_planned_def act_try_def)
    then show ?thesis by (intro exI [of _ new]) (simp add: new_def)
  qed
qed

lemma push_loop_quiet:
  "pre_gate T \<Longrightarrow> quiet log s \<Longrightarrow> push_loop (logged T) X client sent tip s = (r, s') \<Longrightarrow>
   \<exists>new. quiet (log @ new) s' \<and> (\<forall>b\<in>set new. snd b = 0)"
proof (induction "logged T" X client sent tip s arbitrary: log rule: push_loop.induct)
  case (1 X client sent tip s)
  obtain t s1 where t: "push_turn (logged T) X client s = (t, s1)" by (rule act_result)
  obtain new1 where new1: "quiet (log @ new1) s1" "\<forall>b\<in>set new1. snd b = 0"
    using push_turn_quiet [OF 1(2,3) t] by blast
  show ?case
  proof (cases "\<exists>n m. t = Inr (Pushed n m False False) \<and> \<not> push_max_entries_per_cycle \<le> sent + n")
    case True
    then obtain n m where n: "t = Inr (Pushed n m False False)" "\<not> push_max_entries_per_cycle \<le> sent + n" by blast
    have run: "push_loop (logged T) X client (sent + n) (Some (max_tip tip m)) s1 = (r, s')"
      using 1(4) t n by (subst (asm) push_loop.simps) simp
    obtain new where "quiet ((log @ new1) @ new) s'" "\<forall>b\<in>set new. snd b = 0"
      using 1(1) [OF t [symmetric] n(1) refl _ 1(2) new1(1) run] n by auto
    with new1 show ?thesis by (intro exI [of _ "new1 @ new"]) auto
  next
    case False
    then have "s' = s1"
      using 1(4) t by (subst (asm) push_loop.simps) (auto split: sum.splits turn.splits if_splits)
    with new1 show ?thesis by blast
  qed
qed

subsection \<open>Properties\<close>

text \<open>C17. A push cycle returns whatever the relay answers, and stays within the relay's limits. For every
  transport, however it answers, the push loop ends after at most 100,000 turns of at most two push
  requests (reads of the tails and floor raises apart), and each push request of a turn holds a
  non-empty prefix of the entries that are unacked in the outbox when the turn begins, in the order of
  their numbers, of one capability level, at most 1000 entries, 1.5 MB of base64 and 5 MiB of ciphertext.\<close>

theorem push_cycle_bounded:
  assumes "distinct (map oe_seq (cd_outbox db))"
    and "push_outbox (logged T) X client (db, (w, [])) = (r, s')"
  shows "\<exists>turns. push_turns (logged T) X client (db, (w, [])) turns s' \<and> length turns \<le> 100000 \<and>
    log_of s' = concat (map snd turns) \<and>
    (\<forall>(queue, reqs)\<in>set turns. length reqs \<le> 2 \<and>
       (\<forall>(cs, level)\<in>set reqs. \<exists>es. batch_of queue level es \<and> cs = map (change_of X client) es))"
proof -
  have "same_log [] (db, (w, []))" using assms(1) by (simp add: same_log_def log_of_def)
  from push_loop_turns [OF this _ assms(2) [unfolded push_outbox_def]] obtain turns where
    turns: "push_turns (logged T) X client (db, (w, [])) turns s'" "length turns \<le> push_max_entries_per_cycle"
      "\<forall>(queue, reqs)\<in>set turns. proper_turn X client queue reqs"
    by (auto simp: push_max_entries_per_cycle_def)
  have "log_of s' = concat (map snd turns)" using push_turns_log [OF turns(1)] by (simp add: log_of_def)
  with turns show ?thesis
    by (intro exI [of _ turns]) (simp add: push_max_entries_per_cycle_def proper_turn_def)
qed

text \<open>C15. A relay that predates the capability gate never gets a gated batch. If the relay answers no raise
  with a floor at the level asked for nor with blockers, and this connection has no proof that it
  enforces the gate, a push cycle sends it level-0 batches only, and leaves the proof unset.\<close>

theorem gated_batch_needs_proof:
  assumes "pre_gate T" and "\<not> capability_gate_proven db" and "distinct (map oe_seq (cd_outbox db))"
    and "push_outbox (logged T) X client (db, (w, [])) = (r, s')"
  shows "(\<forall>(cs, level)\<in>set (log_of s'). level = 0) \<and> \<not> capability_gate_proven (fst s')"
proof -
  have "quiet [] (db, (w, []))" using assms(2,3) by (simp add: quiet_def same_log_def log_of_def)
  from push_loop_quiet [OF assms(1) this assms(4) [unfolded push_outbox_def]]
  show ?thesis by (auto simp: quiet_def same_log_def)
qed

subsection \<open>Examples\<close>

text \<open>A network with a given fault on every request, before the relay of the push examples.\<close>

definition sample_setup :: "fault \<Rightarrow> relay_setup" where
  "sample_setup f = \<lparr>rc_crates = toy_crates, rc_auth = sample_auth, rc_ip = ''ip'', rc_env = (\<lambda>_. sample_env), rc_fault = (\<lambda>_. f),
     rc_others = (\<lambda>_. []), rc_clock = int\<rparr>"

definition sample_world :: relay_world where
  "sample_world = \<lparr>rw_relay = push_state0, rw_tick = 0\<rparr>"

definition one_entry :: "int \<Rightarrow> unit client_db" where
  "one_entry level = (fresh_client ())\<lparr>cd_outbox := [\<lparr>oe_seq = 1, oe_ciphertext = [97], oe_schema = 1, oe_engine = 1,
     oe_acked = False, oe_changeset = None, oe_level = level\<rparr>]\<rparr>"

lemma one_entry_outbox: "distinct (map oe_seq (cd_outbox (one_entry level)))" "\<forall>e\<in>set (cd_outbox (one_entry level)). \<not> oe_acked e"
  by (simp_all add: one_entry_def)

lemma push_cycle_bounded_witness:
  "\<exists>s' turns. push_turns (logged (relay_transport (sample_setup Delivered))) toy_crates 7 (one_entry 2, (sample_world, [])) turns s' \<and>
     length turns \<le> 100000 \<and> log_of s' = concat (map snd turns)"
proof -
  obtain r s' where "push_outbox (logged (relay_transport (sample_setup Delivered))) toy_crates 7 (one_entry 2, (sample_world, [])) = (r, s')"
    by (rule act_result)
  with push_cycle_bounded [OF one_entry_outbox(1) this] show ?thesis by blast
qed

text \<open>Behind a network that loses every request the relay shows no gate, and a gated entry stays home.\<close>

lemma gated_batch_needs_proof_witness:
  "\<exists>r s'. push_outbox (logged (relay_transport (sample_setup RequestLost))) toy_crates 7 (one_entry 2, (sample_world, [])) = (r, s') \<and>
     (\<forall>(cs, level)\<in>set (log_of s'). level = 0) \<and> \<not> capability_gate_proven (fst s')"
proof -
  have pre: "pre_gate (relay_transport (sample_setup RequestLost))"
    by (simp add: pre_gate_def relay_transport_def exchange_def sample_setup_def raise_result_def map_send_error_def)
  have unproven: "\<not> capability_gate_proven (one_entry 2)"
    by (simp add: capability_gate_proven_def session_marker_def one_entry_def fresh_client_def)
  obtain r s' where "push_outbox (logged (relay_transport (sample_setup RequestLost))) toy_crates 7 (one_entry 2, (sample_world, [])) = (r, s')"
    by (rule act_result)
  with gated_batch_needs_proof [OF pre unproven one_entry_outbox(1) this] show ?thesis by blast
qed

end
