(* ===== verification/Outbox_Delivery.thy ===== *)
theory Outbox_Delivery
  imports Outbox_Push
begin

text \<open>
  What pushing achieves against a relay that keeps its word. The locale \<open>relay_contract\<close> is that
  word, over any transport: what it answered as pushed it holds from then on, and its completeness
  answer covers all it holds for the asking device. The relay of this repository, behind a network
  that loses requests and answers, keeps it (\<open>relay_of\<close>).
\<close>

interpretation ob: gate_acts "\<lambda>s. cd_outbox (fst s) = entries" T for entries T
  by unfold_locales simp_all

text \<open>The entries a cycle starts with stay in the outbox, unless the counter is reseeded, which resets the
  push watermark so that the next capture walks all rows again.\<close>

definition tracked :: "outbox_entry list \<Rightarrow> ('d, 'w) client \<Rightarrow> bool" where
  "tracked es s \<longleftrightarrow> push_watermark (fst s) = 0 \<or>
     (\<forall>e\<in>set es. \<exists>x\<in>set (cd_outbox (fst s)). oe_seq x = oe_seq e \<and> oe_ciphertext x = oe_ciphertext e)"

lemma watermark_frame [simp]:
  "push_watermark (record_refused_raise r now db) = push_watermark db" "push_watermark (set_session_marker k db) = push_watermark db"
  "push_watermark (mark_capability_gate_proven db) = push_watermark db" "push_watermark (mark_seq_reconciled db) = push_watermark db"
  "push_watermark (clear_raise_backoff db) = push_watermark db" "push_watermark (clear_seq_reconciled db) = push_watermark db"
  "push_watermark (ack_entry q n db) = push_watermark db" "push_watermark (reseed_counter_to_tail n db) = 0"
proof -
  have "push_watermark (set_push_watermark 0 db') = 0" for db' :: "'a client_db" by (simp add: machine_int_defs)
  then show "push_watermark (reseed_counter_to_tail n db) = 0"
    by (simp add: reseed_counter_to_tail_def Let_def push_watermark_def)
qed (simp_all add: push_watermark_def record_refused_raise_def set_session_marker_def mark_capability_gate_proven_def
    mark_seq_reconciled_def clear_raise_backoff_def clear_seq_reconciled_def ack_entry_def Let_def)

interpretation tr: local_acts "tracked es" T for es T
  by unfold_locales (simp_all add: tracked_def)

lemma tracked_acks: "keeps (tracked es) (act_db (apply_acks acks))"
proof (rule keeps_db)
  fix db :: "'a client_db" and w :: 'b
  assume "tracked es (db, w)"
  then show "tracked es (apply_acks acks db, w)"
    unfolding apply_acks_def
  proof (induction acks arbitrary: db)
    case (Cons a acks)
    have "tracked es (ack_entry (pa_client_seq a) (pa_seq a) db, w)"
    proof (cases "push_watermark db = 0")
      case False
      have "\<exists>x\<in>set (cd_outbox (ack_entry (pa_client_seq a) (pa_seq a) db)). oe_seq x = oe_seq e \<and> oe_ciphertext x = oe_ciphertext e"
        if e: "e \<in> set es" for e
      proof -
        obtain x where "x \<in> set (cd_outbox db)" "oe_seq x = oe_seq e" "oe_ciphertext x = oe_ciphertext e"
          using Cons.prems False e by (auto simp: tracked_def)
        then show ?thesis
          by (intro bexI [of _ "if oe_seq x = pa_client_seq a then x\<lparr>oe_acked := True, oe_changeset := Some (pa_seq a)\<rparr> else x"])
            (auto simp: ack_entry_def update_where_def)
      qed
      then show ?thesis by (simp add: tracked_def)
    qed (simp add: tracked_def)
    from Cons.IH [OF this] show ?case by simp
  qed simp
qed

lemma push_outbox_tracked: "keeps (tracked es) (push_outbox T X client)"
  unfolding push_outbox_def
  by (intro keeps_push_loop tr.turn_acts tracked_acks keeps_call) (simp add: tracked_def)

locale relay_contract =
  fixes T :: "'w transport" and X :: crates and good :: "'w \<Rightarrow> bool" and holds :: "'w \<Rightarrow> change_key \<Rightarrow> bytes option"
  assumes push_kept: "good w \<Longrightarrow> t_push T cs level w = (res, w') \<Longrightarrow> good w' \<and> (\<forall>k b. holds w k = Some b \<longrightarrow> holds w' k = Some b)"
    and push_stored: "good w \<Longrightarrow> t_push T cs level w = (Inr resp, w') \<Longrightarrow>
      (\<forall>c\<in>set cs. \<exists>b. b64_dec X (pc_ciphertext c) = Some b \<and> holds w' (key_of c) = Some b) \<and>
      map (\<lambda>a. (pa_client a, pa_client_seq a)) (pr_acks resp) = map key_of cs"
    and raise_kept: "good w \<Longrightarrow> t_raise T level w = (rres, w') \<Longrightarrow> good w' \<and> (\<forall>k b. holds w k = Some b \<longrightarrow> holds w' k = Some b)"
    and completeness_kept: "good w \<Longrightarrow> t_completeness T w = (cres, w') \<Longrightarrow> good w' \<and> (\<forall>k b. holds w k = Some b \<longrightarrow> holds w' k = Some b)"
    and completeness_covers: "good w \<Longrightarrow> t_completeness T w = (Inr tails, w') \<Longrightarrow> holds w' (client, q) = Some b \<Longrightarrow>
      \<exists>m. find (\<lambda>p. fst p = client) (cr_tails tails) = Some (client, m) \<and> q \<le> m"
    and now_kept: "good w \<Longrightarrow> good (snd (t_now T w)) \<and> (\<forall>k b. holds w k = Some b \<longrightarrow> holds (snd (t_now T w)) k = Some b)"
begin

definition delivered :: "uuid \<Rightarrow> ('d, 'w) client \<Rightarrow> bool" where
  "delivered client s \<longleftrightarrow> good (snd s) \<and> distinct (map oe_seq (cd_outbox (fst s))) \<and>
     (\<forall>e\<in>set (cd_outbox (fst s)). oe_acked e \<longrightarrow> holds (snd s) (client, oe_seq e) = Some (oe_ciphertext e))"

text \<open>Beside it: the relay holds these entries of the outbox.\<close>

definition carrying :: "uuid \<Rightarrow> outbox_entry list \<Rightarrow> ('d, 'w) client \<Rightarrow> bool" where
  "carrying client es s \<longleftrightarrow> delivered client s \<and> (\<forall>e\<in>set es. holds (snd s) (client, oe_seq e) = Some (oe_ciphertext e)) \<and>
     (\<forall>e\<in>set (cd_outbox (fst s)). \<forall>x\<in>set es. oe_seq x = oe_seq e \<longrightarrow> oe_ciphertext x = oe_ciphertext e)"

lemma carrying_delivered: "carrying client es s \<Longrightarrow> delivered client s"
  by (simp add: carrying_def)

lemma kept: "good w \<Longrightarrow> good (snd (t_push T cs level w))" "good w \<Longrightarrow> good (snd (t_raise T level w))"
    "good w \<Longrightarrow> good (snd (t_completeness T w))" "good w \<Longrightarrow> good (snd (t_now T w))"
    "good w \<Longrightarrow> holds w k = Some b \<Longrightarrow> holds (snd (t_push T cs level w)) k = Some b"
    "good w \<Longrightarrow> holds w k = Some b \<Longrightarrow> holds (snd (t_raise T level w)) k = Some b"
    "good w \<Longrightarrow> holds w k = Some b \<Longrightarrow> holds (snd (t_completeness T w)) k = Some b"
    "good w \<Longrightarrow> holds w k = Some b \<Longrightarrow> holds (snd (t_now T w)) k = Some b"
  using push_kept [OF _ surjective_pairing, of w cs level] raise_kept [OF _ surjective_pairing, of w level]
    completeness_kept [OF _ surjective_pairing, of w] now_kept [of w] by blast+

sublocale dl: local_acts "delivered client" T for client
  by unfold_locales (auto simp: delivered_def kept intro: distinct_filter_seqs)

sublocale ca: local_acts "carrying client es" T for client es
  by unfold_locales (auto simp: carrying_def delivered_def kept intro: distinct_filter_seqs)

lemma delivered_push [keep_intros]: "keeps (delivered client) (act_call (t_push T cs level))"
  by (rule keeps_call) (simp add: delivered_def kept)

text \<open>The relay holds the entries \<open>es\<close>, which are rows of the outbox or are gone from it.\<close>

lemma apply_acks_entry:
  "e \<in> set (cd_outbox (apply_acks acks db)) \<Longrightarrow> \<exists>e0\<in>set (cd_outbox db). oe_seq e = oe_seq e0 \<and> oe_ciphertext e = oe_ciphertext e0 \<and>
     (oe_acked e \<longrightarrow> oe_acked e0 \<or> oe_seq e0 \<in> pa_client_seq ` set acks)"
proof (induction acks arbitrary: db)
  case Nil
  then show ?case by (auto simp: apply_acks_def)
next
  case (Cons a acks)
  have "apply_acks (a # acks) db = apply_acks acks (ack_entry (pa_client_seq a) (pa_seq a) db)" by (simp add: apply_acks_def)
  then obtain e1 where e1: "e1 \<in> set (cd_outbox (ack_entry (pa_client_seq a) (pa_seq a) db))" "oe_seq e = oe_seq e1"
    "oe_ciphertext e = oe_ciphertext e1" "oe_acked e \<longrightarrow> oe_acked e1 \<or> oe_seq e1 \<in> pa_client_seq ` set acks"
    using Cons by (metis (no_types, lifting))
  then obtain e0 where "e0 \<in> set (cd_outbox db)"
    "e1 = (if oe_seq e0 = pa_client_seq a then e0\<lparr>oe_acked := True, oe_changeset := Some (pa_seq a)\<rparr> else e0)"
    by (auto simp: ack_entry_def update_where_def)
  with e1 show ?case by (intro bexI [of _ e0]) (auto split: if_splits)
qed

lemma carrying_ack:
  assumes "set (map pa_client_seq acks) \<subseteq> set (map oe_seq es)"
  shows "keeps (carrying client es) (act_db (apply_acks acks))"
proof (rule keeps_db)
  fix db :: "'x client_db" and w
  assume c: "carrying client es (db, w)"
  have "holds w (client, oe_seq e) = Some (oe_ciphertext e)" if e: "e \<in> set (cd_outbox (apply_acks acks db))" "oe_acked e" for e
  proof -
    obtain e0 where e0: "e0 \<in> set (cd_outbox db)" "oe_seq e = oe_seq e0" "oe_ciphertext e = oe_ciphertext e0"
      "oe_acked e0 \<or> oe_seq e0 \<in> pa_client_seq ` set acks" using apply_acks_entry [OF e(1)] e(2) by blast
    from e0(4) have "holds w (client, oe_seq e0) = Some (oe_ciphertext e0)"
    proof
      assume "oe_acked e0"
      with c e0(1) show ?thesis by (simp add: carrying_def delivered_def)
    next
      assume "oe_seq e0 \<in> pa_client_seq ` set acks"
      then obtain x where x: "x \<in> set es" "oe_seq x = oe_seq e0" using assms by auto
      then have "holds w (client, oe_seq x) = Some (oe_ciphertext x)" "oe_ciphertext x = oe_ciphertext e0"
        using c e0(1) unfolding carrying_def by auto
      with x(2) show ?thesis by simp
    qed
    then show ?thesis using e0(2,3) by simp
  qed
  moreover have "oe_ciphertext x = oe_ciphertext e"
    if e: "e \<in> set (cd_outbox (apply_acks acks db))" "x \<in> set es" "oe_seq x = oe_seq e" for e x
  proof -
    obtain e0 where "e0 \<in> set (cd_outbox db)" "oe_seq e = oe_seq e0" "oe_ciphertext e = oe_ciphertext e0"
      using apply_acks_entry [OF e(1)] by blast
    with c e(2,3) show ?thesis by (simp add: carrying_def)
  qed
  moreover have "good w" "distinct (map oe_seq (cd_outbox db))" "\<forall>e\<in>set es. holds w (client, oe_seq e) = Some (oe_ciphertext e)"
    using c unfolding carrying_def delivered_def by auto
  ultimately show "carrying client es (apply_acks acks db, w)" unfolding carrying_def delivered_def fst_conv snd_conv
    by (intro conjI ballI impI) (simp_all only: apply_acks_seqs)
qed

lemma delivered_settle:
  assumes "map (\<lambda>a. (pa_client a, pa_client_seq a)) (pr_acks resp) = map key_of (map (change_of X client) es)"
    and "carrying client es s" and "settle_acks T client resp s = (r, s')"
  shows "delivered client s'"
proof -
  have "map pa_client_seq (pr_acks resp) = map snd (map (\<lambda>a. (pa_client a, pa_client_seq a)) (pr_acks resp))" by simp
  also have "\<dots> = map oe_seq es" unfolding assms(1) by (simp add: key_of_def change_of_def)
  finally have "set (map pa_client_seq (pr_acks resp)) \<subseteq> set (map oe_seq es)" by simp
  then have acks: "keeps (carrying client es) (act_db (apply_acks (filter p (pr_acks resp))))" for p
    by (intro carrying_ack) auto
  have "keeps (carrying client es) (settle_acks T client resp)"
    unfolding settle_acks_def Let_def by (auto intro!: keep_intros acks)
  from keepsD [OF this assms(2,3)] show ?thesis by (rule carrying_delivered)
qed

text \<open>A batch that was answered was pushed from some good world.\<close>

lemma push_gated_Inr:
  assumes del: "delivered client s" and run: "push_gated T cs level s = (Inr resp, s1)"
  shows "\<exists>w. good w \<and> t_push T cs level w = (Inr resp, snd s1)"
proof -
  have call: "\<exists>w. good w \<and> t_push T cs l w = (Inr resp, snd s1)"
    if "delivered client x" "act_call (t_push T cs l) x = (Inr resp, s1)" for x l
    using that by (intro exI [of _ "snd x"]) (auto simp: act_call_def delivered_def split: prod.splits)
  show ?thesis
  proof (cases "level = 0")
    case True
    with call [OF del, of level] run show ?thesis by (simp add: push_gated_def)
  next
    case False
    obtain q s2 where q: "require_capability_gate T level s = (q, s2)" by (rule act_result)
    have s2: "delivered client s2" by (rule keepsD [OF dl.require_acts del q])
    obtain res s3 where p: "act_call (t_push T cs level) s2 = (res, s3)" by (rule act_result)
    have s3: "delivered client s3" by (rule keepsD [OF delivered_push s2 p])
    obtain u where u: "q = Inr u" using run q False by (cases q) (simp_all add: push_gated_def act_bind_def)
    show ?thesis
    proof (cases "\<exists>a b c. res = Inl (sync_error.CapabilityFloor a b c)")
      case True
      obtain v s4 where v: "raise_floor_client T level (mark_capability_gate_proven (fst s3), snd s3) = (v, s4)" by (rule act_result)
      have "delivered client (mark_capability_gate_proven (fst s3), snd s3)"
        using s3 dl.proven [of client "fst s3" "snd s3"] by simp
      from keepsD [OF dl.raise_acts this v] have s4: "delivered client s4" .
      have "v = Inr () \<and> act_call (t_push T cs level) s4 = (Inr resp, s1)"
        using run q u p True v False by (auto simp: push_gated_def act_bind_def act_try_def act_db_def split: sum.splits)
      with call [OF s4] show ?thesis by blast
    next
      case nf: False
      then have "(Inr resp, s1) = (res, s3)"
        using run q u p False by (auto simp: push_gated_def act_bind_def act_try_def act_lift_def split: sum.splits sync_error.splits)
      with call [OF s2] p show ?thesis by simp
    qed
  qed
qed

lemma push_turn_delivered:
  assumes base64: "b64_law X"
  shows "keeps (delivered client) (push_turn T X client)"
  unfolding keeps_def
proof (intro allI impI)
  fix s :: "('x, 'w) client"
  assume del: "delivered client s"
  obtain r s' where run: "push_turn T X client s = (r, s')" by (rule act_result)
  have dist: "distinct (map oe_seq (cd_outbox (fst s)))" using del by (simp add: delivered_def)
  have "delivered client s'"
    using dist
  proof (cases rule: push_turn_cases [of s T X client])
    case (stopped r')
    with del run show ?thesis by simp
  next
    case (pushed level es)
    let ?cs = "map (change_of X client) es"
    have sub: "set es \<subseteq> set (cd_outbox (fst s))" using batch_of_set [OF pushed(1)] unacked_set by blast
    obtain res s1 where g: "push_gated T ?cs level s = (res, s1)" by (rule act_result)
    have s1: "delivered client s1" by (rule keepsD [OF dl.gated_acts [OF delivered_push] del g])
    have rest: "push_planned T client ?cs level s = (case res of
       Inr resp \<Rightarrow> settle_acks T client resp s1
     | Inl e \<Rightarrow> (if is_conflict e then act_bind (recover_from_conflict T client) (\<lambda>_. act_return Recovered) else act_fail e) s1)"
      using g by (cases res) (simp_all add: push_planned_def act_try_def)
    show ?thesis
    proof (cases res)
      case (Inl e)
      have "keeps (delivered client) (if is_conflict e then act_bind (recover_from_conflict T client) (\<lambda>_. act_return Recovered) else act_fail e)"
        by (auto intro!: keep_intros)
      from keepsD [OF this s1] run pushed(2) rest Inl show ?thesis by simp
    next
      case (Inr resp)
      obtain w where w: "good w" "t_push T ?cs level w = (Inr resp, snd s1)" using push_gated_Inr [OF del g [unfolded Inr]] by blast
      note stored = push_stored [OF w]
      have "keeps (\<lambda>x. cd_outbox (fst x) = cd_outbox (fst s)) (push_gated T ?cs level)"
        by (rule ob.gated_acts) (auto intro: keeps_call)
      from keepsD [OF this refl g] have ob: "cd_outbox (fst s1) = cd_outbox (fst s)" .
      have "holds (snd s1) (client, oe_seq e) = Some (oe_ciphertext e)" if "e \<in> set es" for e
        using stored that base64 by (auto simp: change_of_def key_of_def b64_law_def)
      moreover have "oe_ciphertext x = oe_ciphertext e" if "e \<in> set (cd_outbox (fst s1))" "x \<in> set es" "oe_seq x = oe_seq e" for e x
        using that sub dist ob by (metis distinct_map inj_on_def subsetD)
      ultimately have "carrying client es s1" using s1 by (simp add: carrying_def)
      from delivered_settle [OF conjunct2 [OF stored] this] run pushed(2) rest Inr show ?thesis by simp
    qed
  qed
  then show "delivered client (snd (push_turn T X client s))" by (simp add: run)
qed

lemma push_outbox_delivered: "b64_law X \<Longrightarrow> keeps (delivered client) (push_outbox T X client)"
  unfolding push_outbox_def by (rule keeps_push_loop [OF push_turn_delivered])

lemma reseeded_unacked: "unacked (reseed_counter_to_tail n db) = []" "unacked (mark_seq_reconciled db) = unacked db"
  by (simp_all add: unacked_def)

lemma settle_outcome:
  assumes "settle_acks T client resp s = (Inr t, s')"
  obtains n m where "t = Pushed n m False (pr_acks resp = [])" | n m b where "t = Pushed n m True b" "unacked (fst s') = []"
proof (cases "filter pa_dedup (pr_acks resp) = []")
  case True
  with assms that(1) show ?thesis by (auto simp: settle_acks_def act_bind_def act_db_def act_return_def Let_def)
next
  case False
  then have ne: "pr_acks resp \<noteq> []" by auto
  let ?s1 = "(apply_acks (filter (\<lambda>a. \<not> pa_dedup a) (pr_acks resp)) (fst s), snd s)"
  obtain q s2 where q: "reconcile_seq_counter T client ?s1 = (q, s2)" by (rule act_result)
  have regressed: "unacked (fst s2) = []" if "q = Inr True"
    using q that by (auto simp: reconcile_seq_counter_def act_bind_def act_get_def act_db_def act_return_def reseeded_unacked
      split: prod.splits sum.splits if_splits)
  show ?thesis
  proof (cases q)
    case (Inl e)
    with assms q False show ?thesis by (simp add: settle_acks_def act_bind_def act_db_def Let_def)
  next
    case (Inr r)
    with assms q False that regressed ne show ?thesis
      by (cases r) (auto simp: settle_acks_def act_bind_def act_db_def act_return_def Let_def)
  qed
qed

lemma turn_outcome:
  assumes del: "delivered client s" and run: "push_turn T X client s = (Inr t, s')"
  shows "unacked (fst s') = [] \<or> (\<exists>n m. t = Pushed n m False False)"
proof -
  have "distinct (map oe_seq (cd_outbox (fst s)))" using del by (simp add: delivered_def)
  then show ?thesis
  proof (cases rule: push_turn_cases [of s T X client])
    case (stopped r)
    with run show ?thesis by (cases t) auto
  next
    case (pushed level es)
    let ?cs = "map (change_of X client) es"
    obtain res s1 where g: "push_gated T ?cs level s = (res, s1)" by (rule act_result)
    show ?thesis
    proof (cases res)
      case (Inl e)
      obtain v s2 where v: "recover_from_conflict T client s1 = (v, s2)" by (rule act_result)
      have "unacked (fst s2) = []" if "v = Inr ()"
        using v that by (auto simp: recover_from_conflict_def act_bind_def act_get_def act_db_def reseeded_unacked
          split: prod.splits sum.splits)
      with Inl v run pushed(2) g show ?thesis
        by (auto simp: push_planned_def act_try_def act_bind_def act_fail_def act_return_def split: if_splits sum.splits)
    next
      case (Inr resp)
      obtain w where w: "good w" "t_push T ?cs level w = (Inr resp, snd s1)" using push_gated_Inr [OF del g [unfolded Inr]] by blast
      have "length (pr_acks resp) = length es"
        using arg_cong [OF conjunct2 [OF push_stored [OF w]], of length] by simp
      moreover have "es \<noteq> []" using pushed(1) unfolding batch_of_def by blast
      ultimately have ne: "pr_acks resp \<noteq> []" by auto
      have "settle_acks T client resp s1 = (Inr t, s')" using run pushed(2) g Inr by (simp add: push_planned_def act_try_def)
      from this ne show ?thesis by (cases rule: settle_outcome) auto
    qed
  qed
qed

lemma push_loop_outcome:
  "T' = T \<Longrightarrow> X' = X \<Longrightarrow> b64_law X \<Longrightarrow> delivered client s \<Longrightarrow> push_loop T' X' client sent tip s = (Inr (n, tip'), s') \<Longrightarrow>
   unacked (fst s') = [] \<or> push_max_entries_per_cycle \<le> n"
proof (induction T' X' client sent tip s rule: push_loop.induct)
  case (1 T' X' client sent tip s)
  obtain t s1 where t: "push_turn T X client s = (t, s1)" by (rule act_result)
  have s1: "delivered client s1" by (rule keepsD [OF push_turn_delivered [OF 1(4)] 1(5) t])
  have run: "push_loop T X client sent tip s = (Inr (n, tip'), s')" using 1(2,3,6) by simp
  show ?case
  proof (cases "\<exists>k m. t = Inr (Pushed k m False False) \<and> \<not> push_max_entries_per_cycle \<le> sent + k")
    case True
    then obtain k m where k: "t = Inr (Pushed k m False False)" "\<not> push_max_entries_per_cycle \<le> sent + k" by blast
    have "push_loop T' X' client (sent + k) (Some (max_tip tip m)) s1 = (Inr (n, tip'), s')"
      using run t k 1(2,3) by (subst (asm) push_loop.simps) simp
    with 1(1) [of t s1 "Pushed k m False False" k m False False] 1(2,3,4) s1 t k show ?thesis by simp
  next
    case False
    obtain y where y: "t = Inr y" using run t by (cases t) (simp_all add: push_loop.simps)
    with run t False have s': "s' = s1" "\<forall>k m. y = Pushed k m False False \<longrightarrow> push_max_entries_per_cycle \<le> n"
      by (subst (asm) push_loop.simps, auto split: turn.splits if_splits)+
    from turn_outcome [OF 1(5) t [unfolded y]] s' show ?thesis by auto
  qed
qed

lemma push_outbox_spec:
  assumes "b64_law X" and del: "delivered client s" and run: "push_outbox T X client s = (r, s')"
  shows "delivered client s' \<and> (\<forall>n tip. r = Inr (n, tip) \<and> n < push_max_entries_per_cycle \<longrightarrow>
     unacked (fst s') = [] \<and> (push_watermark (fst s') = 0 \<or>
       (\<forall>e\<in>set (cd_outbox (fst s)). holds (snd s') (client, oe_seq e) = Some (oe_ciphertext e))))"
proof (intro conjI allI impI)
  show s': "delivered client s'" by (rule keepsD [OF push_outbox_delivered [OF assms(1)] del run])
  fix n tip
  assume r: "r = Inr (n, tip) \<and> n < push_max_entries_per_cycle"
  then show un: "unacked (fst s') = []"
    using push_loop_outcome [OF refl refl assms(1) del, of 0 None n tip s'] run r by (simp add: push_outbox_def)
  have "tracked (cd_outbox (fst s)) s" by (auto simp: tracked_def)
  from keepsD [OF push_outbox_tracked this run] have tr: "tracked (cd_outbox (fst s)) s'" .
  have "holds (snd s') (client, oe_seq x) = Some (oe_ciphertext x)" if "x \<in> set (cd_outbox (fst s'))" for x
  proof -
    have "oe_acked x" using un that unacked_set [of "fst s'"] by auto
    with s' that show ?thesis by (simp add: delivered_def)
  qed
  with tr show "push_watermark (fst s') = 0 \<or>
       (\<forall>e\<in>set (cd_outbox (fst s)). holds (snd s') (client, oe_seq e) = Some (oe_ciphertext e))"
    unfolding tracked_def by metis
qed

text \<open>After a reconciliation no number the relay holds for this device is above the counter.\<close>

lemma reconcile_covers:
  assumes "good (snd s)" and run: "reconcile_seq_counter T client s = (Inr b, s')"
    and held: "holds (snd s') (client, q) = Some c"
    and tail: "\<And>tails w'. t_completeness T (snd s) = (Inr tails, w') \<Longrightarrow> \<forall>p\<in>set (cr_tails tails). in_i64 (snd p)"
  shows "q \<le> client_seq (fst s') \<and> session_marker k_seq_reconciled (fst s')"
proof -
  obtain tails w' where c: "t_completeness T (snd s) = (Inr tails, w')"
    using run by (auto simp: reconcile_seq_counter_def relay_tail_def act_bind_def act_call_def split: prod.splits sum.splits)
  have w: "snd s' = w'"
    using run c by (auto simp: reconcile_seq_counter_def relay_tail_def act_bind_def act_call_def act_get_def act_db_def
      act_return_def split: if_splits)
  obtain m where m: "find (\<lambda>p. fst p = client) (cr_tails tails) = Some (client, m)" "q \<le> m"
    using completeness_covers [OF assms(1) c] held w by blast
  then have "(client, m) \<in> set (cr_tails tails)" by (metis find_Some_iff nth_mem)
  with tail [OF c] have i64: "in_i64 m" by fastforce
  have mark: "session_marker k_seq_reconciled (mark_seq_reconciled db)" for db :: "'x client_db"
    by (simp add: mark_seq_reconciled_def set_session_marker_def session_marker_def)
  have seq: "client_seq (mark_seq_reconciled db) = client_seq db" for db :: "'x client_db"
    by (simp add: client_seq_def mark_seq_reconciled_def set_session_marker_def)
  have re: "client_seq (reseed_counter_to_tail m db) = m" for db :: "'x client_db"
    using i64 by (simp add: reseed_counter_to_tail_def Let_def client_seq_def) (simp add: client_seq_def [symmetric])
  show ?thesis
    using run c m mark by (auto simp: reconcile_seq_counter_def relay_tail_def act_bind_def act_call_def act_get_def act_db_def
      act_return_def seq re split: if_splits)
qed

end

subsection \<open>The relay keeps the contract\<close>

definition relay_good :: "relay_setup \<Rightarrow> relay_world \<Rightarrow> bool" where
  "relay_good R w \<longleftrightarrow> dense (au_tenant (rc_auth R)) (ps_db (rw_relay w))"

definition relay_holds :: "relay_setup \<Rightarrow> relay_world \<Rightarrow> change_key \<Rightarrow> bytes option" where
  "relay_holds R w k = map_option fst (map_of (abs_log (au_tenant (rc_auth R)) (ps_db (rw_relay w))) k)"

lemma spec_push_holds:
  "spec_push log es = Some log' \<Longrightarrow> e \<in> set es \<Longrightarrow> map_option fst (map_of log' (fst e)) = Some (fst (snd e))"
proof (induction log es rule: spec_push.induct)
  case (2 log x es)
  show ?case
  proof (cases "e \<in> set es")
    case True
    with 2 show ?thesis by (auto split: option.splits if_splits)
  next
    case False
    then have e: "e = x" using 2(4) by simp
    show ?thesis
    proof (cases "map_of log (fst x)")
      case None
      then have run: "spec_push (log @ [x]) es = Some log'" using 2(3) by simp
      then obtain new where "log' = (log @ [x]) @ new" using spec_push_extends by blast
      moreover have "map_of (log @ [x]) (fst x) = Some (snd x)"
        using map_of_append_None [OF None, of "[x]"] by (cases x) simp
      ultimately show ?thesis using map_of_append_Some e by fastforce
    next
      case (Some v)
      then have run: "spec_push log es = Some log'" "fst v = fst (snd x)" using 2(3) by (auto split: if_splits)
      then obtain new where "log' = log @ new" using spec_push_extends by blast
      then show ?thesis using Some run(2) e by (simp add: map_of_append_Some)
    qed
  qed
qed simp

lemma push_holds:
  assumes dense: "dense (au_tenant auth) (ps_db s)" and run: "push X env auth ip hdr changes s = (s', res, wk)"
  shows "dense (au_tenant auth) (ps_db s') \<and>
    (\<exists>new. abs_log (au_tenant auth) (ps_db s') = abs_log (au_tenant auth) (ps_db s) @ new) \<and>
    (\<forall>resp. res = Inr resp \<longrightarrow> map (\<lambda>a. (pa_client a, pa_client_seq a)) (pr_acks resp) = map key_of changes \<and>
      (\<forall>c\<in>set changes. \<exists>b. b64_dec X (pc_ciphertext c) = Some b \<and>
         map_option fst (map_of (abs_log (au_tenant auth) (ps_db s')) (key_of c)) = Some b))"
proof (cases res)
  case (Inl e)
  with push_handler [OF dense run] dense show ?thesis by simp
next
  case (Inr resp)
  note h = push_handler [OF dense run, unfolded Inr sum.case(2)]
  show ?thesis
  proof (cases "changes = []")
    case True
    have "ps_db s' = ps_db s"
      using run True by (auto simp: push_def Let_def split: prod.splits if_splits)
    with h Inr True show ?thesis by simp
  next
    case False
    obtain decoded where d: "map (\<lambda>c. b64_dec X (pc_ciphertext c)) changes = map Some decoded"
      "spec_push (abs_log (au_tenant auth) (ps_db s)) (map entry_of (zip changes decoded)) = Some (abs_log (au_tenant auth) (ps_db s'))"
      using h False by blast
    have len: "length decoded = length changes" using arg_cong [OF d(1), of length] by simp
    have "\<exists>b. b64_dec X (pc_ciphertext c) = Some b \<and>
        map_option fst (map_of (abs_log (au_tenant auth) (ps_db s')) (key_of c)) = Some b" if c: "c \<in> set changes" for c
    proof -
      obtain i where i: "i < length changes" "changes ! i = c" using c by (metis in_set_conv_nth)
      have "b64_dec X (pc_ciphertext c) = Some (decoded ! i)"
        using arg_cong [OF d(1), of "\<lambda>xs. xs ! i"] i len by simp
      moreover have "entry_of (c, decoded ! i) \<in> set (map entry_of (zip changes decoded))"
        using i len by (auto simp: set_zip)
      from spec_push_holds [OF d(2) this] have
        "map_option fst (map_of (abs_log (au_tenant auth) (ps_db s')) (key_of c)) = Some (decoded ! i)"
        by (simp add: entry_of_def)
      ultimately show ?thesis by blast
    qed
    with h Inr spec_push_extends [OF d(2)] show ?thesis by auto
  qed
qed

text \<open>The log of a tenant only grows.\<close>

definition relay_ext :: "uuid \<Rightarrow> push_state \<Rightarrow> push_state \<Rightarrow> bool" where
  "relay_ext t s s' \<longleftrightarrow> dense t (ps_db s') \<and> (\<exists>new. abs_log t (ps_db s') = abs_log t (ps_db s) @ new)"

lemma relay_ext_trans: "relay_ext t a b \<Longrightarrow> relay_ext t b c \<Longrightarrow> relay_ext t a c"
  unfolding relay_ext_def by force

lemma relay_extD:
  assumes "relay_ext (au_tenant (rc_auth R)) (rw_relay w) (rw_relay w')"
  shows "relay_good R w' \<and> (\<forall>k b. relay_holds R w k = Some b \<longrightarrow> relay_holds R w' k = Some b)"
  using assms by (auto simp: relay_ext_def relay_good_def relay_holds_def map_of_append_Some)

lemma after_others_ext:
  assumes "relay_good R w"
  shows "relay_ext (au_tenant (rc_auth R)) (rw_relay w) (after_others R w)"
proof -
  let ?t = "au_tenant (rc_auth R)"
  let ?step = "\<lambda>(auth, hdr, changes) s.
       fst (push (rc_crates R) (rc_env R (rw_tick w)) (auth\<lparr>au_tenant := ?t\<rparr>) (rc_ip R) hdr changes s)"
  have step: "relay_ext ?t s (?step x s)" if "dense ?t (ps_db s)" for x s
  proof -
    obtain auth hdr changes where x: "x = (auth, hdr, changes)" by (cases x)
    obtain s' res wk where p: "push (rc_crates R) (rc_env R (rw_tick w)) (auth\<lparr>au_tenant := ?t\<rparr>) (rc_ip R) hdr changes s = (s', res, wk)"
      by (metis surj_pair)
    with push_holds [OF _ p] that x show ?thesis by (simp add: relay_ext_def)
  qed
  have "dense ?t (ps_db s) \<Longrightarrow> relay_ext ?t s (fold ?step xs s)" for xs s
  proof (induction xs arbitrary: s)
    case (Cons x xs)
    note s1 = step [OF Cons.prems, of x]
    then have "relay_ext ?t (?step x s) (fold ?step xs (?step x s))" by (intro Cons.IH) (simp add: relay_ext_def)
    with relay_ext_trans [OF s1] show ?case by simp
  qed (simp add: relay_ext_def)
  from this [of "rw_relay w" "rc_others R (rw_tick w)"] assms show ?thesis by (simp add: after_others_def relay_good_def)
qed

lemma exchange_cases:
  assumes "exchange R handler w = (reply, w')"
  obtains (lost) f where "reply = SendFailed f" "rw_relay w' = after_others R w"
  | (handled) res env where "handler env (after_others R w) = (rw_relay w', res)" "reply = answer_of res \<or> (\<exists>f. reply = SendFailed f)"
proof (cases "rc_fault R (rw_tick w)")
  case RequestLost
  with assms lost show ?thesis by (auto simp: exchange_def tick_def)
next
  case Delivered
  with assms handled show ?thesis by (auto simp: exchange_def tick_def split: prod.splits)
next
  case AnswerLost
  with assms handled show ?thesis by (auto simp: exchange_def tick_def split: prod.splits)
qed

lemma exchange_ext:
  assumes good: "relay_good R w" and ex: "exchange R handler w = (reply, w')"
    and handler: "\<And>env s s' res. dense (au_tenant (rc_auth R)) (ps_db s) \<Longrightarrow> handler env s = (s', res) \<Longrightarrow>
      relay_ext (au_tenant (rc_auth R)) s s'"
  shows "relay_ext (au_tenant (rc_auth R)) (rw_relay w) (rw_relay w')"
proof -
  note o = after_others_ext [OF good]
  show ?thesis
    using ex
  proof (cases rule: exchange_cases)
    case (lost f)
    with o show ?thesis by simp
  next
    case (handled res env)
    have "dense (au_tenant (rc_auth R)) (ps_db (after_others R w))" using o by (simp add: relay_ext_def)
    from handler [OF this handled(1)] show ?thesis by (rule relay_ext_trans [OF o])
  qed
qed

lemma gated_result_Inr: "gated_result level (answer_of res) = Inr x \<Longrightarrow> res = Inr x"
proof (cases res)
  case (Inl e)
  assume "gated_result level (answer_of res) = Inr x"
  with Inl show ?thesis
    by (cases e) (auto simp: answer_of_def gated_result_def check_capability_def check_auth_def classify_status_def
      read_json_def capability_refusal_def result_simps split: option.splits if_splits)
qed (auto simp: answer_of_def gated_result_def check_capability_def check_auth_def classify_status_def read_json_def)

lemma completeness_result_Inr: "completeness_result (answer_of (Inr y)) = Inr x \<Longrightarrow> y = x"
  by (simp add: answer_of_def completeness_result_def check_auth_def classify_status_def read_json_def)

lemma failed_results [simp]: "gated_result l (SendFailed f) = Inl (map_send_error f)"
    "raise_result l (SendFailed f) = Inl (map_send_error f)" "completeness_result (SendFailed f) = Inl (map_send_error f)"
  by (simp_all add: gated_result_def raise_result_def completeness_result_def)

lemma same_log_db:
  assumes "changesets d' = changesets d" and "seqs d' = seqs d"
  shows "dense t d' = dense t d" "abs_log t d' = abs_log t d"
proof -
  have l: "tenant_log t d' = tenant_log t d" and q: "seq_of t d' = seq_of t d" using assms by (simp_all add: tenant_log_def seq_of_def)
  show "dense t d' = dense t d" unfolding dense_def l q ..
  show "abs_log t d' = abs_log t d" unfolding abs_log_def l ..
qed

lemma raise_floor_frame:
  assumes "run_tx_join (raise_floor now auth h level) d = (d', res)"
  shows "changesets d' = changesets d \<and> seqs d' = seqs d"
proof (cases "raise_floor now auth h level d")
  case (Inl e)
  with assms show ?thesis by (simp add: run_tx_join_def)
next
  case (Inr y)
  obtain x d1 where y: "y = (x, d1)" by fastforce
  from raise_floor_Inr [OF Inr [unfolded y]] obtain lvl where
    "let t = au_tenant auth; d2 = seen_db now auth lvl d; bs = blocker_rows now t level d2 in
     if level \<le> floor_level t d then d1 = d2 \<and> x = Inr \<lparr>required_sync_capability = floor_level t d, requested_sync_capability = requested_level t d\<rparr>
     else if bs = [] then d1 = set_required t level d2 \<and> x = Inr \<lparr>required_sync_capability = level, requested_sync_capability = requested_level t d\<rparr>
     else d1 = set_requested t level d2 \<and> x = Inl (app_error.CapabilityBlocked \<lparr>bl_required = floor_level t d,
         bl_requested = max (requested_level t d) level, bl_blockers = map blocker_of bs\<rparr>)" by blast
  then have "changesets d1 = changesets d \<and> seqs d1 = seqs d"
    by (auto simp: Let_def seen_db_def set_required_def set_requested_def split: if_splits)
  with assms Inr y show ?thesis by (simp add: run_tx_join_def)
qed

lemma client_tails_find:
  assumes "r \<in> set rows"
  shows "\<exists>m. find (\<lambda>p. fst p = cs_client r) (client_tails rows) = Some (cs_client r, m) \<and> cs_client_seq r \<le> m"
proof -
  let ?M = "\<lambda>c. Max (set (map cs_client_seq (filter (\<lambda>r. cs_client r = c) rows)))"
  have f: "find (\<lambda>p. fst p = c) (map (\<lambda>c. (c, ?M c)) cs) = Some (c, ?M c)" if "c \<in> set cs" for c cs
    using that by (induction cs) auto
  have "cs_client_seq r \<le> ?M (cs_client r)" using assms by (intro Max_ge) auto
  moreover have "cs_client r \<in> set (sort (remdups (map cs_client rows)))" using assms by simp
  ultimately show ?thesis unfolding client_tails_def using f by blast
qed

lemma relay_holds_row:
  "relay_holds R w k = Some b \<Longrightarrow> \<exists>r\<in>set (tenant_log (au_tenant (rc_auth R)) (ps_db (rw_relay w))). row_key r = k"
  by (auto simp: relay_holds_def abs_log_def entry_row_def dest!: map_of_SomeD)

lemma relay_same:
  assumes "changesets (ps_db (rw_relay w')) = changesets (ps_db (rw_relay w))" and "seqs (ps_db (rw_relay w')) = seqs (ps_db (rw_relay w))"
  shows "relay_good R w' = relay_good R w" "relay_holds R w' = relay_holds R w"
  using same_log_db [OF assms] by (simp_all add: relay_good_def relay_holds_def fun_eq_iff)

lemma relay_push_step:
  assumes good: "relay_good R w" and run: "t_push (relay_transport R) cs level w = (res, w')"
  shows "relay_ext (au_tenant (rc_auth R)) (rw_relay w) (rw_relay w') \<and>
    (\<forall>resp. res = Inr resp \<longrightarrow>
      (\<forall>c\<in>set cs. \<exists>b. b64_dec (rc_crates R) (pc_ciphertext c) = Some b \<and> relay_holds R w' (key_of c) = Some b) \<and>
      map (\<lambda>a. (pa_client a, pa_client_seq a)) (pr_acks resp) = map key_of cs)"
proof -
  obtain reply where ex: "exchange R (relay_push R cs level) w = (reply, w')" and res: "res = gated_result level reply"
    using run by (cases "exchange R (relay_push R cs level) w") (simp add: relay_transport_def)
  have "relay_ext (au_tenant (rc_auth R)) (rw_relay w) (rw_relay w')"
  proof (rule exchange_ext [OF good ex])
    fix env s s' ans
    assume d: "dense (au_tenant (rc_auth R)) (ps_db s)" and h: "relay_push R cs level env s = (s', ans)"
    then obtain wk where "push (rc_crates R) env (rc_auth R) (rc_ip R) (Some (Some (show_int level))) cs s = (s', ans, wk)"
      by (auto simp: relay_push_def split: prod.splits)
    from push_holds [OF d this] show "relay_ext (au_tenant (rc_auth R)) s s'" by (simp add: relay_ext_def)
  qed
  moreover have "(\<forall>c\<in>set cs. \<exists>b. b64_dec (rc_crates R) (pc_ciphertext c) = Some b \<and> relay_holds R w' (key_of c) = Some b) \<and>
      map (\<lambda>a. (pa_client a, pa_client_seq a)) (pr_acks resp) = map key_of cs" if resp: "res = Inr resp" for resp
    using ex
  proof (cases rule: exchange_cases)
    case (lost f)
    with res resp show ?thesis by simp
  next
    case (handled ans env)
    obtain wk where p: "push (rc_crates R) env (rc_auth R) (rc_ip R) (Some (Some (show_int level))) cs (after_others R w) = (rw_relay w', ans, wk)"
      using handled(1) by (auto simp: relay_push_def split: prod.splits)
    have d: "dense (au_tenant (rc_auth R)) (ps_db (after_others R w))" using after_others_ext [OF good] by (simp add: relay_ext_def)
    have "ans = Inr resp"
    proof (cases "reply = answer_of ans")
      case True
      with res resp have "gated_result level (answer_of ans) = Inr resp" by simp
      then show ?thesis by (rule gated_result_Inr)
    next
      case False
      then obtain f where "reply = SendFailed f" using handled(2) by blast
      with res resp show ?thesis by simp
    qed
    with push_holds [OF d p] show ?thesis by (simp add: relay_holds_def)
  qed
  ultimately show ?thesis by blast
qed

lemma relay_raise_step:
  assumes good: "relay_good R w" and run: "t_raise (relay_transport R) level w = (res, w')"
  shows "relay_ext (au_tenant (rc_auth R)) (rw_relay w) (rw_relay w')"
proof -
  let ?h = "\<lambda>env. in_db_join (raise_floor (pe_now env) (rc_auth R) own_level level)"
  obtain reply where ex: "exchange R ?h w = (reply, w')"
    using run by (cases "exchange R ?h w") (simp add: relay_transport_def)
  show ?thesis
  proof (rule exchange_ext [OF good ex])
    fix env s s' ans
    assume d: "dense (au_tenant (rc_auth R)) (ps_db s)" and h: "?h env s = (s', ans)"
    then obtain d' where "run_tx_join (raise_floor (pe_now env) (rc_auth R) own_level level) (ps_db s) = (d', ans)" "s' = s\<lparr>ps_db := d'\<rparr>"
      by (auto simp: in_db_join_def split: prod.splits)
    note h = this
    have same: "changesets d' = changesets (ps_db s)" "seqs d' = seqs (ps_db s)" using raise_floor_frame [OF h(1)] by simp_all
    show "relay_ext (au_tenant (rc_auth R)) s s'"
      using d same_log_db [OF same, of "au_tenant (rc_auth R)"] unfolding relay_ext_def h(2) by simp
  qed
qed

lemma relay_completeness_step:
  assumes good: "relay_good R w" and run: "t_completeness (relay_transport R) w = (res, w')"
  shows "relay_ext (au_tenant (rc_auth R)) (rw_relay w) (rw_relay w') \<and>
    (\<forall>tails. res = Inr tails \<longrightarrow> tails = completeness (rc_auth R) (ps_db (rw_relay w')))"
proof -
  let ?h = "\<lambda>env s. (s, Inr (completeness (rc_auth R) (ps_db s)) :: app_error + completeness_response)"
  obtain reply where ex: "exchange R ?h w = (reply, w')" and res: "res = completeness_result reply"
    using run by (cases "exchange R ?h w") (simp add: relay_transport_def)
  have "relay_ext (au_tenant (rc_auth R)) (rw_relay w) (rw_relay w')"
    by (rule exchange_ext [OF good ex]) (simp add: relay_ext_def)
  moreover have "tails = completeness (rc_auth R) (ps_db (rw_relay w'))" if "res = Inr tails" for tails
    using ex
  proof (cases rule: exchange_cases)
    case (lost f)
    with res that show ?thesis by simp
  next
    case (handled ans env)
    with res that completeness_result_Inr show ?thesis by fastforce
  qed
  ultimately show ?thesis by blast
qed

interpretation relay_of: relay_contract "relay_transport R" "rc_crates R" "relay_good R" "relay_holds R" for R
proof unfold_locales
  fix w cs level res w'
  assume "relay_good R w" "t_push (relay_transport R) cs level w = (res, w')"
  from relay_extD [OF conjunct1 [OF relay_push_step [OF this]]]
  show "relay_good R w' \<and> (\<forall>k b. relay_holds R w k = Some b \<longrightarrow> relay_holds R w' k = Some b)" .
next
  fix w cs level resp w'
  assume "relay_good R w" "t_push (relay_transport R) cs level w = (Inr resp, w')"
  from relay_push_step [OF this] show "(\<forall>c\<in>set cs. \<exists>b. b64_dec (rc_crates R) (pc_ciphertext c) = Some b \<and> relay_holds R w' (key_of c) = Some b) \<and>
      map (\<lambda>a. (pa_client a, pa_client_seq a)) (pr_acks resp) = map key_of cs" by blast
next
  fix w level rres w'
  assume "relay_good R w" "t_raise (relay_transport R) level w = (rres, w')"
  from relay_extD [OF relay_raise_step [OF this]]
  show "relay_good R w' \<and> (\<forall>k b. relay_holds R w k = Some b \<longrightarrow> relay_holds R w' k = Some b)" .
next
  fix w cres w'
  assume "relay_good R w" "t_completeness (relay_transport R) w = (cres, w')"
  from relay_extD [OF conjunct1 [OF relay_completeness_step [OF this]]]
  show "relay_good R w' \<and> (\<forall>k b. relay_holds R w k = Some b \<longrightarrow> relay_holds R w' k = Some b)" .
next
  fix w tails w' client q b
  assume "relay_good R w" "t_completeness (relay_transport R) w = (Inr tails, w')" and held: "relay_holds R w' (client, q) = Some b"
  then have t: "tails = completeness (rc_auth R) (ps_db (rw_relay w'))" using relay_completeness_step by blast
  obtain r where r: "r \<in> set (tenant_log (au_tenant (rc_auth R)) (ps_db (rw_relay w')))" "row_key r = (client, q)"
    using relay_holds_row [OF held] by blast
  from client_tails_find [OF r(1)] r(2) show "\<exists>m. find (\<lambda>p. fst p = client) (cr_tails tails) = Some (client, m) \<and> q \<le> m"
    by (simp add: t completeness_def Let_def row_key_def)
next
  fix w
  assume "relay_good R w"
  then show "relay_good R (snd (t_now (relay_transport R) w)) \<and> (\<forall>k b. relay_holds R w k = Some b \<longrightarrow>
      relay_holds R (snd (t_now (relay_transport R) w)) k = Some b)"
    using relay_same [of "tick w" w R] by (simp add: relay_transport_def tick_def)
qed

subsection \<open>Properties\<close>

text \<open>C5. Pushing loses nothing. Against the relay of this repository, over a network that loses any
  requests and answers while other devices push, an entry of the outbox is acknowledged only when the relay holds exactly its
  ciphertext under this device and number, through every retry, conflict and repair; and a cycle that
  ends without an error below its cap of 100,000 entries leaves nothing unacknowledged: every
  entry it started with is at the relay, or the counter was reseeded and the push watermark reset, so
  that the next capture walks all rows again.\<close>

theorem push_outbox_delivers:
  assumes "b64_law (rc_crates R)" and "relay_good R w" and "distinct (map oe_seq (cd_outbox db))"
    and "\<forall>e\<in>set (cd_outbox db). oe_acked e \<longrightarrow> relay_holds R w (client, oe_seq e) = Some (oe_ciphertext e)"
    and "push_outbox (relay_transport R) (rc_crates R) client (db, w) = (r, (db', w'))"
  shows "(\<forall>e\<in>set (cd_outbox db'). oe_acked e \<longrightarrow> relay_holds R w' (client, oe_seq e) = Some (oe_ciphertext e)) \<and>
    (\<forall>n tip. r = Inr (n, tip) \<and> n < 100000 \<longrightarrow> unacked db' = [] \<and> (push_watermark db' = 0 \<or>
       (\<forall>e\<in>set (cd_outbox db). relay_holds R w' (client, oe_seq e) = Some (oe_ciphertext e))))"
proof -
  have "relay_of.delivered R client (db, w)" using assms(2-4) by (simp add: relay_of.delivered_def)
  from relay_of.push_outbox_spec [OF assms(1) this assms(5)] show ?thesis
    by (simp add: relay_of.delivered_def push_max_entries_per_cycle_def)
qed

text \<open>One entry, pushed to the relay of the push examples through a network that loses every answer.\<close>

lemma push_outbox_delivers_witness:
  "\<exists>r db' w'. push_outbox (relay_transport (sample_setup AnswerLost)) toy_crates 7 (one_entry 0, sample_world) = (r, (db', w')) \<and>
     (\<forall>e\<in>set (cd_outbox db'). oe_acked e \<longrightarrow>
       relay_holds (sample_setup AnswerLost) w' (7, oe_seq e) = Some (oe_ciphertext e))"
proof -
  have law: "b64_law (rc_crates (sample_setup AnswerLost))" by (simp add: sample_setup_def toy_b64)
  have good: "relay_good (sample_setup AnswerLost) sample_world"
    by (simp add: relay_good_def sample_setup_def sample_world_def push_state0_def sample_auth_def dense_push_db)
  have acked: "\<forall>e\<in>set (cd_outbox (one_entry 0)). oe_acked e \<longrightarrow>
      relay_holds (sample_setup AnswerLost) sample_world (7, oe_seq e) = Some (oe_ciphertext e)"
    using one_entry_outbox(2) by simp
  obtain r db' w' where "push_outbox (relay_transport (sample_setup AnswerLost)) (rc_crates (sample_setup AnswerLost)) 7
      (one_entry 0, sample_world) = (r, (db', w'))" by (metis surj_pair)
  from push_outbox_delivers [OF law good one_entry_outbox(1) acked this] this show ?thesis
    by (simp add: sample_setup_def)
qed

end
