(* ===== verification/Drain.thy ===== *)
theory Drain
  imports Outbox_Delivery
begin

text \<open>
  The drain: the pull half and the whole cycle of \<open>crates/yapstack-sync/src/outbox.rs\<close>. A change that
  cannot be decrypted or decoded is kept in the crypto quarantine and passed; the watermark moves
  once per page. The pull loop ends when the relay says so, so it runs on fuel: one unit per page.
  A result \<open>None\<close> means that the call did not return (fuel, or a panic of the cipher).

  The yields and pauses between merges, the progress callback and the log lines are left out.
\<close>

subsection \<open>The crypto quarantine\<close>

definition pull_limit :: int where
  "pull_limit = 500"

definition decode_pulled_changeset :: "capture_env \<Rightarrow> pulled_change \<Rightarrow> (string + change_row list) option" where
  "decode_pulled_changeset E pc = (case b64_dec (ce_crates E) (pu_ciphertext pc) of
       None \<Rightarrow> Some (Inl ''ciphertext base64'')
     | Some blob \<Rightarrow> (case changeset_decrypt (ce_crates E) (ce_aead E) (ce_cipher E) (pu_client pc) (pu_client_seq pc) blob of
         None \<Rightarrow> None
       | Some (Inl _) \<Rightarrow> Some (Inl ''decrypt/authenticate'')
       | Some (Inr pt) \<Rightarrow> Some (case decode_changeset pt of Inl _ \<Rightarrow> Inl ''changeset decode'' | Inr rows \<Rightarrow> Inr rows)))"

definition quarantine_undecryptable :: "pulled_change \<Rightarrow> string \<Rightarrow> 'd client_db \<Rightarrow> 'd client_db" where
  "quarantine_undecryptable pc detail db =
     (if pu_seq pc \<in> ur_seq ` set (cd_unreadable db) then db
      else db\<lparr>cd_unreadable := cd_unreadable db @
        [\<lparr>ur_seq = pu_seq pc, ur_author = show_uuid (pu_client pc), ur_client_seq = pu_client_seq pc,
          ur_ciphertext = pu_ciphertext pc, ur_schema = pu_schema pc, ur_engine = pu_engine pc, ur_detail = detail\<rparr>]\<rparr>)"

definition crypto_quarantine_pending :: "'d client_db \<Rightarrow> nat" where
  "crypto_quarantine_pending db = length (cd_unreadable db)"

record quarantine_retry_report =
  qr_recovered :: nat
  qr_still_failing :: nat

definition pulled_of_row :: "uuid \<Rightarrow> unreadable_row \<Rightarrow> pulled_change" where
  "pulled_of_row author u = \<lparr>pu_seq = ur_seq u, pu_client = author, pu_client_seq = ur_client_seq u,
     pu_ciphertext = ur_ciphertext u, pu_schema = ur_schema u, pu_engine = ur_engine u\<rparr>"

definition delete_unreadable :: "int \<Rightarrow> 'd client_db \<Rightarrow> 'd client_db" where
  "delete_unreadable q db = db\<lparr>cd_unreadable := delete_where (\<lambda>u. ur_seq u = q) (cd_unreadable db)\<rparr>"

fun retry_loop :: "'d crsql \<Rightarrow> capture_env \<Rightarrow> (string \<Rightarrow> uuid option) \<Rightarrow> unreadable_row list \<Rightarrow> quarantine_retry_report
    \<Rightarrow> 'd client_db \<Rightarrow> ((sync_error + quarantine_retry_report) \<times> 'd client_db) option" where
  "retry_loop C E parse_uuid [] rep db = Some (Inr rep, db)"
| "retry_loop C E parse_uuid (u # us) rep db =
     (let failing = rep\<lparr>qr_still_failing := qr_still_failing rep + 1\<rparr> in
      case parse_uuid (ur_author u) of
        None \<Rightarrow> retry_loop C E parse_uuid us failing db
      | Some author \<Rightarrow> (case decode_pulled_changeset E (pulled_of_row author u) of
          None \<Rightarrow> None
        | Some (Inl _) \<Rightarrow> retry_loop C E parse_uuid us failing db
        | Some (Inr rows) \<Rightarrow> (case merge_changeset C rows db of
            Inl e \<Rightarrow> Some (Inl e, db)
          | Inr (_, db') \<Rightarrow> retry_loop C E parse_uuid us (rep\<lparr>qr_recovered := qr_recovered rep + 1\<rparr>)
              (delete_unreadable (ur_seq u) db'))))"

definition retry_crypto_quarantine :: "'d crsql \<Rightarrow> capture_env \<Rightarrow> (string \<Rightarrow> uuid option) \<Rightarrow> 'd client_db
    \<Rightarrow> ((sync_error + quarantine_retry_report) \<times> 'd client_db) option" where
  "retry_crypto_quarantine C E parse_uuid db =
     retry_loop C E parse_uuid (sort_key ur_seq (cd_unreadable db)) \<lparr>qr_recovered = 0, qr_still_failing = 0\<rparr> db"

subsection \<open>Pulling\<close>

record drain_report =
  dr_pushed :: nat
  dr_applied :: nat
  dr_quarantined :: nat
  dr_replayed :: nat
  dr_replay_waiting :: nat
  dr_replay_failed :: nat
  dr_crypto_quarantined :: nat
  dr_push_error :: "sync_error option"
  dr_pull_error :: "sync_error option"
  dr_pull_watermark :: int
  dr_server_max :: "int option"
  dr_relay_capability :: "capability_levels option"

definition outbox_pending :: "'d client_db \<Rightarrow> nat \<times> nat" where
  "outbox_pending db = (let es = filter (\<lambda>e. \<not> oe_acked e) (cd_outbox db)
     in (length es, sum_list (map (\<lambda>e. length (oe_ciphertext e)) es)))"

definition empty_report :: drain_report where
  "empty_report = \<lparr>dr_pushed = 0, dr_applied = 0, dr_quarantined = 0, dr_replayed = 0, dr_replay_waiting = 0,
     dr_replay_failed = 0, dr_crypto_quarantined = 0, dr_push_error = None, dr_pull_error = None,
     dr_pull_watermark = 0, dr_server_max = None, dr_relay_capability = None\<rparr>"

definition has_unauthorized :: "drain_report \<Rightarrow> bool" where
  "has_unauthorized rep \<longleftrightarrow> dr_push_error rep = Some RelayUnauthorized \<or> dr_pull_error rep = Some RelayUnauthorized"

definition first_transport_error :: "drain_report \<Rightarrow> sync_error option" where
  "first_transport_error rep = (case dr_push_error rep of Some e \<Rightarrow> Some e | None \<Rightarrow> dr_pull_error rep)"

definition fold_server_max :: "int option \<Rightarrow> drain_report \<Rightarrow> drain_report" where
  "fold_server_max observed rep = (case observed of
       None \<Rightarrow> rep | Some v \<Rightarrow> rep\<lparr>dr_server_max := Some (max_tip (dr_server_max rep) v)\<rparr>)"

fun pull_page :: "'d crsql \<Rightarrow> capture_env \<Rightarrow> pulled_change list \<Rightarrow> drain_report \<Rightarrow> 'd client_db
    \<Rightarrow> ((sync_error + unit) \<times> drain_report \<times> 'd client_db) option" where
  "pull_page C E [] rep db = Some (Inr (), rep, db)"
| "pull_page C E (pc # pcs) rep db = (case decode_pulled_changeset E pc of
       None \<Rightarrow> None
     | Some (Inl detail) \<Rightarrow> pull_page C E pcs (rep\<lparr>dr_crypto_quarantined := dr_crypto_quarantined rep + 1\<rparr>)
         (quarantine_undecryptable pc detail db)
     | Some (Inr rows) \<Rightarrow> (case merge_changeset C rows db of
         Inl e \<Rightarrow> Some (Inl e, rep, db)
       | Inr ((a, q), db') \<Rightarrow> pull_page C E pcs
           (rep\<lparr>dr_applied := dr_applied rep + a, dr_quarantined := dr_quarantined rep + q\<rparr>) db'))"

definition page_levels :: "pull_response \<Rightarrow> capability_levels" where
  "page_levels resp = \<lparr>required_sync_capability = pl_required resp, requested_sync_capability = pl_requested resp\<rparr>"

fun pull_direction :: "'d crsql \<Rightarrow> capture_env \<Rightarrow> 'w transport \<Rightarrow> nat \<Rightarrow> drain_report \<Rightarrow> ('d, 'w) client
    \<Rightarrow> ((sync_error + unit) \<times> drain_report \<times> ('d, 'w) client) option" where
  "pull_direction C E T 0 rep s = None"
| "pull_direction C E T (Suc fuel) rep s =
     (case t_pull T (pull_watermark (fst s)) pull_limit (snd s) of
        (Inl e, w) \<Rightarrow> Some (Inl e, rep, (fst s, w))
      | (Inr resp, w) \<Rightarrow>
          (let rep1 = rep\<lparr>dr_relay_capability := Some (page_levels resp)\<rparr> in
           if pl_changes resp = [] then Some (Inr (), rep1, (fst s, w))
           else (case pull_page C E (pl_changes resp) rep1 (fst s) of
               None \<Rightarrow> None
             | Some (Inl e, rep2, db) \<Rightarrow> Some (Inl e, rep2, (db, w))
             | Some (Inr _, rep2, db) \<Rightarrow>
                 (let db' = set_pull_watermark (pl_next resp) db in
                  if \<not> pl_has_more resp then Some (Inr (), rep2, (db', w))
                  else pull_direction C E T fuel rep2 (db', w)))))"

subsection \<open>The cycle\<close>

definition push_direction :: "'d crsql \<Rightarrow> capture_env \<Rightarrow> 'w transport \<Rightarrow> ('d, 'w) client
    \<Rightarrow> ((sync_error + nat \<times> int option) \<times> ('d, 'w) client) option" where
  "push_direction C E T s =
     (case act_bind (act_get seq_reconciled) (\<lambda>r. if \<not> r
          then act_bind (reconcile_seq_counter T (ce_client E)) (\<lambda>_. act_return ()) else act_return ()) s of
        (Inl e, s1) \<Rightarrow> Some (Inl e, s1)
      | (Inr _, s1) \<Rightarrow> (case enqueue_local C E (fst s1) of
          (None, _) \<Rightarrow> None
        | (Some (Inl e), db) \<Rightarrow> Some (Inl e, (db, snd s1))
        | (Some (Inr _), db) \<Rightarrow> Some (push_outbox T (ce_crates E) (ce_client E) (db, snd s1))))"

text \<open>What the cycle learns about the relay's gate.\<close>

definition settle_gate :: "drain_report \<Rightarrow> 'd client_db \<Rightarrow> 'd client_db" where
  "settle_gate rep db =
     (let db1 = (case dr_pull_error rep of Some (sync_error.UpdateRequired _ _ _) \<Rightarrow> mark_capability_gate_proven db | _ \<Rightarrow> db);
          db2 = (if list_ex is_network (List.map_filter id [dr_push_error rep, dr_pull_error rep])
                 then forget_capability_gate db1 else db1)
      in case dr_relay_capability rep of Some levels \<Rightarrow> note_relay_capability levels db2 | None \<Rightarrow> db2)"

definition drain_once :: "'d crsql \<Rightarrow> capture_env \<Rightarrow> 'w transport \<Rightarrow> nat \<Rightarrow> ('d, 'w) client
    \<Rightarrow> ((sync_error + drain_report) \<times> ('d, 'w) client) option" where
  "drain_once C E T fuel s =
     (case push_direction C E T s of
        None \<Rightarrow> None
      | Some (pushed, s1) \<Rightarrow>
          (let rep1 = (case pushed of
               Inr (n, tip) \<Rightarrow> fold_server_max tip (empty_report\<lparr>dr_pushed := n\<rparr>)
             | Inl e \<Rightarrow> empty_report\<lparr>dr_push_error := Some e\<rparr>)
           in case pull_direction C E T fuel rep1 s1 of
                None \<Rightarrow> None
              | Some (pulled, rep2, s2) \<Rightarrow>
                  (let rep3 = (case pulled of Inl e \<Rightarrow> rep2\<lparr>dr_pull_error := Some e\<rparr> | Inr _ \<Rightarrow> rep2);
                       db3 = settle_gate rep3 (fst s2);
                       rep4 = rep3\<lparr>dr_pull_watermark := pull_watermark db3\<rparr>;
                       rep5 = (if dr_pull_error rep4 = None then fold_server_max (Some (dr_pull_watermark rep4)) rep4 else rep4)
                   in case replay_pending C db3 of
                        (Inl e, db4) \<Rightarrow> Some (Inl e, (db4, snd s2))
                      | (Inr replay, db4) \<Rightarrow> Some (Inr (rep5\<lparr>dr_replayed := rp_replayed replay, dr_replay_waiting := rp_waiting replay,
                          dr_replay_failed := rp_failed replay + rp_blocked replay\<rparr>), (db4, snd s2)))))"

subsection \<open>Another account\<close>

text \<open>\<open>reconcile_account_binding\<close> of \<open>apps/desktop/src-tauri/src/sync.rs\<close> runs before the drain starts: when the
  database was last bound to another tenant, both watermarks go back to zero and the outbox is emptied.
  The crypto quarantine is not touched.\<close>

definition k_bound_tenant :: string where
  "k_bound_tenant = ''bound_tenant_id''"

definition reset_sync_state_for_new_binding :: "'d client_db \<Rightarrow> 'd client_db" where
  "reset_sync_state_for_new_binding db = (set_push_watermark 0 (set_pull_watermark 0 db))\<lparr>cd_outbox := []\<rparr>"

definition reconcile_account_binding :: "uuid \<Rightarrow> 'd client_db \<Rightarrow> 'd client_db" where
  "reconcile_account_binding session_tenant db =
     (if get_str k_bound_tenant db \<noteq> Some (show_uuid session_tenant)
      then set_str k_bound_tenant (show_uuid session_tenant) (reset_sync_state_for_new_binding db)
      else db)"

text \<open>So the first unreadable change of the new account whose number the old account's quarantine holds is
  dropped: nothing is kept of it, and the page goes on.\<close>

lemma reconcile_keeps_quarantine:
  "cd_unreadable (reconcile_account_binding t db) = cd_unreadable db" "cd_stash (reconcile_account_binding t db) = cd_stash db"
  "cd_stash_next (reconcile_account_binding t db) = cd_stash_next db" "cd_crr (reconcile_account_binding t db) = cd_crr db"
  by (simp_all add: reconcile_account_binding_def reset_sync_state_for_new_binding_def set_str_def set_pull_watermark_def
    set_push_watermark_def set_i64_def)

lemma switched_account_drops_unreadable:
  assumes "u \<in> set (cd_unreadable db)" and "ur_seq u = pu_seq pc" and "decode_pulled_changeset E pc = Some (Inl why)"
  shows "pull_page C E (pc # pcs) rep (reconcile_account_binding t db) =
    pull_page C E pcs (rep\<lparr>dr_crypto_quarantined := dr_crypto_quarantined rep + 1\<rparr>) (reconcile_account_binding t db)"
  using assms by (auto simp: quarantine_undecryptable_def reconcile_keeps_quarantine image_iff)

subsection \<open>What a pull has taken in\<close>

text \<open>Which rows a database has merged is a parameter; a merge adds its row and loses none.\<close>

definition merge_law :: "'d crsql \<Rightarrow> ('d \<Rightarrow> change_row \<Rightarrow> bool) \<Rightarrow> bool" where
  "merge_law C has \<longleftrightarrow> schema_law C \<and> (\<forall>r d d'. crr_apply C r d = Some d' \<longrightarrow> has d' r \<and> (\<forall>x. has d x \<longrightarrow> has d' x))"

definition held_row :: "('d \<Rightarrow> change_row \<Rightarrow> bool) \<Rightarrow> 'd client_db \<Rightarrow> change_row \<Rightarrow> bool" where
  "held_row has db r \<longleftrightarrow> has (cd_crr db) r \<or> (\<exists>e\<in>set (cd_stash db). decode_changeset (st_blob e) = Inr [r])"

definition kept_row :: "pulled_change \<Rightarrow> unreadable_row \<Rightarrow> bool" where
  "kept_row c u \<longleftrightarrow> ur_seq u = pu_seq c \<and> ur_author u = show_uuid (pu_client c) \<and> ur_client_seq u = pu_client_seq c \<and>
     ur_ciphertext u = pu_ciphertext c"

text \<open>A change is taken in when one of the environments the device has had decoded it and its rows are
  merged or stashed; or when none could and its ciphertext is kept. There is a third case, a loss: an
  account switch pulls another log from zero but leaves the quarantine as it is, and a row of the
  earlier log (in \<open>old\<close>) occupies the number of an unreadable change, which \<open>INSERT OR IGNORE\<close>
  then drops.\<close>

definition taken_in :: "('d \<Rightarrow> change_row \<Rightarrow> bool) \<Rightarrow> capture_env set \<Rightarrow> unreadable_row set \<Rightarrow> 'd client_db \<Rightarrow> pulled_change \<Rightarrow> bool" where
  "taken_in has Es old db c \<longleftrightarrow>
     (\<exists>E\<in>Es. \<exists>rows. decode_pulled_changeset E c = Some (Inr rows) \<and> (\<forall>r\<in>set rows. held_row has db r)) \<or>
     (\<exists>E\<in>Es. \<exists>why. decode_pulled_changeset E c = Some (Inl why)) \<and>
       ((\<exists>u\<in>set (cd_unreadable db). kept_row c u) \<or> (\<exists>u\<in>old. ur_seq u = pu_seq c))"

text \<open>Every stash entry has its own id and holds one row; the quarantine's key is the relay's number.\<close>

definition stash_keyed :: "'d client_db \<Rightarrow> bool" where
  "stash_keyed db \<longleftrightarrow> stash_wf db \<and> distinct (map st_id (cd_stash db)) \<and> (\<forall>e\<in>set (cd_stash db). st_id e < cd_stash_next db) \<and>
     distinct (map ur_seq (cd_unreadable db))"

lemma decode_wf: "decode_changeset buf = Inr rows \<Longrightarrow> \<forall>r\<in>set rows. wf_row r"
  by (auto simp: decode_changeset_def bind_result_eq_Inr decode_rows_iff split: if_splits)

lemma apply_all_has:
  assumes "merge_law C has"
  shows "apply_all C rs d = Some d' \<Longrightarrow> (\<forall>r\<in>set rs. has d' r) \<and> (\<forall>x. has d x \<longrightarrow> has d' x)"
proof (induction rs arbitrary: d)
  case (Cons r rs)
  then obtain d1 where d1: "crr_apply C r d = Some d1" "apply_all C rs d1 = Some d'" by (auto split: bind_splits)
  moreover have "has d1 r" "\<And>x. has d x \<Longrightarrow> has d1 x" using assms d1(1) unfolding merge_law_def by blast+
  ultimately show ?case using Cons.IH [OF d1(2)] by auto
qed simp

lemma merge_takes_in:
  assumes law: "merge_law C has" and keyed: "stash_keyed db" and rows: "\<forall>r\<in>set rows. wf_row r"
    and run: "merge_changeset C rows db = Inr (counts, db')"
  shows "stash_keyed db' \<and> (\<forall>r\<in>set rows. held_row has db' r) \<and> (\<forall>r. held_row has db r \<longrightarrow> held_row has db' r) \<and>
    cd_unreadable db' = cd_unreadable db \<and> pull_watermark db' = pull_watermark db"
proof -
  have schema: "schema_law C" and wf: "stash_wf db" using law keyed by (simp_all add: merge_law_def stash_keyed_def)
  let ?q = "filter (queued C db) rows"
  obtain d where d: "apply_all C (filter (\<lambda>r. \<not> queued C db r) rows) (cd_crr db) = Some d"
    and db': "db' = db\<lparr>cd_stash := cd_stash db @ entries_from (cd_stash_next db) ?q,
           cd_stash_next := cd_stash_next db + int (length ?q), cd_crr := d\<rparr>"
    using run unfolding merge_changeset_spec [OF schema wf] by (auto split: option.splits)
  note has = apply_all_has [OF law d]
  have new: "\<exists>e\<in>set (entries_from (cd_stash_next db) ?q). decode_changeset (st_blob e) = Inr [r]" if r: "r \<in> set ?q" for r
  proof -
    obtain k where k: "k < length ?q" "?q ! k = r" using r unfolding in_set_conv_nth by blast
    then have "entry_of_row (cd_stash_next db + int k) r \<in> set (entries_from (cd_stash_next db) ?q)"
      unfolding set_entries_from by blast
    moreover have "wf_row r" using r rows by simp
    ultimately show ?thesis by (intro bexI [of _ "entry_of_row (cd_stash_next db + int k) r"]) (simp_all add: decode_one)
  qed
  have "held_row has db' r" if "r \<in> set rows" for r
    using has new [of r] that by (cases "queued C db r") (auto simp: held_row_def db')
  moreover have "held_row has db' r" if "held_row has db r" for r
    using has that by (auto simp: held_row_def db')
  moreover have "stash_keyed db'"
  proof -
    have "\<exists>r. wf_row r \<and> e = entry_of_row (st_id e) r \<and> cd_stash_next db \<le> st_id e \<and> st_id e < cd_stash_next db + int (length ?q)"
      if e: "e \<in> set (entries_from (cd_stash_next db) ?q)" for e
    proof -
      obtain k where k: "k < length ?q" "e = entry_of_row (cd_stash_next db + int k) (?q ! k)"
        using e unfolding set_entries_from by blast
      then have "?q ! k \<in> set rows" by (metis filter_is_subset nth_mem subsetD)
      with k rows show ?thesis by (intro exI [of _ "?q ! k"]) simp
    qed
    moreover have "distinct (map st_id (entries_from i rs))" for i rs
      by (simp add: distinct_conv_nth nth_entries_from)
    ultimately show ?thesis
      using keyed by (force simp: stash_keyed_def stash_wf_def db')
  qed
  ultimately show ?thesis by (simp add: db' pull_watermark_def)
qed

text \<open>The part of the database that a pull writes: nothing else a drain does touches it.\<close>

definition pull_view :: "'d client_db \<Rightarrow> 'd \<times> stash_row list \<times> int \<times> unreadable_row list \<times> int" where
  "pull_view db = (cd_crr db, cd_stash db, cd_stash_next db, cd_unreadable db, pull_watermark db)"

text \<open>What a device holds of the relay's log: every change up to its watermark is taken in, and every
  quarantined ciphertext is one of the log or was there when the account was switched.\<close>

definition caught_up :: "('d \<Rightarrow> change_row \<Rightarrow> bool) \<Rightarrow> capture_env set \<Rightarrow> unreadable_row set \<Rightarrow> pulled_change list \<Rightarrow> 'd client_db \<Rightarrow> bool" where
  "caught_up has Es old log db \<longleftrightarrow> stash_keyed db \<and> 0 \<le> pull_watermark db \<and> nat (pull_watermark db) \<le> length log \<and>
     (\<forall>c\<in>set (take (nat (pull_watermark db)) log). taken_in has Es old db c) \<and>
     (\<forall>u\<in>set (cd_unreadable db). u \<in> old \<or> (\<exists>c\<in>set log. kept_row c u))"

lemma caught_up_view:
  assumes "pull_view db' = pull_view db"
  shows "caught_up has Es old log db' = caught_up has Es old log db"
proof -
  have v: "cd_crr db' = cd_crr db" "cd_stash db' = cd_stash db" "cd_stash_next db' = cd_stash_next db"
    "cd_unreadable db' = cd_unreadable db" "pull_watermark db' = pull_watermark db"
    using assms by (simp_all add: pull_view_def)
  show ?thesis unfolding caught_up_def taken_in_def held_row_def stash_keyed_def stash_wf_def v ..
qed

lemma caught_up_grows: "caught_up has Es old log db \<Longrightarrow> caught_up has Es old (log @ new) db"
  by (auto simp: caught_up_def)

definition pulls_more :: "('d \<Rightarrow> change_row \<Rightarrow> bool) \<Rightarrow> 'd client_db \<Rightarrow> 'd client_db \<Rightarrow> bool" where
  "pulls_more has db db' \<longleftrightarrow> stash_keyed db' \<and> pull_watermark db' = pull_watermark db \<and>
     (\<forall>r. held_row has db r \<longrightarrow> held_row has db' r) \<and> set (cd_unreadable db) \<subseteq> set (cd_unreadable db')"

lemma taken_in_more: "taken_in has Es old db c \<Longrightarrow> pulls_more has db db' \<Longrightarrow> taken_in has Es old db' c"
  unfolding taken_in_def pulls_more_def by (meson subsetD)

lemma pulls_more_trans: "pulls_more has a b \<Longrightarrow> pulls_more has b c \<Longrightarrow> pulls_more has a c"
  unfolding pulls_more_def by auto

lemma pulls_more_merge:
  assumes "merge_law C has" and "stash_keyed db" and "\<forall>r\<in>set rows. wf_row r" and "merge_changeset C rows db = Inr (counts, db')"
  shows "pulls_more has db db'"
  using merge_takes_in [OF assms] unfolding pulls_more_def by simp

lemma decode_pulled_wf:
  assumes "decode_pulled_changeset E c = Some (Inr rows)"
  shows "\<forall>r\<in>set rows. wf_row r"
  using assms decode_wf by (auto simp: decode_pulled_changeset_def split: option.splits sum.splits)

text \<open>A page: every change of it is taken in, unless a merge fails, and then those before it.\<close>

lemma pull_page_takes_in:
  assumes law: "merge_law C has" and env: "E \<in> Es" and names: "\<And>c c'. c \<in> set log \<Longrightarrow> c' \<in> set log \<Longrightarrow> pu_seq c = pu_seq c' \<Longrightarrow> c = c'"
  shows "stash_keyed db \<Longrightarrow> set pcs \<subseteq> set log \<Longrightarrow>
    (\<forall>u\<in>set (cd_unreadable db). u \<in> old \<or> (\<exists>c\<in>set log. kept_row c u)) \<Longrightarrow>
    pull_page C E pcs rep db = Some (res, rep', db') \<Longrightarrow>
    pulls_more has db db' \<and> (res = Inr () \<longrightarrow> (\<forall>c\<in>set pcs. taken_in has Es old db' c)) \<and>
    (\<forall>u\<in>set (cd_unreadable db'). u \<in> old \<or> (\<exists>c\<in>set log. kept_row c u))"
proof (induction pcs arbitrary: rep db)
  case Nil
  then show ?case by (simp add: pulls_more_def)
next
  case (Cons pc pcs)
  have step: ?case if run: "pull_page C E pcs rep1 db1 = Some (res, rep', db')" and more: "pulls_more has db db1"
    and pc: "taken_in has Es old db1 pc" and known: "\<forall>u\<in>set (cd_unreadable db1). u \<in> old \<or> (\<exists>c\<in>set log. kept_row c u)"
    for rep1 db1
  proof -
    have k1: "stash_keyed db1" using more by (simp add: pulls_more_def)
    have sub: "set pcs \<subseteq> set log" using Cons.prems(2) by simp
    note ih = Cons.IH [OF k1 sub known run]
    from ih have m: "pulls_more has db1 db'" by blast
    from pulls_more_trans [OF more m] ih taken_in_more [OF pc m] show ?thesis by simp
  qed
  show ?case
  proof (cases "decode_pulled_changeset E pc")
    case None
    with Cons.prems(4) show ?thesis by simp
  next
    case (Some d)
    show ?thesis
    proof (cases d)
      case (Inl detail)
      define db1 where "db1 = quarantine_undecryptable pc detail db"
      have log: "pc \<in> set log" using Cons.prems(2) by simp
      have "stash_keyed db1" "pull_watermark db1 = pull_watermark db" "set (cd_unreadable db) \<subseteq> set (cd_unreadable db1)"
        "\<And>r. held_row has db1 r = held_row has db r"
        using Cons.prems(1) by (auto simp: db1_def quarantine_undecryptable_def stash_keyed_def stash_wf_def pull_watermark_def held_row_def)
      then have more: "pulls_more has db db1" by (simp add: pulls_more_def)
      have "(\<exists>u\<in>set (cd_unreadable db1). kept_row pc u) \<or> (\<exists>u\<in>old. ur_seq u = pu_seq pc)"
      proof (cases "pu_seq pc \<in> ur_seq ` set (cd_unreadable db)")
        case True
        then obtain u where u: "u \<in> set (cd_unreadable db)" "ur_seq u = pu_seq pc" by auto
        show ?thesis
        proof (cases "u \<in> old")
          case False
          then obtain c where c: "c \<in> set log" "kept_row c u" using u(1) Cons.prems(3) by blast
          with u(2) have "pu_seq c = pu_seq pc" by (simp add: kept_row_def)
          with c u True names [OF c(1) log] show ?thesis by (auto simp: db1_def quarantine_undecryptable_def)
        qed (use u in auto)
      qed (simp add: db1_def quarantine_undecryptable_def kept_row_def)
      then have "taken_in has Es old db1 pc" using Some Inl env unfolding taken_in_def by blast
      moreover have "\<forall>u\<in>set (cd_unreadable db1). u \<in> old \<or> (\<exists>c\<in>set log. kept_row c u)"
        using Cons.prems(3) log by (auto simp: db1_def quarantine_undecryptable_def kept_row_def)
      ultimately show ?thesis
        using step [of "rep\<lparr>dr_crypto_quarantined := dr_crypto_quarantined rep + 1\<rparr>" db1] more Cons.prems(4) Some Inl
        unfolding db1_def by simp
    next
      case (Inr rows)
      have wf: "\<forall>r\<in>set rows. wf_row r" using decode_pulled_wf Some Inr by blast
      show ?thesis
      proof (cases "merge_changeset C rows db")
        case (Inl e)
        with Cons.prems Some Inr show ?thesis by (auto simp: pulls_more_def)
      next
        case m: (Inr x)
        obtain a q db1 where x: "x = ((a, q), db1)" by (metis surj_pair)
        note mt = merge_takes_in [OF law Cons.prems(1) wf m [unfolded x]]
        have "taken_in has Es old db1 pc" using mt Some Inr env unfolding taken_in_def by blast
        moreover have "pulls_more has db db1" using mt by (simp add: pulls_more_def)
        moreover have "cd_unreadable db1 = cd_unreadable db" using mt by simp
        ultimately show ?thesis
          using step [of "rep\<lparr>dr_applied := dr_applied rep + a, dr_quarantined := dr_quarantined rep + q\<rparr>" db1]
            Cons.prems(3,4) Some Inr m x by simp
      qed
    qed
  qed
qed

subsection \<open>What the rest of the cycle leaves alone\<close>

lemma pull_watermark_frame [simp]:
  "pull_watermark (record_refused_raise r now db) = pull_watermark db" "pull_watermark (set_session_marker k db) = pull_watermark db"
  "pull_watermark (clear_raise_backoff db) = pull_watermark db" "pull_watermark (clear_seq_reconciled db) = pull_watermark db"
  "pull_watermark (ack_entry q n db) = pull_watermark db" "pull_watermark (reseed_counter_to_tail n db) = pull_watermark db"
  "pull_watermark (note_relay_capability l db) = pull_watermark db" "pull_watermark (forget_capability_gate db) = pull_watermark db"
  by (simp_all add: pull_watermark_def record_refused_raise_def set_session_marker_def clear_raise_backoff_def
    clear_seq_reconciled_def ack_entry_def reseed_counter_to_tail_def set_push_watermark_def set_client_seq_def get_set_i64
    note_relay_capability_def forget_capability_gate_def Let_def)

lemma pull_view_frame [simp]:
  "pull_view (record_refused_raise r now db) = pull_view db" "pull_view (mark_capability_gate_proven db) = pull_view db"
  "pull_view (clear_raise_backoff db) = pull_view db" "pull_view (mark_seq_reconciled db) = pull_view db"
  "pull_view (clear_seq_reconciled db) = pull_view db" "pull_view (reseed_counter_to_tail n db) = pull_view db"
  "pull_view (ack_entry q n db) = pull_view db" "pull_view (note_relay_capability l db) = pull_view db"
  "pull_view (forget_capability_gate db) = pull_view db" "pull_view (set_push_watermark v db) = pull_view db"
  by (simp_all add: pull_view_def mark_capability_gate_proven_def mark_seq_reconciled_def)
    (simp_all add: record_refused_raise_def set_session_marker_def clear_raise_backoff_def clear_seq_reconciled_def
      reseed_counter_to_tail_def set_push_watermark_def set_client_seq_def ack_entry_def note_relay_capability_def
      forget_capability_gate_def Let_def)

lemma pull_view_acks [simp]: "pull_view (apply_acks acks db) = pull_view db"
  unfolding apply_acks_def by (induction acks arbitrary: db) simp_all

lemma pull_view_settle [simp]: "pull_view (settle_gate rep db) = pull_view db"
  by (simp add: settle_gate_def Let_def split: option.splits sync_error.splits)

lemma pull_view_insert: "insert_chunk E rows db = Some (Inr (q, db')) \<Longrightarrow> pull_view db' = pull_view db"
  by (auto simp: insert_chunk_def Let_def next_client_seq_def pull_view_def pull_watermark_def get_set_i64
    split: prod.splits option.splits sum.splits if_splits)

lemma pull_view_enqueue: "enqueue_loop E chunks v db = (r, db') \<Longrightarrow> pull_view db' = pull_view db"
proof (induction chunks arbitrary: v db r)
  case (Cons chunk chunks)
  show ?case
  proof (cases "\<exists>q db1. capture_chunk E chunk chunks v db = Some (Inr (q, db1))")
    case True
    then obtain q db1 where c: "capture_chunk E chunk chunks v db = Some (Inr (q, db1))" by blast
    then have v1: "pull_view db1 = pull_view db"
      by (auto simp: capture_chunk_def dest: pull_view_insert split: option.splits sum.splits)
    obtain r1 where "enqueue_loop E chunks (case next_watermark chunk chunks v of Some v \<Rightarrow> v | None \<Rightarrow> v) db1 = (r1, db')"
      using Cons.prems c by (auto split: prod.splits option.splits sum.splits)
    from Cons.IH [OF this] v1 show ?thesis by simp
  next
    case False
    with Cons.prems have "db' = db" by (auto split: option.splits sum.splits)
    then show ?thesis by simp
  qed
qed simp

lemma pull_view_enqueue_local: "enqueue_local C E db = (r, db') \<Longrightarrow> pull_view db' = pull_view db"
  by (auto simp: enqueue_local_def Let_def dest: pull_view_enqueue split: if_splits)

text \<open>A replay keeps what it held: a row leaves the stash when it is merged.\<close>

lemma replay_row_more:
  assumes law: "merge_law C has" and keyed: "stash_keyed db" and cand: "e \<in> set (cd_stash db)"
    and wf: "\<exists>r. wf_row r \<and> e = entry_of_row (st_id e) r"
    and run: "replay_row C (st_id e, st_blob e) st db = Inr (st', db')"
  shows "pulls_more has db db' \<and> (\<forall>x. x \<in> set (cd_stash db') \<longleftrightarrow> x \<in> set (cd_stash db) \<and> (db' = db \<or> st_id x \<noteq> st_id e)) \<and>
    cd_unreadable db' = cd_unreadable db"
proof -
  obtain r where r: "wf_row r" "e = entry_of_row (st_id e) r" using wf by blast
  have blob: "st_blob e = encode_changeset [r]" by (subst r(2)) simp
  show ?thesis
  proof (cases "db' = db")
    case True
    with keyed show ?thesis by (simp add: pulls_more_def)
  next
    case False
    with replay_row_effect [OF r(1) run [unfolded blob]] obtain d where d: "crr_apply C r (cd_crr db) = Some d"
      "db' = delete_stashed (st_id e) (db\<lparr>cd_crr := d\<rparr>)" by (auto split: if_splits)
    have has: "has d r" "\<And>x. has (cd_crr db) x \<Longrightarrow> has d x" using law d(1) unfolding merge_law_def by blast+
    have stash: "x \<in> set (cd_stash db') \<longleftrightarrow> x \<in> set (cd_stash db) \<and> st_id x \<noteq> st_id e" for x
      unfolding d(2) by (auto simp: delete_stashed_def delete_where_def)
    have "stash_keyed db'"
      using keyed unfolding d(2) by (auto simp: stash_keyed_def stash_wf_def delete_stashed_def delete_where_def distinct_map_filter)
    moreover have "held_row has db' x" if x: "held_row has db x" for x
    proof (cases "has (cd_crr db) x")
      case True
      with has show ?thesis unfolding d(2) by (simp add: held_row_def delete_stashed_def)
    next
      case False
      then obtain f where f: "f \<in> set (cd_stash db)" "decode_changeset (st_blob f) = Inr [x]" using x by (auto simp: held_row_def)
      show ?thesis
      proof (cases "st_id f = st_id e")
        case True
        with cand f keyed have "f = e" by (auto simp: stash_keyed_def distinct_map dest: inj_onD)
        then have "x = r" using f(2) blob decode_one [OF r(1)] by simp
        with has show ?thesis unfolding d(2) by (simp add: held_row_def delete_stashed_def)
      next
        case ne: False
        with f stash show ?thesis by (auto simp: held_row_def)
      qed
    qed
    moreover have "pull_watermark db' = pull_watermark db" "cd_unreadable db' = cd_unreadable db"
      unfolding d(2) by (simp_all add: delete_stashed_def pull_watermark_def)
    ultimately show ?thesis using stash False by (simp add: pulls_more_def)
  qed
qed

lemma replay_loop_more:
  assumes law: "merge_law C has"
  shows "stash_keyed db \<Longrightarrow> distinct (map st_id es) \<Longrightarrow> (\<forall>e\<in>set es. e \<in> set (cd_stash db)) \<Longrightarrow>
    replay_loop C (map (\<lambda>e. (st_id e, st_blob e)) es) st db = (r, db') \<Longrightarrow>
    pulls_more has db db' \<and> cd_unreadable db' = cd_unreadable db"
proof (induction es arbitrary: st db)
  case Nil
  then show ?case by (auto simp: pulls_more_def)
next
  case (Cons e es)
  show ?case
  proof (cases "replay_row C (st_id e, st_blob e) st db")
    case (Inl err)
    with Cons.prems show ?thesis by (auto simp: pulls_more_def)
  next
    case (Inr x)
    obtain st1 db1 where x: "x = (st1, db1)" by fastforce
    have e: "e \<in> set (cd_stash db)" using Cons.prems(3) by simp
    then have "\<exists>r. wf_row r \<and> e = entry_of_row (st_id e) r" using Cons.prems(1) unfolding stash_keyed_def stash_wf_def by blast
    note m = replay_row_more [OF law Cons.prems(1) e this Inr [unfolded x]]
    have more: "pulls_more has db db1" and un: "cd_unreadable db1 = cd_unreadable db" using m by blast+
    have "\<forall>f\<in>set es. f \<in> set (cd_stash db1)"
    proof
      fix f assume f: "f \<in> set es"
      then have "f \<in> set (cd_stash db)" "st_id f \<noteq> st_id e" using Cons.prems(2,3) by (auto simp: image_iff)
      with m show "f \<in> set (cd_stash db1)" by blast
    qed
    moreover have "stash_keyed db1" using more by (simp add: pulls_more_def)
    ultimately have "pulls_more has db1 db' \<and> cd_unreadable db' = cd_unreadable db1"
      using Cons.IH [of db1 st1] Cons.prems(2,4) Inr x by simp
    with pulls_more_trans [OF more] un show ?thesis by simp
  qed
qed

lemma pull_view_persist [simp]: "pull_view (persist_replay_outcome rep db) = pull_view db"
  by (simp add: pull_view_def persist_replay_outcome_def persist_one_def pull_watermark_def get_i64_def set_str_def
    get_str_def k_replay_waiting_def k_replay_failed_def k_pull_wm_def Let_def)

lemma caught_up_more: "caught_up has Es old log db \<Longrightarrow> pulls_more has db db' \<Longrightarrow> cd_unreadable db' = cd_unreadable db \<Longrightarrow> caught_up has Es old log db'"
  using taken_in_more unfolding caught_up_def pulls_more_def by (metis (no_types, lifting) pulls_more_def)

lemma replay_pending_caught_up:
  assumes law: "merge_law C has" and up: "caught_up has Es old log db" and run: "replay_pending C db = (r, db')"
  shows "caught_up has Es old log db'"
proof -
  obtain r1 db1 where l: "replay_loop C (candidates db) replay_start db = (r1, db1)" by fastforce
  have keyed: "stash_keyed db" using up by (simp add: caught_up_def)
  have "distinct (map st_id (sort_key st_id (cd_stash db)))"
    using keyed by (simp add: stash_keyed_def distinct_map)
  then have "pulls_more has db db1 \<and> cd_unreadable db1 = cd_unreadable db"
    using replay_loop_more [OF law keyed, of "sort_key st_id (cd_stash db)"] l by (simp add: candidates_def)
  with caught_up_more [OF up] have "caught_up has Es old log db1" by blast
  moreover have "pull_view db' = pull_view db1" using run l by (auto simp: replay_pending_def split: sum.splits)
  ultimately show ?thesis using caught_up_view [of db' db1 has Es old log] by blast
qed

text \<open>A replay cut after some of its rows.\<close>

lemma replay_cut_caught_up:
  assumes law: "merge_law C has" and up: "caught_up has Es old log db"
    and run: "replay_loop C (take n (candidates db)) replay_start db = (r, db')"
  shows "caught_up has Es old log db'"
proof -
  have keyed: "stash_keyed db" using up by (simp add: caught_up_def)
  let ?es = "take n (sort_key st_id (cd_stash db))"
  have "distinct (map st_id ?es)" using keyed by (simp add: stash_keyed_def distinct_map take_map [symmetric] distinct_take)
  moreover have "\<forall>e\<in>set ?es. e \<in> set (cd_stash db)" by (auto dest: in_set_takeD)
  ultimately have "pulls_more has db db' \<and> cd_unreadable db' = cd_unreadable db"
    using replay_loop_more [OF law keyed, of ?es replay_start] run by (simp add: candidates_def take_map)
  with caught_up_more [OF up] show ?thesis by blast
qed

text \<open>A retry removes only what it could merge.\<close>

lemma retry_loop_more:
  assumes law: "merge_law C has"
  shows "stash_keyed db \<Longrightarrow> set us \<subseteq> set all \<Longrightarrow> distinct (map ur_seq all) \<Longrightarrow> set (cd_unreadable db) \<subseteq> set all \<Longrightarrow>
    retry_loop C E parse_uuid us rep db = Some (r, db') \<Longrightarrow>
    stash_keyed db' \<and> pull_watermark db' = pull_watermark db \<and> (\<forall>x. held_row has db x \<longrightarrow> held_row has db' x) \<and>
    set (cd_unreadable db') \<subseteq> set (cd_unreadable db) \<and>
    (\<forall>u\<in>set (cd_unreadable db). u \<notin> set (cd_unreadable db') \<longrightarrow> (\<exists>author rows. parse_uuid (ur_author u) = Some author \<and>
       decode_pulled_changeset E (pulled_of_row author u) = Some (Inr rows) \<and> (\<forall>x\<in>set rows. held_row has db' x)))"
proof (induction us arbitrary: rep db)
  case (Cons u us)
  have sub: "set us \<subseteq> set all" "u \<in> set all" using Cons.prems(2) by auto
  note skip = Cons.IH [OF Cons.prems(1) sub(1) Cons.prems(3,4)]
  show ?case
  proof (cases "\<exists>author rows. parse_uuid (ur_author u) = Some author \<and> decode_pulled_changeset E (pulled_of_row author u) = Some (Inr rows)")
    case False
    then have "retry_loop C E parse_uuid us (rep\<lparr>qr_still_failing := qr_still_failing rep + 1\<rparr>) db = Some (r, db')"
      using Cons.prems(5) by (auto simp: Let_def split: option.splits sum.splits)
    from skip [OF this] show ?thesis .
  next
    case True
    then obtain author rows where d: "parse_uuid (ur_author u) = Some author"
      "decode_pulled_changeset E (pulled_of_row author u) = Some (Inr rows)" by blast
    have wf: "\<forall>x\<in>set rows. wf_row x" by (rule decode_pulled_wf [OF d(2)])
    show ?thesis
    proof (cases "merge_changeset C rows db")
      case (Inl e)
      then have "db' = db" using Cons.prems(5) d by (auto simp: Let_def)
      with Cons.prems(1) show ?thesis by simp
    next
      case (Inr y)
      obtain n db1 where y: "y = (n, db1)" by fastforce
      note mt = merge_takes_in [OF law Cons.prems(1) wf Inr [unfolded y]]
      define db2 where "db2 = delete_unreadable (ur_seq u) db1"
      have un: "set (cd_unreadable db2) = {v \<in> set (cd_unreadable db). ur_seq v \<noteq> ur_seq u}"
        using mt by (auto simp: db2_def delete_unreadable_def delete_where_def)
      have held: "held_row has db2 x = held_row has db1 x" for x by (simp add: db2_def delete_unreadable_def held_row_def)
      have wm: "pull_watermark db2 = pull_watermark db" using mt by (simp add: db2_def delete_unreadable_def pull_watermark_def)
      have keyed: "stash_keyed db2"
      proof -
        have "distinct (map ur_seq (cd_unreadable db))" using Cons.prems(1) by (simp add: stash_keyed_def)
        then have "distinct (map ur_seq (cd_unreadable db2))"
          using mt unfolding db2_def delete_unreadable_def delete_where_def by (simp add: distinct_map inj_on_def)
        moreover have "cd_stash db2 = cd_stash db1" "cd_stash_next db2 = cd_stash_next db1" by (simp_all add: db2_def delete_unreadable_def)
        ultimately show ?thesis using mt unfolding stash_keyed_def stash_wf_def by simp
      qed
      have "retry_loop C E parse_uuid us (rep\<lparr>qr_recovered := qr_recovered rep + 1\<rparr>) db2 = Some (r, db')"
        using Cons.prems(5) d Inr y by (simp add: Let_def db2_def)
      note ih = Cons.IH [OF keyed sub(1) Cons.prems(3) _ this]
      have all2: "set (cd_unreadable db2) \<subseteq> set all" using un Cons.prems(4) by blast
      note ih = ih [OF all2]
      have gone: "\<exists>author rows. parse_uuid (ur_author v) = Some author \<and>
          decode_pulled_changeset E (pulled_of_row author v) = Some (Inr rows) \<and> (\<forall>x\<in>set rows. held_row has db' x)"
        if v: "v \<in> set (cd_unreadable db)" "v \<notin> set (cd_unreadable db')" for v
      proof (cases "ur_seq v = ur_seq u")
        case True
        then have "v = u" using v(1) Cons.prems(3,4) sub(2) by (auto simp: distinct_map dest: inj_onD)
        moreover have "\<forall>x\<in>set rows. held_row has db' x" using mt ih held by blast
        ultimately show ?thesis using d by blast
      next
        case False
        then have "v \<in> set (cd_unreadable db2)" using un v(1) by simp
        with ih v(2) show ?thesis by blast
      qed
      have "stash_keyed db'" "pull_watermark db' = pull_watermark db" "set (cd_unreadable db') \<subseteq> set (cd_unreadable db)"
        using ih wm un by auto
      moreover have "held_row has db' x" if "held_row has db x" for x using that mt ih held by blast
      ultimately show ?thesis using gone by blast
    qed
  qed
qed simp

lemma retry_more:
  assumes law: "merge_law C has" and keyed: "stash_keyed db" and run: "retry_crypto_quarantine C E parse_uuid db = Some (r, db')"
  shows "stash_keyed db' \<and> pull_watermark db' = pull_watermark db \<and> (\<forall>x. held_row has db x \<longrightarrow> held_row has db' x) \<and>
    set (cd_unreadable db') \<subseteq> set (cd_unreadable db) \<and>
    (\<forall>u\<in>set (cd_unreadable db). u \<notin> set (cd_unreadable db') \<longrightarrow> (\<exists>author rows. parse_uuid (ur_author u) = Some author \<and>
       decode_pulled_changeset E (pulled_of_row author u) = Some (Inr rows) \<and> (\<forall>x\<in>set rows. held_row has db' x)))"
  by (rule retry_loop_more [OF law keyed _ _ subset_refl run [unfolded retry_crypto_quarantine_def]])
    (use keyed in \<open>auto simp: stash_keyed_def\<close>)

text \<open>A row of a change decodes as the change does, when its author parses back.\<close>

definition uuid_law :: "(string \<Rightarrow> uuid option) \<Rightarrow> bool" where
  "uuid_law parse_uuid \<longleftrightarrow> (\<forall>u. parse_uuid (show_uuid u) = Some u)"

lemma decode_kept:
  "kept_row c u \<Longrightarrow> decode_pulled_changeset E (pulled_of_row (pu_client c) u) = decode_pulled_changeset E c"
proof -
  assume k: "kept_row c u"
  then have eqs: "pu_client (pulled_of_row (pu_client c) u) = pu_client c" "pu_client_seq (pulled_of_row (pu_client c) u) = pu_client_seq c"
    "pu_ciphertext (pulled_of_row (pu_client c) u) = pu_ciphertext c" by (simp_all add: pulled_of_row_def kept_row_def)
  show ?thesis unfolding decode_pulled_changeset_def eqs ..
qed

lemma retry_caught_up:
  assumes law: "merge_law C has" and env: "E \<in> Es" and uuids: "uuid_law parse_uuid" and up: "caught_up has Es old log db"
    and run: "retry_loop C E parse_uuid us rep db = Some (r, db')" and us: "set us \<subseteq> set (cd_unreadable db)"
  shows "caught_up has Es old log db'"
proof -
  have keyed: "stash_keyed db" and known: "\<forall>u\<in>set (cd_unreadable db). u \<in> old \<or> (\<exists>c\<in>set log. kept_row c u)"
    using up unfolding caught_up_def by blast+
  have dist: "distinct (map ur_seq (cd_unreadable db))" using keyed by (simp add: stash_keyed_def)
  note m = retry_loop_more [OF law keyed us dist subset_refl run]
  have "taken_in has Es old db' c" if t: "taken_in has Es old db c" for c
  proof (cases "\<exists>E\<in>Es. \<exists>rows. decode_pulled_changeset E c = Some (Inr rows) \<and> (\<forall>r\<in>set rows. held_row has db r)")
    case True
    with m show ?thesis unfolding taken_in_def by blast
  next
    case False
    then obtain E0 why where e: "E0 \<in> Es" "decode_pulled_changeset E0 c = Some (Inl why)"
      and k: "(\<exists>u\<in>set (cd_unreadable db). kept_row c u) \<or> (\<exists>u\<in>old. ur_seq u = pu_seq c)"
      using t unfolding taken_in_def by blast
    show ?thesis
    proof (cases "\<exists>u\<in>old. ur_seq u = pu_seq c")
      case True
      with e show ?thesis unfolding taken_in_def by blast
    next
      case False
      with k obtain u where u: "u \<in> set (cd_unreadable db)" "kept_row c u" by blast
      show ?thesis
      proof (cases "u \<in> set (cd_unreadable db')")
        case True
        with u e show ?thesis unfolding taken_in_def by blast
      next
        case False
        then obtain author rows where d: "parse_uuid (ur_author u) = Some author"
        "decode_pulled_changeset E (pulled_of_row author u) = Some (Inr rows)" "\<forall>x\<in>set rows. held_row has db' x"
        using m u(1) by blast
      have "author = pu_client c" using d(1) u(2) uuids by (simp add: uuid_law_def kept_row_def)
      with d(2) decode_kept [OF u(2)] have "decode_pulled_changeset E c = Some (Inr rows)" by simp
        with d(3) env show ?thesis unfolding taken_in_def by blast
      qed
    qed
  qed
  moreover have "\<forall>u\<in>set (cd_unreadable db'). u \<in> old \<or> (\<exists>c\<in>set log. kept_row c u)" using known m by blast
  ultimately show ?thesis using up m unfolding caught_up_def by metis
qed

subsection \<open>The relay's log as the device sees it\<close>

locale pull_contract =
  fixes T :: "'w transport" and good :: "'w \<Rightarrow> bool" and plog :: "'w \<Rightarrow> pulled_change list"
  assumes numbered: "good w \<Longrightarrow> map pu_seq (plog w) = map int [1..<Suc (length (plog w))]"
    and page: "good w \<Longrightarrow> 0 \<le> since \<Longrightarrow> t_pull T since pull_limit w = (Inr resp, w') \<Longrightarrow>
      pl_changes resp = take 500 (drop (nat since) (plog w')) \<and> pl_next resp = since + int (length (pl_changes resp)) \<and>
      (pl_has_more resp \<longleftrightarrow> since + 500 < int (length (plog w')))"
    and pull_grows: "good w \<Longrightarrow> t_pull T since limit w = (pres, w') \<Longrightarrow> good w' \<and> (\<exists>new. plog w' = plog w @ new)"
    and push_grows: "good w \<Longrightarrow> t_push T cs level w = (ures, w') \<Longrightarrow> good w' \<and> (\<exists>new. plog w' = plog w @ new)"
    and raise_grows: "good w \<Longrightarrow> t_raise T level w = (rres, w') \<Longrightarrow> good w' \<and> (\<exists>new. plog w' = plog w @ new)"
    and completeness_grows: "good w \<Longrightarrow> t_completeness T w = (cres, w') \<Longrightarrow> good w' \<and> (\<exists>new. plog w' = plog w @ new)"
    and now_grows: "good w \<Longrightarrow> t_now T w = (now, w') \<Longrightarrow> good w' \<and> (\<exists>new. plog w' = plog w @ new)"
begin

definition synced :: "('d \<Rightarrow> change_row \<Rightarrow> bool) \<Rightarrow> capture_env set \<Rightarrow> unreadable_row set \<Rightarrow> ('d, 'w) client \<Rightarrow> bool" where
  "synced has Es old s \<longleftrightarrow> good (snd s) \<and> caught_up has Es old (plog (snd s)) (fst s)"

lemma synced_view: "synced has Es old (db, w) \<Longrightarrow> pull_view db' = pull_view db \<Longrightarrow> synced has Es old (db', w)"
  unfolding synced_def fst_conv snd_conv using caught_up_view [of db' db has Es old] by blast

lemma synced_grows: "synced has Es old (db, w) \<Longrightarrow> good w' \<and> (\<exists>new. plog w' = plog w @ new) \<Longrightarrow> synced has Es old (db, w')"
  unfolding synced_def using caught_up_grows by fastforce

sublocale sy: local_acts "synced has Es old" T for has Es old
proof unfold_locales
  fix db w level
  assume s: "synced has Es old (db, w)"
  show "synced has Es old (db, snd (t_raise T level w))"
    using s by (rule synced_grows) (rule raise_grows [OF _ surjective_pairing], use s in \<open>simp add: synced_def\<close>)
next
  fix db w
  assume s: "synced has Es old (db, w)"
  show "synced has Es old (db, snd (t_now T w))"
    using s by (rule synced_grows) (rule now_grows [OF _ surjective_pairing], use s in \<open>simp add: synced_def\<close>)
next
  fix db w
  assume s: "synced has Es old (db, w)"
  show "synced has Es old (db, snd (t_completeness T w))"
    using s by (rule synced_grows) (rule completeness_grows [OF _ surjective_pairing], use s in \<open>simp add: synced_def\<close>)
qed (rule synced_view, assumption, simp)+

lemma push_outbox_synced: "keeps (synced has Es old) (push_outbox T X client)"
  unfolding push_outbox_def
proof (intro keeps_push_loop sy.turn_acts)
  fix cs l
  show "keeps (synced has Es old) (act_call (t_push T cs l))"
  proof (rule keeps_call)
    fix db :: "'a client_db" and w
    assume s: "synced has Es old (db, w)"
    show "synced has Es old (db, snd (t_push T cs l w))"
      using s by (rule synced_grows) (rule push_grows [OF _ surjective_pairing], use s in \<open>simp add: synced_def\<close>)
  qed
next
  fix acks
  show "keeps (synced has Es old) (act_db (apply_acks acks))" by (rule keeps_db, rule synced_view, assumption) simp
qed

lemma push_direction_synced:
  assumes s: "synced has Es old s" and run: "push_direction C E T s = Some (r, s')"
  shows "synced has Es old s'"
proof -
  let ?pre = "act_bind (act_get seq_reconciled) (\<lambda>r. if \<not> r
          then act_bind (reconcile_seq_counter T (ce_client E)) (\<lambda>_. act_return ()) else act_return ())"
  obtain p s1 where p: "?pre s = (p, s1)" by (rule act_result)
  have "keeps (synced has Es old) ?pre" by (auto intro!: keep_intros)
  from keepsD [OF this s p] have s1: "synced has Es old s1" .
  show ?thesis
  proof (cases p)
    case (Inl e)
    with run p s1 show ?thesis by (simp add: push_direction_def)
  next
    case (Inr u)
    obtain q db where q: "enqueue_local C E (fst s1) = (q, db)" by fastforce
    have "synced has Es old (db, snd s1)" using synced_view [of has Es old "fst s1" "snd s1" db] s1 pull_view_enqueue_local [OF q] by simp
    with keepsD [OF push_outbox_synced this] run p Inr q show ?thesis
      by (auto simp: push_direction_def split: option.splits sum.splits)
  qed
qed

lemma log_names:
  assumes "good w" and "c \<in> set (plog w)" "c' \<in> set (plog w)" "pu_seq c = pu_seq c'"
  shows "c = c'"
proof -
  have "distinct (map pu_seq (plog w))" unfolding numbered [OF assms(1)] by (simp add: distinct_map)
  with assms(2-4) show ?thesis by (auto simp: distinct_map dest: inj_onD)
qed

lemma page_caught_up:
  assumes law: "merge_law C has" and env: "E \<in> Es" and good: "good w" and up: "caught_up has Es old (plog w) db"
    and changes: "changes = take 500 (drop (nat (pull_watermark db)) (plog w))"
    and run: "pull_page C E changes rep db = Some (res, rep', db')"
  shows "caught_up has Es old (plog w) db' \<and>
    (res = Inr () \<longrightarrow> caught_up has Es old (plog w) (set_pull_watermark (pull_watermark db + int (length changes)) db'))"
proof -
  let ?log = "plog w" and ?wm = "pull_watermark db"
  have keyed: "stash_keyed db" and wm: "0 \<le> ?wm" "nat ?wm \<le> length ?log"
    and old: "\<forall>c\<in>set (take (nat ?wm) ?log). taken_in has Es old db c"
    and known: "\<forall>u\<in>set (cd_unreadable db). u \<in> old \<or> (\<exists>c\<in>set ?log. kept_row c u)"
    using up unfolding caught_up_def by blast+
  have sub: "set changes \<subseteq> set ?log" unfolding changes by (meson set_drop_subset set_take_subset subset_trans)
  note p = pull_page_takes_in [OF law env log_names [OF good] keyed sub known run]
  then have more: "pulls_more has db db'" by blast
  then have keyed': "stash_keyed db'" and wm': "pull_watermark db' = ?wm" by (simp_all add: pulls_more_def)
  have old': "\<forall>c\<in>set (take (nat ?wm) ?log). taken_in has Es old db' c" using old taken_in_more [OF _ more] by blast
  have known': "\<forall>u\<in>set (cd_unreadable db'). u \<in> old \<or> (\<exists>c\<in>set ?log. kept_row c u)" using p by blast
  have "caught_up has Es old ?log db'" using keyed' wm wm' old' known' by (simp add: caught_up_def)
  moreover have "caught_up has Es old ?log (set_pull_watermark (?wm + int (length changes)) db')" if res: "res = Inr ()"
  proof -
    define db'' where "db'' = set_pull_watermark (?wm + int (length changes)) db'"
    have same: "cd_stash db'' = cd_stash db'" "cd_stash_next db'' = cd_stash_next db'" "cd_unreadable db'' = cd_unreadable db'"
      "\<And>c. taken_in has Es old db'' c = taken_in has Es old db' c"
      by (simp_all add: db''_def set_pull_watermark_def taken_in_def held_row_def)
    have v: "pull_watermark db'' = ?wm + int (length changes) \<or> pull_watermark db'' = 0"
      by (simp add: db''_def pull_watermark_def set_pull_watermark_def get_set_i64)
    have len: "length changes \<le> length ?log - nat ?wm" unfolding changes by simp
    have "take (nat (?wm + int (length changes))) ?log = take (nat ?wm) ?log @ changes"
    proof -
      have "take (length changes) (drop (nat ?wm) ?log) = changes" unfolding changes by (simp add: min_def)
      then show ?thesis using wm(1) by (simp add: nat_add_distrib take_add)
    qed
    moreover have "\<forall>c\<in>set changes. taken_in has Es old db' c" using p res by blast
    ultimately have "\<forall>c\<in>set (take (nat (pull_watermark db'')) ?log). taken_in has Es old db'' c"
      using v old' same(4) by (elim disjE) auto
    moreover have "stash_keyed db''" using keyed' by (simp add: stash_keyed_def stash_wf_def same(1-3))
    moreover have "0 \<le> pull_watermark db'' \<and> nat (pull_watermark db'') \<le> length ?log" using v wm len by auto
    ultimately show ?thesis unfolding db''_def [symmetric] caught_up_def same(3) using known' by blast
  qed
  ultimately show ?thesis by blast
qed

text \<open>A page, whole and cut.\<close>

lemma page_cut_synced:
  assumes law: "merge_law C has" and env: "E \<in> Es" and s: "synced has Es old (db, w)"
    and t: "t_pull T (pull_watermark db) pull_limit w = (Inr resp, w1)"
    and run: "pull_page C E (take n (pl_changes resp)) rep db = Some (res, rep', db')"
  shows "synced has Es old (db', w1)"
proof -
  have g: "good w" "0 \<le> pull_watermark db" using s by (simp_all add: synced_def caught_up_def)
  have s1: "synced has Es old (db, w1)" using s pull_grows [OF g(1) t] by (rule synced_grows)
  then have g1: "good w1" and up: "caught_up has Es old (plog w1) db" by (simp_all add: synced_def)
  have keyed: "stash_keyed db" and known: "\<forall>u\<in>set (cd_unreadable db). u \<in> old \<or> (\<exists>c\<in>set (plog w1). kept_row c u)"
    using up unfolding caught_up_def by blast+
  have "set (take n (pl_changes resp)) \<subseteq> set (plog w1)"
    using page [OF g t] by (metis set_drop_subset set_take_subset subset_trans)
  note p = pull_page_takes_in [OF law env log_names [OF g1] keyed this known run]
  then have more: "pulls_more has db db'" by blast
  then have v: "stash_keyed db'" "pull_watermark db' = pull_watermark db" by (simp_all add: pulls_more_def)
  have "\<forall>c\<in>set (take (nat (pull_watermark db')) (plog w1)). taken_in has Es old db' c"
    using up taken_in_more [OF _ more] unfolding v(2) caught_up_def by blast
  then have "caught_up has Es old (plog w1) db'" using up p unfolding caught_up_def v(2) using v(1) by blast
  with g1 show ?thesis by (simp add: synced_def)
qed

lemma page_synced:
  assumes law: "merge_law C has" and env: "E \<in> Es" and s: "synced has Es old (db, w)"
    and t: "t_pull T (pull_watermark db) pull_limit w = (Inr resp, w1)"
    and run: "pull_page C E (pl_changes resp) rep db = Some (Inr (), rep', db')"
  shows "synced has Es old (set_pull_watermark (pl_next resp) db', w1)"
proof -
  have g: "good w" "0 \<le> pull_watermark db" using s by (simp_all add: synced_def caught_up_def)
  have "synced has Es old (db, w1)" using s pull_grows [OF g(1) t] by (rule synced_grows)
  then have g1: "good w1" and up: "caught_up has Es old (plog w1) db" by (simp_all add: synced_def)
  note pg = page [OF g t]
  from page_caught_up [OF law env g1 up conjunct1 [OF pg] run] pg g1 show ?thesis by (simp add: synced_def)
qed

lemma pull_direction_synced:
  assumes law: "merge_law C has" and env: "E \<in> Es"
  shows "synced has Es old s \<Longrightarrow> pull_direction C E T fuel rep s = Some (r, rep', s') \<Longrightarrow> synced has Es old s'"
proof (induction fuel arbitrary: rep s)
  case (Suc fuel)
  obtain db w where s: "s = (db, w)" by fastforce
  obtain res w1 where t: "t_pull T (pull_watermark db) pull_limit w = (res, w1)" by fastforce
  have s0: "good w" "caught_up has Es old (plog w) db" using Suc.prems(1) by (simp_all add: s synced_def)
  have s1: "synced has Es old (db, w1)" using Suc.prems(1) pull_grows [OF s0(1) t] unfolding s by (rule synced_grows)
  have g1: "good w1" "caught_up has Es old (plog w1) db" using s1 by (simp_all add: synced_def)
  have wm: "0 \<le> pull_watermark db" using s0(2) by (simp add: caught_up_def)
  show ?case
  proof (cases res)
    case (Inl e)
    with Suc.prems(2) s1 t show ?thesis by (simp add: s)
  next
    case (Inr resp)
    note pg = page [OF s0(1) wm t [unfolded Inr]]
    let ?rep1 = "rep\<lparr>dr_relay_capability := Some (page_levels resp)\<rparr>"
    show ?thesis
    proof (cases "pl_changes resp = []")
      case True
      with Suc.prems(2) s1 t Inr show ?thesis by (simp add: s Let_def)
    next
      case False
      show ?thesis
      proof (cases "pull_page C E (pl_changes resp) ?rep1 db")
        case None
        with Suc.prems(2) t Inr False show ?thesis by (simp add: s Let_def)
      next
        case (Some x)
        obtain pr rep2 db2 where x: "x = (pr, rep2, db2)" by (metis surj_pair)
        note pc = page_caught_up [OF law env g1 conjunct1 [OF pg] Some [unfolded x]]
        show ?thesis
        proof (cases pr)
          case (Inl e)
          with Suc.prems(2) t Inr False Some x have "s' = (db2, w1)" by (simp add: s Let_def)
          with pc g1 show ?thesis by (simp add: synced_def)
        next
          case (Inr u)
          have up: "synced has Es old (set_pull_watermark (pl_next resp) db2, w1)"
            using pc pg g1 Inr by (simp add: synced_def)
          show ?thesis
          proof (cases "pl_has_more resp")
            case True
            then have "pull_direction C E T fuel rep2 (set_pull_watermark (pl_next resp) db2, w1) = Some (r, rep', s')"
              using Suc.prems(2) t \<open>res = Inr resp\<close> False Some x Inr by (simp add: s Let_def)
            with Suc.IH up show ?thesis by blast
          next
            case nm: False
            then have "s' = (set_pull_watermark (pl_next resp) db2, w1)"
              using Suc.prems(2) t \<open>res = Inr resp\<close> False Some x Inr by (simp add: s Let_def)
            with up show ?thesis by simp
          qed
        qed
      qed
    qed
  qed
qed simp

lemma drain_once_synced:
  assumes law: "merge_law C has" and env: "E \<in> Es" and s: "synced has Es old s" and run: "drain_once C E T fuel s = Some (r, s')"
  shows "synced has Es old s'"
proof -
  obtain pushed s1 where p: "push_direction C E T s = Some (pushed, s1)"
    using run by (auto simp: drain_once_def split: option.splits)
  note s1 = push_direction_synced [OF s p]
  define rep1 where "rep1 = (case pushed of Inr (n, tip) \<Rightarrow> fold_server_max tip (empty_report\<lparr>dr_pushed := n\<rparr>)
             | Inl e \<Rightarrow> empty_report\<lparr>dr_push_error := Some e\<rparr>)"
  obtain pulled rep2 s2 where q: "pull_direction C E T fuel rep1 s1 = Some (pulled, rep2, s2)"
    using run p by (auto simp: drain_once_def rep1_def Let_def split: option.splits)
  note s2 = pull_direction_synced [OF law env s1 q]
  define rep3 where "rep3 = (case pulled of Inl e \<Rightarrow> rep2\<lparr>dr_pull_error := Some e\<rparr> | Inr _ \<Rightarrow> rep2)"
  have s3: "synced has Es old (settle_gate rep3 (fst s2), snd s2)" using s2 synced_view [of has Es old "fst s2" "snd s2"] by simp
  obtain rr db4 where y: "replay_pending C (settle_gate rep3 (fst s2)) = (rr, db4)" by fastforce
  have "s' = (db4, snd s2)"
    using run p q y by (cases rr) (simp_all add: drain_once_def rep1_def rep3_def Let_def)
  with replay_pending_caught_up [OF law _ y] s3 show ?thesis by (simp add: synced_def)
qed

end

end
