(* ===== verification/Convergence.thy ===== *)
theory Convergence
  imports Drain
begin

text \<open>
  The drain against the relay of this repository: the relay keeps the contract that pulling relies on
  (\<open>rl\<close>), a device's life is \<open>client_run\<close>, and what follows for the devices of a tenant.
\<close>

definition relay_log :: "relay_setup \<Rightarrow> relay_world \<Rightarrow> pulled_change list" where
  "relay_log R w = map (pulled_of (rc_crates R)) (tenant_log (au_tenant (rc_auth R)) (ps_db (rw_relay w)))"

subsection \<open>The relay keeps the pull contract\<close>

lemma pulled_of_cong: "entry_row r = entry_row r' \<Longrightarrow> cs_seq r = cs_seq r' \<Longrightarrow> pulled_of X r = pulled_of X r'"
  by (simp add: pulled_of_def entry_row_def row_key_def)

lemma relay_log_ext:
  assumes good: "relay_good R w" and ext: "relay_ext (au_tenant (rc_auth R)) (rw_relay w) (rw_relay w')"
  shows "relay_good R w' \<and> (\<exists>new. relay_log R w' = relay_log R w @ new)"
proof -
  let ?t = "au_tenant (rc_auth R)"
  let ?l = "tenant_log ?t (ps_db (rw_relay w))" and ?l' = "tenant_log ?t (ps_db (rw_relay w'))"
  have d: "dense ?t (ps_db (rw_relay w))" "dense ?t (ps_db (rw_relay w'))" using good ext by (simp_all add: relay_good_def relay_ext_def)
  obtain new where new: "map entry_row ?l' = map entry_row ?l @ new" using ext by (auto simp: relay_ext_def abs_log_def)
  have len: "length ?l' = length ?l + length new" using arg_cong [OF new, of length] by simp
  have "pulled_of (rc_crates R) (?l' ! i) = pulled_of (rc_crates R) (?l ! i)" if i: "i < length ?l" for i
  proof (rule pulled_of_cong)
    have "map entry_row ?l' ! i = map entry_row ?l ! i" unfolding new using i by (simp add: nth_append)
    then show "entry_row (?l' ! i) = entry_row (?l ! i)" using i len by simp
    show "cs_seq (?l' ! i) = cs_seq (?l ! i)" using dense_nth [OF d(1) i] dense_nth [OF d(2), of i] i len by simp
  qed
  then have "take (length ?l) (relay_log R w') = relay_log R w"
    using len by (intro nth_equalityI) (simp_all add: relay_log_def)
  then have "relay_log R w' = relay_log R w @ drop (length ?l) (relay_log R w')" by (metis append_take_drop_id)
  with d show ?thesis by (auto simp: relay_good_def)
qed

lemma pull_read:
  assumes "run_tx_join (pull X now auth h since (Some limit)) d = (d', res)"
  shows "changesets d' = changesets d \<and> seqs d' = seqs d \<and>
    (\<forall>resp. res = Inr resp \<longrightarrow> (\<exists>levels. resp = page_of X (au_tenant auth) since (clamp_page (Some limit)) levels d'))"
proof (cases "pull X now auth h since (Some limit) d")
  case (Inl e)
  with assms show ?thesis by (auto simp: run_tx_join_def)
next
  case (Inr y)
  obtain x d1 where y: "y = (x, d1)" by fastforce
  with assms Inr have r: "d' = d1" "res = x" by (simp_all add: run_tx_join_def)
  obtain level levels d0 where g: "lock_floor (au_tenant auth) d = Inr (levels, d0)"
    "if level < required_sync_capability levels
       then x = Inl (app_error.UpdateRequired levels) \<and> d1 = stamp_device now (au_tenant auth) (au_client auth) level d0
       else tx_read (\<lambda>d. Inr (page_of X (au_tenant auth) since (clamp_page (Some limit)) levels d))
              (stamp_device now (au_tenant auth) (au_client auth) level d0) = Inr (x, d1)"
    using Inr unfolding y pull_def gated_read_Inr by blast
  have "d0 = with_floor (au_tenant auth) d" using g(1) by (simp add: lock_floor_Inr)
  then have same: "changesets d1 = changesets d" "seqs d1 = seqs d"
    using g(2) by (auto simp: tx_read_eq stamp_device_def with_floor_def split: if_splits option.splits)
  moreover have "\<exists>levels. resp = page_of X (au_tenant auth) since (clamp_page (Some limit)) levels d1" if "x = Inr resp" for resp
    using g(2) that by (auto simp: tx_read_eq split: if_splits)
  ultimately show ?thesis using r by blast
qed

lemma clamp_pull_limit: "clamp_page (Some pull_limit) = 500"
  by (simp add: clamp_page_def pull_limit_def max_limit_def)

lemma relay_pull_step:
  assumes good: "relay_good R w" and run: "t_pull (relay_transport R) since limit w = (res, w')"
  shows "relay_ext (au_tenant (rc_auth R)) (rw_relay w) (rw_relay w') \<and>
    (\<forall>resp. res = Inr resp \<longrightarrow>
      (\<exists>levels. resp = page_of (rc_crates R) (au_tenant (rc_auth R)) since (clamp_page (Some limit)) levels (ps_db (rw_relay w'))))"
proof -
  let ?t = "au_tenant (rc_auth R)"
  let ?h = "\<lambda>env. in_db_join (pull (rc_crates R) (pe_now env) (rc_auth R) own_level since (Some limit))"
  obtain reply where ex: "exchange R ?h w = (reply, w')" and res: "res = gated_result sync_capability_level reply"
    using run by (cases "exchange R ?h w") (simp add: relay_transport_def)
  have h: "relay_ext ?t s s' \<and> (\<forall>resp. ans = Inr resp \<longrightarrow>
      (\<exists>levels. resp = page_of (rc_crates R) ?t since (clamp_page (Some limit)) levels (ps_db s')))"
    if d: "dense ?t (ps_db s)" and run: "?h env s = (s', ans)" for env s s' ans
  proof -
    obtain d' where d': "run_tx_join (pull (rc_crates R) (pe_now env) (rc_auth R) own_level since (Some limit)) (ps_db s) = (d', ans)"
      "s' = s\<lparr>ps_db := d'\<rparr>" using run by (auto simp: in_db_join_def split: prod.splits)
    note p = pull_read [OF d'(1)]
    then have same: "changesets d' = changesets (ps_db s)" "seqs d' = seqs (ps_db s)" by blast+
    have "relay_ext ?t s s'" using d same_log_db [OF same, of ?t] unfolding relay_ext_def d'(2) by simp
    with p show ?thesis unfolding d'(2) by simp
  qed
  have "relay_ext ?t (rw_relay w) (rw_relay w')" by (rule exchange_ext [OF good ex]) (rule conjunct1 [OF h])
  moreover have "\<exists>levels. resp = page_of (rc_crates R) ?t since (clamp_page (Some limit)) levels (ps_db (rw_relay w'))"
    if resp: "res = Inr resp" for resp
    using ex
  proof (cases rule: exchange_cases)
    case (lost f)
    with res resp show ?thesis by simp
  next
    case (handled ans env)
    have "ans = Inr resp"
    proof (cases "reply = answer_of ans")
      case True
      with res resp have "gated_result sync_capability_level (answer_of ans) = Inr resp" by simp
      then show ?thesis by (rule gated_result_Inr)
    next
      case False
      then obtain f where "reply = SendFailed f" using handled(2) by blast
      with res resp show ?thesis by simp
    qed
    moreover have "dense ?t (ps_db (after_others R w))" using after_others_ext [OF good] by (simp add: relay_ext_def)
    ultimately show ?thesis using h [OF _ handled(1)] by blast
  qed
  ultimately show ?thesis by blast
qed

interpretation rl: pull_contract "relay_transport R" "relay_good R" "relay_log R" for R
proof unfold_locales
  fix w assume "relay_good R w"
  then show "map pu_seq (relay_log R w) = map int [1..<Suc (length (relay_log R w))]"
    using dense_seqs [of "au_tenant (rc_auth R)" "ps_db (rw_relay w)"]
    by (simp add: relay_good_def relay_log_def comp_def pulled_of_def)
next
  fix w since resp w'
  assume a: "relay_good R w" "0 \<le> since" "t_pull (relay_transport R) since pull_limit w = (Inr resp, w')"
  let ?t = "au_tenant (rc_auth R)"
  obtain levels where p: "resp = page_of (rc_crates R) ?t since 500 levels (ps_db (rw_relay w'))"
    using relay_pull_step [OF a(1,3)] unfolding clamp_pull_limit by blast
  have d: "dense ?t (ps_db (rw_relay w'))" using relay_pull_step [OF a(1,3)] by (simp add: relay_ext_def)
  show "pl_changes resp = take 500 (drop (nat since) (relay_log R w')) \<and> pl_next resp = since + int (length (pl_changes resp)) \<and>
      (pl_has_more resp \<longleftrightarrow> since + 500 < int (length (relay_log R w')))"
    unfolding p relay_log_def using page_of_dense [OF d a(2), of 500 "rc_crates R" levels]
    by (simp add: take_map drop_map)
next
  fix w since limit pres w'
  assume a: "relay_good R w" "t_pull (relay_transport R) since limit w = (pres, w')"
  from relay_log_ext [OF a(1) conjunct1 [OF relay_pull_step [OF a]]]
  show "relay_good R w' \<and> (\<exists>new. relay_log R w' = relay_log R w @ new)" .
next
  fix w cs level ures w'
  assume a: "relay_good R w" "t_push (relay_transport R) cs level w = (ures, w')"
  from relay_log_ext [OF a(1) conjunct1 [OF relay_push_step [OF a]]]
  show "relay_good R w' \<and> (\<exists>new. relay_log R w' = relay_log R w @ new)" .
next
  fix w level rres w'
  assume a: "relay_good R w" "t_raise (relay_transport R) level w = (rres, w')"
  from relay_log_ext [OF a(1) relay_raise_step [OF a]]
  show "relay_good R w' \<and> (\<exists>new. relay_log R w' = relay_log R w @ new)" .
next
  fix w cres w'
  assume a: "relay_good R w" "t_completeness (relay_transport R) w = (cres, w')"
  from relay_log_ext [OF a(1) conjunct1 [OF relay_completeness_step [OF a]]]
  show "relay_good R w' \<and> (\<exists>new. relay_log R w' = relay_log R w @ new)" .
next
  fix w now w'
  assume a: "relay_good R w" "t_now (relay_transport R) w = (now, w')"
  then have "rw_relay w' = rw_relay w" by (auto simp: relay_transport_def tick_def)
  with a(1) show "relay_good R w' \<and> (\<exists>new. relay_log R w' = relay_log R w @ new)"
    by (simp add: relay_good_def relay_log_def)
qed

subsection \<open>The life of a device\<close>

text \<open>It starts empty, at any moment of the relay, in an account (\<open>R\<close>: the relay, its network and the
  tenant). It drains, in any environment of \<open>Es\<close> (its keys change); the app writes and the schema
  migrates, which loses no merged row; a new connection drops the session's tables; a retry works through
  the crypto quarantine. It may crash in the middle: the push half is cut anywhere (it never touches what
  a pull writes); a page is taken and the watermark set, and then the loop is cut; a page is cut after
  some of its changes, before the watermark moves; a retry is cut after some of its rows, or between the
  merge of a row and its removal; a replay is cut. And another account signs in: its log is another one,
  from then on its own environments count, and what the quarantine held is \<open>old\<close>.\<close>

inductive client_run :: "'d crsql \<Rightarrow> ('d \<Rightarrow> change_row \<Rightarrow> bool) \<Rightarrow> capture_env set \<Rightarrow> relay_setup \<Rightarrow> unreadable_row set
    \<Rightarrow> ('d, relay_world) client \<Rightarrow> bool"
  for C has where
  cr_start: "relay_good R w \<Longrightarrow> client_run C has Es R {} (fresh_client d, w)"
| cr_drain: "client_run C has Es R old s \<Longrightarrow> E \<in> Es \<Longrightarrow> drain_once C E (relay_transport R) fuel s = Some (res, s') \<Longrightarrow>
    client_run C has Es R old s'"
| cr_work: "client_run C has Es R old (db, w) \<Longrightarrow> (\<forall>r. has (cd_crr db) r \<longrightarrow> has d r) \<Longrightarrow>
    client_run C has Es R old (db\<lparr>cd_crr := d\<rparr>, w)"
| cr_reconnect: "client_run C has Es R old (db, w) \<Longrightarrow> client_run C has Es R old (db\<lparr>cd_markers := {}, cd_backoff := None\<rparr>, w)"
| cr_retry: "client_run C has Es R old (db, w) \<Longrightarrow> E \<in> Es \<Longrightarrow> uuid_law parse_uuid \<Longrightarrow>
    retry_crypto_quarantine C E parse_uuid db = Some (rep, db') \<Longrightarrow> client_run C has Es R old (db', w)"
| cr_cut_push: "client_run C has Es R old (db, w) \<Longrightarrow> pull_view db' = pull_view db \<Longrightarrow>
    relay_ext (au_tenant (rc_auth R)) (rw_relay w) (rw_relay w') \<Longrightarrow> client_run C has Es R old (db', w')"
| cr_page: "client_run C has Es R old (db, w) \<Longrightarrow> E \<in> Es \<Longrightarrow>
    t_pull (relay_transport R) (pull_watermark db) pull_limit w = (Inr resp, w1) \<Longrightarrow>
    pull_page C E (pl_changes resp) r0 db = Some (Inr (), r1, db') \<Longrightarrow>
    client_run C has Es R old (set_pull_watermark (pl_next resp) db', w1)"
| cr_cut_page: "client_run C has Es R old (db, w) \<Longrightarrow> E \<in> Es \<Longrightarrow>
    t_pull (relay_transport R) (pull_watermark db) pull_limit w = (Inr resp, w1) \<Longrightarrow>
    pull_page C E (take n (pl_changes resp)) r0 db = Some (pres, r1, db') \<Longrightarrow> client_run C has Es R old (db', w1)"
| cr_cut_retry: "client_run C has Es R old (db, w) \<Longrightarrow> E \<in> Es \<Longrightarrow> uuid_law parse_uuid \<Longrightarrow>
    retry_loop C E parse_uuid (take n (sort_key ur_seq (cd_unreadable db))) q0 db = Some (rep, db') \<Longrightarrow>
    client_run C has Es R old (db', w)"
| cr_cut_merge: "client_run C has Es R old (db, w) \<Longrightarrow> decode_pulled_changeset E c = Some (Inr rows) \<Longrightarrow>
    merge_changeset C rows db = Inr (n, db') \<Longrightarrow> client_run C has Es R old (db', w)"
| cr_cut_replay: "client_run C has Es R old (db, w) \<Longrightarrow>
    replay_loop C (take n (candidates db)) replay_start db = (rres, db') \<Longrightarrow> client_run C has Es R old (db', w)"
| cr_switch: "client_run C has Es R old (db, w) \<Longrightarrow> relay_good R' w' \<Longrightarrow>
    get_str k_bound_tenant db \<noteq> Some (show_uuid (au_tenant (rc_auth R'))) \<Longrightarrow>
    client_run C has Es' R' (old \<union> set (cd_unreadable db)) (reconcile_account_binding (au_tenant (rc_auth R')) db, w')"

lemma switched_watermark:
  assumes "get_str k_bound_tenant db \<noteq> Some (show_uuid t)"
  shows "pull_watermark (reconcile_account_binding t db) = 0"
proof -
  have "pull_watermark ((set_push_watermark 0 (set_pull_watermark 0 db))\<lparr>cd_outbox := []\<rparr>) = 0"
    by (simp add: pull_watermark_def set_push_watermark_def set_pull_watermark_def get_set_i64 get_i64_def [of k_pull_wm "_\<lparr>cd_outbox := []\<rparr>"])
  then show ?thesis using assms
    by (simp add: reconcile_account_binding_def reset_sync_state_for_new_binding_def pull_watermark_def get_i64_def get_str_def
      set_str_def k_bound_tenant_def k_pull_wm_def)
qed

lemma client_run_synced:
  assumes law: "merge_law C has"
  shows "client_run C has Es R old s \<Longrightarrow> rl.synced R has Es old s"
proof (induction rule: client_run.induct)
  case (cr_start R w Es d)
  have "pull_watermark (fresh_client d) = 0"
    by (simp add: pull_watermark_def get_i64_def get_str_def fresh_client_def)
  with cr_start show ?case
    by (simp add: rl.synced_def caught_up_def stash_keyed_def stash_wf_def) (simp add: fresh_client_def)
next
  case (cr_drain Es R old s E fuel res s')
  from rl.drain_once_synced [OF law cr_drain.hyps(2) cr_drain.IH cr_drain.hyps(3)] show ?case .
next
  case (cr_work Es R old db w d)
  have "stash_keyed db" using cr_work.IH by (simp add: rl.synced_def caught_up_def)
  then have "pulls_more has db (db\<lparr>cd_crr := d\<rparr>)"
    using cr_work.hyps(2) by (simp add: pulls_more_def stash_keyed_def stash_wf_def pull_watermark_def held_row_def)
  with cr_work.IH caught_up_more [of has Es old _ db "db\<lparr>cd_crr := d\<rparr>"] show ?case by (simp add: rl.synced_def)
next
  case (cr_reconnect Es R old db w)
  have "pull_view (db\<lparr>cd_markers := {}, cd_backoff := None\<rparr>) = pull_view db" by (simp add: pull_view_def pull_watermark_def)
  from rl.synced_view [OF cr_reconnect.IH this] show ?case .
next
  case (cr_retry Es R old db w E parse_uuid rep db')
  from cr_retry.IH retry_caught_up [OF law cr_retry.hyps(2,3) _ cr_retry.hyps(4) [unfolded retry_crypto_quarantine_def]]
  show ?case by (simp add: rl.synced_def)
next
  case (cr_cut_push Es R old db w db' w')
  have "relay_good R w" using cr_cut_push.IH by (simp add: rl.synced_def)
  from rl.synced_grows [OF rl.synced_view [OF cr_cut_push.IH cr_cut_push.hyps(2)] relay_log_ext [OF this cr_cut_push.hyps(3)]]
  show ?case .
next
  case (cr_page Es R old db w E resp w1 r0 r1 db')
  from rl.page_synced [OF law cr_page.hyps(2) cr_page.IH cr_page.hyps(3,4)] show ?case .
next
  case (cr_cut_page Es R old db w E resp w1 n r0 pres r1 db')
  from rl.page_cut_synced [OF law cr_cut_page.hyps(2) cr_cut_page.IH cr_cut_page.hyps(3,4)] show ?case .
next
  case (cr_cut_retry Es R old db w E parse_uuid n q0 rep db')
  have "set (take n (sort_key ur_seq (cd_unreadable db))) \<subseteq> set (cd_unreadable db)" by (auto dest: in_set_takeD)
  from cr_cut_retry.IH retry_caught_up [OF law cr_cut_retry.hyps(2,3) _ cr_cut_retry.hyps(4) this]
  show ?case by (simp add: rl.synced_def)
next
  case (cr_cut_merge Es R old db w E c rows n db')
  have keyed: "stash_keyed db" using cr_cut_merge.IH by (simp add: rl.synced_def caught_up_def)
  note wf = decode_pulled_wf [OF cr_cut_merge.hyps(2)]
  have "pulls_more has db db'" "cd_unreadable db' = cd_unreadable db"
    using pulls_more_merge [OF law keyed wf cr_cut_merge.hyps(3)] merge_takes_in [OF law keyed wf cr_cut_merge.hyps(3)] by blast+
  with cr_cut_merge.IH caught_up_more [of has Es old _ db db'] show ?case by (simp add: rl.synced_def)
next
  case (cr_cut_replay Es R old db w n rres db')
  from cr_cut_replay.IH replay_cut_caught_up [OF law _ cr_cut_replay.hyps(2)] show ?case by (simp add: rl.synced_def)
next
  case (cr_switch Es R old db w R' w' Es')
  have "stash_keyed (reconcile_account_binding (au_tenant (rc_auth R')) db)"
    using cr_switch.IH by (simp add: rl.synced_def caught_up_def stash_keyed_def stash_wf_def reconcile_keeps_quarantine)
  with cr_switch.hyps(2,3) show ?case
    by (simp add: rl.synced_def caught_up_def switched_watermark reconcile_keeps_quarantine)
qed

lemma mem_take_seq:
  assumes "map pu_seq log = map int [1..<Suc (length log)]" and "c \<in> set log" and "pu_seq c \<le> v"
  shows "c \<in> set (take (nat v) log)"
proof -
  obtain i where i: "i < length log" "log ! i = c" using assms(2) by (metis in_set_conv_nth)
  have "map pu_seq log ! i = map int [1..<Suc (length log)] ! i" by (simp only: assms(1))
  then have "pu_seq c = int i + 1" using i by (simp del: upt_Suc)
  then have "i < nat v" using assms(3) by linarith
  then show ?thesis using i by (metis in_set_conv_nth length_take min_less_iff_conj nth_take)
qed

text \<open>A relay entry is a change of the log.\<close>

lemma relay_holds_change:
  assumes "relay_holds R w (author, q) = Some b"
  shows "\<exists>c\<in>set (relay_log R w). pu_client c = author \<and> pu_client_seq c = q \<and> pu_ciphertext c = b64_enc (rc_crates R) b"
proof -
  let ?t = "au_tenant (rc_auth R)"
  obtain v where v: "map_of (abs_log ?t (ps_db (rw_relay w))) (author, q) = Some v" "fst v = b"
    using assms by (auto simp: relay_holds_def)
  from map_of_SomeD [OF v(1)] obtain r where r: "r \<in> set (tenant_log ?t (ps_db (rw_relay w)))" "entry_row r = ((author, q), v)"
    by (auto simp: abs_log_def)
  then have "pulled_of (rc_crates R) r \<in> set (relay_log R w)" by (simp add: relay_log_def)
  moreover have "cs_client r = author" "cs_client_seq r = q" "cs_ciphertext r = b"
    using r(2) v(2) by (auto simp: entry_row_def row_key_def)
  ultimately show ?thesis by (intro bexI [of _ "pulled_of (rc_crates R) r"]) (simp_all add: pulled_of_def)
qed

lemma relay_holds_log:
  assumes "b64_law (rc_crates R)"
  shows "relay_holds R w k = map_of (map (\<lambda>c. ((pu_client c, pu_client_seq c), the (b64_dec (rc_crates R) (pu_ciphertext c)))) (relay_log R w)) k"
proof -
  have "map_option fst (map_of (map entry_row rows) k) = map_of (map (\<lambda>c. ((pu_client c, pu_client_seq c),
      the (b64_dec (rc_crates R) (pu_ciphertext c)))) (map (pulled_of (rc_crates R)) rows)) k" for rows
    using assms by (induction rows) (auto simp: entry_row_def row_key_def pulled_of_def b64_law_def)
  then show ?thesis by (simp add: relay_holds_def abs_log_def relay_log_def del: map_map)
qed

lemma decode_encrypted:
  assumes "b64_law (ce_crates E)" and "hmac_law (ce_crates E)" and "aead_law (ce_aead E)"
    and "length data_key = 32" "length wrap_nonce = 24" "length ct_nonce = 24" and "wf_changeset rows"
    and "changeset_encrypt (ce_crates E) (ce_aead E) (ce_cipher E) (pu_client c) (pu_client_seq c) data_key wrap_nonce ct_nonce
      (encode_changeset rows) = Some (Inr b)"
    and "pu_ciphertext c = b64_enc (ce_crates E) b"
  shows "decode_pulled_changeset E c = Some (Inr rows)"
proof -
  from encrypt_decrypt [OF assms(2-6), of "ce_cipher E" "pu_client c" "pu_client_seq c" "encode_changeset rows"] assms(8)
  have "changeset_decrypt (ce_crates E) (ce_aead E) (ce_cipher E) (pu_client c) (pu_client_seq c) b = Some (Inr (encode_changeset rows))"
    by auto
  moreover have "decode_changeset (encode_changeset rows) = Inr rows" using decode_encode [OF assms(7), of "[]"] by simp
  ultimately show ?thesis using assms(1,9) by (simp add: decode_pulled_changeset_def b64_law_def)
qed

subsection \<open>A pull reaches the tip\<close>

text \<open>Nobody else pushes, nothing is lost, and the device's level reaches the floor.\<close>

definition quiet_relay :: "relay_setup \<Rightarrow> relay_world \<Rightarrow> bool" where
  "quiet_relay R w \<longleftrightarrow> rc_fault R = (\<lambda>_. Delivered) \<and> rc_others R = (\<lambda>_. []) \<and> relay_good R w \<and>
     (\<exists>ws\<in>set (workspaces (ps_db (rw_relay w))). ws_id ws = au_tenant (rc_auth R)) \<and>
     floor_level (au_tenant (rc_auth R)) (ps_db (rw_relay w)) \<le> sync_capability_level"

lemma own_level_header: "header_level own_level h = Inr sync_capability_level"
proof -
  have "parse_i32 (trim (show_int 1)) = Some 1" by code_simp
  then show ?thesis by (simp add: header_level_def own_level_def sync_capability_level_def table_readiness_level_def)
qed

lemma quiet_pull:
  assumes q: "quiet_relay R w"
  shows "\<exists>resp w'. t_pull (relay_transport R) since limit w = (Inr resp, w') \<and> quiet_relay R w' \<and> relay_log R w' = relay_log R w"
proof -
  let ?t = "au_tenant (rc_auth R)" and ?d = "ps_db (rw_relay w)" and ?env = "rc_env R (rw_tick w)"
  obtain levels d1 where l: "lock_floor ?t ?d = Inr (levels, d1)" "required_sync_capability levels = floor_level ?t ?d" "d1 = with_floor ?t ?d"
    using q by (auto simp: quiet_relay_def lock_floor_Inr)
  define d2 where "d2 = seen_db (pe_now ?env) (rc_auth R) sync_capability_level ?d"
  let ?resp = "page_of (rc_crates R) ?t since (clamp_page (Some limit)) levels d2"
  have "pull (rc_crates R) (pe_now ?env) (rc_auth R) own_level since (Some limit) ?d = Inr (Inr ?resp, d2)"
    unfolding pull_def gated_read_Inr
    by (intro exI [of _ sync_capability_level] exI [of _ levels] exI [of _ d1] conjI own_level_header l(1))
      (use q l in \<open>simp add: quiet_relay_def tx_read_eq d2_def seen_db_def\<close>)
  then have run: "run_tx_join (pull (rc_crates R) (pe_now ?env) (rc_auth R) own_level since (Some limit)) ?d = (d2, Inr ?resp)"
    by (simp add: run_tx_join_def)
  have others: "after_others R w = rw_relay w" using q by (simp add: after_others_def quiet_relay_def)
  define w' where "w' = (tick w)\<lparr>rw_relay := (rw_relay w)\<lparr>ps_db := d2\<rparr>\<rparr>"
  have t: "t_pull (relay_transport R) since limit w = (Inr ?resp, w')"
    using q by (simp add: relay_transport_def exchange_def quiet_relay_def others in_db_join_def run w'_def gated_result_def answer_of_def
      check_capability_def check_auth_def classify_status_def read_json_def)
  have good: "relay_good R w'" using rl.pull_grows [OF _ t] q by (simp add: quiet_relay_def)
  have same: "changesets d2 = changesets ?d" "workspaces d2 = workspaces ?d"
    by (simp_all add: d2_def seen_db_def stamp_device_def with_floor_def split: option.splits)
  then have "relay_log R w' = relay_log R w" by (simp add: relay_log_def w'_def tenant_log_def)
  moreover have "quiet_relay R w'" using q good same by (simp add: quiet_relay_def w'_def d2_def)
  ultimately show ?thesis using t by blast
qed

text \<open>The only failure of a merge: the extension refuses a row whose table and column exist.\<close>

definition refuses :: "'d crsql \<Rightarrow> change_row list \<Rightarrow> 'd client_db \<Rightarrow> bool" where
  "refuses C rows db \<longleftrightarrow> (\<exists>pre r post d. filter (\<lambda>x. \<not> queued C db x) rows = pre @ r # post \<and>
     apply_all C pre (cd_crr db) = Some d \<and> ready C r d \<and> crr_apply C r d = None)"

lemma apply_all_None:
  "apply_all C rs d = None \<Longrightarrow> \<exists>pre r post d'. rs = pre @ r # post \<and> apply_all C pre d = Some d' \<and> crr_apply C r d' = None"
proof (induction rs arbitrary: d)
  case (Cons r rs)
  show ?case
  proof (cases "crr_apply C r d")
    case None
    then show ?thesis by (intro exI [of _ "[]"] exI [of _ r] exI [of _ rs] exI [of _ d]) simp
  next
    case (Some d1)
    with Cons.prems have "apply_all C rs d1 = None" by simp
    with Cons.IH obtain pre r' post d' where "rs = pre @ r' # post" "apply_all C pre d1 = Some d'" "crr_apply C r' d' = None"
      by blast
    with Some show ?thesis by (intro exI [of _ "r # pre"] exI [of _ r'] exI [of _ post] exI [of _ d']) simp
  qed
qed simp

lemma apply_all_schema: "schema_law C \<Longrightarrow> apply_all C rs d = Some d' \<Longrightarrow> ready C r d' = ready C r d"
proof (induction rs arbitrary: d)
  case (Cons x rs)
  then obtain d1 where d1: "crr_apply C x d = Some d1" "apply_all C rs d1 = Some d'" by (auto split: bind_splits)
  have "same_schema C d1 d" using Cons.prems(1) d1(1) unfolding schema_law_def by blast
  from Cons.IH [OF Cons.prems(1) d1(2)] ready_same [OF this] show ?case by simp
qed simp

lemma merge_outcome:
  assumes law: "schema_law C" and wf: "stash_wf db"
  shows "(\<exists>counts db'. merge_changeset C rows db = Inr (counts, db')) \<or>
    (\<exists>e. merge_changeset C rows db = Inl e) \<and> refuses C rows db"
proof (cases "apply_all C (filter (\<lambda>r. \<not> queued C db r) rows) (cd_crr db)")
  case None
  from apply_all_None [OF None] obtain pre r post d where
    at: "filter (\<lambda>r. \<not> queued C db r) rows = pre @ r # post" "apply_all C pre (cd_crr db) = Some d" "crr_apply C r d = None"
    by blast
  have "r \<in> set (filter (\<lambda>r. \<not> queued C db r) rows)" unfolding at(1) by simp
  then have "ready C r (cd_crr db)" by (simp add: queued_def)
  then have "ready C r d" using apply_all_schema [OF law at(2)] by blast
  with at have "refuses C rows db" unfolding refuses_def by blast
  moreover have "\<exists>e. merge_changeset C rows db = Inl e" unfolding merge_changeset_spec [OF law wf] None by simp
  ultimately show ?thesis by blast
next
  case (Some d)
  then show ?thesis unfolding merge_changeset_spec [OF law wf] by simp
qed

lemma page_outcome:
  assumes law: "merge_law C has"
  shows "stash_keyed db \<Longrightarrow> \<forall>c\<in>set pcs. decode_pulled_changeset E c \<noteq> None \<Longrightarrow>
    \<exists>pres rep' db'. pull_page C E pcs rep db = Some (pres, rep', db') \<and> pull_watermark db' = pull_watermark db \<and> stash_keyed db' \<and>
      (pres = Inr () \<or> (\<exists>e. pres = Inl e) \<and>
        (\<exists>c\<in>set pcs. \<exists>rows. decode_pulled_changeset E c = Some (Inr rows) \<and> refuses C rows db'))"
proof (induction pcs arbitrary: rep db)
  case (Cons pc pcs)
  then obtain d where d: "decode_pulled_changeset E pc = Some d" by auto
  have rest: "\<forall>c\<in>set pcs. decode_pulled_changeset E c \<noteq> None" using Cons.prems(2) by simp
  have step: ?case if run: "\<And>x. pull_page C E pcs rep1 db1 = Some x \<Longrightarrow> pull_page C E (pc # pcs) rep db = Some x"
    and k: "stash_keyed db1" "pull_watermark db1 = pull_watermark db" for rep1 db1
    using Cons.IH [OF k(1) rest, of rep1] run k(2) by auto
  show ?case
  proof (cases d)
    case (Inl why)
    let ?db1 = "quarantine_undecryptable pc why db"
    have "stash_keyed ?db1" "pull_watermark ?db1 = pull_watermark db"
      using Cons.prems(1) by (auto simp: quarantine_undecryptable_def stash_keyed_def stash_wf_def pull_watermark_def)
    then show ?thesis
      by (intro step [of "rep\<lparr>dr_crypto_quarantined := dr_crypto_quarantined rep + 1\<rparr>" ?db1]) (simp_all add: d Inl)
  next
    case (Inr rows)
    have "schema_law C" "stash_wf db" using law Cons.prems(1) by (simp_all add: merge_law_def stash_keyed_def)
    from merge_outcome [OF this, of rows] show ?thesis
    proof (elim disjE exE conjE)
      fix counts db1 assume m: "merge_changeset C rows db = Inr (counts, db1)"
      obtain a q where c: "counts = (a, q)" by fastforce
      have wf: "\<forall>r\<in>set rows. wf_row r" using decode_pulled_wf d Inr by blast
      have "stash_keyed db1" "pull_watermark db1 = pull_watermark db" using merge_takes_in [OF law Cons.prems(1) wf m] by blast+
      then show ?thesis
        by (intro step [of "rep\<lparr>dr_applied := dr_applied rep + a, dr_quarantined := dr_quarantined rep + q\<rparr>" db1])
          (simp_all add: d Inr m c)
    next
      fix e assume "merge_changeset C rows db = Inl e" "refuses C rows db"
      with Cons.prems(1) d Inr show ?thesis by auto
    qed
  qed
qed simp

lemma pull_direction_outcome:
  assumes law: "merge_law C has" and range: "in_i64 (int (length log))"
    and total: "\<forall>c\<in>set log. decode_pulled_changeset E c \<noteq> None"
  shows "quiet_relay R w \<Longrightarrow> relay_log R w = log \<Longrightarrow> stash_keyed db \<Longrightarrow> 0 \<le> pull_watermark db \<Longrightarrow>
    nat (pull_watermark db) \<le> length log \<Longrightarrow> length log \<le> nat (pull_watermark db) + 500 * fuel \<Longrightarrow> 0 < fuel \<Longrightarrow>
    \<exists>pres rep' db' w'. pull_direction C E (relay_transport R) fuel rep (db, w) = Some (pres, rep', (db', w')) \<and>
      relay_log R w' = log \<and> pull_watermark db \<le> pull_watermark db' \<and>
      (pres = Inr () \<and> pull_watermark db' = int (length log) \<or>
       (\<exists>e. pres = Inl e) \<and> (\<exists>c\<in>set (take 500 (drop (nat (pull_watermark db')) log)). \<exists>rows.
         decode_pulled_changeset E c = Some (Inr rows) \<and> refuses C rows db'))"
proof (induction fuel arbitrary: rep db w)
  case (Suc fuel)
  let ?wm = "pull_watermark db"
  obtain resp w1 where t: "t_pull (relay_transport R) ?wm pull_limit w = (Inr resp, w1)" and q1: "quiet_relay R w1" "relay_log R w1 = log"
    using quiet_pull [OF Suc.prems(1)] Suc.prems(2) by metis
  have good: "relay_good R w" using Suc.prems(1) by (simp add: quiet_relay_def)
  note pg = rl.page [OF good Suc.prems(4) t, unfolded q1(2)]
  let ?rep1 = "rep\<lparr>dr_relay_capability := Some (page_levels resp)\<rparr>"
  show ?case
  proof (cases "pl_changes resp = []")
    case True
    then have "length log \<le> nat ?wm" using pg by simp
    with Suc.prems(4,5) have "?wm = int (length log)" by simp
    with True t q1 show ?thesis by (simp add: Let_def)
  next
    case False
    have "\<forall>c\<in>set (pl_changes resp). decode_pulled_changeset E c \<noteq> None"
      using pg total by (metis in_set_dropD in_set_takeD)
    from page_outcome [OF law Suc.prems(3) this] obtain pres rep2 db2 where
      p: "pull_page C E (pl_changes resp) ?rep1 db = Some (pres, rep2, db2)" "stash_keyed db2" "pull_watermark db2 = ?wm"
      and out: "pres = Inr () \<or> (\<exists>e. pres = Inl e) \<and>
        (\<exists>c\<in>set (pl_changes resp). \<exists>rows. decode_pulled_changeset E c = Some (Inr rows) \<and> refuses C rows db2)" by blast
    show ?thesis
    proof (cases pres)
      case (Inl e)
      with out have "\<exists>c\<in>set (pl_changes resp). \<exists>rows. decode_pulled_changeset E c = Some (Inr rows) \<and> refuses C rows db2"
        by simp
      with False t p q1 Inl pg show ?thesis by (simp add: Let_def)
    next
      case (Inr u)
      define db3 where "db3 = set_pull_watermark (pl_next resp) db2"
      have len: "length (pl_changes resp) = min (length log - nat ?wm) 500" using pg by simp
      have nxt: "pl_next resp = ?wm + int (length (pl_changes resp))" using pg by simp
      have "0 \<le> pl_next resp" "pl_next resp \<le> int (length log)"
        using nxt len Suc.prems(4,5) by linarith+
      then have wm3: "pull_watermark db3 = pl_next resp"
        using range by (simp add: db3_def machine_int_defs)
      have k3: "stash_keyed db3" using p(2) by (simp add: db3_def set_pull_watermark_def stash_keyed_def stash_wf_def)
      show ?thesis
      proof (cases "pl_has_more resp")
        case nm: False
        then have "int (length log) \<le> ?wm + 500" using pg by simp
        then have "pl_next resp = int (length log)" using nxt len Suc.prems(4,5) by linarith
        with nm False t p q1 wm3 Inr Suc.prems(4,5) show ?thesis unfolding db3_def by (simp add: Let_def)
      next
        case True
        then have more: "?wm + 500 < int (length log)" using pg by simp
        then have next500: "pl_next resp = ?wm + 500" using nxt len Suc.prems(4) by linarith
        have "0 < fuel"
        proof (rule ccontr)
          assume "\<not> 0 < fuel"
          with Suc.prems(4,6) more show False by simp
        qed
        moreover have "length log \<le> nat (pull_watermark db3) + 500 * fuel"
          using Suc.prems(4,6) unfolding wm3 next500 by (simp add: nat_add_distrib)
        moreover have "0 \<le> pull_watermark db3" "nat (pull_watermark db3) \<le> length log"
          using wm3 \<open>0 \<le> pl_next resp\<close> \<open>pl_next resp \<le> int (length log)\<close> by simp_all
        ultimately obtain pres' rep' db' w' where r: "pull_direction C E (relay_transport R) fuel rep2 (db3, w1) = Some (pres', rep', (db', w'))"
          "relay_log R w' = log" "pull_watermark db3 \<le> pull_watermark db'"
          "pres' = Inr () \<and> pull_watermark db' = int (length log) \<or>
           (\<exists>e. pres' = Inl e) \<and> (\<exists>c\<in>set (take 500 (drop (nat (pull_watermark db')) log)). \<exists>rows.
             decode_pulled_changeset E c = Some (Inr rows) \<and> refuses C rows db')"
          using Suc.IH [OF q1 k3, of rep2] by blast
        have le: "?wm \<le> pull_watermark db'" using r(3) wm3 next500 by simp
        have "pull_direction C E (relay_transport R) (Suc fuel) rep (db, w) = Some (pres', rep', (db', w'))"
          using True False t p r(1) Inr by (simp add: Let_def db3_def [symmetric])
        with r(2,4) le show ?thesis by (intro exI conjI)
      qed
    qed
  qed
qed simp

lemma rows_apply_never_refuses: "rows_apply C UNIV \<Longrightarrow> \<not> refuses C rows db"
  by (auto simp: refuses_def rows_apply_def)

text \<open>The drain of a device that has nothing to push is its pull.\<close>

lemma idle_push:
  assumes q: "quiet_relay R w" and idle: "cd_outbox db = []" "\<And>v d. read_local_changes_since C v d = []"
  shows "\<exists>r db' w'. push_direction C E (relay_transport R) (db, w) = Some (r, (db', w')) \<and> pull_view db' = pull_view db \<and>
    quiet_relay R w' \<and> relay_log R w' = relay_log R w"
proof -
  define P :: "('a, relay_world) client \<Rightarrow> bool" where "P s \<longleftrightarrow> pull_view (fst s) = pull_view db \<and> quiet_relay R (snd s) \<and>
      relay_log R (snd s) = relay_log R w \<and> cd_outbox (fst s) = []" for s
  have call: "keeps P (act_call (t_completeness (relay_transport R)))"
  proof (rule keeps_call)
    fix db0 :: "'a client_db" and w0
    assume p: "P (db0, w0)"
    then have others: "after_others R w0 = rw_relay w0" by (simp add: P_def quiet_relay_def after_others_def)
    have "rw_relay (snd (t_completeness (relay_transport R) w0)) = rw_relay w0"
      using p by (simp add: P_def quiet_relay_def relay_transport_def exchange_def others)
    with p show "P (db0, snd (t_completeness (relay_transport R) w0))"
      by (simp add: P_def quiet_relay_def relay_log_def relay_good_def)
  qed
  have dbs: "keeps P (act_db mark_seq_reconciled)" "keeps P (act_db (mark_seq_reconciled \<circ> reseed_counter_to_tail n))" for n
    by (auto intro!: keeps_db simp: P_def)
  have rec: "keeps P (reconcile_seq_counter (relay_transport R) (ce_client E))"
    unfolding reconcile_seq_counter_def relay_tail_def by (auto intro!: keep_intros call dbs)
  let ?pre = "act_bind (act_get seq_reconciled) (\<lambda>r. if \<not> r
          then act_bind (reconcile_seq_counter (relay_transport R) (ce_client E)) (\<lambda>_. act_return ()) else act_return ())"
  obtain p s1 where pre: "?pre (db, w) = (p, s1)" by (rule act_result)
  have "keeps P ?pre" by (auto intro!: keep_intros rec)
  from keepsD [OF this _ pre] have s1: "P s1" using q idle(1) by (simp add: P_def)
  have en: "enqueue_local C E (fst s1) = (Some (Inr []), fst s1)" by (simp add: enqueue_local_def idle(2))
  have turn: "push_turn T X client s1 = (Inr Drained, s1)" for T X client
    using s1 by (simp add: push_turn_def plan_batch_def outbox_metas_def unacked_def P_def)
  have "push_outbox T X client s1 = (Inr (0, None), s1)" for T :: "relay_world transport" and X client
    unfolding push_outbox_def by (subst push_loop.simps) (simp add: turn)
  then have "\<exists>r. push_direction C E (relay_transport R) (db, w) = Some (r, s1)"
    using pre en by (cases p) (simp_all add: push_direction_def)
  with s1 show ?thesis unfolding P_def by (metis prod.collapse)
qed

lemma idle_drain:
  assumes law: "rows_apply C UNIV" "merge_law C has" and q: "quiet_relay R w"
    and idle: "cd_outbox db = []" "\<And>v d. read_local_changes_since C v d = []"
    and up: "caught_up has Es old (relay_log R w) db" and env: "E \<in> Es"
    and range: "in_i64 (int (length (relay_log R w)))" and total: "\<forall>c\<in>set (relay_log R w). decode_pulled_changeset E c \<noteq> None"
    and fuel: "length (relay_log R w) \<le> nat (pull_watermark db) + 500 * fuel" "0 < fuel"
  shows "\<exists>r db' w'. drain_once C E (relay_transport R) fuel (db, w) = Some (r, (db', w')) \<and>
    pull_watermark db' = int (length (relay_log R w)) \<and> relay_log R w' = relay_log R w"
proof -
  let ?log = "relay_log R w"
  obtain r1 db1 w1 where p: "push_direction C E (relay_transport R) (db, w) = Some (r1, (db1, w1))"
    "pull_view db1 = pull_view db" "quiet_relay R w1" "relay_log R w1 = ?log" using idle_push [OF q idle] by blast
  have up1: "caught_up has Es old ?log db1" using caught_up_view [OF p(2)] up by blast
  then have k: "stash_keyed db1" "0 \<le> pull_watermark db1" "nat (pull_watermark db1) \<le> length ?log" unfolding caught_up_def by blast+
  have wm1: "pull_watermark db1 = pull_watermark db" using p(2) by (simp add: pull_view_def)
  define rep1 where "rep1 = (case r1 of Inr (n, tip) \<Rightarrow> fold_server_max tip (empty_report\<lparr>dr_pushed := n\<rparr>)
             | Inl e \<Rightarrow> empty_report\<lparr>dr_push_error := Some e\<rparr>)"
  obtain rep2 db2 w2 where d: "pull_direction C E (relay_transport R) fuel rep1 (db1, w1) = Some (Inr (), rep2, (db2, w2))"
    "pull_watermark db2 = int (length ?log)" "relay_log R w2 = ?log"
    using pull_direction_outcome [OF law(2) range total p(3,4) k, of fuel rep1] fuel wm1 rows_apply_never_refuses [OF law(1)] by auto
  have "rl.synced R has Es old (db1, w1)" using up1 p(3,4) by (simp add: rl.synced_def quiet_relay_def)
  from rl.pull_direction_synced [OF law(2) env this d(1)] have "stash_keyed db2" by (simp add: rl.synced_def caught_up_def)
  define db3 where "db3 = settle_gate rep2 db2"
  have v3: "pull_view db3 = pull_view db2" by (simp add: db3_def)
  then have k3: "stash_keyed db3" using \<open>stash_keyed db2\<close> by (simp add: pull_view_def stash_keyed_def stash_wf_def)
  obtain rr db4 where y: "replay_pending C db3 = (rr, db4)" by fastforce
  have "pull_watermark db4 = pull_watermark db3"
  proof -
    obtain r5 db5 where l: "replay_loop C (candidates db3) replay_start db3 = (r5, db5)" by fastforce
    have "distinct (map st_id (sort_key st_id (cd_stash db3)))" using k3 by (simp add: stash_keyed_def distinct_map)
    then have "pull_watermark db5 = pull_watermark db3"
      using replay_loop_more [OF law(2) k3, of "sort_key st_id (cd_stash db3)"] l by (simp add: candidates_def pulls_more_def)
    moreover have "pull_view db4 = pull_view db5" using y l by (auto simp: replay_pending_def split: sum.splits)
    ultimately show ?thesis by (simp add: pull_view_def)
  qed
  moreover have "pull_watermark db3 = int (length ?log)" using v3 d(2) by (simp add: pull_view_def)
  moreover have "\<exists>r. drain_once C E (relay_transport R) fuel (db, w) = Some (r, (db4, w2))"
    using p(1) d(1) y by (cases rr) (simp_all add: drain_once_def rep1_def db3_def Let_def)
  ultimately show ?thesis using d(3) by auto
qed

subsection \<open>Properties\<close>

text \<open>C4. The drain skips nothing. In the whole life of a device, whatever the network loses and other devices
  push meanwhile, whatever fails, wherever it crashes, whichever keys it had and whichever accounts
  signed in on it, every change of the current account's log up to the pull watermark has been decoded
  and each of its rows merged or stashed for replay, or it could not be decoded and its ciphertext is in
  the crypto quarantine under its number, author and sequence; and the watermark never passes the end of
  the log. There is one exception, for an unreadable change only and only after another account was
  signed in: a row that the quarantine still held for the other account's change of the same number (in
  \<open>old\<close>; no account switch, no such row) displaces the new ciphertext, which is then lost
  (\<open>switched_account_drops_unreadable\<close>).\<close>

theorem drain_never_skips:
  assumes "merge_law C has" and "client_run C has Es R old (db, w)"
  shows "pull_watermark db \<le> int (length (relay_log R w)) \<and>
    (\<forall>c\<in>set (relay_log R w). pu_seq c \<le> pull_watermark db \<longrightarrow>
      (\<exists>E\<in>Es. \<exists>rows. decode_pulled_changeset E c = Some (Inr rows) \<and> (\<forall>r\<in>set rows. held_row has db r)) \<or>
      (\<exists>E\<in>Es. \<exists>why. decode_pulled_changeset E c = Some (Inl why)) \<and>
        ((\<exists>u\<in>set (cd_unreadable db). kept_row c u) \<or> (\<exists>u\<in>old. ur_seq u = pu_seq c)))"
proof -
  have "rl.synced R has Es old (db, w)" by (rule client_run_synced [OF assms])
  then have up: "relay_good R w" "caught_up has Es old (relay_log R w) db" by (simp_all add: rl.synced_def)
  have "taken_in has Es old db c" if "c \<in> set (relay_log R w)" "pu_seq c \<le> pull_watermark db" for c
    using mem_take_seq [OF rl.numbered [OF up(1)] that] up(2) unfolding caught_up_def by blast
  moreover have "pull_watermark db \<le> int (length (relay_log R w))" using up(2) unfolding caught_up_def by linarith
  ultimately show ?thesis unfolding taken_in_def by blast
qed

text \<open>C6. What one device wrote reaches the others. If the relay holds a changeset that a device encrypted, then a
  device with the same keys that has drained to the end of the log has merged each of its rows, or
  holds it in the stash until the update that it waits for.\<close>

theorem rows_reach_every_device:
  assumes "merge_law C has" and "client_run C has {E} R old (db, w)" and "rc_crates R = ce_crates E"
    and "b64_law (ce_crates E)" and "hmac_law (ce_crates E)" and "aead_law (ce_aead E)"
    and "length data_key = 32" "length wrap_nonce = 24" "length ct_nonce = 24" and "wf_changeset rows"
    and "changeset_encrypt (ce_crates E) (ce_aead E) (ce_cipher E) author q data_key wrap_nonce ct_nonce
      (encode_changeset rows) = Some (Inr blob)"
    and "relay_holds R w (author, q) = Some blob" and "pull_watermark db = int (length (relay_log R w))"
  shows "\<forall>r\<in>set rows. has (cd_crr db) r \<or> (\<exists>e\<in>set (cd_stash db). decode_changeset (st_blob e) = Inr [r])"
proof -
  obtain c where c: "c \<in> set (relay_log R w)" "pu_client c = author" "pu_client_seq c = q"
    "pu_ciphertext c = b64_enc (ce_crates E) blob" using relay_holds_change [OF assms(12)] assms(3) by auto
  have dec: "decode_pulled_changeset E c = Some (Inr rows)"
    by (rule decode_encrypted [OF assms(4-10) _ c(4)]) (simp add: c(2,3) assms(11))
  have "rl.synced R has {E} old (db, w)" by (rule client_run_synced [OF assms(1,2)])
  then have up: "relay_good R w" "caught_up has {E} old (relay_log R w) db" by (simp_all add: rl.synced_def)
  have "c \<in> set (take (nat (pull_watermark db)) (relay_log R w))" using c(1) assms(13) by simp
  then have "taken_in has {E} old db c" using up(2) unfolding caught_up_def by blast
  with dec show ?thesis by (simp add: taken_in_def held_row_def)
qed

text \<open>C16. A pull ends, at the tip or at a row that the database refuses. Against a relay that answers and whose
  log stands still, with keys that never panic, the pull loop returns once its fuel covers the pages
  left, five hundred changes each. Unreadable changes do not hold it up. Either it returns without an
  error and the watermark is the end of the log, or it stops at a change of the page after the watermark
  that decodes and of which the extension refuses a row whose table and column exist; the watermark then
  stays before that page, and never goes back.\<close>

theorem pull_reaches_tip:
  assumes "merge_law C has" and "client_run C has Es R old (db, w)" and "quiet_relay R w"
    and "in_i64 (int (length (relay_log R w)))" and "\<forall>c\<in>set (relay_log R w). decode_pulled_changeset E c \<noteq> None"
    and "length (relay_log R w) \<le> nat (pull_watermark db) + 500 * fuel" and "0 < fuel"
  shows "\<exists>pres rep' db' w'. pull_direction C E (relay_transport R) fuel rep (db, w) = Some (pres, rep', (db', w')) \<and>
    relay_log R w' = relay_log R w \<and> pull_watermark db \<le> pull_watermark db' \<and>
    (pres = Inr () \<and> pull_watermark db' = int (length (relay_log R w)) \<or>
     (\<exists>e. pres = Inl e) \<and> (\<exists>c\<in>set (take 500 (drop (nat (pull_watermark db')) (relay_log R w))). \<exists>rows.
       decode_pulled_changeset E c = Some (Inr rows) \<and> refuses C rows db'))"
proof -
  have "rl.synced R has Es old (db, w)" by (rule client_run_synced [OF assms(1,2)])
  then have up: "caught_up has Es old (relay_log R w) db" by (simp add: rl.synced_def)
  then have k: "stash_keyed db" "0 \<le> pull_watermark db" "nat (pull_watermark db) \<le> length (relay_log R w)"
    unfolding caught_up_def by blast+
  show ?thesis by (rule pull_direction_outcome [OF assms(1,4,5,3) refl k assms(6,7)])
qed

text \<open>C18. A retry of the crypto quarantine loses nothing. Whether it succeeds or stops at an error, a ciphertext
  leaves the quarantine only when the keys decode it and all its rows are merged or stashed, and
  nothing held before is lost.\<close>

theorem retry_loses_nothing:
  assumes "merge_law C has" and "stash_keyed db" and "retry_crypto_quarantine C E parse_uuid db = Some (res, db')"
  shows "(\<forall>u\<in>set (cd_unreadable db). u \<in> set (cd_unreadable db') \<or> (\<exists>author rows. parse_uuid (ur_author u) = Some author \<and>
      decode_pulled_changeset E (pulled_of_row author u) = Some (Inr rows) \<and> (\<forall>r\<in>set rows. held_row has db' r))) \<and>
    (\<forall>r. held_row has db r \<longrightarrow> held_row has db' r)"
  using retry_more [OF assms] by blast

subsection \<open>Examples\<close>

text \<open>A relay that holds one changeset of one row, and a device that has its table.\<close>

definition merged :: "bool \<times> change_row set \<Rightarrow> change_row \<Rightarrow> bool" where
  "merged d r \<longleftrightarrow> r \<in> snd d"

lemma merged_law: "merge_law growing_crsql merged"
  using growing_laws(1) by (auto simp: merge_law_def merged_def split: if_splits)

definition blob_world :: "bytes \<Rightarrow> relay_world" where
  "blob_world b = \<lparr>rw_relay = \<lparr>ps_db = push_db\<lparr>changesets := [row_of 1 1 (sample_change 1 []) b], seqs := [\<lparr>sq_ws = 1, sq_next = 2\<rparr>]\<rparr>,
     ps_limiter = limiter_new 0\<rparr>, rw_tick = 0\<rparr>"

lemma blob_log: "tenant_log 1 (ps_db (rw_relay (blob_world b))) = [row_of 1 1 (sample_change 1 []) b]"
  by (simp add: tenant_log_def blob_world_def row_of_def)

lemma blob_quiet: "quiet_relay (sample_setup Delivered) (blob_world b)"
proof -
  have "dense 1 (ps_db (rw_relay (blob_world b)))"
    unfolding dense_def blob_log by (simp add: seq_of_def blob_world_def row_of_def)
  then show ?thesis
    by (simp add: quiet_relay_def sample_setup_def relay_good_def sample_auth_def)
      (simp add: blob_world_def push_db_def floor_level_def floor_of_def empty_db_def sync_capability_level_def table_readiness_level_def)
qed

lemma blob_change: "relay_log (sample_setup Delivered) (blob_world b) = [pulled_of toy_crates (row_of 1 1 (sample_change 1 []) b)]"
  by (simp add: relay_log_def sample_setup_def sample_auth_def blob_log)

lemma sample_blob:
  obtains b where "changeset_encrypt toy_crates toy_aead two_cipher 7 1 (replicate 32 7) (replicate 24 1) (replicate 24 2)
      (encode_changeset [sample_row 1]) = Some (Inr b)"
    and "decode_pulled_changeset sample_capture_env (pulled_of toy_crates (row_of 1 1 (sample_change 1 []) b)) = Some (Inr [sample_row 1])"
proof -
  have wf: "wf_changeset [sample_row 1]" using sample_row_wf by (simp add: wf_changeset_def)
  obtain b where b: "changeset_encrypt toy_crates toy_aead two_cipher 7 1 (replicate 32 7) (replicate 24 1) (replicate 24 2)
      (encode_changeset [sample_row 1]) = Some (Inr b)"
    using encrypt_decrypt [OF toy_hmac toy_aead_laws(1), of "replicate 32 7" "replicate 24 1" "replicate 24 2" two_cipher 7 1
      "encode_changeset [sample_row 1]"] by auto
  have env: "ce_crates sample_capture_env = toy_crates" "ce_aead sample_capture_env = toy_aead" "ce_cipher sample_capture_env = two_cipher"
    by (simp_all add: sample_capture_env_def)
  have "decode_pulled_changeset sample_capture_env (pulled_of toy_crates (row_of 1 1 (sample_change 1 []) b)) = Some (Inr [sample_row 1])"
    by (rule decode_encrypted [where data_key = "replicate 32 7" and wrap_nonce = "replicate 24 1" and ct_nonce = "replicate 24 2" and b = b])
      (simp_all add: env toy_b64 toy_hmac toy_aead_laws wf pulled_of_def row_of_def sample_change_def b)
  with b that show thesis by blast
qed

text \<open>The device drains once and is at the tip.\<close>

lemma sample_drained:
  obtains b db w where "client_run growing_crsql merged {sample_capture_env} (sample_setup Delivered) {} (db, w)"
    and "pull_watermark db = 1" and "relay_log (sample_setup Delivered) w = relay_log (sample_setup Delivered) (blob_world b)"
    and "changeset_encrypt toy_crates toy_aead two_cipher 7 1 (replicate 32 7) (replicate 24 1) (replicate 24 2)
      (encode_changeset [sample_row 1]) = Some (Inr b)"
    and "relay_holds (sample_setup Delivered) w (7, 1) = Some b"
proof -
  let ?R = "sample_setup Delivered" and ?E = sample_capture_env
  obtain b where b: "changeset_encrypt toy_crates toy_aead two_cipher 7 1 (replicate 32 7) (replicate 24 1) (replicate 24 2)
      (encode_changeset [sample_row 1]) = Some (Inr b)"
    "decode_pulled_changeset ?E (pulled_of toy_crates (row_of 1 1 (sample_change 1 []) b)) = Some (Inr [sample_row 1])"
    by (rule sample_blob)
  let ?w = "blob_world b" and ?d = "fresh_client (True, {}) :: (bool \<times> change_row set) client_db"
  have good: "relay_good ?R ?w" using blob_quiet by (simp add: quiet_relay_def)
  have start: "client_run growing_crsql merged {?E} ?R {} (?d, ?w)" by (rule cr_start [OF good])
  have up: "caught_up merged {?E} {} (relay_log ?R ?w) ?d"
    using client_run_synced [OF merged_law start] by (simp add: rl.synced_def)
  have idle: "read_local_changes_since growing_crsql v d = []" "cd_outbox ?d = []" for v d
    by (simp_all add: read_local_changes_since_def growing_crsql_def fresh_client_def)
  have wm: "pull_watermark ?d = 0" by (simp add: pull_watermark_def get_i64_def get_str_def fresh_client_def)
  obtain r db w where d: "drain_once growing_crsql ?E (relay_transport ?R) 1 (?d, ?w) = Some (r, (db, w))"
    "pull_watermark db = 1" "relay_log ?R w = relay_log ?R ?w"
    using idle_drain [OF growing_laws(2) merged_law blob_quiet idle(2,1) up, of ?E 1] b(2)
    by (auto simp: blob_change wm machine_int_defs)
  have run: "client_run growing_crsql merged {?E} ?R {} (db, w)" by (rule cr_drain [OF start _ d(1)]) simp
  have ext: "relay_holds ?R ?w (7, 1) = Some b"
    by (simp add: relay_holds_def abs_log_def sample_setup_def sample_auth_def blob_log entry_row_def row_key_def row_of_def sample_change_def)
  have "b64_law (rc_crates ?R)" by (simp add: sample_setup_def toy_b64)
  from relay_holds_log [OF this, of w "(7, 1)"] relay_holds_log [OF this, of ?w "(7, 1)"]
  have "relay_holds ?R w (7, 1) = Some b" unfolding d(3) using ext by (simp only:)
  with that [OF run d(2,3) b(1)] show thesis by blast
qed

text \<open>It has the row that the other device wrote.\<close>

lemma rows_reach_every_device_witness:
  "\<exists>db w. client_run growing_crsql merged {sample_capture_env} (sample_setup Delivered) {} (db, w) \<and>
     (\<forall>r\<in>set [sample_row 1]. merged (cd_crr db) r \<or> (\<exists>e\<in>set (cd_stash db). decode_changeset (st_blob e) = Inr [r]))"
proof -
  obtain b db w where d: "client_run growing_crsql merged {sample_capture_env} (sample_setup Delivered) {} (db, w)"
    "pull_watermark db = 1" "relay_log (sample_setup Delivered) w = relay_log (sample_setup Delivered) (blob_world b)"
    "changeset_encrypt toy_crates toy_aead two_cipher 7 1 (replicate 32 7) (replicate 24 1) (replicate 24 2)
      (encode_changeset [sample_row 1]) = Some (Inr b)"
    "relay_holds (sample_setup Delivered) w (7, 1) = Some b" by (rule sample_drained)
  have env: "ce_crates sample_capture_env = toy_crates" "ce_aead sample_capture_env = toy_aead" "ce_cipher sample_capture_env = two_cipher"
    "rc_crates (sample_setup Delivered) = toy_crates"
    by (simp_all add: sample_capture_env_def sample_setup_def)
  have "wf_changeset [sample_row 1]" using sample_row_wf by (simp add: wf_changeset_def)
  moreover have "pull_watermark db = int (length (relay_log (sample_setup Delivered) w))" using d(2,3) by (simp add: blob_change)
  ultimately have "\<forall>r\<in>set [sample_row 1]. merged (cd_crr db) r \<or> (\<exists>e\<in>set (cd_stash db). decode_changeset (st_blob e) = Inr [r])"
    by (intro rows_reach_every_device [OF merged_law d(1), where data_key = "replicate 32 7" and wrap_nonce = "replicate 24 1" and
        ct_nonce = "replicate 24 2" and author = 7 and q = 1 and blob = b])
      (simp_all add: env toy_b64 toy_hmac toy_aead_laws(1) d(4,5) del: length_replicate, simp_all)
  with d(1) show ?thesis by blast
qed

lemma drain_never_skips_witness:
  "\<exists>db w. client_run growing_crsql merged {sample_capture_env} (sample_setup Delivered) {} (db, w) \<and> pull_watermark db = 1 \<and>
     pull_watermark db \<le> int (length (relay_log (sample_setup Delivered) w))"
proof -
  obtain b db w where d: "client_run growing_crsql merged {sample_capture_env} (sample_setup Delivered) {} (db, w)"
    "pull_watermark db = 1" "relay_log (sample_setup Delivered) w = relay_log (sample_setup Delivered) (blob_world b)"
    by (rule sample_drained)
  from drain_never_skips [OF merged_law d(1)] d(1,2) show ?thesis by blast
qed

lemma pull_reaches_tip_witness:
  "\<exists>b rep' db' w'. pull_direction growing_crsql sample_capture_env (relay_transport (sample_setup Delivered)) 1 empty_report
      (fresh_client (True, {}), blob_world b) = Some (Inr (), rep', (db', w')) \<and> pull_watermark db' = 1"
proof -
  let ?R = "sample_setup Delivered" and ?E = sample_capture_env
  obtain b where b: "decode_pulled_changeset ?E (pulled_of toy_crates (row_of 1 1 (sample_change 1 []) b)) = Some (Inr [sample_row 1])"
    by (rule sample_blob)
  have good: "relay_good ?R (blob_world b)" using blob_quiet by (simp add: quiet_relay_def)
  have start: "client_run growing_crsql merged {?E} ?R {} (fresh_client (True, {}), blob_world b)" by (rule cr_start [OF good])
  have "in_i64 (int (length (relay_log ?R (blob_world b))))" "\<forall>c\<in>set (relay_log ?R (blob_world b)). decode_pulled_changeset ?E c \<noteq> None"
    "length (relay_log ?R (blob_world b)) \<le> nat (pull_watermark (fresh_client (True, {} :: change_row set))) + 500 * 1"
    using b by (simp_all add: blob_change machine_int_defs)
  from pull_reaches_tip [OF merged_law start blob_quiet this, of empty_report] rows_apply_never_refuses [OF growing_laws(2)] show ?thesis
    by (auto simp: blob_change)
qed

text \<open>A changeset that was unreadable once is merged by a retry with the right keys.\<close>

lemma retry_loses_nothing_witness:
  "\<exists>res db' u. retry_crypto_quarantine growing_crsql sample_capture_env (\<lambda>_. Some 7)
      ((fresh_client (True, {}))\<lparr>cd_unreadable := [u]\<rparr>) = Some (res, db') \<and> set (cd_unreadable db') = {} \<and>
      held_row merged db' (sample_row 1)"
proof -
  obtain b where b: "decode_pulled_changeset sample_capture_env (pulled_of toy_crates (row_of 1 1 (sample_change 1 []) b)) = Some (Inr [sample_row 1])"
    by (rule sample_blob)
  define c where "c = pulled_of toy_crates (row_of 1 1 (sample_change 1 []) b)"
  define u where "u = \<lparr>ur_seq = 1, ur_author = show_uuid 7, ur_client_seq = 1, ur_ciphertext = pu_ciphertext c, ur_schema = 1, ur_engine = 1, ur_detail = []\<rparr>"
  let ?db = "(fresh_client (True, {} :: change_row set))\<lparr>cd_unreadable := [u]\<rparr>"
  have "kept_row c u" by (simp add: kept_row_def u_def c_def pulled_of_def row_of_def sample_change_def)
  from decode_kept [OF this] b have d: "decode_pulled_changeset sample_capture_env (pulled_of_row 7 u) = Some (Inr [sample_row 1])"
    by (simp add: c_def pulled_of_def row_of_def sample_change_def)
  have keyed: "stash_keyed ?db" by (simp add: stash_keyed_def stash_wf_def) (simp add: fresh_client_def)
  obtain a q db1 where m: "merge_changeset growing_crsql [sample_row 1] ?db = Inr ((a, q), db1)"
    using merge_outcome [OF growing_laws(1), of ?db "[sample_row 1]"] keyed rows_apply_never_refuses [OF growing_laws(2)]
    unfolding stash_keyed_def by (metis prod.collapse)
  have un: "cd_unreadable db1 = [u]" using merge_takes_in [OF merged_law keyed _ m] sample_row_wf by simp
  have "cd_unreadable ?db = [u]" by simp
  then obtain res where run: "retry_crypto_quarantine growing_crsql sample_capture_env (\<lambda>_. Some 7) ?db = Some (res, delete_unreadable 1 db1)"
    using d m by (simp add: retry_crypto_quarantine_def u_def Let_def)
  have gone: "cd_unreadable (delete_unreadable 1 db1) = []" by (simp add: delete_unreadable_def un delete_where_def u_def)
  from retry_loses_nothing [OF merged_law keyed run] gone d have "held_row merged (delete_unreadable 1 db1) (sample_row 1)" by simp
  with run gone show ?thesis by (intro exI [of _ res] exI [of _ "delete_unreadable 1 db1"] exI [of _ u]) simp
qed

end
