(* ===== verification/Reconcile.thy ===== *)
theory Reconcile
  imports Relay_Types "HOL-Library.List_Lexorder" "HOL-Library.Char_ord"
begin

text \<open>
  The passes that run on the converged database after a merge: the cascade of deletes
  (\<open>crates/yapstack-sync/src/cascade.rs\<close>) and the enforcement of the dropped uniqueness constraints
  (\<open>uniqueness.rs\<close>), with \<open>all_crr\<close> of \<open>schema.rs\<close>.

  A table is its rows, functions from columns to SQL values, and its clock: which columns of which row
  carry an entry, as the join of the extension's two tables gives it. What the extension's triggers
  write to the clock is a parameter (\<open>crr_hooks\<close>). A transaction that fails leaves the database as it
  was; its error is not modelled.
\<close>

datatype sqlval = SqlNull | SqlInt int | SqlText string

type_synonym crr_row = "string \<Rightarrow> sqlval"

record clock_entry =
  ck_id :: sqlval
  ck_col :: string
  ck_version :: int

record crr_table =
  ct_rows :: "crr_row list"
  ct_clock :: "clock_entry list"

text \<open>A table that does not exist here, or is not converted, is \<open>None\<close>.\<close>

type_synonym crr_tables = "string \<Rightarrow> crr_table option"

record crr_hooks =
  ch_insert :: "crr_row \<Rightarrow> clock_entry list \<Rightarrow> clock_entry list"
  ch_update :: "string \<Rightarrow> crr_row \<Rightarrow> clock_entry list \<Rightarrow> clock_entry list"
  ch_delete :: "crr_row \<Rightarrow> clock_entry list \<Rightarrow> clock_entry list"

text \<open>SQL comparisons: \<open>NULL\<close> is equal to nothing, and no member of a list.\<close>

definition sql_eq :: "sqlval \<Rightarrow> sqlval \<Rightarrow> bool" where
  "sql_eq a b \<longleftrightarrow> a \<noteq> SqlNull \<and> a = b"

definition sql_in :: "sqlval \<Rightarrow> sqlval list \<Rightarrow> bool" where
  "sql_in v vs \<longleftrightarrow> v \<noteq> SqlNull \<and> v \<in> set vs"

fun sql_less :: "sqlval \<Rightarrow> sqlval \<Rightarrow> bool" where
  "sql_less (SqlInt a) (SqlInt b) = (a < b)"
| "sql_less (SqlInt a) (SqlText b) = True"
| "sql_less (SqlText a) (SqlText b) = (a < b)"
| "sql_less a b = False"

fun nocase_eq :: "sqlval \<Rightarrow> sqlval \<Rightarrow> bool" where
  "nocase_eq (SqlText a) (SqlText b) = (lower_str a = lower_str b)"
| "nocase_eq a b = sql_eq a b"

definition delete_from :: "crr_hooks \<Rightarrow> (crr_row \<Rightarrow> bool) \<Rightarrow> crr_table \<Rightarrow> nat \<times> crr_table" where
  "delete_from H P tb = (let gone = filter P (ct_rows tb) in
     (length gone, tb\<lparr>ct_rows := filter (\<lambda>r. \<not> P r) (ct_rows tb), ct_clock := fold (ch_delete H) gone (ct_clock tb)\<rparr>))"

definition all_crr :: "string list \<Rightarrow> crr_tables \<Rightarrow> bool" where
  "all_crr tables db \<longleftrightarrow> list_all (\<lambda>t. db t \<noteq> None) tables"

subsection \<open>The cascade\<close>

record cascade_stats =
  cs_deleted :: nat
  cs_nulled :: nat
  cs_skipped :: nat

definition cascade_delete :: "(string \<times> string \<times> string) list" where
  "cascade_delete =
     [(''segments'', ''session_id'', ''sessions''), (''notes'', ''session_id'', ''sessions''),
      (''note_versions'', ''note_id'', ''notes''), (''chat_messages'', ''session_id'', ''sessions''),
      (''session_audio_parts'', ''session_id'', ''sessions''), (''shares'', ''folder_id'', ''folders'')]"

definition cascade_junction :: "(string \<times> (string \<times> string) \<times> (string \<times> string)) list" where
  "cascade_junction =
     [(''session_folders'', (''session_id'', ''sessions''), (''folder_id'', ''folders'')),
      (''session_tags'', (''session_id'', ''sessions''), (''tag_id'', ''tags''))]"

definition set_null :: "(string \<times> string \<times> string) list" where
  "set_null = [(''folders'', ''parent_id'', ''folders''), (''sessions'', ''folder_id'', ''folders'')]"

definition proven_deleted :: "crr_table \<Rightarrow> sqlval list" where
  "proven_deleted tb = map ck_id (filter (\<lambda>e. ck_col e = ''-1'' \<and> ck_version e mod 2 = 0) (ct_clock tb))"

definition proven_deleted_pks :: "crr_tables \<Rightarrow> string \<Rightarrow> sqlval list" where
  "proven_deleted_pks db parent = (case db parent of Some tb \<Rightarrow> proven_deleted tb | None \<Rightarrow> [])"

text \<open>The \<open>WHERE\<close> clauses: one of the foreign keys has a proven deleted referent.\<close>

definition orphan :: "crr_tables \<Rightarrow> (string \<times> string) list \<Rightarrow> crr_row \<Rightarrow> bool" where
  "orphan db fks r \<longleftrightarrow> (\<exists>(fk, parent)\<in>set fks. sql_in (r fk) (proven_deleted_pks db parent))"

text \<open>One \<open>DELETE\<close>, of the rows of which one of the foreign keys has a proven deleted referent.\<close>

definition delete_orphans :: "crr_hooks \<Rightarrow> string \<Rightarrow> (string \<times> string) list \<Rightarrow> cascade_stats \<times> crr_tables \<Rightarrow> cascade_stats \<times> crr_tables" where
  "delete_orphans H child fks = (\<lambda>(stats, db).
     if \<not> all_crr (child # map snd fks) db then (stats\<lparr>cs_skipped := cs_skipped stats + 1\<rparr>, db)
     else (case delete_from H (orphan db fks) (the (db child)) of
       (n, tb) \<Rightarrow> (stats\<lparr>cs_deleted := cs_deleted stats + n\<rparr>, db(child \<mapsto> tb))))"

definition null_dangling :: "crr_hooks \<Rightarrow> string \<Rightarrow> string \<Rightarrow> string \<Rightarrow> cascade_stats \<times> crr_tables \<Rightarrow> cascade_stats \<times> crr_tables" where
  "null_dangling H table fk parent = (\<lambda>(stats, db).
     if \<not> all_crr [table, parent] db then (stats\<lparr>cs_skipped := cs_skipped stats + 1\<rparr>, db)
     else (let tb = the (db table); dangling = orphan db [(fk, parent)]; hit = filter dangling (ct_rows tb) in
       (stats\<lparr>cs_nulled := cs_nulled stats + length hit\<rparr>,
        db(table \<mapsto> tb\<lparr>ct_rows := map (\<lambda>r. if dangling r then r(fk := SqlNull) else r) (ct_rows tb),
          ct_clock := fold (ch_update H fk) hit (ct_clock tb)\<rparr>))))"

definition cascade_gc :: "crr_hooks \<Rightarrow> crr_tables \<Rightarrow> cascade_stats \<times> crr_tables" where
  "cascade_gc H db =
     fold (\<lambda>(table, fk, parent). null_dangling H table fk parent) set_null
      (fold (\<lambda>(child, a, b). delete_orphans H child [a, b]) cascade_junction
       (fold (\<lambda>(child, fk, parent). delete_orphans H child [(fk, parent)]) cascade_delete
         (\<lparr>cs_deleted = 0, cs_nulled = 0, cs_skipped = 0\<rparr>, db)))"

subsection \<open>The uniqueness passes\<close>

definition proven_col :: "crr_table \<Rightarrow> string \<Rightarrow> sqlval list" where
  "proven_col tb c = map ck_id (filter (\<lambda>e. ck_col e = c) (ct_clock tb))"

definition proven_row :: "crr_table \<Rightarrow> string list \<Rightarrow> crr_row \<Rightarrow> bool" where
  "proven_row tb cols r \<longleftrightarrow> list_all (\<lambda>c. sql_in (r ''id'') (proven_col tb c)) cols"

definition same_note :: "crr_row \<Rightarrow> crr_row \<Rightarrow> bool" where
  "same_note w n \<longleftrightarrow> sql_eq (w ''session_id'') (n ''session_id'')"

definition note_beats :: "crr_row \<Rightarrow> crr_row \<Rightarrow> bool" where
  "note_beats w n \<longleftrightarrow> sql_less (n ''updated_at'') (w ''updated_at'') \<or>
     sql_eq (w ''updated_at'') (n ''updated_at'') \<and> sql_less (w ''id'') (n ''id'')"

definition dedup_notes :: "crr_hooks \<Rightarrow> crr_table \<Rightarrow> nat \<times> crr_table" where
  "dedup_notes H tb = (let proven = proven_row tb [''session_id'', ''updated_at''] in
     delete_from H (\<lambda>n. \<exists>w\<in>set (ct_rows tb). same_note w n \<and> w ''id'' \<noteq> n ''id'' \<and> note_beats w n \<and> proven n \<and> proven w) tb)"

definition same_part :: "crr_row \<Rightarrow> crr_row \<Rightarrow> bool" where
  "same_part w a \<longleftrightarrow> sql_eq (w ''session_id'') (a ''session_id'') \<and> sql_eq (w ''part_index'') (a ''part_index'')"

definition lower_id :: "crr_row \<Rightarrow> crr_row \<Rightarrow> bool" where
  "lower_id w a \<longleftrightarrow> sql_less (w ''id'') (a ''id'')"

definition dedup_audio_parts :: "crr_hooks \<Rightarrow> crr_table \<Rightarrow> nat \<times> crr_table" where
  "dedup_audio_parts H tb = (let proven = proven_row tb [''session_id'', ''part_index''] in
     delete_from H (\<lambda>a. \<exists>w\<in>set (ct_rows tb). same_part w a \<and> lower_id w a \<and> proven a \<and> proven w) tb)"

definition same_tag :: "crr_row \<Rightarrow> crr_row \<Rightarrow> bool" where
  "same_tag m t \<longleftrightarrow> nocase_eq (m ''name'') (t ''name'')"

text \<open>\<open>ORDER BY m.id ASC LIMIT 1\<close>.\<close>

fun lowest_id :: "crr_row list \<Rightarrow> sqlval" where
  "lowest_id [] = SqlNull"
| "lowest_id [m] = m ''id''"
| "lowest_id (m # ms) = (let i = lowest_id ms in if sql_less i (m ''id'') then i else m ''id'')"

definition tag_winner :: "crr_table \<Rightarrow> crr_row \<Rightarrow> sqlval" where
  "tag_winner tags t = lowest_id (filter (\<lambda>m. same_tag m t \<and> proven_row tags [''name''] m) (ct_rows tags))"

definition tag_pairs :: "crr_table \<Rightarrow> (sqlval \<times> sqlval) list" where
  "tag_pairs tags = filter (\<lambda>(l, w). l \<noteq> w)
     (map (\<lambda>t. (t ''id'', tag_winner tags t)) (filter (proven_row tags [''name'']) (ct_rows tags)))"

definition insert_into :: "crr_hooks \<Rightarrow> crr_row list \<Rightarrow> crr_table \<Rightarrow> crr_table" where
  "insert_into H rs tb = tb\<lparr>ct_rows := ct_rows tb @ rs, ct_clock := fold (ch_insert H) rs (ct_clock tb)\<rparr>"

definition repoint_tag :: "crr_hooks \<Rightarrow> sqlval \<Rightarrow> sqlval \<Rightarrow> crr_table \<Rightarrow> crr_table" where
  "repoint_tag H loser winner st =
     (let already = map (\<lambda>r. r ''session_id'') (filter (\<lambda>r. sql_eq (r ''tag_id'') winner) (ct_rows st));
          moved = filter (\<lambda>r. sql_eq (r ''tag_id'') loser \<and> r ''session_id'' \<notin> set already) (ct_rows st)
      in snd (delete_from H (\<lambda>r. sql_eq (r ''tag_id'') loser) (insert_into H (map (\<lambda>r. r(''tag_id'' := winner)) moved) st)))"

fun merge_tags :: "crr_hooks \<Rightarrow> (sqlval \<times> sqlval) list \<Rightarrow> nat \<Rightarrow> crr_table \<times> crr_table \<Rightarrow> nat \<times> crr_table \<times> crr_table" where
  "merge_tags H [] merged (tags, st) = (merged, tags, st)"
| "merge_tags H ((loser, winner) # pairs) merged (tags, st) =
     (case delete_from H (\<lambda>r. sql_eq (r ''id'') loser) tags of (n, tags') \<Rightarrow>
       merge_tags H pairs (merged + n) (tags', repoint_tag H loser winner st))"

definition dedup_tags :: "crr_hooks \<Rightarrow> crr_table \<times> crr_table \<Rightarrow> nat \<times> crr_table \<times> crr_table" where
  "dedup_tags H s = merge_tags H (tag_pairs (fst s)) 0 s"

record uniqueness_stats =
  us_notes :: nat
  us_tags :: nat
  us_parts :: nat
  us_skipped :: nat

definition run_notes :: "crr_hooks \<Rightarrow> uniqueness_stats \<times> crr_tables \<Rightarrow> uniqueness_stats \<times> crr_tables" where
  "run_notes H = (\<lambda>(stats, db).
     if all_crr [''notes''] db
     then (case dedup_notes H (the (db ''notes'')) of (n, tb) \<Rightarrow> (stats\<lparr>us_notes := n\<rparr>, db(''notes'' \<mapsto> tb)))
     else (stats\<lparr>us_skipped := us_skipped stats + 1\<rparr>, db))"

definition run_tags :: "crr_hooks \<Rightarrow> uniqueness_stats \<times> crr_tables \<Rightarrow> uniqueness_stats \<times> crr_tables" where
  "run_tags H = (\<lambda>(stats, db).
     if all_crr [''tags'', ''session_tags''] db
     then (case dedup_tags H (the (db ''tags''), the (db ''session_tags'')) of (n, tags, st) \<Rightarrow>
       (stats\<lparr>us_tags := n\<rparr>, db(''tags'' \<mapsto> tags, ''session_tags'' \<mapsto> st)))
     else (stats\<lparr>us_skipped := us_skipped stats + 1\<rparr>, db))"

definition run_parts :: "crr_hooks \<Rightarrow> uniqueness_stats \<times> crr_tables \<Rightarrow> uniqueness_stats \<times> crr_tables" where
  "run_parts H = (\<lambda>(stats, db).
     if all_crr [''session_audio_parts''] db
     then (case dedup_audio_parts H (the (db ''session_audio_parts'')) of (n, tb) \<Rightarrow>
       (stats\<lparr>us_parts := n\<rparr>, db(''session_audio_parts'' \<mapsto> tb)))
     else (stats\<lparr>us_skipped := us_skipped stats + 1\<rparr>, db))"

definition enforce_uniqueness :: "crr_hooks \<Rightarrow> crr_tables \<Rightarrow> uniqueness_stats \<times> crr_tables" where
  "enforce_uniqueness H db = run_parts H (run_tags H (run_notes H (\<lparr>us_notes = 0, us_tags = 0, us_parts = 0, us_skipped = 0\<rparr>, db)))"

subsection \<open>What the cascade leaves\<close>

definition rows_of :: "crr_tables \<Rightarrow> string \<Rightarrow> crr_row list" where
  "rows_of db t = (case db t of Some tb \<Rightarrow> ct_rows tb | None \<Rightarrow> [])"

definition dead :: "crr_tables \<Rightarrow> string \<Rightarrow> sqlval set" where
  "dead db p = set (proven_deleted_pks db p)"

text \<open>Every relation that deletes, as its child and its foreign keys.\<close>

definition orphan_rels :: "(string \<times> (string \<times> string) list) list" where
  "orphan_rels = map (\<lambda>(c, fk, p). (c, [(fk, p)])) cascade_delete @ map (\<lambda>(c, a, b). (c, [a, b])) cascade_junction"

text \<open>Documented behaviour of the extension: a delete keeps the tombstones there are, and writing another
  column changes none. It is stated of every clock; the extension keeps it on the clocks it produces,
  where a row that is there carries no tombstone of its own key.\<close>

definition hooks_law :: "crr_hooks \<Rightarrow> bool" where
  "hooks_law H \<longleftrightarrow>
     (\<forall>r tb. set (proven_deleted tb) \<subseteq> set (proven_deleted (tb\<lparr>ct_clock := ch_delete H r (ct_clock tb)\<rparr>))) \<and>
     (\<forall>c r tb. set (proven_deleted (tb\<lparr>ct_clock := ch_update H c r (ct_clock tb)\<rparr>)) = set (proven_deleted tb))"

lemma orphan_iff: "orphan db fks r \<longleftrightarrow> (\<exists>(fk, p)\<in>set fks. r fk \<noteq> SqlNull \<and> r fk \<in> dead db p)"
  by (simp add: orphan_def sql_in_def dead_def)

lemma fold_delete_dead: "hooks_law H \<Longrightarrow> set (proven_deleted tb) \<subseteq> set (proven_deleted (tb\<lparr>ct_clock := fold (ch_delete H) gone (ct_clock tb)\<rparr>))"
proof (induction gone arbitrary: tb)
  case (Cons r gone)
  have "set (proven_deleted tb) \<subseteq> set (proven_deleted (tb\<lparr>ct_clock := ch_delete H r (ct_clock tb)\<rparr>))"
    using Cons.prems unfolding hooks_law_def by blast
  also have "\<dots> \<subseteq> set (proven_deleted (tb\<lparr>ct_clock := fold (ch_delete H) (r # gone) (ct_clock tb)\<rparr>))"
    using Cons.IH [OF Cons.prems, of "tb\<lparr>ct_clock := ch_delete H r (ct_clock tb)\<rparr>"] by simp
  finally show ?case .
qed simp

lemma fold_update_dead: "hooks_law H \<Longrightarrow> set (proven_deleted (tb\<lparr>ct_clock := fold (ch_update H c) hit (ct_clock tb)\<rparr>)) = set (proven_deleted tb)"
proof (induction hit arbitrary: tb)
  case (Cons r hit)
  have "set (proven_deleted (tb\<lparr>ct_clock := ch_update H c r (ct_clock tb)\<rparr>)) = set (proven_deleted tb)"
    using Cons.prems unfolding hooks_law_def by blast
  with Cons.IH [OF Cons.prems, of "tb\<lparr>ct_clock := ch_update H c r (ct_clock tb)\<rparr>"] show ?case by simp
qed simp

lemma delete_orphans_effect:
  assumes run: "delete_orphans H child fks (stats, db) = (stats', db')" and law: "hooks_law H"
  shows "dead db p \<subseteq> dead db' p" and "p \<noteq> child \<Longrightarrow> dead db' p = dead db p" and "t \<noteq> child \<Longrightarrow> rows_of db' t = rows_of db t"
    and "db' t = None \<longleftrightarrow> db t = None"
    and "rows_of db' child = (if all_crr (child # map snd fks) db then filter (\<lambda>r. \<not> orphan db fks r) (rows_of db child) else rows_of db child)"
proof -
  have all: "dead db p \<subseteq> dead db' p \<and> (p \<noteq> child \<longrightarrow> dead db' p = dead db p) \<and> (t \<noteq> child \<longrightarrow> rows_of db' t = rows_of db t) \<and>
    (db' t = None \<longleftrightarrow> db t = None) \<and>
    rows_of db' child = (if all_crr (child # map snd fks) db then filter (\<lambda>r. \<not> orphan db fks r) (rows_of db child) else rows_of db child)"
  proof (cases "all_crr (child # map snd fks) db")
    case False
    with run have "db' = db" by (simp add: delete_orphans_def)
    with False show ?thesis by simp
  next
    case True
    then obtain tb where tb: "db child = Some tb" by (auto simp: all_crr_def)
    define clk where "clk = fold (ch_delete H) (filter (orphan db fks) (ct_rows tb)) (ct_clock tb)"
    define tb' where "tb' = tb\<lparr>ct_rows := filter (\<lambda>r. \<not> orphan db fks r) (ct_rows tb), ct_clock := clk\<rparr>"
    have db': "db' = db(child \<mapsto> tb')"
      using run True unfolding delete_orphans_def tb'_def clk_def by (simp add: tb delete_from_def Let_def)
    have "proven_deleted tb' = proven_deleted (tb\<lparr>ct_clock := clk\<rparr>)" by (simp add: tb'_def proven_deleted_def)
    then have "set (proven_deleted tb) \<subseteq> set (proven_deleted tb')" using fold_delete_dead [OF law] by (simp add: clk_def)
    then show ?thesis using True tb by (simp add: db' dead_def proven_deleted_pks_def rows_of_def tb'_def)
  qed
  then show "dead db p \<subseteq> dead db' p" "p \<noteq> child \<Longrightarrow> dead db' p = dead db p" "t \<noteq> child \<Longrightarrow> rows_of db' t = rows_of db t"
    "db' t = None \<longleftrightarrow> db t = None"
    "rows_of db' child = (if all_crr (child # map snd fks) db then filter (\<lambda>r. \<not> orphan db fks r) (rows_of db child) else rows_of db child)"
    by blast+
qed

lemma null_dangling_effect:
  assumes run: "null_dangling H child fk parent (stats, db) = (stats', db')" and law: "hooks_law H"
  shows "dead db' p = dead db p" and "t \<noteq> child \<Longrightarrow> rows_of db' t = rows_of db t" and "db' t = None \<longleftrightarrow> db t = None"
    and "rows_of db' child = (if all_crr [child, parent] db
      then map (\<lambda>r. if orphan db [(fk, parent)] r then r(fk := SqlNull) else r) (rows_of db child) else rows_of db child)"
proof -
  have all: "dead db' p = dead db p \<and> (t \<noteq> child \<longrightarrow> rows_of db' t = rows_of db t) \<and> (db' t = None \<longleftrightarrow> db t = None) \<and>
    rows_of db' child = (if all_crr [child, parent] db
      then map (\<lambda>r. if orphan db [(fk, parent)] r then r(fk := SqlNull) else r) (rows_of db child) else rows_of db child)"
  proof (cases "all_crr [child, parent] db")
    case False
    with run have "db' = db" by (simp add: null_dangling_def)
    with False show ?thesis by simp
  next
    case True
    then obtain tb where tb: "db child = Some tb" by (auto simp: all_crr_def)
    define clk where "clk = fold (ch_update H fk) (filter (orphan db [(fk, parent)]) (ct_rows tb)) (ct_clock tb)"
    define tb' where "tb' = tb\<lparr>ct_rows := map (\<lambda>r. if orphan db [(fk, parent)] r then r(fk := SqlNull) else r) (ct_rows tb), ct_clock := clk\<rparr>"
    have db': "db' = db(child \<mapsto> tb')"
      using run True unfolding null_dangling_def Let_def tb'_def clk_def by (simp add: tb)
    have "proven_deleted tb' = proven_deleted (tb\<lparr>ct_clock := clk\<rparr>)" by (simp add: tb'_def proven_deleted_def)
    then have "set (proven_deleted tb') = set (proven_deleted tb)" using fold_update_dead [OF law] by (simp add: clk_def)
    then show ?thesis using True tb by (simp add: db' dead_def proven_deleted_pks_def rows_of_def tb'_def)
  qed
  then show "dead db' p = dead db p" "t \<noteq> child \<Longrightarrow> rows_of db' t = rows_of db t" "db' t = None \<longleftrightarrow> db t = None"
    "rows_of db' child = (if all_crr [child, parent] db
      then map (\<lambda>r. if orphan db [(fk, parent)] r then r(fk := SqlNull) else r) (rows_of db child) else rows_of db child)"
    by blast+
qed


text \<open>A relation is closed when its child has no row with a dead referent.\<close>

definition closed :: "crr_tables \<Rightarrow> string \<times> (string \<times> string) list \<Rightarrow> bool" where
  "closed db rel \<longleftrightarrow> (all_crr (fst rel # map snd (snd rel)) db \<longrightarrow> (\<forall>r\<in>set (rows_of db (fst rel)). \<not> orphan db (snd rel) r))"

lemma all_crr_same: "(\<And>t. db' t = None \<longleftrightarrow> db t = None) \<Longrightarrow> all_crr ts db' = all_crr ts db"
  by (simp add: all_crr_def)

lemma orphan_same: "(\<And>p. p \<in> snd ` set fks \<Longrightarrow> dead db' p = dead db p) \<Longrightarrow> orphan db' fks r = orphan db fks r"
proof -
  assume "\<And>p. p \<in> snd ` set fks \<Longrightarrow> dead db' p = dead db p"
  then have "dead db' p = dead db p" if "(fk, p) \<in> set fks" for fk p using that by force
  then show ?thesis unfolding orphan_iff by (intro bex_cong) auto
qed

lemma delete_orphans_closes:
  assumes run: "delete_orphans H child fks (stats, db) = (stats', db')" and law: "hooks_law H" and own: "child \<notin> snd ` set fks"
  shows "closed db' (child, fks)"
    and "closed db (c, gs) \<Longrightarrow> child \<notin> snd ` set gs \<Longrightarrow> closed db' (c, gs)"
proof -
  note e = delete_orphans_effect [OF run law]
  have crr: "all_crr ts db' = all_crr ts db" for ts by (rule all_crr_same) (rule e(4))
  have same: "orphan db' gs r = orphan db gs r" if "child \<notin> snd ` set gs" for gs r
    by (rule orphan_same, rule e(2)) (use that in blast)
  show "closed db' (child, fks)"
    unfolding closed_def crr same [OF own] fst_conv snd_conv e(5) by simp
  assume "closed db (c, gs)" and p: "child \<notin> snd ` set gs"
  then show "closed db' (c, gs)"
    unfolding closed_def crr same [OF p] fst_conv snd_conv
    by (cases "c = child") (simp_all add: e(3,5))
qed

lemma null_dangling_closes:
  assumes run: "null_dangling H child fk parent (stats, db) = (stats', db')" and law: "hooks_law H"
  shows "closed db' (child, [(fk, parent)])" and "closed db rel \<Longrightarrow> closed db' rel"
proof -
  note e = null_dangling_effect [OF run law]
  have crr: "all_crr ts db' = all_crr ts db" for ts by (rule all_crr_same) (rule e(3))
  have same: "orphan db' gs r = orphan db gs r" for gs r by (rule orphan_same) (rule e(1))
  show "closed db' (child, [(fk, parent)])"
    unfolding closed_def crr same fst_conv snd_conv e(4) by (auto simp: orphan_iff)
  assume c: "closed db rel"
  show "closed db' rel"
  proof (cases "fst rel = child \<and> all_crr [child, parent] db")
    case False
    then have "rows_of db' (fst rel) = rows_of db (fst rel)" using e(2) [of "fst rel"] e(4) by (cases "fst rel = child") simp_all
    with c show ?thesis by (simp add: closed_def crr same)
  next
    case True
    have "\<not> orphan db gs (r(fk := SqlNull))" if "\<not> orphan db gs r" for gs r
      using that by (auto simp: orphan_iff split: if_splits)
    with c True show ?thesis unfolding closed_def crr same using e(4) by auto
  qed
qed

text \<open>Run in an order in which no relation deletes from the parent of an earlier one, all end up closed.\<close>

fun ordered_rels :: "(string \<times> (string \<times> string) list) list \<Rightarrow> bool" where
  "ordered_rels [] = True"
| "ordered_rels ((c, fks) # rels) = (c \<notin> snd ` set fks \<and> (\<forall>(d, gs)\<in>set rels. d \<notin> snd ` set fks) \<and> ordered_rels rels)"

lemma delete_rels_closes:
  assumes law: "hooks_law H"
  shows "ordered_rels rels \<Longrightarrow> (\<forall>d\<in>done_rels. closed db d \<and> (\<forall>(c, fks)\<in>set rels. c \<notin> snd ` set (snd d))) \<Longrightarrow>
    fold (\<lambda>(c, fks). delete_orphans H c fks) rels (stats, db) = (stats', db') \<Longrightarrow>
    \<forall>d\<in>done_rels \<union> set rels. closed db' d"
proof (induction rels arbitrary: stats db done_rels)
  case (Cons rel rels)
  obtain c fks where rel: "rel = (c, fks)" by fastforce
  obtain s1 db1 where run: "delete_orphans H c fks (stats, db) = (s1, db1)" by fastforce
  have own: "c \<notin> snd ` set fks" using Cons.prems(1) rel by simp
  note cl = delete_orphans_closes [OF run law own]
  have "\<forall>d\<in>insert rel done_rels. closed db1 d \<and> (\<forall>(c, fks)\<in>set rels. c \<notin> snd ` set (snd d))"
  proof
    fix d assume "d \<in> insert rel done_rels"
    then show "closed db1 d \<and> (\<forall>(c, fks)\<in>set rels. c \<notin> snd ` set (snd d))"
    proof
      assume "d = rel"
      with cl(1) Cons.prems(1) rel show ?thesis by auto
    next
      assume d: "d \<in> done_rels"
      then have "closed db (fst d, snd d)" "c \<notin> snd ` set (snd d)" "\<forall>(c, fks)\<in>set rels. c \<notin> snd ` set (snd d)"
        using Cons.prems(2) rel by auto
      with cl(2) [of "fst d" "snd d"] show ?thesis by simp
    qed
  qed
  from Cons.IH [OF _ this, of s1] Cons.prems(1,3) rel run show ?case by simp
qed simp

subsection \<open>What the cascade deletes\<close>

text \<open>From one state to a later one of a pass: tombstones stay, rows go only as orphans, references are
  nulled only when dangling, and no row appears.\<close>

definition nulled_from :: "crr_tables \<Rightarrow> string \<Rightarrow> crr_row \<Rightarrow> crr_row \<Rightarrow> bool" where
  "nulled_from db t r r' \<longleftrightarrow> (\<forall>c. r' c = r c \<or> r' c = SqlNull \<and> (\<exists>p. (t, c, p) \<in> set set_null \<and> orphan db [(c, p)] r))"

definition orphaned :: "crr_tables \<Rightarrow> string \<Rightarrow> crr_row \<Rightarrow> bool" where
  "orphaned db t r \<longleftrightarrow> (\<exists>fks. (t, fks) \<in> set orphan_rels \<and> orphan db fks r)"

definition shrinks :: "crr_tables \<Rightarrow> crr_tables \<Rightarrow> bool" where
  "shrinks db db' \<longleftrightarrow> (\<forall>p. dead db p \<subseteq> dead db' p) \<and> (\<forall>t. db' t = None \<longleftrightarrow> db t = None) \<and>
     (\<forall>t. \<forall>r\<in>set (rows_of db t). orphaned db' t r \<or> (\<exists>r'\<in>set (rows_of db' t). nulled_from db' t r r')) \<and>
     (\<forall>t. \<forall>r'\<in>set (rows_of db' t). \<exists>r\<in>set (rows_of db t). nulled_from db' t r r')"

lemma orphan_mono: "orphan db fks r \<Longrightarrow> (\<And>p. dead db p \<subseteq> dead db' p) \<Longrightarrow> orphan db' fks r"
  unfolding orphan_iff by (auto dest!: subsetD)

lemma orphan_nulled: "orphan db fks r' \<Longrightarrow> nulled_from db' t r r' \<Longrightarrow> orphan db fks r"
proof -
  assume "orphan db fks r'" and n: "nulled_from db' t r r'"
  then obtain fk p where fk: "(fk, p) \<in> set fks" "r' fk \<noteq> SqlNull" "r' fk \<in> dead db p" unfolding orphan_iff by blast
  from n have "r' fk = r fk \<or> r' fk = SqlNull" unfolding nulled_from_def by blast
  with fk show ?thesis unfolding orphan_iff by force
qed

lemma nulled_mono: "nulled_from db t r r' \<Longrightarrow> (\<And>p. dead db p \<subseteq> dead db' p) \<Longrightarrow> nulled_from db' t r r'"
  unfolding nulled_from_def using orphan_mono by blast

lemma nulled_trans:
  assumes a: "nulled_from db t r r'" and b: "nulled_from db t r' r''"
  shows "nulled_from db t r r''"
  unfolding nulled_from_def
proof
  fix c
  have "r'' c = r' c \<or> r'' c = SqlNull \<and> (\<exists>p. (t, c, p) \<in> set set_null \<and> orphan db [(c, p)] r')"
    using b unfolding nulled_from_def by blast
  then show "r'' c = r c \<or> r'' c = SqlNull \<and> (\<exists>p. (t, c, p) \<in> set set_null \<and> orphan db [(c, p)] r)"
  proof
    assume "r'' c = r' c"
    with a show ?thesis unfolding nulled_from_def by metis
  next
    assume "r'' c = SqlNull \<and> (\<exists>p. (t, c, p) \<in> set set_null \<and> orphan db [(c, p)] r')"
    with orphan_nulled [OF _ a] show ?thesis by blast
  qed
qed

lemma nulled_refl: "nulled_from db t r r"
  by (simp add: nulled_from_def)

lemma shrinks_refl: "shrinks db db"
  unfolding shrinks_def using nulled_refl by blast

lemma shrinks_trans:
  assumes a: "shrinks db1 db2" and b: "shrinks db2 db3"
  shows "shrinks db1 db3"
  unfolding shrinks_def
proof (intro conjI allI ballI)
  show "dead db1 p \<subseteq> dead db3 p" "db3 t = None \<longleftrightarrow> db1 t = None" for p t using a b unfolding shrinks_def by blast+
  have mono: "dead db2 p \<subseteq> dead db3 p" for p using b by (simp add: shrinks_def)
  show "orphaned db3 t r \<or> (\<exists>r'\<in>set (rows_of db3 t). nulled_from db3 t r r')" if r: "r \<in> set (rows_of db1 t)" for t r
  proof (cases "orphaned db2 t r")
    case True
    with orphan_mono [OF _ mono] show ?thesis unfolding orphaned_def by blast
  next
    case False
    then obtain r' where r': "r' \<in> set (rows_of db2 t)" "nulled_from db2 t r r'" using a r unfolding shrinks_def by blast
    have n: "nulled_from db3 t r r'" by (rule nulled_mono [OF r'(2) mono])
    from b r'(1) have "orphaned db3 t r' \<or> (\<exists>r''\<in>set (rows_of db3 t). nulled_from db3 t r' r'')" unfolding shrinks_def by blast
    with orphan_nulled [OF _ n] nulled_trans [OF n] show ?thesis unfolding orphaned_def by blast
  qed
  show "\<exists>r\<in>set (rows_of db1 t). nulled_from db3 t r r'" if r': "r' \<in> set (rows_of db3 t)" for t r'
  proof -
    obtain r2 where r2: "r2 \<in> set (rows_of db2 t)" "nulled_from db3 t r2 r'" using b r' unfolding shrinks_def by blast
    then obtain r where "r \<in> set (rows_of db1 t)" "nulled_from db2 t r r2" using a unfolding shrinks_def by blast
    with nulled_mono [OF _ mono] nulled_trans [OF _ r2(2)] show ?thesis by blast
  qed
qed

lemma shrinks_delete:
  assumes "delete_orphans H child fks (stats, db) = (stats', db')" and "hooks_law H" and rel: "(child, fks) \<in> set orphan_rels"
  shows "shrinks db db'"
proof -
  note e = delete_orphans_effect [OF assms(1,2)]
  have mono: "dead db p \<subseteq> dead db' p" for p by (rule e(1))
  show ?thesis
    unfolding shrinks_def
  proof (intro conjI allI ballI mono e(4))
    fix t r assume r: "r \<in> set (rows_of db t)"
    show "orphaned db' t r \<or> (\<exists>r'\<in>set (rows_of db' t). nulled_from db' t r r')"
    proof (cases "t = child \<and> orphan db fks r")
      case True
      with orphan_mono [OF _ mono] rel show ?thesis unfolding orphaned_def by blast
    next
      case False
      then have "r \<in> set (rows_of db' t)" using r e(3) [of t] e(5) by (cases "t = child") auto
      with nulled_refl show ?thesis by blast
    qed
  next
    fix t r' assume "r' \<in> set (rows_of db' t)"
    then have "r' \<in> set (rows_of db t)" using e(3) [of t] e(5) by (cases "t = child") (auto split: if_splits)
    with nulled_refl show "\<exists>r\<in>set (rows_of db t). nulled_from db' t r r'" by blast
  qed
qed

lemma shrinks_null:
  assumes "null_dangling H child fk parent (stats, db) = (stats', db')" and "hooks_law H" and rel: "(child, fk, parent) \<in> set set_null"
  shows "shrinks db db'"
proof -
  note e = null_dangling_effect [OF assms(1,2)]
  have same: "orphan db' gs r = orphan db gs r" for gs r by (rule orphan_same) (rule e(1))
  let ?n = "\<lambda>r. if orphan db [(fk, parent)] r then r(fk := SqlNull) else r"
  have n: "nulled_from db' child r (?n r)" for r using rel by (auto simp: nulled_from_def same)
  have "(\<forall>r\<in>set (rows_of db t). \<exists>r'\<in>set (rows_of db' t). nulled_from db' t r r') \<and>
      (\<forall>r'\<in>set (rows_of db' t). \<exists>r\<in>set (rows_of db t). nulled_from db' t r r')" for t
  proof (cases "t = child \<and> all_crr [child, parent] db")
    case True
    then have rows: "set (rows_of db' t) = ?n ` set (rows_of db t)" using e(4) by simp
    show ?thesis unfolding rows using n True by blast
  next
    case False
    then have rows: "rows_of db' t = rows_of db t" using e(2) [of t] e(4) by (cases "t = child") auto
    show ?thesis unfolding rows using nulled_refl by blast
  qed
  then show ?thesis unfolding shrinks_def by (simp add: e(1,3))
qed

lemma shrinks_delete_rels:
  assumes law: "hooks_law H"
  shows "set rels \<subseteq> set orphan_rels \<Longrightarrow> fold (\<lambda>(c, fks). delete_orphans H c fks) rels (stats, db) = (stats', db') \<Longrightarrow> shrinks db db'"
proof (induction rels arbitrary: stats db)
  case Nil
  then show ?case using shrinks_refl by simp
next
  case (Cons rel rels)
  obtain c fks where rel: "rel = (c, fks)" by fastforce
  obtain s1 db1 where run: "delete_orphans H c fks (stats, db) = (s1, db1)" by fastforce
  have "shrinks db db1" by (rule shrinks_delete [OF run law]) (use Cons.prems(1) rel in simp)
  moreover have "shrinks db1 db'" by (rule Cons.IH [of s1]) (use Cons.prems rel run in simp_all)
  ultimately show ?case by (rule shrinks_trans)
qed

lemma null_rels:
  assumes law: "hooks_law H"
  shows "set nulls \<subseteq> set set_null \<Longrightarrow> fold (\<lambda>(t, fk, p). null_dangling H t fk p) nulls (stats, db) = (stats', db') \<Longrightarrow>
    shrinks db db' \<and> (\<forall>rel. closed db rel \<longrightarrow> closed db' rel) \<and> (\<forall>(t, fk, p)\<in>set nulls. closed db' (t, [(fk, p)]))"
proof (induction nulls arbitrary: stats db)
  case Nil
  then show ?case using shrinks_refl by simp
next
  case (Cons x nulls)
  obtain t fk p where x: "x = (t, fk, p)" by (metis surj_pair)
  obtain s1 db1 where run: "null_dangling H t fk p (stats, db) = (s1, db1)" by fastforce
  have "shrinks db db1" by (rule shrinks_null [OF run law]) (use Cons.prems(1) x in simp)
  moreover note null_dangling_closes [OF run law]
  moreover have "shrinks db1 db' \<and> (\<forall>rel. closed db1 rel \<longrightarrow> closed db' rel) \<and> (\<forall>(t, fk, p)\<in>set nulls. closed db' (t, [(fk, p)]))"
    by (rule Cons.IH [of s1]) (use Cons.prems x run in simp_all)
  ultimately show ?case using shrinks_trans x by auto
qed

lemma cascade_gc_rels:
  "cascade_gc H db = fold (\<lambda>(t, fk, p). null_dangling H t fk p) set_null
     (fold (\<lambda>(c, fks). delete_orphans H c fks) orphan_rels (\<lparr>cs_deleted = 0, cs_nulled = 0, cs_skipped = 0\<rparr>, db))"
  by (simp add: cascade_gc_def orphan_rels_def cascade_delete_def cascade_junction_def)

lemma orphan_rels_ordered: "ordered_rels orphan_rels"
  by (simp add: orphan_rels_def cascade_delete_def cascade_junction_def)

subsection \<open>Deduplication\<close>

text \<open>What the three passes have in common: a key, and an order of the rows with one key. \<open>elig\<close> are
  the rows whose columns are proven, \<open>typed\<close> those with the columns the schema declares \<open>NOT NULL\<close>.\<close>

locale dedup =
  fixes typed :: "crr_row \<Rightarrow> bool" and same beats :: "crr_row \<Rightarrow> crr_row \<Rightarrow> bool"
  assumes same_refl: "typed a \<Longrightarrow> same a a"
    and same_sym: "same a b \<Longrightarrow> same b a"
    and same_trans: "same a b \<Longrightarrow> same b c \<Longrightarrow> same a c"
    and beats_irrefl: "\<not> beats a a"
    and beats_trans: "typed a \<Longrightarrow> typed b \<Longrightarrow> typed c \<Longrightarrow> beats a b \<Longrightarrow> beats b c \<Longrightarrow> beats a c"
    and beats_total: "typed a \<Longrightarrow> typed b \<Longrightarrow> same a b \<Longrightarrow> a ''id'' \<noteq> b ''id'' \<Longrightarrow> beats a b \<or> beats b a"
begin

definition loses :: "crr_row set \<Rightarrow> crr_row \<Rightarrow> bool" where
  "loses E n \<longleftrightarrow> n \<in> E \<and> (\<exists>w\<in>E. same w n \<and> beats w n)"

text \<open>Every group has a winner.\<close>

lemma has_winner:
  assumes "finite E" and "\<forall>r\<in>E. typed r" and "n \<in> E"
  shows "\<exists>w\<in>E. same w n \<and> \<not> loses E w"
proof -
  let ?G = "{w \<in> E. same w n}"
  have "\<exists>w\<in>G. \<forall>v\<in>G. \<not> beats v w" if "finite G" "G \<noteq> {}" "\<forall>r\<in>G. typed r" for G
    using that
  proof (induction rule: finite_ne_induct)
    case (singleton x)
    then show ?case using beats_irrefl by blast
  next
    case (insert x G)
    then obtain w where w: "w \<in> G" "\<forall>v\<in>G. \<not> beats v w" by blast
    show ?case
    proof (cases "beats x w")
      case True
      have "\<not> beats v x" if "v \<in> insert x G" for v
        using that w True beats_irrefl beats_trans [of v x w] insert.prems by blast
      then show ?thesis by blast
    next
      case False
      with w show ?thesis by blast
    qed
  qed
  moreover have "finite ?G" "n \<in> ?G" "\<forall>r\<in>?G. typed r" using assms same_refl by auto
  ultimately obtain w where w: "w \<in> ?G" "\<forall>v\<in>?G. \<not> beats v w" by blast
  have "\<not> loses E w"
  proof
    assume "loses E w"
    then obtain v where v: "v \<in> E" "same v w" "beats v w" by (auto simp: loses_def)
    then have "v \<in> ?G" using w(1) same_trans by blast
    with w(2) v(3) show False by blast
  qed
  with w(1) show ?thesis by blast
qed

text \<open>And only one.\<close>

lemma one_winner:
  assumes "\<forall>r\<in>E. typed r" and "a \<in> E" "b \<in> E" and "same a b" and "\<not> loses E a" "\<not> loses E b"
  shows "a ''id'' = b ''id''"
  using assms beats_total [of a b] same_sym unfolding loses_def by blast

end

lemma sql_less_irrefl [simp]: "\<not> sql_less a a"
  by (cases a) simp_all

lemma sql_less_trans: "sql_less a b \<Longrightarrow> sql_less b c \<Longrightarrow> sql_less a c"
  by (cases a; cases b; cases c) auto

lemma sql_less_total: "a \<noteq> SqlNull \<Longrightarrow> b \<noteq> SqlNull \<Longrightarrow> a \<noteq> b \<Longrightarrow> sql_less a b \<or> sql_less b a"
  by (cases a; cases b) auto

definition not_null :: "string list \<Rightarrow> crr_row \<Rightarrow> bool" where
  "not_null cols r \<longleftrightarrow> list_all (\<lambda>c. r c \<noteq> SqlNull) cols"

interpretation nt: dedup "not_null [''id'', ''session_id'', ''updated_at'']" same_note note_beats
proof unfold_locales
  fix a b c
  show "note_beats a c" if "note_beats a b" "note_beats b c"
    using that unfolding note_beats_def sql_eq_def by (elim disjE conjE) (auto intro: sql_less_trans)
  show "note_beats a b \<or> note_beats b a"
    if "not_null [''id'', ''session_id'', ''updated_at''] a" "not_null [''id'', ''session_id'', ''updated_at''] b" "a ''id'' \<noteq> b ''id''"
    using that sql_less_total unfolding note_beats_def sql_eq_def not_null_def list_all_iff by (metis list.set_intros)
qed (auto simp: same_note_def note_beats_def sql_eq_def not_null_def)

interpretation pt: dedup "not_null [''id'', ''session_id'', ''part_index'']" same_part lower_id
proof unfold_locales
  fix a b c
  show "lower_id a c" if "lower_id a b" "lower_id b c" using that sql_less_trans unfolding lower_id_def by blast
  show "lower_id a b \<or> lower_id b a"
    if "not_null [''id'', ''session_id'', ''part_index''] a" "not_null [''id'', ''session_id'', ''part_index''] b" "a ''id'' \<noteq> b ''id''"
    using that sql_less_total unfolding lower_id_def not_null_def list_all_iff by (metis list.set_intros)
qed (auto simp: same_part_def lower_id_def sql_eq_def not_null_def)

definition nocase_key :: "sqlval \<Rightarrow> sqlval" where
  "nocase_key v = (case v of SqlText s \<Rightarrow> SqlText (lower_str s) | _ \<Rightarrow> v)"

lemma nocase_eq_iff: "nocase_eq a b \<longleftrightarrow> a \<noteq> SqlNull \<and> b \<noteq> SqlNull \<and> nocase_key a = nocase_key b"
  by (cases a; cases b) (auto simp: sql_eq_def nocase_key_def)

interpretation tg: dedup "not_null [''id'', ''name'']" same_tag lower_id
proof unfold_locales
  fix a b c
  show "lower_id a c" if "lower_id a b" "lower_id b c" using that sql_less_trans unfolding lower_id_def by blast
  show "lower_id a b \<or> lower_id b a" if "not_null [''id'', ''name''] a" "not_null [''id'', ''name''] b" "a ''id'' \<noteq> b ''id''"
    using that sql_less_total unfolding lower_id_def not_null_def list_all_iff by (metis list.set_intros)
qed (auto simp: same_tag_def lower_id_def not_null_def nocase_eq_iff)

definition proven_set :: "crr_table \<Rightarrow> string list \<Rightarrow> crr_row set" where
  "proven_set tb cols = {r \<in> set (ct_rows tb). proven_row tb cols r}"

lemma delete_from_rows: "delete_from H P tb = (n, tb') \<Longrightarrow> ct_rows tb' = filter (\<lambda>r. \<not> P r) (ct_rows tb)"
  by (auto simp: delete_from_def Let_def)

text \<open>The primary key, and the columns that may not be null.\<close>

definition keyed_rows :: "string list \<Rightarrow> crr_table \<Rightarrow> bool" where
  "keyed_rows cols tb \<longleftrightarrow> inj_on (\<lambda>r. r ''id'') (set (ct_rows tb)) \<and> (\<forall>r\<in>set (ct_rows tb). not_null (''id'' # cols) r)"

lemma dedup_notes_rows:
  assumes "keyed_rows cols tb" and "dedup_notes H tb = (n, tb')"
  shows "set (ct_rows tb') = {r \<in> set (ct_rows tb). \<not> nt.loses (proven_set tb [''session_id'', ''updated_at'']) r}"
proof -
  have "w ''id'' \<noteq> r ''id''" if "w \<in> set (ct_rows tb)" "r \<in> set (ct_rows tb)" "note_beats w r" for w r
    using assms(1) that nt.beats_irrefl unfolding keyed_rows_def inj_on_def by metis
  then have "(\<exists>w\<in>set (ct_rows tb). same_note w r \<and> w ''id'' \<noteq> r ''id'' \<and> note_beats w r \<and>
      proven_row tb [''session_id'', ''updated_at''] r \<and> proven_row tb [''session_id'', ''updated_at''] w) \<longleftrightarrow>
      nt.loses (proven_set tb [''session_id'', ''updated_at'']) r" if "r \<in> set (ct_rows tb)" for r
    using that unfolding nt.loses_def proven_set_def by blast
  with delete_from_rows [OF assms(2) [unfolded dedup_notes_def Let_def]] show ?thesis by auto
qed

lemma dedup_parts_rows:
  assumes "dedup_audio_parts H tb = (n, tb')"
  shows "set (ct_rows tb') = {r \<in> set (ct_rows tb). \<not> pt.loses (proven_set tb [''session_id'', ''part_index'']) r}"
proof -
  have "(\<exists>w\<in>set (ct_rows tb). same_part w r \<and> lower_id w r \<and>
      proven_row tb [''session_id'', ''part_index''] r \<and> proven_row tb [''session_id'', ''part_index''] w) \<longleftrightarrow>
      pt.loses (proven_set tb [''session_id'', ''part_index'']) r" if "r \<in> set (ct_rows tb)" for r
    using that unfolding pt.loses_def proven_set_def by blast
  with delete_from_rows [OF assms [unfolded dedup_audio_parts_def Let_def]] show ?thesis by auto
qed

text \<open>The winner of a tag is the row of its group that loses to none.\<close>

lemma lowest_id_spec:
  "ms \<noteq> [] \<Longrightarrow> \<forall>m\<in>set ms. m ''id'' \<noteq> SqlNull \<Longrightarrow> \<exists>m\<in>set ms. lowest_id ms = m ''id'' \<and> (\<forall>v\<in>set ms. \<not> sql_less (v ''id'') (m ''id''))"
proof (induction ms rule: lowest_id.induct)
  case (2 m)
  then show ?case by simp
next
  case (3 m m' ms)
  have "\<exists>w\<in>set (m' # ms). lowest_id (m' # ms) = w ''id'' \<and> (\<forall>v\<in>set (m' # ms). \<not> sql_less (v ''id'') (w ''id''))"
    by (rule "3.IH") (use 3 in simp_all)
  then obtain w where w: "w \<in> set (m' # ms)" "lowest_id (m' # ms) = w ''id''" "\<forall>v\<in>set (m' # ms). \<not> sql_less (v ''id'') (w ''id'')"
    by blast
  show ?case
  proof (cases "sql_less (w ''id'') (m ''id'')")
    case True
    then have "\<not> sql_less (m ''id'') (w ''id'')" using sql_less_trans sql_less_irrefl by blast
    with w True show ?thesis by (intro bexI [of _ w]) auto
  next
    case False
    have "\<not> sql_less (v ''id'') (m ''id'')" if "v \<in> set (m' # ms)" for v
    proof
      assume lt: "sql_less (v ''id'') (m ''id'')"
      have "v ''id'' \<noteq> SqlNull" "w ''id'' \<noteq> SqlNull" using 3(3) that w(1) by (meson list.set_intros(2))+
      then have "v ''id'' = w ''id'' \<or> sql_less (w ''id'') (v ''id'')"
        using sql_less_total [of "v ''id''" "w ''id''"] w(3) that by blast
      with lt False sql_less_trans [of "w ''id''" "v ''id''" "m ''id''"] show False by auto
    qed
    with w False show ?thesis by (intro bexI [of _ m]) auto
  qed
qed simp

lemma tag_winner_spec:
  assumes "keyed_rows [''name''] tags" and t: "t \<in> proven_set tags [''name'']"
  shows "\<exists>w\<in>proven_set tags [''name'']. same_tag w t \<and> tag_winner tags t = w ''id'' \<and> \<not> tg.loses (proven_set tags [''name'']) w"
proof -
  let ?ms = "filter (\<lambda>m. same_tag m t \<and> proven_row tags [''name''] m) (ct_rows tags)"
  have typed: "\<forall>r\<in>set (ct_rows tags). not_null [''id'', ''name''] r" using assms(1) by (simp add: keyed_rows_def)
  then have "t \<in> set ?ms" "\<forall>m\<in>set ?ms. m ''id'' \<noteq> SqlNull"
    using t tg.same_refl by (auto simp: proven_set_def not_null_def)
  note ms = this
  from ms(1) have "?ms \<noteq> []" by (rule list.set_cases) auto
  from lowest_id_spec [OF this ms(2)] obtain w where w: "w \<in> set ?ms" "lowest_id ?ms = w ''id''"
    "\<forall>v\<in>set ?ms. \<not> sql_less (v ''id'') (w ''id'')" by blast
  have "\<not> tg.loses (proven_set tags [''name'']) w"
  proof
    assume "tg.loses (proven_set tags [''name'']) w"
    then obtain v where v: "v \<in> proven_set tags [''name'']" "same_tag v w" "lower_id v w" by (auto simp: tg.loses_def)
    then have "v \<in> set ?ms" using w(1) tg.same_trans by (auto simp: proven_set_def)
    with v(3) w(3) show False by (simp add: lower_id_def)
  qed
  with w show ?thesis by (intro bexI [of _ w]) (auto simp: tag_winner_def proven_set_def)
qed

text \<open>A deduplicated table: one row of each group of the rows \<open>E\<close>, its winner, and all other rows.\<close>

definition deduped :: "(crr_row \<Rightarrow> crr_row \<Rightarrow> bool) \<Rightarrow> (crr_row \<Rightarrow> crr_row \<Rightarrow> bool) \<Rightarrow> crr_row set \<Rightarrow> crr_row set \<Rightarrow> crr_row set \<Rightarrow> bool" where
  "deduped same beats E rows rows' \<longleftrightarrow> rows' \<subseteq> rows \<and> rows - E \<subseteq> rows' \<and>
     (\<forall>a\<in>E \<inter> rows'. \<forall>b\<in>E \<inter> rows'. same a b \<longrightarrow> a = b) \<and>
     (\<forall>n\<in>E. \<exists>w\<in>E \<inter> rows'. same w n \<and> (w = n \<or> beats w n))"

context dedup begin

lemma losers_gone:
  assumes "finite E" and "E \<subseteq> rows" and typed: "\<forall>r\<in>E. typed r" and key: "inj_on (\<lambda>r. r ''id'') E"
  shows "deduped same beats E rows {r \<in> rows. \<not> loses E r}"
  unfolding deduped_def
proof (intro conjI ballI impI)
  show "{r \<in> rows. \<not> loses E r} \<subseteq> rows" "rows - E \<subseteq> {r \<in> rows. \<not> loses E r}" by (auto simp: loses_def)
  show "a = b" if "a \<in> E \<inter> {r \<in> rows. \<not> loses E r}" "b \<in> E \<inter> {r \<in> rows. \<not> loses E r}" "same a b" for a b
    using one_winner [OF typed, of a b] that inj_onD [OF key, of a b] by blast
  fix n assume n: "n \<in> E"
  obtain w where w: "w \<in> E" "same w n" "\<not> loses E w" using has_winner [OF assms(1) typed n] by blast
  have "w = n \<or> beats w n"
  proof (cases "w ''id'' = n ''id''")
    case True
    with inj_onD [OF key] w(1) n show ?thesis by blast
  next
    case False
    then have "beats w n \<or> beats n w" using beats_total typed w(1,2) n by blast
    with w n same_sym show ?thesis unfolding loses_def by blast
  qed
  with w assms(2) show "\<exists>w\<in>E \<inter> {r \<in> rows. \<not> loses E r}. same w n \<and> (w = n \<or> beats w n)" by blast
qed

end

lemma proven_keyed:
  assumes "keyed_rows cols tb"
  shows "finite (proven_set tb cs)" "proven_set tb cs \<subseteq> set (ct_rows tb)" "\<forall>r\<in>proven_set tb cs. not_null (''id'' # cols) r"
    "inj_on (\<lambda>r. r ''id'') (proven_set tb cs)"
  using assms by (auto simp: keyed_rows_def proven_set_def intro: inj_on_subset)

subsection \<open>Merging tags\<close>

definition assoc :: "crr_row list \<Rightarrow> sqlval \<Rightarrow> sqlval \<Rightarrow> bool" where
  "assoc rows s t \<longleftrightarrow> (\<exists>r\<in>set rows. r ''session_id'' = s \<and> r ''tag_id'' = t)"

definition redirect :: "(sqlval \<times> sqlval) list \<Rightarrow> sqlval \<Rightarrow> sqlval" where
  "redirect pairs u = (case map_of pairs u of Some w \<Rightarrow> w | None \<Rightarrow> u)"

lemma repoint_assoc:
  assumes "loser \<noteq> SqlNull" and "winner \<noteq> SqlNull" and "winner \<noteq> loser"
  shows "assoc (ct_rows (repoint_tag H loser winner st)) s t \<longleftrightarrow> (\<exists>u. assoc (ct_rows st) s u \<and> t = (if u = loser then winner else u))"
proof -
  have eqs: "sql_eq x loser \<longleftrightarrow> x = loser" "sql_eq x winner \<longleftrightarrow> x = winner" for x using assms by (auto simp: sql_eq_def)
  define already where "already = map (\<lambda>r. r ''session_id'') (filter (\<lambda>r. r ''tag_id'' = winner) (ct_rows st))"
  define moved where "moved = filter (\<lambda>r. r ''tag_id'' = loser \<and> r ''session_id'' \<notin> set already) (ct_rows st)"
  have rows: "ct_rows (repoint_tag H loser winner st) =
      filter (\<lambda>r. r ''tag_id'' \<noteq> loser) (ct_rows st) @ map (\<lambda>r. r(''tag_id'' := winner)) moved"
    unfolding repoint_tag_def Let_def eqs already_def [symmetric] moved_def [symmetric] delete_from_def insert_into_def
    using assms(3) by (simp add: filter_map comp_def)
  have al: "x \<in> set already \<longleftrightarrow> assoc (ct_rows st) x winner" for x by (auto simp: already_def assoc_def image_iff)
  have mv: "r \<in> set moved \<longleftrightarrow> r \<in> set (ct_rows st) \<and> r ''tag_id'' = loser \<and> \<not> assoc (ct_rows st) (r ''session_id'') winner" for r
    by (auto simp: moved_def al)
  show ?thesis
  proof
    assume "assoc (ct_rows (repoint_tag H loser winner st)) s t"
    then obtain r where r: "r \<in> set (ct_rows (repoint_tag H loser winner st))" "r ''session_id'' = s" "r ''tag_id'' = t"
      by (auto simp: assoc_def)
    from r(1) consider "r \<in> set (ct_rows st)" "r ''tag_id'' \<noteq> loser" | r0 where "r0 \<in> set moved" "r = r0(''tag_id'' := winner)"
      unfolding rows by auto
    then show "\<exists>u. assoc (ct_rows st) s u \<and> t = (if u = loser then winner else u)"
    proof cases
      case 1
      with r show ?thesis by (intro exI [of _ t]) (auto simp: assoc_def)
    next
      case 2
      with r mv show ?thesis by (intro exI [of _ loser]) (auto simp: assoc_def)
    qed
  next
    assume "\<exists>u. assoc (ct_rows st) s u \<and> t = (if u = loser then winner else u)"
    then obtain r where r: "r \<in> set (ct_rows st)" "r ''session_id'' = s" "t = (if r ''tag_id'' = loser then winner else r ''tag_id'')"
      by (auto simp: assoc_def)
    show "assoc (ct_rows (repoint_tag H loser winner st)) s t"
    proof (cases "r ''tag_id'' = loser")
      case False
      with r show ?thesis unfolding assoc_def rows by auto
    next
      case True
      show ?thesis
      proof (cases "assoc (ct_rows st) s winner")
        case True
        then obtain r' where "r' \<in> set (ct_rows st)" "r' ''session_id'' = s" "r' ''tag_id'' = winner" by (auto simp: assoc_def)
        with r \<open>r ''tag_id'' = loser\<close> assms(3) show ?thesis unfolding assoc_def rows by auto
      next
        case no: False
        then have "r \<in> set moved" using r True mv by simp
        with r True show ?thesis unfolding assoc_def rows by (auto intro!: bexI [of _ "r(''tag_id'' := winner)"])
      qed
    qed
  qed
qed

lemma merge_tags_effect:
  assumes "\<forall>(l, w)\<in>set pairs. l \<noteq> SqlNull \<and> w \<noteq> SqlNull \<and> l \<noteq> w \<and> w \<notin> fst ` set all" and "fst ` set pairs \<subseteq> fst ` set all"
    and "merge_tags H pairs m (tags, st) = (m', tags', st')"
  shows "ct_rows tags' = filter (\<lambda>r. r ''id'' \<notin> fst ` set pairs) (ct_rows tags) \<and>
    (\<forall>s t. assoc (ct_rows st') s t \<longleftrightarrow> (\<exists>u. assoc (ct_rows st) s u \<and> t = redirect pairs u))"
  using assms
proof (induction pairs arbitrary: m tags st)
  case Nil
  then show ?case by (auto simp: redirect_def)
next
  case (Cons p pairs)
  obtain l w where p: "p = (l, w)" by fastforce
  obtain n tags1 where d: "delete_from H (\<lambda>r. sql_eq (r ''id'') l) tags = (n, tags1)" by fastforce
  have lw: "l \<noteq> SqlNull" "w \<noteq> SqlNull" "l \<noteq> w" "w \<notin> fst ` set all" using Cons.prems(1) p by auto
  have run: "merge_tags H pairs (m + n) (tags1, repoint_tag H l w st) = (m', tags', st')" using Cons.prems(3) p d by simp
  have ih: "ct_rows tags' = filter (\<lambda>r. r ''id'' \<notin> fst ` set pairs) (ct_rows tags1) \<and>
    (\<forall>s t. assoc (ct_rows st') s t \<longleftrightarrow> (\<exists>u. assoc (ct_rows (repoint_tag H l w st)) s u \<and> t = redirect pairs u))"
    by (rule Cons.IH [OF _ _ run]) (use Cons.prems in auto)
  have tags1: "ct_rows tags1 = filter (\<lambda>r. r ''id'' \<noteq> l) (ct_rows tags)"
    using delete_from_rows [OF d] lw(1) by (auto simp: sql_eq_def intro: filter_cong)
  have "map_of pairs w = None"
    using lw(4) Cons.prems(2) by (auto simp: map_of_eq_None_iff)
  then have red: "redirect pairs (if u = l then w else u) = redirect (p # pairs) u" for u
    by (simp add: redirect_def p)
  have "assoc (ct_rows st') s t \<longleftrightarrow> (\<exists>u. assoc (ct_rows st) s u \<and> t = redirect (p # pairs) u)" for s t
  proof -
    have "assoc (ct_rows st') s t \<longleftrightarrow> (\<exists>v. (\<exists>u. assoc (ct_rows st) s u \<and> v = (if u = l then w else u)) \<and> t = redirect pairs v)"
      using ih unfolding repoint_assoc [OF lw(1,2) not_sym [OF lw(3)]] by blast
    also have "\<dots> \<longleftrightarrow> (\<exists>u. assoc (ct_rows st) s u \<and> t = redirect pairs (if u = l then w else u))" by blast
    finally show ?thesis unfolding red .
  qed
  moreover have "ct_rows tags' = filter (\<lambda>r. r ''id'' \<notin> fst ` set (p # pairs)) (ct_rows tags)"
    using ih tags1 p by (auto intro: filter_cong)
  ultimately show ?case by blast
qed

lemma tag_pairs_iff:
  assumes "keyed_rows [''name''] tags"
  shows "(l, w) \<in> set (tag_pairs tags) \<longleftrightarrow> (\<exists>t\<in>proven_set tags [''name'']. l = t ''id'' \<and> w = tag_winner tags t \<and> w \<noteq> l)"
  by (auto simp: tag_pairs_def proven_set_def)

lemma loser_pairs:
  assumes key: "keyed_rows [''name''] tags" and t: "t \<in> proven_set tags [''name'']"
  shows "tag_winner tags t \<noteq> t ''id'' \<longleftrightarrow> tg.loses (proven_set tags [''name'']) t"
proof -
  note pk = proven_keyed [OF key, of "[''name'']"]
  obtain w where w: "w \<in> proven_set tags [''name'']" "same_tag w t" "tag_winner tags t = w ''id''"
    "\<not> tg.loses (proven_set tags [''name'']) w" using tag_winner_spec [OF key t] by blast
  show ?thesis
  proof
    assume ne: "tag_winner tags t \<noteq> t ''id''"
    show "tg.loses (proven_set tags [''name'']) t"
    proof (rule ccontr)
      assume "\<not> tg.loses (proven_set tags [''name'']) t"
      from tg.one_winner [OF pk(3) w(1) t w(2,4) this] ne w(3) show False by simp
    qed
  next
    assume "tg.loses (proven_set tags [''name'']) t"
    with w inj_onD [OF pk(4), of w t] t show "tag_winner tags t \<noteq> t ''id''" by metis
  qed
qed

lemma dedup_tags_effect:
  assumes key: "keyed_rows [''name''] tags" and run: "dedup_tags H (tags, st) = (n, tags', st')"
  shows "set (ct_rows tags') = {r \<in> set (ct_rows tags). \<not> tg.loses (proven_set tags [''name'']) r} \<and>
    (\<forall>s t. assoc (ct_rows st') s t \<longleftrightarrow> (\<exists>u. assoc (ct_rows st) s u \<and> t = redirect (tag_pairs tags) u))"
proof -
  let ?P = "proven_set tags [''name'']"
  note pk = proven_keyed [OF key, of "[''name'']"]
  have ok: "l \<noteq> SqlNull \<and> w \<noteq> SqlNull \<and> l \<noteq> w \<and> w \<notin> fst ` set (tag_pairs tags)" if lw: "(l, w) \<in> set (tag_pairs tags)" for l w
  proof -
    obtain t where t: "t \<in> ?P" "l = t ''id''" "w = tag_winner tags t" "w \<noteq> l" using lw unfolding tag_pairs_iff [OF key] by blast
    obtain v where v: "v \<in> ?P" "w = v ''id''" "\<not> tg.loses ?P v" using tag_winner_spec [OF key t(1)] t(3) by blast
    have "w \<notin> fst ` set (tag_pairs tags)"
    proof
      assume "w \<in> fst ` set (tag_pairs tags)"
      then obtain x where "(w, x) \<in> set (tag_pairs tags)" by auto
      then obtain u where u: "u \<in> ?P" "w = u ''id''" "tag_winner tags u \<noteq> u ''id''" unfolding tag_pairs_iff [OF key] by blast
      from u(2) v(2) have "u ''id'' = v ''id''" by (rule subst)
      from inj_onD [OF pk(4) this u(1) v(1)] have "u = v" .
      with u(3) v(3) loser_pairs [OF key v(1)] show False by blast
    qed
    moreover have "l \<noteq> SqlNull" "w \<noteq> SqlNull" using bspec [OF pk(3) t(1)] bspec [OF pk(3) v(1)] t(2) v(2) by (simp_all add: not_null_def)
    ultimately show ?thesis using t(4) by simp
  qed
  have m: "ct_rows tags' = filter (\<lambda>r. r ''id'' \<notin> fst ` set (tag_pairs tags)) (ct_rows tags) \<and>
    (\<forall>s t. assoc (ct_rows st') s t \<longleftrightarrow> (\<exists>u. assoc (ct_rows st) s u \<and> t = redirect (tag_pairs tags) u))"
    using ok run by (intro merge_tags_effect [where all = "tag_pairs tags" and m = 0 and tags = tags and st = st and m' = n and H = H])
      (auto simp: dedup_tags_def)
  have "r ''id'' \<in> fst ` set (tag_pairs tags) \<longleftrightarrow> tg.loses ?P r" if r: "r \<in> set (ct_rows tags)" for r
  proof (cases "r \<in> ?P")
    case True
    have "r ''id'' \<in> fst ` set (tag_pairs tags) \<longleftrightarrow> tag_winner tags r \<noteq> r ''id''"
    proof
      assume "r ''id'' \<in> fst ` set (tag_pairs tags)"
      then obtain w where "(r ''id'', w) \<in> set (tag_pairs tags)" by auto
      then obtain t where "t \<in> ?P" "r ''id'' = t ''id''" "tag_winner tags t \<noteq> r ''id''" unfolding tag_pairs_iff [OF key] by blast
      with inj_onD [OF pk(4), of t r] True show "tag_winner tags r \<noteq> r ''id''" by auto
    next
      assume "tag_winner tags r \<noteq> r ''id''"
      then have "(r ''id'', tag_winner tags r) \<in> set (tag_pairs tags)" unfolding tag_pairs_iff [OF key] using True by blast
      then show "r ''id'' \<in> fst ` set (tag_pairs tags)" by force
    qed
    with loser_pairs [OF key True] show ?thesis by simp
  next
    case False
    have "r ''id'' \<notin> fst ` set (tag_pairs tags)"
    proof
      assume "r ''id'' \<in> fst ` set (tag_pairs tags)"
      then obtain w where "(r ''id'', w) \<in> set (tag_pairs tags)" by auto
      then obtain t where "t \<in> ?P" "r ''id'' = t ''id''" unfolding tag_pairs_iff [OF key] by blast
      moreover have "inj_on (\<lambda>r. r ''id'') (set (ct_rows tags))" using key by (simp add: keyed_rows_def)
      ultimately have "r = t" using r pk(2) by (meson inj_onD subsetD)
      with False \<open>t \<in> ?P\<close> show False by simp
    qed
    with False show ?thesis by (simp add: tg.loses_def)
  qed
  then have "set (ct_rows tags') = {r \<in> set (ct_rows tags). \<not> tg.loses ?P r}" using m by auto
  with m show ?thesis by blast
qed

lemma enforce_uniqueness_passes:
  assumes run: "enforce_uniqueness H db = (stats, db')"
    and there: "db ''notes'' = Some notes" "db ''tags'' = Some tags" "db ''session_tags'' = Some st" "db ''session_audio_parts'' = Some parts"
  obtains n notes' k tags' st' m parts' where "dedup_notes H notes = (n, notes')" "dedup_tags H (tags, st) = (k, tags', st')"
    "dedup_audio_parts H parts = (m, parts')"
    "db' = db(''notes'' \<mapsto> notes', ''tags'' \<mapsto> tags', ''session_tags'' \<mapsto> st', ''session_audio_parts'' \<mapsto> parts')"
    "stats = \<lparr>us_notes = n, us_tags = k, us_parts = m, us_skipped = 0\<rparr>"
proof -
  obtain n notes' where a: "dedup_notes H notes = (n, notes')" by fastforce
  obtain k tags' st' where b: "dedup_tags H (tags, st) = (k, tags', st')" by (metis surj_pair)
  obtain m parts' where c: "dedup_audio_parts H parts = (m, parts')" by fastforce
  from run there a b c show ?thesis
    by (intro that [OF a b c]) (auto simp: enforce_uniqueness_def run_notes_def run_tags_def run_parts_def all_crr_def)
qed

subsection \<open>Properties\<close>

text \<open>C11. The cascade replaces the foreign keys. After a pass no row of a listed relation refers to a parent that
  is proven deleted, and no listed reference dangles, wherever the tables it names are there; a row is
  deleted only when one of its parents is proven deleted in the end, so never because a parent has not
  arrived yet, a reference is nulled only when its referent is, every other value stays, and nothing
  appears.\<close>

theorem cascade_closes_and_keeps:
  assumes "hooks_law H" and "cascade_gc H db = (stats, db')"
  shows "(\<forall>(t, fks)\<in>set orphan_rels. all_crr (t # map snd fks) db \<longrightarrow> (\<forall>r\<in>set (rows_of db' t). \<not> orphan db' fks r)) \<and>
    (\<forall>(t, fk, p)\<in>set set_null. all_crr [t, p] db \<longrightarrow> (\<forall>r\<in>set (rows_of db' t). \<not> orphan db' [(fk, p)] r)) \<and>
    (\<forall>t. \<forall>r\<in>set (rows_of db t). orphaned db' t r \<or> (\<exists>r'\<in>set (rows_of db' t). nulled_from db' t r r')) \<and>
    (\<forall>t. \<forall>r'\<in>set (rows_of db' t). \<exists>r\<in>set (rows_of db t). nulled_from db' t r r')"
proof -
  obtain s1 db1 where d: "fold (\<lambda>(c, fks). delete_orphans H c fks) orphan_rels (\<lparr>cs_deleted = 0, cs_nulled = 0, cs_skipped = 0\<rparr>, db) = (s1, db1)"
    by fastforce
  then have n: "fold (\<lambda>(t, fk, p). null_dangling H t fk p) set_null (s1, db1) = (stats, db')"
    using assms(2) by (simp add: cascade_gc_rels)
  have "\<forall>d\<in>{} \<union> set orphan_rels. closed db1 d"
    by (rule delete_rels_closes [OF assms(1) orphan_rels_ordered _ d]) simp
  moreover note nr = null_rels [OF assms(1) subset_refl n]
  ultimately have cl: "\<forall>d\<in>set orphan_rels. closed db' d" "\<forall>(t, fk, p)\<in>set set_null. closed db' (t, [(fk, p)])" by auto
  have sh: "shrinks db db'" by (rule shrinks_trans [OF shrinks_delete_rels [OF assms(1) subset_refl d]]) (use nr in blast)
  then have crr: "all_crr ts db' = all_crr ts db" for ts by (intro all_crr_same) (simp add: shrinks_def)
  show ?thesis
  proof (intro conjI)
    show "\<forall>(t, fks)\<in>set orphan_rels. all_crr (t # map snd fks) db \<longrightarrow> (\<forall>r\<in>set (rows_of db' t). \<not> orphan db' fks r)"
      using cl(1) unfolding closed_def crr by fastforce
    show "\<forall>(t, fk, p)\<in>set set_null. all_crr [t, p] db \<longrightarrow> (\<forall>r\<in>set (rows_of db' t). \<not> orphan db' [(fk, p)] r)"
      using cl(2) unfolding closed_def crr by fastforce
  qed (use sh in \<open>unfold shrinks_def, blast\<close>)+
qed

text \<open>A small database: a session that is proven deleted, and one that has not arrived.\<close>

definition columns :: "(string \<times> sqlval) list \<Rightarrow> crr_row" where
  "columns kvs c = (case map_of kvs c of Some v \<Rightarrow> v | None \<Rightarrow> SqlNull)"

definition sample_hooks :: crr_hooks where
  "sample_hooks = \<lparr>ch_insert = \<lambda>r c. c, ch_update = \<lambda>col r c. c, ch_delete = \<lambda>r c. \<lparr>ck_id = r ''id'', ck_col = ''-1'', ck_version = 2\<rparr> # c\<rparr>"

definition sample_deleted :: crr_tables where
  "sample_deleted = [''sessions'' \<mapsto> \<lparr>ct_rows = [], ct_clock = [\<lparr>ck_id = SqlText ''s1'', ck_col = ''-1'', ck_version = 2\<rparr>]\<rparr>,
     ''notes'' \<mapsto> \<lparr>ct_rows = [columns [(''id'', SqlText ''n1''), (''session_id'', SqlText ''s1'')],
       columns [(''id'', SqlText ''n2''), (''session_id'', SqlText ''s2'')]], ct_clock = []\<rparr>]"

lemma sample_hooks_law: "hooks_law sample_hooks"
  by (auto simp: hooks_law_def sample_hooks_def proven_deleted_def)

lemma cascade_closes_and_keeps_witness:
  "rows_of (snd (cascade_gc sample_hooks sample_deleted)) ''notes'' = [columns [(''id'', SqlText ''n2''), (''session_id'', SqlText ''s2'')]] \<and>
   \<not> orphan (snd (cascade_gc sample_hooks sample_deleted)) [(''session_id'', ''sessions'')]
     (columns [(''id'', SqlText ''n2''), (''session_id'', SqlText ''s2'')])"
proof -
  have left: "rows_of (snd (cascade_gc sample_hooks sample_deleted)) ''notes'' = [columns [(''id'', SqlText ''n2''), (''session_id'', SqlText ''s2'')]]"
    by (simp add: cascade_gc_def cascade_delete_def cascade_junction_def set_null_def sample_deleted_def sample_hooks_def rows_of_def
      delete_orphans_def null_dangling_def all_crr_def delete_from_def orphan_def sql_in_def proven_deleted_pks_def proven_deleted_def
      columns_def Let_def image_iff)
  moreover have "\<forall>r\<in>set (rows_of (snd (cascade_gc sample_hooks sample_deleted)) ''notes'').
     \<not> orphan (snd (cascade_gc sample_hooks sample_deleted)) [(''session_id'', ''sessions'')] r"
    using cascade_closes_and_keeps [OF sample_hooks_law prod.collapse [symmetric], THEN conjunct1, rule_format,
      of "(''notes'', [(''session_id'', ''sessions'')])" sample_deleted]
    by (simp add: orphan_rels_def cascade_delete_def all_crr_def sample_deleted_def)
  ultimately show ?thesis by simp
qed

text \<open>C12. Where the four tables are there, the uniqueness pass leaves of each group of rows that are proven to
  collide exactly one: of the notes of a session the one updated last, the lowest id among those, of the
  tags with one name up to case and of the audio parts with one index the lowest id. Every row removed
  has such a winner, rows with an unproven column are not touched, and nothing appears.\<close>

theorem uniqueness_keeps_one_winner:
  assumes "enforce_uniqueness H db = (stats, db')"
    and "db ''notes'' = Some notes" and "db ''tags'' = Some tags" and "db ''session_tags'' = Some st"
    and "db ''session_audio_parts'' = Some parts"
    and "keyed_rows [''session_id'', ''updated_at''] notes" and "keyed_rows [''name''] tags"
    and "keyed_rows [''session_id'', ''part_index''] parts"
  shows "us_skipped stats = 0 \<and>
    deduped same_note note_beats (proven_set notes [''session_id'', ''updated_at'']) (set (rows_of db ''notes'')) (set (rows_of db' ''notes'')) \<and>
    deduped same_tag lower_id (proven_set tags [''name'']) (set (rows_of db ''tags'')) (set (rows_of db' ''tags'')) \<and>
    deduped same_part lower_id (proven_set parts [''session_id'', ''part_index'']) (set (rows_of db ''session_audio_parts''))
      (set (rows_of db' ''session_audio_parts''))"
proof -
  obtain n notes' k tags' st' m parts' where p: "dedup_notes H notes = (n, notes')" "dedup_tags H (tags, st) = (k, tags', st')"
    "dedup_audio_parts H parts = (m, parts')"
    "db' = db(''notes'' \<mapsto> notes', ''tags'' \<mapsto> tags', ''session_tags'' \<mapsto> st', ''session_audio_parts'' \<mapsto> parts')"
    "stats = \<lparr>us_notes = n, us_tags = k, us_parts = m, us_skipped = 0\<rparr>"
    by (rule enforce_uniqueness_passes [OF assms(1-5)])
  have rows: "rows_of db ''notes'' = ct_rows notes" "rows_of db ''tags'' = ct_rows tags" "rows_of db ''session_audio_parts'' = ct_rows parts"
    "rows_of db' ''notes'' = ct_rows notes'" "rows_of db' ''tags'' = ct_rows tags'" "rows_of db' ''session_audio_parts'' = ct_rows parts'"
    using assms(2-5) by (simp_all add: rows_of_def p(4))
  show ?thesis
    unfolding rows dedup_notes_rows [OF assms(6) p(1)] dedup_parts_rows [OF p(3)] dedup_tags_effect [OF assms(7) p(2), THEN conjunct1] p(5)
    by (intro conjI nt.losers_gone tg.losers_gone pt.losers_gone proven_keyed [OF assms(6)] proven_keyed [OF assms(7)] proven_keyed [OF assms(8)]) simp
qed

text \<open>Merging tags loses no association: after the pass a session carries exactly the tags it carried
  before, each merged tag replaced by the winner it was merged into.\<close>

theorem tag_merge_keeps_associations:
  assumes "enforce_uniqueness H db = (stats, db')"
    and "db ''notes'' = Some notes" and "db ''tags'' = Some tags" and "db ''session_tags'' = Some st"
    and "db ''session_audio_parts'' = Some parts" and "keyed_rows [''name''] tags"
  shows "assoc (rows_of db' ''session_tags'') s t \<longleftrightarrow>
    (\<exists>u. assoc (rows_of db ''session_tags'') s u \<and> t = redirect (tag_pairs tags) u)"
proof -
  obtain n notes' k tags' st' m parts' where p: "dedup_notes H notes = (n, notes')" "dedup_tags H (tags, st) = (k, tags', st')"
    "dedup_audio_parts H parts = (m, parts')"
    "db' = db(''notes'' \<mapsto> notes', ''tags'' \<mapsto> tags', ''session_tags'' \<mapsto> st', ''session_audio_parts'' \<mapsto> parts')"
    "stats = \<lparr>us_notes = n, us_tags = k, us_parts = m, us_skipped = 0\<rparr>"
    by (rule enforce_uniqueness_passes [OF assms(1-5)])
  have "rows_of db' ''session_tags'' = ct_rows st'" "rows_of db ''session_tags'' = ct_rows st"
    using assms(4) by (simp_all add: rows_of_def p(4))
  then show ?thesis using dedup_tags_effect [OF assms(6) p(2), THEN conjunct2] by simp
qed

text \<open>Two tags with one name up to case, both on one session, and two notes of that session.\<close>

definition proof_of :: "string \<Rightarrow> string \<Rightarrow> clock_entry" where
  "proof_of i c = \<lparr>ck_id = SqlText i, ck_col = c, ck_version = 1\<rparr>"

definition sample_tags :: crr_table where
  "sample_tags = \<lparr>ct_rows = [columns [(''id'', SqlText ''t2''), (''name'', SqlText ''WORK'')],
     columns [(''id'', SqlText ''t1''), (''name'', SqlText ''work'')]], ct_clock = [proof_of ''t1'' ''name'', proof_of ''t2'' ''name'']\<rparr>"

definition sample_note_rows :: crr_table where
  "sample_note_rows = \<lparr>ct_rows = [columns [(''id'', SqlText ''a''), (''session_id'', SqlText ''s''), (''updated_at'', SqlText ''1'')],
     columns [(''id'', SqlText ''b''), (''session_id'', SqlText ''s''), (''updated_at'', SqlText ''2'')]],
     ct_clock = [proof_of ''a'' ''session_id'', proof_of ''a'' ''updated_at'', proof_of ''b'' ''session_id'', proof_of ''b'' ''updated_at'']\<rparr>"

definition sample_assocs :: crr_table where
  "sample_assocs = \<lparr>ct_rows = [columns [(''session_id'', SqlText ''s''), (''tag_id'', SqlText ''t2'')]], ct_clock = []\<rparr>"

definition sample_collisions :: crr_tables where
  "sample_collisions = [''notes'' \<mapsto> sample_note_rows, ''tags'' \<mapsto> sample_tags, ''session_tags'' \<mapsto> sample_assocs,
     ''session_audio_parts'' \<mapsto> \<lparr>ct_rows = [], ct_clock = []\<rparr>]"

lemma sample_keyed: "keyed_rows [''name''] sample_tags" "keyed_rows [''session_id'', ''updated_at''] sample_note_rows"
  "keyed_rows cols \<lparr>ct_rows = [], ct_clock = []\<rparr>"
  by (auto simp: keyed_rows_def sample_tags_def sample_note_rows_def columns_def not_null_def)

lemma sample_there: "sample_collisions ''notes'' = Some sample_note_rows" "sample_collisions ''tags'' = Some sample_tags"
  "sample_collisions ''session_tags'' = Some sample_assocs" "sample_collisions ''session_audio_parts'' = Some \<lparr>ct_rows = [], ct_clock = []\<rparr>"
  by (simp_all add: sample_collisions_def)

lemma uniqueness_keeps_one_winner_witness:
  "deduped same_note note_beats (proven_set sample_note_rows [''session_id'', ''updated_at'']) (set (ct_rows sample_note_rows))
     (set (rows_of (snd (enforce_uniqueness sample_hooks sample_collisions)) ''notes'')) \<and>
   card (proven_set sample_note_rows [''session_id'', ''updated_at'']) = 2 \<and>
   list_all (\<lambda>a. list_all (same_note a) (ct_rows sample_note_rows)) (ct_rows sample_note_rows)"
proof (intro conjI)
  show "deduped same_note note_beats (proven_set sample_note_rows [''session_id'', ''updated_at'']) (set (ct_rows sample_note_rows))
     (set (rows_of (snd (enforce_uniqueness sample_hooks sample_collisions)) ''notes''))"
    using uniqueness_keeps_one_winner [OF prod.collapse [symmetric] sample_there sample_keyed(2,1,3)] sample_there
    by (simp add: rows_of_def)
  have "proven_set sample_note_rows [''session_id'', ''updated_at''] = set (ct_rows sample_note_rows)"
    by (auto simp: proven_set_def sample_note_rows_def proven_row_def sql_in_def proven_col_def proof_of_def columns_def image_iff)
  moreover have "columns [(''id'', SqlText ''a''), (''session_id'', SqlText ''s''), (''updated_at'', SqlText ''1'')] \<noteq>
      columns [(''id'', SqlText ''b''), (''session_id'', SqlText ''s''), (''updated_at'', SqlText ''2'')]"
    by (auto simp: columns_def fun_eq_iff)
  ultimately show "card (proven_set sample_note_rows [''session_id'', ''updated_at'']) = 2"
    by (simp add: sample_note_rows_def)
  show "list_all (\<lambda>a. list_all (same_note a) (ct_rows sample_note_rows)) (ct_rows sample_note_rows)"
    by (simp add: sample_note_rows_def same_note_def sql_eq_def columns_def)
qed

lemma sample_names: "nocase_eq (SqlText ''WORK'') (SqlText ''work'')" "nocase_eq (SqlText ''work'') (SqlText ''WORK'')"
  "nocase_eq (SqlText ''WORK'') (SqlText ''WORK'')" "nocase_eq (SqlText ''work'') (SqlText ''work'')"
  by code_simp+

lemma sample_pairs: "tag_pairs sample_tags = [(SqlText ''t2'', SqlText ''t1'')]"
  by (simp del: nocase_eq.simps add: tag_pairs_def tag_winner_def sample_tags_def proven_row_def sql_in_def proven_col_def proof_of_def columns_def
    same_tag_def sample_names image_iff less_list_code less_char_def)

lemma tag_merge_keeps_associations_witness:
  "assoc (rows_of (snd (enforce_uniqueness sample_hooks sample_collisions)) ''session_tags'') (SqlText ''s'') (SqlText ''t1'') \<and>
   \<not> assoc (ct_rows sample_assocs) (SqlText ''s'') (SqlText ''t1'')"
proof
  have "assoc (ct_rows sample_assocs) (SqlText ''s'') (SqlText ''t2'')" by (simp add: assoc_def sample_assocs_def columns_def)
  moreover have "redirect (tag_pairs sample_tags) (SqlText ''t2'') = SqlText ''t1''" by (simp add: redirect_def sample_pairs)
  moreover have "rows_of sample_collisions ''session_tags'' = ct_rows sample_assocs" by (simp add: rows_of_def sample_there)
  ultimately show "assoc (rows_of (snd (enforce_uniqueness sample_hooks sample_collisions)) ''session_tags'') (SqlText ''s'') (SqlText ''t1'')"
    using tag_merge_keeps_associations [OF prod.collapse [symmetric] sample_there sample_keyed(1)] by metis
  show "\<not> assoc (ct_rows sample_assocs) (SqlText ''s'') (SqlText ''t1'')" by (simp add: assoc_def sample_assocs_def columns_def)
qed

end
