(* ===== verification/Cutover.thy ===== *)
theory Cutover
  imports Reconcile Capture "HOL-Library.State_Monad" "HOL-Library.Product_Lexorder" "HOL-Library.Sublist"
begin

text \<open>
  The enable-time cutover of the desktop app and its crash recovery
  (\<open>apps/desktop/src-tauri/src/sync.rs\<close>): the live database is copied, the copy is converted, and the
  two files are swapped by two renames under a durable journal; at the next start
  \<open>recover_interrupted_cutover\<close> completes or undoes a swap that was cut off.

  The directory is a map from file names to contents. A database file has a write-ahead log beside it,
  and what a reader sees is the image last committed to the log. Every system call counts: the
  environment says which ones fail, and the directory after each is recorded, so that a crash can be
  taken after any of them. A crash that also undoes a suffix of the directory operations is a crash
  at an earlier point; one that reorders them is not modelled.

  What cr-sqlite and the schema migration make of the copy is a parameter (\<open>ce_prepare\<close>), and so are
  the images that other writers commit while the pool is open. Log messages are left out.
\<close>

subsection \<open>Files\<close>

datatype file_path = LiveDb | BackupDb | StagingDb | JournalFile | JournalTmp | RecoverTmp | FailedDb | LegacyDb
  | AsideDb string | SideWal file_path | SideShm file_path

fun file_name :: "file_path \<Rightarrow> string" where
  "file_name LiveDb = ''yapstack.db''"
| "file_name BackupDb = ''yapstack.db.pre-sync-backup''"
| "file_name StagingDb = ''yapstack.db.crr-staging''"
| "file_name JournalFile = ''yapstack.db.cutover-journal''"
| "file_name JournalTmp = ''yapstack.db.cutover-journal.tmp''"
| "file_name RecoverTmp = ''yapstack.db.recover-tmp''"
| "file_name FailedDb = ''yapstack.db.crr-cutover-failed''"
| "file_name LegacyDb = ''yapstack.sync.db''"
| "file_name (AsideDb secs) = ''yapstack.db.pre-sync-backup.'' @ secs"
| "file_name (SideWal p) = file_name p @ ''-wal''"
| "file_name (SideShm p) = file_name p @ ''-shm''"

record db_image =
  di_tables :: "(string \<times> crr_row list) list"

datatype cutover_phase = SwapStarted | BackupMoved | SwapCompleted

record cutover_journal =
  cj_version :: nat
  cj_phase :: cutover_phase
  cj_live :: string
  cj_backup :: string
  cj_staging :: string
  cj_counts :: "(string \<times> int) list"
  cj_size :: nat

datatype disk_file = Image db_image | JournalDoc cutover_journal | Blank

type_synonym dir = "file_path \<Rightarrow> disk_file option"

definition side_files :: "file_path \<Rightarrow> file_path list" where
  "side_files p = [SideWal p, SideShm p]"

text \<open>What a reader of a database file sees; an empty file is an empty database.\<close>

definition db_view :: "dir \<Rightarrow> file_path \<Rightarrow> db_image option" where
  "db_view fs p = (case fs p of
     None \<Rightarrow> None
   | Some (JournalDoc j) \<Rightarrow> None
   | Some Blank \<Rightarrow> Some \<lparr>di_tables = []\<rparr>
   | Some (Image d) \<Rightarrow> (case fs (SideWal p) of Some (Image w) \<Rightarrow> Some w | _ \<Rightarrow> Some d))"

subsection \<open>System calls\<close>

record cut_env =
  ce_fail :: "nat \<Rightarrow> bool"
  ce_suffix :: string
  ce_size :: "db_image \<Rightarrow> nat"
  ce_schema :: db_image
  ce_prepare :: "db_image \<Rightarrow> db_image list \<times> (string + db_image)"
  ce_before_vacuum :: "db_image option"
  ce_before_close :: "db_image option"
  ce_after_reopen :: "db_image option"

record disk =
  dk_files :: dir
  dk_past :: "dir list"
  dk_calls :: nat

type_synonym 'a io = "(disk, 'a) state"

definition sys :: "cut_env \<Rightarrow> (dir \<Rightarrow> dir option) \<Rightarrow> bool io" where
  "sys E f = State (\<lambda>d.
     let d1 = d\<lparr>dk_calls := dk_calls d + 1\<rparr>
     in if ce_fail E (dk_calls d) then (False, d1)
        else (case f (dk_files d) of
          None \<Rightarrow> (False, d1)
        | Some fs \<Rightarrow> (True, d1\<lparr>dk_files := fs, dk_past := dk_files d # dk_past d\<rparr>)))"

definition probe :: "cut_env \<Rightarrow> (dir \<Rightarrow> 'a) \<Rightarrow> 'a option io" where
  "probe E f = State (\<lambda>d.
     (if ce_fail E (dk_calls d) then None else Some (f (dk_files d)), d\<lparr>dk_calls := dk_calls d + 1\<rparr>))"

definition rename_file :: "cut_env \<Rightarrow> file_path \<Rightarrow> file_path \<Rightarrow> bool io" where
  "rename_file E a b = sys E (\<lambda>fs. if fs a = None then None else Some (fs(b := fs a, a := None)))"

definition remove_file :: "cut_env \<Rightarrow> file_path \<Rightarrow> bool io" where
  "remove_file E p = sys E (\<lambda>fs. if fs p = None then None else Some (fs(p := None)))"

definition truncate_file :: "cut_env \<Rightarrow> file_path \<Rightarrow> bool io" where
  "truncate_file E p = sys E (\<lambda>fs. Some (fs(p \<mapsto> Blank)))"

definition write_file :: "cut_env \<Rightarrow> file_path \<Rightarrow> disk_file \<Rightarrow> bool io" where
  "write_file E p c = do {
     ok \<leftarrow> truncate_file E p;
     if ok then sys E (\<lambda>fs. Some (fs(p \<mapsto> c))) else State_Monad.return False }"

definition copy_file :: "cut_env \<Rightarrow> file_path \<Rightarrow> file_path \<Rightarrow> bool io" where
  "copy_file E a b = do {
     ok \<leftarrow> sys E (\<lambda>fs. if fs a = None then None else Some (fs(b \<mapsto> Blank)));
     if ok then sys E (\<lambda>fs. Some (fs(b := fs a))) else State_Monad.return False }"

definition touch :: "cut_env \<Rightarrow> file_path \<Rightarrow> bool io" where
  "touch E p = sys E (\<lambda>fs. if fs p = None then None else Some fs)"

definition fsync_file :: "cut_env \<Rightarrow> file_path \<Rightarrow> bool io" where
  "fsync_file E p = touch E p"

definition clear_readonly :: "cut_env \<Rightarrow> file_path \<Rightarrow> bool io" where
  "clear_readonly E p = touch E p"

definition fsync_live_dir :: "cut_env \<Rightarrow> unit io" where
  "fsync_live_dir E = do { sys E Some; State_Monad.return () }"

definition remove_sidecars :: "cut_env \<Rightarrow> file_path \<Rightarrow> unit io" where
  "remove_sidecars E p = do { remove_file E (SideWal p); remove_file E (SideShm p); State_Monad.return () }"

definition remove_db_files :: "cut_env \<Rightarrow> file_path \<Rightarrow> unit io" where
  "remove_db_files E p = do { remove_file E p; remove_sidecars E p }"

definition move_side :: "cut_env \<Rightarrow> file_path \<Rightarrow> file_path \<Rightarrow> unit io" where
  "move_side E a b = do {
     there \<leftarrow> probe E (\<lambda>fs. fs a \<noteq> None);
     if there = Some True then do { rename_file E a b; State_Monad.return () } else State_Monad.return () }"

definition move_db_aside :: "cut_env \<Rightarrow> file_path \<Rightarrow> file_path \<Rightarrow> unit io" where
  "move_db_aside E a b = do {
     rename_file E a b;
     move_side E (SideWal a) (SideWal b);
     move_side E (SideShm a) (SideShm b) }"

text \<open>A commit of another writer goes to the log of the live database.\<close>

definition commit_live :: "db_image option \<Rightarrow> unit io" where
  "commit_live w = State (\<lambda>d. (case w of
     None \<Rightarrow> ((), d)
   | Some img \<Rightarrow> ((), d\<lparr>dk_files := (dk_files d)(SideWal LiveDb \<mapsto> Image img), dk_past := dk_files d # dk_past d\<rparr>)))"

subsection \<open>The journal\<close>

definition write_journal :: "cut_env \<Rightarrow> cutover_journal \<Rightarrow> bool io" where
  "write_journal E j = do {
     ok \<leftarrow> write_file E JournalTmp (JournalDoc j);
     if \<not> ok then State_Monad.return False else do {
     ok \<leftarrow> fsync_file E JournalTmp;
     if \<not> ok then State_Monad.return False else do {
     ok \<leftarrow> rename_file E JournalTmp JournalFile;
     if \<not> ok then State_Monad.return False else do {
     fsync_live_dir E;
     State_Monad.return True }}}}"

definition read_journal :: "cut_env \<Rightarrow> cutover_journal option io" where
  "read_journal E = do {
     r \<leftarrow> probe E (\<lambda>fs. case fs JournalFile of Some (JournalDoc j) \<Rightarrow> Some j | _ \<Rightarrow> None);
     State_Monad.return (case r of Some (Some j) \<Rightarrow> Some j | _ \<Rightarrow> None) }"

definition remove_journal :: "cut_env \<Rightarrow> unit io" where
  "remove_journal E = do { remove_file E JournalFile; fsync_live_dir E }"

subsection \<open>Restoring\<close>

definition copy_into_live :: "cut_env \<Rightarrow> file_path \<Rightarrow> bool io" where
  "copy_into_live E src = do {
     remove_sidecars E LiveDb;
     remove_file E RecoverTmp;
     ok \<leftarrow> copy_file E src RecoverTmp;
     if \<not> ok then State_Monad.return False else do {
     ok \<leftarrow> clear_readonly E RecoverTmp;
     if \<not> ok then State_Monad.return False else do {
     ok \<leftarrow> fsync_file E RecoverTmp;
     if \<not> ok then State_Monad.return False else do {
     ok \<leftarrow> rename_file E RecoverTmp LiveDb;
     if \<not> ok then State_Monad.return False else do {
     fsync_live_dir E;
     State_Monad.return True }}}}}"

definition rename_into_live :: "cut_env \<Rightarrow> file_path \<Rightarrow> bool io" where
  "rename_into_live E src = do {
     remove_sidecars E LiveDb;
     ok \<leftarrow> rename_file E src LiveDb;
     if \<not> ok then State_Monad.return False else do {
     fsync_live_dir E;
     State_Monad.return True }}"

datatype presence = Present | Absent | Unknown

definition presence_of :: "cut_env \<Rightarrow> file_path \<Rightarrow> presence io" where
  "presence_of E p = do {
     r \<leftarrow> probe E (\<lambda>fs. fs p \<noteq> None);
     State_Monad.return (case r of None \<Rightarrow> Unknown | Some True \<Rightarrow> Present | Some False \<Rightarrow> Absent) }"

definition definitely_present :: "cut_env \<Rightarrow> file_path \<Rightarrow> bool io" where
  "definitely_present E p = do { r \<leftarrow> presence_of E p; State_Monad.return (r = Present) }"

subsection \<open>Row counts\<close>

definition user_table :: "string \<Rightarrow> bool" where
  "user_table n \<longleftrightarrow> \<not> prefix ''sqlite_'' (lower_str n) \<and> \<not> prefix ''_'' n \<and> \<not> prefix ''crsql_'' (lower_str n) \<and>
     \<not> sublist ''__crsql_'' (lower_str n)"

definition user_counts :: "db_image \<Rightarrow> (string \<times> int) list" where
  "user_counts d = sort (map (\<lambda>(n, rows). (n, int (length rows))) (filter (\<lambda>(n, rows). user_table n) (di_tables d)))"

definition all_user_table_row_counts :: "cut_env \<Rightarrow> file_path \<Rightarrow> (string \<times> int) list option io" where
  "all_user_table_row_counts E p = do {
     r \<leftarrow> probe E (\<lambda>fs. map_option user_counts (db_view fs p));
     State_Monad.return (case r of Some c \<Rightarrow> c | None \<Rightarrow> None) }"

definition synced_counts :: "db_image \<Rightarrow> (bytes \<times> int) list" where
  "synced_counts d = sort (map (\<lambda>t. (t, case find (\<lambda>(n, rows). str_bytes n = t) (di_tables d) of
     Some (n, rows) \<Rightarrow> int (length rows) | None \<Rightarrow> 0)) sync_tables)"

definition live_has_no_user_rows :: "cut_env \<Rightarrow> bool io" where
  "live_has_no_user_rows E = do {
     r \<leftarrow> probe E (\<lambda>fs. map_option synced_counts (db_view fs LiveDb));
     State_Monad.return (case r of Some (Some counts) \<Rightarrow> list_all (\<lambda>(t, n). n = 0) counts | _ \<Rightarrow> True) }"

definition sync_schema_version :: int where
  "sync_schema_version = 1"

definition image_prepared :: "db_image \<Rightarrow> bool option" where
  "image_prepared d =
     (if map_of (di_tables d) ''sessions__crsql_clock'' = None then Some False
      else case map_of (di_tables d) ''_yapstack_sync_prep'' of
        None \<Rightarrow> Some False
      | Some [] \<Rightarrow> Some (0 = sync_schema_version)
      | Some (r # _) \<Rightarrow> (case r ''schema_version'' of SqlInt v \<Rightarrow> Some (v = sync_schema_version) | _ \<Rightarrow> None))"

text \<open>\<open>None\<close> is a probe that could not answer.\<close>

definition live_is_crr_prepared :: "cut_env \<Rightarrow> bool option io" where
  "live_is_crr_prepared E = do {
     there \<leftarrow> presence_of E LiveDb;
     (case there of
       Unknown \<Rightarrow> State_Monad.return None
     | Absent \<Rightarrow> State_Monad.return (Some False)
     | Present \<Rightarrow> do {
         r \<leftarrow> probe E (\<lambda>fs. Option.bind (db_view fs LiveDb) image_prepared);
         State_Monad.return (case r of Some a \<Rightarrow> a | None \<Rightarrow> None) }) }"

subsection \<open>Recovery at the next start\<close>

definition staging_valid :: "cut_env \<Rightarrow> cutover_journal \<Rightarrow> bool io" where
  "staging_valid E j = do {
     there \<leftarrow> definitely_present E StagingDb;
     if \<not> there then State_Monad.return False else do {
     c \<leftarrow> all_user_table_row_counts E StagingDb;
     State_Monad.return (c = Some (cj_counts j)) }}"

definition restore_or_report :: "bool io \<Rightarrow> unit io" where
  "restore_or_report restore = do { restore; State_Monad.return () }"

definition recover_from_journal :: "cut_env \<Rightarrow> cutover_journal \<Rightarrow> bool \<Rightarrow> unit io" where
  "recover_from_journal E j live_present = do {
     valid \<leftarrow> staging_valid E j;
     if cj_phase j = SwapStarted \<and> live_present then State_Monad.return ()
     else if cj_phase j = SwapCompleted then
       (if live_present then State_Monad.return ()
        else do {
          b \<leftarrow> definitely_present E BackupDb;
          if b then restore_or_report (copy_into_live E BackupDb)
          else if valid then restore_or_report (rename_into_live E StagingDb)
          else State_Monad.return () })
     else if live_present then State_Monad.return ()
     else if valid then restore_or_report (rename_into_live E StagingDb)
     else do {
       b \<leftarrow> definitely_present E BackupDb;
       if b then restore_or_report (copy_into_live E BackupDb) else State_Monad.return () }}"

definition recover_interrupted_cutover :: "cut_env \<Rightarrow> unit io" where
  "recover_interrupted_cutover E = do {
     live \<leftarrow> presence_of E LiveDb;
     if live = Unknown then State_Monad.return ()
     else do {
       j \<leftarrow> read_journal E;
       (case j of
         Some journal \<Rightarrow> do {
           recover_from_journal E journal (live = Present);
           remove_journal E }
       | None \<Rightarrow>
           if live = Absent then do {
             b \<leftarrow> definitely_present E BackupDb;
             if b then restore_or_report (copy_into_live E BackupDb)
             else do {
               s \<leftarrow> definitely_present E StagingDb;
               if s then restore_or_report (rename_into_live E StagingDb) else State_Monad.return () }}
           else State_Monad.return ()) }}"

subsection \<open>The cutover\<close>

datatype cutover_fault = NoFault | AfterVacuum | AfterRename | BetweenRenames

datatype cutover_error = ProbeFailed | FreshlyCreated | CountsFailed | VacuumFailed | InjectedFault | PrepFailed string
  | QuiesceFailed | JournalFailed | BackupRenameFailed | StagingRenameFailed | ReopenFailed | CountMismatch | PostCountFailed

definition discard_legacy_sync_copy :: "cut_env \<Rightarrow> unit io" where
  "discard_legacy_sync_copy E = remove_db_files E LegacyDb"

definition recovery_artifacts_present :: "cut_env \<Rightarrow> bool io" where
  "recovery_artifacts_present E = do {
     j \<leftarrow> presence_of E JournalFile;
     if j \<noteq> Absent then State_Monad.return True else do {
     b \<leftarrow> presence_of E BackupDb;
     if b \<noteq> Absent then State_Monad.return True else do {
     s \<leftarrow> presence_of E StagingDb;
     State_Monad.return (s \<noteq> Absent) }}}"

text \<open>\<open>VACUUM INTO\<close> refuses a target that is there; opening the new file drops a log left beside it.\<close>

definition vacant :: "dir \<Rightarrow> file_path \<Rightarrow> bool" where
  "vacant fs p = (case fs p of None \<Rightarrow> True | Some Blank \<Rightarrow> True | _ \<Rightarrow> False)"

definition vacuum_into_staging :: "cut_env \<Rightarrow> bool io" where
  "vacuum_into_staging E = do {
     ok \<leftarrow> sys E (\<lambda>fs. if db_view fs LiveDb = None \<or> \<not> vacant fs StagingDb then None
       else Some (fs(StagingDb \<mapsto> Blank, SideWal StagingDb := None)));
     if ok then sys E (\<lambda>fs. map_option (\<lambda>d. fs(StagingDb \<mapsto> Image d)) (db_view fs LiveDb)) else State_Monad.return False }"

fun commit_staging :: "cut_env \<Rightarrow> db_image list \<Rightarrow> bool io" where
  "commit_staging E [] = State_Monad.return True"
| "commit_staging E (img # imgs) = do {
     ok \<leftarrow> sys E (\<lambda>fs. Some (fs(SideWal StagingDb \<mapsto> Image img)));
     if ok then commit_staging E imgs else State_Monad.return False }"

definition prepare_staging :: "cut_env \<Rightarrow> (string + unit) io" where
  "prepare_staging E = do {
     r \<leftarrow> probe E (\<lambda>fs. db_view fs StagingDb);
     (case r of
       Some (Some d) \<Rightarrow> do {
         ok \<leftarrow> commit_staging E (fst (ce_prepare E d));
         if \<not> ok then State_Monad.return (Inl ''io'') else
         (case snd (ce_prepare E d) of
           Inl e \<Rightarrow> State_Monad.return (Inl e)
         | Inr p \<Rightarrow> do {
             ok \<leftarrow> sys E (\<lambda>fs. Some (fs(StagingDb \<mapsto> Image p, SideWal StagingDb \<mapsto> Blank)));
             State_Monad.return (if ok then Inr () else Inl ''staging checkpoint incomplete'') }) }
     | _ \<Rightarrow> State_Monad.return (Inl ''open'')) }"

text \<open>The connection pool: the checkpoint folds the log into the live file; opening creates a database
  that is not there.\<close>

definition close_for_swap :: "cut_env \<Rightarrow> bool io" where
  "close_for_swap E = sys E (\<lambda>fs. map_option (\<lambda>d. fs(LiveDb \<mapsto> Image d, SideWal LiveDb \<mapsto> Blank)) (db_view fs LiveDb))"

definition reopen :: "cut_env \<Rightarrow> bool io" where
  "reopen E = sys E (\<lambda>fs. case fs LiveDb of
     Some (Image d) \<Rightarrow> Some fs
   | Some (JournalDoc j) \<Rightarrow> None
   | _ \<Rightarrow> Some (fs(LiveDb \<mapsto> Image (ce_schema E), SideWal LiveDb := None)))"

definition rollback_to_backup :: "cut_env \<Rightarrow> unit io" where
  "rollback_to_backup E = do {
     remove_db_files E FailedDb;
     moved_aside \<leftarrow> rename_file E LiveDb FailedDb;
     remove_sidecars E LiveDb;
     restored \<leftarrow> rename_file E BackupDb LiveDb;
     (if restored then remove_db_files E FailedDb
      else if moved_aside then do { rename_file E FailedDb LiveDb; State_Monad.return () }
      else State_Monad.return ());
     remove_journal E;
     fsync_live_dir E;
     reopen E;
     State_Monad.return () }"

definition verify_swap :: "cut_env \<Rightarrow> (string \<times> int) list \<Rightarrow> (cutover_error + unit) io" where
  "verify_swap E pre = do {
     post \<leftarrow> all_user_table_row_counts E LiveDb;
     (case post of
       None \<Rightarrow> do { rollback_to_backup E; State_Monad.return (Inl PostCountFailed) }
     | Some c \<Rightarrow>
         if c = pre then do {
           remove_journal E;
           discard_legacy_sync_copy E;
           State_Monad.return (Inr ()) }
         else do { rollback_to_backup E; State_Monad.return (Inl CountMismatch) }) }"

definition finish_swap :: "cut_env \<Rightarrow> cutover_fault \<Rightarrow> (string \<times> int) list \<Rightarrow> (cutover_error + unit) io" where
  "finish_swap E fault pre = do {
     opened \<leftarrow> reopen E;
     if \<not> opened then do { rollback_to_backup E; State_Monad.return (Inl ReopenFailed) }
     else do {
       commit_live (ce_after_reopen E);
       if fault = AfterRename then do { rollback_to_backup E; State_Monad.return (Inl InjectedFault) }
       else verify_swap E pre }}"

definition swap_renames :: "cut_env \<Rightarrow> cutover_fault \<Rightarrow> cutover_journal \<Rightarrow> (cutover_error + unit) io" where
  "swap_renames E fault j = do {
     moved \<leftarrow> rename_file E LiveDb BackupDb;
     if \<not> moved then do {
       remove_journal E; reopen E; remove_db_files E StagingDb;
       State_Monad.return (Inl BackupRenameFailed) }
     else do {
       fsync_live_dir E;
       write_journal E (j\<lparr>cj_phase := BackupMoved\<rparr>);
       if fault = BetweenRenames then State_Monad.return (Inl InjectedFault)
       else do {
         swapped \<leftarrow> rename_file E StagingDb LiveDb;
         if \<not> swapped then do {
           rename_file E BackupDb LiveDb;
           fsync_live_dir E; remove_journal E; reopen E; remove_db_files E StagingDb;
           State_Monad.return (Inl StagingRenameFailed) }
         else do {
           fsync_live_dir E;
           write_journal E (j\<lparr>cj_phase := SwapCompleted\<rparr>);
           finish_swap E fault (cj_counts j) }}}}"

definition live_size :: "cut_env \<Rightarrow> nat io" where
  "live_size E = do {
     r \<leftarrow> probe E (\<lambda>fs. case fs LiveDb of Some (Image d) \<Rightarrow> ce_size E d | _ \<Rightarrow> 0);
     State_Monad.return (case r of Some n \<Rightarrow> n | None \<Rightarrow> 0) }"

definition new_journal :: "(string \<times> int) list \<Rightarrow> nat \<Rightarrow> cutover_journal" where
  "new_journal pre n = \<lparr>cj_version = 1, cj_phase = SwapStarted, cj_live = file_name LiveDb, cj_backup = file_name BackupDb,
     cj_staging = file_name StagingDb, cj_counts = pre, cj_size = n\<rparr>"

definition keep_old_backup :: "cut_env \<Rightarrow> unit io" where
  "keep_old_backup E = do {
     there \<leftarrow> probe E (\<lambda>fs. fs BackupDb \<noteq> None);
     if there = Some True then move_db_aside E BackupDb (AsideDb (ce_suffix E)) else State_Monad.return () }"

definition swap_files :: "cut_env \<Rightarrow> cutover_fault \<Rightarrow> (string \<times> int) list \<Rightarrow> (cutover_error + unit) io" where
  "swap_files E fault pre = do {
     closed \<leftarrow> close_for_swap E;
     if \<not> closed then do {
       reopen E; remove_db_files E StagingDb;
       State_Monad.return (Inl QuiesceFailed) }
     else do {
       remove_sidecars E LiveDb;
       remove_sidecars E StagingDb;
       keep_old_backup E;
       n \<leftarrow> live_size E;
       ok \<leftarrow> write_journal E (new_journal pre n);
       if \<not> ok then do {
         reopen E; remove_db_files E StagingDb;
         State_Monad.return (Inl JournalFailed) }
       else swap_renames E fault (new_journal pre n) }}"

definition copy_and_swap :: "cut_env \<Rightarrow> cutover_fault \<Rightarrow> (cutover_error + unit) io" where
  "copy_and_swap E fault = do {
     remove_db_files E StagingDb;
     counts \<leftarrow> all_user_table_row_counts E LiveDb;
     (case counts of
       None \<Rightarrow> State_Monad.return (Inl CountsFailed)
     | Some pre \<Rightarrow> do {
         commit_live (ce_before_vacuum E);
         ok \<leftarrow> vacuum_into_staging E;
         if \<not> ok then State_Monad.return (Inl VacuumFailed)
         else if fault = AfterVacuum then do { remove_db_files E StagingDb; State_Monad.return (Inl InjectedFault) }
         else do {
           prep \<leftarrow> prepare_staging E;
           (case prep of
             Inl e \<Rightarrow> do { remove_db_files E StagingDb; State_Monad.return (Inl (PrepFailed e)) }
           | Inr _ \<Rightarrow> do {
               commit_live (ce_before_close E);
               swap_files E fault pre }) }}) }"

definition cutover_with_fault :: "cut_env \<Rightarrow> cutover_fault \<Rightarrow> (cutover_error + unit) io" where
  "cutover_with_fault E fault = do {
     prepared \<leftarrow> live_is_crr_prepared E;
     (case prepared of
       None \<Rightarrow> State_Monad.return (Inl ProbeFailed)
     | Some True \<Rightarrow> do { discard_legacy_sync_copy E; State_Monad.return (Inr ()) }
     | Some False \<Rightarrow> do {
         artifacts \<leftarrow> recovery_artifacts_present E;
         fresh \<leftarrow> (if artifacts then live_has_no_user_rows E else State_Monad.return False);
         if fresh then State_Monad.return (Inl FreshlyCreated) else copy_and_swap E fault }) }"

definition perform_cutover :: "cut_env \<Rightarrow> (cutover_error + unit) io" where
  "perform_cutover E = cutover_with_fault E NoFault"

subsection \<open>Reasoning about a run\<close>

text \<open>Assertions speak of whether a call has failed so far and of the directory. A triple says that from
  the precondition every directory on the way satisfies the invariant, and the result the postcondition.\<close>

type_synonym assertion = "bool \<Rightarrow> dir \<Rightarrow> bool"

definition failed_yet :: "cut_env \<Rightarrow> disk \<Rightarrow> bool" where
  "failed_yet E d \<longleftrightarrow> (\<exists>i<dk_calls d. ce_fail E i)"

definition fails_once :: "cut_env \<Rightarrow> bool" where
  "fails_once E \<longleftrightarrow> (\<forall>i j. ce_fail E i \<longrightarrow> ce_fail E j \<longrightarrow> i = j)"

definition fails_never :: "cut_env \<Rightarrow> bool" where
  "fails_never E \<longleftrightarrow> (\<forall>i. \<not> ce_fail E i)"

definition may_fail :: "cut_env \<Rightarrow> bool \<Rightarrow> bool" where
  "may_fail E b \<longleftrightarrow> \<not> fails_never E \<and> \<not> (fails_once E \<and> b)"

definition triple :: "cut_env \<Rightarrow> (dir \<Rightarrow> bool) \<Rightarrow> assertion \<Rightarrow> 'a io \<Rightarrow> ('a \<Rightarrow> assertion) \<Rightarrow> bool" where
  "triple E I P m Q \<longleftrightarrow> (\<forall>d. P (failed_yet E d) (dk_files d) \<longrightarrow> I (dk_files d) \<longrightarrow>
     (case run_state m d of (x, d') \<Rightarrow> Q x (failed_yet E d') (dk_files d') \<and> I (dk_files d') \<and>
       (\<exists>new. dk_past d' = new @ dk_past d \<and> list_all I new)))"

lemma triple_return [intro]: "(\<And>b fs. P b fs \<Longrightarrow> Q x b fs) \<Longrightarrow> triple E I P (State_Monad.return x) Q"
  by (simp add: triple_def)

lemma triple_bind:
  assumes "triple E I P m Q" and "\<And>x. triple E I (Q x) (f x) R"
  shows "triple E I P (State_Monad.bind m f) R"
  unfolding triple_def
proof (intro allI impI)
  fix d assume P: "P (failed_yet E d) (dk_files d)" "I (dk_files d)"
  obtain x d1 where m: "run_state m d = (x, d1)" by fastforce
  obtain new where q: "Q x (failed_yet E d1) (dk_files d1)" "I (dk_files d1)" "dk_past d1 = new @ dk_past d" "list_all I new"
    using assms(1) P m unfolding triple_def by fastforce
  obtain y d2 where f: "run_state (f x) d1 = (y, d2)" by fastforce
  obtain new2 where r: "R y (failed_yet E d2) (dk_files d2)" "I (dk_files d2)" "dk_past d2 = new2 @ dk_past d1" "list_all I new2"
    using assms(2) [of x] q(1,2) f unfolding triple_def by fastforce
  have "dk_past d2 = (new2 @ new) @ dk_past d" "list_all I (new2 @ new)" using q(3,4) r(3,4) by simp_all
  with r(1,2) m f show "case run_state (State_Monad.bind m f) d of (x, d') \<Rightarrow> R x (failed_yet E d') (dk_files d') \<and> I (dk_files d') \<and>
     (\<exists>new. dk_past d' = new @ dk_past d \<and> list_all I new)"
    by auto
qed

lemma triple_weaken:
  "triple E I P' m Q' \<Longrightarrow> (\<And>b fs. P b fs \<Longrightarrow> I fs \<Longrightarrow> P' b fs) \<Longrightarrow> (\<And>x b fs. Q' x b fs \<Longrightarrow> I fs \<Longrightarrow> Q x b fs) \<Longrightarrow> triple E I P m Q"
  unfolding triple_def by (fastforce split: prod.splits)

lemma triple_sys:
  assumes "\<And>b fs. P b fs \<Longrightarrow> I fs \<Longrightarrow> may_fail E b \<Longrightarrow> Q False True fs"
    and "\<And>b fs. P b fs \<Longrightarrow> I fs \<Longrightarrow> f fs = None \<Longrightarrow> Q False b fs"
    and "\<And>b fs fs'. P b fs \<Longrightarrow> I fs \<Longrightarrow> f fs = Some fs' \<Longrightarrow> Q True b fs' \<and> I fs'"
  shows "triple E I P (sys E f) Q"
  unfolding triple_def
proof (intro allI impI)
  fix d assume P: "P (failed_yet E d) (dk_files d)" "I (dk_files d)"
  have calls: "failed_yet E (d\<lparr>dk_calls := dk_calls d + 1\<rparr>) \<longleftrightarrow> failed_yet E d \<or> ce_fail E (dk_calls d)"
    by (auto simp: failed_yet_def less_Suc_eq)
  have files: "failed_yet E (d\<lparr>dk_calls := n, dk_files := fs, dk_past := p\<rparr>) = failed_yet E (d\<lparr>dk_calls := n\<rparr>)" for n fs p
    by (simp add: failed_yet_def)
  have "may_fail E (failed_yet E d)" if "ce_fail E (dk_calls d)"
    using that unfolding may_fail_def fails_never_def fails_once_def failed_yet_def by (metis nat_neq_iff)
  with P assms [OF P] show "case run_state (sys E f) d of (x, d') \<Rightarrow> Q x (failed_yet E d') (dk_files d') \<and> I (dk_files d') \<and>
     (\<exists>new. dk_past d' = new @ dk_past d \<and> list_all I new)"
    by (auto simp: sys_def Let_def calls [simplified] files split: option.splits)
qed

lemma triple_probe:
  assumes "\<And>b fs. P b fs \<Longrightarrow> I fs \<Longrightarrow> may_fail E b \<Longrightarrow> Q None True fs"
    and "\<And>b fs. P b fs \<Longrightarrow> I fs \<Longrightarrow> Q (Some (f fs)) b fs"
  shows "triple E I P (probe E f) Q"
  unfolding triple_def
proof (intro allI impI)
  fix d assume P: "P (failed_yet E d) (dk_files d)" "I (dk_files d)"
  have calls: "failed_yet E (d\<lparr>dk_calls := dk_calls d + 1\<rparr>) \<longleftrightarrow> failed_yet E d \<or> ce_fail E (dk_calls d)"
    by (auto simp: failed_yet_def less_Suc_eq)
  have "may_fail E (failed_yet E d)" if "ce_fail E (dk_calls d)"
    using that unfolding may_fail_def fails_never_def fails_once_def failed_yet_def by (metis nat_neq_iff)
  with P assms [OF P] show "case run_state (probe E f) d of (x, d') \<Rightarrow> Q x (failed_yet E d') (dk_files d') \<and> I (dk_files d') \<and>
     (\<exists>new. dk_past d' = new @ dk_past d \<and> list_all I new)"
    by (auto simp: probe_def calls [simplified])
qed

lemma triple_if: "(c \<Longrightarrow> triple E I P m Q) \<Longrightarrow> (\<not> c \<Longrightarrow> triple E I P m' Q) \<Longrightarrow> triple E I P (if c then m else m') Q"
  by simp

lemma triple_option:
  "(r = None \<Longrightarrow> triple E I P m Q) \<Longrightarrow> (\<And>c. r = Some c \<Longrightarrow> triple E I P (f c) Q) \<Longrightarrow>
   triple E I P (case r of None \<Rightarrow> m | Some c \<Rightarrow> f c) Q"
  by (cases r) simp_all

lemma triple_sum:
  "(\<And>e. r = Inl e \<Longrightarrow> triple E I P (g e) Q) \<Longrightarrow> (\<And>c. r = Inr c \<Longrightarrow> triple E I P (f c) Q) \<Longrightarrow>
   triple E I P (case r of Inl e \<Rightarrow> g e | Inr c \<Rightarrow> f c) Q"
  by (cases r) simp_all

lemma triple_pre: "(P0 \<Longrightarrow> triple E I P m Q) \<Longrightarrow> triple E I (\<lambda>b fs. P0 \<and> P b fs) m Q"
  by (auto simp: triple_def)

lemma triple_ex: "(\<And>p. A p \<Longrightarrow> triple E I (P p) m Q) \<Longrightarrow> triple E I (\<lambda>b fs. \<exists>p. A p \<and> P p b fs) m Q"
proof -
  assume m: "\<And>p. A p \<Longrightarrow> triple E I (P p) m Q"
  show ?thesis unfolding triple_def
  proof (intro allI impI)
    fix d assume "\<exists>p. A p \<and> P p (failed_yet E d) (dk_files d)" and i: "I (dk_files d)"
    then obtain p where "A p" "P p (failed_yet E d) (dk_files d)" by blast
    from m [OF this(1), unfolded triple_def, THEN spec, THEN mp, THEN mp, OF this(2) i] show "case run_state m d of (x, d') \<Rightarrow> Q x (failed_yet E d') (dk_files d') \<and> I (dk_files d') \<and>
       (\<exists>new. dk_past d' = new @ dk_past d \<and> list_all I new)" .
  qed
qed

lemma triple_False [simp]: "triple E I (\<lambda>b fs. False) m Q"
  by (simp add: triple_def)

text \<open>A call whose result is ignored keeps an assertion that does not look at what it writes.\<close>

definition covers :: "(dir \<Rightarrow> bool) \<Rightarrow> assertion \<Rightarrow> bool" where
  "covers I P \<longleftrightarrow> (\<forall>b fs. P b fs \<longrightarrow> P True fs \<and> I fs)"

definition drops :: "assertion \<Rightarrow> file_path \<Rightarrow> bool" where
  "drops P p \<longleftrightarrow> (\<forall>b fs. P b fs \<longrightarrow> P b (fs(p := None)))"

definition ignores :: "assertion \<Rightarrow> file_path \<Rightarrow> bool" where
  "ignores P p \<longleftrightarrow> (\<forall>b fs v. P b fs \<longrightarrow> P b (fs(p := v)))"

lemma ignores_drops: "ignores P p \<Longrightarrow> drops P p"
  by (simp add: ignores_def drops_def)

lemma sys_keeps:
  assumes "covers I P" and "\<And>b fs fs'. P b fs \<Longrightarrow> f fs = Some fs' \<Longrightarrow> P b fs'"
  shows "triple E I P (sys E f) (\<lambda>_. P)"
proof (rule triple_sys)
  show "P b fs' \<and> I fs'" if "P b fs" "f fs = Some fs'" for b fs fs'
    using assms(2) [OF that] assms(1) unfolding covers_def by blast
qed (use assms(1) in \<open>unfold covers_def, blast+\<close>)

lemma probe_keeps: "covers I P \<Longrightarrow> triple E I P (probe E f) (\<lambda>_. P)"
  by (intro triple_probe) (auto simp: covers_def)

lemma return_keeps: "triple E I P (State_Monad.return x) (\<lambda>_. P)"
  by (rule triple_return)

lemma remove_file_keeps: "covers I P \<Longrightarrow> drops P p \<Longrightarrow> triple E I P (remove_file E p) (\<lambda>_. P)"
  unfolding remove_file_def by (intro sys_keeps) (auto simp: drops_def split: if_splits)

lemma fsync_live_dir_keeps: "covers I P \<Longrightarrow> triple E I P (fsync_live_dir E) (\<lambda>_. P)"
  unfolding fsync_live_dir_def by (intro triple_bind [OF sys_keeps] return_keeps) auto

lemma remove_sidecars_keeps:
  "covers I P \<Longrightarrow> drops P (SideWal p) \<Longrightarrow> drops P (SideShm p) \<Longrightarrow> triple E I P (remove_sidecars E p) (\<lambda>_. P)"
  unfolding remove_sidecars_def by (intro triple_bind [OF remove_file_keeps] return_keeps)

lemma remove_db_files_keeps:
  "covers I P \<Longrightarrow> drops P p \<Longrightarrow> drops P (SideWal p) \<Longrightarrow> drops P (SideShm p) \<Longrightarrow> triple E I P (remove_db_files E p) (\<lambda>_. P)"
  unfolding remove_db_files_def by (intro triple_bind [OF remove_file_keeps] remove_sidecars_keeps)

lemma rename_file_keeps: "covers I P \<Longrightarrow> ignores P a \<Longrightarrow> ignores P b \<Longrightarrow> triple E I P (rename_file E a b) (\<lambda>_. P)"
  unfolding rename_file_def by (intro sys_keeps) (auto simp: ignores_def split: if_splits)

lemma write_file_keeps: "covers I P \<Longrightarrow> ignores P p \<Longrightarrow> triple E I P (write_file E p c) (\<lambda>_. P)"
  unfolding write_file_def truncate_file_def
  by (intro triple_bind [OF sys_keeps] triple_if return_keeps sys_keeps) (auto simp: ignores_def)

lemma touch_keeps: "covers I P \<Longrightarrow> triple E I P (touch E p) (\<lambda>_. P)"
  unfolding touch_def by (intro sys_keeps) (auto split: if_splits)

lemma write_journal_keeps:
  "covers I P \<Longrightarrow> ignores P JournalTmp \<Longrightarrow> ignores P JournalFile \<Longrightarrow> triple E I P (write_journal E j) (\<lambda>_. P)"
  unfolding write_journal_def fsync_file_def
  by (intro triple_bind [OF write_file_keeps] triple_bind [OF touch_keeps] triple_bind [OF rename_file_keeps]
      triple_bind [OF fsync_live_dir_keeps] triple_if return_keeps)

lemma remove_journal_keeps: "covers I P \<Longrightarrow> drops P JournalFile \<Longrightarrow> triple E I P (remove_journal E) (\<lambda>_. P)"
  unfolding remove_journal_def by (intro triple_bind [OF remove_file_keeps] fsync_live_dir_keeps)

lemma move_side_keeps: "covers I P \<Longrightarrow> ignores P a \<Longrightarrow> ignores P b \<Longrightarrow> triple E I P (move_side E a b) (\<lambda>_. P)"
  unfolding move_side_def
  by (intro triple_bind [OF probe_keeps] triple_if triple_bind [OF rename_file_keeps] return_keeps)

lemma keep_old_backup_keeps:
  assumes "covers I P" and "\<And>p. p \<notin> {LiveDb, SideWal LiveDb, StagingDb, SideWal StagingDb} \<Longrightarrow> ignores P p"
  shows "triple E I P (keep_old_backup E) (\<lambda>_. P)"
  unfolding keep_old_backup_def move_db_aside_def using assms
  by (intro triple_bind [OF probe_keeps] triple_if return_keeps triple_bind [OF rename_file_keeps] triple_bind [OF move_side_keeps]
      move_side_keeps) auto

lemmas keeps_rules = sys_keeps probe_keeps remove_file_keeps fsync_live_dir_keeps remove_sidecars_keeps remove_db_files_keeps
  rename_file_keeps write_file_keeps write_journal_keeps remove_journal_keeps keep_old_backup_keeps

subsection \<open>The stages of a cutover\<close>

definition clean :: "dir \<Rightarrow> file_path \<Rightarrow> bool" where
  "clean fs p \<longleftrightarrow> fs (SideWal p) \<in> {None, Some Blank}"

text \<open>The images the other writers commit: what the copy is taken of, and what the pool is closed on.\<close>

definition vacuumed :: "cut_env \<Rightarrow> db_image \<Rightarrow> db_image" where
  "vacuumed E x = (case ce_before_vacuum E of None \<Rightarrow> x | Some w \<Rightarrow> w)"

definition last_image :: "cut_env \<Rightarrow> db_image \<Rightarrow> db_image" where
  "last_image E x = (case ce_before_close E of None \<Rightarrow> vacuumed E x | Some w \<Rightarrow> w)"

definition converted :: "cut_env \<Rightarrow> db_image \<Rightarrow> db_image \<Rightarrow> bool" where
  "converted E x p \<longleftrightarrow> snd (ce_prepare E (vacuumed E x)) = Inr p"

definition committed :: "cut_env \<Rightarrow> db_image \<Rightarrow> db_image set" where
  "committed E x = {x, vacuumed E x, last_image E x}"

definition live_view :: "db_image \<Rightarrow> assertion" where
  "live_view x b fs \<longleftrightarrow> (\<exists>d. fs LiveDb = Some (Image d)) \<and> db_view fs LiveDb = Some x"

definition staged :: "db_image \<Rightarrow> dir \<Rightarrow> bool" where
  "staged p fs \<longleftrightarrow> fs StagingDb = Some (Image p) \<and> clean fs StagingDb"

definition live_is :: "db_image \<Rightarrow> dir \<Rightarrow> bool" where
  "live_is x fs \<longleftrightarrow> fs LiveDb = Some (Image x) \<and> clean fs LiveDb"

definition moved :: "db_image \<Rightarrow> db_image \<Rightarrow> assertion" where
  "moved l p b fs \<longleftrightarrow> fs LiveDb = None \<and> clean fs LiveDb \<and> fs BackupDb = Some (Image l) \<and> staged p fs"

definition swapped :: "db_image \<Rightarrow> db_image \<Rightarrow> assertion" where
  "swapped l p b fs \<longleftrightarrow> live_is p fs \<and> fs BackupDb = Some (Image l) \<and> fs StagingDb = None"

text \<open>What every directory on the way satisfies: the library is in the live file or in the backup; and
  where at most one call fails, recovery has what it needs.\<close>

definition lives :: "db_image set \<Rightarrow> dir \<Rightarrow> bool" where
  "lives S fs \<longleftrightarrow> (\<exists>y\<in>S. db_view fs LiveDb = Some y)"

definition backed :: "db_image \<Rightarrow> dir \<Rightarrow> bool" where
  "backed l fs \<longleftrightarrow> fs BackupDb = Some (Image l)"

text \<open>The images that may be in the live file in the end.\<close>

definition good_images :: "cut_env \<Rightarrow> db_image \<Rightarrow> db_image set" where
  "good_images E x = committed E x \<union> {p. converted E x p}"

definition stranded :: "cut_env \<Rightarrow> db_image \<Rightarrow> dir \<Rightarrow> bool" where
  "stranded E x fs \<longleftrightarrow> fs LiveDb = None \<and> clean fs LiveDb \<and> backed (last_image E x) fs \<and>
     (fs StagingDb = None \<or> (\<exists>p. converted E x p \<and> staged p fs))"

definition recoverable :: "cut_env \<Rightarrow> db_image \<Rightarrow> dir \<Rightarrow> bool" where
  "recoverable E x fs \<longleftrightarrow> lives (good_images E x) fs \<or> stranded E x fs"

definition library_kept :: "cut_env \<Rightarrow> db_image \<Rightarrow> dir \<Rightarrow> bool" where
  "library_kept E x fs \<longleftrightarrow> lives (committed E x) fs \<or> backed (last_image E x) fs"

definition cut_inv :: "cut_env \<Rightarrow> db_image \<Rightarrow> dir \<Rightarrow> bool" where
  "cut_inv E x fs \<longleftrightarrow> library_kept E x fs \<and> (fails_once E \<longrightarrow> recoverable E x fs)"

lemma live_is_view: "live_is x fs \<Longrightarrow> live_view x b fs"
  by (auto simp: live_is_def live_view_def clean_def db_view_def split: option.splits)

lemma live_view_irrel: "live_view x b fs \<longleftrightarrow> live_view x False fs"
  by (simp add: live_view_def)

lemma view_lives: "live_view y b fs \<Longrightarrow> y \<in> S \<Longrightarrow> lives S fs"
  by (auto simp: live_view_def lives_def)

lemma live_is_lives: "live_is y fs \<Longrightarrow> y \<in> S \<Longrightarrow> lives S fs"
  using live_is_view [of y fs False] by (rule view_lives)

lemma view_inv: "live_view y b fs \<Longrightarrow> y \<in> committed E x \<Longrightarrow> cut_inv E x fs"
  using view_lives [of y b fs "committed E x"] view_lives [of y b fs "good_images E x"]
  by (simp add: cut_inv_def library_kept_def recoverable_def good_images_def)

lemma covers_view: "y \<in> committed E x \<Longrightarrow> covers (cut_inv E x) (live_view y)"
  unfolding covers_def using view_inv live_view_irrel by blast

lemma last_committed [simp]: "last_image E x \<in> committed E x" "vacuumed E x \<in> committed E x" "x \<in> committed E x"
  by (simp_all add: committed_def)

lemma live_is_inv: "live_is (last_image E x) fs \<Longrightarrow> cut_inv E x fs"
  using view_inv [OF live_is_view] by simp

lemma moved_inv: "moved (last_image E x) p b fs \<Longrightarrow> converted E x p \<Longrightarrow> cut_inv E x fs"
  by (auto simp: cut_inv_def library_kept_def recoverable_def stranded_def backed_def moved_def)

lemma swapped_inv: "swapped (last_image E x) p b fs \<Longrightarrow> converted E x p \<Longrightarrow> cut_inv E x fs"
  using live_is_lives [of p fs "good_images E x"]
  by (simp add: cut_inv_def library_kept_def recoverable_def backed_def good_images_def swapped_def)

lemma live_view_upd: "p \<notin> {LiveDb, SideWal LiveDb} \<Longrightarrow> live_view x b (fs(p := v)) = live_view x b fs"
  by (auto simp: live_view_def db_view_def)

lemma live_is_upd: "p \<notin> {LiveDb, SideWal LiveDb} \<Longrightarrow> live_is x (fs(p := v)) = live_is x fs"
  by (auto simp: live_is_def clean_def)

lemma staged_upd: "p \<notin> {StagingDb, SideWal StagingDb} \<Longrightarrow> staged x (fs(p := v)) = staged x fs"
  by (auto simp: staged_def clean_def)

lemma drop_wal: "live_is x fs \<Longrightarrow> live_is x (fs(SideWal LiveDb := None))" "staged x fs \<Longrightarrow> staged x (fs(SideWal StagingDb := None))"
  by (auto simp: live_is_def staged_def clean_def)

subsection \<open>The rollback\<close>

definition restored :: "cut_env \<Rightarrow> db_image \<Rightarrow> db_image \<Rightarrow> assertion" where
  "restored E l p b fs \<longleftrightarrow> live_is l fs \<or>
     fs BackupDb = Some (Image l) \<and> \<not> fails_never E \<and> (fails_once E \<longrightarrow> live_is p fs)"

lemma restored_inv: "restored E (last_image E x) p b fs \<Longrightarrow> converted E x p \<Longrightarrow> cut_inv E x fs"
  unfolding restored_def
proof (elim disjE conjE)
  assume p: "fs BackupDb = Some (Image (last_image E x))" "fails_once E \<longrightarrow> live_is p fs" "converted E x p"
  then have "fails_once E \<Longrightarrow> lives (good_images E x) fs" using live_is_lives by (auto simp: good_images_def)
  with p show "cut_inv E x fs" unfolding cut_inv_def library_kept_def recoverable_def backed_def by blast
qed (rule live_is_inv)

lemma covers_restored: "converted E x p \<Longrightarrow> covers (cut_inv E x) (restored E (last_image E x) p)"
  unfolding covers_def using restored_inv by (auto simp: restored_def)

lemma covers_swapped: "converted E x p \<Longrightarrow> covers (cut_inv E x) (swapped (last_image E x) p)"
  unfolding covers_def using swapped_inv by (auto simp: swapped_def)

lemma covers_moved: "converted E x p \<Longrightarrow> covers (cut_inv E x) (moved (last_image E x) p)"
  unfolding covers_def using moved_inv by (auto simp: moved_def)

lemma reopen_restored:
  assumes "converted E x p"
  shows "triple E (cut_inv E x) (restored E (last_image E x) p) (reopen E) (\<lambda>_. restored E (last_image E x) p)"
  unfolding reopen_def
proof (rule sys_keeps [OF covers_restored [OF assms]])
  fix b fs fs' assume r: "restored E (last_image E x) p b fs" and f: "(case fs LiveDb of Some (Image d) \<Rightarrow> Some fs
     | Some (JournalDoc j) \<Rightarrow> None | _ \<Rightarrow> Some (fs(LiveDb \<mapsto> Image (ce_schema E), SideWal LiveDb := None))) = Some fs'"
  show "restored E (last_image E x) p b fs'"
  proof (cases "live_is (last_image E x) fs \<or> live_is p fs")
    case True
    then have "fs' = fs" using f by (auto simp: live_is_def)
    with r show ?thesis by simp
  next
    case False
    then have "fs BackupDb = Some (Image (last_image E x))" "\<not> fails_never E" "\<not> fails_once E" using r by (auto simp: restored_def)
    moreover have "fs' BackupDb = fs BackupDb" using f by (auto split: option.splits disk_file.splits)
    ultimately show ?thesis by (simp add: restored_def)
  qed
qed

definition rolling :: "cut_env \<Rightarrow> db_image \<Rightarrow> db_image \<Rightarrow> bool \<Rightarrow> assertion" where
  "rolling E l p away b fs \<longleftrightarrow> fs BackupDb = Some (Image l) \<and> fs StagingDb = None \<and>
     (if away then fs LiveDb = None \<and> clean fs LiveDb \<and> fs FailedDb = Some (Image p)
      else live_is p fs \<and> b \<and> \<not> fails_never E)"

lemma covers_rolling:
  assumes "converted E x p" shows "covers (cut_inv E x) (rolling E (last_image E x) p away)"
  unfolding covers_def
proof (intro allI impI conjI)
  fix b fs assume r: "rolling E (last_image E x) p away b fs"
  then show "rolling E (last_image E x) p away True fs" by (auto simp: rolling_def)
  show "cut_inv E x fs"
  proof (cases away)
    case True
    with r show ?thesis unfolding rolling_def cut_inv_def library_kept_def recoverable_def stranded_def backed_def by simp
  next
    case False
    with r have "swapped (last_image E x) p b fs" by (simp add: rolling_def swapped_def)
    from swapped_inv [OF this assms] show ?thesis .
  qed
qed

lemma rollback_restores:
  assumes conv: "converted E x p"
  shows "triple E (cut_inv E x) (swapped (last_image E x) p) (rollback_to_backup E) (\<lambda>_. restored E (last_image E x) p)"
proof -
  let ?l = "last_image E x" and ?I = "cut_inv E x"
  let ?R = "restored E ?l p" and ?A = "rolling E ?l p"
  let ?B = "\<lambda>away back b fs. if back then live_is ?l fs else (b \<and> \<not> fails_never E \<and> ?A away b fs \<and> (fails_once E \<longrightarrow> away))"
  note cs = covers_swapped [OF conv] and cr = covers_rolling [OF conv] and cd = covers_restored [OF conv]
  have clear: "triple E ?I (swapped ?l p) (remove_db_files E FailedDb) (\<lambda>_. swapped ?l p)"
    by (intro remove_db_files_keeps cs) (auto simp: drops_def swapped_def live_is_upd)
  have away: "triple E ?I (swapped ?l p) (rename_file E LiveDb FailedDb) ?A"
    unfolding rename_file_def
  proof (rule triple_sys)
    fix b fs fs' assume s: "swapped ?l p b fs"
    show "?A False True fs" if "may_fail E b"
      using s that by (simp add: rolling_def swapped_def may_fail_def)
    show "?A False b fs" if "(if fs LiveDb = None then None else Some (fs(FailedDb := fs LiveDb, LiveDb := None))) = None"
      using s that by (simp add: swapped_def live_is_def)
    assume "(if fs LiveDb = None then None else Some (fs(FailedDb := fs LiveDb, LiveDb := None))) = Some fs'"
    then have "?A True b fs'"
      using s by (auto simp: rolling_def swapped_def live_is_def clean_def split: if_splits)
    then show "?A True b fs' \<and> ?I fs'" using cr unfolding covers_def by blast
  qed
  have sides: "triple E ?I (?A m) (remove_sidecars E LiveDb) (\<lambda>_. ?A m)" for m
    by (intro remove_sidecars_keeps cr) (auto simp: drops_def rolling_def live_is_def clean_def)
  have bring: "triple E ?I (?A m) (rename_file E BackupDb LiveDb) (?B m)" for m
    unfolding rename_file_def
  proof (rule triple_sys)
    fix b fs fs' assume s: "?A m b fs"
    show "?B m False True fs" if "may_fail E b" using s that by (auto simp: rolling_def may_fail_def)
    show "?B m False b fs" if "(if fs BackupDb = None then None else Some (fs(LiveDb := fs BackupDb, BackupDb := None))) = None"
      using s that by (simp add: rolling_def)
    assume "(if fs BackupDb = None then None else Some (fs(LiveDb := fs BackupDb, BackupDb := None))) = Some fs'"
    then have "live_is ?l fs'" using s by (auto simp: rolling_def live_is_def clean_def split: if_splits)
    then show "?B m True b fs' \<and> ?I fs'" using live_is_inv by simp
  qed
  have settle: "triple E ?I (?B m r) (if r then remove_db_files E FailedDb
      else if m then do { rename_file E FailedDb LiveDb; State_Monad.return () } else State_Monad.return ()) (\<lambda>_. ?R)" for m r
  proof (intro triple_if)
    assume r: r
    have "triple E ?I (\<lambda>_. live_is ?l) (remove_db_files E FailedDb) (\<lambda>_ _. live_is ?l)"
      by (intro remove_db_files_keeps) (auto simp: covers_def live_is_inv drops_def live_is_upd)
    then show "triple E ?I (?B m r) (remove_db_files E FailedDb) (\<lambda>_. ?R)"
      by (rule triple_weaken) (use r in \<open>auto simp: restored_def\<close>)
  next
    assume r: "\<not> r" and m
    have "triple E ?I (?B m r) (rename_file E FailedDb LiveDb) (\<lambda>_. ?R)"
      unfolding rename_file_def
    proof (rule triple_sys)
      fix b fs fs' assume s: "?B m r b fs"
      then have s': "b" "\<not> fails_never E" "?A True b fs" using r \<open>m\<close> by auto
      show "?R True fs" if "may_fail E b" using s' that by (auto simp: may_fail_def restored_def rolling_def)
      show "?R b fs" if "(if fs FailedDb = None then None else Some (fs(LiveDb := fs FailedDb, FailedDb := None))) = None"
        using s' that by (simp add: rolling_def)
      assume "(if fs FailedDb = None then None else Some (fs(LiveDb := fs FailedDb, FailedDb := None))) = Some fs'"
      then have "?R b fs'" using s' by (auto simp: rolling_def restored_def live_is_def clean_def split: if_splits)
      then show "?R b fs' \<and> ?I fs'" using cd unfolding covers_def by blast
    qed
    then show "triple E ?I (?B m r) (do { rename_file E FailedDb LiveDb; State_Monad.return () }) (\<lambda>_. ?R)"
      by (rule triple_bind) (rule return_keeps)
  next
    assume "\<not> r" "\<not> m"
    then show "triple E ?I (?B m r) (State_Monad.return ()) (\<lambda>_. ?R)"
      by (intro triple_return) (auto simp: restored_def rolling_def)
  qed
  have journal: "triple E ?I ?R (remove_journal E) (\<lambda>_. ?R)"
    by (intro remove_journal_keeps cd) (auto simp: drops_def restored_def live_is_upd)
  show ?thesis unfolding rollback_to_backup_def
    by (intro triple_bind [OF clear] triple_bind [OF away] triple_bind [OF sides] triple_bind [OF bring] triple_bind [OF settle]
        triple_bind [OF journal] triple_bind [OF fsync_live_dir_keeps [OF cd]] triple_bind [OF reopen_restored [OF conv]] return_keeps)
qed

subsection \<open>The swap\<close>

definition cut_done :: "cut_env \<Rightarrow> db_image \<Rightarrow> cutover_fault \<Rightarrow> cutover_error + unit \<Rightarrow> assertion" where
  "cut_done E x fault res b fs \<longleftrightarrow> (case res of
     Inl e \<Rightarrow> fails_never E \<and> fault \<noteq> BetweenRenames \<longrightarrow> (\<exists>y\<in>committed E x. live_view y b fs)
   | Inr _ \<Rightarrow> live_view x b fs \<and> image_prepared x = Some True \<or>
       (\<exists>p. converted E x p \<and> user_counts p = user_counts x \<and> live_is p fs \<and> fs BackupDb = Some (Image (last_image E x))))"

lemma restored_done: "restored E (last_image E x) p b fs \<Longrightarrow> cut_done E x fault (Inl e) b fs"
  using live_is_view last_committed(1) by (fastforce simp: cut_done_def restored_def)

lemma verify_swap_done:
  assumes conv: "converted E x p"
  shows "triple E (cut_inv E x) (swapped (last_image E x) p) (verify_swap E (user_counts x)) (cut_done E x fault)"
proof -
  let ?l = "last_image E x" and ?I = "cut_inv E x"
  note cs = covers_swapped [OF conv]
  let ?C = "\<lambda>r b fs. swapped ?l p b fs \<and> (\<forall>c. r = Some c \<longrightarrow> c = user_counts p)"
  have count: "triple E ?I (swapped ?l p) (all_user_table_row_counts E LiveDb) ?C"
    unfolding all_user_table_row_counts_def
  proof (rule triple_bind)
    show "triple E ?I (swapped ?l p) (probe E (\<lambda>fs. map_option user_counts (db_view fs LiveDb)))
        (\<lambda>r b fs. swapped ?l p b fs \<and> (\<forall>c. r = Some c \<longrightarrow> c = Some (user_counts p)))"
      using live_is_view by (intro triple_probe) (fastforce simp: swapped_def live_view_def)+
  qed (auto intro!: triple_return split: option.splits)
  have roll: "triple E ?I (?C r) (do { rollback_to_backup E; State_Monad.return (Inl e) }) (cut_done E x fault)" for r e
  proof -
    have "triple E ?I (swapped ?l p) (do { rollback_to_backup E; State_Monad.return (Inl e) }) (cut_done E x fault)"
      by (intro triple_bind [OF rollback_restores [OF conv]] triple_return restored_done)
    then show ?thesis by (rule triple_weaken) simp_all
  qed
  have ok: "triple E ?I (?C r) (do { remove_journal E; discard_legacy_sync_copy E; State_Monad.return (Inr ()) }) (cut_done E x fault)"
    if "r = Some (user_counts x)" for r
  proof (rule triple_weaken)
    have "cut_done E x fault (Inr ()) b fs" if "user_counts p = user_counts x" "swapped ?l p b fs" for b fs
      using that conv by (auto simp: cut_done_def swapped_def)
    then show "triple E ?I (\<lambda>b fs. user_counts p = user_counts x \<and> swapped ?l p b fs)
        (do { remove_journal E; discard_legacy_sync_copy E; State_Monad.return (Inr ()) }) (cut_done E x fault)"
      unfolding discard_legacy_sync_copy_def
      by (intro triple_pre triple_bind [OF remove_journal_keeps [OF cs]] triple_bind [OF remove_db_files_keeps [OF cs]] triple_return)
        (auto simp: drops_def swapped_def live_is_upd)
  qed (use that in auto)
  have "triple E ?I (?C r) (case r of
       None \<Rightarrow> do { rollback_to_backup E; State_Monad.return (Inl PostCountFailed) }
     | Some c \<Rightarrow> if c = user_counts x then do { remove_journal E; discard_legacy_sync_copy E; State_Monad.return (Inr ()) }
         else do { rollback_to_backup E; State_Monad.return (Inl CountMismatch) }) (cut_done E x fault)" for r
    by (intro triple_option triple_if roll ok) simp
  then show ?thesis unfolding verify_swap_def by (intro triple_bind [OF count])
qed

lemma finish_swap_done:
  assumes conv: "converted E x p" and quiet: "ce_after_reopen E = None"
  shows "triple E (cut_inv E x) (swapped (last_image E x) p) (finish_swap E fault (user_counts x)) (cut_done E x fault)"
proof -
  let ?l = "last_image E x" and ?I = "cut_inv E x"
  note cs = covers_swapped [OF conv]
  have opened: "triple E ?I (swapped ?l p) (reopen E) (\<lambda>_. swapped ?l p)"
    unfolding reopen_def by (intro sys_keeps cs) (auto simp: swapped_def live_is_def)
  have roll: "triple E ?I (swapped ?l p) (do { rollback_to_backup E; State_Monad.return (Inl e) }) (cut_done E x fault)" for e
    by (intro triple_bind [OF rollback_restores [OF conv]] triple_return restored_done)
  have none: "triple E ?I (swapped ?l p) (commit_live (ce_after_reopen E)) (\<lambda>_. swapped ?l p)"
    by (simp add: triple_def commit_live_def quiet)
  show ?thesis unfolding finish_swap_def
    by (intro triple_bind [OF opened] triple_if roll triple_bind [OF none] verify_swap_done conv)
qed

lemma insens: "swapped l p b (fs(q := v)) = swapped l p b fs" "moved l p b (fs(q := v)) = moved l p b fs"
  if "q \<in> {JournalFile, JournalTmp, FailedDb, RecoverTmp, LegacyDb, SideShm LiveDb, SideShm StagingDb}"
  using that by (auto simp: swapped_def moved_def live_is_def staged_def clean_def)

definition closed_pool :: "db_image \<Rightarrow> db_image \<Rightarrow> assertion" where
  "closed_pool l p b fs \<longleftrightarrow> live_is l fs \<and> staged p fs"

lemma covers_live_is: "covers (cut_inv E x) (\<lambda>b. live_is (last_image E x))"
  by (auto simp: covers_def live_is_inv)

lemma abandon_done:
  "triple E (cut_inv E x) (\<lambda>b fs. live_is (last_image E x) fs) (do { reopen E; remove_db_files E StagingDb; State_Monad.return (Inl e) }) (cut_done E x fault)"
proof -
  let ?L = "\<lambda>b::bool. live_is (last_image E x)"
  have opened: "triple E (cut_inv E x) ?L (reopen E) (\<lambda>_. ?L)"
    unfolding reopen_def by (intro sys_keeps covers_live_is) (auto simp: live_is_def)
  have "cut_done E x fault (Inl e) b fs" if "?L b fs" for b fs
    unfolding cut_done_def using live_is_view [OF that, of b] last_committed(1) [of E x] by auto
  then show ?thesis
    by (intro triple_bind [OF opened] triple_bind [OF remove_db_files_keeps [OF covers_live_is]] triple_return)
      (auto simp: drops_def live_is_upd)
qed

lemma swap_renames_done:
  assumes conv: "converted E x p" and quiet: "ce_after_reopen E = None" and j: "cj_counts j = user_counts x"
  shows "triple E (cut_inv E x) (closed_pool (last_image E x) p) (swap_renames E fault j) (cut_done E x fault)"
proof -
  let ?l = "last_image E x" and ?I = "cut_inv E x"
  note cs = covers_swapped [OF conv] and cm = covers_moved [OF conv]
  let ?M = "\<lambda>r b fs. if r then moved ?l p b fs else live_is ?l fs"
  have first: "triple E ?I (closed_pool ?l p) (rename_file E LiveDb BackupDb) ?M"
    unfolding rename_file_def
  proof (rule triple_sys)
    fix b fs fs' assume s: "closed_pool ?l p b fs"
    then show "?M False True fs" "?M False b fs" by (simp_all add: closed_pool_def)
    assume "(if fs LiveDb = None then None else Some (fs(BackupDb := fs LiveDb, LiveDb := None))) = Some fs'"
    then have "moved ?l p b fs'" using s by (auto simp: closed_pool_def moved_def live_is_def staged_def clean_def split: if_splits)
    then show "?M True b fs' \<and> ?I fs'" using moved_inv conv by simp
  qed
  have undo: "triple E ?I (\<lambda>b. live_is ?l) (do { remove_journal E; reopen E; remove_db_files E StagingDb; State_Monad.return (Inl e) })
      (cut_done E x fault)" for e
    by (intro triple_bind [OF remove_journal_keeps [OF covers_live_is]] abandon_done) (auto simp: drops_def live_is_upd)
  have step: "triple E ?I (moved ?l p) (fsync_live_dir E) (\<lambda>_. moved ?l p)"
    "triple E ?I (moved ?l p) (write_journal E k) (\<lambda>_. moved ?l p)" for k
    by (intro fsync_live_dir_keeps write_journal_keeps cm; simp add: ignores_def insens)+
  have stop: "triple E ?I (moved ?l p) (State_Monad.return (Inl InjectedFault)) (cut_done E x fault)" if "fault = BetweenRenames"
    using that by (intro triple_return) (simp add: cut_done_def)
  let ?S = "\<lambda>r b fs. if r then swapped ?l p b fs else moved ?l p b fs \<and> b \<and> \<not> fails_never E"
  have second: "triple E ?I (moved ?l p) (rename_file E StagingDb LiveDb) ?S"
    unfolding rename_file_def
  proof (rule triple_sys)
    fix b fs fs' assume s: "moved ?l p b fs"
    show "?S False True fs" if "may_fail E b" using s that by (simp add: moved_def may_fail_def)
    show "?S False b fs" if "(if fs StagingDb = None then None else Some (fs(LiveDb := fs StagingDb, StagingDb := None))) = None"
      using s that by (simp add: moved_def staged_def)
    assume "(if fs StagingDb = None then None else Some (fs(LiveDb := fs StagingDb, StagingDb := None))) = Some fs'"
    then have "swapped ?l p b fs'" using s by (auto simp: moved_def swapped_def live_is_def staged_def clean_def split: if_splits)
    then show "?S True b fs' \<and> ?I fs'" using swapped_inv conv by simp
  qed
  note cd = covers_restored [OF conv]
  have bring: "triple E ?I (?S False) (rename_file E BackupDb LiveDb) (\<lambda>_. restored E ?l p)"
    unfolding rename_file_def
  proof (rule triple_sys)
    fix b fs fs' assume s: "?S False b fs"
    show "restored E ?l p True fs" if "may_fail E b" using s that by (simp add: may_fail_def restored_def moved_def)
    show "restored E ?l p b fs" if "(if fs BackupDb = None then None else Some (fs(LiveDb := fs BackupDb, BackupDb := None))) = None"
      using s that by (simp add: moved_def)
    assume "(if fs BackupDb = None then None else Some (fs(LiveDb := fs BackupDb, BackupDb := None))) = Some fs'"
    then have "live_is ?l fs'" using s by (auto simp: moved_def live_is_def clean_def split: if_splits)
    then show "restored E ?l p b fs' \<and> ?I fs'" using live_is_inv by (simp add: restored_def)
  qed
  have back_out: "triple E ?I (?S False) (do {
      rename_file E BackupDb LiveDb; fsync_live_dir E; remove_journal E; reopen E; remove_db_files E StagingDb;
      State_Monad.return (Inl StagingRenameFailed) }) (cut_done E x fault)"
    by (intro triple_bind [OF bring] triple_bind [OF fsync_live_dir_keeps [OF cd]] triple_bind [OF remove_journal_keeps [OF cd]]
        triple_bind [OF reopen_restored [OF conv]] triple_bind [OF remove_db_files_keeps [OF cd]] triple_return restored_done)
      (auto simp: drops_def restored_def live_is_upd)
  have forth: "triple E ?I (swapped ?l p) (do { fsync_live_dir E; write_journal E (j\<lparr>cj_phase := SwapCompleted\<rparr>);
      finish_swap E fault (cj_counts j) }) (cut_done E x fault)"
    unfolding j by (intro triple_bind [OF fsync_live_dir_keeps [OF cs]] triple_bind [OF write_journal_keeps [OF cs]]
        finish_swap_done conv quiet) (auto simp: ignores_def insens)
  have after: "triple E ?I (?M r) (if \<not> r then do { remove_journal E; reopen E; remove_db_files E StagingDb; State_Monad.return (Inl BackupRenameFailed) }
     else do {
       fsync_live_dir E;
       write_journal E (j\<lparr>cj_phase := BackupMoved\<rparr>);
       if fault = BetweenRenames then State_Monad.return (Inl InjectedFault)
       else do {
         swapped \<leftarrow> rename_file E StagingDb LiveDb;
         if \<not> swapped then do {
           rename_file E BackupDb LiveDb;
           fsync_live_dir E; remove_journal E; reopen E; remove_db_files E StagingDb;
           State_Monad.return (Inl StagingRenameFailed) }
         else do {
           fsync_live_dir E;
           write_journal E (j\<lparr>cj_phase := SwapCompleted\<rparr>);
           finish_swap E fault (cj_counts j) }}}) (cut_done E x fault)" for r
  proof (cases r)
    case True
    have rest: "triple E ?I (?S s) (if \<not> s then do {
           rename_file E BackupDb LiveDb;
           fsync_live_dir E; remove_journal E; reopen E; remove_db_files E StagingDb;
           State_Monad.return (Inl StagingRenameFailed) }
         else do {
           fsync_live_dir E;
           write_journal E (j\<lparr>cj_phase := SwapCompleted\<rparr>);
           finish_swap E fault (cj_counts j) }) (cut_done E x fault)" for s
      using back_out forth by (cases s) simp_all
    show ?thesis unfolding eqTrueI [OF True] if_True not_True_eq_False if_False
      by (intro triple_bind [OF step(1)] triple_bind [OF step(2)] triple_if stop triple_bind [OF second] rest)
  qed (use undo in simp)
  show ?thesis unfolding swap_renames_def by (intro triple_bind [OF first] after)
qed

subsection \<open>Before the swap\<close>

lemma live_view_keeps:
  assumes "y \<in> committed E x"
  shows "triple E (cut_inv E x) (live_view y) (remove_db_files E StagingDb) (\<lambda>_. live_view y)"
    and "triple E (cut_inv E x) (live_view y) (reopen E) (\<lambda>_. live_view y)"
    and "triple E (cut_inv E x) (live_view y) (State_Monad.return (Inl e)) (cut_done E x fault)"
    and "triple E (cut_inv E x) (live_view y) (probe E g) (\<lambda>_. live_view y)"
proof -
  note cv = covers_view [OF assms]
  show "triple E (cut_inv E x) (live_view y) (remove_db_files E StagingDb) (\<lambda>_. live_view y)"
    by (intro remove_db_files_keeps cv) (simp_all add: drops_def live_view_upd)
  show "triple E (cut_inv E x) (live_view y) (reopen E) (\<lambda>_. live_view y)"
    unfolding reopen_def by (intro sys_keeps cv) (auto simp: live_view_def)
  show "triple E (cut_inv E x) (live_view y) (State_Monad.return (Inl e)) (cut_done E x fault)"
    using assms by (intro triple_return) (auto simp: cut_done_def)
  show "triple E (cut_inv E x) (live_view y) (probe E g) (\<lambda>_. live_view y)" by (intro probe_keeps cv)
qed

lemma drop_staging_done:
  "y \<in> committed E x \<Longrightarrow> triple E (cut_inv E x) (live_view y)
     (do { remove_db_files E StagingDb; State_Monad.return (Inl e) }) (cut_done E x fault)"
  by (intro triple_bind [OF live_view_keeps(1)] live_view_keeps(3))

lemma abandon_view_done:
  "y \<in> committed E x \<Longrightarrow> triple E (cut_inv E x) (live_view y)
     (do { reopen E; remove_db_files E StagingDb; State_Monad.return (Inl e) }) (cut_done E x fault)"
  by (intro triple_bind [OF live_view_keeps(2)] drop_staging_done)

lemma swap_files_done:
  assumes conv: "converted E x p" and quiet: "ce_after_reopen E = None"
  shows "triple E (cut_inv E x) (\<lambda>b fs. live_view (last_image E x) b fs \<and> staged p fs)
    (swap_files E fault (user_counts x)) (cut_done E x fault)"
proof -
  let ?l = "last_image E x" and ?I = "cut_inv E x"
  let ?C = "\<lambda>r b fs. if r then closed_pool ?l p b fs else live_view ?l b fs"
  have closing: "triple E ?I (\<lambda>b fs. live_view ?l b fs \<and> staged p fs) (close_for_swap E) ?C"
    unfolding close_for_swap_def
  proof (rule triple_sys)
    fix b fs fs' assume s: "live_view ?l b fs \<and> staged p fs"
    then show "?C False True fs" "?C False b fs" by (simp_all add: live_view_def)
    assume "map_option (\<lambda>d. fs(LiveDb \<mapsto> Image d, SideWal LiveDb \<mapsto> Blank)) (db_view fs LiveDb) = Some fs'"
    then have fs': "fs' = fs(LiveDb \<mapsto> Image ?l, SideWal LiveDb \<mapsto> Blank)" using s by (auto simp: live_view_def)
    have "live_is ?l fs'" by (simp add: fs' live_is_def clean_def)
    moreover have "staged p fs'" using s by (simp add: fs' staged_def clean_def)
    ultimately show "?C True b fs' \<and> ?I fs'" using live_is_inv by (simp add: closed_pool_def)
  qed
  have cc: "covers ?I (closed_pool ?l p)" by (auto simp: covers_def closed_pool_def live_is_inv)
  have steps: "triple E ?I (closed_pool ?l p) (remove_sidecars E LiveDb) (\<lambda>_. closed_pool ?l p)"
    "triple E ?I (closed_pool ?l p) (remove_sidecars E StagingDb) (\<lambda>_. closed_pool ?l p)"
    by (intro remove_sidecars_keeps cc; force simp: drops_def closed_pool_def live_is_def staged_def clean_def)+
  have old: "triple E ?I (closed_pool ?l p) (keep_old_backup E) (\<lambda>_. closed_pool ?l p)"
    by (intro keep_old_backup_keeps cc) (simp add: ignores_def closed_pool_def live_is_upd staged_upd)
  have size: "triple E ?I (closed_pool ?l p) (live_size E) (\<lambda>_. closed_pool ?l p)"
    unfolding live_size_def by (intro triple_bind [OF probe_keeps [OF cc]] return_keeps)
  have journal: "triple E ?I (closed_pool ?l p) (write_journal E j) (\<lambda>_. closed_pool ?l p)" for j
    by (intro write_journal_keeps cc) (simp_all add: ignores_def closed_pool_def live_is_upd staged_upd)
  have early: "triple E ?I (closed_pool ?l p) (do { reopen E; remove_db_files E StagingDb; State_Monad.return (Inl e) }) (cut_done E x fault)" for e
    by (rule triple_weaken [OF abandon_done]) (auto simp: closed_pool_def)
  have counts: "cj_counts (new_journal (user_counts x) n) = user_counts x" for n by (simp add: new_journal_def)
  have rest: "triple E ?I (?C r) (if \<not> r then do { reopen E; remove_db_files E StagingDb; State_Monad.return (Inl QuiesceFailed) }
     else do {
       remove_sidecars E LiveDb;
       remove_sidecars E StagingDb;
       keep_old_backup E;
       n \<leftarrow> live_size E;
       ok \<leftarrow> write_journal E (new_journal (user_counts x) n);
       if \<not> ok then do { reopen E; remove_db_files E StagingDb; State_Monad.return (Inl JournalFailed) }
       else swap_renames E fault (new_journal (user_counts x) n) }) (cut_done E x fault)" for r
  proof (cases r)
    case True
    show ?thesis unfolding eqTrueI [OF True] if_True not_True_eq_False if_False
      by (intro triple_bind [OF steps(1)] triple_bind [OF steps(2)] triple_bind [OF old] triple_bind [OF size] triple_bind [OF journal]
          triple_if early swap_renames_done conv quiet counts)
  qed (use abandon_view_done [OF last_committed(1)] in simp)
  show ?thesis unfolding swap_files_def by (intro triple_bind [OF closing] rest)
qed

lemma commit_live_done:
  assumes "(case w of None \<Rightarrow> y | Some v \<Rightarrow> v) \<in> committed E x"
    and "\<And>fs q v. Q (fs(SideWal LiveDb := v)) = Q fs"
  shows "triple E (cut_inv E x) (\<lambda>b fs. live_view y b fs \<and> Q fs) (commit_live w)
    (\<lambda>_ b fs. live_view (case w of None \<Rightarrow> y | Some v \<Rightarrow> v) b fs \<and> Q fs)"
  unfolding triple_def
proof (intro allI impI)
  fix d assume p: "live_view y (failed_yet E d) (dk_files d) \<and> Q (dk_files d)" and i: "cut_inv E x (dk_files d)"
  show "case run_state (commit_live w) d of (u, d') \<Rightarrow> (live_view (case w of None \<Rightarrow> y | Some v \<Rightarrow> v) (failed_yet E d') (dk_files d') \<and> Q (dk_files d')) \<and>
     cut_inv E x (dk_files d') \<and> (\<exists>new. dk_past d' = new @ dk_past d \<and> list_all (cut_inv E x) new)"
  proof (cases w)
    case None
    with p i show ?thesis by (simp add: commit_live_def)
  next
    case (Some v)
    have "live_view v b ((dk_files d)(SideWal LiveDb \<mapsto> Image v))" for b using p by (auto simp: live_view_def db_view_def)
    with p i assms(2) view_inv [OF this] assms(1) Some show ?thesis by (simp add: commit_live_def)
  qed
qed

lemma vacuum_done:
  assumes "v \<in> committed E x"
  shows "triple E (cut_inv E x) (live_view v) (vacuum_into_staging E) (\<lambda>r b fs. live_view v b fs \<and> (r \<longrightarrow> staged v fs))"
proof -
  let ?I = "cut_inv E x"
  note inv = view_inv [OF _ assms]
  let ?B = "\<lambda>r b fs. live_view v b fs \<and> (r \<longrightarrow> clean fs StagingDb)"
  have claim: "triple E ?I (live_view v) (sys E (\<lambda>fs. if db_view fs LiveDb = None \<or> \<not> vacant fs StagingDb then None
       else Some (fs(StagingDb \<mapsto> Blank, SideWal StagingDb := None)))) ?B"
  proof (rule triple_sys)
    fix b fs fs' assume s: "live_view v b fs"
    then show "?B False True fs" "?B False b fs" by (simp_all add: live_view_def)
    assume "(if db_view fs LiveDb = None \<or> \<not> vacant fs StagingDb then None
       else Some (fs(StagingDb \<mapsto> Blank, SideWal StagingDb := None))) = Some fs'"
    then have "fs' = fs(StagingDb \<mapsto> Blank, SideWal StagingDb := None)" by (simp split: if_splits)
    then have "live_view v b fs'" "clean fs' StagingDb" using s by (simp_all add: live_view_upd clean_def)
    then show "?B True b fs' \<and> ?I fs'" using inv by simp
  qed
  have "triple E ?I (?B True) (sys E (\<lambda>fs. map_option (\<lambda>d. fs(StagingDb \<mapsto> Image d)) (db_view fs LiveDb)))
      (\<lambda>r b fs. live_view v b fs \<and> (r \<longrightarrow> staged v fs))"
  proof (rule triple_sys)
    fix b fs fs' assume s: "?B True b fs"
    then show "live_view v True fs \<and> (False \<longrightarrow> staged v fs)" "live_view v b fs \<and> (False \<longrightarrow> staged v fs)" by (simp_all add: live_view_def)
    assume "map_option (\<lambda>d. fs(StagingDb \<mapsto> Image d)) (db_view fs LiveDb) = Some fs'"
    then have "fs' = fs(StagingDb \<mapsto> Image v)" using s by (auto simp: live_view_def)
    then have "live_view v b fs'" "staged v fs'" using s by (simp_all add: live_view_upd staged_def clean_def)
    then show "(live_view v b fs' \<and> (True \<longrightarrow> staged v fs')) \<and> ?I fs'" using inv by simp
  qed
  moreover have "triple E ?I (?B False) (State_Monad.return False) (\<lambda>r b fs. live_view v b fs \<and> (r \<longrightarrow> staged v fs))"
    by (intro triple_return) simp
  ultimately have "triple E ?I (?B r) (if r then sys E (\<lambda>fs. map_option (\<lambda>d. fs(StagingDb \<mapsto> Image d)) (db_view fs LiveDb))
      else State_Monad.return False) (\<lambda>r b fs. live_view v b fs \<and> (r \<longrightarrow> staged v fs))" for r
    by (cases r) simp_all
  then show ?thesis unfolding vacuum_into_staging_def by (intro triple_bind [OF claim])
qed

lemma commit_staging_done:
  assumes "v \<in> committed E x"
  shows "triple E (cut_inv E x) (live_view v) (commit_staging E imgs) (\<lambda>_. live_view v)"
proof (induction imgs)
  case (Cons img imgs)
  show ?case unfolding commit_staging.simps
    by (intro triple_bind [OF sys_keeps [OF covers_view [OF assms]]] triple_if return_keeps Cons.IH) (auto simp: live_view_upd)
qed (simp add: return_keeps)

lemma prepare_done:
  assumes v: "v = vacuumed E x"
  shows "triple E (cut_inv E x) (\<lambda>b fs. live_view v b fs \<and> staged v fs) (prepare_staging E)
    (\<lambda>r b fs. live_view v b fs \<and> (\<forall>u. r = Inr u \<longrightarrow> (\<exists>p. converted E x p \<and> staged p fs)))"
proof -
  let ?I = "cut_inv E x"
  have com: "v \<in> committed E x" by (simp add: v)
  note inv = view_inv [OF _ com]
  let ?Q = "\<lambda>r b fs. live_view v b fs \<and> (\<forall>u. r = Inr u \<longrightarrow> (\<exists>p. converted E x p \<and> staged p fs))"
  have stop: "triple E ?I (live_view v) (State_Monad.return (Inl e)) ?Q" for e by (intro triple_return) simp
  have read: "triple E ?I (\<lambda>b fs. live_view v b fs \<and> staged v fs) (probe E (\<lambda>fs. db_view fs StagingDb))
      (\<lambda>r b fs. (\<forall>d. r = Some (Some d) \<longrightarrow> d = v) \<and> live_view v b fs)"
    by (rule triple_probe) (auto simp: live_view_def staged_def clean_def db_view_def split: option.splits disk_file.splits)
  have fold_log: "triple E ?I (live_view v) (do { ok \<leftarrow> sys E (\<lambda>fs. Some (fs(StagingDb \<mapsto> Image p, SideWal StagingDb \<mapsto> Blank)));
      State_Monad.return (if ok then Inr () else Inl e) }) ?Q" if "converted E x p" for p e
  proof (rule triple_bind)
    show "triple E ?I (live_view v) (sys E (\<lambda>fs. Some (fs(StagingDb \<mapsto> Image p, SideWal StagingDb \<mapsto> Blank))))
        (\<lambda>r b fs. live_view v b fs \<and> (r \<longrightarrow> staged p fs))"
    proof (rule triple_sys)
      fix b fs fs' assume s: "live_view v b fs"
      then show "live_view v True fs \<and> (False \<longrightarrow> staged p fs)" "live_view v b fs \<and> (False \<longrightarrow> staged p fs)" by (simp_all add: live_view_def)
      assume "Some (fs(StagingDb \<mapsto> Image p, SideWal StagingDb \<mapsto> Blank)) = Some fs'"
      then have "live_view v b fs'" "staged p fs'" using s by (auto simp: live_view_upd staged_def clean_def)
      then show "(live_view v b fs' \<and> (True \<longrightarrow> staged p fs')) \<and> ?I fs'" using inv by simp
    qed
  qed (use that in \<open>auto intro!: triple_return\<close>)
  have "triple E ?I (\<lambda>b fs. (\<forall>d. r = Some (Some d) \<longrightarrow> d = v) \<and> live_view v b fs) (case r of
       Some (Some d) \<Rightarrow> do {
         ok \<leftarrow> commit_staging E (fst (ce_prepare E d));
         if \<not> ok then State_Monad.return (Inl ''io'') else
         (case snd (ce_prepare E d) of
           Inl e \<Rightarrow> State_Monad.return (Inl e)
         | Inr p \<Rightarrow> do {
             ok \<leftarrow> sys E (\<lambda>fs. Some (fs(StagingDb \<mapsto> Image p, SideWal StagingDb \<mapsto> Blank)));
             State_Monad.return (if ok then Inr () else Inl ''staging checkpoint incomplete'') }) }
     | _ \<Rightarrow> State_Monad.return (Inl ''open'')) ?Q" for r
  proof (intro triple_pre triple_option stop)
    fix a d assume "\<forall>d. r = Some (Some d) \<longrightarrow> d = v" "r = Some a" "a = Some d"
    then have d: "d = v" by simp
    show "triple E ?I (live_view v) (do {
         ok \<leftarrow> commit_staging E (fst (ce_prepare E d));
         if \<not> ok then State_Monad.return (Inl ''io'') else
         (case snd (ce_prepare E d) of
           Inl e \<Rightarrow> State_Monad.return (Inl e)
         | Inr p \<Rightarrow> do {
             ok \<leftarrow> sys E (\<lambda>fs. Some (fs(StagingDb \<mapsto> Image p, SideWal StagingDb \<mapsto> Blank)));
             State_Monad.return (if ok then Inr () else Inl ''staging checkpoint incomplete'') }) }) ?Q"
      unfolding d
      by (intro triple_bind [OF commit_staging_done [OF com]] triple_if triple_sum stop fold_log) (simp add: converted_def v)
  qed
  then show ?thesis unfolding prepare_staging_def by (intro triple_bind [OF read])
qed

lemma copy_and_swap_done:
  assumes quiet: "ce_after_reopen E = None"
  shows "triple E (cut_inv E x) (live_view x) (copy_and_swap E fault) (cut_done E x fault)"
proof -
  let ?I = "cut_inv E x" and ?v = "vacuumed E x" and ?l = "last_image E x"
  let ?C = "\<lambda>r b fs. (\<forall>c. r = Some c \<longrightarrow> c = user_counts x) \<and> live_view x b fs"
  have count: "triple E ?I (live_view x) (all_user_table_row_counts E LiveDb) ?C"
    unfolding all_user_table_row_counts_def
  proof (rule triple_bind)
    show "triple E ?I (live_view x) (probe E (\<lambda>fs. map_option user_counts (db_view fs LiveDb)))
        (\<lambda>r b fs. (\<forall>c. r = Some c \<longrightarrow> c = Some (user_counts x)) \<and> live_view x b fs)"
      by (intro triple_probe) (auto simp: live_view_def)
  qed (auto intro!: triple_return split: option.splits)
  have first: "triple E ?I (live_view x) (commit_live (ce_before_vacuum E)) (\<lambda>_. live_view ?v)"
    using commit_live_done [where w = "ce_before_vacuum E" and y = x and E = E and x = x and Q = "\<lambda>_. True"] by (simp add: vacuumed_def [symmetric])
  let ?V = "\<lambda>r b fs. live_view ?v b fs \<and> (r \<longrightarrow> staged ?v fs)"
  let ?P = "\<lambda>r b fs. live_view ?v b fs \<and> (\<forall>u. r = Inr u \<longrightarrow> (\<exists>p. converted E x p \<and> staged p fs))"
  have swap: "triple E ?I (\<lambda>b fs. live_view ?v b fs \<and> (\<exists>p. converted E x p \<and> staged p fs))
      (do { commit_live (ce_before_close E); swap_files E fault (user_counts x) }) (cut_done E x fault)"
  proof -
    have "(case ce_before_close E of None \<Rightarrow> ?v | Some w \<Rightarrow> w) = ?l" by (simp add: last_image_def)
    then have commit: "triple E ?I (\<lambda>b fs. live_view ?v b fs \<and> staged p fs) (commit_live (ce_before_close E))
        (\<lambda>_ b fs. live_view ?l b fs \<and> staged p fs)" for p
      using commit_live_done [where w = "ce_before_close E" and y = ?v and E = E and x = x and Q = "staged p"] last_committed(1) [of E x] by (simp add: staged_upd)
    have "triple E ?I (\<lambda>b fs. live_view ?v b fs \<and> staged p fs)
        (do { commit_live (ce_before_close E); swap_files E fault (user_counts x) }) (cut_done E x fault)" if "converted E x p" for p
      by (intro triple_bind [OF commit] swap_files_done that quiet)
    then have "triple E ?I (\<lambda>b fs. \<exists>p. converted E x p \<and> live_view ?v b fs \<and> staged p fs)
        (do { commit_live (ce_before_close E); swap_files E fault (user_counts x) }) (cut_done E x fault)"
      by (rule triple_ex)
    then show ?thesis by (rule triple_weaken) blast+
  qed
  have prepared: "triple E ?I (?P r) (case r of
       Inl e \<Rightarrow> do { remove_db_files E StagingDb; State_Monad.return (Inl (PrepFailed e)) }
     | Inr _ \<Rightarrow> do { commit_live (ce_before_close E); swap_files E fault (user_counts x) }) (cut_done E x fault)" for r
  proof (rule triple_sum)
    show "triple E ?I (?P r) (do { remove_db_files E StagingDb; State_Monad.return (Inl (PrepFailed e)) }) (cut_done E x fault)" for e
      by (rule triple_weaken [OF drop_staging_done [of ?v]]) simp_all
    show "triple E ?I (?P r) (do { commit_live (ce_before_close E); swap_files E fault (user_counts x) }) (cut_done E x fault)"
      if "r = Inr u" for u
      by (rule triple_weaken [OF swap]) (use that in auto)
  qed
  have copied: "triple E ?I (?V r) (if \<not> r then State_Monad.return (Inl VacuumFailed)
         else if fault = AfterVacuum then do { remove_db_files E StagingDb; State_Monad.return (Inl InjectedFault) }
         else do {
           prep \<leftarrow> prepare_staging E;
           (case prep of
             Inl e \<Rightarrow> do { remove_db_files E StagingDb; State_Monad.return (Inl (PrepFailed e)) }
           | Inr _ \<Rightarrow> do { commit_live (ce_before_close E); swap_files E fault (user_counts x) }) }) (cut_done E x fault)" for r
  proof (intro triple_if)
    show "triple E ?I (?V r) (State_Monad.return (Inl VacuumFailed)) (cut_done E x fault)"
      by (rule triple_weaken [OF live_view_keeps(3) [of ?v]]) simp_all
    show "triple E ?I (?V r) (do { remove_db_files E StagingDb; State_Monad.return (Inl InjectedFault) }) (cut_done E x fault)"
      by (rule triple_weaken [OF drop_staging_done [of ?v]]) simp_all
    show "triple E ?I (?V r) (do { prep \<leftarrow> prepare_staging E;
           (case prep of
             Inl e \<Rightarrow> do { remove_db_files E StagingDb; State_Monad.return (Inl (PrepFailed e)) }
           | Inr _ \<Rightarrow> do { commit_live (ce_before_close E); swap_files E fault (user_counts x) }) }) (cut_done E x fault)" if "\<not> \<not> r"
    proof (rule triple_weaken)
      show "triple E ?I (\<lambda>b fs. live_view ?v b fs \<and> staged ?v fs) (do { prep \<leftarrow> prepare_staging E;
           (case prep of
             Inl e \<Rightarrow> do { remove_db_files E StagingDb; State_Monad.return (Inl (PrepFailed e)) }
           | Inr _ \<Rightarrow> do { commit_live (ce_before_close E); swap_files E fault (user_counts x) }) }) (cut_done E x fault)"
        by (rule triple_bind [OF prepare_done [OF refl]]) (rule prepared)
    qed (use that in auto)
  qed
  have "triple E ?I (?C r) (case r of
       None \<Rightarrow> State_Monad.return (Inl CountsFailed)
     | Some pre \<Rightarrow> do {
         commit_live (ce_before_vacuum E);
         ok \<leftarrow> vacuum_into_staging E;
         if \<not> ok then State_Monad.return (Inl VacuumFailed)
         else if fault = AfterVacuum then do { remove_db_files E StagingDb; State_Monad.return (Inl InjectedFault) }
         else do {
           prep \<leftarrow> prepare_staging E;
           (case prep of
             Inl e \<Rightarrow> do { remove_db_files E StagingDb; State_Monad.return (Inl (PrepFailed e)) }
           | Inr _ \<Rightarrow> do { commit_live (ce_before_close E); swap_files E fault pre }) }}) (cut_done E x fault)" for r
  proof (intro triple_pre triple_option)
    fix pre assume "\<forall>c. r = Some c \<longrightarrow> c = user_counts x" "r = Some pre"
    then have pre: "pre = user_counts x" by simp
    show "triple E ?I (live_view x) (do {
         commit_live (ce_before_vacuum E);
         ok \<leftarrow> vacuum_into_staging E;
         if \<not> ok then State_Monad.return (Inl VacuumFailed)
         else if fault = AfterVacuum then do { remove_db_files E StagingDb; State_Monad.return (Inl InjectedFault) }
         else do {
           prep \<leftarrow> prepare_staging E;
           (case prep of
             Inl e \<Rightarrow> do { remove_db_files E StagingDb; State_Monad.return (Inl (PrepFailed e)) }
           | Inr _ \<Rightarrow> do { commit_live (ce_before_close E); swap_files E fault pre }) }}) (cut_done E x fault)"
      unfolding pre by (intro triple_bind [OF first] triple_bind [OF vacuum_done] copied) simp
  qed (intro live_view_keeps(3), simp)
  then show ?thesis unfolding copy_and_swap_def
    by (intro triple_bind [OF live_view_keeps(1)] triple_bind [OF count]) simp_all
qed

lemma presence_keeps: "y \<in> committed E x \<Longrightarrow> triple E (cut_inv E x) (live_view y) (presence_of E p) (\<lambda>_. live_view y)"
  unfolding presence_of_def by (intro triple_bind [OF live_view_keeps(4)] return_keeps)

lemma cutover_done:
  assumes quiet: "ce_after_reopen E = None"
  shows "triple E (cut_inv E x) (live_view x) (cutover_with_fault E fault) (cut_done E x fault)"
proof -
  let ?I = "cut_inv E x"
  note com = last_committed(3) [of x E]
  note cv = covers_view [OF com]
  let ?C = "\<lambda>r b fs. (\<forall>a. r = Some a \<longrightarrow> image_prepared x = Some a) \<and> live_view x b fs"
  have gate: "triple E ?I (live_view x) (live_is_crr_prepared E) ?C"
  proof -
    have there: "triple E ?I (live_view x) (presence_of E LiveDb) (\<lambda>r b fs. r \<noteq> Absent \<and> live_view x b fs)"
      unfolding presence_of_def
    proof (rule triple_bind)
      show "triple E ?I (live_view x) (probe E (\<lambda>fs. fs LiveDb \<noteq> None)) (\<lambda>r b fs. r \<noteq> Some False \<and> live_view x b fs)"
        by (intro triple_probe) (auto simp: live_view_def)
    qed (auto intro!: triple_return split: option.splits)
    have look: "triple E ?I (live_view x) (probe E (\<lambda>fs. Option.bind (db_view fs LiveDb) image_prepared))
        (\<lambda>r b fs. (\<forall>a. r = Some a \<longrightarrow> a = image_prepared x) \<and> live_view x b fs)"
      by (intro triple_probe) (auto simp: live_view_def)
    have "triple E ?I (\<lambda>b fs. r \<noteq> Absent \<and> live_view x b fs) (case r of
       Unknown \<Rightarrow> State_Monad.return None
     | Absent \<Rightarrow> State_Monad.return (Some False)
     | Present \<Rightarrow> do {
         r \<leftarrow> probe E (\<lambda>fs. Option.bind (db_view fs LiveDb) image_prepared);
         State_Monad.return (case r of Some a \<Rightarrow> a | None \<Rightarrow> None) }) ?C" for r
    proof (cases r)
      case Present
      have "triple E ?I (live_view x) (do {
         r \<leftarrow> probe E (\<lambda>fs. Option.bind (db_view fs LiveDb) image_prepared);
         State_Monad.return (case r of Some a \<Rightarrow> a | None \<Rightarrow> None) }) ?C"
        by (intro triple_bind [OF look] triple_return) (auto split: option.splits)
      with Present show ?thesis by simp
    qed (auto intro!: triple_return)
    then show ?thesis unfolding live_is_crr_prepared_def by (intro triple_bind [OF there])
  qed
  have prepared: "triple E ?I (\<lambda>b fs. image_prepared x = Some True \<and> live_view x b fs)
      (do { discard_legacy_sync_copy E; State_Monad.return (Inr ()) }) (cut_done E x fault)"
    unfolding discard_legacy_sync_copy_def
    by (intro triple_pre triple_bind [OF remove_db_files_keeps [OF cv]] triple_return) (auto simp: drops_def live_view_upd cut_done_def)
  have artifacts: "triple E ?I (live_view x) (recovery_artifacts_present E) (\<lambda>_. live_view x)"
    unfolding recovery_artifacts_present_def
    by (intro triple_bind [OF presence_keeps [OF com]] triple_if return_keeps)
  have fresh: "triple E ?I (live_view x) (if a then live_has_no_user_rows E else State_Monad.return False) (\<lambda>_. live_view x)" for a
    unfolding live_has_no_user_rows_def by (intro triple_if triple_bind [OF live_view_keeps(4) [OF com]] return_keeps)
  have "triple E ?I (?C r) (case r of
       None \<Rightarrow> State_Monad.return (Inl ProbeFailed)
     | Some True \<Rightarrow> do { discard_legacy_sync_copy E; State_Monad.return (Inr ()) }
     | Some False \<Rightarrow> do {
         artifacts \<leftarrow> recovery_artifacts_present E;
         fresh \<leftarrow> (if artifacts then live_has_no_user_rows E else State_Monad.return False);
         if fresh then State_Monad.return (Inl FreshlyCreated) else copy_and_swap E fault }) (cut_done E x fault)" for r
  proof (intro triple_option)
    show "triple E ?I (?C r) (State_Monad.return (Inl ProbeFailed)) (cut_done E x fault)"
      by (rule triple_weaken [OF live_view_keeps(3) [OF com]]) simp_all
    fix a assume r: "r = Some a"
    have no: "triple E ?I (live_view x) (do {
         artifacts \<leftarrow> recovery_artifacts_present E;
         fresh \<leftarrow> (if artifacts then live_has_no_user_rows E else State_Monad.return False);
         if fresh then State_Monad.return (Inl FreshlyCreated) else copy_and_swap E fault }) (cut_done E x fault)"
      by (intro triple_bind [OF artifacts] triple_bind [OF fresh] triple_if live_view_keeps(3) [OF com] copy_and_swap_done quiet)
    show "triple E ?I (?C r) (case a of True \<Rightarrow> do { discard_legacy_sync_copy E; State_Monad.return (Inr ()) }
     | False \<Rightarrow> do {
         artifacts \<leftarrow> recovery_artifacts_present E;
         fresh \<leftarrow> (if artifacts then live_has_no_user_rows E else State_Monad.return False);
         if fresh then State_Monad.return (Inl FreshlyCreated) else copy_and_swap E fault }) (cut_done E x fault)"
    proof (cases a)
      case True
      have "triple E ?I (?C r) (do { discard_legacy_sync_copy E; State_Monad.return (Inr ()) }) (cut_done E x fault)"
        by (rule triple_weaken [OF prepared]) (use r True in blast)+
      with True show ?thesis by simp
    next
      case False
      have "triple E ?I (?C r) (do {
         artifacts \<leftarrow> recovery_artifacts_present E;
         fresh \<leftarrow> (if artifacts then live_has_no_user_rows E else State_Monad.return False);
         if fresh then State_Monad.return (Inl FreshlyCreated) else copy_and_swap E fault }) (cut_done E x fault)"
        by (rule triple_weaken [OF no]) blast+
      with False show ?thesis by simp
    qed
  qed
  then show ?thesis unfolding cutover_with_fault_def by (intro triple_bind [OF gate])
qed

subsection \<open>The recovery\<close>

lemma covers_triv: "covers (\<lambda>_. True) P \<longleftrightarrow> (\<forall>b fs. P b fs \<longrightarrow> P True fs)"
  by (auto simp: covers_def)

text \<open>A recovery changes nothing where the live file is there, and never touches the backup.\<close>

lemma view_upd: "p \<notin> {q, SideWal q} \<Longrightarrow> db_view (fs(p := v)) q = db_view fs q"
proof -
  assume "p \<notin> {q, SideWal q}"
  then have "(fs(p := v)) q = fs q" "(fs(p := v)) (SideWal q) = fs (SideWal q)" by auto
  then show ?thesis unfolding db_view_def by (simp only:)
qed

lemma lives_upd: "p \<notin> {LiveDb, SideWal LiveDb} \<Longrightarrow> lives S (fs(p := v)) = lives S fs"
  by (simp add: lives_def view_upd)

lemma lives_there: "lives S fs \<Longrightarrow> fs LiveDb \<noteq> None"
  by (cases "fs LiveDb") (auto simp: lives_def db_view_def)

lemma presence_lives:
  "triple E (lives S) (\<lambda>_. lives S) (presence_of E LiveDb) (\<lambda>r b fs. r \<noteq> Absent \<and> lives S fs)"
  unfolding presence_of_def
proof (rule triple_bind)
  show "triple E (lives S) (\<lambda>_. lives S) (probe E (\<lambda>fs. fs LiveDb \<noteq> None)) (\<lambda>r b fs. r \<noteq> Some False \<and> lives S fs)"
    using lives_there by (intro triple_probe) auto
qed (auto intro!: triple_return split: option.splits)

lemma covers_self: "covers I (\<lambda>_. I)"
  by (simp add: covers_def)

lemma presence_any: "covers I P \<Longrightarrow> triple E I P (presence_of E p) (\<lambda>_. P)"
  unfolding presence_of_def by (intro triple_bind [OF probe_keeps] return_keeps)

lemma definitely_any: "covers I P \<Longrightarrow> triple E I P (definitely_present E p) (\<lambda>_. P)"
  unfolding definitely_present_def by (intro triple_bind [OF presence_any] return_keeps)

lemma counts_any: "covers I P \<Longrightarrow> triple E I P (all_user_table_row_counts E p) (\<lambda>_. P)"
  unfolding all_user_table_row_counts_def by (intro triple_bind [OF probe_keeps] return_keeps)

lemma staging_valid_any: "covers I P \<Longrightarrow> triple E I P (staging_valid E j) (\<lambda>_. P)"
  unfolding staging_valid_def by (intro triple_bind [OF definitely_any] triple_if triple_bind [OF counts_any] return_keeps)

lemma read_journal_any: "covers I P \<Longrightarrow> triple E I P (read_journal E) (\<lambda>_. P)"
  unfolding read_journal_def by (intro triple_bind [OF probe_keeps] return_keeps)

lemma recover_live_there: "triple E (lives S) (\<lambda>_. lives S) (recover_interrupted_cutover E) (\<lambda>_ _. lives S)"
proof -
  note cov = covers_self [of "lives S"]
  have stay: "triple E (lives S) (\<lambda>_. lives S) (recover_from_journal E j True) (\<lambda>_ _. lives S)" for j
    unfolding recover_from_journal_def by (intro triple_bind [OF staging_valid_any [OF cov]] triple_if return_keeps) simp_all
  have clear: "triple E (lives S) (\<lambda>_. lives S) (remove_journal E) (\<lambda>_ _. lives S)"
    by (intro remove_journal_keeps cov) (simp add: drops_def lives_upd)
  have "triple E (lives S) (\<lambda>b fs. live \<noteq> Absent \<and> lives S fs) (if live = Unknown then State_Monad.return ()
     else do {
       j \<leftarrow> read_journal E;
       (case j of
         Some journal \<Rightarrow> do {
           recover_from_journal E journal (live = Present);
           remove_journal E }
       | None \<Rightarrow>
           if live = Absent then do {
             b \<leftarrow> definitely_present E BackupDb;
             if b then restore_or_report (copy_into_live E BackupDb)
             else do {
               s \<leftarrow> definitely_present E StagingDb;
               if s then restore_or_report (rename_into_live E StagingDb) else State_Monad.return () }}
           else State_Monad.return ()) }) (\<lambda>_ _. lives S)" for live
  proof (intro triple_pre)
    assume "live \<noteq> Absent"
    then consider "live = Unknown" | "live = Present" by (cases live) auto
    then show "triple E (lives S) (\<lambda>b. lives S) (if live = Unknown then State_Monad.return ()
     else do {
       j \<leftarrow> read_journal E;
       (case j of
         Some journal \<Rightarrow> do {
           recover_from_journal E journal (live = Present);
           remove_journal E }
       | None \<Rightarrow>
           if live = Absent then do {
             b \<leftarrow> definitely_present E BackupDb;
             if b then restore_or_report (copy_into_live E BackupDb)
             else do {
               s \<leftarrow> definitely_present E StagingDb;
               if s then restore_or_report (rename_into_live E StagingDb) else State_Monad.return () }}
           else State_Monad.return ()) }) (\<lambda>_ _. lives S)"
    proof cases
      case 2
      then show ?thesis
        by (simp, intro triple_bind [OF read_journal_any [OF cov]] triple_option triple_bind [OF stay] clear return_keeps)
    qed (simp add: return_keeps)
  qed
  then show ?thesis unfolding recover_interrupted_cutover_def by (intro triple_bind [OF presence_lives])
qed

lemma backed_upd: "p \<noteq> BackupDb \<Longrightarrow> backed l (fs(p := v)) = backed l fs"
  by (simp add: backed_def)

lemma restore_backed:
  "triple E (backed l) (\<lambda>_. backed l) (restore_or_report (copy_into_live E BackupDb)) (\<lambda>_ _. backed l)"
  "triple E (backed l) (\<lambda>_. backed l) (restore_or_report (rename_into_live E StagingDb)) (\<lambda>_ _. backed l)"
proof -
  note cov = covers_self [of "backed l"]
  have sides: "triple E (backed l) (\<lambda>_. backed l) (remove_sidecars E LiveDb) (\<lambda>_ _. backed l)"
    by (intro remove_sidecars_keeps cov) (simp_all add: drops_def backed_upd)
  have tmp: "triple E (backed l) (\<lambda>_. backed l) (remove_file E RecoverTmp) (\<lambda>_ _. backed l)"
    by (intro remove_file_keeps cov) (simp_all add: drops_def backed_upd)
  have rename: "triple E (backed l) (\<lambda>_. backed l) (rename_file E p LiveDb) (\<lambda>_ _. backed l)" if "p \<noteq> BackupDb" for p
    by (intro rename_file_keeps cov) (use that in \<open>simp_all add: ignores_def backed_upd\<close>)
  have copy: "triple E (backed l) (\<lambda>_. backed l) (copy_file E BackupDb RecoverTmp) (\<lambda>_ _. backed l)"
    unfolding copy_file_def
    by (intro triple_bind [OF sys_keeps [OF cov]] triple_if return_keeps sys_keeps [OF cov]) (auto simp: backed_upd split: if_splits)
  show "triple E (backed l) (\<lambda>_. backed l) (restore_or_report (copy_into_live E BackupDb)) (\<lambda>_ _. backed l)"
    unfolding restore_or_report_def copy_into_live_def clear_readonly_def fsync_file_def
    by (rule triple_bind [where Q = "\<lambda>_ _. backed l"], intro triple_bind [OF sides] triple_bind [OF tmp] triple_bind [OF copy] triple_if
        return_keeps triple_bind [OF touch_keeps [OF cov]] triple_bind [OF rename] triple_bind [OF fsync_live_dir_keeps [OF cov]])
      (simp_all add: return_keeps)
  show "triple E (backed l) (\<lambda>_. backed l) (restore_or_report (rename_into_live E StagingDb)) (\<lambda>_ _. backed l)"
    unfolding restore_or_report_def rename_into_live_def
    by (rule triple_bind [where Q = "\<lambda>_ _. backed l"], intro triple_bind [OF sides] triple_bind [OF rename] triple_if return_keeps
        triple_bind [OF fsync_live_dir_keeps [OF cov]]) (simp_all add: return_keeps)
qed

lemma recover_backed: "triple E (backed l) (\<lambda>_. backed l) (recover_interrupted_cutover E) (\<lambda>_ _. backed l)"
proof -
  note cov = covers_self [of "backed l"]
  have journal: "triple E (backed l) (\<lambda>_. backed l) (recover_from_journal E j live) (\<lambda>_ _. backed l)" for j live
    unfolding recover_from_journal_def
    by (intro triple_bind [OF staging_valid_any [OF cov]] triple_bind [OF definitely_any [OF cov]] triple_if return_keeps restore_backed)
  have clear: "triple E (backed l) (\<lambda>_. backed l) (remove_journal E) (\<lambda>_ _. backed l)"
    by (intro remove_journal_keeps cov) (simp add: drops_def backed_upd)
  show ?thesis unfolding recover_interrupted_cutover_def
    by (intro triple_bind [OF presence_any [OF cov]] triple_if triple_bind [OF read_journal_any [OF cov]] triple_option
        triple_bind [OF journal] clear triple_bind [OF definitely_any [OF cov]] return_keeps restore_backed)
qed

text \<open>Any recovery leaves the directory recoverable, and one without failing calls puts the library back.\<close>

lemma covers_stranded: "covers (recoverable C x) (\<lambda>_. stranded C x)"
  by (simp add: covers_def recoverable_def)

definition put_back :: "cut_env \<Rightarrow> cut_env \<Rightarrow> db_image \<Rightarrow> dir \<Rightarrow> bool" where
  "put_back E C x fs \<longleftrightarrow> lives (good_images C x) fs \<or> stranded C x fs \<and> \<not> fails_never E"

lemma covers_put_back: "covers (recoverable C x) (\<lambda>_. put_back E C x)"
  by (auto simp: covers_def put_back_def recoverable_def)

lemma stranded_upd: "p \<notin> {LiveDb, SideWal LiveDb, BackupDb, StagingDb, SideWal StagingDb} \<Longrightarrow> stranded C x (fs(p := v)) = stranded C x fs"
  by (auto simp: stranded_def backed_def staged_def clean_def)

lemma put_back_upd:
  "p \<notin> {LiveDb, SideWal LiveDb, BackupDb, StagingDb, SideWal StagingDb} \<Longrightarrow> put_back E C x fs \<Longrightarrow> put_back E C x (fs(p := v))"
  by (auto simp: put_back_def stranded_upd lives_upd)

lemma put_live: "live_is y fs \<Longrightarrow> y \<in> good_images C x \<Longrightarrow> put_back E C x fs \<and> recoverable C x fs"
  using live_is_lives by (simp add: put_back_def recoverable_def)

lemma sides_stranded: "triple E (recoverable C x) (\<lambda>_. stranded C x) (remove_sidecars E LiveDb) (\<lambda>_ _. stranded C x)"
  by (intro remove_sidecars_keeps covers_stranded) (auto simp: drops_def stranded_def backed_def staged_def clean_def)

lemma finish_restore:
  "triple E (recoverable C x) (\<lambda>b fs. if r then put_back E C x fs else stranded C x fs \<and> \<not> fails_never E)
     (if \<not> r then State_Monad.return False else do { fsync_live_dir E; State_Monad.return True }) (\<lambda>_ _. put_back E C x)"
proof (cases r)
  case True
  then show ?thesis by (simp, intro triple_bind [OF fsync_live_dir_keeps [OF covers_put_back]] return_keeps)
next
  case False
  then show ?thesis by (simp, intro triple_return) (simp add: put_back_def)
qed

lemma copy_restores:
  "triple E (recoverable C x) (\<lambda>_. stranded C x) (copy_into_live E BackupDb) (\<lambda>_ _. put_back E C x)"
proof -
  let ?R = "recoverable C x" and ?l = "last_image C x"
  let ?T = "\<lambda>fs. stranded C x fs \<and> fs RecoverTmp = Some (Image (last_image C x))"
  let ?or = "\<lambda>Q r (b::bool) fs. if r then Q fs else stranded C x fs \<and> \<not> fails_never E"
  have rec: "stranded C x fs \<Longrightarrow> ?R fs" for fs by (simp add: recoverable_def)
  have tmp: "triple E ?R (\<lambda>_. stranded C x) (remove_file E RecoverTmp) (\<lambda>_ _. stranded C x)"
    by (intro remove_file_keeps covers_stranded) (simp add: drops_def stranded_upd)
  have copy: "triple E ?R (\<lambda>_. stranded C x) (copy_file E BackupDb RecoverTmp) (?or ?T)"
  proof -
    have claim: "triple E ?R (\<lambda>_. stranded C x) (sys E (\<lambda>fs. if fs BackupDb = None then None else Some (fs(RecoverTmp \<mapsto> Blank)))) (?or (stranded C x))"
      by (intro triple_sys) (auto simp: may_fail_def stranded_upd rec split: if_splits, auto simp: stranded_def backed_def)
    have fill: "triple E ?R (\<lambda>_. stranded C x) (sys E (\<lambda>fs. Some (fs(RecoverTmp := fs BackupDb)))) (?or ?T)"
      by (intro triple_sys) (auto simp: may_fail_def stranded_upd rec, auto simp: stranded_def backed_def)
    have "triple E ?R (?or (stranded C x) r) (if r then sys E (\<lambda>fs. Some (fs(RecoverTmp := fs BackupDb))) else State_Monad.return False) (?or ?T)" for r
    proof (cases r)
      case True
      with fill show ?thesis by simp
    qed (auto intro!: triple_return)
    with claim show ?thesis unfolding copy_file_def by (rule triple_bind)
  qed
  have touched: "triple E ?R (\<lambda>_. ?T) (touch E RecoverTmp) (?or ?T)"
    unfolding touch_def by (intro triple_sys) (auto simp: may_fail_def split: if_splits)
  have rename: "triple E ?R (\<lambda>_. ?T) (rename_file E RecoverTmp LiveDb) (?or (put_back E C x))"
    unfolding rename_file_def
  proof (rule triple_sys)
    fix b fs fs' assume s: "?T fs"
    show "?or (put_back E C x) False True fs" if "may_fail E b" using s that by (simp add: may_fail_def)
    show "?or (put_back E C x) False b fs" if "(if fs RecoverTmp = None then None else Some (fs(LiveDb := fs RecoverTmp, RecoverTmp := None))) = None"
      using s that by simp
    assume "(if fs RecoverTmp = None then None else Some (fs(LiveDb := fs RecoverTmp, RecoverTmp := None))) = Some fs'"
    then have "live_is ?l fs'" using s by (auto simp: live_is_def clean_def stranded_def)
    then show "?or (put_back E C x) True b fs' \<and> ?R fs'" using put_live by (simp add: good_images_def)
  qed
  have step: "triple E ?R (?or Q r) (if \<not> r then State_Monad.return False else m) (\<lambda>_ _. put_back E C x)"
    if "triple E ?R (\<lambda>_. Q) m (\<lambda>_ _. put_back E C x)" for r Q m
  proof (cases r)
    case True
    with that show ?thesis by simp
  next
    case False
    then show ?thesis by (simp, intro triple_return) (simp add: put_back_def)
  qed
  show ?thesis unfolding copy_into_live_def clear_readonly_def fsync_file_def
    by (intro triple_bind [OF sides_stranded] triple_bind [OF tmp] triple_bind [OF copy] step triple_bind [OF touched]
        triple_bind [OF rename] finish_restore)
qed

lemma rename_restores:
  "triple E (recoverable C x) (\<lambda>_ fs. stranded C x fs \<and> fs StagingDb \<noteq> None) (rename_into_live E StagingDb) (\<lambda>_ _. put_back E C x)"
proof -
  let ?R = "recoverable C x" and ?S = "\<lambda>_ fs. stranded C x fs \<and> fs StagingDb \<noteq> None"
  have cov: "covers ?R ?S" by (simp add: covers_def recoverable_def)
  have sides: "triple E ?R ?S (remove_sidecars E LiveDb) (\<lambda>_. ?S)"
    by (intro remove_sidecars_keeps cov) (auto simp: drops_def stranded_def backed_def staged_def clean_def)
  have rename: "triple E ?R ?S (rename_file E StagingDb LiveDb)
      (\<lambda>r b fs. if r then put_back E C x fs else stranded C x fs \<and> \<not> fails_never E)"
    unfolding rename_file_def
  proof (rule triple_sys)
    fix b fs fs' assume s: "?S b fs"
    show "if False then put_back E C x fs else stranded C x fs \<and> \<not> fails_never E" if "may_fail E b" using s that by (simp add: may_fail_def)
    show "if False then put_back E C x fs else stranded C x fs \<and> \<not> fails_never E"
      if "(if fs StagingDb = None then None else Some (fs(LiveDb := fs StagingDb, StagingDb := None))) = None"
      using s that by (simp split: if_splits)
    assume fs': "(if fs StagingDb = None then None else Some (fs(LiveDb := fs StagingDb, StagingDb := None))) = Some fs'"
    obtain p where "converted C x p" "staged p fs" using s by (auto simp: stranded_def)
    then have "live_is p fs'" "p \<in> good_images C x" using s fs' by (auto simp: stranded_def staged_def live_is_def clean_def good_images_def)
    then show "(if True then put_back E C x fs' else stranded C x fs' \<and> \<not> fails_never E) \<and> ?R fs'" using put_live by simp
  qed
  show ?thesis unfolding rename_into_live_def by (intro triple_bind [OF sides] triple_bind [OF rename] finish_restore)
qed

lemma recover_stranded:
  "triple E (recoverable C x) (\<lambda>_. stranded C x) (recover_interrupted_cutover E) (\<lambda>_ _. put_back E C x)"
proof -
  let ?R = "recoverable C x" and ?D = "\<lambda>_::bool. stranded C x" and ?G = "\<lambda>_::bool. put_back E C x"
  note cov = covers_stranded and covG = covers_put_back
  let ?may = "\<lambda>r (_::bool) fs. stranded C x fs \<and> (r \<or> \<not> fails_never E)"
  have pres: "triple E ?R ?D (presence_of E BackupDb) (\<lambda>r. ?may (r = Present))"
    unfolding presence_of_def
  proof (rule triple_bind)
    show "triple E ?R ?D (probe E (\<lambda>fs. fs BackupDb \<noteq> None)) (\<lambda>r. ?may (r = Some True))"
      by (intro triple_probe) (auto simp: may_fail_def stranded_def backed_def)
  qed (auto intro!: triple_return split: option.splits)
  have here: "triple E ?R ?D (definitely_present E BackupDb) ?may"
    unfolding definitely_present_def by (rule triple_bind [OF pres]) (auto intro!: triple_return)
  have copy: "triple E ?R ?D (restore_or_report (copy_into_live E BackupDb)) (\<lambda>_. ?G)"
    unfolding restore_or_report_def by (rule triple_bind [OF copy_restores]) (rule return_keeps)
  have stop: "triple E ?R (\<lambda>_ fs. stranded C x fs \<and> \<not> fails_never E) (State_Monad.return ()) (\<lambda>_. ?G)"
    by (intro triple_return) (simp add: put_back_def)
  have rename: "triple E ?R (\<lambda>_ fs. stranded C x fs \<and> fs StagingDb \<noteq> None) (restore_or_report (rename_into_live E StagingDb)) (\<lambda>_. ?G)"
    unfolding restore_or_report_def by (rule triple_bind [OF rename_restores]) (rule return_keeps)
  have copy': "triple E ?R (?may r) (if r then restore_or_report (copy_into_live E BackupDb) else m) (\<lambda>_. ?G)"
    if "triple E ?R (\<lambda>_ fs. stranded C x fs \<and> \<not> fails_never E) m (\<lambda>_. ?G)" for r m
  proof (cases r)
    case True
    with copy show ?thesis by simp
  qed (use that in simp)
  let ?V = "\<lambda>r (_::bool) fs. (r \<longrightarrow> fs StagingDb \<noteq> None) \<and> stranded C x fs"
  have there: "triple E ?R P (definitely_present E StagingDb) (\<lambda>r b fs. (r \<longrightarrow> fs StagingDb \<noteq> None) \<and> P b fs)"
    if "covers ?R P" for P
  proof -
    have "triple E ?R P (probe E (\<lambda>fs. fs StagingDb \<noteq> None)) (\<lambda>r b fs. (r = Some True \<longrightarrow> fs StagingDb \<noteq> None) \<and> P b fs)"
      using that by (intro triple_probe) (auto simp: covers_def)
    then have "triple E ?R P (presence_of E StagingDb) (\<lambda>r b fs. (r = Present \<longrightarrow> fs StagingDb \<noteq> None) \<and> P b fs)"
      unfolding presence_of_def by (rule triple_bind) (auto intro!: triple_return split: option.splits)
    then show ?thesis unfolding definitely_present_def by (rule triple_bind) (auto intro!: triple_return)
  qed
  have valid: "triple E ?R ?D (staging_valid E j) ?V" for j
    unfolding staging_valid_def
    by (rule triple_bind [OF there [OF cov]], intro triple_if triple_return triple_bind [OF counts_any]) (auto simp: covers_def recoverable_def)
  have journal: "triple E ?R ?D (recover_from_journal E j False) (\<lambda>_. ?G)" for j
  proof -
    have weak: "triple E ?R (?V v) m (\<lambda>_. ?G)" if "triple E ?R ?D m (\<lambda>_. ?G)" for v m
      by (rule triple_weaken [OF that]) simp_all
    have direct: "triple E ?R (\<lambda>b fs. Q fs \<and> ?V v b fs) (restore_or_report (rename_into_live E StagingDb)) (\<lambda>_. ?G)" if v for v Q
      by (rule triple_weaken [OF rename]) (use that in auto)
    have direct0: "triple E ?R (?V v) (restore_or_report (rename_into_live E StagingDb)) (\<lambda>_. ?G)" if v for v
      by (rule triple_weaken [OF rename]) (use that in auto)
    have here_v: "triple E ?R (?V v) (definitely_present E BackupDb) (\<lambda>r b fs. ?may r b fs \<and> (v \<longrightarrow> fs StagingDb \<noteq> None))" for v
    proof -
      have "triple E ?R (?V v) (probe E (\<lambda>fs. fs BackupDb \<noteq> None)) (\<lambda>r b fs. ?may (r = Some True) b fs \<and> (v \<longrightarrow> fs StagingDb \<noteq> None))"
        by (intro triple_probe) (auto simp: may_fail_def stranded_def backed_def)
      then have "triple E ?R (?V v) (presence_of E BackupDb) (\<lambda>r b fs. ?may (r = Present) b fs \<and> (v \<longrightarrow> fs StagingDb \<noteq> None))"
        unfolding presence_of_def by (rule triple_bind) (auto intro!: triple_return split: option.splits)
      then show ?thesis unfolding definitely_present_def by (rule triple_bind) (auto intro!: triple_return)
    qed
    have completed: "triple E ?R (\<lambda>b fs. ?may r b fs \<and> (v \<longrightarrow> fs StagingDb \<noteq> None)) (if r then restore_or_report (copy_into_live E BackupDb)
          else if v then restore_or_report (rename_into_live E StagingDb)
          else State_Monad.return ()) (\<lambda>_. ?G)" for r v
      by (intro triple_if; (rule triple_weaken [OF copy] triple_weaken [OF rename] triple_weaken [OF stop]); simp)
    show ?thesis unfolding recover_from_journal_def
      by (simp only: simp_thms if_False, rule triple_bind [OF valid],
          intro triple_if direct0 weak triple_bind [OF here] copy' stop triple_bind [OF here_v] completed) 
  qed
  have clear: "triple E ?R ?G (remove_journal E) (\<lambda>_. ?G)"
    by (intro remove_journal_keeps covG) (simp add: drops_def put_back_upd)
  have absent: "triple E ?R ?D (presence_of E LiveDb) (\<lambda>r _ fs. (r = Absent \<or> r = Unknown \<and> \<not> fails_never E) \<and> stranded C x fs)"
  proof -
    have "triple E ?R ?D (probe E (\<lambda>fs. fs LiveDb \<noteq> None)) (\<lambda>r _ fs. (r = Some False \<or> r = None \<and> \<not> fails_never E) \<and> stranded C x fs)"
      by (intro triple_probe) (auto simp: may_fail_def stranded_def)
    then show ?thesis unfolding presence_of_def by (rule triple_bind) (auto intro!: triple_return)
  qed
  have lost_probe: "triple E ?R (\<lambda>_ fs. stranded C x fs \<and> \<not> fails_never E)
      (do { s \<leftarrow> definitely_present E StagingDb;
         if s then restore_or_report (rename_into_live E StagingDb) else State_Monad.return () }) (\<lambda>_. ?G)"
  proof (rule triple_bind [OF there])
    show "covers ?R (\<lambda>_ fs. stranded C x fs \<and> \<not> fails_never E)" by (simp add: covers_def recoverable_def)
    show "triple E ?R (\<lambda>b fs. (s \<longrightarrow> fs StagingDb \<noteq> None) \<and> stranded C x fs \<and> \<not> fails_never E)
        (if s then restore_or_report (rename_into_live E StagingDb) else State_Monad.return ()) (\<lambda>_. ?G)" for s
      by (intro triple_if; (rule triple_weaken [OF rename] triple_weaken [OF stop]); simp)
  qed
  have "triple E ?R (\<lambda>_ fs. (live = Absent \<or> live = Unknown \<and> \<not> fails_never E) \<and> stranded C x fs) (if live = Unknown then State_Monad.return ()
     else do {
       j \<leftarrow> read_journal E;
       (case j of
         Some journal \<Rightarrow> do {
           recover_from_journal E journal (live = Present);
           remove_journal E }
       | None \<Rightarrow>
           if live = Absent then do {
             b \<leftarrow> definitely_present E BackupDb;
             if b then restore_or_report (copy_into_live E BackupDb)
             else do {
               s \<leftarrow> definitely_present E StagingDb;
               if s then restore_or_report (rename_into_live E StagingDb) else State_Monad.return () }}
           else State_Monad.return ()) }) (\<lambda>_. ?G)" for live
  proof (intro triple_pre)
    assume "live = Absent \<or> live = Unknown \<and> \<not> fails_never E"
    then consider "live = Absent" | "live = Unknown" "\<not> fails_never E" by blast
    then show "triple E ?R ?D (if live = Unknown then State_Monad.return ()
     else do {
       j \<leftarrow> read_journal E;
       (case j of
         Some journal \<Rightarrow> do {
           recover_from_journal E journal (live = Present);
           remove_journal E }
       | None \<Rightarrow>
           if live = Absent then do {
             b \<leftarrow> definitely_present E BackupDb;
             if b then restore_or_report (copy_into_live E BackupDb)
             else do {
               s \<leftarrow> definitely_present E StagingDb;
               if s then restore_or_report (rename_into_live E StagingDb) else State_Monad.return () }}
           else State_Monad.return ()) }) (\<lambda>_. ?G)"
    proof cases
      case 1
      show ?thesis unfolding 1
        by (simp, intro triple_bind [OF read_journal_any [OF cov]] triple_option triple_bind [OF here] copy' triple_bind [OF journal] clear)
          (rule lost_probe)
    next
      case 2
      then show ?thesis by (simp, intro triple_return) (simp add: put_back_def)
    qed
  qed
  then show ?thesis unfolding recover_interrupted_cutover_def by (intro triple_bind [OF absent])
qed

subsection \<open>Properties\<close>

definition disk_at :: "dir \<Rightarrow> disk" where
  "disk_at fs = \<lparr>dk_files = fs, dk_past = [], dk_calls = 0\<rparr>"

definition files_after :: "'a io \<Rightarrow> dir \<Rightarrow> dir" where
  "files_after m fs = dk_files (snd (run_state m (disk_at fs)))"

text \<open>The directories a crash can leave.\<close>

definition crash_points :: "'a io \<Rightarrow> dir \<Rightarrow> dir set" where
  "crash_points m fs = insert (files_after m fs) (set (dk_past (snd (run_state m (disk_at fs)))))"

text \<open>A cutover that is cut off, and any number of recoveries, each of them cut off too.\<close>

inductive outages :: "cut_env \<Rightarrow> cutover_fault \<Rightarrow> dir \<Rightarrow> dir \<Rightarrow> bool" for E fault fs where
  cut_off: "fs' \<in> crash_points (cutover_with_fault E fault) fs \<Longrightarrow> outages E fault fs fs'"
| again: "outages E fault fs fs' \<Longrightarrow> fs'' \<in> crash_points (recover_interrupted_cutover F) fs' \<Longrightarrow> outages E fault fs fs''"

lemma triple_run:
  assumes "triple E I P m Q" and "P False fs" and "I fs"
  shows "\<exists>b. Q (fst (run_state m (disk_at fs))) b (files_after m fs)" and "fs' \<in> crash_points m fs \<Longrightarrow> I fs'"
proof -
  have "\<not> failed_yet E (disk_at fs)" "dk_files (disk_at fs) = fs" "dk_past (disk_at fs) = []"
    by (simp_all add: failed_yet_def disk_at_def)
  then have "case run_state m (disk_at fs) of (x, d') \<Rightarrow> Q x (failed_yet E d') (dk_files d') \<and> I (dk_files d') \<and>
      (\<exists>new. dk_past d' = new @ [] \<and> list_all I new)"
    using assms(1) [unfolded triple_def, THEN spec, of "disk_at fs"] assms(2,3) by simp
  then show "\<exists>b. Q (fst (run_state m (disk_at fs))) b (files_after m fs)" "fs' \<in> crash_points m fs \<Longrightarrow> I fs'"
    by (auto simp: files_after_def crash_points_def list_all_iff split: prod.splits)
qed

lemma cutover_crash_inv:
  "ce_after_reopen E = None \<Longrightarrow> live_view x False fs \<Longrightarrow> fs' \<in> crash_points (cutover_with_fault E fault) fs \<Longrightarrow> cut_inv E x fs'"
  by (rule triple_run(2) [OF cutover_done]) (auto intro: view_inv)

lemma outages_kept:
  "outages E fault fs fs' \<Longrightarrow> ce_after_reopen E = None \<Longrightarrow> live_view x False fs \<Longrightarrow> library_kept E x fs'"
proof (induction rule: outages.induct)
  case (cut_off fs')
  then show ?case using cutover_crash_inv by (auto simp: cut_inv_def)
next
  case (again fs' fs'' F)
  then consider "lives (committed E x) fs'" | "backed (last_image E x) fs'" by (auto simp: library_kept_def)
  then show ?case
  proof cases
    case 1
    from triple_run(2) [OF recover_live_there 1 1 again.hyps(2)] show ?thesis by (simp add: library_kept_def)
  next
    case 2
    from triple_run(2) [OF recover_backed 2 2 again.hyps(2)] show ?thesis by (simp add: library_kept_def)
  qed
qed

lemma recover_any:
  assumes "recoverable C x fs"
  shows "fs' \<in> crash_points (recover_interrupted_cutover F) fs \<Longrightarrow> recoverable C x fs'"
    and "fails_never F \<Longrightarrow> lives (good_images C x) (files_after (recover_interrupted_cutover F) fs)"
proof -
  consider (live) "lives (good_images C x) fs" | (lost) "stranded C x fs" using assms by (auto simp: recoverable_def)
  then have "(fs' \<in> crash_points (recover_interrupted_cutover F) fs \<longrightarrow> recoverable C x fs') \<and>
      (fails_never F \<longrightarrow> lives (good_images C x) (files_after (recover_interrupted_cutover F) fs))"
  proof cases
    case live
    from triple_run [OF recover_live_there live live] show ?thesis by (auto simp: recoverable_def)
  next
    case lost
    from triple_run [OF recover_stranded lost assms] show ?thesis by (auto simp: put_back_def)
  qed
  then show "fs' \<in> crash_points (recover_interrupted_cutover F) fs \<Longrightarrow> recoverable C x fs'"
    "fails_never F \<Longrightarrow> lives (good_images C x) (files_after (recover_interrupted_cutover F) fs)" by simp_all
qed

lemma outages_recoverable:
  "outages E fault fs fs' \<Longrightarrow> fails_once E \<Longrightarrow> ce_after_reopen E = None \<Longrightarrow> live_view x False fs \<Longrightarrow> recoverable E x fs'"
proof (induction rule: outages.induct)
  case (cut_off fs')
  then show ?case using cutover_crash_inv by (auto simp: cut_inv_def)
next
  case (again fs' fs'' F)
  then show ?case using recover_any(1) by blast
qed

lemma perform_cutover_done:
  assumes "live_view x False fs" and "ce_after_reopen E = None"
  shows "\<exists>b. cut_done E x NoFault (fst (run_state (perform_cutover E) (disk_at fs))) b (files_after (perform_cutover E) fs)"
  unfolding perform_cutover_def
  by (rule triple_run(1) [OF cutover_done [OF assms(2)] assms(1) view_inv [OF assms(1)]]) simp

lemma live_is_seen: "live_is p fs \<Longrightarrow> db_view fs LiveDb = Some p"
  using live_is_view [of p fs False] by (simp add: live_view_def)

text \<open>C8. Whatever system calls fail and wherever the cutover and any number of recoveries after it are cut
  off, the library is there: in the live file, or, as the pool was closed on it, in the backup. (No
  writer commits between the reopening of the pool and the end of the cutover, \<open>ce_after_reopen\<close>.)\<close>

theorem library_never_lost:
  assumes "live_view x False fs" and "ce_after_reopen E = None" and "outages E fault fs fs'"
  shows "lives (committed E x) fs' \<or> fs' BackupDb = Some (Image (last_image E x))"
  using outages_kept [OF assms(3,2,1)] by (simp add: library_kept_def backed_def)

text \<open>C9. Where at most one system call of the cutover fails, a recovery that runs through puts a library back
  in the live file: one that was committed, or its conversion. That holds after a crash at any point
  and after any number of failed or interrupted recoveries with no opening of the app's database in
  between (which after a failed one would create an empty library, see \<open>failed_restore_not_retried\<close>).\<close>

theorem recovery_restores_library:
  assumes "live_view x False fs" and "ce_after_reopen E = None" and "fails_once E" and "outages E fault fs fs'"
    and "fails_never F"
  shows "lives (committed E x \<union> {p. converted E x p}) (files_after (recover_interrupted_cutover F) fs')"
  using recover_any(2) [OF outages_recoverable [OF assms(4,3,2,1)] assms(5)] by (simp add: good_images_def)

text \<open>C10. A cutover that reports success leaves the conversion in the live file, with the row counts of the
  library, and the library the pool was closed on in the backup; or the database was already prepared.
  One that reports an error, no call having failed, leaves a committed library in the live file. (The
  counts are those of the library before the copy; no writer commits after the reopening.)\<close>

theorem cutover_outcome:
  assumes "live_view x False fs" and "ce_after_reopen E = None"
  shows "case fst (run_state (perform_cutover E) (disk_at fs)) of
     Inr _ \<Rightarrow> image_prepared x = Some True \<and> db_view (files_after (perform_cutover E) fs) LiveDb = Some x \<or>
       (\<exists>p. converted E x p \<and> user_counts p = user_counts x \<and> db_view (files_after (perform_cutover E) fs) LiveDb = Some p \<and>
         files_after (perform_cutover E) fs BackupDb = Some (Image (last_image E x)))
   | Inl e \<Rightarrow> fails_never E \<longrightarrow> lives (committed E x) (files_after (perform_cutover E) fs)"
proof -
  obtain b where d: "cut_done E x NoFault (fst (run_state (perform_cutover E) (disk_at fs))) b (files_after (perform_cutover E) fs)"
    using perform_cutover_done [OF assms] by blast
  show ?thesis
  proof (cases "fst (run_state (perform_cutover E) (disk_at fs))")
    case (Inl e)
    with d show ?thesis by (auto simp: cut_done_def intro: view_lives)
  next
    case (Inr u)
    with d show ?thesis by (auto simp: cut_done_def live_view_def dest: live_is_seen)
  qed
qed

text \<open>A library, its conversion, and a directory that holds only the live file.\<close>

definition sample_library :: db_image where
  "sample_library = \<lparr>di_tables = [(''sessions'', [columns [(''id'', SqlText ''a'')]])]\<rparr>"

definition sample_converted :: db_image where
  "sample_converted = \<lparr>di_tables = [(''sessions'', [columns [(''id'', SqlText ''a'')]]), (''sessions__crsql_clock'', [])]\<rparr>"

definition sample_grown :: db_image where
  "sample_grown = \<lparr>di_tables = [(''sessions'', [columns [(''id'', SqlText ''a'')], columns [(''id'', SqlText ''b'')]])]\<rparr>"

definition cut_sample :: "(nat \<Rightarrow> bool) \<Rightarrow> db_image option \<Rightarrow> cut_env" where
  "cut_sample bad late = \<lparr>ce_fail = bad, ce_suffix = ''7'', ce_size = (\<lambda>d. 0), ce_schema = \<lparr>di_tables = []\<rparr>,
     ce_prepare = (\<lambda>d. ([], Inr sample_converted)), ce_before_vacuum = None, ce_before_close = late, ce_after_reopen = None\<rparr>"

definition sample_dir :: dir where
  "sample_dir = [LiveDb \<mapsto> Image sample_library]"

lemma sample_cut:
  "live_view sample_library False sample_dir" "ce_after_reopen (cut_sample bad late) = None"
  "vacuumed (cut_sample bad late) sample_library = sample_library"
  "last_image (cut_sample bad late) sample_library = (case late of None \<Rightarrow> sample_library | Some w \<Rightarrow> w)"
  "converted (cut_sample bad late) x p \<longleftrightarrow> p = sample_converted"
  "fails_never (cut_sample (\<lambda>_. False) late)" "fails_once (cut_sample (\<lambda>i. i = k) late)"
  by (auto simp: live_view_def db_view_def sample_dir_def cut_sample_def vacuumed_def last_image_def converted_def fails_never_def fails_once_def
    split: option.splits)

lemma files_after_point: "files_after m fs \<in> crash_points m fs"
  by (simp add: crash_points_def)

lemma library_never_lost_witness:
  "lives {sample_library} (files_after (recover_interrupted_cutover (cut_sample (\<lambda>i. i > 3) None))
     (files_after (cutover_with_fault (cut_sample (\<lambda>i. i > 20) None) NoFault) sample_dir)) \<or>
   files_after (recover_interrupted_cutover (cut_sample (\<lambda>i. i > 3) None))
     (files_after (cutover_with_fault (cut_sample (\<lambda>i. i > 20) None) NoFault) sample_dir) BackupDb = Some (Image sample_library)"
proof -
  have "outages (cut_sample (\<lambda>i. i > 20) None) NoFault sample_dir (files_after (recover_interrupted_cutover (cut_sample (\<lambda>i. i > 3) None))
     (files_after (cutover_with_fault (cut_sample (\<lambda>i. i > 20) None) NoFault) sample_dir))"
    by (rule again [OF cut_off [OF files_after_point] files_after_point])
  from library_never_lost [OF sample_cut(1,2) this] show ?thesis by (simp add: committed_def sample_cut)
qed

lemma recovery_restores_library_witness:
  "lives {sample_library, sample_converted} (files_after (recover_interrupted_cutover (cut_sample (\<lambda>_. False) None))
     (files_after (cutover_with_fault (cut_sample (\<lambda>i. i = 30) None) BetweenRenames) sample_dir))"
proof -
  have "outages (cut_sample (\<lambda>i. i = 30) None) BetweenRenames sample_dir
     (files_after (cutover_with_fault (cut_sample (\<lambda>i. i = 30) None) BetweenRenames) sample_dir)"
    by (rule cut_off [OF files_after_point])
  from recovery_restores_library [OF sample_cut(1,2,7) this sample_cut(6) [of None]] show ?thesis
    by (simp add: committed_def sample_cut lives_def insert_commute)
qed

subsection \<open>Where the swap loses data\<close>

lemma run_bind: "run_state (State_Monad.bind m f) d = (case run_state m d of (x, d') \<Rightarrow> run_state (f x) d')"
  by (simp split: prod.splits)

lemmas cut_steps = sys_def probe_def rename_file_def remove_file_def truncate_file_def write_file_def copy_file_def touch_def
  fsync_file_def clear_readonly_def fsync_live_dir_def remove_sidecars_def remove_db_files_def move_side_def move_db_aside_def
  commit_live_def write_journal_def remove_journal_def presence_of_def definitely_present_def all_user_table_row_counts_def
  live_has_no_user_rows_def live_is_crr_prepared_def discard_legacy_sync_copy_def recovery_artifacts_present_def
  vacuum_into_staging_def vacant_def prepare_staging_def close_for_swap_def reopen_def verify_swap_def finish_swap_def
  swap_renames_def live_size_def new_journal_def keep_old_backup_def swap_files_def copy_and_swap_def cutover_with_fault_def
  perform_cutover_def run_bind disk_at_def db_view_def Let_def files_after_def

text \<open>The copy is taken while the pool is open. What another writer commits between the copy and the closing
  is in the backup only, and the cutover reports success: the counts were taken before the copy too.\<close>

lemma late_commit_left_behind:
  assumes "ce_fail E = (\<lambda>_. False)" and "image_prepared x = Some False" and "ce_before_vacuum E = None"
    and "ce_before_close E = Some w" and "ce_after_reopen E = None" and "ce_prepare E x = ([], Inr p)" and "user_counts p = user_counts x"
  shows "fst (run_state (perform_cutover E) (disk_at [LiveDb \<mapsto> Image x])) = Inr () \<and>
    db_view (files_after (perform_cutover E) [LiveDb \<mapsto> Image x]) LiveDb = Some p \<and>
    files_after (perform_cutover E) [LiveDb \<mapsto> Image x] BackupDb = Some (Image w)"
proof -
  have "fst (run_state (perform_cutover E) (disk_at [LiveDb \<mapsto> Image x])) = Inr ()" using assms by (simp add: cut_steps)
  moreover have "live_view x False [LiveDb \<mapsto> Image x]" by (simp add: live_view_def db_view_def)
  moreover note perform_cutover_done [OF this assms(5)]
  ultimately show ?thesis using assms by (auto simp: cut_done_def converted_def vacuumed_def last_image_def live_is_seen)
qed

text \<open>A restore that fails once (here the copy of the backup) is not tried again: the journal is removed all the
  same, the start goes on to create an empty database, and from then on the live file is there.\<close>

lemma failed_restore_not_retried:
  assumes "ce_fail F = (\<lambda>i. i = 7)" and "cj_phase j = BackupMoved"
  shows "db_view (files_after (do { recover_interrupted_cutover F; reopen F; recover_interrupted_cutover F })
     [BackupDb \<mapsto> Image l, JournalFile \<mapsto> JournalDoc j]) LiveDb = Some (ce_schema F)"
  using assms by (simp add: cut_steps recover_interrupted_cutover_def recover_from_journal_def read_journal_def
    staging_valid_def restore_or_report_def copy_into_live_def)

text \<open>An older backup is moved aside, but nobody looks whether the move succeeded: if it failed, the rename of
  the live file overwrites the backup.\<close>

lemma old_backup_overwritten:
  assumes "ce_fail E = (\<lambda>i. i = 19)" and "image_prepared x = Some False" and "ce_before_vacuum E = None"
    and "ce_before_close E = None" and "ce_after_reopen E = None" and "ce_prepare E x = ([], Inr p)" and "user_counts p = user_counts x"
    and "\<not> list_all (\<lambda>(t, n). n = 0) (synced_counts x)"
  shows "fst (run_state (perform_cutover E) (disk_at [LiveDb \<mapsto> Image x, BackupDb \<mapsto> Image old])) = Inr () \<and>
    (\<forall>q. files_after (perform_cutover E) [LiveDb \<mapsto> Image x, BackupDb \<mapsto> Image old] q \<in> {None, Some (Image x), Some (Image p), Some Blank})"
  using assms by (simp add: cut_steps)

lemma sample_not_prepared: "image_prepared sample_library = Some False" "user_counts sample_converted = user_counts sample_library"
proof -
  show "image_prepared sample_library = Some False" by (simp add: image_prepared_def sample_library_def)
  have "user_table ''sessions''" "\<not> user_table ''sessions__crsql_clock''" by code_simp+
  then show "user_counts sample_converted = user_counts sample_library"
    by (simp add: user_counts_def sample_converted_def sample_library_def)
qed

lemma cutover_outcome_witness:
  "db_view (files_after (perform_cutover (cut_sample (\<lambda>_. False) (Some sample_grown))) sample_dir) LiveDb = Some sample_converted \<and>
   files_after (perform_cutover (cut_sample (\<lambda>_. False) (Some sample_grown))) sample_dir BackupDb = Some (Image sample_grown)"
proof -
  let ?E = "cut_sample (\<lambda>_. False) (Some sample_grown)"
  have "fst (run_state (perform_cutover ?E) (disk_at sample_dir)) = Inr ()"
    using late_commit_left_behind [of ?E sample_library sample_grown sample_converted] sample_not_prepared
    by (simp add: cut_sample_def sample_dir_def)
  with cutover_outcome [OF sample_cut(1,2), of "\<lambda>_. False" "Some sample_grown"] show ?thesis
    by (simp add: sample_cut sample_not_prepared)
qed

end
