(* ===== verification/Fetch_Registry.thy ===== *)
theory Fetch_Registry
  imports Main
begin

text \<open>
  The admission control of audio downloads (\<open>FetchRegistry\<close> in \<open>crates/yapstack-sync/src/audio.rs\<close>): one
  slot per audio part, at most \<open>cap\<close> running downloads, and a queue in two priority classes for the
  rest. The registry is behind a mutex, so its operations are the steps of the model; a starter runs
  outside the lock, after the step that returns it.

  Slots are shared: a slot lives in a store, and the registry and the callers hold its address. A slot
  keeps its queued flag and outcome; the progress counters are left out. A starter is a number.
\<close>

datatype fetch_result = Fetched | NotOnServer | Cancelled | NoSpace nat

record fetch_slot =
  fs_outcome :: "(string + fetch_result) option"
  fs_queued :: bool

record queued_fetch =
  qf_part :: string
  qf_starter :: nat
  qf_high :: bool

record registry =
  rg_cap :: nat
  rg_slots :: "string \<Rightarrow> nat option"
  rg_queue :: "queued_fetch list"
  rg_running :: nat
  rg_store :: "nat \<Rightarrow> fetch_slot"
  rg_fresh :: nat

definition default_fetch_concurrency :: nat where
  "default_fetch_concurrency = 2"

definition slot_new :: fetch_slot where
  "slot_new = \<lparr>fs_outcome = None, fs_queued = False\<rparr>"

definition registry_with_cap :: "nat \<Rightarrow> registry" where
  "registry_with_cap cap = \<lparr>rg_cap = max cap 1, rg_slots = Map.empty, rg_queue = [], rg_running = 0, rg_store = (\<lambda>_. slot_new), rg_fresh = 0\<rparr>"

definition registry_default :: registry where
  "registry_default = registry_with_cap default_fetch_concurrency"

definition set_queued :: "nat \<Rightarrow> bool \<Rightarrow> registry \<Rightarrow> registry" where
  "set_queued a q g = g\<lparr>rg_store := (rg_store g)(a := (rg_store g a)\<lparr>fs_queued := q\<rparr>)\<rparr>"

definition slot_finish :: "nat \<Rightarrow> string + fetch_result \<Rightarrow> registry \<Rightarrow> registry" where
  "slot_finish a res g = g\<lparr>rg_store := (rg_store g)(a := (rg_store g a)\<lparr>fs_outcome := Some res\<rparr>)\<rparr>"

definition high_segment_end :: "queued_fetch list \<Rightarrow> nat" where
  "high_segment_end q = length (takeWhile qf_high q)"

definition insert_at :: "nat \<Rightarrow> 'a \<Rightarrow> 'a list \<Rightarrow> 'a list" where
  "insert_at i x xs = take i xs @ x # drop i xs"

definition enqueue_fetch :: "queued_fetch \<Rightarrow> queued_fetch list \<Rightarrow> queued_fetch list" where
  "enqueue_fetch e q = (if qf_high e then insert_at (high_segment_end q) e q else q @ [e])"

text \<open>The result is the slot and the starter to run now, if any.\<close>

definition submit_with_priority :: "string \<Rightarrow> nat \<Rightarrow> bool \<Rightarrow> registry \<Rightarrow> nat \<times> nat option \<times> registry" where
  "submit_with_priority part starter high g = (case rg_slots g part of
     Some s \<Rightarrow> (s, None, g)
   | None \<Rightarrow>
       let s = rg_fresh g;
           g1 = g\<lparr>rg_slots := (rg_slots g)(part \<mapsto> s), rg_store := (rg_store g)(s := slot_new), rg_fresh := rg_fresh g + 1\<rparr>
       in if rg_running g < rg_cap g then (s, Some starter, g1\<lparr>rg_running := rg_running g + 1\<rparr>)
          else (s, None, set_queued s True (g1\<lparr>rg_queue := enqueue_fetch \<lparr>qf_part = part, qf_starter = starter, qf_high = high\<rparr> (rg_queue g)\<rparr>)))"

definition submit_fetch :: "string \<Rightarrow> nat \<Rightarrow> registry \<Rightarrow> nat \<times> nat option \<times> registry" where
  "submit_fetch part starter g = submit_with_priority part starter False g"

fun remove_part :: "string \<Rightarrow> queued_fetch list \<Rightarrow> (queued_fetch \<times> queued_fetch list) option" where
  "remove_part part [] = None"
| "remove_part part (e # q) = (if qf_part e = part then Some (e, q) else map_option (\<lambda>(x, r). (x, e # r)) (remove_part part q))"

definition promote_fetch :: "string \<Rightarrow> registry \<Rightarrow> bool \<times> registry" where
  "promote_fetch part g = (case remove_part part (rg_queue g) of
     None \<Rightarrow> (False, g)
   | Some (e, q) \<Rightarrow>
       if qf_high e then (False, g)
       else (True, g\<lparr>rg_queue := insert_at (high_segment_end q) (e\<lparr>qf_high := True\<rparr>) q\<rparr>))"

definition task_finished :: "registry \<Rightarrow> nat option \<times> registry" where
  "task_finished g = (case rg_queue g of
     [] \<Rightarrow> (None, g\<lparr>rg_running := rg_running g - 1\<rparr>)
   | e # q \<Rightarrow>
       let g1 = g\<lparr>rg_running := rg_running g - 1 + 1, rg_queue := q\<rparr>
       in (Some (qf_starter e), case rg_slots g (qf_part e) of Some s \<Rightarrow> set_queued s False g1 | None \<Rightarrow> g1))"

definition drop_part :: "string \<Rightarrow> queued_fetch list \<Rightarrow> queued_fetch list" where
  "drop_part part q = filter (\<lambda>e. qf_part e \<noteq> part) q"

definition cancel_if_queued :: "string \<Rightarrow> registry \<Rightarrow> bool \<times> registry" where
  "cancel_if_queued part g =
     (if length (drop_part part (rg_queue g)) = length (rg_queue g) then (False, g)
      else (True, g\<lparr>rg_queue := drop_part part (rg_queue g), rg_slots := (rg_slots g)(part := None)\<rparr>))"

definition is_active :: "string \<Rightarrow> registry \<Rightarrow> bool" where
  "is_active part g = (rg_slots g part \<noteq> None)"

definition remove_slot :: "string \<Rightarrow> registry \<Rightarrow> registry" where
  "remove_slot part g = g\<lparr>rg_slots := (rg_slots g)(part := None), rg_queue := drop_part part (rg_queue g)\<rparr>"

subsection \<open>Runs\<close>

text \<open>The registry with the starters that were started and have not finished. A task finishes once.\<close>

definition start_task :: "nat option \<Rightarrow> nat list \<Rightarrow> nat list" where
  "start_task s active = (case s of Some x \<Rightarrow> x # active | None \<Rightarrow> active)"

inductive registry_run :: "nat \<Rightarrow> registry \<Rightarrow> nat list \<Rightarrow> bool" for cap where
  begin_run: "registry_run cap (registry_with_cap cap) []"
| submit: "registry_run cap g active \<Longrightarrow> submit_with_priority part starter high g = (s, go, g') \<Longrightarrow> registry_run cap g' (start_task go active)"
| promote: "registry_run cap g active \<Longrightarrow> registry_run cap (snd (promote_fetch part g)) active"
| finished: "registry_run cap g active \<Longrightarrow> t \<in> set active \<Longrightarrow> task_finished g = (go, g') \<Longrightarrow>
    registry_run cap g' (start_task go (remove1 t active))"
| cancel: "registry_run cap g active \<Longrightarrow> registry_run cap (snd (cancel_if_queued part g)) active"
| remove: "registry_run cap g active \<Longrightarrow> registry_run cap (remove_slot part g) active"
| outcome: "registry_run cap g active \<Longrightarrow> registry_run cap (slot_finish a res g) active"

definition high_first :: "queued_fetch list \<Rightarrow> bool" where
  "high_first q \<longleftrightarrow> sorted_wrt (\<lambda>a b. qf_high b \<longrightarrow> qf_high a) q"

definition registry_ok :: "nat \<Rightarrow> registry \<Rightarrow> nat list \<Rightarrow> bool" where
  "registry_ok cap g active \<longleftrightarrow>
     rg_cap g = max cap 1 \<and> rg_running g = length active \<and> length active \<le> rg_cap g \<and>
     (rg_queue g \<noteq> [] \<longrightarrow> rg_running g = rg_cap g) \<and>
     high_first (rg_queue g) \<and> distinct (map qf_part (rg_queue g)) \<and>
     (\<forall>part s. rg_slots g part = Some s \<longrightarrow> s < rg_fresh g \<and> (fs_queued (rg_store g s) \<longleftrightarrow> part \<in> qf_part ` set (rg_queue g))) \<and>
     qf_part ` set (rg_queue g) \<subseteq> dom (rg_slots g) \<and>
     inj_on (rg_slots g) (dom (rg_slots g))"

text \<open>The two classes of the queue.\<close>

definition lanes :: "queued_fetch list \<Rightarrow> (string \<times> nat) list \<times> (string \<times> nat) list" where
  "lanes q = (map (\<lambda>e. (qf_part e, qf_starter e)) (filter qf_high q), map (\<lambda>e. (qf_part e, qf_starter e)) (filter (\<lambda>e. \<not> qf_high e) q))"

lemma high_first_split:
  "high_first q \<longleftrightarrow> q = filter qf_high q @ filter (\<lambda>e. \<not> qf_high e) q"
proof (induction q)
  case (Cons e q)
  have low: "\<forall>x\<in>set q. \<not> qf_high x \<Longrightarrow> high_first q" for q by (induction q) (auto simp: high_first_def)
  have "qf_high e \<Longrightarrow> high_first (e # q) \<longleftrightarrow> high_first q" by (auto simp: high_first_def)
  moreover have "\<not> qf_high e \<Longrightarrow> high_first (e # q) \<longleftrightarrow> (\<forall>x\<in>set q. \<not> qf_high x)"
    using low [of q] by (auto simp: high_first_def)
  moreover have "e # q = filter qf_high q @ e # filter (\<lambda>e. \<not> qf_high e) q \<longleftrightarrow> (\<forall>x\<in>set q. \<not> qf_high x)" if "\<not> qf_high e"
  proof (cases "filter qf_high q")
    case Nil
    then show ?thesis by (auto simp: filter_empty_conv filter_id_conv)
  next
    case (Cons y ys)
    then have "y \<in> set q" "qf_high y" by (auto simp: filter_eq_Cons_iff)
    with that show ?thesis unfolding Cons by auto
  qed
  ultimately show ?case using Cons.IH by (cases "qf_high e") auto
qed (simp add: high_first_def)

lemma segment_split: "high_first q \<Longrightarrow> take (high_segment_end q) q = filter qf_high q \<and> drop (high_segment_end q) q = filter (\<lambda>e. \<not> qf_high e) q"
proof -
  assume "high_first q"
  then have q: "q = filter qf_high q @ filter (\<lambda>e. \<not> qf_high e) q" by (simp add: high_first_split)
  have "takeWhile qf_high (filter qf_high q @ filter (\<lambda>e. \<not> qf_high e) q) = filter qf_high q"
    by (cases "filter (\<lambda>e. \<not> qf_high e) q") (auto simp: takeWhile_append filter_eq_Cons_iff)
  with q have "high_segment_end q = length (filter qf_high q)" by (simp add: high_segment_end_def)
  with q show ?thesis by (metis append_eq_conv_conj)
qed

lemma insert_high:
  assumes "high_first q" and "qf_high e"
  shows "insert_at (high_segment_end q) e q = filter qf_high q @ e # filter (\<lambda>x. \<not> qf_high x) q"
  using segment_split [OF assms(1)] by (simp add: insert_at_def)

lemma insert_high_first:
  assumes "high_first q" and "qf_high e"
  shows "high_first (insert_at (high_segment_end q) e q)"
  unfolding insert_high [OF assms] high_first_split using assms(2) by (simp add: filter_empty_conv)

lemma set_insert_at: "set (insert_at i x xs) = insert x (set xs)"
  by (simp add: insert_at_def) (metis Un_insert_right append_take_drop_id set_append)

lemma enqueue_high_first: "high_first q \<Longrightarrow> high_first (enqueue_fetch e q)"
  by (auto simp: enqueue_fetch_def insert_high_first) (auto simp: high_first_def sorted_wrt_append)

lemma set_enqueue: "set (enqueue_fetch e q) = insert e (set q)"
  by (simp add: enqueue_fetch_def set_insert_at)

lemma length_insert_at [simp]: "length (insert_at i x xs) = Suc (length xs)"
  by (simp add: insert_at_def)

lemma map_insert_at: "map f (insert_at i x xs) = insert_at i (f x) (map f xs)"
  by (simp add: insert_at_def take_map drop_map)

lemma distinct_insert_at: "distinct (insert_at i x xs) \<longleftrightarrow> x \<notin> set xs \<and> distinct xs"
proof -
  have "distinct (a @ x # b) \<longleftrightarrow> x \<notin> set (a @ b) \<and> distinct (a @ b)" for a b by auto
  from this [of "take i xs" "drop i xs"] show ?thesis unfolding insert_at_def append_take_drop_id .
qed

lemma distinct_enqueue: "distinct (map qf_part (enqueue_fetch e q)) \<longleftrightarrow> qf_part e \<notin> qf_part ` set q \<and> distinct (map qf_part q)"
  by (auto simp: enqueue_fetch_def map_insert_at distinct_insert_at)

lemma remove_part_spec:
  "remove_part part q = Some (e, r) \<Longrightarrow> \<exists>a b. q = a @ e # b \<and> r = a @ b \<and> qf_part e = part \<and> part \<notin> qf_part ` set a"
proof (induction q arbitrary: r)
  case (Cons x q)
  show ?case
  proof (cases "qf_part x = part")
    case True
    with Cons.prems show ?thesis by (intro exI [of _ "[]"] exI [of _ q]) simp
  next
    case False
    then obtain r' where r': "remove_part part q = Some (e, r')" "r = x # r'" using Cons.prems by auto
    from Cons.IH [OF r'(1)] obtain a b where "q = a @ e # b" "r' = a @ b" "qf_part e = part" "part \<notin> qf_part ` set a" by blast
    with r' False show ?thesis by (intro exI [of _ "x # a"] exI [of _ b]) auto
  qed
qed simp

lemma high_first_sub: "high_first (a @ e # b) \<Longrightarrow> high_first (a @ b)"
  by (auto simp: high_first_def sorted_wrt_append)

lemma high_first_filter: "high_first q \<Longrightarrow> high_first (filter P q)"
  by (simp add: high_first_def sorted_wrt_filter)

text \<open>Adding a fresh slot, and dropping one.\<close>

lemma registry_ok_steps:
  assumes ok: "registry_ok cap g active"
  shows "submit_with_priority part starter high g = (s, go, g') \<Longrightarrow> registry_ok cap g' (start_task go active)"
    and "registry_ok cap (snd (promote_fetch part g)) active"
    and "t \<in> set active \<Longrightarrow> task_finished g = (go, g') \<Longrightarrow> registry_ok cap g' (start_task go (remove1 t active))"
    and "registry_ok cap (remove_slot part g) active"
    and "registry_ok cap (slot_finish a res g) active"
proof -
  have inj: "inj_on (rg_slots g) (dom (rg_slots g))" and old: "\<And>p s. rg_slots g p = Some s \<Longrightarrow> s < rg_fresh g"
    and flag: "\<And>p s. rg_slots g p = Some s \<Longrightarrow> fs_queued (rg_store g s) \<longleftrightarrow> p \<in> qf_part ` set (rg_queue g)"
    and sub: "qf_part ` set (rg_queue g) \<subseteq> dom (rg_slots g)"
    using ok by (auto simp: registry_ok_def)
  have same: "rg_slots g p = Some s \<Longrightarrow> rg_slots g p' = Some s \<Longrightarrow> p = p'" for p p' s
    using inj by (auto simp: inj_on_def dom_def)
  show "registry_ok cap g' (start_task go active)" if sb: "submit_with_priority part starter high g = (s, go, g')"
  proof (cases "rg_slots g part")
    case (Some s)
    with sb ok show ?thesis by (simp add: submit_with_priority_def start_task_def)
  next
    case None
    then have fresh: "part \<notin> qf_part ` set (rg_queue g)" using sub by auto
    let ?n = "rg_fresh g" and ?slots = "(rg_slots g)(part \<mapsto> rg_fresh g)"
    have newinj: "inj_on ?slots (dom ?slots)"
      unfolding inj_on_def
    proof (intro ballI impI)
      fix p p' assume p: "p \<in> dom ?slots" "p' \<in> dom ?slots" and eq: "?slots p = ?slots p'"
      obtain s where s: "?slots p = Some s" using p(1) by blast
      with eq have s': "?slots p' = Some s" by simp
      show "p = p'"
      proof (rule ccontr)
        assume ne: "p \<noteq> p'"
        then consider "p = part" "p' \<noteq> part" | "p' = part" "p \<noteq> part" | "p \<noteq> part" "p' \<noteq> part" by blast
        then show False
        proof cases
          case 1
          with s s' have "rg_slots g p' = Some ?n" by simp
          with old [of p' ?n] show False by simp
        next
          case 2
          with s s' have "rg_slots g p = Some ?n" by simp
          with old [of p ?n] show False by simp
        next
          case 3
          with s s' same ne show False by simp
        qed
      qed
    qed
    have lt: "?slots p = Some s \<Longrightarrow> s < Suc ?n" for p s using old [of p s] by (auto split: if_splits)
    have neq: "p \<noteq> part \<Longrightarrow> ?slots p = Some s \<Longrightarrow> s \<noteq> ?n \<and> (fs_queued (rg_store g s) \<longleftrightarrow> p \<in> qf_part ` set (rg_queue g))" for p s
      using old [of p s] flag [of p s] by auto
    show ?thesis
    proof (cases "rg_running g < rg_cap g")
      case True
      then have q: "rg_queue g = []" using ok by (auto simp: registry_ok_def)
      have g': "g' = g\<lparr>rg_slots := ?slots, rg_store := (rg_store g)(?n := slot_new), rg_fresh := ?n + 1, rg_running := rg_running g + 1\<rparr>" "go = Some starter"
        using sb None True by (auto simp: submit_with_priority_def Let_def)
      have "fs_queued (rg_store g' s) \<longleftrightarrow> p \<in> qf_part ` set (rg_queue g')" if "?slots p = Some s" for p s
        using that neq [of p s] by (cases "p = part") (auto simp: g' q slot_new_def)
      then show ?thesis using ok True newinj lt unfolding registry_ok_def by (simp add: g' q start_task_def high_first_def)
    next
      case False
      let ?e = "\<lparr>qf_part = part, qf_starter = starter, qf_high = high\<rparr>"
      have g': "g' = g\<lparr>rg_slots := ?slots, rg_store := (rg_store g)(?n := slot_new\<lparr>fs_queued := True\<rparr>), rg_fresh := ?n + 1,
          rg_queue := enqueue_fetch ?e (rg_queue g)\<rparr>" "go = None"
        using sb None False by (auto simp: submit_with_priority_def set_queued_def Let_def)
      have "high_first (enqueue_fetch ?e (rg_queue g))" "distinct (map qf_part (enqueue_fetch ?e (rg_queue g)))"
        using ok fresh by (simp_all add: registry_ok_def enqueue_high_first distinct_enqueue)
      moreover have "fs_queued (rg_store g' s) \<longleftrightarrow> p \<in> qf_part ` set (rg_queue g')" if "?slots p = Some s" for p s
        using that neq [of p s] by (cases "p = part") (auto simp: g' set_enqueue)
      moreover have "qf_part ` set (rg_queue g') \<subseteq> dom ?slots" using sub by (auto simp: g' set_enqueue)
      ultimately show ?thesis using ok False newinj lt unfolding registry_ok_def by (simp add: g' start_task_def)
    qed
  qed
  show "registry_ok cap (slot_finish a res g) active"
    using ok by (auto simp: slot_finish_def registry_ok_def)
  show "registry_ok cap (remove_slot part g) active"
  proof -
    have "distinct (map qf_part (drop_part part (rg_queue g)))" using ok by (simp add: registry_ok_def drop_part_def distinct_map_filter)
    moreover have "high_first (drop_part part (rg_queue g))" using ok by (simp add: registry_ok_def drop_part_def high_first_filter)
    moreover have "inj_on ((rg_slots g)(part := None)) (dom (rg_slots g) - {part})" using inj by (auto simp: inj_on_def)
    ultimately show ?thesis using ok by (auto simp: remove_slot_def registry_ok_def drop_part_def)
  qed
  show "registry_ok cap (snd (promote_fetch part g)) active"
  proof (cases "remove_part part (rg_queue g)")
    case None
    with ok show ?thesis by (simp add: promote_fetch_def)
  next
    case (Some er)
    obtain e r where er: "er = (e, r)" by fastforce
    obtain a b where ab: "rg_queue g = a @ e # b" "r = a @ b" "qf_part e = part" using remove_part_spec Some er by blast
    have "high_first r" using ok ab high_first_sub by (auto simp: registry_ok_def)
    then have hf: "high_first (insert_at (high_segment_end r) (e\<lparr>qf_high := True\<rparr>) r)" by (simp add: insert_high_first)
    have "distinct (map qf_part (insert_at (high_segment_end r) (e\<lparr>qf_high := True\<rparr>) r))"
      using ok ab by (auto simp: registry_ok_def map_insert_at distinct_insert_at)
    moreover have "qf_part ` set (insert_at (high_segment_end r) (e\<lparr>qf_high := True\<rparr>) r) = qf_part ` set (rg_queue g)"
      using ab by (auto simp: set_insert_at)
    ultimately show ?thesis using ok hf Some er ab(1) by (auto simp: promote_fetch_def registry_ok_def)
  qed
  show "registry_ok cap g' (start_task go (remove1 t active))" if t: "t \<in> set active" and tf: "task_finished g = (go, g')"
  proof (cases "rg_queue g")
    case Nil
    with t tf ok show ?thesis
      by (auto simp: task_finished_def registry_ok_def start_task_def length_remove1)
  next
    case (Cons e q)
    obtain s where s: "rg_slots g (qf_part e) = Some s" using sub Cons by auto
    have hf: "high_first q" using ok Cons by (auto simp: registry_ok_def high_first_def)
    let ?g1 = "g\<lparr>rg_running := rg_running g - 1 + 1, rg_queue := q\<rparr>"
    have g': "go = Some (qf_starter e)" "g' = set_queued s False ?g1" using tf Cons s by (simp_all add: task_finished_def Let_def)
    have run: "rg_running g = length active" "length active > 0" using ok t by (auto simp: registry_ok_def)
    have dist: "distinct (map qf_part (e # q))" using ok Cons by (simp add: registry_ok_def)
    have "fs_queued (rg_store g' s') \<longleftrightarrow> p \<in> qf_part ` set q" if p: "rg_slots g p = Some s'" for p s'
    proof (cases "s' = s")
      case True
      then have "p = qf_part e" using same p s by simp
      with True dist show ?thesis by (auto simp: g' set_queued_def)
    next
      case False
      then have "p \<noteq> qf_part e" using p s by auto
      with False flag [OF p] Cons show ?thesis by (auto simp: g' set_queued_def)
    qed
    moreover have "rg_running g' = length (start_task go (remove1 t active))" using run t by (simp add: g' set_queued_def start_task_def length_remove1)
    moreover have "length (start_task go (remove1 t active)) = length active" using run t by (simp add: g' start_task_def length_remove1)
    moreover have "rg_slots g' = rg_slots g" "rg_queue g' = q" "rg_cap g' = rg_cap g" "rg_fresh g' = rg_fresh g" by (simp_all add: g' set_queued_def)
    moreover have "qf_part ` set q \<subseteq> dom (rg_slots g)" using sub Cons by auto
    ultimately show ?thesis using ok hf dist old inj run Cons unfolding registry_ok_def by simp
  qed
qed

lemma cancel_ok: "registry_ok cap g active \<Longrightarrow> registry_ok cap (snd (cancel_if_queued part g)) active"
proof -
  assume ok: "registry_ok cap g active"
  have "g\<lparr>rg_queue := drop_part part (rg_queue g), rg_slots := (rg_slots g)(part := None)\<rparr> = remove_slot part g"
    by (simp add: remove_slot_def)
  with registry_ok_steps(4) [OF ok, of part] ok show ?thesis by (simp add: cancel_if_queued_def)
qed

lemma registry_run_ok: "registry_run cap g active \<Longrightarrow> registry_ok cap g active"
proof (induction rule: registry_run.induct)
  case begin_run
  show ?case by (simp add: registry_ok_def registry_with_cap_def high_first_def)
next
  case submit
  then show ?case by (intro registry_ok_steps(1))
next
  case promote
  then show ?case by (intro registry_ok_steps(2))
next
  case finished
  then show ?case by (intro registry_ok_steps(3))
next
  case cancel
  then show ?case by (intro cancel_ok)
next
  case remove
  then show ?case by (intro registry_ok_steps(4))
next
  case outcome
  then show ?case by (intro registry_ok_steps(5))
qed

subsection \<open>Properties\<close>

text \<open>C13. However callers submit, promote, cancel and remove and however downloads finish, at most \<open>cap\<close> run,
  a part waits only while that many do, high entries wait in front of the normal ones, and a slot is
  flagged as queued exactly when its part is in the queue.\<close>

theorem registry_admission:
  assumes "registry_run cap g active"
  shows "length active \<le> max cap 1 \<and> rg_running g = length active \<and> (rg_queue g = [] \<or> length active = max cap 1) \<and>
    high_first (rg_queue g) \<and> distinct (map qf_part (rg_queue g)) \<and>
    {part. \<exists>s. rg_slots g part = Some s \<and> fs_queued (rg_store g s)} = qf_part ` set (rg_queue g)"
  using registry_run_ok [OF assms] unfolding registry_ok_def by (auto 4 3)

text \<open>The operations on the two lanes.\<close>

definition lane_next :: "(string \<times> nat) list \<times> (string \<times> nat) list \<Rightarrow> nat option \<times> (string \<times> nat) list \<times> (string \<times> nat) list" where
  "lane_next l = (case l of ((p, s) # hs, ns) \<Rightarrow> (Some s, hs, ns) | ([], (p, s) # ns) \<Rightarrow> (Some s, [], ns) | ([], []) \<Rightarrow> (None, [], []))"

definition lane_submit :: "string \<Rightarrow> nat \<Rightarrow> bool \<Rightarrow> (string \<times> nat) list \<times> (string \<times> nat) list \<Rightarrow> (string \<times> nat) list \<times> (string \<times> nat) list" where
  "lane_submit part starter high l = (if high then (fst l @ [(part, starter)], snd l) else (fst l, snd l @ [(part, starter)]))"

definition lane_promote :: "string \<Rightarrow> (string \<times> nat) list \<times> (string \<times> nat) list \<Rightarrow> (string \<times> nat) list \<times> (string \<times> nat) list" where
  "lane_promote part l = (fst l @ filter (\<lambda>x. fst x = part) (snd l), filter (\<lambda>x. fst x \<noteq> part) (snd l))"

lemma lanes_enqueue:
  "high_first q \<Longrightarrow> lanes (enqueue_fetch \<lparr>qf_part = part, qf_starter = starter, qf_high = high\<rparr> q) = lane_submit part starter high (lanes q)"
  by (auto simp: enqueue_fetch_def lanes_def lane_submit_def insert_high)

lemma lanes_pop:
  assumes "high_first (e # q)"
  shows "lane_next (lanes (e # q)) = (Some (qf_starter e), lanes q)"
proof (cases "qf_high e")
  case True
  then show ?thesis by (simp add: lanes_def lane_next_def)
next
  case False
  then have "filter qf_high q = []" using assms by (auto simp: high_first_def filter_empty_conv)
  with False show ?thesis by (simp add: lanes_def lane_next_def)
qed

lemma lanes_promote:
  assumes hf: "high_first q" and dist: "distinct (map qf_part q)"
  shows "lanes (rg_queue (snd (promote_fetch part (g\<lparr>rg_queue := q\<rparr>)))) = lane_promote part (lanes q)"
proof (cases "remove_part part q")
  case None
  have "remove_part part q = None \<Longrightarrow> part \<notin> qf_part ` set q" for q by (induction q) (auto split: if_splits)
  then have no: "qf_part x \<noteq> part" if "x \<in> set q" for x using None that by auto
  then have "filter (\<lambda>x. \<not> qf_high x \<and> qf_part x = part) q = []" "filter (\<lambda>x. \<not> qf_high x \<and> qf_part x \<noteq> part) q = filter (\<lambda>x. \<not> qf_high x) q"
    by (auto simp: filter_empty_conv intro: filter_cong)
  with None show ?thesis by (simp add: promote_fetch_def lanes_def lane_promote_def filter_map comp_def)
next
  case (Some er)
  obtain e r where er: "er = (e, r)" by fastforce
  obtain a b where ab: "q = a @ e # b" "r = a @ b" "qf_part e = part" using remove_part_spec Some er by blast
  have others: "qf_part x \<noteq> part" if "x \<in> set (a @ b)" for x
  proof
    assume "qf_part x = part"
    then have "part \<in> qf_part ` set (a @ b)" using that by (metis imageI)
    moreover have "qf_part e \<notin> qf_part ` set (a @ b)" using dist ab(1) by auto
    ultimately show False using ab(3) by simp
  qed
  have f1: "filter (\<lambda>x. \<not> qf_high x \<and> qf_part x = part) c = []" "filter (\<lambda>x. \<not> qf_high x \<and> qf_part x \<noteq> part) c = filter (\<lambda>x. \<not> qf_high x) c"
    if "set c \<subseteq> set (a @ b)" for c
    using others that by (auto simp: filter_empty_conv intro!: filter_cong)
  note f2 = f1 [of a] f1 [of b]
  show ?thesis
  proof (cases "qf_high e")
    case True
    then show ?thesis using Some er f2 ab
      by (simp add: promote_fetch_def lanes_def lane_promote_def filter_map comp_def)
  next
    case False
    have "high_first r" using hf ab high_first_sub by auto
    then have "lanes (insert_at (high_segment_end r) (e\<lparr>qf_high := True\<rparr>) r) =
        (fst (lanes r) @ [(part, qf_starter e)], snd (lanes r))"
      using ab(3) by (simp add: insert_high lanes_def)
    then show ?thesis using Some er f2 ab False
      by (simp add: promote_fetch_def lanes_def lane_promote_def filter_map comp_def)
  qed
qed

text \<open>C14. The queue is two first-in first-out lanes: a submission joins the end of its lane, a promotion moves a
  waiting part to the end of the high lane, and a finished download starts the head of the high lane,
  or of the normal lane when that is empty.\<close>

theorem registry_refines_lanes:
  assumes "registry_run cap g active"
  shows "(case submit_with_priority part starter high g of (s, go, g') \<Rightarrow>
       go = (if rg_slots g part = None \<and> length active < max cap 1 then Some starter else None) \<and>
       lanes (rg_queue g') = (if rg_slots g part = None \<and> length active = max cap 1 then lane_submit part starter high (lanes (rg_queue g))
         else lanes (rg_queue g))) \<and>
    (fst (task_finished g), lanes (rg_queue (snd (task_finished g)))) = lane_next (lanes (rg_queue g)) \<and>
    lanes (rg_queue (snd (promote_fetch part g))) = lane_promote part (lanes (rg_queue g))"
proof -
  note ok = registry_run_ok [OF assms]
  then have hf: "high_first (rg_queue g)" and dist: "distinct (map qf_part (rg_queue g))"
    and run: "rg_running g = length active" "rg_cap g = max cap 1" "length active \<le> max cap 1"
    by (auto simp: registry_ok_def)
  have "(fst (task_finished g), lanes (rg_queue (snd (task_finished g)))) = lane_next (lanes (rg_queue g))"
  proof (cases "rg_queue g")
    case Nil
    then show ?thesis by (simp add: task_finished_def lanes_def lane_next_def)
  next
    case (Cons e q)
    with hf lanes_pop [of e q] show ?thesis by (auto simp: task_finished_def set_queued_def Let_def split: option.split)
  qed
  moreover have "lanes (rg_queue (snd (promote_fetch part g))) = lane_promote part (lanes (rg_queue g))"
    using lanes_promote [OF hf dist, of part g] by simp
  ultimately show ?thesis using run hf
    by (auto simp: submit_with_priority_def set_queued_def lanes_enqueue Let_def split: option.splits)
qed

text \<open>Two running downloads, a waiting one that is promoted, and one that finishes.\<close>

definition registry_two :: registry where
  "registry_two = snd (snd (submit_fetch ''b'' 2 (snd (snd (submit_fetch ''a'' 1 (registry_with_cap 2))))))"

definition registry_sample :: registry where
  "registry_sample = snd (promote_fetch ''c'' (snd (snd (submit_fetch ''c'' 3 registry_two))))"

lemmas registry_evals = submit_fetch_def submit_with_priority_def registry_with_cap_def set_queued_def Let_def enqueue_fetch_def
  promote_fetch_def insert_at_def high_segment_end_def task_finished_def lanes_def registry_two_def registry_sample_def

lemma sample_run: "registry_run 2 registry_sample [2, 1]"
proof -
  let ?g1 = "snd (snd (submit_fetch ''a'' 1 (registry_with_cap 2)))" and ?g3 = "snd (snd (submit_fetch ''c'' 3 registry_two))"
  have eval: "\<exists>s. submit_with_priority ''a'' 1 False (registry_with_cap 2) = (s, Some 1, ?g1)"
    "\<exists>s. submit_with_priority ''b'' 2 False ?g1 = (s, Some 2, registry_two)"
    "\<exists>s. submit_with_priority ''c'' 3 False registry_two = (s, None, ?g3)"
    by (simp_all add: submit_fetch_def submit_with_priority_def registry_with_cap_def registry_two_def set_queued_def Let_def)
  have "registry_run 2 ?g1 [1]" using submit [OF begin_run] eval(1) by (force simp: start_task_def)
  then have "registry_run 2 registry_two [2, 1]" using submit eval(2) by (force simp: start_task_def)
  then have "registry_run 2 ?g3 [2, 1]" using submit eval(3) by (force simp: start_task_def)
  then show ?thesis unfolding registry_sample_def by (rule promote)
qed

lemma registry_admission_witness:
  "length [2::nat, 1] \<le> max 2 1 \<and> high_first (rg_queue registry_sample) \<and> qf_part ` set (rg_queue registry_sample) = {''c''}"
  using registry_admission [OF sample_run] by (simp add: registry_evals)

lemma registry_refines_lanes_witness: "lane_next (lanes (rg_queue registry_sample)) = (Some 3, [], [])"
proof -
  have "(fst (task_finished registry_sample), lanes (rg_queue (snd (task_finished registry_sample)))) = lane_next (lanes (rg_queue registry_sample))"
    using registry_refines_lanes [OF sample_run] by blast
  then show ?thesis by (simp add: registry_evals)
qed

end
