(* ===== verification/Spec2Isabelle.thy ===== *)
theory Spec2Isabelle
  imports Turnstile Ring_Buffer Pull Gc Snapshots Logins Admin Relay_Config Convergence Reconcile Cutover Fetch_Registry
begin

text \<open>
  YapStack: end-to-end encrypted synchronisation of a local library of recordings and notes.

  \<^bold>\<open>The program.\<close> A desktop app keeps its library in SQLite. When sync is enabled, the database is
  converted so that the cr-sqlite extension tracks changes (the \<^emph>\<open>cutover\<close>). A device then captures its
  own change rows, encrypts them and puts them into an outbox, pushes the outbox to the relay, pulls
  what other devices pushed, decrypts and merges it, and repairs what a merge may leave (references
  to deleted rows, duplicates). The relay never sees plaintext: it keeps an append-only, densely
  numbered log per tenant, meters storage, stores audio blobs and snapshots by presigned URLs, keeps
  the signed list of devices, and authenticates devices by tokens and proofs of possession.

  \<^bold>\<open>How code becomes definitions.\<close> Names are those of the source. A handler of the relay is one function
  from the request, the clock, the random values and the tables to an answer and the tables; a
  transaction is all or nothing (\<open>run_tx\<close>), errors are the left of a sum, a panic or a call that does
  not return is \<open>None\<close>. Machine integers are words, or integers with the range written out. A table is a
  list of records. Client code is a function on one record of the local tables (\<open>client_db\<close>) and, where
  it talks to the relay, on a pair of it and the world behind the transport. The standard library's
  functions that matter are written out (\<open>Parse\<close>, percent and hexadecimal encoding, UTF-8); third-party
  code is a parameter: \<open>crates\<close> (hashes, HMAC, Argon2, Ed25519, JWT, base64), \<open>aead\<close> (XChaCha20-Poly1305
  and the STREAM construction), \<open>crsql\<close> (cr-sqlite), \<open>crr_hooks\<close> (the clock entries of its triggers),
  \<open>storage_service\<close>. What is assumed of them are named hypotheses: \<open>hmac_law\<close>, \<open>jwt_law\<close>, \<open>b64_law\<close>,
  \<open>aead_law\<close>, \<open>stream_law\<close> (documented behaviour), \<open>schema_law\<close> and \<open>merge_law\<close> (a merge changes no schema
  and loses no merged row), \<open>hooks_law\<close>. Authenticity is assumed of the bytes that were served only
  (\<open>unforged\<close>, \<open>stream_unforged\<close>: what opens among them had been sealed), which a correct cipher can meet;
  the witnesses instantiate it with a cipher that also obeys the round-trip laws. That the extension
  applies a row is never a law: a refused row is a branch of the model (\<open>refuses\<close>), and where a property
  needs rows that apply it says so of the rows at hand (\<open>rows_apply\<close>).

  \<^bold>\<open>Theories and source files\<close> (under \<open>src/crates\<close>, where nothing else is said):

  \<^item> \<open>Prelude\<close>, \<open>Relay_Types\<close>, \<open>Parse\<close>, \<open>Crates\<close>: the shared vocabulary, its simplification rules
    (\<open>result_simps\<close>), text functions, the third-party parameters and the key derivation of
    \<open>yapstack-crypto/src/hkdf.rs\<close> and \<open>kdf.rs\<close>.
  \<^item> The relay, \<open>yapstack-server/src\<close>: \<open>Relay_Db\<close> (migrations, \<open>db.rs\<close>), \<open>Entitlements\<close>
    (\<open>yapstack-entitlements\<close>), \<open>Choke\<close>, \<open>Rate_Limit\<close>, \<open>Client_Ip\<close> (\<open>extract.rs\<close>), \<open>Relay_Config\<close>, \<open>Devices\<close>,
    \<open>Capability\<close>, \<open>Push\<close>, \<open>Pull\<close> (with \<open>completeness.rs\<close> and the wakeups of \<open>sse.rs\<close>), \<open>Tokens\<close> (\<open>jwt.rs\<close>,
    \<open>extract.rs\<close>), \<open>Auth\<close>, \<open>Admin\<close>, \<open>Object_Storage\<close> (\<open>storage.rs\<close>), \<open>Audio_Blobs\<close> (\<open>audio.rs\<close>), \<open>Gc\<close>, \<open>Snapshots\<close>.
    \<open>Sessions\<close> and \<open>Logins\<close> hold what the auth handlers guarantee together.
  \<^item> Encryption: \<open>Envelopes\<close> (\<open>yapstack-crypto/src/aead.rs\<close>, \<open>audio_stream.rs\<close>), \<open>Changesets\<close>
    (\<open>yapstack-sync/src/change.rs\<close>, \<open>crypto.rs\<close>).
  \<^item> The client, \<open>yapstack-sync/src\<close>: \<open>Client_State\<close> (\<open>state.rs\<close>), \<open>Capture\<close>, \<open>Outbox_Push\<close> and \<open>Drain\<close>
    (\<open>outbox.rs\<close>), \<open>Quarantine\<close>, \<open>Relay_Client\<close> (\<open>transport.rs\<close>), \<open>Reconcile\<close> (\<open>cascade.rs\<close>,
    \<open>uniqueness.rs\<close>), \<open>Fetch_Registry\<close> (\<open>audio.rs\<close>). \<open>Outbox_Delivery\<close> and \<open>Convergence\<close> put the client in front
    of the relay's own handlers, over a network that loses requests and answers.
  \<^item> \<open>Cutover\<close>: the conversion of the live database and its recovery, \<open>sync.rs\<close> of
    \<open>apps/desktop/src-tauri/src\<close>; the account binding of the same file is in \<open>Drain\<close>.
  \<^item> \<open>Turnstile\<close> (\<open>yapstack-common/src/write_turnstile.rs\<close>) and \<open>Ring_Buffer\<close> (\<open>yapstack-audio\<close>): the two
    concurrency primitives.

  \<^bold>\<open>What is shown.\<close>

  \<^item> \<^emph>\<open>The log.\<close> A push refines appending to a log with dense numbers; paging with the returned cursor gives
    every change once and in order (\<open>Push\<close>, \<open>Pull\<close>); metering refines the published limits (\<open>Choke\<close>).
  \<^item> \<^emph>\<open>No change is lost on the way.\<close> Every own row at or below the push watermark is in an outbox entry,
    beside writers, crashes, restarts and counter repairs (\<open>Capture\<close>); an entry is acknowledged only when
    the relay holds it (\<open>Outbox_Delivery\<close>, through the locale \<open>relay_contract\<close>); every change up to the pull
    watermark is merged, stashed or kept as ciphertext, through crashes and account switches (\<open>Convergence\<close>,
    through the locale \<open>pull_contract\<close>), with the one loss that an account switch can cause stated in the
    property; so what one device wrote reaches the others. Deletes are never overtaken and a stash
    converges (\<open>Quarantine\<close>); the passes after a merge close references and keep one winner (\<open>Reconcile\<close>).
  \<^item> \<^emph>\<open>The library survives the cutover\<close>, whatever fails and wherever it is cut off (\<open>Cutover\<close>).
  \<^item> \<^emph>\<open>Cryptographic binding.\<close> Audio and changesets that open were sealed for that place; round trips; the
    codec is exact (\<open>Envelopes\<close>, \<open>Changesets\<close>, through the locale \<open>wire_codec\<close>).
  \<^item> \<^emph>\<open>Who may do what.\<close> The roster cannot be rolled back or written without authorization, removal revokes,
    sessions have one live token, replayed tokens and proofs are refused, the floor rises only on
    evidence, the rate-limit key cannot be chosen (\<open>Devices\<close>, \<open>Sessions\<close>, \<open>Logins\<close>, \<open>Capability\<close>, \<open>Client_Ip\<close>).
  \<^item> \<^emph>\<open>Audio at rest.\<close> Mapping counts are exact under serial requests and a sweep with no request in between
    deletes nothing in use; \<open>Gc\<close> also shows two interleavings of requests that lose audio.
  \<^item> \<^emph>\<open>Primitives.\<close> Mutual exclusion of the turnstile, the ring buffer as a window of a stream, the download
    queue as two lanes under a cap.

  \<^bold>\<open>Bounds and fuel.\<close> The push loop stops at its own cap of 100,000 turns, which the model counts down.
  The pull loop ends when the relay says so; its fuel is one unit per page of at most 500 changes, and
  a fuel of the changes left divided by 500, rounded up, is enough when the log stands still
  (\<open>pull_reaches_tip\<close>). All other loops are structural or have a measure. A crash of the cutover is any
  prefix of its file operations; a crash of a drain is a cut between its transactions.

  \<^bold>\<open>Not modelled.\<close> Reordered directory writes and torn pages under the file system; overlapping
  transactions of the relay except where a theory names them (\<open>Gc\<close>); the torn read of the ring buffer
  when the producer laps the reader; running out of memory, but for the decoder's reservation
  (\<open>decode_in_memory\<close>); pauses, progress callbacks and logging. Creating and migrating tables, the HTTP
  router and configuration files, the transfer of audio files and snapshots, live transcription, audio
  devices and mixing (floating point and platform calls), the app's commands, its local queries and the
  user interface are left out. cr-sqlite is third-party code under \<open>src/vendor\<close> and a parameter here.
\<close>

end
